(* ===== verification/Prelude.thy ===== *)
theory Prelude
  imports Main "HOL-Library.Word"
begin

text \<open>
  Shared vocabulary of the development: the fixed-width integer types of
  \<^verbatim>\<open>include/uk/types.hpp\<close>, the result type of fallible calls
  (\<^verbatim>\<open>kernel/core/result.hpp\<close>), the outcome of calls that may end in
  \<^verbatim>\<open>KPANIC\<close>, the collections of simplification rules the component theories
  fill, and the generic facts on words and lists that their proofs use.

  Indices and counts that the code keeps in \<^verbatim>\<open>usize\<close> and that are bounded by the
  length of a static array are natural numbers; addresses, page-table entries and
  every value whose bits or wrap-around matter are words of their width.
\<close>

unbundle bit_operations_syntax

type_synonym u8 = "8 word"
type_synonym u16 = "16 word"
type_synonym u32 = "32 word"
type_synonym u64 = "64 word"
type_synonym usize = nat
type_synonym paddr_t = u64
type_synonym vaddr_t = u64

text \<open>\<^verbatim>\<open>Result<T, E>\<close>: \<open>Ok\<close> carries the value, \<open>Err\<close> the error.\<close>

type_synonym ('a, 'e) result = "'e + 'a"

abbreviation Ok :: "'a \<Rightarrow> ('a, 'e) result" where "Ok \<equiv> Inr"
abbreviation Err :: "'e \<Rightarrow> ('a, 'e) result" where "Err \<equiv> Inl"

text \<open>
  A call that may reach \<^verbatim>\<open>KPANIC\<close> either returns a value or halts the machine
  with a message.
\<close>

datatype 'a outcome = Return 'a | Panic string

fun obind :: "'a outcome \<Rightarrow> ('a \<Rightarrow> 'b outcome) \<Rightarrow> 'b outcome" where
  "obind (Return x) f = f x"
| "obind (Panic m) f = Panic m"

fun returns :: "'a outcome \<Rightarrow> bool" where
  "returns (Return x) = True"
| "returns (Panic m) = False"

lemma obind_Return_iff [simp]:
  "obind m f = Return y \<longleftrightarrow> (\<exists>x. m = Return x \<and> f x = Return y)"
  by (cases m) auto

lemma obind_Panic_iff:
  "obind m f = Panic e \<longleftrightarrow> m = Panic e \<or> (\<exists>x. m = Return x \<and> f x = Panic e)"
  by (cases m) auto

named_theorems bit_spec "bit-level characterisations of the integer helpers"
named_theorems layout "numeric values of the configuration constants"
named_theorems frame_spec "what an operation leaves unchanged"

section \<open>Words\<close>

lemma unat_of_nat_small: "n < 2 ^ LENGTH('a) \<Longrightarrow> unat (of_nat n :: 'a::len word) = n"
  by (simp add: unat_of_nat)

lemma unat_plus_small:
  fixes a b :: "'a::len word"
  assumes "unat a + unat b < 2 ^ LENGTH('a)"
  shows "unat (a + b) = unat a + unat b"
  using assms by (simp add: unat_word_ariths)

lemma unat_minus_le:
  fixes a b :: "'a::len word"
  assumes "b \<le> a"
  shows "unat (a - b) = unat a - unat b"
  using assms by (simp add: unat_sub word_le_nat_alt)

lemma word_nonzero_bit: "(w :: 'a::len word) \<noteq> 0 \<longleftrightarrow> (\<exists>n < LENGTH('a). bit w n)"
  by (metis bit_0_eq bit_imp_le_length bit_word_eqI bot_apply bot_bool_def)

lemma word_zero_bits: "(w :: 'a::len word) = 0 \<longleftrightarrow> (\<forall>n. \<not> bit w n)"
  using word_nonzero_bit [of w] bit_imp_le_length [of w] by blast

lemma and_bit_nonzero:
  fixes w :: "'a::len word"
  assumes "n < LENGTH('a)"
  shows "(w AND push_bit n 1) \<noteq> 0 \<longleftrightarrow> bit w n"
  using assms by (auto simp: word_nonzero_bit bit_simps)

lemma and_exp_nonzero:
  fixes w :: "'a::len word"
  assumes "n < LENGTH('a)"
  shows "(w AND 2 ^ n) \<noteq> 0 \<longleftrightarrow> bit w n"
  using assms by (auto simp: word_nonzero_bit bit_simps)

lemma bit_push_bit_1: "bit (push_bit k (1 :: 'a::len word)) n \<longleftrightarrow> n = k \<and> k < LENGTH('a)"
  by (auto simp: bit_simps)

lemma drop_bit_eq_0_iff:
  "drop_bit k (w :: 'a::len word) = 0 \<longleftrightarrow> (\<forall>n. bit w n \<longrightarrow> n < k)"
proof -
  have "n < LENGTH('a)" if "bit w (k + n)" for n
    using bit_imp_le_length [OF that] by simp
  then have "drop_bit k w = 0 \<longleftrightarrow> (\<forall>n. \<not> bit w (k + n))"
    by (auto simp: bit_eq_iff bit_drop_bit_eq)
  also have "\<dots> \<longleftrightarrow> (\<forall>n. bit w n \<longrightarrow> n < k)"
  proof (intro iffI allI impI)
    fix n assume "\<forall>n. \<not> bit w (k + n)" "bit w n"
    then show "n < k" by (metis le_add_diff_inverse linorder_not_less)
  qed auto
  finally show ?thesis .
qed

lemma bit_max_word: "bit (- 1 :: 'a::len word) n \<longleftrightarrow> n < LENGTH('a)"
  by simp

section \<open>Lists\<close>

text \<open>Repeated assignment \<^verbatim>\<open>a[i] = f(i)\<close> for \<open>i\<close> in a range.\<close>

definition assign_range :: "(nat \<Rightarrow> 'a) \<Rightarrow> nat list \<Rightarrow> 'a list \<Rightarrow> 'a list" where
  "assign_range f is xs = fold (\<lambda>i ys. ys[i := f i]) is xs"

lemma length_assign_range [simp]: "length (assign_range f is xs) = length xs"
  unfolding assign_range_def by (induction "is" arbitrary: xs) auto

lemma nth_assign_range:
  assumes "j < length xs"
  shows "assign_range f is xs ! j = (if j \<in> set is then f j else xs ! j)"
  using assms unfolding assign_range_def
  by (induction "is" arbitrary: xs) (auto simp: nth_list_update)

lemma length_filter_upt_split:
  assumes "a \<le> b" "b \<le> c"
  shows "length (filter P [a..<c]) = length (filter P [a..<b]) + length (filter P [b..<c])"
proof -
  have "[a..<c] = [a..<b] @ [b..<c]"
    using assms by (metis le_iff_add upt_add_eq_append)
  then show ?thesis by simp
qed

lemma card_filter_upt: "card {i. a \<le> i \<and> i < b \<and> P i} = length (filter P [a..<b])"
proof -
  have "{i. a \<le> i \<and> i < b \<and> P i} = set (filter P [a..<b])" by auto
  also have "card (set (filter P [a..<b])) = length (filter P [a..<b])"
    by (intro distinct_card distinct_filter distinct_upt)
  finally show ?thesis .
qed

lemma takeWhile_upt_first:
  assumes "m < n" "\<not> P m"
  defines "k \<equiv> length (takeWhile P [0..<n])"
  shows "k < n" "\<not> P k" "\<And>i. i < k \<Longrightarrow> P i"
proof -
  have "takeWhile P [0..<n] \<noteq> [0..<n]"
    using assms(1,2) by (auto simp: takeWhile_eq_all_conv)
  then have lt: "k < length [0..<n]"
    unfolding k_def by (metis length_takeWhile_le nat_less_le takeWhile_eq_take take_all_iff)
  then show "k < n" by simp
  from nth_length_takeWhile [of P "[0..<n]"] lt show "\<not> P k"
    by (simp add: k_def)
  show "P i" if "i < k" for i
  proof -
    have "takeWhile P [0..<n] ! i = i"
      using that lt by (simp add: k_def takeWhile_nth)
    moreover have "takeWhile P [0..<n] ! i \<in> set (takeWhile P [0..<n])"
      using that unfolding k_def by (rule nth_mem)
    ultimately show ?thesis by (metis set_takeWhileD)
  qed
qed

text \<open>
  In-place loops \<^verbatim>\<open>a[d] = g(d, a)\<close>: when a step only reads entries the earlier steps
  have not written, the result is the pointwise value over the original array.
\<close>

lemma length_fold_update [simp]:
  "length (fold (\<lambda>d ys. ys[d := g d ys]) ds xs) = length xs"
  by (induction ds arbitrary: xs) auto

lemma fold_update_downward:
  assumes reads: "\<And>d xs ys. length xs = length ys \<Longrightarrow> (\<And>j. j \<le> d \<Longrightarrow> xs ! j = ys ! j) \<Longrightarrow> g d xs = g d ys"
    and "n \<le> length xs" "i < length xs"
  shows "fold (\<lambda>d ys. ys[d := g d ys]) (rev [0..<n]) xs ! i = (if i < n then g i xs else xs ! i)"
  using assms(2,3)
proof (induction n arbitrary: xs)
  case 0
  then show ?case by simp
next
  case (Suc n)
  let ?ys = "xs[n := g n xs]"
  have "g i ?ys = g i xs" if "i < n"
    by (rule reads) (use that in auto)
  then show ?case
    using Suc.prems by (auto simp: Suc.IH less_Suc_eq nth_list_update)
qed

lemma fold_update_upward:
  assumes reads: "\<And>d xs ys. length xs = length ys \<Longrightarrow> (\<And>j. d \<le> j \<Longrightarrow> xs ! j = ys ! j) \<Longrightarrow> g d xs = g d ys"
    and "m + n \<le> length xs" "i < length xs"
  shows "fold (\<lambda>d ys. ys[d := g d ys]) [m..<m + n] xs ! i =
    (if m \<le> i \<and> i < m + n then g i xs else xs ! i)"
  using assms(2,3)
proof (induction n arbitrary: m xs)
  case 0
  then show ?case by auto
next
  case (Suc n)
  let ?ys = "xs[m := g m xs]"
  have "g i ?ys = g i xs" if "m < i"
    by (rule reads) (use that in auto)
  moreover have "[m..<m + Suc n] = m # [Suc m..<Suc m + n]"
    by (simp add: upt_conv_Cons)
  ultimately show ?case
    using Suc.prems Suc.IH [of "Suc m" ?ys] by (auto simp: nth_list_update)
qed

text \<open>Opening and closing a gap in an array, one element at a time.\<close>

lemma shift_up_nth:
  assumes "0 < a" "b \<le> length xs" "j < length xs"
  shows "fold (\<lambda>i ys. ys[i := ys ! (i - 1)]) (rev [a..<b]) xs ! j =
    (if a \<le> j \<and> j < b then xs ! (j - 1) else xs ! j)"
  using assms(2,3)
proof (induction b arbitrary: xs)
  case 0
  then show ?case by simp
next
  case (Suc b)
  show ?case
  proof (cases "a \<le> b")
    case True
    then have "fold (\<lambda>i ys. ys[i := ys ! (i - 1)]) (rev [a..<Suc b]) xs =
        fold (\<lambda>i ys. ys[i := ys ! (i - 1)]) (rev [a..<b]) (xs[b := xs ! (b - 1)])"
      by simp
    then show ?thesis
      using Suc.IH [of "xs[b := xs ! (b - 1)]"] Suc.prems True assms(1) by (auto simp: nth_list_update)
  qed (use Suc.prems in auto)
qed

lemma shift_down_nth:
  assumes "0 < a" "b \<le> length xs" "j < length xs"
  shows "fold (\<lambda>i ys. ys[i - 1 := ys ! i]) [a..<b] xs ! j =
    (if a - 1 \<le> j \<and> j + 1 < b then xs ! (j + 1) else xs ! j)"
  using assms(2)
proof (induction b)
  case 0
  then show ?case by simp
next
  case (Suc b)
  let ?ys = "fold (\<lambda>i ys. ys[i - 1 := ys ! i]) [a..<b] xs"
  have len: "length (fold (\<lambda>i ys. ys[i - 1 := ys ! i]) is xs) = length xs" for "is" and xs :: "'a list"
    by (induction "is" arbitrary: xs) auto
  have other: "fold (\<lambda>i ys. ys[i - 1 := ys ! i]) is xs ! k = xs ! k"
    if "\<forall>i \<in> set is. i - 1 < k" for "is" k and xs :: "'a list"
    using that by (induction "is" arbitrary: xs) auto
  show ?case
  proof (cases "a \<le> b")
    case True
    define ys where "ys = ?ys"
    have ys: "ys ! b = xs ! b" "length ys = length xs"
      unfolding ys_def using assms(1) by (intro other len; auto)+
    have "ys ! j = (if a - 1 \<le> j \<and> j + 1 < b then xs ! (j + 1) else xs ! j)"
      unfolding ys_def using Suc by simp
    moreover
    have "fold (\<lambda>i ys. ys[i - 1 := ys ! i]) [a..<Suc b] xs = ys[b - 1 := ys ! b]"
      using True by (simp add: ys_def)
    ultimately show ?thesis
      using ys True assms(1,3) by (cases "j = b - 1") auto
  qed (use Suc.prems in auto)
qed

end
