(* ===== verification/Bits.thy ===== *)
theory Bits
  imports Prelude
begin

text \<open>
  The integer helpers of \<^verbatim>\<open>kernel/core/utils/bits.hpp\<close>: single bits, low masks,
  powers of two and alignment, as functions on words of any width (the C++ templates
  are over any unsigned integer type). The lemmas give each helper its bit-level or
  arithmetic meaning.
\<close>

definition bit_width :: "'a::len word itself \<Rightarrow> nat" where
  "bit_width _ = LENGTH('a)"

definition all_bits :: "'a::len word" where
  "all_bits = NOT 0"

definition bit_w :: "nat \<Rightarrow> 'a::len word" where
  "bit_w index = (if bit_width TYPE('a word) \<le> index then 0 else push_bit index 1)"

definition test_bit :: "'a::len word \<Rightarrow> nat \<Rightarrow> bool" where
  "test_bit value index \<longleftrightarrow>
     index < bit_width TYPE('a word) \<and> (value AND bit_w index) \<noteq> 0"

definition set_bit_w :: "'a::len word \<Rightarrow> nat \<Rightarrow> 'a word" where
  "set_bit_w value index =
     (if bit_width TYPE('a word) \<le> index then value else value OR bit_w index)"

definition clear_bit :: "'a::len word \<Rightarrow> nat \<Rightarrow> 'a word" where
  "clear_bit value index =
     (if bit_width TYPE('a word) \<le> index then value else value AND NOT (bit_w index))"

definition mask_w :: "nat \<Rightarrow> 'a::len word" where
  "mask_w bit_count =
     (if bit_width TYPE('a word) \<le> bit_count then all_bits else bit_w bit_count - 1)"

definition is_power_of_two :: "'a::len word \<Rightarrow> bool" where
  "is_power_of_two value \<longleftrightarrow> value \<noteq> 0 \<and> (value AND (value - 1)) = 0"

definition align_down :: "'a::len word \<Rightarrow> 'a word \<Rightarrow> 'a word" where
  "align_down value alignment = value AND NOT (alignment - 1)"

definition align_up :: "'a::len word \<Rightarrow> 'a word \<Rightarrow> 'a word" where
  "align_up value alignment = align_down (value + alignment - 1) alignment"

definition is_aligned :: "'a::len word \<Rightarrow> 'a word \<Rightarrow> bool" where
  "is_aligned value alignment \<longleftrightarrow> (value AND (alignment - 1)) = 0"

section \<open>Bit-level meaning\<close>

lemma bit_all_bits [bit_spec]: "bit (all_bits :: 'a::len word) n \<longleftrightarrow> n < LENGTH('a)"
  by (simp add: all_bits_def)

lemma bit_bit_w [bit_spec]:
  "bit (bit_w index :: 'a::len word) n \<longleftrightarrow> n = index \<and> n < LENGTH('a)"
  by (auto simp: bit_w_def bit_width_def bit_simps)

lemma test_bit_iff [bit_spec]: "test_bit (value :: 'a::len word) index \<longleftrightarrow> bit value index"
proof (cases "index < LENGTH('a)")
  case True
  then show ?thesis
    by (simp add: test_bit_def bit_w_def bit_width_def and_exp_nonzero)
next
  case False
  then show ?thesis
    by (auto simp: test_bit_def bit_width_def dest: bit_imp_le_length)
qed

lemma bit_set_bit_w [bit_spec]:
  "bit (set_bit_w (value :: 'a::len word) index) n \<longleftrightarrow>
     (n = index \<and> n < LENGTH('a)) \<or> bit value n"
  by (auto simp: set_bit_w_def bit_width_def bit_simps bit_bit_w)

lemma bit_clear_bit [bit_spec]:
  "bit (clear_bit (value :: 'a::len word) index) n \<longleftrightarrow> n \<noteq> index \<and> bit value n"
  by (auto simp: clear_bit_def bit_width_def bit_simps bit_bit_w dest: bit_imp_le_length)

lemma mask_w_eq: "(mask_w n :: 'a::len word) = mask n"
proof (cases "LENGTH('a) \<le> n")
  case True
  then show ?thesis
    by (auto intro!: bit_word_eqI simp: mask_w_def bit_width_def all_bits_def bit_mask_iff)
next
  case False
  then show ?thesis
    by (simp add: mask_w_def bit_width_def bit_w_def mask_eq_exp_minus_1 push_bit_eq_mult)
qed

lemma bit_mask_w [bit_spec]:
  "bit (mask_w c :: 'a::len word) n \<longleftrightarrow> n < c \<and> n < LENGTH('a)"
  by (auto simp: mask_w_eq bit_mask_iff)

section \<open>Powers of two\<close>

lemma word_pow2_minus_1: "(2 ^ k :: 'a::len word) - 1 = mask k"
  by (simp add: mask_eq_exp_minus_1)

lemma pow2_is_power_of_two:
  assumes "k < LENGTH('a)"
  shows "is_power_of_two (2 ^ k :: 'a::len word)"
proof -
  have "(2 ^ k :: 'a word) AND mask k = 0"
    by (auto intro!: bit_word_eqI simp: bit_simps)
  moreover have "(2 ^ k :: 'a word) \<noteq> 0"
    using assms by (simp add: word_nonzero_bit bit_simps exI [of _ k])
  ultimately show ?thesis
    by (simp add: is_power_of_two_def word_pow2_minus_1)
qed

lemma bit_minus_1_above_low:
  fixes w :: "'a::len word"
  assumes low: "\<And>i. i < k \<Longrightarrow> \<not> bit w i" and k: "bit w k" and n: "k < n"
  shows "bit (w - 1) n \<longleftrightarrow> bit w n"
proof -
  have len: "k < LENGTH('a)" using k by (rule bit_imp_le_length)
  define v where "v = w AND NOT (mask (Suc k))"
  have split: "w = v + 2 ^ k"
  proof -
    have "w = v OR 2 ^ k"
    proof (rule bit_word_eqI)
      fix i assume "i < LENGTH('a)"
      then show "bit w i \<longleftrightarrow> bit (v OR 2 ^ k) i"
        using low [of i] k by (cases "i < k"; cases "i = k") (auto simp: v_def bit_simps)
    qed
    also have "v OR 2 ^ k = v + 2 ^ k"
      by (rule disjunctive_add [symmetric]) (auto simp: v_def bit_simps)
    finally show ?thesis .
  qed
  have "w - 1 = v + mask k"
    unfolding split by (simp add: mask_eq_exp_minus_1)
  also have "\<dots> = v OR mask k"
    by (rule disjunctive_add) (auto simp: v_def bit_simps)
  finally show ?thesis
    using n by (auto simp: v_def bit_simps dest: bit_imp_le_length)
qed

lemma is_power_of_two_imp:
  fixes w :: "'a::len word"
  assumes "is_power_of_two w"
  shows "\<exists>k < LENGTH('a). w = 2 ^ k"
proof -
  define k where "k = (LEAST n. bit w n)"
  from assms obtain n where n: "bit w n"
    by (auto simp: is_power_of_two_def word_nonzero_bit)
  then have k: "bit w k" unfolding k_def by (rule LeastI)
  have low: "\<not> bit w i" if "i < k" for i
    using that unfolding k_def by (rule not_less_Least)
  have high: "\<not> bit w i" if "k < i" for i
  proof
    assume "bit w i"
    moreover from bit_minus_1_above_low [OF low k that] have "bit (w - 1) i \<longleftrightarrow> bit w i"
      by simp
    ultimately have "bit (w AND (w - 1)) i" by (simp add: bit_and_iff)
    with assms show False by (simp add: is_power_of_two_def)
  qed
  have "w = 2 ^ k"
  proof (rule bit_word_eqI)
    fix i assume "i < LENGTH('a)"
    then show "bit w i \<longleftrightarrow> bit (2 ^ k :: 'a word) i"
      using k low [of i] high [of i] by (cases i k rule: linorder_cases) (auto simp: bit_simps)
  qed
  with k show ?thesis by (auto dest: bit_imp_le_length)
qed

text \<open>the mask trick recognises exactly the powers of two of the type.\<close>

lemma is_power_of_two_iff:
  "is_power_of_two (w :: 'a::len word) \<longleftrightarrow> (\<exists>k < LENGTH('a). w = 2 ^ k)"
  by (auto dest: is_power_of_two_imp intro: pow2_is_power_of_two)

section \<open>Alignment\<close>

lemma align_down_pow2: "align_down (v :: 'a::len word) (2 ^ k) = v AND NOT (mask k)"
  by (simp add: align_down_def word_pow2_minus_1)

lemma align_down_drop_bit: "align_down (v :: 'a::len word) (2 ^ k) = push_bit k (drop_bit k v)"
  by (auto intro!: bit_word_eqI simp: align_down_pow2 bit_simps)

lemma unat_align_down [bit_spec]:
  "unat (align_down (v :: 'a::len word) (2 ^ k)) = unat v div 2 ^ k * 2 ^ k"
proof -
  have le: "unat v div 2 ^ k * 2 ^ k < 2 ^ LENGTH('a)"
    by (rule le_less_trans [OF div_times_less_eq_dividend]) simp
  have "unat (drop_bit k v) = unat v div 2 ^ k"
    by (simp only: unat_drop_bit_eq) (simp add: drop_bit_eq_div)
  then have "unat (push_bit k (drop_bit k v)) = take_bit LENGTH('a) (unat v div 2 ^ k * 2 ^ k)"
    by (simp only: unsigned_push_bit_eq) (simp add: push_bit_eq_mult)
  also have "\<dots> = unat v div 2 ^ k * 2 ^ k"
    using le by (simp add: take_bit_nat_eq_self)
  finally show ?thesis by (simp only: align_down_drop_bit)
qed

lemma align_up_eq: "align_up v (a :: 'a::len word) = align_down (v + (a - 1)) a"
  by (simp add: align_up_def algebra_simps)

lemma unat_align_up [bit_spec]:
  fixes v :: "'a::len word"
  assumes "k < LENGTH('a)" and "unat v + (2 ^ k - 1) < 2 ^ LENGTH('a)"
  shows "unat (align_up v (2 ^ k)) = (unat v + (2 ^ k - 1)) div 2 ^ k * 2 ^ k"
proof -
  have "unat (2 ^ k - 1 :: 'a word) = 2 ^ k - 1"
    using assms(1) by (simp add: word_pow2_minus_1 unat_eq_nat_uint uint_mask_eq min_def)
        (simp add: mask_eq_exp_minus_1 nat_diff_distrib nat_power_eq)
  with assms(2) have "unat (v + (2 ^ k - 1)) = unat v + (2 ^ k - 1)"
    by (simp add: unat_plus_small)
  then show ?thesis by (simp add: align_up_eq unat_align_down)
qed

lemma is_aligned_dvd [bit_spec]:
  "is_aligned (v :: 'a::len word) (2 ^ k) \<longleftrightarrow> 2 ^ k dvd unat v"
  by (simp add: is_aligned_def word_pow2_minus_1 and_mask_dvd_nat)

end
