(* ===== verification/Bitmap.thy ===== *)
theory Bitmap
  imports Bits
begin

text \<open>
  \<^verbatim>\<open>kernel/core/utils/bitmap.hpp\<close>: a fixed-capacity bitmap over an array of 64-bit
  storage words (\<^verbatim>\<open>bitmap<N, u64>\<close>, the only storage type the kernel uses). A
  bitmap is the list of its words \<^verbatim>\<open>m_words\<close>; members that mutate return the new
  list. \<^verbatim>\<open>NPOS\<close> is \<open>None\<close>. Every operation is specified through the set of
  indices whose bit is set.
\<close>

type_synonym bitmap = "u64 list"

abbreviation BITS :: nat where "BITS \<equiv> 64"

definition STORAGE_TYPE_INSTANCE_COUNT :: "nat \<Rightarrow> nat" where
  "STORAGE_TYPE_INSTANCE_COUNT N = N div BITS"

definition bitmap_new :: "nat \<Rightarrow> bitmap" where
  "bitmap_new N = replicate (STORAGE_TYPE_INSTANCE_COUNT N) 0"

section \<open>Index arithmetic and word helpers\<close>

definition word_of :: "nat \<Rightarrow> nat" where
  "word_of index = index div BITS"

definition offset_of :: "nat \<Rightarrow> nat" where
  "offset_of index = index mod BITS"

definition bit_of :: "nat \<Rightarrow> u64" where
  "bit_of index = push_bit (offset_of index) 1"

definition mask_from :: "nat \<Rightarrow> u64" where
  "mask_from first = NOT (mask_w (offset_of first))"

definition mask_upto :: "nat \<Rightarrow> u64" where
  "mask_upto lst = mask_w (offset_of lst + 1)"

definition countr_zero :: "u64 \<Rightarrow> nat" where
  "countr_zero value = length (takeWhile (\<lambda>n. \<not> bit value n) [0..<BITS])"

definition popcount :: "u64 \<Rightarrow> nat" where
  "popcount value = length (filter (bit value) [0..<BITS])"

section \<open>Members\<close>

definition apply_word :: "bitmap \<Rightarrow> nat \<Rightarrow> u64 \<Rightarrow> bool \<Rightarrow> bitmap" where
  "apply_word ws word selected value =
     (if value then ws[word := (ws ! word) OR selected]
      else ws[word := (ws ! word) AND NOT selected])"

definition bitmap_apply :: "bitmap \<Rightarrow> nat \<Rightarrow> nat \<Rightarrow> bool \<Rightarrow> bitmap" where
  "bitmap_apply ws first count value =
     (if count = 0 then ws
      else
        let lst = first + count - 1;
            first_word = word_of first;
            last_word = word_of lst
        in
          if first_word = last_word
          then apply_word ws first_word (mask_from first AND mask_upto lst) value
          else
            let ws1 = apply_word ws first_word (mask_from first) value;
                ws2 = assign_range (\<lambda>_. if value then - 1 else 0) [first_word + 1..<last_word] ws1
            in apply_word ws2 last_word (mask_upto lst) value)"

definition bitmap_reset :: "bitmap \<Rightarrow> bitmap" where
  "bitmap_reset ws = assign_range (\<lambda>_. 0) [0..<length ws] ws"

definition bitmap_fill :: "bitmap \<Rightarrow> bitmap" where
  "bitmap_fill ws = assign_range (\<lambda>_. - 1) [0..<length ws] ws"

fun bitmap_empty :: "bitmap \<Rightarrow> bool" where
  "bitmap_empty [] = True"
| "bitmap_empty (w # ws) = (if w \<noteq> 0 then False else bitmap_empty ws)"

definition bitmap_none :: "bitmap \<Rightarrow> bool" where
  "bitmap_none ws = bitmap_empty ws"

definition bitmap_any :: "bitmap \<Rightarrow> bool" where
  "bitmap_any ws = (\<not> bitmap_empty ws)"

fun bitmap_all :: "bitmap \<Rightarrow> bool" where
  "bitmap_all [] = True"
| "bitmap_all (w # ws) = (if w \<noteq> - 1 then False else bitmap_all ws)"

definition bitmap_test :: "bitmap \<Rightarrow> nat \<Rightarrow> bool" where
  "bitmap_test ws index \<longleftrightarrow> (ws ! word_of index) AND bit_of index \<noteq> 0"

definition bitmap_set :: "bitmap \<Rightarrow> nat \<Rightarrow> bitmap" where
  "bitmap_set ws index = ws[word_of index := (ws ! word_of index) OR bit_of index]"

definition bitmap_clear :: "bitmap \<Rightarrow> nat \<Rightarrow> bitmap" where
  "bitmap_clear ws index = ws[word_of index := (ws ! word_of index) AND NOT (bit_of index)]"

definition bitmap_toggle :: "bitmap \<Rightarrow> nat \<Rightarrow> bitmap" where
  "bitmap_toggle ws index = ws[word_of index := (ws ! word_of index) XOR bit_of index]"

definition bitmap_assign :: "bitmap \<Rightarrow> nat \<Rightarrow> bool \<Rightarrow> bitmap" where
  "bitmap_assign ws index value =
     (if value then bitmap_set ws index else bitmap_clear ws index)"

definition bitmap_set_range :: "bitmap \<Rightarrow> nat \<Rightarrow> nat \<Rightarrow> bitmap" where
  "bitmap_set_range ws first count = bitmap_apply ws first count True"

definition bitmap_clear_range :: "bitmap \<Rightarrow> nat \<Rightarrow> nat \<Rightarrow> bitmap" where
  "bitmap_clear_range ws first count = bitmap_apply ws first count False"

text \<open>\<^verbatim>\<open>find_set(first_word, words)\<close>: \<open>word = first_word + i\<close>, \<open>words - i\<close> left.\<close>

fun find_set :: "bitmap \<Rightarrow> nat \<Rightarrow> nat \<Rightarrow> nat option" where
  "find_set ws word 0 = None"
| "find_set ws word (Suc n) =
     (if ws ! word \<noteq> 0 then Some (word * BITS + countr_zero (ws ! word))
      else find_set ws (word + 1) n)"

definition find_set_in :: "bitmap \<Rightarrow> nat \<Rightarrow> nat \<Rightarrow> nat option" where
  "find_set_in ws first count =
     (if count = 0 then None
      else
        let lst = first + count - 1;
            first_word = word_of first;
            last_word = word_of lst
        in
          if first_word = last_word
          then
            let selected = (ws ! first_word) AND mask_from first AND mask_upto lst
            in if selected \<noteq> 0 then Some (first_word * BITS + countr_zero selected) else None
          else
            let selected = (ws ! first_word) AND mask_from first
            in if selected \<noteq> 0 then Some (first_word * BITS + countr_zero selected)
               else
                 case find_set ws (first_word + 1) (last_word - (first_word + 1)) of
                   Some i \<Rightarrow> Some i
                 | None \<Rightarrow>
                     let selected = (ws ! last_word) AND mask_upto lst
                     in if selected \<noteq> 0 then Some (last_word * BITS + countr_zero selected)
                        else None)"

definition count_set :: "bitmap \<Rightarrow> nat \<Rightarrow> nat \<Rightarrow> nat" where
  "count_set ws first_word words =
     sum_list (map (\<lambda>i. popcount (ws ! (first_word + i))) [0..<words])"

definition count_set_all :: "bitmap \<Rightarrow> nat" where
  "count_set_all ws = count_set ws 0 (length ws)"

definition count_set_in :: "bitmap \<Rightarrow> nat \<Rightarrow> nat \<Rightarrow> nat" where
  "count_set_in ws first count =
     (if count = 0 then 0
      else
        let lst = first + count - 1;
            first_word = word_of first;
            last_word = word_of lst
        in
          if first_word = last_word
          then popcount ((ws ! first_word) AND mask_from first AND mask_upto lst)
          else popcount ((ws ! first_word) AND mask_from first)
               + count_set ws (first_word + 1) (last_word - (first_word + 1))
               + popcount ((ws ! last_word) AND mask_upto lst))"

definition bitmap_or :: "bitmap \<Rightarrow> bitmap \<Rightarrow> bitmap" where
  "bitmap_or a b = assign_range (\<lambda>i. (a ! i) OR (b ! i)) [0..<length a] a"

definition bitmap_and :: "bitmap \<Rightarrow> bitmap \<Rightarrow> bitmap" where
  "bitmap_and a b = assign_range (\<lambda>i. (a ! i) AND (b ! i)) [0..<length a] a"

definition bitmap_xor :: "bitmap \<Rightarrow> bitmap \<Rightarrow> bitmap" where
  "bitmap_xor a b = assign_range (\<lambda>i. (a ! i) XOR (b ! i)) [0..<length a] a"

definition bitmap_not :: "bitmap \<Rightarrow> bitmap" where
  "bitmap_not a = assign_range (\<lambda>i. NOT (a ! i)) [0..<length a] (replicate (length a) 0)"

fun bitmap_eq :: "bitmap \<Rightarrow> bitmap \<Rightarrow> bool" where
  "bitmap_eq (a # as) (b # bs) = (if a \<noteq> b then False else bitmap_eq as bs)"
| "bitmap_eq _ _ = True"

text \<open>
  The shift loops update the array in place, so each step reads the words as the
  earlier steps left them: \<^verbatim>\<open>shift_left\<close> runs from the last word down,
  \<^verbatim>\<open>shift_right\<close> from the first word up.
\<close>

definition shift_left_step :: "nat \<Rightarrow> nat \<Rightarrow> nat \<Rightarrow> bitmap \<Rightarrow> bitmap" where
  "shift_left_step word_shift bit_shift destination ws =
     (if destination < word_shift then ws[destination := 0]
      else
        let source = destination - word_shift;
            value = push_bit bit_shift (ws ! source);
            value' = (if bit_shift \<noteq> 0 \<and> source \<noteq> 0
                      then value OR drop_bit (BITS - bit_shift) (ws ! (source - 1)) else value)
        in ws[destination := value'])"

definition shift_left :: "nat \<Rightarrow> bitmap \<Rightarrow> nat \<Rightarrow> bitmap" where
  "shift_left N ws count =
     (if count = 0 then ws
      else if N \<le> count then bitmap_reset ws
      else fold (shift_left_step (count div BITS) (count mod BITS)) (rev [0..<length ws]) ws)"

definition shift_right_step :: "nat \<Rightarrow> nat \<Rightarrow> nat \<Rightarrow> bitmap \<Rightarrow> bitmap" where
  "shift_right_step word_shift bit_shift destination ws =
     (let source = destination + word_shift
      in if length ws \<le> source then ws[destination := 0]
         else
           let value = drop_bit bit_shift (ws ! source);
               value' = (if bit_shift \<noteq> 0 \<and> source + 1 < length ws
                         then value OR push_bit (BITS - bit_shift) (ws ! (source + 1)) else value)
           in ws[destination := value'])"

definition shift_right :: "nat \<Rightarrow> bitmap \<Rightarrow> nat \<Rightarrow> bitmap" where
  "shift_right N ws count =
     (if count = 0 then ws
      else if N \<le> count then bitmap_reset ws
      else fold (shift_right_step (count div BITS) (count mod BITS)) [0..<length ws] ws)"

section \<open>The set of indices a bitmap stands for\<close>

definition bitmap_bit :: "bitmap \<Rightarrow> nat \<Rightarrow> bool" where
  "bitmap_bit ws i \<longleftrightarrow> bit (ws ! (i div 64)) (i mod 64)"

definition bitmap_indices :: "bitmap \<Rightarrow> nat set" where
  "bitmap_indices ws = {i. i < 64 * length ws \<and> bitmap_bit ws i}"

lemma bitmap_test_bit: "bitmap_test ws i \<longleftrightarrow> bitmap_bit ws i"
  by (simp add: bitmap_test_def bitmap_bit_def word_of_def bit_of_def offset_of_def
      and_exp_nonzero)

lemma bit_bit_of [bit_spec]: "bit (bit_of i) n \<longleftrightarrow> n = i mod 64"
  by (auto simp: bit_of_def offset_of_def bit_simps)

lemma bit_mask_from [bit_spec]: "bit (mask_from i) n \<longleftrightarrow> i mod 64 \<le> n \<and> n < 64"
  by (auto simp: mask_from_def offset_of_def bit_simps bit_mask_w)

lemma bit_mask_upto [bit_spec]: "bit (mask_upto i) n \<longleftrightarrow> n \<le> i mod 64 \<and> n < 64"
  by (auto simp: mask_upto_def offset_of_def bit_mask_w)

lemma word_index_bound: "i < 64 * n \<Longrightarrow> i div 64 < (n :: nat)"
  by (simp add: less_mult_imp_div_less mult.commute)

lemma bit_index_lt: "i mod 64 < (64 :: nat)" by simp

lemma length_apply_word [simp]: "length (apply_word ws w sel v) = length ws"
  by (simp add: apply_word_def)

lemma length_bitmap_apply [simp]: "length (bitmap_apply ws f c v) = length ws"
  by (simp add: bitmap_apply_def Let_def)

lemma nth_apply_word:
  assumes "j < length ws"
  shows "bit (apply_word ws w sel v ! j) n \<longleftrightarrow>
           (if j = w \<and> bit sel n then v else bit (ws ! j) n)"
  using assms
  by (cases "j = w") (auto simp: apply_word_def bit_simps dest: bit_imp_le_length)

lemma le_by_word: "(a :: nat) \<le> b \<longleftrightarrow>
    a div 64 < b div 64 \<or> (a div 64 = b div 64 \<and> a mod 64 \<le> b mod 64)"
proof -
  have "a = a div 64 * 64 + a mod 64" "b = b div 64 * 64 + b mod 64" by simp_all
  moreover have "a mod 64 < 64" "b mod 64 < 64" by simp_all
  ultimately show ?thesis by linarith
qed

lemma bitmap_bit_apply [bit_spec]:
  assumes range: "f + c \<le> 64 * length ws" and i: "i < 64 * length ws"
  shows "bitmap_bit (bitmap_apply ws f c v) i \<longleftrightarrow>
           (if f \<le> i \<and> i < f + c then v else bitmap_bit ws i)"
proof (cases "c = 0")
  case True
  then show ?thesis by (auto simp: bitmap_apply_def)
next
  case False
  define l where "l = f + c - 1"
  have bounds: "i div 64 < length ws" "f \<le> l" "i < f + c \<longleftrightarrow> i \<le> l"
    using False i word_index_bound by (auto simp: l_def)
  have words: "f div 64 \<le> l div 64"
    using bounds(2) by (rule div_le_mono)
  show ?thesis
  proof (cases "f div 64 = l div 64")
    case True
    have "f \<le> i \<and> i \<le> l \<longleftrightarrow>
        i div 64 = f div 64 \<and> f mod 64 \<le> i mod 64 \<and> i mod 64 \<le> l mod 64"
      unfolding le_by_word [of f i] le_by_word [of i l] using True by auto
    then show ?thesis
      using False bounds True
      by (simp add: bitmap_apply_def word_of_def l_def [symmetric] bitmap_bit_def nth_apply_word
          bit_and_iff bit_mask_from bit_mask_upto del: One_nat_def)
  next
    case diff: False
    then have "f div 64 < l div 64" using words by simp
    then have key: "f \<le> i \<and> i \<le> l \<longleftrightarrow>
        i div 64 = f div 64 \<and> f mod 64 \<le> i mod 64 \<or>
        f div 64 < i div 64 \<and> i div 64 < l div 64 \<or>
        i div 64 = l div 64 \<and> i mod 64 \<le> l mod 64"
      unfolding le_by_word [of f i] le_by_word [of i l] by auto
    have "bitmap_bit (bitmap_apply ws f c v) i \<longleftrightarrow>
        (if f \<le> i \<and> i \<le> l then v else bitmap_bit ws i)"
      unfolding key
      using False bounds(1) diff
      by (simp add: bitmap_apply_def word_of_def l_def [symmetric] Let_def bitmap_bit_def
          nth_apply_word nth_assign_range bit_mask_from bit_mask_upto del: One_nat_def)
    then show ?thesis using bounds(3) by simp
  qed
qed

section \<open>Single bits\<close>

lemma length_bitmap_ops [simp]:
  "length (bitmap_set ws i) = length ws"
  "length (bitmap_clear ws i) = length ws"
  "length (bitmap_toggle ws i) = length ws"
  "length (bitmap_set_range ws f c) = length ws"
  "length (bitmap_clear_range ws f c) = length ws"
  "length (bitmap_reset ws) = length ws"
  "length (bitmap_fill ws) = length ws"
  by (simp_all add: bitmap_set_def bitmap_clear_def bitmap_toggle_def bitmap_set_range_def
      bitmap_clear_range_def bitmap_reset_def bitmap_fill_def)

lemma same_index: "i div 64 = j div 64 \<Longrightarrow> i mod 64 = j mod 64 \<longleftrightarrow> i = (j :: nat)"
  by (metis div_mult_mod_eq)

lemma bitmap_bit_set [bit_spec]:
  assumes "i < 64 * length ws"
  shows "bitmap_bit (bitmap_set ws i) j \<longleftrightarrow> j = i \<or> bitmap_bit ws j"
  using word_index_bound [OF assms]
  by (cases "i div 64 = j div 64")
    (auto simp: bitmap_bit_def bitmap_set_def word_of_def bit_simps bit_bit_of same_index)

lemma bitmap_bit_clear [bit_spec]:
  assumes "i < 64 * length ws"
  shows "bitmap_bit (bitmap_clear ws i) j \<longleftrightarrow> j \<noteq> i \<and> bitmap_bit ws j"
  using word_index_bound [OF assms]
  by (cases "i div 64 = j div 64")
    (auto simp: bitmap_bit_def bitmap_clear_def word_of_def bit_simps bit_bit_of same_index)

lemma bitmap_bit_toggle [bit_spec]:
  assumes "i < 64 * length ws"
  shows "bitmap_bit (bitmap_toggle ws i) j \<longleftrightarrow> (if j = i then \<not> bitmap_bit ws j else bitmap_bit ws j)"
proof (cases "i div 64 = j div 64")
  case True
  then have "j = i \<longleftrightarrow> j mod 64 = i mod 64" using same_index [of j i] by simp
  then show ?thesis
    using word_index_bound [OF assms] True [symmetric]
    by (simp add: bitmap_bit_def bitmap_toggle_def word_of_def bit_xor_iff bit_bit_of)
next
  case False
  then show ?thesis
    by (auto simp: bitmap_bit_def bitmap_toggle_def word_of_def)
qed

lemma bitmap_indices_set:
  assumes "i < 64 * length ws"
  shows "bitmap_indices (bitmap_set ws i) = insert i (bitmap_indices ws)"
    and "bitmap_indices (bitmap_clear ws i) = bitmap_indices ws - {i}"
  using assms by (auto simp: bitmap_indices_def bitmap_bit_set bitmap_bit_clear)

lemma bitmap_indices_range:
  assumes "f + c \<le> 64 * length ws"
  shows "bitmap_indices (bitmap_set_range ws f c) = bitmap_indices ws \<union> {f..<f + c}"
    and "bitmap_indices (bitmap_clear_range ws f c) = bitmap_indices ws - {f..<f + c}"
  using assms
  by (auto simp: bitmap_indices_def bitmap_set_range_def bitmap_clear_range_def bitmap_bit_apply
      split: if_splits)

section \<open>Searching\<close>

lemma countr_zero_spec:
  assumes "(w :: u64) \<noteq> 0"
  shows "bit w (countr_zero w)" "countr_zero w < 64" "\<And>n. n < countr_zero w \<Longrightarrow> \<not> bit w n"
proof -
  from assms obtain m where "m < 64" "bit w m"
    by (auto simp: word_nonzero_bit)
  then have "\<not> \<not> bit w m" by simp
  note * = takeWhile_upt_first [of m 64 "\<lambda>n. \<not> bit w n", OF \<open>m < 64\<close> this, folded countr_zero_def]
  from * show "bit w (countr_zero w)" "countr_zero w < 64" "\<And>n. n < countr_zero w \<Longrightarrow> \<not> bit w n"
    by blast+
qed

lemma bitmap_bit_word: "n < 64 \<Longrightarrow> bitmap_bit ws (w * 64 + n) \<longleftrightarrow> bit (ws ! w) n"
  by (simp add: bitmap_bit_def)

definition first_set :: "bitmap \<Rightarrow> nat \<Rightarrow> nat \<Rightarrow> nat option \<Rightarrow> bool" where
  "first_set ws a b r \<longleftrightarrow>
     (case r of
        None \<Rightarrow> \<forall>i. a \<le> i \<and> i < b \<longrightarrow> \<not> bitmap_bit ws i
      | Some i \<Rightarrow> a \<le> i \<and> i < b \<and> bitmap_bit ws i \<and> (\<forall>j. a \<le> j \<and> j < i \<longrightarrow> \<not> bitmap_bit ws j))"

lemma first_set_Some_extend: "first_set ws a b (Some i) \<Longrightarrow> b \<le> c \<Longrightarrow> first_set ws a c (Some i)"
  by (auto simp: first_set_def)

lemma first_set_None_trans:
  assumes "first_set ws a b None" "first_set ws b c r" "a \<le> b"
  shows "first_set ws a c r"
proof -
  have "\<not> bitmap_bit ws j" if "a \<le> j" "j < b" for j
    using assms(1) that by (simp add: first_set_def)
  then show ?thesis
    using assms(2,3) by (cases r) (auto simp: first_set_def not_le [symmetric] dest: le_trans)
qed

lemma word_range_cases:
  assumes "w * 64 + lo \<le> i" "i < w * 64 + hi" "hi \<le> (64 :: nat)"
  obtains n where "i = w * 64 + n" "lo \<le> n" "n < hi"
  using assms by (metis add_le_cancel_left le_add1 le_iff_add nat_add_left_cancel_less le_trans)

lemma first_set_word:
  assumes sel: "\<And>n. n < 64 \<Longrightarrow> bit sel n \<longleftrightarrow> bit (ws ! w) n \<and> lo \<le> n \<and> n < hi" and hi: "hi \<le> 64"
  shows "first_set ws (w * 64 + lo) (w * 64 + hi)
           (if sel \<noteq> 0 then Some (w * 64 + countr_zero sel) else None)"
proof (cases "sel = 0")
  case True
  then have no: "\<not> bit (ws ! w) n" if "lo \<le> n" "n < hi" for n
    using sel [of n] that hi by simp
  have "\<not> bitmap_bit ws i" if i: "w * 64 + lo \<le> i" "i < w * 64 + hi" for i
  proof -
    obtain n where "i = w * 64 + n" "lo \<le> n" "n < hi"
      using i hi by (rule word_range_cases)
    then show ?thesis using no [of n] hi by (simp add: bitmap_bit_word)
  qed
  then show ?thesis using True by (simp add: first_set_def)
next
  case False
  note ctz = countr_zero_spec [OF False]
  have here: "bit (ws ! w) (countr_zero sel)" "lo \<le> countr_zero sel" "countr_zero sel < hi"
    using sel [OF ctz(2)] ctz(1) by auto
  have "\<not> bitmap_bit ws j" if j: "w * 64 + lo \<le> j" "j < w * 64 + countr_zero sel" for j
  proof -
    obtain n where n: "j = w * 64 + n" "lo \<le> n" "n < countr_zero sel"
      using j less_imp_le [OF ctz(2)] by (rule word_range_cases)
    then have "n < 64" "n < hi" using ctz(2) here(3) by simp_all
    then show ?thesis using ctz(3) [OF n(3)] sel [of n] n by (simp add: bitmap_bit_word)
  qed
  then show ?thesis using False here ctz(2) by (simp add: first_set_def bitmap_bit_word)
qed

lemma first_set_find_set: "first_set ws (w * 64) ((w + n) * 64) (find_set ws w n)"
proof (induction n arbitrary: w)
  case 0
  then show ?case by (auto simp: first_set_def)
next
  case (Suc n)
  have word: "first_set ws (w * 64) ((w + 1) * 64)
      (if ws ! w \<noteq> 0 then Some (w * 64 + countr_zero (ws ! w)) else None)"
    using first_set_word [of "ws ! w" ws w 0 64] by (simp add: algebra_simps)
  show ?case
  proof (cases "ws ! w = 0")
    case True
    have "first_set ws ((w + 1) * 64) ((w + Suc n) * 64) (find_set ws (w + 1) n)"
      using Suc.IH [of "w + 1"] by (simp add: algebra_simps)
    with word True show ?thesis
      by (auto intro: first_set_None_trans)
  next
    case False
    with word show ?thesis
      by (auto intro: first_set_Some_extend)
  qed
qed

lemma first_set_find_set_in: "first_set ws f (f + c) (find_set_in ws f c)"
proof (cases "c = 0")
  case True
  then show ?thesis by (auto simp: find_set_in_def first_set_def)
next
  case False
  define l where "l = f + c - 1"
  let ?fw = "f div 64" and ?lw = "l div 64"
  have l: "f \<le> l" "f + c = ?lw * 64 + (l mod 64 + 1)" "f = ?fw * 64 + f mod 64"
    using False by (simp_all add: l_def)
  show ?thesis
  proof (cases "?fw = ?lw")
    case True
    have "first_set ws (?fw * 64 + f mod 64) (?fw * 64 + (l mod 64 + 1))
        (if (ws ! ?fw) AND mask_from f AND mask_upto l \<noteq> 0
         then Some (?fw * 64 + countr_zero ((ws ! ?fw) AND mask_from f AND mask_upto l)) else None)"
      by (rule first_set_word) (auto simp: bit_and_iff bit_mask_from bit_mask_upto Suc_leI)
    then show ?thesis
      using False True l
      by (simp add: find_set_in_def word_of_def Let_def l_def [symmetric] split: if_splits)
  next
    case diff: False
    then have lt: "?fw + 1 \<le> ?lw" using div_le_mono [OF l(1), of 64] by simp
    have one: "first_set ws f ((?fw + 1) * 64)
        (if (ws ! ?fw) AND mask_from f \<noteq> 0
         then Some (?fw * 64 + countr_zero ((ws ! ?fw) AND mask_from f)) else None)"
      using first_set_word [of "(ws ! ?fw) AND mask_from f" ws ?fw "f mod 64" 64] l(3)
      by (simp add: bit_and_iff bit_mask_from algebra_simps)
    have two: "first_set ws ((?fw + 1) * 64) (?lw * 64)
        (find_set ws (?fw + 1) (?lw - (?fw + 1)))"
      using first_set_find_set [of ws "?fw + 1" "?lw - (?fw + 1)"] lt by simp
    have three: "first_set ws (?lw * 64) (f + c)
        (if (ws ! ?lw) AND mask_upto l \<noteq> 0
         then Some (?lw * 64 + countr_zero ((ws ! ?lw) AND mask_upto l)) else None)"
      using first_set_word [of "(ws ! ?lw) AND mask_upto l" ws ?lw 0 "l mod 64 + 1"] l(2)
      by (simp add: bit_and_iff bit_mask_upto Suc_leI less_Suc_eq_le)
    have ord: "f \<le> (?fw + 1) * 64" "(?fw + 1) * 64 \<le> ?lw * 64" "?lw * 64 \<le> f + c"
      using lt l by auto
    show ?thesis
    proof (cases "(ws ! ?fw) AND mask_from f = 0")
      case False
      with one ord \<open>c \<noteq> 0\<close> diff show ?thesis
        by (simp add: find_set_in_def word_of_def Let_def l_def [symmetric]
            first_set_Some_extend [of _ _ "(?fw + 1) * 64"] del: One_nat_def)
    next
      case True
      note rest = first_set_None_trans [OF _ _ ord(1), of ws "f + c"]
      show ?thesis
      proof (cases "find_set ws (?fw + 1) (?lw - (?fw + 1))")
        case None
        with two three ord have "first_set ws ((?fw + 1) * 64) (f + c)
            (if (ws ! ?lw) AND mask_upto l \<noteq> 0
             then Some (?lw * 64 + countr_zero ((ws ! ?lw) AND mask_upto l)) else None)"
          by (auto intro: first_set_None_trans)
        with one True None \<open>c \<noteq> 0\<close> diff show ?thesis
          by (simp add: find_set_in_def word_of_def Let_def l_def [symmetric] rest del: One_nat_def)
      next
        case (Some i)
        with two ord have "first_set ws ((?fw + 1) * 64) (f + c) (Some i)"
          by (auto intro: first_set_Some_extend)
        with one True Some \<open>c \<noteq> 0\<close> diff show ?thesis
          by (simp add: find_set_in_def word_of_def Let_def l_def [symmetric] rest del: One_nat_def)
      qed
    qed
  qed
qed

section \<open>Counting\<close>

lemma popcount_word:
  assumes sel: "\<And>n. n < 64 \<Longrightarrow> bit sel n \<longleftrightarrow> bit (ws ! w) n \<and> lo \<le> n \<and> n < hi"
    and hi: "hi \<le> 64"
  shows "popcount sel = card {i. w * 64 + lo \<le> i \<and> i < w * 64 + hi \<and> bitmap_bit ws i}"
proof -
  have "popcount sel = card {n. 0 \<le> n \<and> n < 64 \<and> bit sel n}"
    by (simp only: popcount_def card_filter_upt)
  also have "\<dots> = card ((\<lambda>n. w * 64 + n) ` {n. 0 \<le> n \<and> n < 64 \<and> bit sel n})"
    by (rule card_image [symmetric]) (simp add: inj_on_def)
  also have "(\<lambda>n. w * 64 + n) ` {n. 0 \<le> n \<and> n < 64 \<and> bit sel n} =
      {i. w * 64 + lo \<le> i \<and> i < w * 64 + hi \<and> bitmap_bit ws i}" (is "?f ` ?A = ?B")
  proof
    show "?f ` ?A \<subseteq> ?B" using sel by (auto simp: bitmap_bit_word)
    show "?B \<subseteq> ?f ` ?A"
    proof
      fix i assume i: "i \<in> ?B"
      then obtain n where n: "i = w * 64 + n" "lo \<le> n" "n < hi"
        using hi by (auto elim: word_range_cases)
      then have "bit sel n" using i sel [of n] hi by (simp add: bitmap_bit_word)
      then show "i \<in> ?f ` ?A" using n hi by auto
    qed
  qed
  finally show ?thesis .
qed

lemma card_split_range:
  assumes "a \<le> b" "b \<le> (c :: nat)"
  shows "card {i. a \<le> i \<and> i < c \<and> P i} = card {i. a \<le> i \<and> i < b \<and> P i} + card {i. b \<le> i \<and> i < c \<and> P i}"
  using length_filter_upt_split [OF assms, of P] by (simp only: card_filter_upt)

lemma count_set_card:
  "count_set ws w n = card {i. w * 64 \<le> i \<and> i < (w + n) * 64 \<and> bitmap_bit ws i}"
proof (induction n)
  case 0
  then show ?case by (simp add: count_set_def)
next
  case (Suc n)
  have "popcount (ws ! (w + n)) =
      card {i. (w + n) * 64 \<le> i \<and> i < (w + Suc n) * 64 \<and> bitmap_bit ws i}"
    using popcount_word [of "ws ! (w + n)" ws "w + n" 0 64] by (simp add: algebra_simps)
  with Suc show ?case
    using card_split_range [of "w * 64" "(w + n) * 64" "(w + Suc n) * 64" "bitmap_bit ws"]
    by (simp add: count_set_def)
qed

lemma count_set_in_card:
  "count_set_in ws f c = card {i. f \<le> i \<and> i < f + c \<and> bitmap_bit ws i}"
proof (cases "c = 0")
  case True
  then show ?thesis by (simp add: count_set_in_def not_less [symmetric])
next
  case False
  define l where "l = f + c - 1"
  let ?fw = "f div 64" and ?lw = "l div 64"
  have l: "f \<le> l" "f + c = ?lw * 64 + (l mod 64 + 1)" "f = ?fw * 64 + f mod 64"
    using False by (simp_all add: l_def)
  show ?thesis
  proof (cases "?fw = ?lw")
    case True
    have "popcount ((ws ! ?fw) AND mask_from f AND mask_upto l) =
        card {i. ?fw * 64 + f mod 64 \<le> i \<and> i < ?fw * 64 + (l mod 64 + 1) \<and> bitmap_bit ws i}"
      by (rule popcount_word) (auto simp: bit_and_iff bit_mask_from bit_mask_upto Suc_leI)
    then show ?thesis
      using False True l by (simp add: count_set_in_def word_of_def Let_def l_def [symmetric])
  next
    case diff: False
    then have lt: "?fw + 1 \<le> ?lw" using div_le_mono [OF l(1), of 64] by simp
    have one: "popcount ((ws ! ?fw) AND mask_from f) =
        card {i. f \<le> i \<and> i < (?fw + 1) * 64 \<and> bitmap_bit ws i}"
      using popcount_word [of "(ws ! ?fw) AND mask_from f" ws ?fw "f mod 64" 64] l(3)
      by (simp add: bit_and_iff bit_mask_from algebra_simps)
    have two: "count_set ws (?fw + 1) (?lw - (?fw + 1)) =
        card {i. (?fw + 1) * 64 \<le> i \<and> i < ?lw * 64 \<and> bitmap_bit ws i}"
      using count_set_card [of ws "?fw + 1" "?lw - (?fw + 1)"] lt by simp
    have three: "popcount ((ws ! ?lw) AND mask_upto l) =
        card {i. ?lw * 64 \<le> i \<and> i < f + c \<and> bitmap_bit ws i}"
      using popcount_word [of "(ws ! ?lw) AND mask_upto l" ws ?lw 0 "l mod 64 + 1"] l(2)
      by (simp add: bit_and_iff bit_mask_upto Suc_leI less_Suc_eq_le)
    have ord: "f \<le> (?fw + 1) * 64" "(?fw + 1) * 64 \<le> ?lw * 64" "?lw * 64 \<le> f + c"
      using lt l by auto
    have "count_set_in ws f c = popcount ((ws ! ?fw) AND mask_from f)
        + count_set ws (?fw + 1) (?lw - (?fw + 1)) + popcount ((ws ! ?lw) AND mask_upto l)"
      using False diff
      by (simp add: count_set_in_def word_of_def Let_def l_def [symmetric] del: One_nat_def)
    then show ?thesis
      using card_split_range [OF ord(1), of "f + c" "bitmap_bit ws"]
        card_split_range [OF ord(2,3), of "bitmap_bit ws"] ord
      unfolding one two three by simp
  qed
qed

section \<open>Whole-map operations\<close>

lemma bitmap_bit_reset: "i < 64 * length ws \<Longrightarrow> \<not> bitmap_bit (bitmap_reset ws) i"
  by (simp add: bitmap_bit_def bitmap_reset_def nth_assign_range word_index_bound)

lemma bitmap_bit_fill: "i < 64 * length ws \<Longrightarrow> bitmap_bit (bitmap_fill ws) i"
  by (simp add: bitmap_bit_def bitmap_fill_def nth_assign_range word_index_bound)

lemma bitmap_empty_iff: "bitmap_empty ws \<longleftrightarrow> (\<forall>w \<in> set ws. w = 0)"
  by (induction ws) auto

lemma bitmap_all_iff: "bitmap_all ws \<longleftrightarrow> (\<forall>w \<in> set ws. w = - 1)"
  by (induction ws) auto

lemma bitmap_eq_iff: "length a = length b \<Longrightarrow> bitmap_eq a b \<longleftrightarrow> a = b"
  by (induction a b rule: bitmap_eq.induct) auto

lemma bitmap_bitwise [bit_spec]:
  assumes "i < 64 * length a"
  shows "bitmap_bit (bitmap_or a b) i \<longleftrightarrow> bitmap_bit a i \<or> bitmap_bit b i"
    and "bitmap_bit (bitmap_and a b) i \<longleftrightarrow> bitmap_bit a i \<and> bitmap_bit b i"
    and "bitmap_bit (bitmap_xor a b) i \<longleftrightarrow> bitmap_bit a i \<noteq> bitmap_bit b i"
    and "bitmap_bit (bitmap_not a) i \<longleftrightarrow> \<not> bitmap_bit a i"
  using word_index_bound [OF assms]
  by (simp_all add: bitmap_bit_def bitmap_or_def bitmap_and_def bitmap_xor_def bitmap_not_def
      nth_assign_range bit_simps)

section \<open>Shifts\<close>

definition left_word :: "nat \<Rightarrow> nat \<Rightarrow> nat \<Rightarrow> bitmap \<Rightarrow> u64" where
  "left_word word_shift bit_shift d ws =
     (if d < word_shift then 0
      else if bit_shift \<noteq> 0 \<and> d - word_shift \<noteq> 0
      then push_bit bit_shift (ws ! (d - word_shift))
           OR drop_bit (64 - bit_shift) (ws ! (d - word_shift - 1))
      else push_bit bit_shift (ws ! (d - word_shift)))"

lemma shift_left_step_eq:
  "shift_left_step m b = (\<lambda>d ws. ws[d := left_word m b d ws])"
  by (auto simp: fun_eq_iff shift_left_step_def left_word_def Let_def)

lemma nth_shift_left:
  assumes "count \<noteq> 0" "count < N" "i < length ws"
  shows "shift_left N ws count ! i = left_word (count div 64) (count mod 64) i ws"
proof -
  have "fold (\<lambda>d ys. ys[d := left_word (count div 64) (count mod 64) d ys]) (rev [0..<length ws]) ws ! i =
      (if i < length ws then left_word (count div 64) (count mod 64) i ws else ws ! i)"
    by (rule fold_update_downward) (use assms in \<open>auto simp: left_word_def\<close>)
  then show ?thesis using assms by (simp add: shift_left_def shift_left_step_eq)
qed

lemma bit_left_word:
  assumes c: "c = m * 64 + b" "b < 64" and n: "n < 64"
  shows "bit (left_word m b d ws) n \<longleftrightarrow> c \<le> d * 64 + n \<and> bitmap_bit ws (d * 64 + n - c)"
proof (cases "d < m")
  case True
  then have "d * 64 + n < c" using n c by (simp add: less_le_trans [of _ "(d + 1) * 64"])
  then show ?thesis using True by (simp add: left_word_def)
next
  case False
  then obtain e where e: "d = m + e" by (auto simp: not_less le_iff_add)
  show ?thesis
  proof (cases "b \<le> n")
    case True
    then have "d * 64 + n - c = e * 64 + (n - b)" using e c by (simp add: algebra_simps)
    moreover have "c \<le> d * 64 + n" using True e c by (simp add: algebra_simps)
    moreover have "\<not> bit (drop_bit (64 - b) (v :: u64)) n" if "b \<noteq> 0" for v
      using True that by (auto simp: bit_simps dest: bit_imp_le_length)
    moreover have "bit (left_word m b d ws) n \<longleftrightarrow> bit (ws ! e) (n - b)"
      using True n e calculation(3) by (auto simp: left_word_def bit_or_iff bit_push_bit_iff)
    moreover have "n - b < 64" using n by simp
    ultimately show ?thesis by (simp only: bitmap_bit_word simp_thms)
  next
    case less: False
    show ?thesis
    proof (cases e)
      case 0
      then show ?thesis using less e c by (auto simp: left_word_def bit_simps)
    next
      case (Suc k)
      then have "d * 64 + n - c = k * 64 + (64 - b + n)" using less e c by (simp add: algebra_simps)
      moreover have "c \<le> d * 64 + n" using Suc less e c by (simp add: algebra_simps)
      moreover have "left_word m b d ws = push_bit b (ws ! e) OR drop_bit (64 - b) (ws ! k)"
        using less e Suc by (simp add: left_word_def)
      moreover have "\<not> bit (push_bit b (ws ! e)) n" using less by (simp add: bit_push_bit_iff)
      moreover have "64 - b + n < 64" using less c(2) by simp
      ultimately show ?thesis
        by (simp add: bit_or_iff bit_drop_bit_eq bitmap_bit_word)
    qed
  qed
qed

lemma word_offset_less: "r < 64 \<Longrightarrow> x * 64 + r < 64 * y \<longleftrightarrow> x < (y :: nat)"
proof
  assume "r < 64" "x < y"
  then have "x * 64 + r < (x + 1) * 64" "(x + 1) * 64 \<le> y * 64" by simp_all
  then show "x * 64 + r < 64 * y" by linarith
qed linarith

lemma bitmap_index_facts:
  assumes "length ws = N div 64" "64 dvd N" "i < N"
  shows "i < 64 * length ws" "i div 64 < length ws" "N = 64 * length ws"
proof -
  show N: "N = 64 * length ws" using assms(1,2) by simp
  show "i < 64 * length ws" using assms(3) N by simp
  then show "i div 64 < length ws" by (rule word_index_bound)
qed

text \<open>shifting left by \<open>count\<close> moves bit \<open>j\<close> to \<open>j + count\<close> and clears the low bits.\<close>

lemma shift_left_spec:
  assumes "length ws = N div 64" "64 dvd N" "i < N"
  shows "bitmap_bit (shift_left N ws count) i \<longleftrightarrow> count \<le> i \<and> bitmap_bit ws (i - count)"
proof -
  note i = bitmap_index_facts [OF assms]
  consider "count = 0" | "N \<le> count" "count \<noteq> 0" | "count \<noteq> 0" "count < N" by linarith
  then show ?thesis
  proof cases
    case 1
    then show ?thesis by (simp add: shift_left_def)
  next
    case 2
    then show ?thesis using assms(3) bitmap_bit_reset [OF i(1)] by (simp add: shift_left_def)
  next
    case 3
    have "bitmap_bit (shift_left N ws count) i =
        bit (left_word (count div 64) (count mod 64) (i div 64) ws) (i mod 64)"
      unfolding bitmap_bit_def [of "shift_left N ws count"] using 3 i(2) by (simp add: nth_shift_left)
    then show ?thesis
      using bit_left_word [of count "count div 64" "count mod 64" "i mod 64" "i div 64" ws]
      by simp
  qed
qed

definition right_word :: "nat \<Rightarrow> nat \<Rightarrow> nat \<Rightarrow> bitmap \<Rightarrow> u64" where
  "right_word word_shift bit_shift d ws =
     (if length ws \<le> d + word_shift then 0
      else if bit_shift \<noteq> 0 \<and> d + word_shift + 1 < length ws
      then drop_bit bit_shift (ws ! (d + word_shift))
           OR push_bit (64 - bit_shift) (ws ! (d + word_shift + 1))
      else drop_bit bit_shift (ws ! (d + word_shift)))"

lemma shift_right_step_eq:
  "shift_right_step m b = (\<lambda>d ws. ws[d := right_word m b d ws])"
  by (auto simp: fun_eq_iff shift_right_step_def right_word_def Let_def)

lemma nth_shift_right:
  assumes "count \<noteq> 0" "count < N" "i < length ws"
  shows "shift_right N ws count ! i = right_word (count div 64) (count mod 64) i ws"
proof -
  have "fold (\<lambda>d ys. ys[d := right_word (count div 64) (count mod 64) d ys]) [0..<0 + length ws] ws ! i =
      (if 0 \<le> i \<and> i < 0 + length ws then right_word (count div 64) (count mod 64) i ws else ws ! i)"
    by (rule fold_update_upward) (use assms in \<open>auto simp: right_word_def\<close>)
  then show ?thesis using assms by (simp add: shift_right_def shift_right_step_eq)
qed

lemma bit_right_word:
  assumes c: "c = m * 64 + b" "b < 64" and n: "n < 64"
  shows "bit (right_word m b d ws) n \<longleftrightarrow>
           d * 64 + n + c < 64 * length ws \<and> bitmap_bit ws (d * 64 + n + c)"
proof (cases "n + b < 64")
  case True
  then have eq: "d * 64 + n + c = (d + m) * 64 + (n + b)" using c by (simp add: algebra_simps)
  have lt: "d * 64 + n + c < 64 * length ws \<longleftrightarrow> d + m < length ws"
    unfolding eq using True by (rule word_offset_less)
  have "\<not> bit (push_bit (64 - b) (v :: u64)) n" for v
    using True by (auto simp: bit_push_bit_iff)
  then show ?thesis
    unfolding lt unfolding eq bitmap_bit_word [OF True]
    by (auto simp: right_word_def bit_or_iff bit_drop_bit_eq add.commute)
next
  case False
  then have eq: "d * 64 + n + c = (d + m + 1) * 64 + (n + b - 64)" using c by (simp add: algebra_simps)
  have off: "n + b - 64 < 64" using n c by simp
  have lt: "d * 64 + n + c < 64 * length ws \<longleftrightarrow> d + m + 1 < length ws"
    unfolding eq using off by (rule word_offset_less)
  have "\<not> bit (drop_bit b (v :: u64)) n" for v
    using False by (auto simp: bit_drop_bit_eq dest: bit_imp_le_length)
  moreover have "b \<noteq> 0" "n - (64 - b) = n + b - 64" "64 - b \<le> n" using False n c(2) by auto
  ultimately show ?thesis
    unfolding lt unfolding eq bitmap_bit_word [OF off]
    using n by (auto simp: right_word_def bit_or_iff bit_push_bit_iff)
qed

text \<open>shifting right by \<open>count\<close> moves bit \<open>j + count\<close> to \<open>j\<close> and clears the high bits.\<close>

lemma shift_right_spec:
  assumes "length ws = N div 64" "64 dvd N" "i < N"
  shows "bitmap_bit (shift_right N ws count) i \<longleftrightarrow> i + count < N \<and> bitmap_bit ws (i + count)"
proof -
  note i = bitmap_index_facts [OF assms]
  consider "count = 0" | "N \<le> count" "count \<noteq> 0" | "count \<noteq> 0" "count < N" by linarith
  then show ?thesis
  proof cases
    case 1
    then show ?thesis using assms by (simp add: shift_right_def)
  next
    case 2
    then show ?thesis using assms(3) bitmap_bit_reset [OF i(1)] by (simp add: shift_right_def)
  next
    case 3
    have "bitmap_bit (shift_right N ws count) i =
        bit (right_word (count div 64) (count mod 64) (i div 64) ws) (i mod 64)"
      unfolding bitmap_bit_def [of "shift_right N ws count"] using 3 i(2) by (simp add: nth_shift_right)
    then show ?thesis
      using bit_right_word [of count "count div 64" "count mod 64" "i mod 64" "i div 64" ws] i(3)
      by simp
  qed
qed

section \<open>Range queries\<close>

text \<open>
  \<^verbatim>\<open>find_set_in\<close> returns the lowest set index of the range, and \<^verbatim>\<open>NPOS\<close> exactly when
  the range has none.
\<close>

lemma find_set_in_lowest:
  "case find_set_in ws first count of
     None \<Rightarrow> \<forall>i. bitmap_test ws i \<longrightarrow> \<not> (first \<le> i \<and> i < first + count)
   | Some i \<Rightarrow> first \<le> i \<and> i < first + count \<and> bitmap_test ws i \<and>
              (\<forall>j. bitmap_test ws j \<longrightarrow> \<not> (first \<le> j \<and> j < i))"
  using first_set_find_set_in [of ws first count]
  by (auto simp: first_set_def bitmap_test_bit split: option.splits)

text \<open>\<^verbatim>\<open>count_set_in\<close> counts the set indices of the range.\<close>

lemma count_set_in_counts:
  "count_set_in ws first count = card {i. first \<le> i \<and> i < first + count \<and> bitmap_test ws i}"
  by (simp only: count_set_in_card bitmap_test_bit)

end
