(* ===== verification/Pages.thy ===== *)
theory Pages
  imports Bits
begin

text \<open>
  \<^verbatim>\<open>kernel/mm/page.hpp\<close>: page sizes, protection flags, memory-management errors and
  the result of a translation. \<^verbatim>\<open>page_size\<close> and \<^verbatim>\<open>page_prot\<close> are scoped enums over
  \<^verbatim>\<open>u8\<close> that can hold any byte, so both are bytes with named values.
\<close>

type_synonym page_size = u8
type_synonym page_prot = u8

definition SIZE_4K :: page_size where "SIZE_4K = 12"
definition SIZE_2M :: page_size where "SIZE_2M = 21"
definition SIZE_1G :: page_size where "SIZE_1G = 30"

definition FRAME_SHIFT :: nat where "FRAME_SHIFT = unat SIZE_4K"
definition FRAME_SIZE :: u64 where "FRAME_SIZE = push_bit FRAME_SHIFT 1"

definition shift_of :: "page_size \<Rightarrow> nat" where
  "shift_of psize = unat psize"

definition bytes_in :: "page_size \<Rightarrow> u64" where
  "bytes_in psize = push_bit (shift_of psize) 1"

definition frames_in :: "page_size \<Rightarrow> nat" where
  "frames_in psize = push_bit (shift_of psize - FRAME_SHIFT) 1"

definition PROT_NONE :: page_prot where "PROT_NONE = 0"
definition WRITE :: page_prot where "WRITE = push_bit 0 1"
definition EXEC :: page_prot where "EXEC = push_bit 1 1"
definition USER :: page_prot where "USER = push_bit 2 1"
definition GLOBAL :: page_prot where "GLOBAL = push_bit 3 1"
definition UNCACHED :: page_prot where "UNCACHED = push_bit 4 1"

definition KERNEL_TEXT :: page_prot where "KERNEL_TEXT = EXEC OR GLOBAL"
definition KERNEL_RODATA :: page_prot where "KERNEL_RODATA = GLOBAL"
definition KERNEL_DATA :: page_prot where "KERNEL_DATA = WRITE OR GLOBAL"
definition MMIO :: page_prot where "MMIO = WRITE OR GLOBAL OR UNCACHED"

definition has :: "page_prot \<Rightarrow> page_prot \<Rightarrow> bool" where
  "has set_p bit_p \<longleftrightarrow> (set_p AND bit_p) \<noteq> PROT_NONE"

datatype mm_error =
  OUT_OF_MEMORY
| INVALID_ADDRESS
| UNSUPPORTED_SIZE
| NOT_MAPPED
| CONFLICT

record mapping_info =
  mp_frame :: paddr_t
  mp_offset :: u64
  mp_size :: page_size
  mp_prot :: page_prot

definition physical :: "mapping_info \<Rightarrow> paddr_t" where
  "physical m = mp_frame m + mp_offset m"

section \<open>Values\<close>

abbreviation supported_size :: "page_size \<Rightarrow> bool" where
  "supported_size psize \<equiv> psize = SIZE_4K \<or> psize = SIZE_2M \<or> psize = SIZE_1G"

lemma FRAME_SHIFT_eq [layout]: "FRAME_SHIFT = 12"
  by (simp add: FRAME_SHIFT_def SIZE_4K_def)

lemma FRAME_SIZE_eq [layout]: "FRAME_SIZE = 2 ^ 12"
  by (simp add: FRAME_SIZE_def FRAME_SHIFT_eq)

lemma shift_of_sizes [layout]:
  "shift_of SIZE_4K = 12" "shift_of SIZE_2M = 21" "shift_of SIZE_1G = 30"
  by (simp_all add: shift_of_def SIZE_4K_def SIZE_2M_def SIZE_1G_def)

lemma frames_in_sizes [layout]:
  "frames_in SIZE_4K = 1" "frames_in SIZE_2M = 512" "frames_in SIZE_1G = 262144"
  by (simp_all add: frames_in_def FRAME_SHIFT_eq shift_of_sizes)

lemma page_size_distinct [simp]:
  "SIZE_4K \<noteq> SIZE_2M" "SIZE_4K \<noteq> SIZE_1G" "SIZE_2M \<noteq> SIZE_1G"
  "SIZE_2M \<noteq> SIZE_4K" "SIZE_1G \<noteq> SIZE_4K" "SIZE_1G \<noteq> SIZE_2M"
  by (simp_all add: SIZE_4K_def SIZE_2M_def SIZE_1G_def)

lemma bytes_in_pow2: "bytes_in psize = 2 ^ shift_of psize"
  by (simp add: bytes_in_def)

lemma bytes_in_frames:
  assumes "supported_size psize"
  shows "unat (bytes_in psize) = frames_in psize * 4096"
  using assms by (auto simp: bytes_in_pow2 layout)

lemma has_iff [bit_spec]:
  "has p WRITE \<longleftrightarrow> bit p 0"
  "has p EXEC \<longleftrightarrow> bit p 1"
  "has p USER \<longleftrightarrow> bit p 2"
  "has p GLOBAL \<longleftrightarrow> bit p 3"
  "has p UNCACHED \<longleftrightarrow> bit p 4"
  unfolding has_def PROT_NONE_def WRITE_def EXEC_def USER_def GLOBAL_def UNCACHED_def
  by (rule and_bit_nonzero; simp)+

end
