(* ===== verification/Containers.thy ===== *)
theory Containers
  imports Prelude
begin

text \<open>
  The fixed-capacity containers of \<^verbatim>\<open>kernel/core/utils\<close>: \<^verbatim>\<open>fixed_string<N>\<close>
  (\<^verbatim>\<open>string.hpp\<close>) and \<^verbatim>\<open>inplace_vector<T, N>\<close> (\<^verbatim>\<open>inplace_vector.hpp\<close>). The
  template argument \<open>N\<close> is an argument of the operations. Storage is the whole C++
  array, the logical contents are its first \<^verbatim>\<open>m_size\<close> entries. A C string is the list
  of its characters; reading at or after its end yields the terminator. A null pointer
  is \<open>None\<close>.
\<close>

section \<open>C strings\<close>

abbreviation NUL :: char where "NUL \<equiv> CHR 0x00"

type_synonym c_string = "char list"

definition char_at :: "c_string \<Rightarrow> nat \<Rightarrow> char" where
  "char_at text i = (if i < length text then text ! i else NUL)"

text \<open>The text before the first terminator.\<close>

definition c_text :: "c_string \<Rightarrow> c_string" where
  "c_text text = takeWhile (\<lambda>c. c \<noteq> NUL) text"

text \<open>\<^verbatim>\<open>char\<close> is signed on x86-64.\<close>

definition char_value :: "char \<Rightarrow> int" where
  "char_value c = (if of_char c \<ge> (128 :: int) then of_char c - 256 else of_char c)"

lemma char_at_Cons_Suc [simp]: "char_at (c # cs) (Suc i) = char_at cs i"
  by (simp add: char_at_def)

lemma char_at_Cons_0 [simp]: "char_at (c # cs) 0 = c"
  by (simp add: char_at_def)

lemma char_at_Nil [simp]: "char_at [] i = NUL"
  by (simp add: char_at_def)

lemma char_value_inj: "char_value a = char_value b \<longleftrightarrow> a = b"
proof -
  have "(0 :: int) \<le> of_char c \<and> of_char c < (256 :: int)" for c :: char
    by (cases c) (simp add: of_char_def horner_sum_bit_eq_take_bit)
  then have "char_value a = char_value b \<Longrightarrow> (of_char a :: int) = of_char b"
    by (smt (verit) char_value_def)
  then show ?thesis by (auto dest: of_char_eq_iff [THEN iffD1])
qed

section \<open>fixed\_string\<close>

record fixed_string =
  m_data :: "char list"
  m_size :: nat

definition fixed_string_new :: "nat \<Rightarrow> fixed_string" where
  "fixed_string_new N = \<lparr>m_data = replicate (N + 1) NUL, m_size = 0\<rparr>"

definition fs_contents :: "fixed_string \<Rightarrow> char list" where
  "fs_contents s = take (m_size s) (m_data s)"

definition fs_empty :: "fixed_string \<Rightarrow> bool" where
  "fs_empty s \<longleftrightarrow> m_size s = 0"

definition fs_full :: "nat \<Rightarrow> fixed_string \<Rightarrow> bool" where
  "fs_full N s \<longleftrightarrow> m_size s = N"

definition fs_clear :: "fixed_string \<Rightarrow> fixed_string" where
  "fs_clear s = s\<lparr>m_size := 0, m_data := (m_data s)[0 := NUL]\<rparr>"

function append_loop :: "nat \<Rightarrow> fixed_string \<Rightarrow> c_string \<Rightarrow> nat \<Rightarrow> nat \<Rightarrow> fixed_string" where
  "append_loop N s text count i =
     (if i < count \<and> m_size s < N \<and> char_at text i \<noteq> NUL
      then append_loop N
             (s\<lparr>m_data := (m_data s)[m_size s := char_at text i], m_size := m_size s + 1\<rparr>)
             text count (i + 1)
      else s)"
  by pat_completeness auto
termination
  by (relation "measure (\<lambda>(N, s, text, count, i). N - m_size s)") auto

declare append_loop.simps [simp del]

definition fs_append :: "nat \<Rightarrow> fixed_string \<Rightarrow> c_string \<Rightarrow> nat \<Rightarrow> fixed_string" where
  "fs_append N s text count =
     (let s' = append_loop N s text count 0
      in s'\<lparr>m_data := (m_data s')[m_size s' := NUL]\<rparr>)"

abbreviation NPOS :: nat where "NPOS \<equiv> 2 ^ 64 - 1"

text \<open>The overloads on a possibly null pointer, on a string and on a character.\<close>

definition fs_append_text :: "nat \<Rightarrow> fixed_string \<Rightarrow> c_string option \<Rightarrow> fixed_string" where
  "fs_append_text N s text =
     (case text of None \<Rightarrow> fs_append N s [] 0 | Some t \<Rightarrow> fs_append N s t NPOS)"

definition fs_append_fixed :: "nat \<Rightarrow> fixed_string \<Rightarrow> fixed_string \<Rightarrow> fixed_string" where
  "fs_append_fixed N s other = fs_append N s (m_data other) (m_size other)"

definition fs_append_char :: "nat \<Rightarrow> fixed_string \<Rightarrow> char \<Rightarrow> fixed_string" where
  "fs_append_char N s c = fs_append N s [c] 1"

definition fs_push_back :: "nat \<Rightarrow> fixed_string \<Rightarrow> char \<Rightarrow> fixed_string" where
  "fs_push_back N s c = fs_append_char N s c"

text \<open>\<^verbatim>\<open>pop_back\<close> on an empty string writes outside the array: \<open>None\<close>.\<close>

definition fs_pop_back :: "fixed_string \<Rightarrow> fixed_string option" where
  "fs_pop_back s =
     (if m_size s = 0 then None
      else Some (s\<lparr>m_size := m_size s - 1, m_data := (m_data s)[m_size s - 1 := NUL]\<rparr>))"

definition fs_assign :: "nat \<Rightarrow> fixed_string \<Rightarrow> c_string \<Rightarrow> nat \<Rightarrow> fixed_string" where
  "fs_assign N s text count = fs_append N (s\<lparr>m_size := 0\<rparr>) text count"

definition fs_assign_text :: "nat \<Rightarrow> fixed_string \<Rightarrow> c_string option \<Rightarrow> fixed_string" where
  "fs_assign_text N s text =
     (case text of None \<Rightarrow> fs_assign N s [] 0 | Some t \<Rightarrow> fs_assign N s t NPOS)"

text \<open>\<^verbatim>\<open>compare\<close>: \<open>i\<close> runs over the stored characters, \<open>n = m_size - i\<close> are left.\<close>

fun compare_loop :: "char list \<Rightarrow> c_string \<Rightarrow> nat \<Rightarrow> nat \<Rightarrow> int" where
  "compare_loop data text i 0 = (if char_at text i = NUL then 0 else -1)"
| "compare_loop data text i (Suc n) =
     (if char_at text i = NUL then 1
      else if data ! i \<noteq> char_at text i
      then (if char_value (data ! i) < char_value (char_at text i) then -1 else 1)
      else compare_loop data text (i + 1) n)"

definition fs_compare :: "fixed_string \<Rightarrow> c_string \<Rightarrow> int" where
  "fs_compare s text = compare_loop (m_data s) text 0 (m_size s)"

definition fs_eq_text :: "fixed_string \<Rightarrow> c_string \<Rightarrow> bool" where
  "fs_eq_text s text \<longleftrightarrow> fs_compare s text = 0"

definition fs_eq :: "fixed_string \<Rightarrow> fixed_string \<Rightarrow> bool" where
  "fs_eq s other \<longleftrightarrow> m_size s = m_size other \<and> fs_compare s (m_data other) = 0"

text \<open>\<^verbatim>\<open>starts_with\<close>, \<^verbatim>\<open>ends_with\<close> and \<^verbatim>\<open>find\<close>.\<close>

fun starts_with_loop :: "fixed_string \<Rightarrow> c_string \<Rightarrow> nat \<Rightarrow> bool" where
  "starts_with_loop s [] i = True"
| "starts_with_loop s (p # prefix) i =
     (if p = NUL then True
      else if m_size s \<le> i \<or> m_data s ! i \<noteq> p then False
      else starts_with_loop s prefix (i + 1))"

definition fs_starts_with :: "fixed_string \<Rightarrow> c_string \<Rightarrow> bool" where
  "fs_starts_with s prefix = starts_with_loop s prefix 0"

definition fs_ends_with :: "fixed_string \<Rightarrow> c_string \<Rightarrow> bool" where
  "fs_ends_with s suffix =
     (let count = length (c_text suffix)
      in if m_size s < count then False
         else list_all (\<lambda>i. m_data s ! (m_size s - count + i) = char_at suffix i) [0..<count])"

fun find_loop :: "char list \<Rightarrow> char \<Rightarrow> nat \<Rightarrow> nat \<Rightarrow> nat option" where
  "find_loop data c i 0 = None"
| "find_loop data c i (Suc n) = (if data ! i = c then Some i else find_loop data c (i + 1) n)"

definition fs_find :: "fixed_string \<Rightarrow> char \<Rightarrow> nat \<Rightarrow> nat option" where
  "fs_find s c from = find_loop (m_data s) c from (m_size s - from)"

section \<open>inplace\_vector\<close>

datatype container_error = CAPACITY_EXCEEDED | EMPTY

record 'a inplace_vector =
  v_items :: "'a list"
  v_size :: nat

definition v_contents :: "'a inplace_vector \<Rightarrow> 'a list" where
  "v_contents v = take (v_size v) (v_items v)"

definition vec_new :: "nat \<Rightarrow> 'a \<Rightarrow> 'a inplace_vector" where
  "vec_new N d = \<lparr>v_items = replicate N d, v_size = 0\<rparr>"

definition vec_empty :: "'a inplace_vector \<Rightarrow> bool" where
  "vec_empty v \<longleftrightarrow> v_size v = 0"

definition emplace_back :: "nat \<Rightarrow> 'a inplace_vector \<Rightarrow> 'a \<Rightarrow> 'a inplace_vector outcome" where
  "emplace_back N v x =
     (if v_size v = N then Panic ''inplace_vector: emplace_back past capacity''
      else Return (v\<lparr>v_items := (v_items v)[v_size v := x], v_size := v_size v + 1\<rparr>))"

definition push_back :: "nat \<Rightarrow> 'a inplace_vector \<Rightarrow> 'a \<Rightarrow> 'a inplace_vector outcome" where
  "push_back N v x =
     (if v_size v = N then Panic ''inplace_vector: push_back past capacity''
      else emplace_back N v x)"

definition pop_back :: "'a inplace_vector \<Rightarrow> 'a inplace_vector outcome" where
  "pop_back v =
     (if v_size v = 0 then Panic ''inplace_vector: pop_back on empty''
      else Return (v\<lparr>v_size := v_size v - 1\<rparr>))"

definition try_push_back ::
  "nat \<Rightarrow> 'a inplace_vector \<Rightarrow> 'a \<Rightarrow> ((unit, container_error) result \<times> 'a inplace_vector) outcome" where
  "try_push_back N v x =
     (if v_size v = N then Return (Err CAPACITY_EXCEEDED, v)
      else obind (emplace_back N v x) (\<lambda>v'. Return (Ok (), v')))"

definition try_pop_back ::
  "'a inplace_vector \<Rightarrow> (unit, container_error) result \<times> 'a inplace_vector" where
  "try_pop_back v = (if v_size v = 0 then (Err EMPTY, v) else (Ok (), v))"

definition vec_clear :: "'a inplace_vector \<Rightarrow> 'a inplace_vector" where
  "vec_clear v = v\<lparr>v_size := 0\<rparr>"

section \<open>Well-formedness and the meaning of the string operations\<close>

definition fs_wf :: "nat \<Rightarrow> fixed_string \<Rightarrow> bool" where
  "fs_wf N s \<longleftrightarrow> length (m_data s) = N + 1 \<and> m_size s \<le> N \<and> m_data s ! m_size s = NUL"

lemma fs_wf_new: "fs_wf N (fixed_string_new N)"
  by (simp add: fs_wf_def fixed_string_new_def)

lemma append_loop_spec:
  assumes "length (m_data s) = N + 1" "m_size s \<le> N"
  shows "let s' = append_loop N s str count i in
           length (m_data s') = N + 1 \<and> m_size s' \<le> N \<and>
           fs_contents s' = fs_contents s @
             take (N - m_size s) (c_text (take (count - i) (drop i str)))"
  using assms
proof (induction N s str count i rule: append_loop.induct)
  case (1 N s str count i)
  show ?case
  proof (cases "i < count \<and> m_size s < N \<and> char_at str i \<noteq> NUL")
    case True
    let ?s = "s\<lparr>m_data := (m_data s)[m_size s := char_at str i], m_size := m_size s + 1\<rparr>"
    have i: "i < length str" "char_at str i = str ! i" and nn: "str ! i \<noteq> NUL"
      using True by (auto simp: char_at_def split: if_splits)
    have new: "fs_contents ?s = fs_contents s @ [str ! i]"
      using True "1.prems"(1) i by (simp add: fs_contents_def take_Suc_conv_app_nth)
    have "take (count - i) (drop i str) = str ! i # take (count - (i + 1)) (drop (i + 1) str)"
      using True i by (metis Cons_nth_drop_Suc Suc_diff_Suc Suc_eq_plus1 take_Suc_Cons)
    then have "take (N - m_size s) (c_text (take (count - i) (drop i str))) =
        str ! i # take (N - (m_size s + 1)) (c_text (take (count - (i + 1)) (drop (i + 1) str)))"
      using True nn by (simp add: c_text_def take_Cons' Suc_diff_Suc)
    then show ?thesis
      using "1.IH" [OF True] "1.prems" True new
      by (simp add: append_loop.simps [of N s str count i] Let_def)
  next
    case False
    have "take (N - m_size s) (c_text (take (count - i) (drop i str))) = []"
    proof (cases "i < length str")
      case True
      then have "drop i str = str ! i # drop (i + 1) str"
        by (simp add: Cons_nth_drop_Suc)
      then show ?thesis
        using False True "1.prems"(2) by (auto simp: c_text_def char_at_def take_Cons')
    qed (simp add: c_text_def)
    moreover have "append_loop N s str count i = s"
      using False by (subst append_loop.simps) (simp only: if_False)
    ultimately show ?thesis using "1.prems" by (simp only: Let_def append_Nil2 simp_thms)
  qed
qed

lemma fs_contents_terminate:
  "fs_contents (s\<lparr>m_data := (m_data s)[m_size s := x]\<rparr>) = fs_contents s"
  by (simp add: fs_contents_def)

lemma fs_append_wf:
  assumes "length (m_data s) = N + 1" "m_size s \<le> N"
  shows "fs_wf N (fs_append N s str count)"
    and "fs_contents (fs_append N s str count) =
           fs_contents s @ take (N - m_size s) (c_text (take count str))"
  using append_loop_spec [OF assms, of str count 0]
  by (simp_all add: fs_append_def Let_def fs_wf_def fs_contents_terminate)

text \<open>
  \<^verbatim>\<open>fixed_string::append(text, count)\<close> appends at most \<open>count\<close> characters of the
  text before its terminator, truncates at the capacity, and leaves a terminated
  string whose size is within the capacity.
\<close>

lemma fs_append_spec:
  assumes "length (m_data s) = N + 1" "m_size s \<le> N"
  shows "fs_wf N (fs_append N s str count) \<and>
         fs_contents (fs_append N s str count) =
           fs_contents s @ take (N - m_size s) (c_text (take count str))"
  using fs_append_wf [OF assms] by simp

text \<open>What the queries say of the contents.\<close>

lemma fs_find_None: "fs_find s c from = None \<longleftrightarrow> (\<forall>i. from \<le> i \<and> i < m_size s \<longrightarrow> m_data s ! i \<noteq> c)"
proof -
  have "find_loop d c k n = None \<longleftrightarrow> (\<forall>i. k \<le> i \<and> i < k + n \<longrightarrow> d ! i \<noteq> c)" for d k n
    by (induction d c k n rule: find_loop.induct) (auto simp: Suc_le_eq le_less, metis Suc_lessI)
  from this [of "m_data s" "from" "m_size s - from"] show ?thesis
    by (cases "from \<le> m_size s") (auto simp: fs_find_def)
qed

lemma fs_assign_contents:
  assumes "fs_wf N s"
  shows "fs_wf N (fs_assign N s str count)"
    and "fs_contents (fs_assign N s str count) = take N (c_text (take count str))"
  using assms fs_append_wf [of "s\<lparr>m_size := 0\<rparr>" N str count]
  by (simp_all add: fs_assign_def fs_wf_def fs_contents_def)

section \<open>Meaning of the vector operations\<close>

definition vec_wf :: "nat \<Rightarrow> 'a inplace_vector \<Rightarrow> bool" where
  "vec_wf N v \<longleftrightarrow> length (v_items v) = N \<and> v_size v \<le> N"

lemma vec_wf_new: "vec_wf N (vec_new N d)"
  by (simp add: vec_wf_def vec_new_def)

lemma vec_wf_clear: "vec_wf N v \<Longrightarrow> vec_wf N (vec_clear v)"
  by (simp add: vec_wf_def vec_clear_def)

lemma v_contents_clear [simp]: "v_contents (vec_clear v) = []"
  by (simp add: v_contents_def vec_clear_def)

lemma emplace_back_spec:
  assumes "vec_wf N v" "v_size v < N"
  shows "\<exists>v'. emplace_back N v x = Return v' \<and> vec_wf N v' \<and> v_contents v' = v_contents v @ [x]"
  using assms by (simp add: emplace_back_def vec_wf_def v_contents_def take_Suc_conv_app_nth)

lemma try_push_back_cases:
  assumes "vec_wf N v"
  shows "(v_size v = N \<and> try_push_back N v x = Return (Err CAPACITY_EXCEEDED, v)) \<or>
         (\<exists>v'. try_push_back N v x = Return (Ok (), v') \<and> vec_wf N v' \<and>
               v_contents v' = v_contents v @ [x])"
  using assms emplace_back_spec [OF assms, of x]
  by (cases "v_size v = N") (auto simp: try_push_back_def vec_wf_def)

lemma pop_back_spec:
  assumes "vec_wf N v" "v_contents v = xs @ [x]"
  shows "\<exists>v'. pop_back v = Return v' \<and> vec_wf N v' \<and> v_contents v' = xs"
proof -
  have "v_size v = Suc (length xs)" 
    using assms by (metis length_append_singleton length_take min.absorb2 v_contents_def vec_wf_def)
  then show ?thesis
    using assms by (simp add: pop_back_def vec_wf_def v_contents_def)
      (metis append_eq_conv_conj append_take_drop_id butlast_snoc butlast_take diff_Suc_1
        le_less lessI less_le_trans)
qed

text \<open>
  \<^verbatim>\<open>inplace_vector\<close> is a bounded stack: within its capacity \<^verbatim>\<open>try_push_back\<close> appends
  and \<^verbatim>\<open>pop_back\<close> then removes exactly that element; at capacity the push is refused
  and the vector is unchanged.
\<close>

lemma try_push_back_pop_back:
  assumes "vec_wf N v"
  shows "if v_size v = N then try_push_back N v x = Return (Err CAPACITY_EXCEEDED, v)
         else \<exists>v' v''. try_push_back N v x = Return (Ok (), v') \<and> v_contents v' = v_contents v @ [x] \<and>
                       pop_back v' = Return v'' \<and> v_contents v'' = v_contents v"
proof (cases "v_size v = N")
  case True
  then show ?thesis by (simp add: try_push_back_def)
next
  case False
  then obtain v' where v': "try_push_back N v x = Return (Ok (), v')" "vec_wf N v'"
      "v_contents v' = v_contents v @ [x]"
    using try_push_back_cases [OF assms, of x] by auto
  from pop_back_spec [OF v'(2,3)] v' False show ?thesis by auto
qed

text \<open>
  \<^verbatim>\<open>try_pop_back\<close> reports success on a non-empty vector without removing anything,
  so a caller that drains the vector with it never reaches \<^verbatim>\<open>EMPTY\<close>.
\<close>

lemma try_pop_back_keeps:
  assumes "v_size v \<noteq> 0"
  shows "((snd \<circ> try_pop_back) ^^ n) v = v \<and> fst (try_pop_back (((snd \<circ> try_pop_back) ^^ n) v)) = Ok ()"
  using assms by (induction n) (simp_all add: try_pop_back_def)

end
