(* ===== verification/Boot_Info.thy ===== *)
theory Boot_Info
  imports Containers
begin

text \<open>
  \<^verbatim>\<open>kernel/boot/protocol.hpp\<close> and \<^verbatim>\<open>kernel/boot/boot_info.cpp\<close>: the protocol-neutral
  boot information the rest of the kernel reads, its \<^verbatim>\<open>reset\<close>, and the component that
  fills it. The active protocol (\<^verbatim>\<open>active::well_formed\<close>, \<^verbatim>\<open>active::parse\<close>) is selected
  by the build and is an argument of \<open>boot_info_parse\<close>: it returns (possibly with an
  error), halts the machine, or (\<open>None\<close>) never comes back.
\<close>

definition MAX_BOOT_STRING :: nat where "MAX_BOOT_STRING = 256"
definition MAX_BOOT_MEMORY_REGIONS :: nat where "MAX_BOOT_MEMORY_REGIONS = 128"
definition MAX_BOOT_MODULES :: nat where "MAX_BOOT_MODULES = 32"
definition MAX_BOOT_RESERVED_RANGES :: nat where "MAX_BOOT_RESERVED_RANGES = 8"
definition MAX_BOOT_MODULE_COMMAND_LINE :: nat where "MAX_BOOT_MODULE_COMMAND_LINE = 128"
definition MAX_BOOT_PALETTE_COLORS :: nat where "MAX_BOOT_PALETTE_COLORS = 256"

datatype memory_kind = USABLE | RESERVED | ACPI_RECLAIMABLE | ACPI_NVS | DEFECTIVE

record address_range =
  r_base :: paddr_t
  r_length :: u64

record memory_region =
  mr_base :: paddr_t
  mr_length :: u64
  mr_kind :: memory_kind

record module_info =
  mod_range :: address_range
  mod_command_line :: fixed_string

datatype framebuffer_kind = RGB | INDEXED | TEXT

record pixel_channel =
  ch_position :: u8
  ch_size :: u8

record palette_color =
  pc_red :: u8
  pc_green :: u8
  pc_blue :: u8

record framebuffer_info =
  fb_present :: bool
  fb_kind :: framebuffer_kind
  fb_range :: address_range
  fb_pitch :: u32
  fb_width :: u32
  fb_height :: u32
  fb_bits_per_pixel :: u8
  fb_red :: pixel_channel
  fb_green :: pixel_channel
  fb_blue :: pixel_channel
  fb_palette :: "palette_color inplace_vector"

record acpi_info =
  acpi_present :: bool
  acpi_rsdp :: address_range
  acpi_revision :: u8

record boot_info =
  command_line :: fixed_string
  bootloader_name :: fixed_string
  memory_map :: "memory_region inplace_vector"
  modules :: "module_info inplace_vector"
  reserved :: "address_range inplace_vector"
  framebuffer :: framebuffer_info
  acpi :: acpi_info

text \<open>Value initialisation \<^verbatim>\<open>T{}\<close> of the structures.\<close>

definition address_range_zero :: address_range where
  "address_range_zero = \<lparr>r_base = 0, r_length = 0\<rparr>"

definition memory_region_zero :: memory_region where
  "memory_region_zero = \<lparr>mr_base = 0, mr_length = 0, mr_kind = USABLE\<rparr>"

definition module_info_zero :: module_info where
  "module_info_zero =
     \<lparr>mod_range = address_range_zero,
      mod_command_line = fixed_string_new MAX_BOOT_MODULE_COMMAND_LINE\<rparr>"

definition pixel_channel_zero :: pixel_channel where
  "pixel_channel_zero = \<lparr>ch_position = 0, ch_size = 0\<rparr>"

definition palette_color_zero :: palette_color where
  "palette_color_zero = \<lparr>pc_red = 0, pc_green = 0, pc_blue = 0\<rparr>"

definition framebuffer_info_zero :: framebuffer_info where
  "framebuffer_info_zero =
     \<lparr>fb_present = False, fb_kind = RGB, fb_range = address_range_zero,
      fb_pitch = 0, fb_width = 0, fb_height = 0, fb_bits_per_pixel = 0,
      fb_red = pixel_channel_zero, fb_green = pixel_channel_zero, fb_blue = pixel_channel_zero,
      fb_palette = vec_new MAX_BOOT_PALETTE_COLORS palette_color_zero\<rparr>"

definition acpi_info_zero :: acpi_info where
  "acpi_info_zero = \<lparr>acpi_present = False, acpi_rsdp = address_range_zero, acpi_revision = 0\<rparr>"

definition boot_info_zero :: boot_info where
  "boot_info_zero =
     \<lparr>command_line = fixed_string_new MAX_BOOT_STRING,
      bootloader_name = fixed_string_new MAX_BOOT_STRING,
      memory_map = vec_new MAX_BOOT_MEMORY_REGIONS memory_region_zero,
      modules = vec_new MAX_BOOT_MODULES module_info_zero,
      reserved = vec_new MAX_BOOT_RESERVED_RANGES address_range_zero,
      framebuffer = framebuffer_info_zero,
      acpi = acpi_info_zero\<rparr>"

definition boot_info_reset :: "boot_info \<Rightarrow> boot_info" where
  "boot_info_reset i =
     i\<lparr>command_line := fs_assign_text MAX_BOOT_STRING (command_line i) None,
       bootloader_name := fs_assign_text MAX_BOOT_STRING (bootloader_name i) None,
       memory_map := vec_clear (memory_map i),
       modules := vec_clear (modules i),
       reserved := vec_clear (reserved i),
       framebuffer := framebuffer_info_zero,
       acpi := acpi_info_zero\<rparr>"

section \<open>The boot-info component\<close>

datatype init_error =
  UNSPECIFIED
| DEPENDENCY_UNAVAILABLE
| INVALID_BOOT_DATA
| INIT_CAPACITY_EXCEEDED
| NO_USABLE_MEMORY
| HARDWARE_UNSUPPORTED

type_synonym init_result = "(unit, init_error) result"

definition boot_info_parse ::
  "bool \<Rightarrow> (boot_info \<Rightarrow> (init_result \<times> boot_info) outcome option) \<Rightarrow> boot_info
    \<Rightarrow> (init_result \<times> boot_info) outcome option" where
  "boot_info_parse well_formed parse m_info =
     (let m_info = boot_info_reset m_info
      in if \<not> well_formed then Some (Return (Err INVALID_BOOT_DATA, m_info))
         else
           case parse m_info of
             Some (Return (Err e, m_info)) \<Rightarrow> Some (Return (Err e, boot_info_reset m_info))
           | res \<Rightarrow> res)"

section \<open>What reset leaves\<close>

definition boot_info_cleared :: "boot_info \<Rightarrow> bool" where
  "boot_info_cleared i \<longleftrightarrow>
     fs_contents (command_line i) = [] \<and> fs_contents (bootloader_name i) = [] \<and>
     v_contents (memory_map i) = [] \<and> v_contents (modules i) = [] \<and> v_contents (reserved i) = [] \<and>
     framebuffer i = framebuffer_info_zero \<and> acpi i = acpi_info_zero"

definition boot_info_wf :: "boot_info \<Rightarrow> bool" where
  "boot_info_wf i \<longleftrightarrow>
     fs_wf MAX_BOOT_STRING (command_line i) \<and> fs_wf MAX_BOOT_STRING (bootloader_name i) \<and>
     vec_wf MAX_BOOT_MEMORY_REGIONS (memory_map i) \<and> vec_wf MAX_BOOT_MODULES (modules i) \<and>
     vec_wf MAX_BOOT_RESERVED_RANGES (reserved i)"

lemma boot_info_wf_zero: "boot_info_wf boot_info_zero"
  by (simp add: boot_info_wf_def boot_info_zero_def fs_wf_new vec_wf_new)

lemma boot_info_reset_cleared:
  assumes "boot_info_wf i"
  shows "boot_info_cleared (boot_info_reset i)" "boot_info_wf (boot_info_reset i)"
  using assms fs_assign_contents [of MAX_BOOT_STRING _ "[]" 0]
  by (simp_all add: boot_info_cleared_def boot_info_wf_def boot_info_reset_def fs_assign_text_def
      vec_wf_clear v_contents_clear c_text_def)

text \<open>
  a failed boot parse leaves no partial boot information: whatever the protocol wrote
  before it reported the error is cleared again, and a malformed image is never parsed.
\<close>

lemma boot_info_parse_error_clears:
  assumes "boot_info_wf m_info"
    and "\<And>i r i'. boot_info_wf i \<Longrightarrow> parse i = Some (Return (r, i')) \<Longrightarrow> boot_info_wf i'"
    and "boot_info_parse well_formed parse m_info = Some (Return (Err e, m_info'))"
  shows "boot_info_cleared m_info' \<and> boot_info_wf m_info'"
proof -
  have reset: "boot_info_wf (boot_info_reset m_info)" by (rule boot_info_reset_cleared) fact
  consider "m_info' = boot_info_reset m_info"
    | i where "parse (boot_info_reset m_info) = Some (Return (Err e, i))" "m_info' = boot_info_reset i"
    using assms(3)
    by (auto simp: boot_info_parse_def Let_def
        split: if_splits option.splits outcome.splits prod.splits sum.splits)
  then show ?thesis
    by cases (use reset assms(1,2) boot_info_reset_cleared in blast)+
qed

end
