(* ===== verification/Pmm.thy ===== *)
theory Pmm
  imports Bitmap Pages Boot_Info
begin

text \<open>
  \<^verbatim>\<open>kernel/mm/pmm.cpp\<close>, the physical frame allocator: one bit per 4 KiB frame, one
  \<^verbatim>\<open>block\<close> per 2 MiB, and two intrusive doubly linked lists of blocks, the whole ones
  and the broken ones. The file-level variables are the record \<open>pmm\<close>; the pointer that
  \<^verbatim>\<open>list_of\<close> returns names one of the two list heads. Block indices held in the lists
  are 16-bit words with the sentinel \<^verbatim>\<open>NIL\<close>.

  The linker symbols \<^verbatim>\<open>boot_start\<close> and \<^verbatim>\<open>kernel_physical_end\<close> and the view of the
  boot information that the reflection library gives to \<^verbatim>\<open>claim\<close> are arguments.
\<close>

section \<open>State\<close>

definition MAX_PHYSICAL_MEMORY :: u64 where "MAX_PHYSICAL_MEMORY = 0x400000000"
definition MAX_FRAMES :: nat where "MAX_FRAMES = unat MAX_PHYSICAL_MEMORY div unat FRAME_SIZE"
definition FRAMES_PER_BLOCK :: nat where "FRAMES_PER_BLOCK = frames_in SIZE_2M"
definition WORDS_PER_BLOCK :: nat where "WORDS_PER_BLOCK = FRAMES_PER_BLOCK div BITS"
definition BLOCK_COUNT :: nat where "BLOCK_COUNT = MAX_FRAMES div FRAMES_PER_BLOCK"
definition NIL :: u16 where "NIL = NOT 0"

record block =
  b_free :: u16
  b_next :: u16
  b_prev :: u16

record pmm =
  m_frames :: bitmap
  m_blocks :: "block list"
  m_whole :: u16
  m_broken :: u16

definition pmm_boot_state :: pmm where
  "pmm_boot_state =
     \<lparr>m_frames = bitmap_new MAX_FRAMES,
      m_blocks = replicate BLOCK_COUNT \<lparr>b_free = 0, b_next = 0, b_prev = 0\<rparr>,
      m_whole = NIL, m_broken = NIL\<rparr>"

definition address_of :: "nat \<Rightarrow> paddr_t" where
  "address_of frame = push_bit FRAME_SHIFT (of_nat frame)"

section \<open>Block lists\<close>

datatype head = Whole | Broken

fun get_head :: "head \<Rightarrow> pmm \<Rightarrow> u16" where
  "get_head Whole s = m_whole s"
| "get_head Broken s = m_broken s"

fun set_head :: "head \<Rightarrow> u16 \<Rightarrow> pmm \<Rightarrow> pmm" where
  "set_head Whole i s = s\<lparr>m_whole := i\<rparr>"
| "set_head Broken i s = s\<lparr>m_broken := i\<rparr>"

definition upd_block :: "nat \<Rightarrow> (block \<Rightarrow> block) \<Rightarrow> pmm \<Rightarrow> pmm" where
  "upd_block i f s = s\<lparr>m_blocks := (m_blocks s)[i := f (m_blocks s ! i)]\<rparr>"

definition list_of :: "nat \<Rightarrow> head option" where
  "list_of n_free =
     (if n_free = 0 then None else if n_free = FRAMES_PER_BLOCK then Some Whole else Some Broken)"

definition push :: "head \<Rightarrow> nat \<Rightarrow> pmm \<Rightarrow> pmm" where
  "push hd_ref index s =
     (let s = upd_block index (b_next_update (\<lambda>_. get_head hd_ref s)) s;
          s = upd_block index (b_prev_update (\<lambda>_. NIL)) s;
          s = (if get_head hd_ref s \<noteq> NIL
               then upd_block (unat (get_head hd_ref s)) (b_prev_update (\<lambda>_. of_nat index)) s
               else s)
      in set_head hd_ref (of_nat index) s)"

definition unlink :: "head \<Rightarrow> nat \<Rightarrow> pmm \<Rightarrow> pmm" where
  "unlink hd_ref index s =
     (let b = (\<lambda>s. m_blocks s ! index);
          s = (if b_prev (b s) = NIL then set_head hd_ref (b_next (b s)) s
               else upd_block (unat (b_prev (b s))) (b_next_update (\<lambda>_. b_next (b s))) s)
      in if b_next (b s) \<noteq> NIL
         then upd_block (unat (b_next (b s))) (b_prev_update (\<lambda>_. b_prev (b s))) s
         else s)"

definition set_free :: "nat \<Rightarrow> nat \<Rightarrow> pmm \<Rightarrow> pmm" where
  "set_free index n_free s =
     (let from_l = list_of (unat (b_free (m_blocks s ! index)));
          to_l = list_of n_free;
          s = (if from_l \<noteq> to_l then
                 let s = (case from_l of None \<Rightarrow> s | Some h \<Rightarrow> unlink h index s)
                 in (case to_l of None \<Rightarrow> s | Some h \<Rightarrow> push h index s)
               else s)
      in upd_block index (b_free_update (\<lambda>_. of_nat n_free)) s)"

section \<open>Taking frames\<close>

definition take_whole :: "nat \<Rightarrow> nat \<Rightarrow> pmm \<Rightarrow> paddr_t \<times> pmm" where
  "take_whole first count s =
     (let s = s\<lparr>m_frames := bitmap_clear_range (m_frames s) (first * FRAMES_PER_BLOCK)
                              (count * FRAMES_PER_BLOCK)\<rparr>;
          s = fold (\<lambda>i. set_free (first + i) 0) [0..<count] s
      in (address_of (first * FRAMES_PER_BLOCK), s))"

text \<open>The inner loop of \<^verbatim>\<open>find_whole_run\<close>: how many blocks from \<open>first\<close> on are whole.\<close>

function count_whole :: "nat \<Rightarrow> pmm \<Rightarrow> nat \<Rightarrow> nat \<Rightarrow> nat" where
  "count_whole Blocks s first whole =
     (if whole < Blocks \<and> unat (b_free (m_blocks s ! (first + whole))) = FRAMES_PER_BLOCK
      then count_whole Blocks s first (whole + 1) else whole)"
  by pat_completeness auto
termination by (relation "measure (\<lambda>(Blocks, s, first, whole). Blocks - whole)") auto

declare count_whole.simps [simp del]

text \<open>
  The outer loop. It is instantiated with a positive number of blocks only, which the
  guard records.
\<close>

function find_run_from :: "nat \<Rightarrow> pmm \<Rightarrow> nat \<Rightarrow> nat" where
  "find_run_from Blocks s first =
     (if first < BLOCK_COUNT \<and> 0 < Blocks
      then (if count_whole Blocks s first 0 = Blocks then first
            else find_run_from Blocks s (first + Blocks))
      else unat NIL)"
  by pat_completeness auto
termination by (relation "measure (\<lambda>(Blocks, s, first). BLOCK_COUNT - first)") auto

declare find_run_from.simps [simp del]

definition find_whole_run :: "nat \<Rightarrow> pmm \<Rightarrow> nat" where
  "find_whole_run Blocks s =
     (if Blocks = 1 then unat (m_whole s) else find_run_from Blocks s 0)"

definition take_4k :: "pmm \<Rightarrow> ((paddr_t, mm_error) result \<times> pmm) outcome" where
  "take_4k s =
     (let index = (if m_broken s \<noteq> NIL then m_broken s else m_whole s)
      in if index = NIL then Return (Err OUT_OF_MEMORY, s)
         else
           case find_set (m_frames s) (unat index * WORDS_PER_BLOCK) WORDS_PER_BLOCK of
             None \<Rightarrow> Panic ''pmm: block {} is listed as free but holds nothing''
           | Some frame \<Rightarrow>
               let s = s\<lparr>m_frames := bitmap_clear (m_frames s) frame\<rparr>;
                   left = (unat (b_free (m_blocks s ! unat index)) + (2 ^ 64 - 1)) mod 2 ^ 64
               in Return (Ok (address_of frame), set_free (unat index) left s))"

definition take_blocks :: "page_size \<Rightarrow> pmm \<Rightarrow> (paddr_t, mm_error) result \<times> pmm" where
  "take_blocks S s =
     (let BLOCKS = frames_in S div FRAMES_PER_BLOCK;
          first = find_whole_run BLOCKS s
      in if first = unat NIL then (Err OUT_OF_MEMORY, s)
         else let (base, s) = take_whole first BLOCKS s in (Ok base, s))"

definition pmm_take :: "page_size \<Rightarrow> pmm \<Rightarrow> ((paddr_t, mm_error) result \<times> pmm) outcome" where
  "pmm_take S s = (if S = SIZE_4K then take_4k s else Return (take_blocks S s))"

section \<open>Populating from the boot information\<close>

definition mark :: "paddr_t \<Rightarrow> u64 \<Rightarrow> bool \<Rightarrow> pmm \<Rightarrow> pmm" where
  "mark base len usable s =
     (if len = 0 \<or> base \<ge> MAX_PHYSICAL_MEMORY then s
      else
        let end_a = (if len > MAX_PHYSICAL_MEMORY - base then MAX_PHYSICAL_MEMORY else base + len);
            first = (if usable then align_up base FRAME_SIZE else align_down base FRAME_SIZE);
            lst = (if usable then align_down end_a FRAME_SIZE else align_up end_a FRAME_SIZE)
        in if first \<ge> lst then s
           else
             let f = unat (drop_bit FRAME_SHIFT first);
                 n = unat (drop_bit FRAME_SHIFT (lst - first))
             in s\<lparr>m_frames := (if usable then bitmap_set_range (m_frames s) f n
                                else bitmap_clear_range (m_frames s) f n)\<rparr>)"

datatype phase = FREE | RESERVE

text \<open>
  What \<^verbatim>\<open>claim\<close> distinguishes about its argument: a region, a range, a value that can be
  iterated or reflected (its parts, in order), or anything else.
\<close>

datatype claimable =
  Region memory_region
| Range address_range
| Parts "claimable list"
| Other

fun claim :: "phase \<Rightarrow> claimable \<Rightarrow> pmm \<Rightarrow> pmm"
  and claim_list :: "phase \<Rightarrow> claimable list \<Rightarrow> pmm \<Rightarrow> pmm" where
  "claim p (Region r) s =
     (let usable = (mr_kind r = USABLE)
      in if (p = FREE) = usable then mark (mr_base r) (mr_length r) usable s else s)"
| "claim p (Range r) s = (if p = RESERVE then mark (r_base r) (r_length r) False s else s)"
| "claim p (Parts vs) s = claim_list p vs s"
| "claim p Other s = s"
| "claim_list p [] s = s"
| "claim_list p (v # vs) s = claim_list p vs (claim p v s)"

definition populate :: "(boot_info \<Rightarrow> claimable) \<Rightarrow> u64 \<Rightarrow> u64 \<Rightarrow> boot_info \<Rightarrow> pmm \<Rightarrow> pmm" where
  "populate view boot_start kernel_physical_end boot s =
     (let s = claim FREE (view boot) s;
          s = mark 0 (1024 * 1024) False s;
          s = mark boot_start (kernel_physical_end - boot_start) False s;
          s = claim RESERVE (view boot) s
      in fold (\<lambda>index s. set_free index
                 (count_set (m_frames s) (index * WORDS_PER_BLOCK) WORDS_PER_BLOCK) s)
           [0..<BLOCK_COUNT] s)"

section \<open>Interface\<close>

definition pmm_alloc :: "page_size \<Rightarrow> pmm \<Rightarrow> ((paddr_t, mm_error) result \<times> pmm) outcome" where
  "pmm_alloc psize s =
     (if psize = SIZE_4K then pmm_take SIZE_4K s
      else if psize = SIZE_2M then pmm_take SIZE_2M s
      else if psize = SIZE_1G then pmm_take SIZE_1G s
      else Return (Err UNSUPPORTED_SIZE, s))"

definition pmm_free :: "page_size \<Rightarrow> paddr_t \<Rightarrow> pmm \<Rightarrow> pmm outcome" where
  "pmm_free psize base s =
     (let count = frames_in psize;
          first = unat (drop_bit FRAME_SHIFT base)
      in if \<not> is_aligned base (bytes_in psize) \<or> first \<ge> MAX_FRAMES \<or> count > MAX_FRAMES - first
         then Panic ''pmm: invalid release of {} frames at {:#018X}''
         else if find_set_in (m_frames s) first count \<noteq> None
         then Panic ''pmm: double free of {} frames at {:#018X}''
         else
           let s = s\<lparr>m_frames := bitmap_set_range (m_frames s) first count\<rparr>;
               index = first div FRAMES_PER_BLOCK
           in if count < FRAMES_PER_BLOCK
              then Return (set_free index (unat (b_free (m_blocks s ! index)) + count) s)
              else Return (fold (\<lambda>i. set_free (index + i) FRAMES_PER_BLOCK)
                             [0..<count div FRAMES_PER_BLOCK] s))"

definition init_allocator ::
  "(boot_info \<Rightarrow> claimable) \<Rightarrow> u64 \<Rightarrow> u64 \<Rightarrow> boot_info \<Rightarrow> pmm \<Rightarrow> init_result \<times> pmm" where
  "init_allocator view boot_start kernel_physical_end boot s =
     (let s = populate view boot_start kernel_physical_end boot s
      in if m_whole s = NIL \<and> m_broken s = NIL then (Err NO_USABLE_MEMORY, s) else (Ok (), s))"

section \<open>Values of the constants\<close>

lemma unat_NIL [layout]: "unat NIL = 65535"
  by (simp add: NIL_def unsigned_minus_1_eq_mask mask_eq_exp_minus_1)

lemma pmm_constants [layout]:
  "FRAMES_PER_BLOCK = 512" "WORDS_PER_BLOCK = 8" "BLOCK_COUNT = 8192" "MAX_FRAMES = 4194304"
  "unat MAX_PHYSICAL_MEMORY = 17179869184"
  by (simp_all add: FRAMES_PER_BLOCK_def WORDS_PER_BLOCK_def BLOCK_COUNT_def MAX_FRAMES_def
      MAX_PHYSICAL_MEMORY_def layout)

lemma unat_index [simp]: "i < 8192 \<Longrightarrow> unat (of_nat i :: u16) = i"
  by (rule unat_of_nat_small) simp

lemma index_not_NIL [simp]: "i < 8192 \<Longrightarrow> (of_nat i :: u16) \<noteq> NIL"
proof
  assume i: "i < 8192" and "(of_nat i :: u16) = NIL"
  then have "i = 65535" using unat_index [OF i] unat_NIL by simp
  with i show False by simp
qed

end
