(* ===== verification/Pmm_Lists.thy ===== *)
theory Pmm_Lists
  imports Pmm
begin

text \<open>
  The two intrusive lists of the frame allocator. \<open>dseg\<close> relates a stretch of the
  doubly linked structure to the list of block indices it visits, as in the heap path
  predicates of pointer-program verification; \<open>lists_inv\<close> says that the whole list
  holds exactly the blocks whose counter is full and the broken list exactly those whose
  counter is strictly between zero and full. \<^verbatim>\<open>set_free\<close> keeps this for any counter value.
\<close>

section \<open>Linked segments\<close>

definition entry_ptr :: "u16 \<Rightarrow> nat list \<Rightarrow> u16" where
  "entry_ptr e xs = (case xs of [] \<Rightarrow> e | i # _ \<Rightarrow> of_nat i)"

definition exit_ptr :: "u16 \<Rightarrow> nat list \<Rightarrow> u16" where
  "exit_ptr p xs = (if xs = [] then p else of_nat (last xs))"

fun dseg :: "block list \<Rightarrow> u16 \<Rightarrow> nat list \<Rightarrow> u16 \<Rightarrow> bool" where
  "dseg bs p [] e = True"
| "dseg bs p (i # is) e \<longleftrightarrow>
     i < length bs \<and> b_prev (bs ! i) = p \<and> b_next (bs ! i) = entry_ptr e is \<and>
     dseg bs (of_nat i) is e"

definition dll :: "block list \<Rightarrow> u16 \<Rightarrow> nat list \<Rightarrow> bool" where
  "dll bs h xs \<longleftrightarrow> h = entry_ptr NIL xs \<and> distinct xs \<and> dseg bs NIL xs NIL"

lemma entry_ptr_simps [simp]: "entry_ptr e [] = e" "entry_ptr e (i # is) = of_nat i"
  by (simp_all add: entry_ptr_def)

lemma entry_ptr_append: "entry_ptr e (xs @ ys) = entry_ptr (entry_ptr e ys) xs"
  by (cases xs) auto

lemma exit_ptr_simps [simp]: "exit_ptr p [] = p" "exit_ptr p (xs @ [i]) = of_nat i"
  "exit_ptr p (i # is) = exit_ptr (of_nat i) is"
  by (simp_all add: exit_ptr_def)

lemma dseg_append:
  "dseg bs p (xs @ ys) e \<longleftrightarrow> dseg bs p xs (entry_ptr e ys) \<and> dseg bs (exit_ptr p xs) ys e"
  by (induction xs arbitrary: p) (auto simp: entry_ptr_append)

lemma dseg_bound: "dseg bs p xs e \<Longrightarrow> i \<in> set xs \<Longrightarrow> i < length bs"
  by (induction xs arbitrary: p) auto

lemma dseg_frame:
  assumes "dseg bs p xs e" "length bs' = length bs"
    and "\<And>i. i \<in> set xs \<Longrightarrow> b_next (bs' ! i) = b_next (bs ! i) \<and> b_prev (bs' ! i) = b_prev (bs ! i)"
  shows "dseg bs' p xs e"
  using assms(1,3) by (induction xs arbitrary: p) (auto simp: assms(2))

lemma dseg_set_first_prev:
  assumes "dseg bs p xs e" "distinct xs" "xs = [] \<or> j = hd xs"
  shows "dseg (bs[j := (bs ! j)\<lparr>b_prev := q\<rparr>]) q xs e"
proof (cases xs)
  case (Cons i "is")
  have "dseg (bs[j := (bs ! j)\<lparr>b_prev := q\<rparr>]) (of_nat i) is e"
    by (rule dseg_frame [where bs = bs]) (use assms Cons in \<open>auto simp: nth_list_update\<close>)
  then show ?thesis using assms Cons by auto
qed simp

lemma dseg_set_last_next:
  assumes "dseg bs p xs e" "distinct xs" "xs = [] \<or> j = last xs"
  shows "dseg (bs[j := (bs ! j)\<lparr>b_next := q\<rparr>]) p xs q"
proof (cases xs rule: rev_cases)
  case (snoc ys i)
  have "dseg (bs[j := (bs ! j)\<lparr>b_next := q\<rparr>]) p ys (of_nat i)"
    by (rule dseg_frame [where bs = bs])
      (use assms snoc in \<open>auto simp: nth_list_update dseg_append\<close>)
  then show ?thesis using assms snoc by (auto simp: dseg_append)
qed simp

lemma nth_list_update_notin: "i \<in> set ys \<Longrightarrow> j \<notin> set ys \<Longrightarrow> xs[j := v] ! i = xs ! i"
  by (metis nth_list_update_neq)

section \<open>State accessors\<close>

lemma get_set_head [simp]: "get_head h (set_head h i s) = i"
  by (cases h) auto

lemma get_set_head_other [simp]: "h' \<noteq> h \<Longrightarrow> get_head h' (set_head h i s) = get_head h' s"
  by (cases h; cases h') auto

lemma get_head_upd_block [simp]: "get_head h (upd_block i f s) = get_head h s"
  by (cases h) (auto simp: upd_block_def)

lemma m_blocks_set_head [simp]: "m_blocks (set_head h i s) = m_blocks s"
  by (cases h) auto

lemma m_frames_set_head [simp]: "m_frames (set_head h i s) = m_frames s"
  by (cases h) auto

lemma m_frames_upd_block [simp]: "m_frames (upd_block i f s) = m_frames s"
  by (simp add: upd_block_def)

lemma m_blocks_upd_block [simp]:
  "m_blocks (upd_block i f s) = (m_blocks s)[i := f (m_blocks s ! i)]"
  by (simp add: upd_block_def)

text \<open>\<^verbatim>\<open>push\<close> and \<^verbatim>\<open>unlink\<close> change links and heads only.\<close>

abbreviation free_counts :: "pmm \<Rightarrow> u16 list" where
  "free_counts s \<equiv> map b_free (m_blocks s)"

lemma b_free_upd [simp]:
  "b_free b = b_free (bs ! i) \<Longrightarrow> b_free (bs[i := b] ! j) = b_free (bs ! j)"
  by (cases "i < length bs"; cases "i = j") (simp_all add: list_update_beyond)

lemma map_b_free_upd:
  assumes "b_free b = b_free (bs ! i)"
  shows "map b_free (bs[i := b]) = map b_free bs"
  using assms by (cases "i < length bs")
    (simp_all add: map_update list_update_same_conv list_update_beyond)

lemma push_frame [frame_spec, simp]:
  "m_frames (push h i s) = m_frames s"
  "free_counts (push h i s) = free_counts s"
  "length (m_blocks (push h i s)) = length (m_blocks s)"
  by (simp_all add: push_def Let_def map_b_free_upd)

lemma unlink_frame [frame_spec, simp]:
  "m_frames (unlink h i s) = m_frames s"
  "free_counts (unlink h i s) = free_counts s"
  "length (m_blocks (unlink h i s)) = length (m_blocks s)"
  by (simp_all add: unlink_def Let_def map_b_free_upd)

lemma push_nth_other:
  assumes "k \<noteq> i" "get_head h s \<noteq> NIL \<Longrightarrow> k \<noteq> unat (get_head h s)"
  shows "m_blocks (push h i s) ! k = m_blocks s ! k"
  using assms by (cases "get_head h s = NIL") (simp_all add: push_def Let_def)

section \<open>push and unlink on lists\<close>

definition on_list :: "pmm \<Rightarrow> head \<Rightarrow> nat list \<Rightarrow> bool" where
  "on_list s h xs \<longleftrightarrow> dll (m_blocks s) (get_head h s) xs"

lemma push_on_list:
  assumes "length (m_blocks s) = 8192" "on_list s h xs" "i < 8192" "i \<notin> set xs"
  shows "on_list (push h i s) h (i # xs)"
proof (cases xs)
  case Nil
  then show ?thesis using assms by (simp add: on_list_def dll_def push_def Let_def)
next
  case (Cons j js)
  let ?bs = "(m_blocks s)[i := (m_blocks s ! i)\<lparr>b_next := of_nat j, b_prev := NIL\<rparr>]"
  have j: "j < 8192" "i \<noteq> j" "get_head h s = of_nat j"
    using assms Cons by (auto simp: on_list_def dll_def)
  have "dseg ?bs NIL (j # js) NIL"
    by (rule dseg_frame [where bs = "m_blocks s"])
      (use assms Cons in \<open>auto simp: on_list_def dll_def nth_list_update\<close>)
  then have "dseg (?bs[j := (?bs ! j)\<lparr>b_prev := of_nat i\<rparr>]) (of_nat i) (j # js) NIL"
    by (rule dseg_set_first_prev) (use assms Cons in \<open>auto simp: on_list_def dll_def\<close>)
  then show ?thesis
    using assms j Cons by (simp add: on_list_def dll_def push_def Let_def list_update_swap)
qed

lemma push_on_other:
  assumes "length (m_blocks s) = 8192" "on_list s h xs" "on_list s h' ys" "h' \<noteq> h"
    "i \<notin> set ys" "set xs \<inter> set ys = {}"
  shows "on_list (push h i s) h' ys"
proof -
  have "unat (get_head h s) \<notin> set ys" if ne: "get_head h s \<noteq> NIL"
  proof (cases xs)
    case Nil
    then show ?thesis using ne assms(2) by (simp add: on_list_def dll_def)
  next
    case (Cons j js)
    then show ?thesis using assms by (auto simp: on_list_def dll_def)
  qed
  then have "m_blocks (push h i s) ! k = m_blocks s ! k" if "k \<in> set ys" for k
    using that assms(5) by (intro push_nth_other) auto
  moreover have "dseg (m_blocks s) NIL ys NIL"
    using assms(3) by (simp add: on_list_def dll_def)
  ultimately have "dseg (m_blocks (push h i s)) NIL ys NIL"
    by (rule_tac dseg_frame) auto
  moreover have "get_head h' (push h i s) = get_head h' s"
    using assms(4) by (simp add: push_def Let_def)
  ultimately show ?thesis
    using assms(3) by (simp add: on_list_def dll_def)
qed

lemma on_list_links:
  assumes "on_list s h (xs @ i # ys)"
  shows "b_prev (m_blocks s ! i) = exit_ptr NIL xs" "b_next (m_blocks s ! i) = entry_ptr NIL ys"
    "i < length (m_blocks s)"
  using assms by (auto simp: on_list_def dll_def dseg_append)

lemma unlink_blocks:
  assumes bs: "length (m_blocks s) = 8192" and l: "on_list s h (xs @ i # ys)"
  defines "bs1 \<equiv> (if xs = [] then m_blocks s
                   else (m_blocks s)[last xs := (m_blocks s ! last xs)\<lparr>b_next := entry_ptr NIL ys\<rparr>])"
  shows "m_blocks (unlink h i s) =
      (if ys = [] then bs1 else bs1[hd ys := (bs1 ! hd ys)\<lparr>b_prev := exit_ptr NIL xs\<rparr>])"
    and "get_head h (unlink h i s) = (if xs = [] then entry_ptr NIL ys else get_head h s)"
    and "h' \<noteq> h \<Longrightarrow> get_head h' (unlink h i s) = get_head h' s"
proof -
  note links = on_list_links [OF l]
  have xs: "\<And>j. j \<in> set xs \<Longrightarrow> j < 8192 \<and> j \<noteq> i" and ys: "\<And>j. j \<in> set ys \<Longrightarrow> j < 8192 \<and> j \<noteq> i"
    using l bs by (auto simp: on_list_def dll_def dest: dseg_bound)
  have prev: "exit_ptr NIL xs = NIL \<longleftrightarrow> xs = []"
    using xs by (auto simp: exit_ptr_def)
  have nxt: "entry_ptr NIL ys = NIL \<longleftrightarrow> ys = []"
    using ys by (cases ys) auto
  have last: "xs \<noteq> [] \<Longrightarrow> unat (exit_ptr NIL xs) = last xs \<and> last xs \<noteq> i"
    using xs by (auto simp: exit_ptr_def)
  have hd: "ys \<noteq> [] \<Longrightarrow> unat (entry_ptr NIL ys) = hd ys \<and> hd ys \<noteq> i"
    using ys by (cases ys) auto
  note facts = unlink_def Let_def links prev nxt last hd bs1_def nth_list_update
  show "m_blocks (unlink h i s) =
      (if ys = [] then bs1 else bs1[hd ys := (bs1 ! hd ys)\<lparr>b_prev := exit_ptr NIL xs\<rparr>])"
    by (cases "xs = []"; cases "ys = []") (simp_all add: facts)
  show "get_head h (unlink h i s) = (if xs = [] then entry_ptr NIL ys else get_head h s)"
    by (cases "xs = []"; cases "ys = []") (simp_all add: facts)
  show "h' \<noteq> h \<Longrightarrow> get_head h' (unlink h i s) = get_head h' s"
    by (cases "xs = []"; cases "ys = []") (simp_all add: facts)
qed

lemma unlink_on_list:
  assumes bs: "length (m_blocks s) = 8192" and l: "on_list s h (xs @ i # ys)"
  shows "on_list (unlink h i s) h (xs @ ys)"
proof -
  let ?bs = "m_blocks s" and ?e = "entry_ptr NIL ys" and ?p = "exit_ptr NIL xs"
  let ?bs1 = "if xs = [] then ?bs else ?bs[last xs := (?bs ! last xs)\<lparr>b_next := ?e\<rparr>]"
  let ?bs2 = "if ys = [] then ?bs1 else ?bs1[hd ys := (?bs1 ! hd ys)\<lparr>b_prev := ?p\<rparr>]"
  have d: "distinct xs" "distinct ys" "set xs \<inter> set ys = {}"
    and seg: "dseg ?bs NIL xs (of_nat i)" "dseg ?bs (of_nat i) ys NIL"
    and h: "get_head h s = entry_ptr NIL (xs @ i # ys)"
    using l by (auto simp: on_list_def dll_def dseg_append)
  have ends: "last xs \<notin> set ys" if "xs \<noteq> []" using d(3) last_in_set [OF that] by blast
  have starts: "hd ys \<notin> set xs" if "ys \<noteq> []" using d(3) hd_in_set [OF that] by blast
  have x1: "dseg ?bs1 NIL xs ?e"
    using dseg_set_last_next [OF seg(1) d(1), of "last xs" ?e] by simp
  have "dseg ?bs1 (of_nat i) ys NIL"
    by (rule dseg_frame [OF seg(2)]) (use ends in \<open>auto simp: nth_list_update_notin\<close>)
  then have y2: "dseg ?bs2 ?p ys NIL"
    using dseg_set_first_prev [OF _ d(2), of ?bs1 "of_nat i" NIL "hd ys" ?p] by simp
  have x2: "dseg ?bs2 NIL xs ?e"
    by (rule dseg_frame [OF x1]) (use starts in \<open>auto simp: nth_list_update_notin\<close>)
  note unlink_blocks(1) [OF bs l]
  moreover have "get_head h (unlink h i s) = entry_ptr NIL (xs @ ys)"
    using unlink_blocks(2) [OF bs l] h by (cases xs) simp_all
  ultimately show ?thesis
    using d x2 y2 by (simp add: on_list_def dll_def dseg_append)
qed

lemma unlink_on_other:
  assumes bs: "length (m_blocks s) = 8192" and l: "on_list s h (xs @ i # ys)"
    and o: "on_list s h' zs" "h' \<noteq> h" "set (xs @ i # ys) \<inter> set zs = {}"
  shows "on_list (unlink h i s) h' zs"
proof -
  have "m_blocks (unlink h i s) ! k = m_blocks s ! k" if "k \<in> set zs" for k
  proof -
    have "xs \<noteq> [] \<Longrightarrow> k \<noteq> last xs" "ys \<noteq> [] \<Longrightarrow> k \<noteq> hd ys"
      using that o(3) last_in_set [of xs] hd_in_set [of ys] by (auto simp del: last_in_set hd_in_set)
    then show ?thesis
      by (cases "xs = []"; cases "ys = []") (simp_all add: unlink_blocks(1) [OF bs l])
  qed
  moreover have "dseg (m_blocks s) NIL zs NIL"
    using o(1) by (simp add: on_list_def dll_def)
  ultimately have "dseg (m_blocks (unlink h i s)) NIL zs NIL"
    by (rule_tac dseg_frame) auto
  then show ?thesis
    using o(1) unlink_blocks(3) [OF bs l o(2)] by (simp add: on_list_def dll_def)
qed

section \<open>The list invariant\<close>

definition listed :: "u16 list \<Rightarrow> head \<Rightarrow> nat set" where
  "listed cs h = {i. i < length cs \<and> list_of (unat (cs ! i)) = Some h}"

definition lists_inv :: "pmm \<Rightarrow> bool" where
  "lists_inv s \<longleftrightarrow> length (m_blocks s) = 8192 \<and>
     (\<forall>h. \<exists>xs. on_list s h xs \<and> set xs = listed (free_counts s) h)"

lemma listed_disjoint: "h \<noteq> h' \<Longrightarrow> listed cs h \<inter> listed cs h' = {}"
  by (auto simp: listed_def)

lemma lists_invE:
  assumes "lists_inv s"
  obtains xs where "on_list s h xs" "set xs = listed (free_counts s) h"
  using assms by (auto simp: lists_inv_def)

lemma head_nil_iff:
  assumes "lists_inv s"
  shows "get_head h s = NIL \<longleftrightarrow> listed (free_counts s) h = {}"
proof -
  obtain xs where xs: "on_list s h xs" "set xs = listed (free_counts s) h"
    using assms by (rule lists_invE)
  then show ?thesis
    using assms by (cases xs) (auto simp: on_list_def dll_def lists_inv_def)
qed

lemma head_listed:
  assumes "lists_inv s" "get_head h s \<noteq> NIL"
  shows "unat (get_head h s) \<in> listed (free_counts s) h"
proof -
  obtain xs where xs: "on_list s h xs" "set xs = listed (free_counts s) h"
    using assms(1) by (rule lists_invE)
  then show ?thesis
    using assms by (cases xs) (auto simp: on_list_def dll_def lists_inv_def)
qed

text \<open>The lists in the middle of \<^verbatim>\<open>set_free\<close>: block \<open>i\<close> is on the list \<open>o\<close> names.\<close>

definition moved_inv :: "u16 list \<Rightarrow> nat \<Rightarrow> head option \<Rightarrow> pmm \<Rightarrow> bool" where
  "moved_inv cs i o_l s \<longleftrightarrow> length (m_blocks s) = 8192 \<and>
     (\<forall>h. \<exists>xs. on_list s h xs \<and>
           set xs = (if o_l = Some h then insert i (listed cs h) else listed cs h - {i}))"

lemma moved_invE:
  assumes "moved_inv cs i o_l s"
  obtains xs where "on_list s h xs"
    "set xs = (if o_l = Some h then insert i (listed cs h) else listed cs h - {i})"
  using assms unfolding moved_inv_def by blast

lemma lists_inv_moved:
  assumes "lists_inv s" "i < 8192"
  shows "moved_inv (free_counts s) i (list_of (unat (b_free (m_blocks s ! i)))) s"
  unfolding moved_inv_def
proof (intro conjI allI)
  show len: "length (m_blocks s) = 8192" using assms(1) by (simp add: lists_inv_def)
  fix h
  obtain xs where xs: "on_list s h xs" "set xs = listed (free_counts s) h"
    using assms(1) by (rule lists_invE)
  have "i \<in> listed (free_counts s) h \<longleftrightarrow> list_of (unat (b_free (m_blocks s ! i))) = Some h"
    using assms(2) len by (simp add: listed_def)
  then show "\<exists>xs. on_list s h xs \<and>
      set xs = (if list_of (unat (b_free (m_blocks s ! i))) = Some h
                then insert i (listed (free_counts s) h) else listed (free_counts s) h - {i})"
    using xs by (intro exI [of _ xs]) auto
qed

lemma moved_inv_unlink:
  assumes "moved_inv cs i (Some h) s"
  shows "moved_inv cs i None (unlink h i s)"
  unfolding moved_inv_def
proof (intro conjI allI)
  have len: "length (m_blocks s) = 8192" using assms by (simp add: moved_inv_def)
  then show "length (m_blocks (unlink h i s)) = 8192" by simp
  obtain zs where zs: "on_list s h zs" "set zs = insert i (listed cs h)"
    by (rule moved_invE [OF assms, of h]) simp
  then obtain xs ys where split: "zs = xs @ i # ys" by (metis insertI1 split_list)
  have i: "i \<notin> set xs" "i \<notin> set ys" using zs(1) by (auto simp: split on_list_def dll_def)
  fix h'
  show "\<exists>us. on_list (unlink h i s) h' us \<and>
      set us = (if None = Some h' then insert i (listed cs h') else listed cs h' - {i})"
  proof (cases "h' = h")
    case True
    have "set (xs @ ys) = listed cs h - {i}" using zs(2) i by (auto simp: split)
    with unlink_on_list [OF len zs(1) [unfolded split]] True show ?thesis by auto
  next
    case False
    obtain us where us: "on_list s h' us" "set us = listed cs h' - {i}"
      using False by (rule_tac moved_invE [OF assms, of h']) simp
    have "set (xs @ i # ys) \<inter> set us = {}"
      using zs(2) us(2) listed_disjoint [of h h' cs] False by (auto simp: split)
    from unlink_on_other [OF len zs(1) [unfolded split] us(1) False this] us(2) show ?thesis
      by auto
  qed
qed

lemma moved_inv_push:
  assumes "moved_inv cs i None s" "i < 8192"
  shows "moved_inv cs i (Some h) (push h i s)"
  unfolding moved_inv_def
proof (intro conjI allI)
  have len: "length (m_blocks s) = 8192" using assms by (simp add: moved_inv_def)
  then show "length (m_blocks (push h i s)) = 8192" by simp
  obtain xs where xs: "on_list s h xs" "set xs = listed cs h - {i}"
    by (rule moved_invE [OF assms(1), of h]) simp
  fix h'
  show "\<exists>us. on_list (push h i s) h' us \<and>
      set us = (if Some h = Some h' then insert i (listed cs h') else listed cs h' - {i})"
  proof (cases "h' = h")
    case True
    have "on_list (push h i s) h (i # xs)"
      using push_on_list [OF len xs(1) assms(2)] xs(2) by simp
    then show ?thesis using True xs(2) by (intro exI [of _ "i # xs"]) auto
  next
    case False
    obtain us where us: "on_list s h' us" "set us = listed cs h' - {i}"
      by (rule moved_invE [OF assms(1), of h']) simp
    have "on_list (push h i s) h' us"
      using push_on_other [OF len xs(1) us(1) False] us(2) xs(2) listed_disjoint [of h h' cs] False
      by auto
    then show ?thesis using us(2) False by auto
  qed
qed

lemma listed_update:
  assumes "i < length cs"
  shows "listed (cs[i := c]) h =
    (if list_of (unat c) = Some h then insert i (listed cs h) else listed cs h - {i})"
  using assms by (auto simp: listed_def nth_list_update)

lemma on_list_upd_free:
  assumes "on_list s h xs"
  shows "on_list (upd_block i (b_free_update f) s) h xs"
proof -
  have "dseg (m_blocks s) NIL xs NIL" using assms by (simp add: on_list_def dll_def)
  then have "dseg (m_blocks (upd_block i (b_free_update f) s)) NIL xs NIL"
  proof (rule dseg_frame)
    fix k
    show "b_next (m_blocks (upd_block i (b_free_update f) s) ! k) = b_next (m_blocks s ! k) \<and>
      b_prev (m_blocks (upd_block i (b_free_update f) s) ! k) = b_prev (m_blocks s ! k)"
      by (cases "i < length (m_blocks s)"; cases "i = k") (simp_all add: list_update_beyond)
  qed simp
  then show ?thesis using assms by (simp add: on_list_def dll_def)
qed

lemma set_free_spec:
  assumes inv: "lists_inv s" and i: "i < 8192" and c: "c \<le> 512"
  shows "lists_inv (set_free i c s)"
    and "m_frames (set_free i c s) = m_frames s"
    and "free_counts (set_free i c s) = (free_counts s)[i := of_nat c]"
proof -
  let ?fl = "list_of (unat (b_free (m_blocks s ! i)))" and ?cs = "free_counts s"
  define s1 where "s1 = (if ?fl \<noteq> list_of c then
      (case list_of c of None \<Rightarrow> (case ?fl of None \<Rightarrow> s | Some h \<Rightarrow> unlink h i s)
       | Some h' \<Rightarrow> push h' i (case ?fl of None \<Rightarrow> s | Some h \<Rightarrow> unlink h i s)) else s)"
  have sf: "set_free i c s = upd_block i (b_free_update (\<lambda>_. of_nat c)) s1"
    by (simp add: set_free_def s1_def Let_def)
  have same: "m_frames s1 = m_frames s" "free_counts s1 = ?cs" "length (m_blocks s1) = 8192"
    using inv by (auto simp: s1_def lists_inv_def split: option.splits)
  have "moved_inv ?cs i (list_of c) s1"
    using lists_inv_moved [OF inv i] moved_inv_unlink [of ?cs i] moved_inv_push [of ?cs i, OF _ i]
    by (auto simp: s1_def split: option.splits)
  then have lists: "\<exists>xs. on_list s1 h xs \<and> set xs = listed (?cs[i := of_nat c]) h" for h
    using i inv c unat_of_nat_small [of c, where 'a = 16]
    by (simp add: moved_inv_def listed_update lists_inv_def)
  show "m_frames (set_free i c s) = m_frames s" by (simp add: sf same)
  show counts: "free_counts (set_free i c s) = ?cs[i := of_nat c]"
    by (simp add: sf map_update same(2))
  show "lists_inv (set_free i c s)"
    unfolding lists_inv_def counts
    using lists same(3) on_list_upd_free by (auto simp: sf) metis
qed

end
