(* ===== verification/Pmm_Correct.thy ===== *)
theory Pmm_Correct
  imports Pmm_Lists
begin

text \<open>
  Correctness of the frame allocator. The state stands for the set of free frames
  (\<open>free_frames\<close>); \<open>pmm_inv\<close> ties the per-block counters and the two lists to
  that set. Allocation and release are specified on the set alone.
\<close>

section \<open>Abstraction and invariant\<close>

definition free_frames :: "pmm \<Rightarrow> nat set" where
  "free_frames s = bitmap_indices (m_frames s)"

definition block_frames :: "nat \<Rightarrow> nat set" where
  "block_frames i = {i * 512..<(i + 1) * 512}"

definition counts_inv :: "pmm \<Rightarrow> bool" where
  "counts_inv s \<longleftrightarrow> length (m_frames s) = 65536 \<and>
     (\<forall>i < 8192. unat (free_counts s ! i) = card (free_frames s \<inter> block_frames i))"

definition pmm_inv :: "pmm \<Rightarrow> bool" where
  "pmm_inv s \<longleftrightarrow> lists_inv s \<and> counts_inv s"

lemma pmm_invD:
  assumes "pmm_inv s"
  shows "lists_inv s" "counts_inv s" "length (m_frames s) = 65536" "length (m_blocks s) = 8192"
    "\<And>i. i < 8192 \<Longrightarrow> unat (b_free (m_blocks s ! i)) = card (free_frames s \<inter> block_frames i)"
  using assms by (auto simp: pmm_inv_def counts_inv_def lists_inv_def)

lemma finite_block_frames [simp]: "finite (block_frames i)" "card (block_frames i) = 512"
  by (simp_all add: block_frames_def)

lemma card_block_le: "card (F \<inter> block_frames i) \<le> 512"
  using card_mono [of "block_frames i" "F \<inter> block_frames i"] by simp

lemma card_block_0: "card (F \<inter> block_frames i) = 0 \<longleftrightarrow> F \<inter> block_frames i = {}"
  by simp

lemma card_block_full: "card (F \<inter> block_frames i) = 512 \<longleftrightarrow> block_frames i \<subseteq> F"
proof
  assume "card (F \<inter> block_frames i) = 512"
  then have "F \<inter> block_frames i = block_frames i" by (intro card_subset_eq) simp_all
  then show "block_frames i \<subseteq> F" by blast
qed (simp add: Int_absorb1)

lemma in_block_frames: "f \<in> block_frames i \<longleftrightarrow> f div 512 = i"
proof -
  have "f = f div 512 * 512 + f mod 512" "f mod 512 < 512" by simp_all
  then show ?thesis unfolding block_frames_def by auto
qed

lemma block_frames_disjoint: "i \<noteq> j \<Longrightarrow> block_frames i \<inter> block_frames j = {}"
  by (auto simp: in_block_frames)

lemma blocks_run: "{f * 512..<f * 512 + n * 512} = (\<Union>i \<in> {f..<f + n}. block_frames i)"
proof (intro equalityI subsetI)
  fix x assume "x \<in> {f * 512..<f * 512 + n * 512}"
  then have "f * 512 \<le> x" "x < (f + n) * 512" by (simp_all add: algebra_simps)
  then have "f \<le> x div 512" "x div 512 < f + n"
    by (simp_all add: less_eq_div_iff_mult_less_eq div_less_iff_less_mult)
  then show "x \<in> (\<Union>i \<in> {f..<f + n}. block_frames i)" by (auto simp: in_block_frames)
next
  fix x assume "x \<in> (\<Union>i \<in> {f..<f + n}. block_frames i)"
  then have "f \<le> x div 512" "x div 512 < f + n" by (auto simp: in_block_frames)
  then have "f * 512 \<le> x" "x < (f + n) * 512"
    by (simp_all add: less_eq_div_iff_mult_less_eq div_less_iff_less_mult)
  then show "x \<in> {f * 512..<f * 512 + n * 512}" by (simp add: algebra_simps)
qed

lemma free_frame_bound:
  assumes "pmm_inv s" "f \<in> free_frames s"
  shows "f < 4194304" "f div 512 < 8192"
  using assms pmm_invD(3) [OF assms(1)]
  by (auto simp: free_frames_def bitmap_indices_def div_less_iff_less_mult)

text \<open>A block is listed exactly according to how many of its frames are free.\<close>

lemma listed_block:
  assumes "pmm_inv s" "i < 8192"
  shows "i \<in> listed (free_counts s) h \<longleftrightarrow>
    list_of (card (free_frames s \<inter> block_frames i)) = Some h"
  using assms pmm_invD(4,5) [OF assms(1)] by (simp add: listed_def)

lemma listed_bound: "pmm_inv s \<Longrightarrow> i \<in> listed (free_counts s) h \<Longrightarrow> i < 8192"
  by (auto simp: listed_def pmm_invD(4))

lemma heads_nil_iff:
  assumes inv: "pmm_inv s"
  shows "m_whole s = NIL \<and> m_broken s = NIL \<longleftrightarrow> free_frames s = {}"
proof
  assume nil: "m_whole s = NIL \<and> m_broken s = NIL"
  then have none: "listed (free_counts s) h = {}" for h
    using head_nil_iff [OF pmm_invD(1) [OF inv], of h] by (cases h) auto
  show "free_frames s = {}"
  proof (rule ccontr)
    assume "free_frames s \<noteq> {}"
    then obtain f where f: "f \<in> free_frames s" by auto
    then have ne: "card (free_frames s \<inter> block_frames (f div 512)) \<noteq> 0"
      by (auto simp: card_block_0 in_block_frames)
    then obtain h where "list_of (card (free_frames s \<inter> block_frames (f div 512))) = Some h"
      by (metis list_of_def)
    then show False
      using listed_block [OF inv, of "f div 512" h] free_frame_bound [OF inv f] none by auto
  qed
next
  assume "free_frames s = {}"
  then have "listed (free_counts s) h = {}" for h
    using listed_block [OF inv, of _ h] listed_bound [OF inv, of _ h] by (auto simp: list_of_def)
  then show "m_whole s = NIL \<and> m_broken s = NIL"
    using head_nil_iff [OF pmm_invD(1) [OF inv], of Whole]
      head_nil_iff [OF pmm_invD(1) [OF inv], of Broken] by simp
qed

lemma head_block:
  assumes inv: "pmm_inv s" and ne: "get_head h s \<noteq> NIL"
  shows "unat (get_head h s) < 8192"
    "list_of (card (free_frames s \<inter> block_frames (unat (get_head h s)))) = Some h"
  using head_listed [OF pmm_invD(1) [OF inv] ne] listed_bound [OF inv] listed_block [OF inv]
  by auto

section \<open>Recounting blocks\<close>

lemma fold_set_free:
  assumes "lists_inv s" "first + n \<le> 8192" "\<And>i. i < n \<Longrightarrow> g i (m_frames s) \<le> 512"
  defines "s' \<equiv> fold (\<lambda>i s. set_free (first + i) (g i (m_frames s)) s) [0..<n] s"
  shows "lists_inv s' \<and> m_frames s' = m_frames s \<and>
    (\<forall>j < 8192. free_counts s' ! j =
       (if first \<le> j \<and> j < first + n then of_nat (g (j - first) (m_frames s)) else free_counts s ! j))"
  unfolding s'_def using assms(2,3)
proof (induction n)
  case 0
  then show ?case using assms(1) by auto
next
  case (Suc n)
  let ?t = "fold (\<lambda>i s. set_free (first + i) (g i (m_frames s)) s) [0..<n] s"
  have IH: "lists_inv ?t" "m_frames ?t = m_frames s"
    "\<And>j. j < 8192 \<Longrightarrow> free_counts ?t ! j =
       (if first \<le> j \<and> j < first + n then of_nat (g (j - first) (m_frames s)) else free_counts s ! j)"
    using Suc by auto
  have step: "lists_inv (set_free (first + n) (g n (m_frames ?t)) ?t)"
    "m_frames (set_free (first + n) (g n (m_frames ?t)) ?t) = m_frames s"
    "free_counts (set_free (first + n) (g n (m_frames ?t)) ?t) =
       (free_counts ?t)[first + n := of_nat (g n (m_frames s))]"
    using set_free_spec [OF IH(1), of "first + n" "g n (m_frames s)"] Suc.prems IH(2) by simp_all
  have len: "length (free_counts ?t) = 8192" using IH(1) by (simp add: lists_inv_def)
  have "free_counts (set_free (first + n) (g n (m_frames ?t)) ?t) ! j =
      (if first \<le> j \<and> j < first + Suc n then of_nat (g (j - first) (m_frames s))
       else free_counts s ! j)" if "j < 8192" for j
    unfolding step(3) using that len IH(3) [OF that]
    by (cases "j = first + n") (auto simp: nth_list_update)
  with step show ?case by simp
qed

text \<open>An operation that rewrites the frames of some blocks and recounts exactly those blocks.\<close>

lemma pmm_inv_recount:
  assumes "lists_inv s'" "length (m_frames s') = 65536"
    and "\<And>i. i < 8192 \<Longrightarrow> i \<in> I \<Longrightarrow> unat (free_counts s' ! i) = card (free_frames s' \<inter> block_frames i)"
    and "\<And>i. i < 8192 \<Longrightarrow> i \<notin> I \<Longrightarrow> free_counts s' ! i = free_counts s ! i"
    and "\<And>i. i < 8192 \<Longrightarrow> i \<notin> I \<Longrightarrow> free_frames s' \<inter> block_frames i = free_frames s \<inter> block_frames i"
    and "pmm_inv s"
  shows "pmm_inv s'"
  unfolding pmm_inv_def counts_inv_def
proof (intro conjI allI impI)
  fix i :: nat assume i: "i < 8192"
  show "unat (free_counts s' ! i) = card (free_frames s' \<inter> block_frames i)"
  proof (cases "i \<in> I")
    case False
    then show ?thesis using assms(4,5,6) i by (auto simp: pmm_inv_def counts_inv_def)
  qed (use assms(3) i in blast)
qed (use assms(1,2) in auto)

lemma lists_inv_frames [simp]: "lists_inv (s\<lparr>m_frames := fs\<rparr>) = lists_inv s"
proof -
  have "on_list (s\<lparr>m_frames := fs\<rparr>) h xs = on_list s h xs" for h xs
    by (cases h) (simp_all add: on_list_def)
  then show ?thesis by (simp add: lists_inv_def)
qed

lemma free_frames_update [simp]: "free_frames (s\<lparr>m_frames := fs\<rparr>) = bitmap_indices fs"
  by (simp add: free_frames_def)

section \<open>Single frames\<close>

lemma recount_one:
  assumes inv: "pmm_inv s" and i: "i < 8192" and fs: "length fs = 65536"
    and same: "\<And>j. j \<noteq> i \<Longrightarrow> bitmap_indices fs \<inter> block_frames j = free_frames s \<inter> block_frames j"
    and n: "n = card (bitmap_indices fs \<inter> block_frames i)"
  shows "pmm_inv (set_free i n (s\<lparr>m_frames := fs\<rparr>))"
    and "free_frames (set_free i n (s\<lparr>m_frames := fs\<rparr>)) = bitmap_indices fs"
proof -
  let ?s = "s\<lparr>m_frames := fs\<rparr>"
  have le: "n \<le> 512" using n card_block_le by simp
  note sf = set_free_spec [of ?s, OF _ i le, simplified, OF pmm_invD(1) [OF inv]]
  show F: "free_frames (set_free i n ?s) = bitmap_indices fs"
    by (simp add: free_frames_def sf(2))
  have len: "length (free_counts s) = 8192" using pmm_invD(4) [OF inv] by simp
  show "pmm_inv (set_free i n ?s)"
  proof (rule pmm_inv_recount [where I = "{i}" and s = s])
    show "unat (free_counts (set_free i n ?s) ! j) = card (free_frames (set_free i n ?s) \<inter> block_frames j)"
      if "j < 8192" "j \<in> {i}" for j
      using that len le unat_of_nat_small [of n, where 'a = 16] unfolding sf(3) F
      by (simp add: n)
    show "free_counts (set_free i n ?s) ! j = free_counts s ! j" if "j \<notin> {i}" for j
      using that unfolding sf(3) by simp
  qed (use sf fs same inv F in auto)
qed

lemma take_4k_spec:
  assumes inv: "pmm_inv s"
  shows "if free_frames s = {} then take_4k s = Return (Err OUT_OF_MEMORY, s)
         else \<exists>f s'. take_4k s = Return (Ok (address_of f), s') \<and> f \<in> free_frames s \<and>
                     free_frames s' = free_frames s - {f} \<and> pmm_inv s'"
proof (cases "free_frames s = {}")
  case True
  then show ?thesis using heads_nil_iff [OF inv] by (simp add: take_4k_def)
next
  case False
  define h where "h = (if m_broken s \<noteq> NIL then Broken else Whole)"
  define i where "i = unat (get_head h s)"
  have ne: "get_head h s \<noteq> NIL" using False heads_nil_iff [OF inv] by (auto simp: h_def)
  have i: "i < 8192" and cnt: "list_of (card (free_frames s \<inter> block_frames i)) = Some h"
    using head_block [OF inv ne] by (simp_all add: i_def)
  have fs: "length (m_frames s) = 65536" using inv by (rule pmm_invD)
  have range: "f \<in> block_frames i \<longleftrightarrow> i * 8 * 64 \<le> f \<and> f < (i * 8 + 8) * 64" for f
    by (auto simp: block_frames_def algebra_simps)
  have inside: "f < 64 * 65536" if "f \<in> block_frames i" for f
    using that i by (auto simp: block_frames_def)
  obtain x where x: "x \<in> free_frames s" "x \<in> block_frames i"
    using cnt by (auto simp: list_of_def split: if_splits)
  obtain f where f: "find_set (m_frames s) (i * 8) 8 = Some f" "f \<in> block_frames i" "f \<in> free_frames s"
    using first_set_find_set [of "m_frames s" "i * 8" 8] x range inside fs
    by (cases "find_set (m_frames s) (i * 8) 8")
      (auto simp: first_set_def free_frames_def bitmap_indices_def)
  have clr: "bitmap_indices (bitmap_clear (m_frames s) f) = free_frames s - {f}"
    using bitmap_indices_set(2) [of f "m_frames s"] f(2) inside fs by (simp add: free_frames_def)
  have card: "unat (b_free (m_blocks s ! i)) = card (free_frames s \<inter> block_frames i)"
    "card (free_frames s \<inter> block_frames i) \<noteq> 0" "card (free_frames s \<inter> block_frames i) \<le> 512"
    using pmm_invD(5) [OF inv i] card_block_le f(2,3) by (auto simp: card_block_0)
  define n where "n = (unat (b_free (m_blocks s ! i)) + (2 ^ 64 - 1)) mod 2 ^ 64"
  have n: "n = card ((free_frames s - {f}) \<inter> block_frames i)"
  proof -
    have "n = card (free_frames s \<inter> block_frames i) - 1"
      using card unfolding n_def by (cases "card (free_frames s \<inter> block_frames i)") auto
    also have "\<dots> = card (free_frames s \<inter> block_frames i - {f})"
      using f by (simp add: card_Diff_singleton)
    also have "free_frames s \<inter> block_frames i - {f} = (free_frames s - {f}) \<inter> block_frames i"
      by blast
    finally show ?thesis .
  qed
  have res: "take_4k s = Return (Ok (address_of f),
      set_free i n (s\<lparr>m_frames := bitmap_clear (m_frames s) f\<rparr>))"
    using ne f(1) by (cases "m_broken s = NIL")
      (simp_all add: take_4k_def Let_def h_def i_def n_def layout)
  have other: "bitmap_indices (bitmap_clear (m_frames s) f) \<inter> block_frames j =
      free_frames s \<inter> block_frames j" if "j \<noteq> i" for j
    using that f(2) block_frames_disjoint [of j i] unfolding clr by blast
  have "pmm_inv (set_free i n (s\<lparr>m_frames := bitmap_clear (m_frames s) f\<rparr>))"
    "free_frames (set_free i n (s\<lparr>m_frames := bitmap_clear (m_frames s) f\<rparr>)) = free_frames s - {f}"
    using recount_one [OF inv i _ other, of n] fs n clr by simp_all
  with res f(3) False show ?thesis by auto
qed

section \<open>Whole blocks\<close>

definition whole_run :: "pmm \<Rightarrow> nat \<Rightarrow> nat \<Rightarrow> bool" where
  "whole_run s first n \<longleftrightarrow> (\<forall>i < n. unat (b_free (m_blocks s ! (first + i))) = 512)"

lemma count_whole_le: "w \<le> B \<Longrightarrow> count_whole B s first w \<le> B"
  by (induction B s first w rule: count_whole.induct) (subst count_whole.simps, auto)

lemma count_whole_full:
  assumes "w \<le> B"
  shows "count_whole B s first w = B \<longleftrightarrow>
    (\<forall>i. w \<le> i \<and> i < B \<longrightarrow> unat (b_free (m_blocks s ! (first + i))) = 512)"
  using assms
proof (induction B s first w rule: count_whole.induct)
  case (1 B s first w)
  show ?case
  proof (cases "w < B \<and> unat (b_free (m_blocks s ! (first + w))) = FRAMES_PER_BLOCK")
    case True
    then have "count_whole B s first w = count_whole B s first (w + 1)"
      by (subst count_whole.simps) simp
    moreover have "(\<forall>i. w \<le> i \<and> i < B \<longrightarrow> unat (b_free (m_blocks s ! (first + i))) = 512) \<longleftrightarrow>
        (\<forall>i. w + 1 \<le> i \<and> i < B \<longrightarrow> unat (b_free (m_blocks s ! (first + i))) = 512)"
      using True by (metis Suc_eq_plus1 layout(9) le_less less_Suc_eq_le not_less_eq pmm_constants(1))
    ultimately show ?thesis using "1.IH" [OF True] True by simp
  next
    case False
    then have "count_whole B s first w = w"
      by (subst count_whole.simps) (simp only: if_False)
    then show ?thesis using False "1.prems" by (auto simp: layout)
  qed
qed

lemma find_run_from_spec:
  assumes "0 < B" "B dvd 8192" "B dvd first"
  shows "if \<exists>r. first \<le> r \<and> r < 8192 \<and> B dvd r \<and> whole_run s r B
         then find_run_from B s first < 8192 \<and> B dvd find_run_from B s first \<and>
              whole_run s (find_run_from B s first) B
         else find_run_from B s first = 65535"
  using assms
proof (induction B s first rule: find_run_from.induct)
  case (1 B s first)
  have full: "count_whole B s first 0 = B \<longleftrightarrow> whole_run s first B"
    by (simp add: count_whole_full whole_run_def)
  consider "8192 \<le> first" | "first < 8192" "whole_run s first B" | "first < 8192" "\<not> whole_run s first B"
    by linarith
  then show ?case
  proof cases
    case 1
    then show ?thesis by (subst find_run_from.simps) (auto simp: layout)
  next
    case 2
    then have "find_run_from B s first = first"
      using "1.prems" full by (subst find_run_from.simps) (simp add: layout)
    then show ?thesis using 2 "1.prems" by auto
  next
    case 3
    have eq: "find_run_from B s first = find_run_from B s (first + B)"
      using 3 "1.prems" full by (subst find_run_from.simps) (simp add: layout)
    have next_r: "first + B \<le> r" if "first \<le> r" "B dvd r" "whole_run s r B" for r
    proof -
      have "r \<noteq> first" using 3 that by auto
      then have "B dvd r - first" "0 < r - first" using that "1.prems" by (auto simp: dvd_diff_nat)
      then have "B \<le> r - first" by (rule dvd_imp_le)
      then show ?thesis using that by simp
    qed
    have ex: "(\<exists>r. first \<le> r \<and> r < 8192 \<and> B dvd r \<and> whole_run s r B) \<longleftrightarrow>
        (\<exists>r. first + B \<le> r \<and> r < 8192 \<and> B dvd r \<and> whole_run s r B)"
      using next_r by (meson add_leD1)
    have "first < BLOCK_COUNT \<and> 0 < B" "count_whole B s first 0 \<noteq> B"
      using 3 full "1.prems" by (simp_all add: layout)
    from "1.IH" [OF this] "1.prems" show ?thesis
      unfolding eq ex by simp
  qed
qed

lemma all_less_shift: "(\<forall>i < n. P (m + i)) \<longleftrightarrow> (\<forall>j \<in> {m..<m + n :: nat}. P j)"
proof
  assume *: "\<forall>i < n. P (m + i)"
  show "\<forall>j \<in> {m..<m + n}. P j"
  proof
    fix j assume "j \<in> {m..<m + n}"
    then show "P j" using * [rule_format, of "j - m"] by auto
  qed
qed simp

lemma whole_run_frames:
  assumes "pmm_inv s" "first + n \<le> 8192"
  shows "whole_run s first n \<longleftrightarrow> {first * 512..<first * 512 + n * 512} \<subseteq> free_frames s"
proof -
  have "whole_run s first n \<longleftrightarrow> (\<forall>i < n. block_frames (first + i) \<subseteq> free_frames s)"
    using assms pmm_invD(5) [OF assms(1)] by (simp add: whole_run_def card_block_full)
  also have "\<dots> \<longleftrightarrow> (\<forall>j \<in> {first..<first + n}. block_frames j \<subseteq> free_frames s)"
    by (rule all_less_shift)
  finally show ?thesis unfolding blocks_run by blast
qed

lemma find_whole_run_spec:
  assumes inv: "pmm_inv s" and B: "B = 1 \<or> B = 512"
  shows "if \<exists>r < 8192. B dvd r \<and> whole_run s r B
         then find_whole_run B s < 8192 \<and> B dvd find_whole_run B s \<and>
              whole_run s (find_whole_run B s) B
         else find_whole_run B s = 65535"
proof (cases "B = 1")
  case True
  have whole: "whole_run s r 1 \<longleftrightarrow> r \<in> listed (free_counts s) Whole" if "r < 8192" for r
    using that listed_block [OF inv that] pmm_invD(5) [OF inv that]
    by (auto simp: whole_run_def list_of_def layout)
  have "(\<exists>r < 8192. whole_run s r 1) \<longleftrightarrow> m_whole s \<noteq> NIL"
    using head_nil_iff [OF pmm_invD(1) [OF inv], of Whole] whole listed_bound [OF inv] by auto
  moreover have "unat (m_whole s) < 8192 \<and> whole_run s (unat (m_whole s)) 1" if "m_whole s \<noteq> NIL"
    using that head_block(1) [OF inv, of Whole] head_listed [OF pmm_invD(1) [OF inv], of Whole]
      whole by auto
  ultimately show ?thesis
    unfolding find_whole_run_def True by (auto simp: unat_NIL)
next
  case False
  then have "B = 512" using B by simp
  moreover have "(512 :: nat) dvd 8192" by simp
  ultimately show ?thesis
    using find_run_from_spec [of 512 0 s] by (simp add: find_whole_run_def)
qed

lemma take_whole_spec:
  assumes inv: "pmm_inv s" and run: "first + n \<le> 8192"
  defines "s' \<equiv> snd (take_whole first n s)"
  shows "fst (take_whole first n s) = address_of (first * 512)"
    and "free_frames s' = free_frames s - {first * 512..<first * 512 + n * 512}"
    and "pmm_inv s'"
proof -
  let ?fs = "bitmap_clear_range (m_frames s) (first * 512) (n * 512)"
  let ?s = "s\<lparr>m_frames := ?fs\<rparr>"
  let ?run = "{first * 512..<first * 512 + n * 512}"
  have s': "s' = fold (\<lambda>i. set_free (first + i) 0) [0..<n] ?s"
    by (simp add: s'_def take_whole_def Let_def layout)
  show "fst (take_whole first n s) = address_of (first * 512)"
    by (simp add: take_whole_def Let_def layout)
  have fs: "bitmap_indices ?fs = free_frames s - ?run"
    using bitmap_indices_range(2) [of "first * 512" "n * 512" "m_frames s"] run pmm_invD(3) [OF inv]
    by (simp add: free_frames_def)
  note fold = fold_set_free [of ?s first n "\<lambda>_ _. 0", simplified, OF pmm_invD(1) [OF inv] run, folded s']
  show F: "free_frames s' = free_frames s - ?run"
    using fold fs by (simp add: free_frames_def)
  show "pmm_inv s'"
  proof (rule pmm_inv_recount [where I = "{first..<first + n}" and s = s])
    fix i :: nat assume i: "i < 8192"
    have len: "length (m_blocks s') = 8192" using fold by (simp add: lists_inv_def)
    show "unat (free_counts s' ! i) = card (free_frames s' \<inter> block_frames i)"
      if "i \<in> {first..<first + n}"
      using fold that i F unfolding blocks_run len by auto
    show "free_counts s' ! i = free_counts s ! i" if "i \<notin> {first..<first + n}"
      using fold that i len pmm_invD(4) [OF inv] by auto
    show "free_frames s' \<inter> block_frames i = free_frames s \<inter> block_frames i"
      if "i \<notin> {first..<first + n}"
      using that unfolding F blocks_run by (auto simp: in_block_frames)
  qed (use fold inv pmm_invD(3) [OF inv] in auto)
qed

section \<open>Allocation\<close>

definition free_run :: "pmm \<Rightarrow> nat \<Rightarrow> nat \<Rightarrow> bool" where
  "free_run s n f \<longleftrightarrow> n dvd f \<and> {f..<f + n} \<subseteq> free_frames s"

lemma free_run_blocks:
  assumes inv: "pmm_inv s" and B: "B = 1 \<or> B = 512"
  shows "(\<exists>f. free_run s (B * 512) f) \<longleftrightarrow> (\<exists>r < 8192. B dvd r \<and> whole_run s r B)"
proof
  assume "\<exists>f. free_run s (B * 512) f"
  then obtain f where dvd: "B * 512 dvd f" and sub: "{f..<f + B * 512} \<subseteq> free_frames s"
    by (auto simp: free_run_def)
  then obtain k where k: "f = B * 512 * k" by (auto elim: dvdE)
  have "f \<in> free_frames s" "f + B * 512 - 1 \<in> free_frames s" using sub B by auto
  then have f: "f < 4194304" "f + B * 512 - 1 < 4194304"
    using free_frame_bound(1) [OF inv] by blast+
  have r: "B * k + B \<le> 8192" using f(2) B k by auto
  then have "whole_run s (B * k) B"
    using whole_run_frames [OF inv r] sub by (simp add: k algebra_simps)
  with r B show "\<exists>r < 8192. B dvd r \<and> whole_run s r B"
    by (intro exI [of _ "B * k"]) auto
next
  assume "\<exists>r < 8192. B dvd r \<and> whole_run s r B"
  then obtain r where r: "r < 8192" "B dvd r" "whole_run s r B" by auto
  then have le: "r + B \<le> 8192" using B by (auto elim!: dvdE)
  show "\<exists>f. free_run s (B * 512) f"
    using whole_run_frames [OF inv le] r by (intro exI [of _ "r * 512"]) (auto simp: free_run_def)
qed

lemma take_blocks_spec:
  assumes inv: "pmm_inv s" and S: "S = SIZE_2M \<or> S = SIZE_1G"
  shows "if \<exists>f. free_run s (frames_in S) f
         then \<exists>f s'. take_blocks S s = (Ok (address_of f), s') \<and> free_run s (frames_in S) f \<and>
                     free_frames s' = free_frames s - {f..<f + frames_in S} \<and> pmm_inv s'
         else take_blocks S s = (Err OUT_OF_MEMORY, s)"
proof -
  define B where "B = frames_in S div FRAMES_PER_BLOCK"
  have B: "B = 1 \<or> B = 512" "frames_in S = B * 512" using S by (auto simp: B_def layout)
  note run = find_whole_run_spec [OF inv B(1)]
  show ?thesis
  proof (cases "\<exists>f. free_run s (frames_in S) f")
    case False
    then have "find_whole_run B s = unat NIL"
      using run free_run_blocks [OF inv B(1)] by (auto simp: B(2) unat_NIL)
    then show ?thesis using False by (simp add: take_blocks_def B_def [symmetric])
  next
    case True
    define r where "r = find_whole_run B s"
    have r: "r < 8192" "B dvd r" "whole_run s r B"
      using run True free_run_blocks [OF inv B(1)] by (auto simp: B(2) r_def split: if_splits)
    then have le: "r + B \<le> 8192" using B by (auto elim!: dvdE)
    have "take_blocks S s = (Ok (fst (take_whole r B s)), snd (take_whole r B s))"
      using r(1) by (simp add: take_blocks_def B_def [symmetric] r_def [symmetric] unat_NIL
          split: prod.split)
    moreover have "free_run s (B * 512) (r * 512)"
      using whole_run_frames [OF inv le] r by (auto simp: free_run_def)
    ultimately show ?thesis
      using take_whole_spec [OF inv le] True unfolding B(2) by auto
  qed
qed

lemma pmm_alloc_spec:
  assumes "pmm_inv s" "supported_size psize"
  shows "if \<exists>f. free_run s (frames_in psize) f
         then \<exists>f s'. pmm_alloc psize s = Return (Ok (address_of f), s') \<and>
                     free_run s (frames_in psize) f \<and>
                     free_frames s' = free_frames s - {f..<f + frames_in psize} \<and> pmm_inv s'
         else pmm_alloc psize s = Return (Err OUT_OF_MEMORY, s)"
proof (cases "psize = SIZE_4K")
  case True
  have run: "free_run s (Suc 0) f \<longleftrightarrow> f \<in> free_frames s" for f by (simp add: free_run_def)
  show ?thesis
    using take_4k_spec [OF assms(1)]
    by (cases "free_frames s = {}")
      (auto simp: True pmm_alloc_def pmm_take_def frames_in_sizes run ex_in_conv)
next
  case False
  then have S: "psize = SIZE_2M \<or> psize = SIZE_1G" using assms(2) by simp
  then have "pmm_alloc psize s = Return (take_blocks psize s)"
    by (auto simp: pmm_alloc_def pmm_take_def)
  then show ?thesis using take_blocks_spec [OF assms(1) S] by (auto split: if_splits)
qed

section \<open>Release\<close>

lemma unat_address_of: "f < 4194304 \<Longrightarrow> unat (address_of f) = f * 4096"
  by (simp add: address_of_def FRAME_SHIFT_eq push_bit_eq_mult unat_word_ariths unat_of_nat)

lemma frame_of_base: "unat (drop_bit FRAME_SHIFT base) = unat (base :: u64) div 4096"
  by (simp only: FRAME_SHIFT_eq unat_drop_bit_eq) (simp add: drop_bit_eq_div)

definition valid_release :: "page_size \<Rightarrow> paddr_t \<Rightarrow> bool" where
  "valid_release psize base \<longleftrightarrow>
     frames_in psize * 4096 dvd unat base \<and> unat base div 4096 + frames_in psize \<le> 4194304"

lemma release_guard:
  assumes "supported_size psize"
  shows "(\<not> is_aligned base (bytes_in psize) \<or> unat (drop_bit FRAME_SHIFT base) \<ge> MAX_FRAMES \<or>
          frames_in psize > MAX_FRAMES - unat (drop_bit FRAME_SHIFT base)) \<longleftrightarrow>
         \<not> valid_release psize base"
proof -
  have "2 ^ shift_of psize = frames_in psize * 4096" "0 < frames_in psize"
    using assms by (auto simp: layout)
  then show ?thesis
    unfolding valid_release_def bytes_in_pow2 is_aligned_dvd frame_of_base pmm_constants by auto
qed

lemma release_block:
  assumes "supported_size psize" "valid_release psize base"
  shows "frames_in psize dvd unat base div 4096"
proof -
  obtain k where "unat base = frames_in psize * 4096 * k"
    using assms(2) by (auto simp: valid_release_def elim: dvdE)
  then have "unat base div 4096 = frames_in psize * k" by simp
  then show ?thesis by simp
qed

text \<open>The state update of a release, with the panics out of the way.\<close>

lemma release_one:
  assumes inv: "pmm_inv s" and f: "f < 4194304" "f \<notin> free_frames s"
  defines "s' \<equiv> set_free (f div 512) (unat (b_free (m_blocks s ! (f div 512))) + 1)
                   (s\<lparr>m_frames := bitmap_set_range (m_frames s) f 1\<rparr>)"
  shows "pmm_inv s'" "free_frames s' = insert f (free_frames s)"
proof -
  let ?fs = "bitmap_set_range (m_frames s) f 1"
  have i: "f div 512 < 8192" using f(1) by (simp add: div_less_iff_less_mult)
  have fs: "bitmap_indices ?fs = insert f (free_frames s)"
    using bitmap_indices_range(1) [of f 1 "m_frames s"] f(1) pmm_invD(3) [OF inv]
    by (auto simp: free_frames_def)
  have "unat (b_free (m_blocks s ! (f div 512))) + 1 =
      card (insert f (free_frames s \<inter> block_frames (f div 512)))"
    using pmm_invD(5) [OF inv i] f(2) by simp
  also have "insert f (free_frames s \<inter> block_frames (f div 512)) =
      bitmap_indices ?fs \<inter> block_frames (f div 512)"
    unfolding fs by (auto simp: in_block_frames)
  finally have n: "unat (b_free (m_blocks s ! (f div 512))) + 1 =
      card (bitmap_indices ?fs \<inter> block_frames (f div 512))" .
  have "bitmap_indices ?fs \<inter> block_frames j = free_frames s \<inter> block_frames j" if "j \<noteq> f div 512" for j
    using that unfolding fs by (auto simp: in_block_frames)
  from recount_one [OF inv i _ this n] fs pmm_invD(3) [OF inv]
  show "pmm_inv s'" "free_frames s' = insert f (free_frames s)"
    by (simp_all add: s'_def)
qed

lemma release_blocks:
  assumes inv: "pmm_inv s" and run: "first + n \<le> 8192"
  defines "s' \<equiv> fold (\<lambda>i. set_free (first + i) 512) [0..<n]
                   (s\<lparr>m_frames := bitmap_set_range (m_frames s) (first * 512) (n * 512)\<rparr>)"
  shows "pmm_inv s'" "free_frames s' = free_frames s \<union> {first * 512..<first * 512 + n * 512}"
proof -
  let ?fs = "bitmap_set_range (m_frames s) (first * 512) (n * 512)"
  let ?s = "s\<lparr>m_frames := ?fs\<rparr>" and ?run = "{first * 512..<first * 512 + n * 512}"
  have fs: "bitmap_indices ?fs = free_frames s \<union> ?run"
    using bitmap_indices_range(1) [of "first * 512" "n * 512" "m_frames s"] run pmm_invD(3) [OF inv]
    by (simp add: free_frames_def)
  note fold = fold_set_free [of ?s first n "\<lambda>_ _. 512", simplified, OF pmm_invD(1) [OF inv] run,
      folded s'_def]
  show F: "free_frames s' = free_frames s \<union> ?run"
    using fold fs by (simp add: free_frames_def)
  show "pmm_inv s'"
  proof (rule pmm_inv_recount [where I = "{first..<first + n}" and s = s])
    fix i :: nat assume i: "i < 8192"
    have len: "length (m_blocks s') = 8192" using fold by (simp add: lists_inv_def)
    show "unat (free_counts s' ! i) = card (free_frames s' \<inter> block_frames i)"
      if "i \<in> {first..<first + n}"
    proof -
      have "block_frames i \<subseteq> free_frames s'" using that unfolding F blocks_run by blast
      then show ?thesis using fold that i len card_block_full [of "free_frames s'" i] by simp
    qed
    show "free_counts s' ! i = free_counts s ! i" if "i \<notin> {first..<first + n}"
      using fold that i len pmm_invD(4) [OF inv] by auto
    show "free_frames s' \<inter> block_frames i = free_frames s \<inter> block_frames i"
      if "i \<notin> {first..<first + n}"
      using that unfolding F blocks_run by (auto simp: in_block_frames)
  qed (use fold inv pmm_invD(3) [OF inv] in auto)
qed

lemma find_set_in_free:
  assumes "pmm_inv s" "f + n \<le> 4194304"
  shows "find_set_in (m_frames s) f n = None \<longleftrightarrow> {f..<f + n} \<inter> free_frames s = {}"
  using first_set_find_set_in [of "m_frames s" f n] pmm_invD(3) [OF assms(1)] assms(2)
  by (cases "find_set_in (m_frames s) f n")
    (auto simp: first_set_def free_frames_def bitmap_indices_def)

lemma pmm_free_spec:
  fixes base :: paddr_t
  assumes inv: "pmm_inv s" and sz: "supported_size psize"
  defines "f \<equiv> unat base div 4096" and "n \<equiv> frames_in psize"
  shows "if valid_release psize base \<and> {f..<f + n} \<inter> free_frames s = {}
         then \<exists>s'. pmm_free psize base s = Return s' \<and> pmm_inv s' \<and>
                   free_frames s' = free_frames s \<union> {f..<f + n}
         else \<not> returns (pmm_free psize base s)"
proof (cases "valid_release psize base \<and> {f..<f + n} \<inter> free_frames s = {}")
  case True
  then have le: "f + n \<le> 4194304" by (simp add: valid_release_def f_def n_def)
  have guards: "find_set_in (m_frames s) f n = None"
    using find_set_in_free [OF inv le] True by simp
  have body: "pmm_free psize base s =
      (let s = s\<lparr>m_frames := bitmap_set_range (m_frames s) f n\<rparr>
       in if n < 512 then Return (set_free (f div 512) (unat (b_free (m_blocks s ! (f div 512))) + n) s)
          else Return (fold (\<lambda>i. set_free (f div 512 + i) 512) [0..<n div 512] s))"
    using True guards release_guard [OF sz, of base]
    by (simp add: pmm_free_def Let_def frame_of_base f_def [symmetric] n_def [symmetric]
        pmm_constants del: One_nat_def)
  show ?thesis
  proof (cases "psize = SIZE_4K")
    case k4: True
    then have "n = 1" by (simp add: n_def layout)
    then show ?thesis
      using release_one [OF inv, of f] body True le by (auto simp: Let_def)
  next
    case False
    then have n: "n = 512 \<or> n = 262144" using sz by (auto simp: n_def layout)
    have "n dvd f" using release_block [OF sz] True by (simp add: f_def n_def)
    then have f: "f = f div 512 * 512" and nn: "n = n div 512 * 512" using n by auto
    have run: "f div 512 + n div 512 \<le> 8192" using le n \<open>n dvd f\<close> by (auto elim!: dvdE)
    have "pmm_free psize base s = Return (fold (\<lambda>i. set_free (f div 512 + i) 512) [0..<n div 512]
        (s\<lparr>m_frames := bitmap_set_range (m_frames s) (f div 512 * 512) (n div 512 * 512)\<rparr>))"
      using body n f nn by (auto simp: Let_def)
    with release_blocks [OF inv run] f nn True show ?thesis by simp
  qed
next
  case False
  then have "\<not> valid_release psize base \<or> find_set_in (m_frames s) f n \<noteq> None"
    using find_set_in_free [OF inv, of f n] by (auto simp: valid_release_def f_def n_def)
  then have "\<not> returns (pmm_free psize base s)"
    using release_guard [OF sz, of base] unfolding pmm_free_def Let_def frame_of_base
    by (auto simp: f_def n_def frame_of_base)
  then show ?thesis by (simp only: False if_False not_False_eq_True)
qed

end
