(* ===== verification/Pmm_Populate.thy ===== *)
theory Pmm_Populate
  imports Pmm_Correct
begin

text \<open>
  What \<^verbatim>\<open>populate\<close> makes of the boot information: usable regions contribute the frames
  that lie wholly inside them, everything reserved removes every frame it touches.
\<close>

section \<open>Frames of a byte range\<close>

definition frame_bytes :: "nat \<Rightarrow> nat set" where
  "frame_bytes f = {f * 4096..<f * 4096 + 4096}"

definition inside_frames :: "nat \<Rightarrow> nat \<Rightarrow> nat set" where
  "inside_frames b l = {f. f < 4194304 \<and> frame_bytes f \<subseteq> {b..<b + l}}"

definition touched_frames :: "nat \<Rightarrow> nat \<Rightarrow> nat set" where
  "touched_frames b l = {f. f < 4194304 \<and> frame_bytes f \<inter> {b..<b + l} \<noteq> {}}"

lemma inside_frames_iff:
  "f \<in> inside_frames b l \<longleftrightarrow> f < 4194304 \<and> b \<le> f * 4096 \<and> f * 4096 + 4096 \<le> b + l"
  by (auto simp: inside_frames_def frame_bytes_def)

lemma touched_frames_iff:
  "f \<in> touched_frames b l \<longleftrightarrow> f < 4194304 \<and> 0 < l \<and> f * 4096 < b + l \<and> b < f * 4096 + 4096"
proof -
  have "frame_bytes f \<inter> {b..<b + l} = {max (f * 4096) b..<min (f * 4096 + 4096) (b + l)}"
    by (auto simp: frame_bytes_def)
  then show ?thesis by (auto simp: touched_frames_def)
qed

lemma less_floor: "f < (x :: nat) div 4096 \<longleftrightarrow> f * 4096 + 4096 \<le> x"
  using less_eq_div_iff_mult_less_eq [of 4096 "f + 1" x] by (simp add: Suc_le_eq add.commute)

lemma floor_le: "(x :: nat) div 4096 \<le> f \<longleftrightarrow> x < f * 4096 + 4096"
  using less_floor [of f x] by linarith

lemma less_ceil: "f < ((x :: nat) + 4095) div 4096 \<longleftrightarrow> f * 4096 < x"
  using less_floor [of f "x + 4095"] by linarith

lemma ceil_le: "((x :: nat) + 4095) div 4096 \<le> f \<longleftrightarrow> x \<le> f * 4096"
  using less_ceil [of f x] by linarith

section \<open>mark\<close>

lemma unat_end:
  assumes "base < MAX_PHYSICAL_MEMORY"
  shows "unat (if len > MAX_PHYSICAL_MEMORY - base then MAX_PHYSICAL_MEMORY else base + len) =
    min (unat base + unat len) 17179869184"
proof -
  have b: "unat base < 17179869184" "unat (MAX_PHYSICAL_MEMORY - base) = 17179869184 - unat base"
    using assms unat_minus_le [OF less_imp_le [OF assms]] pmm_constants(5)
    by (simp_all add: word_less_nat_alt)
  show ?thesis
  proof (cases "len > MAX_PHYSICAL_MEMORY - base")
    case True
    then show ?thesis using b pmm_constants(5) by (auto simp: word_less_nat_alt min_def)
  next
    case False
    then have le: "unat base + unat len \<le> 17179869184" using b by (simp add: word_less_nat_alt)
    then have "unat (base + len) = unat base + unat len"
      by (intro unat_plus_small) simp
    then show ?thesis using False le by simp
  qed
qed

lemma unat_align_frame:
  assumes "unat (a :: u64) \<le> 17179869184"
  shows "unat (align_down a FRAME_SIZE) = unat a div 4096 * 4096"
    and "unat (align_up a FRAME_SIZE) = (unat a + 4095) div 4096 * 4096"
  using unat_align_down [of a 12] unat_align_up [of 12 a] assms by (simp_all add: FRAME_SIZE_eq)

lemma frames_between:
  assumes "unat first = f * 4096" "unat lst = g * 4096" "first < (lst :: u64)"
  shows "unat (drop_bit FRAME_SHIFT first) = f" "unat (drop_bit FRAME_SHIFT (lst - first)) = g - f" "f < g"
  using assms unat_minus_le [OF less_imp_le [OF assms(3)]]
  by (simp_all add: frame_of_base word_less_nat_alt diff_mult_distrib [symmetric])

lemma mark_update:
  fixes first lst :: u64
  assumes len: "length ws = 65536" and f: "unat first = f * 4096" "unat lst = g * 4096"
    and g: "g \<le> 4194304"
  defines "i \<equiv> unat (drop_bit FRAME_SHIFT first)" and "c \<equiv> unat (drop_bit FRAME_SHIFT (lst - first))"
  shows "bitmap_indices (if first \<ge> lst then ws else bitmap_set_range ws i c) =
           bitmap_indices ws \<union> {f..<g}"
    and "bitmap_indices (if first \<ge> lst then ws else bitmap_clear_range ws i c) =
           bitmap_indices ws - {f..<g}"
proof -
  have empty: "{f..<g} = {}" if "first \<ge> lst"
    using that f by (auto simp: word_le_nat_alt)
  have nonempty: "i = f" "c = g - f" "f < g" "f + (g - f) \<le> 64 * length ws" if "\<not> first \<ge> lst"
    using frames_between [OF f] that g len by (auto simp: i_def c_def not_le)
  show "bitmap_indices (if first \<ge> lst then ws else bitmap_set_range ws i c) =
      bitmap_indices ws \<union> {f..<g}"
    using empty nonempty bitmap_indices_range(1) [of f "g - f" ws] by (cases "first \<ge> lst") auto
  show "bitmap_indices (if first \<ge> lst then ws else bitmap_clear_range ws i c) =
      bitmap_indices ws - {f..<g}"
    using empty nonempty bitmap_indices_range(2) [of f "g - f" ws] by (cases "first \<ge> lst") auto
qed

lemma mark_spec:
  assumes len: "length (m_frames s) = 65536"
  shows "free_frames (mark base n True s) = free_frames s \<union> inside_frames (unat base) (unat n)"
    and "free_frames (mark base n False s) = free_frames s - touched_frames (unat base) (unat n)"
    and "length (m_frames (mark base n u s)) = 65536"
    and "m_blocks (mark base n u s) = m_blocks s" "m_whole (mark base n u s) = m_whole s"
      "m_broken (mark base n u s) = m_broken s"
proof -
  show "length (m_frames (mark base n u s)) = 65536"
    "m_blocks (mark base n u s) = m_blocks s" "m_whole (mark base n u s) = m_whole s"
    "m_broken (mark base n u s) = m_broken s"
    using len by (auto simp: mark_def Let_def)
  let ?e = "if n > MAX_PHYSICAL_MEMORY - base then MAX_PHYSICAL_MEMORY else base + n"
  define b where "b = unat base"
  define e where "e = min (b + unat n) 17179869184"
  have skip: "inside_frames b (unat n) = {}" "touched_frames b (unat n) = {}"
    if "n = 0 \<or> base \<ge> MAX_PHYSICAL_MEMORY"
  proof -
    have "unat n = 0 \<or> 17179869184 \<le> b"
      using that pmm_constants(5) by (auto simp: word_le_nat_alt b_def)
    then show "inside_frames b (unat n) = {}" "touched_frames b (unat n) = {}"
      by (auto simp: inside_frames_iff touched_frames_iff)
  qed
  have inside: "inside_frames b (unat n) = {(b + 4095) div 4096..<e div 4096}"
    by (auto simp: inside_frames_iff ceil_le less_floor e_def)
  have touched: "touched_frames b (unat n) = {b div 4096..<(e + 4095) div 4096}"
    if "n \<noteq> 0" "b < 17179869184"
    using that by (auto simp: touched_frames_iff floor_le less_ceil e_def unat_gt_0)
  have bounds: "unat ?e = e" "b < 17179869184" "e \<le> 17179869184" if "base < MAX_PHYSICAL_MEMORY"
    using unat_end [OF that, of n] that pmm_constants(5)
    by (simp_all add: e_def b_def word_less_nat_alt)
  have top: "e div 4096 \<le> 4194304" "(e + 4095) div 4096 \<le> 4194304" if "base < MAX_PHYSICAL_MEMORY"
    using bounds(3) [OF that] by simp_all
  show "free_frames (mark base n True s) = free_frames s \<union> inside_frames (unat base) (unat n)"
  proof (cases "n = 0 \<or> base \<ge> MAX_PHYSICAL_MEMORY")
    case True
    then show ?thesis using skip(1) by (auto simp: mark_def b_def)
  next
    case False
    then have lt: "base < MAX_PHYSICAL_MEMORY" by (simp add: not_le)
    note b = bounds [OF lt]
    have "m_frames (mark base n True s) =
        (if align_up base FRAME_SIZE \<ge> align_down ?e FRAME_SIZE then m_frames s
         else bitmap_set_range (m_frames s) (unat (drop_bit FRAME_SHIFT (align_up base FRAME_SIZE)))
                (unat (drop_bit FRAME_SHIFT (align_down ?e FRAME_SIZE - align_up base FRAME_SIZE))))"
      using False by (simp add: mark_def Let_def)
    then show ?thesis
      using mark_update(1) [OF len _ _ top(1) [OF lt], of "align_up base FRAME_SIZE"
          "(b + 4095) div 4096" "align_down ?e FRAME_SIZE"] b unat_align_frame [of base]
        unat_align_frame [of ?e] inside
      by (simp add: free_frames_def b_def [symmetric])
  qed
  show "free_frames (mark base n False s) = free_frames s - touched_frames (unat base) (unat n)"
  proof (cases "n = 0 \<or> base \<ge> MAX_PHYSICAL_MEMORY")
    case True
    then show ?thesis using skip(2) by (auto simp: mark_def b_def)
  next
    case False
    then have lt: "base < MAX_PHYSICAL_MEMORY" by (simp add: not_le)
    note b = bounds [OF lt]
    have "m_frames (mark base n False s) =
        (if align_down base FRAME_SIZE \<ge> align_up ?e FRAME_SIZE then m_frames s
         else bitmap_clear_range (m_frames s) (unat (drop_bit FRAME_SHIFT (align_down base FRAME_SIZE)))
                (unat (drop_bit FRAME_SHIFT (align_up ?e FRAME_SIZE - align_down base FRAME_SIZE))))"
      using False by (simp add: mark_def Let_def)
    then show ?thesis
      using mark_update(2) [OF len _ _ top(2) [OF lt], of "align_down base FRAME_SIZE"
          "b div 4096" "align_up ?e FRAME_SIZE"] b unat_align_frame [of base]
        unat_align_frame [of ?e] touched False
      by (simp add: free_frames_def b_def [symmetric])
  qed
qed

section \<open>claim\<close>

fun regions :: "claimable \<Rightarrow> memory_region list" where
  "regions (Region r) = [r]"
| "regions (Range r) = []"
| "regions (Parts vs) = concat (map regions vs)"
| "regions Other = []"

fun ranges :: "claimable \<Rightarrow> address_range list" where
  "ranges (Region r) = []"
| "ranges (Range r) = [r]"
| "ranges (Parts vs) = concat (map ranges vs)"
| "ranges Other = []"

definition usable_inside :: "memory_region list \<Rightarrow> nat set" where
  "usable_inside rs =
     (\<Union>r \<in> {r \<in> set rs. mr_kind r = USABLE}. inside_frames (unat (mr_base r)) (unat (mr_length r)))"

definition unusable_touched :: "memory_region list \<Rightarrow> nat set" where
  "unusable_touched rs =
     (\<Union>r \<in> {r \<in> set rs. mr_kind r \<noteq> USABLE}. touched_frames (unat (mr_base r)) (unat (mr_length r)))"

definition ranges_touched :: "address_range list \<Rightarrow> nat set" where
  "ranges_touched rs = (\<Union>r \<in> set rs. touched_frames (unat (r_base r)) (unat (r_length r)))"

lemma frame_sets_append [simp]:
  "usable_inside (xs @ ys) = usable_inside xs \<union> usable_inside ys"
  "unusable_touched (xs @ ys) = unusable_touched xs \<union> unusable_touched ys"
  "ranges_touched (us @ vs) = ranges_touched us \<union> ranges_touched vs"
  "usable_inside [] = {}" "unusable_touched [] = {}" "ranges_touched [] = {}"
  by (auto simp: usable_inside_def unusable_touched_def ranges_touched_def)

definition same_blocks :: "pmm \<Rightarrow> pmm \<Rightarrow> bool" where
  "same_blocks s s' \<longleftrightarrow> length (m_frames s') = 65536 \<and>
     m_blocks s' = m_blocks s \<and> m_whole s' = m_whole s \<and> m_broken s' = m_broken s"

lemma same_blocks_trans: "same_blocks s t \<Longrightarrow> same_blocks t u \<Longrightarrow> same_blocks s u"
  by (simp add: same_blocks_def)

lemma same_blocks_lists: "same_blocks s s' \<Longrightarrow> lists_inv s \<Longrightarrow> lists_inv s'"
proof -
  assume "same_blocks s s'" "lists_inv s"
  moreover have "s' = s\<lparr>m_frames := m_frames s'\<rparr>" if "same_blocks s s'"
    using that by (simp add: same_blocks_def)
  ultimately show ?thesis by (metis lists_inv_frames)
qed

lemma same_blocks_mark: "length (m_frames s) = 65536 \<Longrightarrow> same_blocks s (mark b n u s)"
  by (simp add: same_blocks_def mark_spec)

lemma claim_spec:
  shows "length (m_frames s) = 65536 \<Longrightarrow>
      same_blocks s (claim p v s) \<and>
      free_frames (claim p v s) =
        (case p of FREE \<Rightarrow> free_frames s \<union> usable_inside (regions v)
         | RESERVE \<Rightarrow> free_frames s - unusable_touched (regions v) - ranges_touched (ranges v))"
    and "length (m_frames s) = 65536 \<Longrightarrow>
      same_blocks s (claim_list p vs s) \<and>
      free_frames (claim_list p vs s) =
        (case p of FREE \<Rightarrow> free_frames s \<union> usable_inside (concat (map regions vs))
         | RESERVE \<Rightarrow> free_frames s - unusable_touched (concat (map regions vs))
                       - ranges_touched (concat (map ranges vs)))"
proof (induction p v s and p vs s rule: claim_claim_list.induct)
  case (1 p r s)
  then show ?case
    by (cases p) (auto simp: Let_def mark_spec same_blocks_def usable_inside_def unusable_touched_def
        ranges_touched_def)
next
  case (2 p r s)
  then show ?case
    by (cases p) (auto simp: mark_spec same_blocks_def usable_inside_def unusable_touched_def
        ranges_touched_def)
next
  case (6 p v vs s)
  have *: "same_blocks s (claim p v s)" "length (m_frames (claim p v s)) = 65536"
    using "6.IH"(1) "6.prems" by (auto simp: same_blocks_def)
  then show ?case
    using "6.IH" "6.prems" same_blocks_trans [OF *(1)] by (cases p) auto
qed (auto simp: same_blocks_def split: phase.splits)

section \<open>populate\<close>

lemma bitmap_new_indices: "bitmap_indices (bitmap_new n) = {}"
proof -
  have "\<not> bit (replicate m (0 :: u64) ! k) j" if "k < m" for m k j
    using that by simp
  then show ?thesis
    by (auto simp: bitmap_indices_def bitmap_new_def bitmap_bit_def word_index_bound)
qed

lemma boot_state_inv: "pmm_inv pmm_boot_state" "free_frames pmm_boot_state = {}"
proof -
  show F: "free_frames pmm_boot_state = {}"
    by (simp add: free_frames_def pmm_boot_state_def bitmap_new_indices)
  have "on_list pmm_boot_state h [] \<and> set [] = listed (free_counts pmm_boot_state) h" for h
    by (cases h) (auto simp: on_list_def dll_def pmm_boot_state_def listed_def list_of_def layout)
  then have "lists_inv pmm_boot_state"
    unfolding lists_inv_def by (auto simp: pmm_boot_state_def layout)
  then show "pmm_inv pmm_boot_state"
    by (simp add: pmm_inv_def counts_inv_def F)
      (simp add: pmm_boot_state_def bitmap_new_def STORAGE_TYPE_INSTANCE_COUNT_def layout)
qed

lemma count_block: 
  assumes "length (m_frames s) = 65536" "i < 8192"
  shows "count_set (m_frames s) (i * WORDS_PER_BLOCK) WORDS_PER_BLOCK =
    card (free_frames s \<inter> block_frames i)"
proof -
  have "{j. i * 8 * 64 \<le> j \<and> j < (i * 8 + 8) * 64 \<and> bitmap_bit (m_frames s) j} =
      free_frames s \<inter> block_frames i"
    using assms by (auto simp: free_frames_def bitmap_indices_def block_frames_def algebra_simps)
  then show ?thesis by (simp add: count_set_card layout)
qed

lemma recount_all:
  assumes "lists_inv s" "length (m_frames s) = 65536"
  defines "s' \<equiv> fold (\<lambda>index s. set_free index
                 (count_set (m_frames s) (index * WORDS_PER_BLOCK) WORDS_PER_BLOCK) s) [0..<BLOCK_COUNT] s"
  shows "pmm_inv s'" "free_frames s' = free_frames s"
proof -
  let ?g = "\<lambda>i fs. count_set fs (i * WORDS_PER_BLOCK) WORDS_PER_BLOCK"
  have le: "?g i (m_frames s) \<le> 512" if "i < 8192" for i
    using count_block [OF assms(2) that] card_block_le by simp
  have s': "s' = fold (\<lambda>i s. set_free (0 + i) (?g i (m_frames s)) s) [0..<8192] s"
    by (simp add: s'_def pmm_constants(3))
  note f = fold_set_free [of s 0 8192 ?g, OF assms(1) _ le, folded s', simplified]
  show F: "free_frames s' = free_frames s" using f by (simp add: free_frames_def)
  have "unat (free_counts s' ! i) = card (free_frames s' \<inter> block_frames i)" if "i < 8192" for i
  proof -
    have "length (m_blocks s') = 8192" using f by (simp add: lists_inv_def)
    then have "free_counts s' ! i = of_nat (?g i (m_frames s))" using f that by simp
    then show ?thesis
      using count_block [OF assms(2) that] card_block_le [of "free_frames s" i]
        unat_of_nat_small [of "?g i (m_frames s)", where 'a = 16] by (simp add: F)
  qed
  then show "pmm_inv s'" using f assms(2) by (simp add: pmm_inv_def counts_inv_def)
qed

lemma populate_spec:
  fixes view :: "boot_info \<Rightarrow> claimable" and boot_start kernel_end :: u64 and boot :: boot_info
  defines "v \<equiv> view boot"
  defines "s' \<equiv> populate view boot_start kernel_end boot pmm_boot_state"
  shows "pmm_inv s'"
    and "free_frames s' = usable_inside (regions v) - touched_frames 0 (2 ^ 20)
           - touched_frames (unat boot_start) (unat (kernel_end - boot_start))
           - unusable_touched (regions v) - ranges_touched (ranges v)"
proof -
  define s1 where "s1 = claim FREE v pmm_boot_state"
  define s2 where "s2 = mark 0 (1024 * 1024) False s1"
  define s3 where "s3 = mark boot_start (kernel_end - boot_start) False s2"
  define s4 where "s4 = claim RESERVE v s3"
  have s1: "same_blocks pmm_boot_state s1" "free_frames s1 = usable_inside (regions v)"
    using claim_spec(1) [of pmm_boot_state FREE v] pmm_invD(3) [OF boot_state_inv(1)] boot_state_inv(2)
    by (simp_all add: s1_def)
  then have l1: "length (m_frames s1) = 65536" by (simp add: same_blocks_def)
  have s2: "same_blocks s1 s2" "free_frames s2 = free_frames s1 - touched_frames 0 (2 ^ 20)"
    using same_blocks_mark [OF l1] mark_spec(2) [OF l1, of 0 "1024 * 1024"] by (simp_all add: s2_def)
  then have l2: "length (m_frames s2) = 65536" by (simp add: same_blocks_def)
  have s3: "same_blocks s2 s3" "free_frames s3 = free_frames s2
      - touched_frames (unat boot_start) (unat (kernel_end - boot_start))"
    using same_blocks_mark [OF l2] mark_spec(2) [OF l2] by (simp_all add: s3_def)
  then have l3: "length (m_frames s3) = 65536" by (simp add: same_blocks_def)
  have s4: "same_blocks s3 s4"
    "free_frames s4 = free_frames s3 - unusable_touched (regions v) - ranges_touched (ranges v)"
    using claim_spec(1) [OF l3, of RESERVE v] by (simp_all add: s4_def)
  have "same_blocks pmm_boot_state s4"
    using s1(1) s2(1) s3(1) s4(1) by (blast intro: same_blocks_trans)
  then have inv: "lists_inv s4" "length (m_frames s4) = 65536"
    using same_blocks_lists pmm_invD(1) [OF boot_state_inv(1)] by (auto simp: same_blocks_def)
  have s': "s' = fold (\<lambda>index s. set_free index
      (count_set (m_frames s) (index * WORDS_PER_BLOCK) WORDS_PER_BLOCK) s) [0..<BLOCK_COUNT] s4"
    unfolding s'_def populate_def s4_def s3_def s2_def s1_def v_def Let_def ..
  show "pmm_inv s'" unfolding s' by (rule recount_all(1) [OF inv])
  show "free_frames s' = usable_inside (regions v) - touched_frames 0 (2 ^ 20)
      - touched_frames (unat boot_start) (unat (kernel_end - boot_start))
      - unusable_touched (regions v) - ranges_touched (ranges v)"
    using recount_all(2) [OF inv] s1(2) s2(2) s3(2) s4(2) unfolding s' by simp
qed

text \<open>
  What the reflection library shows \<^verbatim>\<open>claim\<close> of the boot information when it visits the
  members of each structure in declaration order.
\<close>

definition string_view :: "fixed_string \<Rightarrow> claimable" where
  "string_view s = Parts (map (\<lambda>_. Other) (fs_contents s))"

definition module_view :: "module_info \<Rightarrow> claimable" where
  "module_view m = Parts [Range (mod_range m), string_view (mod_command_line m)]"

definition channel_view :: "pixel_channel \<Rightarrow> claimable" where
  "channel_view c = Parts [Other, Other]"

definition framebuffer_view :: "framebuffer_info \<Rightarrow> claimable" where
  "framebuffer_view f =
     Parts [Other, Other, Range (fb_range f), Other, Other, Other, Other,
            channel_view (fb_red f), channel_view (fb_green f), channel_view (fb_blue f),
            Parts (map (\<lambda>_. Parts [Other, Other, Other]) (v_contents (fb_palette f)))]"

definition acpi_view :: "acpi_info \<Rightarrow> claimable" where
  "acpi_view a = Parts [Other, Range (acpi_rsdp a), Other]"

definition info_view :: "boot_info \<Rightarrow> claimable" where
  "info_view i =
     Parts [string_view (command_line i), string_view (bootloader_name i),
            Parts (map Region (v_contents (memory_map i))),
            Parts (map module_view (v_contents (modules i))),
            Parts (map Range (v_contents (reserved i))),
            framebuffer_view (framebuffer i), acpi_view (acpi i)]"

lemma concat_map_Nil [simp]: "concat (map (\<lambda>_. []) xs) = []"
  by (induction xs) auto

lemma concat_map_single [simp]: "concat (map (\<lambda>x. [f x]) xs) = map f xs"
  by (induction xs) auto

lemma string_view_leaves [simp]: "regions (string_view s) = []" "ranges (string_view s) = []"
  by (simp_all add: string_view_def o_def)

lemma info_view_leaves:
  "regions (info_view i) = v_contents (memory_map i)"
  "ranges (info_view i) = map mod_range (v_contents (modules i)) @ v_contents (reserved i)
     @ [fb_range (framebuffer i), acpi_rsdp (acpi i)]"
  by (simp_all add: info_view_def framebuffer_view_def acpi_view_def channel_view_def module_view_def
      o_def)

text \<open>
  C23: after \<^verbatim>\<open>populate\<close> the allocator is consistent and its free frames are exactly those
  wholly inside a usable region that touch neither the first mebibyte, the kernel image, an
  unusable region, a boot module, a reserved range, the framebuffer nor the ACPI root pointer.
\<close>

lemma populate_correct:
  assumes "view boot = info_view boot"
  shows "pmm_inv (populate view boot_start kernel_end boot pmm_boot_state) \<and>
    free_frames (populate view boot_start kernel_end boot pmm_boot_state) =
      usable_inside (v_contents (memory_map boot))
      - touched_frames 0 (2 ^ 20)
      - touched_frames (unat boot_start) (unat (kernel_end - boot_start))
      - unusable_touched (v_contents (memory_map boot))
      - ranges_touched (map mod_range (v_contents (modules boot)) @ v_contents (reserved boot)
          @ [fb_range (framebuffer boot), acpi_rsdp (acpi boot)])"
  using populate_spec [of view boot_start kernel_end boot]
  unfolding assms info_view_leaves by blast

text \<open>A machine with 16 MiB of usable memory and a one-mebibyte kernel at 1 MiB.\<close>

definition sample_boot :: boot_info where
  "sample_boot = boot_info_zero\<lparr>memory_map := \<lparr>v_items =
     \<lparr>mr_base = 0, mr_length = 0x1000000, mr_kind = USABLE\<rparr> # replicate 127 memory_region_zero,
     v_size = 1\<rparr>\<rparr>"

definition sample_pmm :: pmm where
  "sample_pmm = populate info_view 0x100000 0x200000 sample_boot pmm_boot_state"

lemma sample_frame_sets:
  "usable_inside (v_contents (memory_map sample_boot)) = {0..<4096}"
  "unusable_touched (v_contents (memory_map sample_boot)) = {}"
  "ranges_touched (map mod_range (v_contents (modules sample_boot)) @ v_contents (reserved sample_boot)
     @ [fb_range (framebuffer sample_boot), acpi_rsdp (acpi sample_boot)]) = {}"
  "touched_frames 0 (2 ^ 20) = {0..<256}" "touched_frames 1048576 1048576 = {256..<512}"
proof -
  show "usable_inside (v_contents (memory_map sample_boot)) = {0..<4096}"
    by (auto simp: usable_inside_def sample_boot_def v_contents_def inside_frames_iff)
  show "unusable_touched (v_contents (memory_map sample_boot)) = {}"
    by (simp add: unusable_touched_def sample_boot_def v_contents_def)
  show "ranges_touched (map mod_range (v_contents (modules sample_boot)) @ v_contents (reserved sample_boot)
     @ [fb_range (framebuffer sample_boot), acpi_rsdp (acpi sample_boot)]) = {}"
    by (auto simp: ranges_touched_def sample_boot_def boot_info_zero_def framebuffer_info_zero_def
        acpi_info_zero_def address_range_zero_def vec_new_def v_contents_def touched_frames_iff)
  show "touched_frames 0 (2 ^ 20) = {0..<256}" "touched_frames 1048576 1048576 = {256..<512}"
    by (auto simp: touched_frames_iff)
qed

lemma sample_pmm: "pmm_inv sample_pmm" "free_frames sample_pmm = {512..<4096}"
  using populate_spec [of info_view "0x100000" "0x200000" sample_boot]
  unfolding info_view_leaves sample_frame_sets sample_pmm_def by (auto simp: sample_frame_sets)

lemma populate_correct_witness:
  "free_frames (populate info_view 0x100000 0x200000 sample_boot pmm_boot_state) = {512..<4096}"
  using populate_correct [of info_view sample_boot "0x100000" "0x200000"]
  unfolding sample_frame_sets by (auto simp: sample_frame_sets)

end
