(* ===== verification/Frame_Allocator.thy ===== *)
theory Frame_Allocator
  imports Prelude
begin

text \<open>
  The contract between a frame allocator and its clients (the page tables, the virtual
  memory manager, the heap). A client session is any sequence of allocations, refused
  allocations and releases of runs the client holds. The lemmas are proved once from the
  contract; the physical memory manager interprets it.
\<close>

inductive session ::
  "('sz \<Rightarrow> 's \<Rightarrow> (('a, 'e) result \<times> 's) outcome) \<Rightarrow> ('sz \<Rightarrow> 'a \<Rightarrow> 's \<Rightarrow> 's outcome) \<Rightarrow>
   ('sz \<Rightarrow> bool) \<Rightarrow> 's \<Rightarrow> 's \<Rightarrow> ('sz \<times> 'a) list \<Rightarrow> bool"
  for alloc_op release_op supported s0 where
  start: "session alloc_op release_op supported s0 s0 []"
| allocate: "session alloc_op release_op supported s0 s live \<Longrightarrow> supported sz \<Longrightarrow>
    alloc_op sz s = Return (Ok a, s') \<Longrightarrow>
    session alloc_op release_op supported s0 s' ((sz, a) # live)"
| refused: "session alloc_op release_op supported s0 s live \<Longrightarrow> supported sz \<Longrightarrow>
    alloc_op sz s = Return (Err e, s') \<Longrightarrow>
    session alloc_op release_op supported s0 s' live"
| release: "session alloc_op release_op supported s0 s live \<Longrightarrow> (sz, a) \<in> set live \<Longrightarrow>
    release_op sz a s = Return s' \<Longrightarrow>
    session alloc_op release_op supported s0 s' (remove1 (sz, a) live)"

inductive_cases session_allocateE: "session alloc_op release_op supported s0 s (x # live)"

locale frame_allocator =
  fixes alloc_op :: "'sz \<Rightarrow> 's \<Rightarrow> (('a, 'e) result \<times> 's) outcome"
    and release_op :: "'sz \<Rightarrow> 'a \<Rightarrow> 's \<Rightarrow> 's outcome"
    and supported :: "'sz \<Rightarrow> bool"
    and inv :: "'s \<Rightarrow> bool"
    and free_set :: "'s \<Rightarrow> nat set"
    and run_of :: "'sz \<Rightarrow> 'a \<Rightarrow> nat set"
    and placed :: "'sz \<Rightarrow> 'a \<Rightarrow> bool"
  assumes alloc_returns: "inv s \<Longrightarrow> supported sz \<Longrightarrow> returns (alloc_op sz s)"
    and alloc_Ok: "inv s \<Longrightarrow> supported sz \<Longrightarrow> alloc_op sz s = Return (Ok a, s') \<Longrightarrow>
      inv s' \<and> placed sz a \<and> run_of sz a \<subseteq> free_set s \<and> free_set s' = free_set s - run_of sz a"
    and alloc_Err: "inv s \<Longrightarrow> supported sz \<Longrightarrow> alloc_op sz s = Return (Err e, s') \<Longrightarrow> s' = s"
    and release_Ok: "inv s \<Longrightarrow> supported sz \<Longrightarrow> placed sz a \<Longrightarrow> run_of sz a \<inter> free_set s = {} \<Longrightarrow>
      \<exists>s'. release_op sz a s = Return s' \<and> inv s' \<and> free_set s' = free_set s \<union> run_of sz a"
begin

definition held :: "('sz \<times> 'a) list \<Rightarrow> nat set" where
  "held live = (\<Union>(sz, a) \<in> set live. run_of sz a)"

definition apart :: "('sz \<times> 'a) list \<Rightarrow> bool" where
  "apart live = sorted_wrt (\<lambda>(sz, a) (sz', a'). run_of sz a \<inter> run_of sz' a' = {}) live"

definition session_inv :: "'s \<Rightarrow> 's \<Rightarrow> ('sz \<times> 'a) list \<Rightarrow> bool" where
  "session_inv s0 s live \<longleftrightarrow> inv s \<and> apart live \<and> held live \<inter> free_set s = {} \<and>
     held live \<union> free_set s = free_set s0 \<and> (\<forall>(sz, a) \<in> set live. supported sz \<and> placed sz a)"

lemma held_simps [simp]:
  "held [] = {}" "held ((sz, a) # live) = run_of sz a \<union> held live"
  "held (xs @ ys) = held xs \<union> held ys"
  by (auto simp: held_def)

lemma apart_Cons: "apart ((sz, a) # live) \<longleftrightarrow> run_of sz a \<inter> held live = {} \<and> apart live"
  by (auto simp: apart_def held_def)

lemma apart_remove:
  assumes "apart (xs @ (sz, a) # ys)"
  shows "apart (xs @ ys)" "run_of sz a \<inter> held (xs @ ys) = {}"
  using assms by (auto simp: apart_def sorted_wrt_append held_def)

lemma session_keeps_inv:
  assumes "session alloc_op release_op supported s0 s live" "inv s0"
  shows "session_inv s0 s live"
  using assms
proof (induction rule: session.induct)
  case start
  then show ?case by (simp add: session_inv_def apart_def)
next
  case (allocate s live sz a s')
  then show ?case
    using alloc_Ok [of s sz a s'] by (auto simp: session_inv_def apart_Cons)
next
  case (refused s live sz e s')
  then show ?case
    using alloc_Err [of s sz e s'] by (auto simp: session_inv_def)
next
  case (release s live sz a s')
  then obtain xs ys where split: "live = xs @ (sz, a) # ys" "(sz, a) \<notin> set xs"
    by (metis split_list_first)
  then have rem: "remove1 (sz, a) live = xs @ ys" by (simp add: remove1_append)
  have si: "session_inv s0 s live" using release by simp
  then have "run_of sz a \<inter> free_set s = {}" "supported sz" "placed sz a" "inv s"
    using split(1) by (auto simp: session_inv_def)
  then have s': "inv s'" "free_set s' = free_set s \<union> run_of sz a"
    using release_Ok [of s sz a] release.hyps(3) by auto
  show ?case
    unfolding rem using si s' split(1) apart_remove [of xs sz a ys]
    by (auto simp: session_inv_def)
qed

lemma session_release_returns:
  assumes "session alloc_op release_op supported s0 s live" "inv s0" "(sz, a) \<in> set live"
  shows "returns (release_op sz a s)"
proof -
  have si: "session_inv s0 s live" using assms(1,2) by (rule session_keeps_inv)
  then have "run_of sz a \<inter> free_set s = {}"
    using assms(3) by (fastforce simp: session_inv_def held_def)
  moreover have "supported sz" "placed sz a" "inv s"
    using si assms(3) by (fastforce simp: session_inv_def)+
  ultimately have "\<exists>s'. release_op sz a s = Return s'"
    using release_Ok [of s sz a] by blast
  then show ?thesis by auto
qed

lemma alloc_release_roundtrip:
  assumes "inv s" "supported sz" "alloc_op sz s = Return (Ok a, s')"
  shows "\<exists>s''. release_op sz a s' = Return s'' \<and> inv s'' \<and> free_set s'' = free_set s"
proof -
  note ok = alloc_Ok [OF assms]
  then have "run_of sz a \<inter> free_set s' = {}" by blast
  then obtain s'' where "release_op sz a s' = Return s''" "inv s''" "free_set s'' = free_set s' \<union> run_of sz a"
    using release_Ok [of s' sz a] ok assms(2) by blast
  then show ?thesis using ok by blast
qed

end

end
