(* ===== verification/Pmm_Service.thy ===== *)
theory Pmm_Service
  imports Pmm_Populate Frame_Allocator
begin

text \<open>
  The interface of the physical memory manager: allocation and release as properties of
  the set of free frames, and the interpretation of the client contract, from which
  follows that no client session ever holds overlapping runs or loses a frame.
\<close>

section \<open>The contract holds\<close>

definition pmm_run :: "page_size \<Rightarrow> paddr_t \<Rightarrow> nat set" where
  "pmm_run psize base = {unat base div 4096..<unat base div 4096 + frames_in psize}"

lemma free_run_bound:
  assumes "pmm_inv s" "supported_size psize" "free_run s (frames_in psize) f"
  shows "f + frames_in psize \<le> 4194304"
proof -
  have "0 < frames_in psize" using assms(2) by (auto simp: layout)
  then have "f + frames_in psize - 1 \<in> free_frames s" using assms(3) by (auto simp: free_run_def)
  from free_frame_bound(1) [OF assms(1) this] show ?thesis by linarith
qed

lemma placed_address:
  assumes "pmm_inv s" "supported_size psize" "free_run s (frames_in psize) f"
  shows "valid_release psize (address_of f)" "pmm_run psize (address_of f) = {f..<f + frames_in psize}"
proof -
  have "f + frames_in psize \<le> 4194304" using assms by (rule free_run_bound)
  moreover from this have "unat (address_of f) = f * 4096"
    using assms(2) by (intro unat_address_of) (auto simp: layout)
  ultimately show "valid_release psize (address_of f)"
      "pmm_run psize (address_of f) = {f..<f + frames_in psize}"
    using assms(3) by (auto simp: valid_release_def pmm_run_def free_run_def)
qed

lemma pmm_alloc_Ok:
  assumes "pmm_inv s" "supported_size psize" "pmm_alloc psize s = Return (Ok a, s')"
  shows "pmm_inv s' \<and> valid_release psize a \<and> pmm_run psize a \<subseteq> free_frames s \<and>
    free_frames s' = free_frames s - pmm_run psize a"
proof -
  obtain f where "a = address_of f" "free_run s (frames_in psize) f" "pmm_inv s'"
      "free_frames s' = free_frames s - {f..<f + frames_in psize}"
    using pmm_alloc_spec [OF assms(1,2)] assms(3) by (auto split: if_splits)
  then show ?thesis
    using placed_address [OF assms(1,2)] by (simp add: free_run_def)
qed

lemma sample_runs: "\<exists>f. free_run sample_pmm (frames_in SIZE_4K) f" "\<exists>f. free_run sample_pmm (frames_in SIZE_2M) f"
  by (rule exI [of _ 512]; auto simp: free_run_def sample_pmm layout)+

lemma sample_alloc: "\<exists>f s'. pmm_alloc SIZE_4K sample_pmm = Return (Ok (address_of f), s')"
  using pmm_alloc_spec [OF sample_pmm(1), of SIZE_4K] unfolding if_P [OF sample_runs(1)] by blast

interpretation pmm: frame_allocator pmm_alloc pmm_free supported_size pmm_inv free_frames pmm_run valid_release
proof unfold_locales
  fix s psize assume *: "pmm_inv s" "supported_size psize"
  then show "returns (pmm_alloc psize s)"
    using pmm_alloc_spec [OF *] by (auto split: if_splits)
next
  fix s psize e s' assume *: "pmm_inv s" "supported_size psize" "pmm_alloc psize s = Return (Err e, s')"
  then show "s' = s"
    using pmm_alloc_spec [OF *(1,2)] by (auto split: if_splits)
next
  fix s psize a assume *: "pmm_inv s" "supported_size psize" "valid_release psize a"
    "pmm_run psize a \<inter> free_frames s = {}"
  then show "\<exists>s'. pmm_free psize a s = Return s' \<and> pmm_inv s' \<and>
      free_frames s' = free_frames s \<union> pmm_run psize a"
    using pmm_free_spec [OF *(1,2), of a] by (auto simp: pmm_run_def split: if_splits)
qed (rule pmm_alloc_Ok)

section \<open>Properties\<close>

text \<open>
  C8: an allocation of a supported size returns the address of a naturally aligned run of
  frames that were all free, removes exactly that run from the free set and keeps the
  allocator consistent; it reports \<^verbatim>\<open>OUT_OF_MEMORY\<close>, changing nothing, exactly when no
  such run is free. It never reaches the panic on an inconsistent block.
\<close>

lemma pmm_alloc_correct:
  assumes "pmm_inv s" "supported_size psize"
  shows "if \<exists>f. free_run s (frames_in psize) f
         then \<exists>f s'. pmm_alloc psize s = Return (Ok (address_of f), s') \<and>
                     free_run s (frames_in psize) f \<and>
                     free_frames s' = free_frames s - {f..<f + frames_in psize} \<and> pmm_inv s'
         else pmm_alloc psize s = Return (Err OUT_OF_MEMORY, s)"
  using assms by (rule pmm_alloc_spec)

lemma pmm_alloc_correct_witness:
  "\<exists>f s'. pmm_alloc SIZE_2M sample_pmm = Return (Ok (address_of f), s') \<and> 512 dvd f \<and>
     free_frames s' = {512..<4096} - {f..<f + 512}"
  using pmm_alloc_correct [OF sample_pmm(1), of SIZE_2M]
  unfolding if_P [OF sample_runs(2)] by (auto simp: free_run_def sample_pmm layout)

text \<open>
  C9: releasing a supported size succeeds exactly when the address is aligned to the size,
  lies within managed memory and none of its frames is free; then exactly those frames
  become free and the allocator stays consistent. Every other release halts the kernel.
\<close>

lemma pmm_free_correct:
  assumes "pmm_inv s" "supported_size psize"
  shows "if valid_release psize base \<and> pmm_run psize base \<inter> free_frames s = {}
         then \<exists>s'. pmm_free psize base s = Return s' \<and> pmm_inv s' \<and>
                   free_frames s' = free_frames s \<union> pmm_run psize base
         else \<not> returns (pmm_free psize base s)"
  using pmm_free_spec [OF assms, of base] unfolding pmm_run_def .

lemma pmm_free_correct_witness:
  "\<not> returns (pmm_free SIZE_4K 0x200000 sample_pmm) \<and> returns (pmm_free SIZE_4K 0x100000 sample_pmm)"
proof
  show "\<not> returns (pmm_free SIZE_4K 0x200000 sample_pmm)"
    using pmm_free_correct [OF sample_pmm(1), of SIZE_4K "0x200000"]
    by (simp add: pmm_run_def sample_pmm layout)
  show "returns (pmm_free SIZE_4K 0x100000 sample_pmm)"
    using pmm_free_correct [OF sample_pmm(1), of SIZE_4K "0x100000"]
    by (auto simp: pmm_run_def sample_pmm layout valid_release_def)
qed

text \<open>
  C7: along any client session, a sequence of allocations, refusals and releases of held
  runs, the runs held are pairwise disjoint, disjoint from the free set and together with
  it make up the frames the session started with, and releasing any of them never panics.
\<close>

lemma pmm_session_safe:
  assumes "session pmm_alloc pmm_free supported_size s0 s live" "pmm_inv s0"
  shows "sorted_wrt (\<lambda>(sz, a) (sz', a'). pmm_run sz a \<inter> pmm_run sz' a' = {}) live \<and>
    (\<Union>(sz, a) \<in> set live. pmm_run sz a) \<inter> free_frames s = {} \<and>
    (\<Union>(sz, a) \<in> set live. pmm_run sz a) \<union> free_frames s = free_frames s0 \<and>
    (\<forall>(sz, a) \<in> set live. returns (pmm_free sz a s))"
  using pmm.session_keeps_inv [OF assms] pmm.session_release_returns [OF assms]
  by (auto simp: pmm.session_inv_def pmm.apart_def pmm.held_def)

lemma pmm_session_safe_witness:
  "\<exists>a s'. pmm_run SIZE_4K a \<union> free_frames s' = {512..<4096} \<and> returns (pmm_free SIZE_4K a s')"
proof -
  obtain f s' where "pmm_alloc SIZE_4K sample_pmm = Return (Ok (address_of f), s')"
    using sample_alloc by blast
  then have "session pmm_alloc pmm_free supported_size sample_pmm s' [(SIZE_4K, address_of f)]"
    by (intro session.allocate [OF session.start]) auto
  from pmm_session_safe [OF this sample_pmm(1)] show ?thesis
    by (auto simp: sample_pmm)
qed

text \<open>
  a run that was just allocated can be released, and the release restores the free set.
\<close>

lemma pmm_alloc_free_roundtrip:
  assumes "pmm_inv s" "supported_size psize" "pmm_alloc psize s = Return (Ok a, s')"
  shows "\<exists>s''. pmm_free psize a s' = Return s'' \<and> pmm_inv s'' \<and> free_frames s'' = free_frames s"
  using assms by (rule pmm.alloc_release_roundtrip)

text \<open>
  \<^verbatim>\<open>init_allocator\<close> succeeds exactly when populating left at least one free frame.
\<close>

lemma init_allocator_result:
  "fst (init_allocator view boot_start kernel_end boot pmm_boot_state) =
     (if free_frames (populate view boot_start kernel_end boot pmm_boot_state) = {}
      then Err NO_USABLE_MEMORY else Ok ())"
  using heads_nil_iff [OF populate_spec(1), of view boot_start kernel_end boot]
  by (auto simp: init_allocator_def Let_def)

end
