(* ===== verification/Paging.thy ===== *)
theory Paging
  imports Pages
begin

text \<open>
  The x86-64 page-table format: \<^verbatim>\<open>arch/common/mmu/traits.hpp\<close> (\<^verbatim>\<open>radix9\<close>, the index
  arithmetic of a 512-way radix tree) and \<^verbatim>\<open>arch/x86_64/mmu/paging.hpp\<close> (the entry
  encoding). The feature flags that \<^verbatim>\<open>mmu/features.cpp\<close> keeps are a record.
  The lemmas show that an entry decodes to what was encoded, and that splitting a large
  page yields the same frame and protection for every byte of it.
\<close>

record features =
  nx_enabled :: bool
  global_pages_enabled :: bool
  gib_pages_supported :: bool

section \<open>radix9\<close>

definition LEVELS :: nat where "LEVELS = 4"
definition ENTRIES :: nat where "ENTRIES = 512"

definition pt_index :: "nat \<Rightarrow> vaddr_t \<Rightarrow> nat" where
  "pt_index level va = unat (drop_bit (3 + 9 * level) va AND 0x1FF)"

definition level_of :: "page_size \<Rightarrow> nat" where
  "level_of psize = (shift_of psize - 12) div 9 + 1"

definition size_at :: "nat \<Rightarrow> page_size" where
  "size_at level = of_nat (12 + 9 * (level - 1))"

section \<open>Entry encoding\<close>

definition PRESENT :: u64 where "PRESENT = push_bit 0 1"
definition WRITABLE :: u64 where "WRITABLE = push_bit 1 1"
definition PTE_USER :: u64 where "PTE_USER = push_bit 2 1"
definition WRITE_THROUGH :: u64 where "WRITE_THROUGH = push_bit 3 1"
definition CACHE_DISABLE :: u64 where "CACHE_DISABLE = push_bit 4 1"
definition LARGE :: u64 where "LARGE = push_bit 7 1"
definition PTE_GLOBAL :: u64 where "PTE_GLOBAL = push_bit 8 1"
definition NO_EXECUTE :: u64 where "NO_EXECUTE = push_bit 63 1"
definition ADDRESS_MASK :: u64 where "ADDRESS_MASK = 0x000FFFFFFFFFF000"

definition PROT_MASK :: u64 where
  "PROT_MASK = WRITABLE OR PTE_USER OR WRITE_THROUGH OR CACHE_DISABLE OR PTE_GLOBAL OR NO_EXECUTE"

definition valid :: "vaddr_t \<Rightarrow> bool" where
  "valid va \<longleftrightarrow> drop_bit 47 va = 0 \<or> drop_bit 47 va = 0x1FFFF"

definition supports :: "features \<Rightarrow> page_size \<Rightarrow> bool" where
  "supports ft psize \<longleftrightarrow> psize \<noteq> SIZE_1G \<or> gib_pages_supported ft"

definition present :: "u64 \<Rightarrow> bool" where
  "present pte \<longleftrightarrow> (pte AND PRESENT) \<noteq> 0"

definition leaf :: "u64 \<Rightarrow> nat \<Rightarrow> bool" where
  "leaf pte level \<longleftrightarrow> level = 1 \<or> (pte AND LARGE) \<noteq> 0"

definition pte_address :: "u64 \<Rightarrow> paddr_t" where
  "pte_address pte = pte AND ADDRESS_MASK"

definition pte_prot :: "u64 \<Rightarrow> page_prot" where
  "pte_prot pte =
     (let p = 0;
          p = (if (pte AND WRITABLE) \<noteq> 0 then p OR WRITE else p);
          p = (if (pte AND NO_EXECUTE) = 0 then p OR EXEC else p);
          p = (if (pte AND PTE_USER) \<noteq> 0 then p OR USER else p);
          p = (if (pte AND PTE_GLOBAL) \<noteq> 0 then p OR GLOBAL else p);
          p = (if (pte AND CACHE_DISABLE) \<noteq> 0 then p OR UNCACHED else p)
      in p)"

definition table_entry :: "paddr_t \<Rightarrow> u64" where
  "table_entry phys = (phys AND ADDRESS_MASK) OR PRESENT OR WRITABLE OR PTE_USER"

definition leaf_entry :: "features \<Rightarrow> paddr_t \<Rightarrow> page_size \<Rightarrow> page_prot \<Rightarrow> u64" where
  "leaf_entry ft phys psize p =
     (let e = (phys AND ADDRESS_MASK) OR PRESENT;
          e = (if psize \<noteq> SIZE_4K then e OR LARGE else e);
          e = (if has p WRITE then e OR WRITABLE else e);
          e = (if has p USER then e OR PTE_USER else e);
          e = (if has p UNCACHED then e OR (CACHE_DISABLE OR WRITE_THROUGH) else e);
          e = (if has p GLOBAL \<and> global_pages_enabled ft then e OR PTE_GLOBAL else e);
          e = (if \<not> has p EXEC \<and> nx_enabled ft then e OR NO_EXECUTE else e)
      in e)"

text \<open>\<^verbatim>\<open>split\<close> fills the 512 entries of a child table: the list of values it writes.\<close>

definition split_flags :: "u64 \<Rightarrow> nat \<Rightarrow> u64" where
  "split_flags pte level = (pte AND (PRESENT OR PROT_MASK)) OR (if level - 1 = 1 then 0 else LARGE)"

definition split_entry :: "u64 \<Rightarrow> nat \<Rightarrow> nat \<Rightarrow> u64" where
  "split_entry pte level i =
     ((pte_address pte + of_nat i * bytes_in (size_at (level - 1))) AND ADDRESS_MASK)
       OR split_flags pte level"

definition split :: "u64 \<Rightarrow> nat \<Rightarrow> u64 list" where
  "split pte level = map (split_entry pte level) [0..<ENTRIES]"

section \<open>Bits of an entry\<close>

lemma bit_ADDRESS_MASK [bit_spec]: "bit ADDRESS_MASK n \<longleftrightarrow> 12 \<le> n \<and> n < 52"
proof -
  have *: "ADDRESS_MASK = push_bit 12 (mask 40)"
    by (simp add: ADDRESS_MASK_def mask_eq_exp_minus_1 push_bit_eq_mult)
  show ?thesis unfolding * by (auto simp: bit_simps)
qed

lemma bit_entry_flags [bit_spec]:
  "bit PRESENT n \<longleftrightarrow> n = 0" "bit WRITABLE n \<longleftrightarrow> n = 1" "bit PTE_USER n \<longleftrightarrow> n = 2"
  "bit WRITE_THROUGH n \<longleftrightarrow> n = 3" "bit CACHE_DISABLE n \<longleftrightarrow> n = 4" "bit LARGE n \<longleftrightarrow> n = 7"
  "bit PTE_GLOBAL n \<longleftrightarrow> n = 8" "bit NO_EXECUTE n \<longleftrightarrow> n = 63"
  unfolding PRESENT_def WRITABLE_def PTE_USER_def WRITE_THROUGH_def CACHE_DISABLE_def LARGE_def
    PTE_GLOBAL_def NO_EXECUTE_def bit_push_bit_1
  by simp_all

lemma bit_prot_flags [bit_spec]:
  "bit WRITE n \<longleftrightarrow> n = 0" "bit EXEC n \<longleftrightarrow> n = 1" "bit USER n \<longleftrightarrow> n = 2"
  "bit GLOBAL n \<longleftrightarrow> n = 3" "bit UNCACHED n \<longleftrightarrow> n = 4"
  unfolding WRITE_def EXEC_def USER_def GLOBAL_def UNCACHED_def bit_push_bit_1
  by simp_all

lemma flag_tests [bit_spec]:
  "(pte AND PRESENT) \<noteq> 0 \<longleftrightarrow> bit pte 0" "(pte AND WRITABLE) \<noteq> 0 \<longleftrightarrow> bit pte 1"
  "(pte AND PTE_USER) \<noteq> 0 \<longleftrightarrow> bit pte 2" "(pte AND CACHE_DISABLE) \<noteq> 0 \<longleftrightarrow> bit pte 4"
  "(pte AND LARGE) \<noteq> 0 \<longleftrightarrow> bit pte 7" "(pte AND PTE_GLOBAL) \<noteq> 0 \<longleftrightarrow> bit pte 8"
  "(pte AND NO_EXECUTE) \<noteq> 0 \<longleftrightarrow> bit pte 63"
  unfolding PRESENT_def WRITABLE_def PTE_USER_def CACHE_DISABLE_def LARGE_def PTE_GLOBAL_def
    NO_EXECUTE_def
  by (rule and_bit_nonzero; simp)+

lemma present_iff [bit_spec]: "present pte \<longleftrightarrow> bit pte 0"
  by (simp only: present_def flag_tests)

lemma leaf_iff [bit_spec]: "leaf pte level \<longleftrightarrow> level = 1 \<or> bit pte 7"
  by (simp only: leaf_def flag_tests)

lemma bit_pte_address [bit_spec]: "bit (pte_address pte) n \<longleftrightarrow> bit pte n \<and> 12 \<le> n \<and> n < 52"
  by (auto simp: pte_address_def bit_and_iff bit_ADDRESS_MASK)

lemma bit_pte_prot [bit_spec]:
  "bit (pte_prot pte) n \<longleftrightarrow>
     n = 0 \<and> bit pte 1 \<or> n = 1 \<and> \<not> bit pte 63 \<or> n = 2 \<and> bit pte 2 \<or> n = 3 \<and> bit pte 8 \<or>
     n = 4 \<and> bit pte 4"
proof -
  have nx: "(pte AND NO_EXECUTE) = 0 \<longleftrightarrow> \<not> bit pte 63" using flag_tests(7) by blast
  show ?thesis
    by (auto simp: pte_prot_def Let_def nx flag_tests bit_or_iff bit_prot_flags)
qed

lemma bit_table_entry [bit_spec]:
  "bit (table_entry pa) n \<longleftrightarrow> n \<le> 2 \<or> bit pa n \<and> 12 \<le> n \<and> n < 52"
  by (auto simp: table_entry_def bit_or_iff bit_and_iff bit_ADDRESS_MASK bit_entry_flags)

lemma bit_leaf_entry [bit_spec]:
  "bit (leaf_entry ft pa psize p) n \<longleftrightarrow>
     n = 0 \<or> n = 1 \<and> has p WRITE \<or> n = 2 \<and> has p USER \<or> (n = 3 \<or> n = 4) \<and> has p UNCACHED \<or>
     n = 7 \<and> psize \<noteq> SIZE_4K \<or> n = 8 \<and> has p GLOBAL \<and> global_pages_enabled ft \<or>
     n = 63 \<and> \<not> has p EXEC \<and> nx_enabled ft \<or> bit pa n \<and> 12 \<le> n \<and> n < 52"
  by (auto simp: leaf_entry_def Let_def bit_or_iff bit_and_iff bit_ADDRESS_MASK bit_entry_flags)

section \<open>Round trips\<close>

definition frame_address :: "paddr_t \<Rightarrow> bool" where
  "frame_address pa \<longleftrightarrow> pa AND ADDRESS_MASK = pa"

lemma frame_address_bit: "frame_address pa \<Longrightarrow> bit pa n \<Longrightarrow> 12 \<le> n \<and> n < 52"
  unfolding frame_address_def by (metis bit_ADDRESS_MASK bit_and_iff)

lemma pte_address_frame [simp]: "frame_address (pte_address pte)"
  by (simp add: frame_address_def pte_address_def and.assoc)

lemma frame_address_iff: "frame_address pa \<longleftrightarrow> 4096 dvd unat pa \<and> unat pa < 2 ^ 52"
proof -
  have "frame_address pa \<longleftrightarrow> (\<forall>n. bit pa n \<longrightarrow> 12 \<le> n) \<and> (\<forall>n. bit pa n \<longrightarrow> n < 52)"
  proof (intro iffI conjI allI impI)
    fix n assume "frame_address pa" "bit pa n"
    then show "12 \<le> n" "n < 52" by (auto dest: frame_address_bit)
  next
    assume "(\<forall>n. bit pa n \<longrightarrow> 12 \<le> n) \<and> (\<forall>n. bit pa n \<longrightarrow> n < 52)"
    then show "frame_address pa"
      unfolding frame_address_def by (intro bit_word_eqI) (auto simp: bit_and_iff bit_ADDRESS_MASK)
  qed
  also have "(\<forall>n. bit pa n \<longrightarrow> 12 \<le> n) \<longleftrightarrow> pa AND mask 12 = 0"
    unfolding word_zero_bits
    by (auto simp: bit_and_iff bit_mask_iff not_less dest: bit_imp_le_length)
  also have "pa AND mask 12 = 0 \<longleftrightarrow> 4096 dvd unat pa"
    using and_mask_dvd_nat [of 12 pa] by auto
  also have "(\<forall>n. bit pa n \<longrightarrow> n < 52) \<longleftrightarrow> drop_bit 52 pa = 0"
    by (simp only: drop_bit_eq_0_iff)
  also have "drop_bit 52 pa = 0 \<longleftrightarrow> unat pa < 2 ^ 52"
  proof -
    have "drop_bit 52 pa = 0 \<longleftrightarrow> unat (drop_bit 52 pa) = 0" by (simp only: unat_eq_0)
    also have "unat (drop_bit 52 pa) = unat pa div 2 ^ 52"
      by (simp only: unat_drop_bit_eq) (simp add: drop_bit_eq_div)
    finally show ?thesis by (simp add: div_eq_0_iff)
  qed
  finally show ?thesis .
qed

lemma table_entry_address [simp]: "frame_address pa \<Longrightarrow> pte_address (table_entry pa) = pa"
  by (rule bit_word_eqI) (auto simp: bit_pte_address bit_table_entry dest: frame_address_bit)

lemma table_entry_kind [simp]:
  "present (table_entry pa)" "level \<noteq> 1 \<Longrightarrow> \<not> leaf (table_entry pa) level"
  by (auto simp: present_iff leaf_iff bit_table_entry)

lemma leaf_entry_address [simp]: "frame_address pa \<Longrightarrow> pte_address (leaf_entry ft pa psize p) = pa"
  by (rule bit_word_eqI) (auto simp: bit_pte_address bit_leaf_entry dest: frame_address_bit)

lemma leaf_entry_kind [simp]:
  "present (leaf_entry ft pa psize p)"
  "supported_size psize \<Longrightarrow> leaf (leaf_entry ft pa psize p) (level_of psize)"
  by (auto simp: present_iff leaf_iff bit_leaf_entry level_of_def layout)

text \<open>The protection a leaf ends up with: flags the machine lacks are dropped.\<close>

definition effective_prot :: "features \<Rightarrow> page_prot \<Rightarrow> page_prot" where
  "effective_prot ft p =
     (p AND (WRITE OR USER OR UNCACHED))
       OR (if has p EXEC \<or> \<not> nx_enabled ft then EXEC else 0)
       OR (if has p GLOBAL \<and> global_pages_enabled ft then GLOBAL else 0)"

lemma leaf_entry_prot: "pte_prot (leaf_entry ft pa psize p) = effective_prot ft p"
proof (rule bit_word_eqI)
  fix n assume "n < LENGTH(8)"
  show "bit (pte_prot (leaf_entry ft pa psize p)) n \<longleftrightarrow> bit (effective_prot ft p) n"
    by (auto simp: bit_pte_prot bit_leaf_entry effective_prot_def bit_or_iff bit_and_iff
        bit_prot_flags has_iff)
qed

text \<open>
  decoding a leaf entry gives back the frame it was built from, the page size's level
  and the requested protection, less the no-execute and global attributes the processor
  does not offer.
\<close>

lemma leaf_entry_roundtrip:
  assumes "frame_address pa" "supported_size psize"
  shows "present (leaf_entry ft pa psize p) \<and> leaf (leaf_entry ft pa psize p) (level_of psize) \<and>
    pte_address (leaf_entry ft pa psize p) = pa \<and>
    pte_prot (leaf_entry ft pa psize p) = effective_prot ft p"
  using assms by (simp add: leaf_entry_prot)

section \<open>Splitting a large page\<close>

lemma size_at_level_of:
  "supported_size psize \<Longrightarrow> size_at (level_of psize) = psize"
  "size_at (Suc 0) = SIZE_4K" "size_at 2 = SIZE_2M" "size_at 3 = SIZE_1G"
  by (auto simp: size_at_def level_of_def shift_of_def SIZE_4K_def SIZE_2M_def SIZE_1G_def)

lemma bytes_at:
  "unat (bytes_in (size_at (Suc 0))) = 4096" "unat (bytes_in (size_at 2)) = 2097152"
  "unat (bytes_in (size_at 3)) = 1073741824"
  by (simp_all add: size_at_level_of bytes_in_pow2 layout)

lemma split_frame:
  assumes "level = 2 \<or> level = 3" "unat (bytes_in (size_at level)) dvd unat (pte_address pte)" "i < 512"
  shows "unat (pte_address pte + of_nat i * bytes_in (size_at (level - 1))) =
           unat (pte_address pte) + i * unat (bytes_in (size_at (level - 1)))"
    and "frame_address (pte_address pte + of_nat i * bytes_in (size_at (level - 1)))"
proof -
  let ?b = "unat (bytes_in (size_at (level - 1)))" and ?a = "unat (pte_address pte)"
  have b: "unat (bytes_in (size_at level)) = 512 * ?b" "4096 dvd ?b" "512 * ?b \<le> 2 ^ 30" "0 < ?b"
    using assms(1) by (auto simp: bytes_at)
  have a: "?a < 2 ^ 52" using frame_address_iff [of "pte_address pte"] by simp
  obtain k where k: "?a = 512 * ?b * k" using assms(2) b by (auto elim: dvdE)
  have dvd: "512 * ?b dvd 2 ^ 52" using assms(1) by (auto simp: bytes_at)
  then obtain m where m: "(2 :: nat) ^ 52 = 512 * ?b * m" by (rule dvdE)
  have "512 * ?b * k < 512 * ?b * m" using a unfolding k m .
  then have "k < m" by (rule mult_less_cancel1 [THEN iffD1, THEN conjunct2])
  then have "512 * ?b * (k + 1) \<le> 512 * ?b * m" by (intro mult_le_mono2) simp
  then have top: "?a + 512 * ?b \<le> 2 ^ 52" unfolding k m by (simp only: distrib_left mult_1_right)
  have i: "i * ?b < 512 * ?b" using assms(3) b(4) by simp
  have ui: "unat (of_nat i * bytes_in (size_at (level - 1))) = i * ?b"
  proof -
    have "unat (of_nat i :: u64) = i" using assms(3) by (intro unat_of_nat_small) simp
    moreover have "i * ?b < 2 ^ 64"
      by (rule less_le_trans [OF i], rule order_trans [OF b(3)]) simp
    ultimately show ?thesis by (simp add: unat_word_ariths)
  qed
  show sum: "unat (pte_address pte + of_nat i * bytes_in (size_at (level - 1))) = ?a + i * ?b"
  proof -
    have "?a + i * ?b < 2 ^ 52" using top i by linarith
    also have "(2 :: nat) ^ 52 \<le> 2 ^ LENGTH(64)" by simp
    finally show ?thesis using unat_plus_small [of "pte_address pte"] by (simp only: ui)
  qed
  have "4096 dvd ?a + i * ?b"
    using k b(2) by (intro dvd_add) (auto intro: dvd_mult dvd_mult2)
  then show "frame_address (pte_address pte + of_nat i * bytes_in (size_at (level - 1)))"
    unfolding frame_address_iff sum using top i by linarith
qed

lemma bit_split_flags:
  "bit (split_flags pte level) n \<longleftrightarrow>
     bit pte n \<and> (n = 0 \<or> n = 1 \<or> n = 2 \<or> n = 3 \<or> n = 4 \<or> n = 8 \<or> n = 63) \<or> n = 7 \<and> level - 1 \<noteq> 1"
  by (auto simp: split_flags_def PROT_MASK_def bit_or_iff bit_and_iff bit_entry_flags)

lemma split_entry_spec:
  assumes "level = 2 \<or> level = 3" "unat (bytes_in (size_at level)) dvd unat (pte_address pte)" "i < 512"
    "present pte"
  shows "present (split_entry pte level i)" "leaf (split_entry pte level i) (level - 1)"
    "pte_prot (split_entry pte level i) = pte_prot pte"
    "unat (pte_address (split_entry pte level i)) =
       unat (pte_address pte) + i * unat (bytes_in (size_at (level - 1)))"
proof -
  let ?x = "pte_address pte + of_nat i * bytes_in (size_at (level - 1))"
  have x: "\<And>n. bit ?x n \<Longrightarrow> 12 \<le> n \<and> n < 52" "?x AND ADDRESS_MASK = ?x"
    using split_frame(2) [OF assms(1,2,3)] frame_address_bit [of ?x] by (auto simp: frame_address_def)
  have bit: "bit (split_entry pte level i) n \<longleftrightarrow> bit ?x n \<or> bit (split_flags pte level) n" for n
    unfolding split_entry_def x(2) by (rule bit_or_iff)
  show "present (split_entry pte level i)"
    using assms(4) by (simp add: present_iff bit bit_split_flags)
  show "leaf (split_entry pte level i) (level - 1)"
    by (auto simp: leaf_iff bit bit_split_flags)
  show "pte_prot (split_entry pte level i) = pte_prot pte"
  proof (rule bit_word_eqI)
    fix n assume "n < LENGTH(8)"
    show "bit (pte_prot (split_entry pte level i)) n \<longleftrightarrow> bit (pte_prot pte) n"
      unfolding bit_pte_prot bit bit_split_flags using x(1) [of 1] x(1) [of 63] x(1) [of 2]
        x(1) [of 8] x(1) [of 4] by auto
  qed
  have "pte_address (split_entry pte level i) = ?x"
  proof (rule bit_word_eqI)
    fix n assume "n < LENGTH(64)"
    show "bit (pte_address (split_entry pte level i)) n \<longleftrightarrow> bit ?x n"
      unfolding bit_pte_address bit bit_split_flags using x(1) [of n] by auto
  qed
  then show "unat (pte_address (split_entry pte level i)) =
      unat (pte_address pte) + i * unat (bytes_in (size_at (level - 1)))"
    using split_frame(1) [OF assms(1,2,3)] by simp
qed

end
