(* ===== verification/Radix.thy ===== *)
theory Radix
  imports Paging Pmm
begin

text \<open>
  The page-table tree: \<^verbatim>\<open>arch/common/mmu/radix_tree.hpp\<close> instantiated with the x86-64
  format and the kernel environment \<^verbatim>\<open>kernel_env\<close> of \<^verbatim>\<open>arch/x86_64/mmu/mmu.hpp\<close>. The
  machine state is physical memory (one 64-bit word per slot address), the frame
  allocator, the feature flags, the list of TLB flushes, newest first, and the bounds of
  the kernel image, whose static tables are never returned to the allocator. A slot
  reference is the physical address of the slot.

  A fallible member is a state transformer; \<open>ktry\<close> is the early return of \<^verbatim>\<open>KTRY\<close>, and a
  panic of the frame allocator ends the computation.
\<close>

record machine =
  mem :: "u64 \<Rightarrow> u64"
  m_pmm :: pmm
  feats :: features
  flushes :: "vaddr_t list"
  image_first :: u64
  image_end :: u64

type_synonym 'a mm = "machine \<Rightarrow> (('a, mm_error) result \<times> machine) outcome"

definition mm_ok :: "'a \<Rightarrow> 'a mm" where "mm_ok x m = Return (Ok x, m)"
definition mm_fail :: "mm_error \<Rightarrow> 'a mm" where "mm_fail e m = Return (Err e, m)"

definition ktry :: "'a mm \<Rightarrow> ('a \<Rightarrow> 'b mm) \<Rightarrow> 'b mm" where
  "ktry op f m =
     (case op m of
        Panic msg \<Rightarrow> Panic msg
      | Return (Err e, m') \<Rightarrow> Return (Err e, m')
      | Return (Ok x, m') \<Rightarrow> f x m')"

section \<open>The kernel environment\<close>

definition slot_at :: "paddr_t \<Rightarrow> nat \<Rightarrow> u64" where
  "slot_at table i = table + of_nat (8 * i)"

definition write_slots :: "paddr_t \<Rightarrow> u64 list \<Rightarrow> (u64 \<Rightarrow> u64) \<Rightarrow> u64 \<Rightarrow> u64" where
  "write_slots table es mm = fold (\<lambda>i mm. mm(slot_at table i := es ! i)) [0..<length es] mm"

definition alloc_table :: "paddr_t mm" where
  "alloc_table m =
     (case pmm_alloc SIZE_4K (m_pmm m) of
        Panic msg \<Rightarrow> Panic msg
      | Return (Err e, p) \<Rightarrow> Return (Err e, m\<lparr>m_pmm := p\<rparr>)
      | Return (Ok phys, p) \<Rightarrow>
          Return (Ok phys, m\<lparr>m_pmm := p, mem := write_slots phys (replicate ENTRIES 0) (mem m)\<rparr>))"

definition free_table :: "paddr_t \<Rightarrow> machine \<Rightarrow> machine outcome" where
  "free_table phys m =
     (if phys < image_first m \<or> phys \<ge> image_end m
      then obind (pmm_free SIZE_4K phys (m_pmm m)) (\<lambda>p. Return (m\<lparr>m_pmm := p\<rparr>))
      else Return m)"

definition replace :: "u64 \<Rightarrow> u64 \<Rightarrow> vaddr_t \<Rightarrow> machine \<Rightarrow> machine" where
  "replace slot pte va m =
     (let old = mem m slot;
          m = m\<lparr>mem := (mem m)(slot := pte)\<rparr>
      in if present old then m\<lparr>flushes := va # flushes m\<rparr> else m)"

section \<open>Walking\<close>

record walk_path =
  slots :: "nat \<Rightarrow> u64"
  tables :: "nat \<Rightarrow> paddr_t"
  reached_level :: nat

definition empty_path :: walk_path where
  "empty_path = \<lparr>slots = (\<lambda>_. 0), tables = (\<lambda>_. 0), reached_level = 0\<rparr>"

fun leaf_size_level :: "features \<Rightarrow> nat \<Rightarrow> nat" where
  "leaf_size_level ft 0 = 0"
| "leaf_size_level ft (Suc l) =
     (if 1 < Suc l \<and> \<not> supports ft (size_at (Suc l)) then leaf_size_level ft l else Suc l)"

definition leaf_size :: "features \<Rightarrow> page_size \<Rightarrow> page_size" where
  "leaf_size ft psize = size_at (leaf_size_level ft (level_of psize))"

definition validate :: "vaddr_t \<Rightarrow> page_size \<Rightarrow> paddr_t \<Rightarrow> nat mm" where
  "validate va psize pa =
     (if \<not> valid va \<or> ((va OR pa) AND (bytes_in psize - 1)) \<noteq> 0 then mm_fail INVALID_ADDRESS
      else mm_ok (level_of psize))"

definition is_table_empty :: "paddr_t \<Rightarrow> machine \<Rightarrow> bool" where
  "is_table_empty table m = list_all (\<lambda>i. mem m (slot_at table i) = 0) [0..<ENTRIES]"

text \<open>
  The loop of \<^verbatim>\<open>walk\<close>, one level per call. It stops at the target level, which is between
  1 and 3 for every page size, so level 0 is not reached.
\<close>

fun walk_from :: "vaddr_t \<Rightarrow> nat \<Rightarrow> bool \<Rightarrow> nat \<Rightarrow> paddr_t \<Rightarrow> walk_path \<Rightarrow> walk_path mm" where
  "walk_from va target allocate 0 table path m = Panic ''walk: level 0''"
| "walk_from va target allocate (Suc l) table path m =
     (let level = Suc l;
          slot = slot_at table (pt_index level va);
          path = \<lparr>slots = (slots path)(level := slot), tables = (tables path)(level := table),
                  reached_level = level\<rparr>
      in if level = target then mm_ok path m
         else if \<not> present (mem m slot) then
           (if \<not> allocate then mm_fail NOT_MAPPED m
            else ktry alloc_table (\<lambda>child m.
                   let m = replace slot (table_entry child) va m
                   in walk_from va target allocate l (pte_address (mem m slot)) path m) m)
         else if leaf (mem m slot) level then
           (if \<not> allocate then mm_ok path m
            else ktry alloc_table (\<lambda>child m.
                   let m = m\<lparr>mem := write_slots child (split (mem m slot) level) (mem m)\<rparr>;
                       m = replace slot (table_entry child) va m
                   in walk_from va target allocate l (pte_address (mem m slot)) path m) m)
         else walk_from va target allocate l (pte_address (mem m slot)) path m)"

definition walk :: "paddr_t \<Rightarrow> vaddr_t \<Rightarrow> nat \<Rightarrow> bool \<Rightarrow> walk_path mm" where
  "walk root va target allocate = walk_from va target allocate LEVELS root empty_path"

definition walk_to_leaf :: "paddr_t \<Rightarrow> vaddr_t \<Rightarrow> nat \<Rightarrow> walk_path mm" where
  "walk_to_leaf root va target =
     ktry (walk root va target False) (\<lambda>path.
     ktry (if reached_level path > target then walk root va target True else mm_ok path) (\<lambda>path m.
       if \<not> present (mem m (slots path target)) then mm_fail NOT_MAPPED m
       else if \<not> leaf (mem m (slots path target)) target then mm_fail CONFLICT m
       else mm_ok path m))"

text \<open>\<^verbatim>\<open>prune\<close>: \<open>n\<close> levels are left below the root.\<close>

fun prune_loop :: "walk_path \<Rightarrow> vaddr_t \<Rightarrow> nat \<Rightarrow> nat \<Rightarrow> machine \<Rightarrow> machine outcome" where
  "prune_loop path va level 0 m = Return m"
| "prune_loop path va level (Suc n) m =
     (if \<not> is_table_empty (tables path level) m then Return m
      else
        let m = replace (slots path (level + 1)) 0 va m
        in obind (free_table (tables path level) m) (prune_loop path va (level + 1) n))"

definition prune :: "walk_path \<Rightarrow> nat \<Rightarrow> vaddr_t \<Rightarrow> machine \<Rightarrow> machine outcome" where
  "prune path from_level va m = prune_loop path va from_level (LEVELS - from_level) m"

section \<open>Single leaves\<close>

definition map_leaf :: "paddr_t \<Rightarrow> vaddr_t \<Rightarrow> paddr_t \<Rightarrow> page_size \<Rightarrow> page_prot \<Rightarrow> unit mm" where
  "map_leaf root va pa psize p =
     ktry (validate va psize pa) (\<lambda>target.
     ktry (walk root va target True) (\<lambda>path m.
       let pte = leaf_entry (feats m) pa psize p;
           slot = slots path target
       in if present (mem m slot) \<and> mem m slot \<noteq> pte then mm_fail CONFLICT m
          else if \<not> present (mem m slot) then mm_ok () (replace slot pte va m)
          else mm_ok () m))"

definition protect_leaf :: "paddr_t \<Rightarrow> vaddr_t \<Rightarrow> page_size \<Rightarrow> page_prot \<Rightarrow> unit mm" where
  "protect_leaf root va psize p =
     ktry (validate va psize 0) (\<lambda>target.
     ktry (walk_to_leaf root va target) (\<lambda>path m.
       let slot = slots path target
       in mm_ok () (replace slot (leaf_entry (feats m) (pte_address (mem m slot)) psize p) va m)))"

text \<open>\<^verbatim>\<open>split_at\<close> inspects the error of the first walk instead of returning it.\<close>

definition split_at :: "paddr_t \<Rightarrow> vaddr_t \<Rightarrow> nat \<Rightarrow> unit mm" where
  "split_at root boundary target m =
     (case walk root boundary target False m of
        Panic msg \<Rightarrow> Panic msg
      | Return (Err _, m) \<Rightarrow> mm_ok () m
      | Return (Ok path, m) \<Rightarrow>
          let level = reached_level path
          in if level > target \<and> (boundary AND (bytes_in (size_at level) - 1)) \<noteq> 0
             then ktry (walk root boundary target True) (\<lambda>_. mm_ok ()) m
             else mm_ok () m)"

definition remove_leaf :: "paddr_t \<Rightarrow> vaddr_t \<Rightarrow> mapping_info mm" where
  "remove_leaf root va =
     (if \<not> valid va then mm_fail INVALID_ADDRESS
      else ktry (walk root va 1 False) (\<lambda>path m.
        let level = reached_level path;
            slot = slots path level
        in if \<not> present (mem m slot) then mm_fail NOT_MAPPED m
           else
             let removed = \<lparr>mp_frame = pte_address (mem m slot), mp_offset = 0,
                            mp_size = size_at level, mp_prot = pte_prot (mem m slot)\<rparr>;
                 m = replace slot 0 va m
             in obind (prune path level va m) (mm_ok removed)))"

section \<open>Ranges\<close>

text \<open>
  The loop of \<^verbatim>\<open>for_each_leaf\<close>. The guard makes \<open>step\<close> divide \<open>len\<close>, so the loop runs
  \<open>len div step\<close> times and its offsets are the multiples of \<open>step\<close>.
\<close>

fun leaf_loop :: "(vaddr_t \<Rightarrow> u64 \<Rightarrow> page_size \<Rightarrow> unit mm) \<Rightarrow> vaddr_t \<Rightarrow> u64 \<Rightarrow> page_size \<Rightarrow> nat \<Rightarrow> nat \<Rightarrow> unit mm"
where
  "leaf_loop fn va step psize i 0 m = mm_ok () m"
| "leaf_loop fn va step psize i (Suc n) m =
     ktry (fn (va + of_nat i * step) (of_nat i * step) psize)
       (\<lambda>_. leaf_loop fn va step psize (i + 1) n) m"

definition for_each_leaf ::
  "vaddr_t \<Rightarrow> u64 \<Rightarrow> page_size \<Rightarrow> (vaddr_t \<Rightarrow> u64 \<Rightarrow> page_size \<Rightarrow> unit mm) \<Rightarrow> unit mm" where
  "for_each_leaf va len psize fn m =
     (let psize = leaf_size (feats m) psize;
          step = bytes_in psize
      in if len = 0 \<or> len mod step \<noteq> 0 then mm_fail INVALID_ADDRESS m
         else leaf_loop fn va step psize 0 (unat (len div step)) m)"

definition map_range ::
  "paddr_t \<Rightarrow> vaddr_t \<Rightarrow> paddr_t \<Rightarrow> u64 \<Rightarrow> page_size \<Rightarrow> page_prot \<Rightarrow> unit mm" where
  "map_range root va pa len psize p =
     for_each_leaf va len psize (\<lambda>lf offset leaf_sz. map_leaf root lf (pa + offset) leaf_sz p)"

definition protect_range :: "paddr_t \<Rightarrow> vaddr_t \<Rightarrow> u64 \<Rightarrow> page_size \<Rightarrow> page_prot \<Rightarrow> unit mm" where
  "protect_range root va len psize p =
     for_each_leaf va len psize (\<lambda>lf _ leaf_sz. protect_leaf root lf leaf_sz p)"

text \<open>
  The removal loop of \<^verbatim>\<open>unmap_range\<close>. Every removed leaf is at least one frame long, so one
  unit of fuel per frame of the range is enough.
\<close>

fun unmap_loop ::
  "nat \<Rightarrow> paddr_t \<Rightarrow> vaddr_t \<Rightarrow> u64 \<Rightarrow> u64 \<Rightarrow> (mapping_info \<Rightarrow> machine \<Rightarrow> machine outcome) \<Rightarrow> unit mm" where
  "unmap_loop 0 root va len offset on_removed m =
     (if offset < len then Panic ''unmap_range: out of fuel'' else mm_ok () m)"
| "unmap_loop (Suc fuel) root va len offset on_removed m =
     (if offset < len then
        ktry (remove_leaf root (va + offset)) (\<lambda>removed m.
          obind (on_removed removed m)
            (unmap_loop fuel root va len (offset + bytes_in (mp_size removed)) on_removed)) m
      else mm_ok () m)"

definition unmap_range ::
  "paddr_t \<Rightarrow> vaddr_t \<Rightarrow> u64 \<Rightarrow> page_size \<Rightarrow> (mapping_info \<Rightarrow> machine \<Rightarrow> machine outcome) \<Rightarrow> unit mm" where
  "unmap_range root va len psize on_removed m =
     (let psize = leaf_size (feats m) psize
      in ktry (validate va psize 0) (\<lambda>target.
           let end_a = va + len
           in if len = 0 \<or> len mod bytes_in psize \<noteq> 0 \<or> end_a - 1 < va \<or> \<not> valid (end_a - 1)
              then mm_fail INVALID_ADDRESS
              else ktry (split_at root va target) (\<lambda>_.
                   ktry (if end_a > va \<and> valid end_a then split_at root end_a target else mm_ok ())
                     (\<lambda>_. unmap_loop (unat len div 4096 + 1) root va len 0 on_removed))) m)"

definition translate :: "paddr_t \<Rightarrow> vaddr_t \<Rightarrow> mapping_info mm" where
  "translate root va =
     (if \<not> valid va then mm_fail INVALID_ADDRESS
      else ktry (walk root va 1 False) (\<lambda>path m.
        let level = reached_level path;
            pte = mem m (slots path level)
        in if \<not> present pte then mm_fail NOT_MAPPED m
           else
             let psize = size_at level
             in mm_ok \<lparr>mp_frame = pte_address pte, mp_offset = va AND (bytes_in psize - 1),
                       mp_size = psize, mp_prot = pte_prot pte\<rparr> m))"

section \<open>One step of the walk\<close>

lemma walk_from_descend:
  assumes "level = Suc l" "level \<noteq> target" "slot = slot_at table (pt_index level va)"
    and "present (mem m slot)" "\<not> leaf (mem m slot) level"
  shows "walk_from va target allocate level table path m =
    walk_from va target allocate l (pte_address (mem m slot))
      \<lparr>slots = (slots path)(level := slot), tables = (tables path)(level := table),
       reached_level = level\<rparr> m"
  using assms by (simp add: Let_def)

lemma ktry_Return [simp]:
  "op m = Return (Ok x, m') \<Longrightarrow> ktry op f m = f x m'"
  "op m = Return (Err e, m') \<Longrightarrow> ktry op f m = Return (Err e, m')"
  by (simp_all add: ktry_def)

lemma ktry_mm [simp]: "ktry (mm_ok x) f m = f x m" "ktry (mm_fail e) f m = Return (Err e, m)"
  by (simp_all add: ktry_def mm_ok_def mm_fail_def)

lemma ktry_Ok_iff:
  "ktry op f m = Return (Ok y, m'') \<longleftrightarrow> (\<exists>x m'. op m = Return (Ok x, m') \<and> f x m' = Return (Ok y, m''))"
  by (auto simp: ktry_def split: outcome.splits sum.splits)

lemma mm_ok_iff [simp]: "mm_ok x m = Return (r, m') \<longleftrightarrow> r = Ok x \<and> m' = m"
  by (auto simp: mm_ok_def)

lemma mm_fail_iff [simp]: "mm_fail e m = Return (r, m') \<longleftrightarrow> r = Err e \<and> m' = m"
  by (auto simp: mm_fail_def)

end
