(* ===== verification/Mmu.thy ===== *)
theory Mmu
  imports Radix
begin

text \<open>
  \<^verbatim>\<open>arch/x86_64/mmu/mmu.cpp\<close>, \<^verbatim>\<open>features.cpp\<close> and \<^verbatim>\<open>tlb.cpp\<close>: detecting the paging
  features, building the kernel address space in the statically allocated tables and
  protecting the kernel image. The addresses of the static tables and of the linker
  symbols are the record \<open>image_layout\<close>; the processor's registers and \<^verbatim>\<open>cpuid\<close> are the
  record \<open>cpu\<close> and a function argument.
\<close>

definition DIRECT_MAP_BASE :: vaddr_t where "DIRECT_MAP_BASE = 0xffff800000000000"
definition DIRECT_MAP_SIZE :: u64 where "DIRECT_MAP_SIZE = 0x400000000"
definition MMIO_MAP_BASE :: vaddr_t where "MMIO_MAP_BASE = 0xffff808000000000"
definition MMIO_MAP_SIZE :: u64 where "MMIO_MAP_SIZE = 0x8000000000"
definition VMALLOC_BASE :: vaddr_t where "VMALLOC_BASE = 0xffffc00000000000"
definition VMALLOC_SIZE :: u64 where "VMALLOC_SIZE = 0x8000000000"
definition KERNEL_BASE :: vaddr_t where "KERNEL_BASE = 0xffffffff80000000"

definition PAGE_4K :: u64 where "PAGE_4K = bytes_in SIZE_4K"
definition PAGE_2M :: u64 where "PAGE_2M = bytes_in SIZE_2M"
definition PAGE_1G :: u64 where "PAGE_1G = bytes_in SIZE_1G"
definition DIRECT_PD_COUNT :: nat where "DIRECT_PD_COUNT = unat (DIRECT_MAP_SIZE div PAGE_1G)"

definition phy_to_vrt :: "paddr_t \<Rightarrow> vaddr_t option" where
  "phy_to_vrt phys = (if phys < DIRECT_MAP_SIZE then Some (DIRECT_MAP_BASE + phys) else None)"

section \<open>Processor state, features and the TLB\<close>

record cpuid_result =
  c_eax :: u32
  c_ebx :: u32
  c_ecx :: u32
  c_edx :: u32

record cpu =
  cr0 :: u64
  cr3 :: u64
  cr4 :: u64
  efer :: u64
  tlb_global_flushes :: nat
  tlb_flushes :: nat

definition CR0_WRITE_PROTECT :: u64 where "CR0_WRITE_PROTECT = push_bit 16 1"
definition CR4_PAGE_GLOBAL_ENABLE :: u64 where "CR4_PAGE_GLOBAL_ENABLE = push_bit 7 1"
definition EFER_NO_EXECUTE_ENABLE :: u64 where "EFER_NO_EXECUTE_ENABLE = push_bit 11 1"

definition CPUID_BASE :: u32 where "CPUID_BASE = 0x00000001"
definition CPUID_EXTENDED_MAX :: u32 where "CPUID_EXTENDED_MAX = 0x80000000"
definition CPUID_EXTENDED_FEATURES :: u32 where "CPUID_EXTENDED_FEATURES = 0x80000001"
definition EDX_PAGE_GLOBAL_ENABLE :: u32 where "EDX_PAGE_GLOBAL_ENABLE = push_bit 13 1"
definition EDX_NO_EXECUTE :: u32 where "EDX_NO_EXECUTE = push_bit 20 1"
definition EDX_GIB_PAGES :: u32 where "EDX_GIB_PAGES = push_bit 26 1"

definition enable_paging_features ::
  "(u32 \<Rightarrow> cpuid_result) \<Rightarrow> features \<times> cpu \<Rightarrow> features \<times> cpu" where
  "enable_paging_features cpuid fc =
     (let (ft, c) = fc;
          extended_max = c_eax (cpuid CPUID_EXTENDED_MAX);
          extended_edx = (if extended_max \<ge> CPUID_EXTENDED_FEATURES
                          then c_edx (cpuid CPUID_EXTENDED_FEATURES) else 0);
          nx_supported = ((extended_edx AND EDX_NO_EXECUTE) \<noteq> 0);
          global_pages_supported = ((c_edx (cpuid CPUID_BASE) AND EDX_PAGE_GLOBAL_ENABLE) \<noteq> 0);
          (ft, c) = (if nx_supported
                     then (ft\<lparr>nx_enabled := True\<rparr>, c\<lparr>efer := efer c OR EFER_NO_EXECUTE_ENABLE\<rparr>)
                     else (ft, c));
          (ft, c) = (if global_pages_supported
                     then (ft\<lparr>global_pages_enabled := True\<rparr>, c\<lparr>cr4 := cr4 c OR CR4_PAGE_GLOBAL_ENABLE\<rparr>)
                     else (ft, c))
      in (ft\<lparr>gib_pages_supported := (extended_edx AND EDX_GIB_PAGES) \<noteq> 0\<rparr>, c))"

text \<open>
  Reloading \<^verbatim>\<open>cr3\<close> drops the non-global translations; clearing and setting the global
  enable bit of \<^verbatim>\<open>cr4\<close> drops all of them.
\<close>

definition write_cr3 :: "u64 \<Rightarrow> cpu \<Rightarrow> cpu" where
  "write_cr3 v c = c\<lparr>cr3 := v, tlb_flushes := tlb_flushes c + 1\<rparr>"

definition write_cr4 :: "u64 \<Rightarrow> cpu \<Rightarrow> cpu" where
  "write_cr4 v c =
     c\<lparr>cr4 := v,
       tlb_global_flushes := tlb_global_flushes c +
         (if (cr4 c AND CR4_PAGE_GLOBAL_ENABLE) \<noteq> (v AND CR4_PAGE_GLOBAL_ENABLE) then 1 else 0)\<rparr>"

definition flush_all :: "cpu \<Rightarrow> cpu" where
  "flush_all c = write_cr3 (cr3 c) c"

definition flush_all_global :: "cpu \<Rightarrow> cpu" where
  "flush_all_global c =
     (let v = cr4 c
      in if (v AND CR4_PAGE_GLOBAL_ENABLE) = 0 then flush_all c
         else write_cr4 v (write_cr4 (v AND NOT CR4_PAGE_GLOBAL_ENABLE) c))"

section \<open>Building the kernel address space\<close>

record image_layout =
  pml4 :: paddr_t
  kernel_pdpt :: paddr_t
  kernel_pd :: paddr_t
  direct_pdpt :: paddr_t
  direct_pds :: paddr_t
  physical_end :: u64
  text_start :: vaddr_t
  text_end :: vaddr_t
  rodata_start :: vaddr_t
  rodata_end :: vaddr_t
  data_rel_ro_start :: vaddr_t
  kernel_end_sym :: vaddr_t

text \<open>The \<open>i\<close>-th static page directory of the direct map; the tables are contiguous.\<close>

definition direct_pd :: "image_layout \<Rightarrow> nat \<Rightarrow> paddr_t" where
  "direct_pd il i = direct_pds il + of_nat i * PAGE_4K"

definition kernel_window_size :: "image_layout \<Rightarrow> u64" where
  "kernel_window_size il = align_up (physical_end il) PAGE_2M"

definition set_entry :: "paddr_t \<Rightarrow> nat \<Rightarrow> u64 \<Rightarrow> machine \<Rightarrow> machine" where
  "set_entry table i v m = m\<lparr>mem := (mem m)(slot_at table i := v)\<rparr>"

definition link_tables :: "image_layout \<Rightarrow> machine \<Rightarrow> machine" where
  "link_tables il m =
     (let m = set_entry (pml4 il) 0 0 m;
          m = set_entry (pml4 il) (pt_index 4 KERNEL_BASE) (table_entry (kernel_pdpt il)) m;
          m = set_entry (kernel_pdpt il) (pt_index 3 KERNEL_BASE) (table_entry (kernel_pd il)) m;
          m = set_entry (pml4 il) (pt_index 4 DIRECT_MAP_BASE) (table_entry (direct_pdpt il)) m
      in fold (\<lambda>i. set_entry (direct_pdpt il) i (table_entry (direct_pd il i))) [0..<DIRECT_PD_COUNT] m)"

text \<open>
  \<^verbatim>\<open>fill_2m\<close> steps by \<^verbatim>\<open>PAGE_2M\<close> while the offset is below the length: one step per started
  2 MiB.
\<close>

definition steps_2m :: "u64 \<Rightarrow> nat" where
  "steps_2m len = (unat len + (2 ^ 21 - 1)) div 2 ^ 21"

definition fill_2m :: "paddr_t \<Rightarrow> vaddr_t \<Rightarrow> paddr_t \<Rightarrow> u64 \<Rightarrow> page_prot \<Rightarrow> machine \<Rightarrow> machine" where
  "fill_2m pd va pa len p m =
     fold (\<lambda>i m. let offset = of_nat i * PAGE_2M
                 in set_entry pd (pt_index 2 (va + offset)) (leaf_entry (feats m) (pa + offset) SIZE_2M p) m)
       [0..<steps_2m len] m"

definition fill_direct_region :: "image_layout \<Rightarrow> memory_region \<Rightarrow> machine \<Rightarrow> machine" where
  "fill_direct_region il region m =
     (if mr_kind region = DEFECTIVE \<or> mr_length region = 0 \<or> mr_base region \<ge> DIRECT_MAP_SIZE then m
      else
        let end_a = (if mr_length region > DIRECT_MAP_SIZE - mr_base region then DIRECT_MAP_SIZE
                     else mr_base region + mr_length region);
            first = align_down (mr_base region) PAGE_2M;
            lst = align_up end_a PAGE_2M
        in fold (\<lambda>i. let pa = first + of_nat i * PAGE_2M
                     in fill_2m (direct_pd il (unat (pa div PAGE_1G))) (DIRECT_MAP_BASE + pa) pa PAGE_2M
                          KERNEL_DATA)
             [0..<steps_2m (lst - first)] m)"

definition fill_direct_map :: "image_layout \<Rightarrow> boot_info \<Rightarrow> machine \<Rightarrow> machine" where
  "fill_direct_map il boot m = fold (fill_direct_region il) (v_contents (memory_map boot)) m"

definition protect_region :: "paddr_t \<Rightarrow> vaddr_t \<Rightarrow> vaddr_t \<Rightarrow> page_prot \<Rightarrow> unit mm" where
  "protect_region root first lst p =
     (let start = align_down first PAGE_4K;
          end_a = align_up lst PAGE_4K
      in protect_range root start (end_a - start) SIZE_4K p)"

abbreviation ignore_removed :: "mapping_info \<Rightarrow> machine \<Rightarrow> machine outcome" where
  "ignore_removed \<equiv> (\<lambda>_. Return)"

definition protect_image :: "image_layout \<Rightarrow> paddr_t \<Rightarrow> unit mm" where
  "protect_image il root =
     ktry (protect_region root (data_rel_ro_start il) (kernel_end_sym il) KERNEL_DATA) (\<lambda>_.
     ktry (protect_region root (rodata_start il) (rodata_end il) KERNEL_RODATA) (\<lambda>_.
     ktry (protect_region root (text_start il) (text_end il) KERNEL_TEXT) (\<lambda>_.
       let image_first = align_down (text_start il) PAGE_4K;
           image_last = align_up (kernel_end_sym il) PAGE_4K;
           window_last = KERNEL_BASE + kernel_window_size il
       in ktry (if image_first > KERNEL_BASE
                then unmap_range root KERNEL_BASE (image_first - KERNEL_BASE) SIZE_4K ignore_removed
                else mm_ok ()) (\<lambda>_.
          ktry (if window_last > image_last
                then unmap_range root image_last (window_last - image_last) SIZE_4K ignore_removed
                else mm_ok ()) (\<lambda>_. mm_ok ())))))"

text \<open>The component: the new root of the kernel space is returned with the result.\<close>

definition init_kernel_space ::
  "(u32 \<Rightarrow> cpuid_result) \<Rightarrow> image_layout \<Rightarrow> boot_info \<Rightarrow> machine \<times> cpu \<Rightarrow>
     (init_result \<times> machine \<times> cpu) outcome" where
  "init_kernel_space cpuid il boot mc =
     (let (m, c) = mc;
          (ft, c) = enable_paging_features cpuid (feats m, c);
          m = m\<lparr>feats := ft\<rparr>;
          m = link_tables il m;
          m = fill_2m (kernel_pd il) KERNEL_BASE 0 (kernel_window_size il) (WRITE OR EXEC OR GLOBAL) m;
          m = fill_direct_map il boot m;
          root = pml4 il;
          c = write_cr3 root c
      in case protect_image il root m of
           Panic msg \<Rightarrow> Panic msg
         | Return (Err _, m) \<Rightarrow> Return (Err NO_USABLE_MEMORY, m, c)
         | Return (Ok _, m) \<Rightarrow>
             let c = flush_all_global c;
                 c = c\<lparr>cr0 := cr0 c OR CR0_WRITE_PROTECT\<rparr>
             in Return (Ok (), m, c))"

end
