(* ===== verification/Vmm.thy ===== *)
theory Vmm
  imports Mmu
begin

text \<open>
  \<^verbatim>\<open>kernel/mm/vmm.cpp\<close>: kernel virtual allocations in the \<^verbatim>\<open>VMALLOC\<close> window, kept in an
  address-ordered array with a guard page after every allocation, and the MMIO window.
  \<open>root\<close> is the root of the kernel address space. The file's lock only serialises callers.
\<close>

definition MAX_ALLOCATIONS :: nat where "MAX_ALLOCATIONS = 1024"

record allocation =
  a_base :: vaddr_t
  a_bytes :: u64

record vmm =
  m_allocations :: "allocation list"
  m_count :: nat

definition vmm_boot_state :: vmm where
  "vmm_boot_state = \<lparr>m_allocations = replicate MAX_ALLOCATIONS \<lparr>a_base = 0, a_bytes = 0\<rparr>, m_count = 0\<rparr>"

definition gap_start :: "vmm \<Rightarrow> nat \<Rightarrow> vaddr_t" where
  "gap_start v index =
     (if index = 0 then VMALLOC_BASE
      else let previous = m_allocations v ! (index - 1)
           in a_base previous + a_bytes previous + FRAME_SIZE)"

definition gap_end :: "vmm \<Rightarrow> nat \<Rightarrow> vaddr_t" where
  "gap_end v index =
     (if index = m_count v then VMALLOC_BASE + VMALLOC_SIZE else a_base (m_allocations v ! index))"

fun find_gap_loop :: "vmm \<Rightarrow> u64 \<Rightarrow> nat \<Rightarrow> nat \<Rightarrow> nat option" where
  "find_gap_loop v bytes index 0 = None"
| "find_gap_loop v bytes index (Suc n) =
     (if gap_end v index - gap_start v index \<ge> bytes + FRAME_SIZE then Some index
      else find_gap_loop v bytes (index + 1) n)"

definition find_gap :: "vmm \<Rightarrow> u64 \<Rightarrow> (nat, mm_error) result" where
  "find_gap v bytes =
     (if m_count v = MAX_ALLOCATIONS then Err OUT_OF_MEMORY
      else case find_gap_loop v bytes 0 (m_count v + 1) of
             Some index \<Rightarrow> Ok index
           | None \<Rightarrow> Err OUT_OF_MEMORY)"

definition vmm_insert :: "nat \<Rightarrow> allocation \<Rightarrow> vmm \<Rightarrow> vmm" where
  "vmm_insert index e v =
     (let as = fold (\<lambda>i as. as[i := as ! (i - 1)]) (rev [index + 1..<m_count v + 1]) (m_allocations v)
      in v\<lparr>m_allocations := as[index := e], m_count := m_count v + 1\<rparr>)"

definition vmm_erase :: "nat \<Rightarrow> vmm \<Rightarrow> vmm" where
  "vmm_erase index v =
     (let as = fold (\<lambda>i as. as[i - 1 := as ! i]) [index + 1..<m_count v] (m_allocations v)
      in v\<lparr>m_allocations := as, m_count := m_count v - 1\<rparr>)"

definition free_removed :: "mapping_info \<Rightarrow> machine \<Rightarrow> machine outcome" where
  "free_removed removed m =
     obind (pmm_free (mp_size removed) (mp_frame removed) (m_pmm m)) (\<lambda>p. Return (m\<lparr>m_pmm := p\<rparr>))"

definition vmm_release :: "paddr_t \<Rightarrow> vaddr_t \<Rightarrow> u64 \<Rightarrow> machine \<Rightarrow> machine outcome" where
  "vmm_release root base bytes m =
     (if bytes = 0 then Return m
      else case unmap_range root base bytes SIZE_4K free_removed m of
             Panic msg \<Rightarrow> Panic msg
           | Return (Err _, m) \<Rightarrow> Panic ''vmm: allocation at {:#018X} is not fully mapped''
           | Return (Ok _, m) \<Rightarrow> Return m)"

text \<open>\<^verbatim>\<open>back\<close>: \<open>i\<close> frames are mapped, \<open>n\<close> are left; \<open>bytes\<close> is a multiple of the frame size.\<close>

fun back_loop :: "paddr_t \<Rightarrow> vaddr_t \<Rightarrow> page_prot \<Rightarrow> nat \<Rightarrow> nat \<Rightarrow> unit mm" where
  "back_loop root base p i 0 m = mm_ok () m"
| "back_loop root base p i (Suc n) m =
     (let offset = of_nat i * FRAME_SIZE
      in case pmm_alloc SIZE_4K (m_pmm m) of
           Panic msg \<Rightarrow> Panic msg
         | Return (Err e, pm) \<Rightarrow>
             obind (vmm_release root base offset (m\<lparr>m_pmm := pm\<rparr>)) (mm_fail e)
         | Return (Ok frame, pm) \<Rightarrow>
             (case map_range root (base + offset) frame FRAME_SIZE SIZE_4K p (m\<lparr>m_pmm := pm\<rparr>) of
                Panic msg \<Rightarrow> Panic msg
              | Return (Err e, m) \<Rightarrow>
                  obind (pmm_free SIZE_4K frame (m_pmm m)) (\<lambda>pm.
                  obind (vmm_release root base offset (m\<lparr>m_pmm := pm\<rparr>)) (mm_fail e))
              | Return (Ok _, m) \<Rightarrow> back_loop root base p (i + 1) n m))"

definition vmm_back :: "paddr_t \<Rightarrow> vaddr_t \<Rightarrow> u64 \<Rightarrow> page_prot \<Rightarrow> unit mm" where
  "vmm_back root base bytes p = back_loop root base p 0 (unat (bytes div FRAME_SIZE))"

section \<open>Interface\<close>

type_synonym vmm_machine = "vmm \<times> machine"

definition vmm_alloc :: "paddr_t \<Rightarrow> u64 \<Rightarrow> page_prot \<Rightarrow> vmm_machine \<Rightarrow>
    ((vaddr_t, mm_error) result \<times> vmm_machine) outcome" where
  "vmm_alloc root bytes p vm =
     (let (v, m) = vm
      in if bytes = 0 \<or> bytes > VMALLOC_SIZE then Return (Err INVALID_ADDRESS, v, m)
         else
           let sz = align_up bytes FRAME_SIZE
           in case find_gap v sz of
                Err e \<Rightarrow> Return (Err e, v, m)
              | Ok index \<Rightarrow>
                  let base = gap_start v index
                  in case vmm_back root base sz p m of
                       Panic msg \<Rightarrow> Panic msg
                     | Return (Err e, m) \<Rightarrow> Return (Err e, v, m)
                     | Return (Ok _, m) \<Rightarrow>
                         Return (Ok base, vmm_insert index \<lparr>a_base = base, a_bytes = sz\<rparr> v, m))"

fun free_search :: "paddr_t \<Rightarrow> vaddr_t \<Rightarrow> u64 \<Rightarrow> nat \<Rightarrow> nat \<Rightarrow> vmm_machine \<Rightarrow>
    ((unit, mm_error) result \<times> vmm_machine) outcome" where
  "free_search root base bytes index 0 vm = Return (Err INVALID_ADDRESS, vm)"
| "free_search root base bytes index (Suc n) vm =
     (let (v, m) = vm;
          e = m_allocations v ! index
      in if a_base e \<noteq> base then free_search root base bytes (index + 1) n vm
         else if a_bytes e \<noteq> align_up bytes FRAME_SIZE then Return (Err INVALID_ADDRESS, vm)
         else obind (vmm_release root (a_base e) (a_bytes e) m)
                (\<lambda>m. Return (Ok (), vmm_erase index v, m)))"

definition vmm_free :: "paddr_t \<Rightarrow> vaddr_t \<Rightarrow> u64 \<Rightarrow> vmm_machine \<Rightarrow>
    ((unit, mm_error) result \<times> vmm_machine) outcome" where
  "vmm_free root ptr bytes vm = free_search root ptr bytes 0 (m_count (fst vm)) vm"

fun protect_search :: "paddr_t \<Rightarrow> vaddr_t \<Rightarrow> vaddr_t \<Rightarrow> page_prot \<Rightarrow> nat \<Rightarrow> nat \<Rightarrow> vmm_machine \<Rightarrow>
    ((unit, mm_error) result \<times> vmm_machine) outcome" where
  "protect_search root first lst p index 0 vm = Return (Err INVALID_ADDRESS, vm)"
| "protect_search root first lst p index (Suc n) vm =
     (let (v, m) = vm;
          e = m_allocations v ! index
      in if first \<ge> a_base e \<and> lst \<le> a_base e + a_bytes e
         then obind (protect_range root first (lst - first) SIZE_4K p m) (\<lambda>(r, m). Return (r, v, m))
         else protect_search root first lst p (index + 1) n vm)"

definition vmm_protect :: "paddr_t \<Rightarrow> vaddr_t \<Rightarrow> u64 \<Rightarrow> page_prot \<Rightarrow> vmm_machine \<Rightarrow>
    ((unit, mm_error) result \<times> vmm_machine) outcome" where
  "vmm_protect root ptr bytes p vm =
     (let first = ptr;
          lst = align_up (first + bytes) FRAME_SIZE
      in if bytes = 0 \<or> (first AND (FRAME_SIZE - 1)) \<noteq> 0 \<or> lst \<le> first
         then Return (Err INVALID_ADDRESS, vm)
         else protect_search root first lst p 0 (m_count (fst vm)) vm)"

definition vrt_to_phy :: "paddr_t \<Rightarrow> vaddr_t \<Rightarrow> mapping_info mm" where
  "vrt_to_phy root va = translate root va"

definition map_mmio :: "paddr_t \<Rightarrow> paddr_t \<Rightarrow> u64 \<Rightarrow> vaddr_t mm" where
  "map_mmio root pa bytes =
     (if bytes = 0 \<or> pa \<ge> MMIO_MAP_SIZE \<or> bytes > MMIO_MAP_SIZE - pa then mm_fail INVALID_ADDRESS
      else
        let first = align_down pa FRAME_SIZE;
            lst = align_up (pa + bytes) FRAME_SIZE
        in ktry (map_range root (MMIO_MAP_BASE + first) first (lst - first) SIZE_4K MMIO)
             (\<lambda>_. mm_ok (MMIO_MAP_BASE + pa)))"

end
