(* ===== verification/Vmm_Correct.thy ===== *)
theory Vmm_Correct
  imports Vmm Pmm_Service
begin

text \<open>
  The allocation table of the virtual memory manager. \<open>spaced\<close> says that the ranges are
  page aligned, in address order, inside the window and each followed by an unmapped
  guard page. Allocation and release keep it and change exactly one range.
\<close>

section \<open>Layout constants\<close>

lemma window_values [layout]:
  "unat VMALLOC_BASE = 0xffffc00000000000" "unat VMALLOC_SIZE = 0x8000000000"
  "unat (VMALLOC_BASE + VMALLOC_SIZE) = 0xffffc08000000000" "unat FRAME_SIZE = 4096"
  by (simp_all add: VMALLOC_BASE_def VMALLOC_SIZE_def FRAME_SIZE_eq)

abbreviation window_first :: nat where "window_first \<equiv> 0xffffc00000000000"
abbreviation window_last :: nat where "window_last \<equiv> 0xffffc08000000000"

section \<open>Spaced ranges\<close>

fun spaced :: "nat \<Rightarrow> (nat \<times> nat) list \<Rightarrow> nat \<Rightarrow> bool" where
  "spaced lo [] hi \<longleftrightarrow> lo \<le> hi"
| "spaced lo ((b, n) # rs) hi \<longleftrightarrow>
     lo \<le> b \<and> 4096 dvd b \<and> 4096 dvd n \<and> 0 < n \<and> spaced (b + n + 4096) rs hi"

definition after_range :: "nat \<Rightarrow> (nat \<times> nat) list \<Rightarrow> nat" where
  "after_range lo rs = (if rs = [] then lo else fst (last rs) + snd (last rs) + 4096)"

lemma after_range_simps [simp]:
  "after_range lo [] = lo" "after_range lo (r # rs) = after_range (fst r + snd r + 4096) rs"
  by (simp_all add: after_range_def)

lemma spaced_append:
  "spaced lo (xs @ ys) hi \<longleftrightarrow> spaced lo xs (after_range lo xs) \<and> spaced (after_range lo xs) ys hi"
  by (induction lo xs hi rule: spaced.induct) auto

lemma spaced_le: "spaced lo rs hi \<Longrightarrow> lo \<le> hi"
  by (induction lo rs hi rule: spaced.induct) auto

lemma spaced_after_le: "spaced lo rs hi \<Longrightarrow> after_range lo rs \<le> hi"
  by (induction lo rs hi rule: spaced.induct) auto

lemma spaced_mono: "spaced lo rs hi \<Longrightarrow> lo' \<le> lo \<Longrightarrow> hi \<le> hi' \<Longrightarrow> spaced lo' rs hi'"
  by (induction lo rs hi arbitrary: lo' rule: spaced.induct) auto

lemma after_range_aligned: "spaced lo rs hi \<Longrightarrow> 4096 dvd lo \<Longrightarrow> 4096 dvd after_range lo rs"
  by (induction lo rs hi rule: spaced.induct) auto

lemma spaced_bounds:
  assumes "spaced lo rs hi" "(b, n) \<in> set rs"
  shows "lo \<le> b" "b + n + 4096 \<le> hi" "4096 dvd b" "4096 dvd n" "0 < n"
  using assms by (induction lo rs hi rule: spaced.induct) (auto dest: spaced_le)

lemma spaced_insert:
  assumes "spaced lo (xs @ ys) hi" "4096 dvd lo" "4096 dvd n" "0 < n"
    and "after_range lo xs + n + 4096 \<le> (case ys of [] \<Rightarrow> hi | r # _ \<Rightarrow> fst r)"
  shows "spaced lo (xs @ (after_range lo xs, n) # ys) hi"
proof -
  have s: "spaced lo xs (after_range lo xs)" "spaced (after_range lo xs) ys hi"
    using assms(1) by (simp_all add: spaced_append)
  have "4096 dvd after_range lo xs" using after_range_aligned [OF s(1) assms(2)] .
  moreover have "spaced (after_range lo xs + n + 4096) ys hi"
    using s(2) assms(5) by (cases ys) auto
  ultimately show ?thesis using s(1) assms(3,4) by (simp add: spaced_append)
qed

lemma spaced_remove:
  assumes "spaced lo (xs @ (b, n) # ys) hi"
  shows "spaced lo (xs @ ys) hi"
proof -
  have "spaced lo xs (after_range lo xs)" "after_range lo xs \<le> b" "spaced (b + n + 4096) ys hi"
    using assms by (auto simp: spaced_append)
  then show ?thesis by (auto simp: spaced_append elim: spaced_mono)
qed

lemma spaced_apart:
  assumes "spaced lo (xs @ (b, n) # ys) hi" "(c, k) \<in> set (xs @ ys)"
  shows "c + k + 4096 \<le> b \<or> b + n + 4096 \<le> c"
proof (cases "(c, k) \<in> set xs")
  case True
  have "spaced lo xs (after_range lo xs)" "after_range lo xs \<le> b"
    using assms(1) by (auto simp: spaced_append)
  then show ?thesis using spaced_bounds(2) [OF _ True] by fastforce
next
  case False
  have "spaced (b + n + 4096) ys hi" using assms(1) by (auto simp: spaced_append)
  then show ?thesis using spaced_bounds(1) [of "b + n + 4096" ys hi c k] False assms(2) by auto
qed

section \<open>The table\<close>

definition vmm_ranges :: "vmm \<Rightarrow> (nat \<times> nat) list" where
  "vmm_ranges v = map (\<lambda>e. (unat (a_base e), unat (a_bytes e))) (take (m_count v) (m_allocations v))"

definition vmm_inv :: "vmm \<Rightarrow> bool" where
  "vmm_inv v \<longleftrightarrow> length (m_allocations v) = 1024 \<and> m_count v \<le> 1024 \<and>
     spaced window_first (vmm_ranges v) window_last"

lemma vmm_boot_inv: "vmm_inv vmm_boot_state" "vmm_ranges vmm_boot_state = []"
  by (simp_all add: vmm_inv_def vmm_ranges_def vmm_boot_state_def MAX_ALLOCATIONS_def)

lemma length_vmm_ranges: "vmm_inv v \<Longrightarrow> length (vmm_ranges v) = m_count v"
  by (simp add: vmm_ranges_def vmm_inv_def)

lemma nth_vmm_ranges:
  assumes "vmm_inv v" "i < m_count v"
  shows "vmm_ranges v ! i =
    (unat (a_base (m_allocations v ! i)), unat (a_bytes (m_allocations v ! i)))"
  using assms by (simp add: vmm_ranges_def vmm_inv_def)

lemma unat_gap_start:
  assumes inv: "vmm_inv v" and i: "i \<le> m_count v"
  shows "unat (gap_start v i) = after_range window_first (take i (vmm_ranges v))"
proof (cases i)
  case 0
  then show ?thesis by (simp add: gap_start_def layout)
next
  case (Suc k)
  let ?e = "m_allocations v ! k"
  have k: "k < m_count v" using i Suc by simp
  have r: "vmm_ranges v ! k = (unat (a_base ?e), unat (a_bytes ?e))"
    using inv k by (rule nth_vmm_ranges)
  have "vmm_ranges v ! k \<in> set (vmm_ranges v)" using length_vmm_ranges [OF inv] k by simp
  moreover have "spaced window_first (vmm_ranges v) window_last" using inv by (simp add: vmm_inv_def)
  ultimately have b: "unat (a_base ?e) + unat (a_bytes ?e) + 4096 \<le> window_last"
    using spaced_bounds(2) unfolding r by blast
  have "unat (gap_start v i) = unat (a_base ?e) + unat (a_bytes ?e) + 4096"
  proof -
    have "unat (a_base ?e + a_bytes ?e) = unat (a_base ?e) + unat (a_bytes ?e)"
      using b by (intro unat_plus_small) simp
    then show ?thesis
      using b unat_plus_small [of "a_base ?e + a_bytes ?e" FRAME_SIZE] Suc
      by (simp add: gap_start_def Let_def window_values)
  qed
  moreover have "take i (vmm_ranges v) = take k (vmm_ranges v) @ [vmm_ranges v ! k]"
    using Suc k length_vmm_ranges [OF inv] by (simp add: take_Suc_conv_app_nth)
  ultimately show ?thesis by (simp add: after_range_def r)
qed

lemma unat_gap_end:
  assumes "vmm_inv v" "i \<le> m_count v"
  shows "unat (gap_end v i) = (case drop i (vmm_ranges v) of [] \<Rightarrow> window_last | r # _ \<Rightarrow> fst r)"
proof (cases "i = m_count v")
  case True
  then show ?thesis using length_vmm_ranges [OF assms(1)] by (simp add: gap_end_def window_values)
next
  case False
  then have "i < m_count v" using assms(2) by simp
  then have "drop i (vmm_ranges v) = vmm_ranges v ! i # drop (Suc i) (vmm_ranges v)"
    using length_vmm_ranges [OF assms(1)] by (simp add: Cons_nth_drop_Suc)
  then show ?thesis
    using False nth_vmm_ranges [OF assms(1) \<open>i < m_count v\<close>] by (simp add: gap_end_def)
qed

lemma gap_order:
  assumes "vmm_inv v" "i \<le> m_count v"
  shows "unat (gap_start v i) \<le> unat (gap_end v i)" "unat (gap_end v i) \<le> window_last"
proof -
  have s: "spaced (after_range window_first (take i (vmm_ranges v))) (drop i (vmm_ranges v)) window_last"
    using assms(1) spaced_append [of window_first "take i (vmm_ranges v)" "drop i (vmm_ranges v)"]
    by (simp add: vmm_inv_def)
  show "unat (gap_start v i) \<le> unat (gap_end v i)" "unat (gap_end v i) \<le> window_last"
    unfolding unat_gap_start [OF assms] unat_gap_end [OF assms]
    using s spaced_le [of _ "drop i (vmm_ranges v)" window_last]
    by (auto split: list.splits dest: spaced_le)
qed

lemma find_gap_loop_Some:
  "find_gap_loop v bytes index n = Some i \<Longrightarrow>
     index \<le> i \<and> i < index + n \<and> gap_end v i - gap_start v i \<ge> bytes + FRAME_SIZE"
  by (induction v bytes index n rule: find_gap_loop.induct) (auto split: if_splits)

lemma find_gap_loop_None:
  "find_gap_loop v bytes index n = None \<Longrightarrow> index \<le> i \<Longrightarrow> i < index + n \<Longrightarrow>
     \<not> gap_end v i - gap_start v i \<ge> bytes + FRAME_SIZE"
  by (induction v bytes index n rule: find_gap_loop.induct)
    (auto split: if_splits simp: le_eq_less_or_eq Suc_le_eq, metis Suc_lessI less_or_eq_imp_le)

lemma gap_fits:
  assumes inv: "vmm_inv v" and i: "i \<le> m_count v" and bytes: "unat bytes \<le> 2 ^ 40"
  shows "gap_end v i - gap_start v i \<ge> bytes + FRAME_SIZE \<longleftrightarrow>
    unat (gap_start v i) + unat bytes + 4096 \<le> unat (gap_end v i)"
proof -
  have "unat (bytes + FRAME_SIZE) = unat bytes + 4096"
    using bytes unat_plus_small [of bytes FRAME_SIZE] by (simp add: window_values)
  moreover have "unat (gap_end v i - gap_start v i) = unat (gap_end v i) - unat (gap_start v i)"
    using gap_order(1) [OF inv i] by (intro unat_minus_le) (simp add: word_le_nat_alt)
  ultimately show ?thesis
    using gap_order(1) [OF inv i] by (auto simp: word_le_nat_alt)
qed

section \<open>Insertion and removal\<close>

lemma length_shift:
  "length (fold (\<lambda>i ys. ys[i := ys ! (i - 1)]) is xs) = length xs"
  "length (fold (\<lambda>i ys. ys[i - 1 := ys ! i]) is xs) = length xs"
  by (induction "is" arbitrary: xs) auto

lemmas length_shift_simped [simp] = length_shift [simplified]

lemma take_vmm_insert:
  assumes "index \<le> m_count v" "m_count v < length (m_allocations v)"
  shows "take (m_count (vmm_insert index e v)) (m_allocations (vmm_insert index e v)) =
    take index (m_allocations v) @ e # drop index (take (m_count v) (m_allocations v))"
    (is "?l = ?r")
proof (rule nth_equalityI)
  let ?as = "fold (\<lambda>i as. as[i := as ! (i - 1)]) (rev [index + 1..<m_count v + 1]) (m_allocations v)"
  have len: "length ?as = length (m_allocations v)" by (rule length_shift)
  show "length ?l = length ?r"
    using assms by (simp add: vmm_insert_def Let_def len [simplified])
  fix i assume "i < length ?l"
  then have i: "i \<le> m_count v" using assms by (simp add: vmm_insert_def Let_def)
  have nth: "?as ! i = (if index + 1 \<le> i \<and> i < m_count v + 1 then m_allocations v ! (i - 1)
      else m_allocations v ! i)"
    using assms i by (intro shift_up_nth) auto
  have "?l ! i = (if i = index then e else ?as ! i)"
    using i assms len by (simp add: vmm_insert_def Let_def nth_list_update del: One_nat_def)
  also have "\<dots> = ?r ! i"
    unfolding nth using i assms
    by (cases i index rule: linorder_cases) (auto simp: nth_append nth_Cons' min_def)
  finally show "?l ! i = ?r ! i" .
qed

lemma take_vmm_erase:
  assumes "index < m_count v" "m_count v \<le> length (m_allocations v)"
  shows "take (m_count (vmm_erase index v)) (m_allocations (vmm_erase index v)) =
    take index (m_allocations v) @ drop (index + 1) (take (m_count v) (m_allocations v))"
    (is "?l = ?r")
proof (rule nth_equalityI)
  let ?as = "fold (\<lambda>i as. as[i - 1 := as ! i]) [index + 1..<m_count v] (m_allocations v)"
  have len: "length ?as = length (m_allocations v)" by (rule length_shift)
  have l: "?l = take (m_count v - 1) ?as" by (simp add: vmm_erase_def Let_def)
  show "length ?l = length ?r"
    unfolding l length_take len using assms by auto
  fix i assume "i < length ?l"
  then have i: "i < m_count v - 1" unfolding l length_take by simp
  have "?as ! i = (if index + 1 - 1 \<le> i \<and> i + 1 < m_count v then m_allocations v ! (i + 1)
      else m_allocations v ! i)"
    using assms i by (intro shift_down_nth) auto
  then show "?l ! i = ?r ! i"
    unfolding l using i assms by (auto simp: nth_append min_def)
qed

lemma vmm_insert_ranges:
  assumes "vmm_inv v" "index \<le> m_count v" "m_count v < 1024"
  shows "vmm_ranges (vmm_insert index e v) =
    take index (vmm_ranges v) @ (unat (a_base e), unat (a_bytes e)) # drop index (vmm_ranges v)"
proof -
  have "take index (m_allocations v) = take index (take (m_count v) (m_allocations v))"
    using assms(2) by (simp add: min_def)
  then show ?thesis
    using take_vmm_insert [of index v e] assms
    by (simp add: vmm_ranges_def vmm_inv_def take_map drop_map)
qed

lemma vmm_erase_ranges:
  assumes "vmm_inv v" "index < m_count v"
  shows "vmm_ranges (vmm_erase index v) = take index (vmm_ranges v) @ drop (index + 1) (vmm_ranges v)"
proof -
  have "take index (m_allocations v) = take index (take (m_count v) (m_allocations v))"
    using assms(2) by (simp add: min_def)
  then show ?thesis
    using take_vmm_erase [of index v] assms
    by (simp add: vmm_ranges_def vmm_inv_def take_map drop_map)
qed

lemma vmm_insert_inv:
  assumes inv: "vmm_inv v" and i: "index \<le> m_count v" "m_count v < 1024"
    and n: "4096 dvd unat n" "n \<noteq> 0"
    and fit: "unat (gap_start v index) + unat n + 4096 \<le> unat (gap_end v index)"
  shows "vmm_inv (vmm_insert index \<lparr>a_base = gap_start v index, a_bytes = n\<rparr> v)"
proof -
  let ?v = "vmm_insert index \<lparr>a_base = gap_start v index, a_bytes = n\<rparr> v"
  let ?xs = "take index (vmm_ranges v)" and ?ys = "drop index (vmm_ranges v)"
  have "spaced window_first (?xs @ (after_range window_first ?xs, unat n) # ?ys) window_last"
  proof (rule spaced_insert)
    show "spaced window_first (?xs @ ?ys) window_last" using inv by (simp add: vmm_inv_def)
    show "0 < unat n" using n(2) by (simp add: unat_gt_0)
    show "after_range window_first ?xs + unat n + 4096 \<le>
        (case ?ys of [] \<Rightarrow> window_last | r # _ \<Rightarrow> fst r)"
      using fit unfolding unat_gap_start [OF inv i(1)] unat_gap_end [OF inv i(1)] .
  qed (use n in auto)
  moreover have "length (m_allocations ?v) = 1024" "m_count ?v \<le> 1024"
    using inv i(2) by (simp_all add: vmm_insert_def Let_def vmm_inv_def)
  ultimately show ?thesis
    using vmm_insert_ranges [OF inv i] unat_gap_start [OF inv i(1)] by (simp add: vmm_inv_def)
qed

lemma vmm_erase_inv:
  assumes inv: "vmm_inv v" and i: "index < m_count v"
  shows "vmm_inv (vmm_erase index v)"
proof -
  have "vmm_ranges v = take index (vmm_ranges v) @ vmm_ranges v ! index # drop (index + 1) (vmm_ranges v)"
    using i length_vmm_ranges [OF inv] by (simp add: id_take_nth_drop)
  then have "spaced window_first (take index (vmm_ranges v) @ drop (index + 1) (vmm_ranges v)) window_last"
    using inv spaced_remove [of window_first "take index (vmm_ranges v)"
        "fst (vmm_ranges v ! index)" "snd (vmm_ranges v ! index)"] by (simp add: vmm_inv_def)
  then show ?thesis
    using inv i vmm_erase_ranges [OF inv i]
    by (auto simp: vmm_inv_def vmm_erase_def Let_def)
qed

lemma align_up_bytes:
  assumes "bytes \<noteq> 0" "bytes \<le> VMALLOC_SIZE"
  defines "n \<equiv> align_up bytes FRAME_SIZE"
  shows "4096 dvd unat n" "n \<noteq> 0" "unat n \<le> 2 ^ 40" "unat bytes \<le> unat n" "unat n < unat bytes + 4096"
proof -
  have b: "0 < unat bytes" "unat bytes \<le> 0x8000000000"
    using assms(1,2) window_values(2) by (simp_all add: unat_gt_0 word_le_nat_alt)
  have u: "unat n = (unat bytes + 4095) div 4096 * 4096"
    using unat_align_up [of 12 bytes] b by (simp add: n_def FRAME_SIZE_eq)
  have mod: "(unat bytes + 4095) div 4096 * 4096 + (unat bytes + 4095) mod 4096 = unat bytes + 4095"
    by (rule div_mult_mod_eq)
  have "(unat bytes + 4095) mod 4096 < 4096" by simp
  then show "4096 dvd unat n" "unat n \<le> 2 ^ 40" "unat bytes \<le> unat n" "unat n < unat bytes + 4096"
    using mod b u by simp_all
  then show "n \<noteq> 0" using b by auto
qed

end
