(* ===== verification/Lifecycle.thy ===== *)
theory Lifecycle
  imports Containers Boot_Info
begin

text \<open>
  The driver framework: \<^verbatim>\<open>include/uk/registry.hpp\<close> and \<^verbatim>\<open>capability.hpp\<close> (the records the
  linker collects) and \<^verbatim>\<open>kernel/device/lifecycle.cpp\<close> (registry validation, depth-first
  initialisation along driver and capability dependencies, shutdown, capability lookup).

  A nullable pointer is an option. The bounded arrays with their counters are lists of
  their first \<^verbatim>\<open>count\<close> entries, a pointer to a node is its index. Driver entry points, exit
  points and capability resolvers belong to the drivers: they are functions on an
  arbitrary world \<open>'w\<close>, which the framework state carries.
\<close>

section \<open>Records\<close>

datatype capability_multiplicity = SINGLE | MULTIPLE

record driver_id =
  id_name :: "c_string option"

record capability_key =
  key_name :: "c_string option"
  multiplicity :: capability_multiplicity

datatype driver_error =
  D_UNSPECIFIED
| D_CAPACITY_EXCEEDED
| D_INVALID_RECORD
| D_DUPLICATE_DRIVER
| D_DUPLICATE_DRIVER_ENTRY
| D_DUPLICATE_DRIVER_EXIT
| D_UNKNOWN_DRIVER
| D_UNKNOWN_DRIVER_DEPENDENCY
| D_MISSING_CAPABILITY_PROVIDER
| D_MULTIPLE_CAPABILITY_PROVIDERS
| D_DEPENDENCY_CYCLE
| D_CAPABILITY_RESOLVE_FAILED

type_synonym drv_result = "(unit, driver_error) result"
type_synonym 'w init_fn = "'w \<Rightarrow> drv_result \<times> 'w"
type_synonym 'w exit_fn = "'w \<Rightarrow> 'w"
type_synonym 'w resolve_fn = "'w \<Rightarrow> u64 option \<times> 'w"

record 'w init_record =
  ir_driver :: "driver_id option"
  ir_init :: "'w init_fn option"

record 'w exit_record =
  er_driver :: "driver_id option"
  er_exit :: "'w exit_fn option"

record 'w provide_record =
  pr_driver :: "driver_id option"
  pr_capability :: "capability_key option"
  pr_resolve :: "'w resolve_fn option"

record require_driver_record =
  rd_driver :: "driver_id option"
  rd_dependency_name :: "c_string option"

record require_capability_record =
  rc_driver :: "driver_id option"
  rc_capability :: "capability_key option"

text \<open>The six linker sections.\<close>

record 'w registry =
  reg_drivers :: "driver_id list"
  reg_inits :: "'w init_record list"
  reg_exits :: "'w exit_record list"
  reg_provides :: "'w provide_record list"
  reg_require_drivers :: "require_driver_record list"
  reg_require_capabilities :: "require_capability_record list"

fun describe :: "driver_error \<Rightarrow> string" where
  "describe D_UNSPECIFIED = ''unspecified failure''"
| "describe D_CAPACITY_EXCEEDED = ''driver registry capacity exceeded''"
| "describe D_INVALID_RECORD = ''invalid driver metadata record''"
| "describe D_DUPLICATE_DRIVER = ''duplicate driver name''"
| "describe D_DUPLICATE_DRIVER_ENTRY = ''driver has more than one entry point''"
| "describe D_DUPLICATE_DRIVER_EXIT = ''driver has more than one exit point''"
| "describe D_UNKNOWN_DRIVER = ''metadata references an unknown driver''"
| "describe D_UNKNOWN_DRIVER_DEPENDENCY = ''driver depends on an unknown driver''"
| "describe D_MISSING_CAPABILITY_PROVIDER = ''driver capability has no provider''"
| "describe D_MULTIPLE_CAPABILITY_PROVIDERS = ''singleton driver capability has multiple providers''"
| "describe D_DEPENDENCY_CYCLE = ''driver dependency cycle detected''"
| "describe D_CAPABILITY_RESOLVE_FAILED = ''driver capability resolver returned null''"

section \<open>State\<close>

definition MAX_DRIVERS :: nat where "MAX_DRIVERS = 128"
definition MAX_REGISTERED_CAPABILITIES :: nat where "MAX_REGISTERED_CAPABILITIES = 256"

datatype visit_state = NOT_VISITED | VISITING | VISITED

record 'w driver_node =
  dn_id :: driver_id
  dn_init :: "'w init_fn option"
  dn_exit :: "'w exit_fn option"
  dn_visit :: visit_state
  dn_initialized :: bool

record registered_capability =
  cap_key :: "capability_key option"
  cap_driver :: driver_id
  cap_api :: u64

record 'w lifecycle =
  nodes :: "'w driver_node list"
  initialized :: "nat list"
  capabilities :: "registered_capability list"
  built :: bool
  initialized_all :: bool
  world :: 'w

definition lifecycle_new :: "'w \<Rightarrow> 'w lifecycle" where
  "lifecycle_new w =
     \<lparr>nodes = [], initialized = [], capabilities = [], built = False, initialized_all = False, world = w\<rparr>"

section \<open>Names\<close>

fun string_equal_loop :: "c_string \<Rightarrow> c_string \<Rightarrow> bool" where
  "string_equal_loop [] [] = True"
| "string_equal_loop (a # as) [] = (a = NUL)"
| "string_equal_loop [] (b # bs) = (b = NUL)"
| "string_equal_loop (a # as) (b # bs) =
     (if a \<noteq> NUL \<and> b \<noteq> NUL then (if a \<noteq> b then False else string_equal_loop as bs) else a = b)"

definition string_equal :: "c_string option \<Rightarrow> c_string option \<Rightarrow> bool" where
  "string_equal lhs rhs =
     (case (lhs, rhs) of
        (Some a, Some b) \<Rightarrow> string_equal_loop a b
      | (None, None) \<Rightarrow> True
      | _ \<Rightarrow> False)"

definition same_capability :: "capability_key \<Rightarrow> capability_key \<Rightarrow> bool" where
  "same_capability lhs rhs = string_equal (key_name lhs) (key_name rhs)"

definition is_singleton_key :: "capability_key \<Rightarrow> bool" where
  "is_singleton_key key \<longleftrightarrow> multiplicity key = SINGLE"

text \<open>\<^verbatim>\<open>d->name\<close> for a driver pointer that validation has shown not to be null.\<close>

definition driver_name :: "driver_id option \<Rightarrow> c_string option" where
  "driver_name d = (case d of None \<Rightarrow> None | Some i \<Rightarrow> id_name i)"

fun find_index :: "('a \<Rightarrow> bool) \<Rightarrow> 'a list \<Rightarrow> nat \<Rightarrow> nat option" where
  "find_index P [] i = None"
| "find_index P (x # xs) i = (if P x then Some i else find_index P xs (i + 1))"

text \<open>
  The overload on a driver pointer also accepts the node of that very pointer, whose name
  is then equal anyway.
\<close>

definition find_node :: "driver_id option \<Rightarrow> 'w lifecycle \<Rightarrow> nat option" where
  "find_node d s =
     (case d of
        None \<Rightarrow> None
      | Some i \<Rightarrow> find_index (\<lambda>n. string_equal (id_name (dn_id n)) (id_name i)) (nodes s) 0)"

definition find_node_name :: "c_string option \<Rightarrow> 'w lifecycle \<Rightarrow> nat option" where
  "find_node_name name s =
     (if name = None then None
      else find_index (\<lambda>n. string_equal (id_name (dn_id n)) name) (nodes s) 0)"

section \<open>Building the registry\<close>

definition add_driver :: "driver_id \<Rightarrow> 'w lifecycle \<Rightarrow> drv_result \<times> 'w lifecycle" where
  "add_driver i s =
     (if id_name i = None then (Err D_INVALID_RECORD, s)
      else if find_node_name (id_name i) s \<noteq> None then (Err D_DUPLICATE_DRIVER, s)
      else if length (nodes s) = MAX_DRIVERS then (Err D_CAPACITY_EXCEEDED, s)
      else (Ok (), s\<lparr>nodes := nodes s @ [\<lparr>dn_id = i, dn_init = None, dn_exit = None,
                                          dn_visit = NOT_VISITED, dn_initialized = False\<rparr>]\<rparr>))"

definition provider_record_count :: "'w registry \<Rightarrow> capability_key \<Rightarrow> nat" where
  "provider_record_count reg key =
     length (filter (\<lambda>r. case pr_capability r of None \<Rightarrow> False | Some k \<Rightarrow> same_capability k key)
       (reg_provides reg))"

definition validate_provider_count :: "'w registry \<Rightarrow> capability_key \<Rightarrow> drv_result" where
  "validate_provider_count reg key =
     (if is_singleton_key key \<and> provider_record_count reg key > 1
      then Err D_MULTIPLE_CAPABILITY_PROVIDERS else Ok ())"

text \<open>A loop over records that stops at the first error.\<close>

fun each_record :: "('r \<Rightarrow> 's \<Rightarrow> drv_result \<times> 's) \<Rightarrow> 'r list \<Rightarrow> 's \<Rightarrow> drv_result \<times> 's" where
  "each_record f [] s = (Ok (), s)"
| "each_record f (r # rs) s =
     (case f r s of (Err e, s') \<Rightarrow> (Err e, s') | (Ok _, s') \<Rightarrow> each_record f rs s')"

definition upd_node :: "nat \<Rightarrow> ('w driver_node \<Rightarrow> 'w driver_node) \<Rightarrow> 'w lifecycle \<Rightarrow> 'w lifecycle" where
  "upd_node i f s = s\<lparr>nodes := (nodes s)[i := f (nodes s ! i)]\<rparr>"

definition attach_init_record :: "'w init_record \<Rightarrow> 'w lifecycle \<Rightarrow> drv_result \<times> 'w lifecycle" where
  "attach_init_record r s =
     (if ir_driver r = None \<or> ir_init r = None then (Err D_INVALID_RECORD, s)
      else case find_node (ir_driver r) s of
             None \<Rightarrow> (Err D_UNKNOWN_DRIVER, s)
           | Some i \<Rightarrow>
               if dn_init (nodes s ! i) \<noteq> None then (Err D_DUPLICATE_DRIVER_ENTRY, s)
               else (Ok (), upd_node i (dn_init_update (\<lambda>_. ir_init r)) s))"

definition attach_exit_record :: "'w exit_record \<Rightarrow> 'w lifecycle \<Rightarrow> drv_result \<times> 'w lifecycle" where
  "attach_exit_record r s =
     (if er_driver r = None \<or> er_exit r = None then (Err D_INVALID_RECORD, s)
      else case find_node (er_driver r) s of
             None \<Rightarrow> (Err D_UNKNOWN_DRIVER, s)
           | Some i \<Rightarrow>
               if dn_exit (nodes s ! i) \<noteq> None then (Err D_DUPLICATE_DRIVER_EXIT, s)
               else (Ok (), upd_node i (dn_exit_update (\<lambda>_. er_exit r)) s))"

definition validate_require_driver :: "require_driver_record \<Rightarrow> 'w lifecycle \<Rightarrow> drv_result \<times> 'w lifecycle" where
  "validate_require_driver r s =
     (if rd_driver r = None \<or> rd_dependency_name r = None then (Err D_INVALID_RECORD, s)
      else if find_node (rd_driver r) s = None then (Err D_UNKNOWN_DRIVER, s)
      else if find_node_name (rd_dependency_name r) s = None then (Err D_UNKNOWN_DRIVER_DEPENDENCY, s)
      else (Ok (), s))"

definition validate_require_capability ::
  "'w registry \<Rightarrow> require_capability_record \<Rightarrow> 'w lifecycle \<Rightarrow> drv_result \<times> 'w lifecycle" where
  "validate_require_capability reg r s =
     (case rc_capability r of
        None \<Rightarrow> (Err D_INVALID_RECORD, s)
      | Some key \<Rightarrow>
          if rc_driver r = None \<or> key_name key = None then (Err D_INVALID_RECORD, s)
          else if find_node (rc_driver r) s = None then (Err D_UNKNOWN_DRIVER, s)
          else case validate_provider_count reg key of
                 Err e \<Rightarrow> (Err e, s)
               | Ok _ \<Rightarrow>
                   if provider_record_count reg key = 0 then (Err D_MISSING_CAPABILITY_PROVIDER, s)
                   else (Ok (), s))"

definition then_do ::
  "drv_result \<times> 's \<Rightarrow> ('s \<Rightarrow> drv_result \<times> 's) \<Rightarrow> drv_result \<times> 's" where
  "then_do rs f = (case rs of (Err e, s) \<Rightarrow> (Err e, s) | (Ok _, s) \<Rightarrow> f s)"

definition validate_dependency_records :: "'w registry \<Rightarrow> 'w lifecycle \<Rightarrow> drv_result \<times> 'w lifecycle" where
  "validate_dependency_records reg s =
     then_do (each_record validate_require_driver (reg_require_drivers reg) s)
       (each_record (validate_require_capability reg) (reg_require_capabilities reg))"

definition validate_provider :: "'w registry \<Rightarrow> 'w provide_record \<Rightarrow> 'w lifecycle \<Rightarrow> drv_result \<times> 'w lifecycle" where
  "validate_provider reg r s =
     (case pr_capability r of
        None \<Rightarrow> (Err D_INVALID_RECORD, s)
      | Some key \<Rightarrow>
          if pr_driver r = None \<or> key_name key = None \<or> pr_resolve r = None then (Err D_INVALID_RECORD, s)
          else if find_node (pr_driver r) s = None then (Err D_UNKNOWN_DRIVER, s)
          else (validate_provider_count reg key, s))"

definition validate_provider_records :: "'w registry \<Rightarrow> 'w lifecycle \<Rightarrow> drv_result \<times> 'w lifecycle" where
  "validate_provider_records reg s = each_record (validate_provider reg) (reg_provides reg) s"

definition attach_init_records :: "'w registry \<Rightarrow> 'w lifecycle \<Rightarrow> drv_result \<times> 'w lifecycle" where
  "attach_init_records reg s = each_record attach_init_record (reg_inits reg) s"

definition attach_exit_records :: "'w registry \<Rightarrow> 'w lifecycle \<Rightarrow> drv_result \<times> 'w lifecycle" where
  "attach_exit_records reg s = each_record attach_exit_record (reg_exits reg) s"

definition build_registry :: "'w registry \<Rightarrow> 'w lifecycle \<Rightarrow> drv_result \<times> 'w lifecycle" where
  "build_registry reg s =
     (if built s then (Ok (), s)
      else
        then_do (each_record add_driver (reg_drivers reg) (lifecycle_new (world s)))
          (\<lambda>s. then_do (attach_init_records reg s)
          (\<lambda>s. then_do (attach_exit_records reg s)
          (\<lambda>s. then_do (validate_provider_records reg s)
          (\<lambda>s. then_do (validate_dependency_records reg s)
          (\<lambda>s. (Ok (), s\<lparr>built := True\<rparr>)))))))"

section \<open>Initialising drivers\<close>

fun register_loop ::
  "driver_id \<Rightarrow> 'w provide_record list \<Rightarrow> 'w lifecycle \<Rightarrow> drv_result \<times> 'w lifecycle" where
  "register_loop i [] s = (Ok (), s)"
| "register_loop i (r # rs) s =
     (if \<not> string_equal (driver_name (pr_driver r)) (id_name i) then register_loop i rs s
      else
        let (api, w) = (case pr_resolve r of None \<Rightarrow> (None, world s) | Some f \<Rightarrow> f (world s));
            s = s\<lparr>world := w\<rparr>
        in case api of
             None \<Rightarrow> (Err D_CAPABILITY_RESOLVE_FAILED, s)
           | Some a \<Rightarrow>
               if length (capabilities s) = MAX_REGISTERED_CAPABILITIES
               then (Err D_CAPACITY_EXCEEDED, s)
               else register_loop i rs
                      (s\<lparr>capabilities := capabilities s @
                           [\<lparr>cap_key = pr_capability r, cap_driver = i, cap_api = a\<rparr>]\<rparr>))"

definition register_capabilities :: "'w registry \<Rightarrow> nat \<Rightarrow> 'w lifecycle \<Rightarrow> drv_result \<times> 'w lifecycle" where
  "register_capabilities reg i s = register_loop (dn_id (nodes s ! i)) (reg_provides reg) s"

definition run_driver :: "'w registry \<Rightarrow> nat \<Rightarrow> 'w lifecycle \<Rightarrow> drv_result \<times> 'w lifecycle" where
  "run_driver reg i s =
     then_do
       (case dn_init (nodes s ! i) of
          None \<Rightarrow> (Ok (), s)
        | Some f \<Rightarrow> let (r, w) = f (world s) in (r, s\<lparr>world := w\<rparr>))
       (\<lambda>s. then_do (register_capabilities reg i s)
       (\<lambda>s. let s = upd_node i (dn_initialized_update (\<lambda>_. True)) s
            in (Ok (), s\<lparr>initialized := initialized s @ [i]\<rparr>)))"

text \<open>
  \<^verbatim>\<open>visit\<close> and its helpers call each other. Each call of \<^verbatim>\<open>visit\<close> takes one unit of fuel,
  \<open>None\<close> means that it ran out; the helpers take the visit of the next depth as argument.
\<close>

type_synonym 'w visit_fn = "nat \<Rightarrow> 'w lifecycle \<Rightarrow> (drv_result \<times> 'w lifecycle) option"

definition visit_then ::
  "(drv_result \<times> 's) option \<Rightarrow> ('s \<Rightarrow> (drv_result \<times> 's) option) \<Rightarrow> (drv_result \<times> 's) option" where
  "visit_then r f =
     (case r of None \<Rightarrow> None | Some (Err e, s) \<Rightarrow> Some (Err e, s) | Some (Ok _, s) \<Rightarrow> f s)"

fun provider_loop ::
  "'w visit_fn \<Rightarrow> capability_key \<Rightarrow> 'w provide_record list \<Rightarrow> bool \<Rightarrow> 'w lifecycle \<Rightarrow>
     (drv_result \<times> 'w lifecycle) option" where
  "provider_loop v key [] found s =
     Some (if \<not> found then Err D_MISSING_CAPABILITY_PROVIDER else Ok (), s)"
| "provider_loop v key (r # rs) found s =
     (if (case pr_capability r of None \<Rightarrow> True | Some k \<Rightarrow> \<not> same_capability k key)
      then provider_loop v key rs found s
      else case find_node (pr_driver r) s of
             None \<Rightarrow> Some (Err D_UNKNOWN_DRIVER, s)
           | Some j \<Rightarrow> visit_then (v j s) (provider_loop v key rs True))"

definition visit_capability_providers ::
  "'w visit_fn \<Rightarrow> 'w registry \<Rightarrow> capability_key \<Rightarrow> 'w lifecycle \<Rightarrow> (drv_result \<times> 'w lifecycle) option" where
  "visit_capability_providers v reg key s =
     (case validate_provider_count reg key of
        Err e \<Rightarrow> Some (Err e, s)
      | Ok _ \<Rightarrow> provider_loop v key (reg_provides reg) False s)"

fun visit_driver_dependencies ::
  "'w visit_fn \<Rightarrow> nat \<Rightarrow> require_driver_record list \<Rightarrow> 'w lifecycle \<Rightarrow> (drv_result \<times> 'w lifecycle) option" where
  "visit_driver_dependencies v i [] s = Some (Ok (), s)"
| "visit_driver_dependencies v i (r # rs) s =
     (if \<not> string_equal (driver_name (rd_driver r)) (id_name (dn_id (nodes s ! i)))
      then visit_driver_dependencies v i rs s
      else case find_node_name (rd_dependency_name r) s of
             None \<Rightarrow> Some (Err D_UNKNOWN_DRIVER_DEPENDENCY, s)
           | Some j \<Rightarrow> visit_then (v j s) (visit_driver_dependencies v i rs))"

text \<open>The key of a capability requirement is not null after validation.\<close>

definition the_key :: "capability_key option \<Rightarrow> capability_key" where
  "the_key k = (case k of None \<Rightarrow> \<lparr>key_name = None, multiplicity = SINGLE\<rparr> | Some key \<Rightarrow> key)"

fun visit_capability_dependencies ::
  "'w visit_fn \<Rightarrow> 'w registry \<Rightarrow> nat \<Rightarrow> require_capability_record list \<Rightarrow> 'w lifecycle \<Rightarrow>
     (drv_result \<times> 'w lifecycle) option" where
  "visit_capability_dependencies v reg i [] s = Some (Ok (), s)"
| "visit_capability_dependencies v reg i (r # rs) s =
     (if \<not> string_equal (driver_name (rc_driver r)) (id_name (dn_id (nodes s ! i)))
      then visit_capability_dependencies v reg i rs s
      else visit_then (visit_capability_providers v reg (the_key (rc_capability r)) s)
             (visit_capability_dependencies v reg i rs))"

definition set_visit :: "nat \<Rightarrow> visit_state \<Rightarrow> 'w lifecycle \<Rightarrow> 'w lifecycle" where
  "set_visit i st s = upd_node i (dn_visit_update (\<lambda>_. st)) s"

text \<open>Reset the mark of the node when a step fails.\<close>

definition or_reset ::
  "nat \<Rightarrow> (drv_result \<times> 'w lifecycle) option \<Rightarrow> ('w lifecycle \<Rightarrow> (drv_result \<times> 'w lifecycle) option) \<Rightarrow>
     (drv_result \<times> 'w lifecycle) option" where
  "or_reset i r f =
     (case r of
        None \<Rightarrow> None
      | Some (Err e, s) \<Rightarrow> Some (Err e, set_visit i NOT_VISITED s)
      | Some (Ok _, s) \<Rightarrow> f s)"

fun visit :: "nat \<Rightarrow> 'w registry \<Rightarrow> nat \<Rightarrow> 'w lifecycle \<Rightarrow> (drv_result \<times> 'w lifecycle) option" where
  "visit 0 reg i s = None"
| "visit (Suc fuel) reg i s =
     (if dn_visit (nodes s ! i) = VISITED then Some (Ok (), s)
      else if dn_visit (nodes s ! i) = VISITING then Some (Err D_DEPENDENCY_CYCLE, s)
      else
        or_reset i (visit_driver_dependencies (visit fuel reg) i (reg_require_drivers reg)
                      (set_visit i VISITING s))
        (\<lambda>s. or_reset i (visit_capability_dependencies (visit fuel reg) reg i
                          (reg_require_capabilities reg) s)
        (\<lambda>s. or_reset i (Some (run_driver reg i s))
        (\<lambda>s. Some (Ok (), set_visit i VISITED s)))))"

fun visit_all :: "'w registry \<Rightarrow> nat \<Rightarrow> nat \<Rightarrow> 'w lifecycle \<Rightarrow> (drv_result \<times> 'w lifecycle) option" where
  "visit_all reg i 0 s = Some (Ok (), s)"
| "visit_all reg i (Suc n) s =
     visit_then (visit (length (nodes s) + 1) reg i s) (visit_all reg (i + 1) n)"

definition init_all :: "'w registry \<Rightarrow> 'w lifecycle \<Rightarrow> (drv_result \<times> 'w lifecycle) option" where
  "init_all reg s =
     (if initialized_all s then Some (Ok (), s)
      else visit_then (Some (build_registry reg s))
        (\<lambda>s. visit_then (visit_all reg 0 (length (nodes s)) s)
        (\<lambda>s. Some (Ok (), s\<lparr>initialized_all := True\<rparr>))))"

section \<open>Shutdown and lookup\<close>

definition exit_node :: "nat \<Rightarrow> 'w lifecycle \<Rightarrow> 'w lifecycle" where
  "exit_node i s =
     (if \<not> dn_initialized (nodes s ! i) then s
      else
        let s = (case dn_exit (nodes s ! i) of None \<Rightarrow> s | Some f \<Rightarrow> s\<lparr>world := f (world s)\<rparr>)
        in upd_node i (dn_initialized_update (\<lambda>_. False)) s)"

definition exit_all :: "'w lifecycle \<Rightarrow> 'w lifecycle" where
  "exit_all s =
     (let s = fold exit_node (rev (initialized s)) s
      in s\<lparr>initialized := [], capabilities := [], initialized_all := False\<rparr>)"

definition init_all_or_halt :: "'w registry \<Rightarrow> 'w lifecycle \<Rightarrow> 'w lifecycle outcome option" where
  "init_all_or_halt reg s =
     (case init_all reg s of
        None \<Rightarrow> None
      | Some (Ok _, s) \<Rightarrow> Some (Return s)
      | Some (Err _, s) \<Rightarrow> Some (Panic ''halt''))"

definition drivers_init :: "'w registry \<Rightarrow> 'w lifecycle \<Rightarrow> (init_result \<times> 'w lifecycle) option" where
  "drivers_init reg s =
     (case init_all reg s of
        None \<Rightarrow> None
      | Some (Err _, s) \<Rightarrow> Some (Err UNSPECIFIED, s)
      | Some (Ok _, s) \<Rightarrow> Some (Ok (), s))"

definition find_capability :: "capability_key \<Rightarrow> 'w lifecycle \<Rightarrow> u64 option" where
  "find_capability key s =
     map_option cap_api
       (find (\<lambda>c. case cap_key c of None \<Rightarrow> False | Some k \<Rightarrow> same_capability k key) (capabilities s))"

definition get_capability :: "capability_key \<Rightarrow> 'w lifecycle \<Rightarrow> u64 outcome" where
  "get_capability key s =
     (case find_capability key s of
        None \<Rightarrow> Panic ''requested driver capability is not registered: {}''
      | Some api \<Rightarrow> Return api)"

end
