(* ===== verification/Lifecycle_Correct.thy ===== *)
theory Lifecycle_Correct
  imports Lifecycle
begin

text \<open>
  Correctness of driver initialisation: the depth-first search always ends, a successful
  run initialises every driver exactly once and after everything it depends on, shutdown
  runs in reverse order, and what a second start does after a shutdown.
\<close>

section \<open>Names and indices\<close>

lemma string_equal_loop_iff: "string_equal_loop a b \<longleftrightarrow> c_text a = c_text b"
  by (induction a b rule: string_equal_loop.induct) (auto simp: c_text_def)

lemma find_index_map: "find_index P (map f xs) i = find_index (P \<circ> f) xs i"
  by (induction xs arbitrary: i) auto

lemma find_index_Some: "find_index P xs i = Some j \<Longrightarrow> i \<le> j \<and> j < i + length xs \<and> P (xs ! (j - i))"
proof (induction xs arbitrary: i)
  case (Cons x xs)
  show ?case
  proof (cases "P x")
    case False
    then have "find_index P xs (i + 1) = Some j" using Cons.prems by simp
    from Cons.IH [OF this] show ?thesis by (auto simp: nth_Cons')
  qed (use Cons.prems in simp)
qed simp

abbreviation ids_of :: "'w lifecycle \<Rightarrow> driver_id list" where
  "ids_of s \<equiv> map dn_id (nodes s)"

definition named_index :: "driver_id list \<Rightarrow> c_string option \<Rightarrow> nat option" where
  "named_index ids name =
     (if name = None then None else find_index (\<lambda>d. string_equal (id_name d) name) ids 0)"

definition driver_index :: "driver_id list \<Rightarrow> driver_id option \<Rightarrow> nat option" where
  "driver_index ids d =
     (case d of None \<Rightarrow> None | Some i \<Rightarrow> find_index (\<lambda>e. string_equal (id_name e) (id_name i)) ids 0)"

lemma find_node_ids: "find_node d s = driver_index (ids_of s) d"
  by (simp add: find_node_def driver_index_def find_index_map o_def split: option.split)

lemma find_node_name_ids: "find_node_name name s = named_index (ids_of s) name"
  by (simp add: find_node_name_def named_index_def find_index_map o_def)

lemma index_bound:
  "named_index ids name = Some j \<Longrightarrow> j < length ids"
  "driver_index ids d = Some j \<Longrightarrow> j < length ids"
  by (auto simp: named_index_def driver_index_def split: if_splits option.splits
      dest: find_index_Some)

section \<open>The dependency relation\<close>

definition provides_key :: "'w provide_record \<Rightarrow> capability_key \<Rightarrow> bool" where
  "provides_key p key = (case pr_capability p of None \<Rightarrow> False | Some k \<Rightarrow> same_capability k key)"

definition driver_dep :: "'w registry \<Rightarrow> driver_id list \<Rightarrow> nat \<Rightarrow> nat \<Rightarrow> bool" where
  "driver_dep reg ids i j \<longleftrightarrow>
     (\<exists>r \<in> set (reg_require_drivers reg). string_equal (driver_name (rd_driver r)) (id_name (ids ! i)) \<and>
        named_index ids (rd_dependency_name r) = Some j)"

definition capability_dep :: "'w registry \<Rightarrow> driver_id list \<Rightarrow> nat \<Rightarrow> nat \<Rightarrow> bool" where
  "capability_dep reg ids i j \<longleftrightarrow>
     (\<exists>r \<in> set (reg_require_capabilities reg). string_equal (driver_name (rc_driver r)) (id_name (ids ! i)) \<and>
       (\<exists>p \<in> set (reg_provides reg). provides_key p (the_key (rc_capability r)) \<and>
          driver_index ids (pr_driver p) = Some j))"

definition depends :: "'w registry \<Rightarrow> driver_id list \<Rightarrow> nat \<Rightarrow> nat \<Rightarrow> bool" where
  "depends reg ids i j \<longleftrightarrow> driver_dep reg ids i j \<or> capability_dep reg ids i j"

text \<open>A list in which every entry comes after all its dependencies.\<close>

definition dep_ordered :: "(nat \<Rightarrow> nat \<Rightarrow> bool) \<Rightarrow> nat list \<Rightarrow> bool" where
  "dep_ordered dep xs \<longleftrightarrow> (\<forall>k < length xs. \<forall>j. dep (xs ! k) j \<longrightarrow> j \<in> set (take k xs))"

lemma dep_ordered_snoc:
  assumes "dep_ordered dep xs" "\<And>j. dep i j \<Longrightarrow> j \<in> set xs"
  shows "dep_ordered dep (xs @ [i])"
  using assms by (auto simp: dep_ordered_def less_Suc_eq nth_append)

lemma dep_ordered_acyclic:
  assumes "dep_ordered dep xs" "distinct xs" "i \<in> set xs" "dep\<^sup>+\<^sup>+ i j"
  shows "\<exists>k l. k < l \<and> l < length xs \<and> xs ! k = j \<and> xs ! l = i"
  using assms(4)
proof (induction rule: tranclp_induct)
  case (base j)
  obtain l where l: "l < length xs" "xs ! l = i" using assms(3) by (auto simp: in_set_conv_nth)
  then have "j \<in> set (take l xs)" using assms(1) base by (auto simp: dep_ordered_def)
  then obtain k where "k < l" "xs ! k = j" using l(1) by (auto simp: in_set_conv_nth)
  with l show ?case by auto
next
  case (step j m)
  then obtain k l where kl: "k < l" "l < length xs" "xs ! k = j" "xs ! l = i" by auto
  then have "m \<in> set (take k xs)" using assms(1) step(2) by (auto simp: dep_ordered_def)
  then obtain h where "h < k" "xs ! h = m" using kl by (auto simp: in_set_conv_nth)
  with kl show ?case by (intro exI [of _ h] exI [of _ l]) auto
qed

section \<open>The search invariant\<close>

definition marked :: "visit_state \<Rightarrow> 'w lifecycle \<Rightarrow> nat set" where
  "marked st s = {i. i < length (nodes s) \<and> dn_visit (nodes s ! i) = st}"

definition search_inv :: "'w registry \<Rightarrow> driver_id list \<Rightarrow> 'w lifecycle \<Rightarrow> bool" where
  "search_inv reg ids s \<longleftrightarrow> ids_of s = ids \<and> distinct (initialized s) \<and>
     set (initialized s) = marked VISITED s \<and> dep_ordered (depends reg ids) (initialized s) \<and>
     (\<forall>i < length (nodes s). dn_initialized (nodes s ! i) \<longleftrightarrow> i \<in> set (initialized s))"

text \<open>What any call of \<^verbatim>\<open>visit\<close> or its helpers does to the marks, successful or not.\<close>

definition progress :: "'w registry \<Rightarrow> driver_id list \<Rightarrow> 'w lifecycle \<Rightarrow> 'w lifecycle \<Rightarrow> bool" where
  "progress reg ids s s' \<longleftrightarrow> search_inv reg ids s' \<and> marked VISITING s' = marked VISITING s \<and>
     marked VISITED s \<subseteq> marked VISITED s' \<and>
     built s' = built s \<and> map dn_exit (nodes s') = map dn_exit (nodes s)"

lemma marked_finite [simp]: "finite (marked st s)"
  by (simp add: marked_def)

lemma marked_partition:
  "marked NOT_VISITED s = {..<length (nodes s)} - marked VISITING s - marked VISITED s"
  by (auto simp: marked_def) (metis visit_state.exhaust)

lemma search_inv_length: "search_inv reg ids s \<Longrightarrow> length (nodes s) = length ids"
  by (auto simp: search_inv_def)

lemma progress_refl: "search_inv reg ids s \<Longrightarrow> progress reg ids s s"
  by (simp add: progress_def)

lemma progress_trans: "progress reg ids s t \<Longrightarrow> progress reg ids t u \<Longrightarrow> progress reg ids s u"
  by (auto simp: progress_def)

lemma progress_not_visited:
  assumes "search_inv reg ids s" "progress reg ids s s'"
  shows "card (marked NOT_VISITED s') \<le> card (marked NOT_VISITED s)"
proof (rule card_mono)
  have "length (nodes s') = length (nodes s)"
    using search_inv_length [OF assms(1)] search_inv_length [of reg ids s'] assms(2)
    by (simp add: progress_def)
  then show "marked NOT_VISITED s' \<subseteq> marked NOT_VISITED s"
    using assms(2) by (auto simp: marked_partition progress_def)
qed simp

definition visits :: "'w registry \<Rightarrow> driver_id list \<Rightarrow> nat \<Rightarrow> 'w visit_fn \<Rightarrow> bool" where
  "visits reg ids N v \<longleftrightarrow>
     (\<forall>s j. search_inv reg ids s \<longrightarrow> j < length ids \<longrightarrow> card (marked NOT_VISITED s) \<le> N \<longrightarrow>
        (\<exists>r s'. v j s = Some (r, s') \<and> progress reg ids s s' \<and> (r = Ok () \<longrightarrow> j \<in> marked VISITED s')))"

lemma visitsE:
  assumes "visits reg ids N v" "search_inv reg ids s" "j < length ids" "card (marked NOT_VISITED s) \<le> N"
  obtains r s' where "v j s = Some (r, s')" "progress reg ids s s'" "r = Ok () \<longrightarrow> j \<in> marked VISITED s'"
  using assms unfolding visits_def by blast

lemma visit_then_simps [simp]:
  "visit_then (Some (Err e, s)) f = Some (Err e, s)" "visit_then (Some (Ok u, s)) f = f s"
  "visit_then None f = None"
  by (simp_all add: visit_then_def)

text \<open>A loop step: visit one dependency, then go on with the remaining records.\<close>

lemma visit_step:
  assumes v: "visits reg ids N v" and inv: "search_inv reg ids s" "j < length ids"
    "card (marked NOT_VISITED s) \<le> N"
    and rest: "\<And>t. search_inv reg ids t \<Longrightarrow> card (marked NOT_VISITED t) \<le> N \<Longrightarrow>
      \<exists>r s'. f t = Some (r, s') \<and> progress reg ids t s' \<and> (r = Ok () \<longrightarrow> D \<subseteq> marked VISITED s')"
  shows "\<exists>r s'. visit_then (v j s) f = Some (r, s') \<and> progress reg ids s s' \<and>
    (r = Ok () \<longrightarrow> insert j D \<subseteq> marked VISITED s')"
proof -
  obtain r t where t: "v j s = Some (r, t)" "progress reg ids s t" "r = Ok () \<longrightarrow> j \<in> marked VISITED t"
    using v inv by (rule visitsE)
  show ?thesis
  proof (cases r)
    case (Inl e)
    then show ?thesis using t by auto
  next
    case (Inr u)
    have "search_inv reg ids t" "card (marked NOT_VISITED t) \<le> N"
      using t(2) progress_not_visited [OF inv(1) t(2)] inv(3) by (auto simp: progress_def)
    from rest [OF this] obtain r' s' where s': "f t = Some (r', s')" "progress reg ids t s'"
      "r' = Ok () \<longrightarrow> D \<subseteq> marked VISITED s'" by auto
    have "j \<in> marked VISITED s'" using t(3) Inr s'(2) by (auto simp: progress_def)
    then show ?thesis using t Inr s' progress_trans [OF t(2) s'(2)] by auto
  qed
qed

section \<open>The helper loops\<close>

lemma driver_dependencies_spec:
  assumes v: "visits reg ids N v" and inv: "search_inv reg ids s" "card (marked NOT_VISITED s) \<le> N"
    and i: "i < length ids"
  shows "\<exists>r s'. visit_driver_dependencies v i rs s = Some (r, s') \<and> progress reg ids s s' \<and>
    (r = Ok () \<longrightarrow> {j. \<exists>q \<in> set rs. string_equal (driver_name (rd_driver q)) (id_name (ids ! i)) \<and>
        named_index ids (rd_dependency_name q) = Some j} \<subseteq> marked VISITED s')"
    (is "\<exists>r s'. _ \<and> _ \<and> (_ \<longrightarrow> ?D rs \<subseteq> _)")
  using inv
proof (induction rs arbitrary: s)
  case Nil
  then show ?case using progress_refl by auto
next
  case (Cons q rs)
  have len: "ids_of s = ids" "id_name (dn_id (nodes s ! i)) = id_name (ids ! i)"
    using Cons.prems(1) i by (auto simp: search_inv_def)
  show ?case
  proof (cases "string_equal (driver_name (rd_driver q)) (id_name (ids ! i))")
    case False
    then show ?thesis using Cons len by auto
  next
    case True
    show ?thesis
    proof (cases "named_index ids (rd_dependency_name q)")
      case None
      then show ?thesis
        using True len Cons.prems(1) progress_refl by (auto simp: find_node_name_ids)
    next
      case (Some j)
      have "?D (q # rs) \<subseteq> insert j (?D rs)" using Some by auto
      moreover have "\<exists>r s'. visit_then (v j s) (visit_driver_dependencies v i rs) = Some (r, s') \<and>
          progress reg ids s s' \<and> (r = Ok () \<longrightarrow> insert j (?D rs) \<subseteq> marked VISITED s')"
        by (rule visit_step [OF v Cons.prems(1) index_bound(1) [OF Some] Cons.prems(2)])
          (rule Cons.IH)
      ultimately show ?thesis using True Some len by (auto simp: find_node_name_ids) blast+
    qed
  qed
qed

lemma provider_loop_spec:
  assumes v: "visits reg ids N v" and inv: "search_inv reg ids s" "card (marked NOT_VISITED s) \<le> N"
  shows "\<exists>r s'. provider_loop v key ps found s = Some (r, s') \<and> progress reg ids s s' \<and>
    (r = Ok () \<longrightarrow> {j. \<exists>p \<in> set ps. provides_key p key \<and> driver_index ids (pr_driver p) = Some j}
       \<subseteq> marked VISITED s')"
    (is "\<exists>r s'. _ \<and> _ \<and> (_ \<longrightarrow> ?D ps \<subseteq> _)")
  using inv
proof (induction ps arbitrary: s found)
  case Nil
  then show ?case using progress_refl by auto
next
  case (Cons p ps)
  have len: "ids_of s = ids" using Cons.prems(1) by (simp add: search_inv_def)
  have skip: "(case pr_capability p of None \<Rightarrow> True | Some k \<Rightarrow> \<not> same_capability k key) \<longleftrightarrow> \<not> provides_key p key"
    by (simp add: provides_key_def split: option.split)
  show ?case
  proof (cases "provides_key p key")
    case False
    then show ?thesis using Cons by (auto simp: skip)
  next
    case True
    show ?thesis
    proof (cases "driver_index ids (pr_driver p)")
      case None
      then show ?thesis using True len Cons.prems(1) progress_refl by (auto simp: skip find_node_ids)
    next
      case (Some j)
      have "?D (p # ps) \<subseteq> insert j (?D ps)" using Some by auto
      moreover have "\<exists>r s'. visit_then (v j s) (provider_loop v key ps True) = Some (r, s') \<and>
          progress reg ids s s' \<and> (r = Ok () \<longrightarrow> insert j (?D ps) \<subseteq> marked VISITED s')"
        by (rule visit_step [OF v Cons.prems(1) index_bound(2) [OF Some] Cons.prems(2)])
          (rule Cons.IH)
      ultimately show ?thesis using True Some len by (auto simp: skip find_node_ids) blast+
    qed
  qed
qed

lemma capability_dependencies_spec:
  assumes v: "visits reg ids N v" and inv: "search_inv reg ids s" "card (marked NOT_VISITED s) \<le> N"
    and i: "i < length ids"
  shows "\<exists>r s'. visit_capability_dependencies v reg i rs s = Some (r, s') \<and> progress reg ids s s' \<and>
    (r = Ok () \<longrightarrow> {j. \<exists>q \<in> set rs. string_equal (driver_name (rc_driver q)) (id_name (ids ! i)) \<and>
        (\<exists>p \<in> set (reg_provides reg). provides_key p (the_key (rc_capability q)) \<and>
           driver_index ids (pr_driver p) = Some j)} \<subseteq> marked VISITED s')"
    (is "\<exists>r s'. _ \<and> _ \<and> (_ \<longrightarrow> ?D rs \<subseteq> _)")
  using inv
proof (induction rs arbitrary: s)
  case Nil
  then show ?case using progress_refl by auto
next
  case (Cons q rs)
  have len: "id_name (dn_id (nodes s ! i)) = id_name (ids ! i)"
    using Cons.prems(1) i by (auto simp: search_inv_def)
  let ?key = "the_key (rc_capability q)"
  let ?P = "{j. \<exists>p \<in> set (reg_provides reg). provides_key p ?key \<and> driver_index ids (pr_driver p) = Some j}"
  show ?case
  proof (cases "string_equal (driver_name (rc_driver q)) (id_name (ids ! i))")
    case False
    then show ?thesis using Cons len by auto
  next
    case True
    obtain r t where t: "visit_capability_providers v reg ?key s = Some (r, t)" "progress reg ids s t"
        "r = Ok () \<longrightarrow> ?P \<subseteq> marked VISITED t"
      using provider_loop_spec [OF v Cons.prems, of ?key "reg_provides reg" False]
        progress_refl [OF Cons.prems(1)] that
      by (cases "validate_provider_count reg ?key") (auto simp: visit_capability_providers_def)
    show ?thesis
    proof (cases r)
      case (Inl e)
      then show ?thesis using True len t by auto
    next
      case (Inr u)
      have "search_inv reg ids t" "card (marked NOT_VISITED t) \<le> N"
        using t(2) progress_not_visited [OF Cons.prems(1) t(2)] Cons.prems(2)
        by (auto simp: progress_def)
      from Cons.IH [OF this] obtain r' s' where s': "visit_capability_dependencies v reg i rs t = Some (r', s')"
          "progress reg ids t s'" "r' = Ok () \<longrightarrow> ?D rs \<subseteq> marked VISITED s'" by auto
      have "?P \<subseteq> marked VISITED s'" using t(3) Inr s'(2) by (auto simp: progress_def)
      moreover have "?D (q # rs) \<subseteq> ?P \<union> ?D rs" by auto
      ultimately have "r' = Ok () \<longrightarrow> ?D (q # rs) \<subseteq> marked VISITED s'" using s'(3) by blast
      then show ?thesis
        using True len t(1) Inr s' progress_trans [OF t(2) s'(2)] by auto
    qed
  qed
qed

section \<open>Running a driver\<close>

lemma register_loop_frame:
  "register_loop d ps s = (r, s') \<Longrightarrow>
     nodes s' = nodes s \<and> initialized s' = initialized s \<and> built s' = built s"
proof (induction ps arbitrary: s)
  case (Cons p ps)
  then show ?case by (auto simp: Let_def split: if_splits option.splits prod.splits)
qed auto

lemma run_driver_frame:
  assumes "run_driver reg i s = (r, s')"
  shows "if r = Ok () then nodes s' = (nodes s)[i := (nodes s ! i)\<lparr>dn_initialized := True\<rparr>] \<and>
           initialized s' = initialized s @ [i] \<and> built s' = built s
         else nodes s' = nodes s \<and> initialized s' = initialized s \<and> built s' = built s"
proof -
  obtain r1 s1 where s1: "(case dn_init (nodes s ! i) of None \<Rightarrow> (Ok (), s)
      | Some f \<Rightarrow> let (r, w) = f (world s) in (r, s\<lparr>world := w\<rparr>)) = (r1, s1)"
    by (cases "case dn_init (nodes s ! i) of None \<Rightarrow> (Ok (), s)
      | Some f \<Rightarrow> let (r, w) = f (world s) in (r, s\<lparr>world := w\<rparr>)")
  then have f1: "nodes s1 = nodes s" "initialized s1 = initialized s" "built s1 = built s"
    by (auto split: option.splits prod.splits)
  obtain r2 s2 where s2: "register_capabilities reg i s1 = (r2, s2)" by fastforce
  then have f2: "nodes s2 = nodes s1" "initialized s2 = initialized s1" "built s2 = built s1"
    using register_loop_frame [OF s2 [unfolded register_capabilities_def]] by simp_all
  show ?thesis
    using assms f1 f2
    by (auto simp: run_driver_def s1 s2 then_do_def upd_node_def Let_def split: sum.splits)
qed

section \<open>visit\<close>

lemma nodes_set_visit [simp]:
  "nodes (set_visit i st s) = (nodes s)[i := (nodes s ! i)\<lparr>dn_visit := st\<rparr>]"
  "initialized (set_visit i st s) = initialized s" "built (set_visit i st s) = built s"
  by (simp_all add: set_visit_def upd_node_def)

lemma map_update_same:
  assumes "i < length xs \<Longrightarrow> f y = f (xs ! i)"
  shows "map f (xs[i := y]) = map f xs"
  using assms by (cases "i < length xs")
    (simp_all add: map_update list_update_same_conv list_update_beyond)

lemma marked_set_visit:
  assumes "i < length (nodes s)"
  shows "marked st (set_visit i st' s) =
    (if st = st' then insert i (marked st s) else marked st s - {i})"
  using assms by (auto simp: marked_def nth_list_update)

lemma search_inv_set_visit:
  assumes "search_inv reg ids s" "i < length ids" "i \<notin> marked VISITED s" "st \<noteq> VISITED"
  shows "search_inv reg ids (set_visit i st s)"
proof -
  have i: "i < length (nodes s)" using assms(1,2) search_inv_length by metis
  have "marked VISITED (set_visit i st s) = marked VISITED s"
    using marked_set_visit [OF i, of VISITED st] assms(3,4) by auto
  then show ?thesis
    using assms(1) i by (auto simp: search_inv_def map_update_same nth_list_update)
qed

lemma map_dn_exit_set_visit [simp]:
  "map dn_exit (nodes (set_visit i st s)) = map dn_exit (nodes s)"
  by (simp add: map_update_same)

text \<open>Leaving node \<open>i\<close> after a failed step restores the marks.\<close>

lemma progress_visiting:
  assumes "search_inv reg ids s" "i \<in> marked NOT_VISITED s"
    and "progress reg ids (set_visit i VISITING s) t"
  shows "marked VISITING t = insert i (marked VISITING s)" "marked VISITED s \<subseteq> marked VISITED t"
    "i \<notin> marked VISITED t" "i \<notin> marked VISITED s" "i \<notin> marked VISITING s" "search_inv reg ids t"
    "built t = built s" "map dn_exit (nodes t) = map dn_exit (nodes s)"
    "i < length (nodes s)" "i < length (nodes t)" "i < length ids"
proof -
  have p: "marked VISITING t = marked VISITING (set_visit i VISITING s)"
    "marked VISITED (set_visit i VISITING s) \<subseteq> marked VISITED t" "search_inv reg ids t"
    "built t = built (set_visit i VISITING s)"
    "map dn_exit (nodes t) = map dn_exit (nodes (set_visit i VISITING s))"
    using assms(3) by (simp_all only: progress_def simp_thms)
  show i: "i < length (nodes s)" "i \<notin> marked VISITED s" "i \<notin> marked VISITING s"
    using assms(2) by (auto simp: marked_def)
  show m: "marked VISITING t = insert i (marked VISITING s)" "marked VISITED s \<subseteq> marked VISITED t"
    using p(1,2) i(2) marked_set_visit [OF i(1)] by auto
  have "i \<in> marked VISITING t" using m(1) by simp
  then show "i \<notin> marked VISITED t" by (simp add: marked_def)
  show "search_inv reg ids t" by (rule p(3))
  show "built t = built s" "map dn_exit (nodes t) = map dn_exit (nodes s)"
    using p(4,5) by (simp_all add: map_update_same)
  show "i < length (nodes t)" "i < length ids"
    using i(1) search_inv_length [OF assms(1)] search_inv_length [OF p(3)] by simp_all
qed

lemma progress_reset:
  assumes "search_inv reg ids s" "i \<in> marked NOT_VISITED s"
    and "progress reg ids (set_visit i VISITING s) t"
  shows "progress reg ids s (set_visit i NOT_VISITED t)"
proof -
  note p = progress_visiting [OF assms]
  have "search_inv reg ids (set_visit i NOT_VISITED t)"
    using p(3,6,11) by (intro search_inv_set_visit) simp_all
  moreover have "marked VISITING (set_visit i NOT_VISITED t) = marked VISITING s"
    "marked VISITED (set_visit i NOT_VISITED t) = marked VISITED t"
    using marked_set_visit [OF p(10)] p(1,3,5) by simp_all
  ultimately show ?thesis
    unfolding progress_def using p(2,7,8) by (simp add: map_update_same)
qed

lemma progress_finish:
  assumes inv: "search_inv reg ids s" and i: "i \<in> marked NOT_VISITED s"
    and t: "progress reg ids (set_visit i VISITING s) t"
    and deps: "{j. depends reg ids i j} \<subseteq> marked VISITED t"
    and u: "nodes u = (nodes t)[i := (nodes t ! i)\<lparr>dn_initialized := True\<rparr>]"
      "initialized u = initialized t @ [i]" "built u = built t"
  shows "progress reg ids s (set_visit i VISITED u)" "i \<in> marked VISITED (set_visit i VISITED u)"
proof -
  note p = progress_visiting [OF inv i t]
  have len: "i < length (nodes u)" using p(10) u(1) by simp
  have mu: "marked st u = marked st t" for st
    using p(10) u(1) by (auto simp: marked_def nth_list_update)
  have fin: "marked VISITED (set_visit i VISITED u) = insert i (marked VISITED t)"
    "marked VISITING (set_visit i VISITED u) = marked VISITING s"
    using marked_set_visit [OF len] mu p(1,5) by simp_all
  show "i \<in> marked VISITED (set_visit i VISITED u)" using fin(1) by simp
  have ti: "ids_of t = ids" "distinct (initialized t)" "set (initialized t) = marked VISITED t"
    "dep_ordered (depends reg ids) (initialized t)"
    "\<And>k. k < length (nodes t) \<Longrightarrow> dn_initialized (nodes t ! k) \<longleftrightarrow> k \<in> set (initialized t)"
    using p(6) by (simp_all add: search_inv_def)
  have "search_inv reg ids (set_visit i VISITED u)"
    unfolding search_inv_def
  proof (intro conjI allI impI)
    show "ids_of (set_visit i VISITED u) = ids"
      using ti(1) u(1) by (simp add: map_update_same)
    show "distinct (initialized (set_visit i VISITED u))"
      using ti(2,3) u(2) p(3) by simp
    show "set (initialized (set_visit i VISITED u)) = marked VISITED (set_visit i VISITED u)"
      unfolding fin(1) using ti(3) u(2) by simp
    show "dep_ordered (depends reg ids) (initialized (set_visit i VISITED u))"
      using dep_ordered_snoc [OF ti(4), of i] deps ti(3) u(2) by auto
    fix k assume "k < length (nodes (set_visit i VISITED u))"
    then show "dn_initialized (nodes (set_visit i VISITED u) ! k) \<longleftrightarrow>
        k \<in> set (initialized (set_visit i VISITED u))"
      using ti(5) [of k] u(1,2) len by (cases "k = i") simp_all
  qed
  then show "progress reg ids s (set_visit i VISITED u)"
    unfolding progress_def using fin p(2,7,8) u by (auto simp: map_update_same)
qed

lemma or_reset_simps [simp]:
  "or_reset i (Some (Err e, s)) f = Some (Err e, set_visit i NOT_VISITED s)"
  "or_reset i (Some (Ok u, s)) f = f s" "or_reset i None f = None"
  by (simp_all add: or_reset_def)

lemma visit_body:
  assumes inv: "search_inv reg ids s" and i: "i \<in> marked NOT_VISITED s"
    and v: "visits reg ids N (visit f reg)" and card: "card (marked NOT_VISITED s) \<le> Suc N"
  shows "\<exists>r s'. visit (Suc f) reg i s = Some (r, s') \<and> progress reg ids s s' \<and>
    (r = Ok () \<longrightarrow> i \<in> marked VISITED s')"
proof -
  let ?s1 = "set_visit i VISITING s"
  have len: "i < length (nodes s)" "i < length ids" "i \<notin> marked VISITED s"
    using i search_inv_length [OF inv] by (auto simp: marked_def)
  have i1: "search_inv reg ids ?s1" using search_inv_set_visit [OF inv len(2,3)] by simp
  have c1: "card (marked NOT_VISITED ?s1) \<le> N"
    using marked_set_visit [OF len(1), of NOT_VISITED VISITING] i card
    by (simp add: card_Diff_singleton)
  have unf: "visit (Suc f) reg i s =
      or_reset i (visit_driver_dependencies (visit f reg) i (reg_require_drivers reg) ?s1)
        (\<lambda>s. or_reset i (visit_capability_dependencies (visit f reg) reg i (reg_require_capabilities reg) s)
        (\<lambda>s. or_reset i (Some (run_driver reg i s)) (\<lambda>s. Some (Ok (), set_visit i VISITED s))))"
    using i by (simp add: marked_def)
  obtain r2 s2 where s2: "visit_driver_dependencies (visit f reg) i (reg_require_drivers reg) ?s1 = Some (r2, s2)"
      "progress reg ids ?s1 s2" "r2 = Ok () \<longrightarrow> {j. driver_dep reg ids i j} \<subseteq> marked VISITED s2"
    using driver_dependencies_spec [OF v i1 c1 len(2), of "reg_require_drivers reg"]
    unfolding driver_dep_def by blast
  show ?thesis
  proof (cases r2)
    case (Inl e)
    then show ?thesis using progress_reset [OF inv i s2(2)] s2(1) unfolding unf by simp
  next
    case (Inr u2)
    have i2: "search_inv reg ids s2" "card (marked NOT_VISITED s2) \<le> N"
      using s2(2) progress_not_visited [OF i1 s2(2)] c1 by (auto simp: progress_def)
    obtain r3 s3 where s3: "visit_capability_dependencies (visit f reg) reg i (reg_require_capabilities reg) s2 = Some (r3, s3)"
        "progress reg ids s2 s3" "r3 = Ok () \<longrightarrow> {j. capability_dep reg ids i j} \<subseteq> marked VISITED s3"
      using capability_dependencies_spec [OF v i2 len(2), of "reg_require_capabilities reg"]
      unfolding capability_dep_def by blast
    have p3: "progress reg ids ?s1 s3" using s2(2) s3(2) by (rule progress_trans)
    show ?thesis
    proof (cases r3)
      case (Inl e)
      then show ?thesis
        using progress_reset [OF inv i p3] s2(1) s3(1) Inr unfolding unf by simp
    next
      case i3: (Inr u3)
      have deps: "{j. depends reg ids i j} \<subseteq> marked VISITED s3"
        using s2(3) s3(2,3) Inr i3 by (auto simp: depends_def progress_def)
      obtain r4 s4 where s4: "run_driver reg i s3 = (r4, s4)" by fastforce
      note fr = run_driver_frame [OF s4]
      show ?thesis
      proof (cases r4)
        case (Inl e)
        then have same: "nodes s4 = nodes s3" "initialized s4 = initialized s3" "built s4 = built s3"
          using fr by simp_all
        then have "progress reg ids ?s1 s4"
          using p3 by (simp add: progress_def search_inv_def marked_def)
        then show ?thesis
          using progress_reset [OF inv i] s2(1) s3(1) s4 Inr i3 Inl unfolding unf by simp
      next
        case i4: (Inr u4)
        then have "nodes s4 = (nodes s3)[i := (nodes s3 ! i)\<lparr>dn_initialized := True\<rparr>]"
          "initialized s4 = initialized s3 @ [i]" "built s4 = built s3"
          using fr by simp_all
        from progress_finish [OF inv i p3 deps this] show ?thesis
          using s2(1) s3(1) s4 Inr i3 i4 unfolding unf by simp
      qed
    qed
  qed
qed

lemma visit_marked:
  assumes "search_inv reg ids s" "i < length ids" "i \<notin> marked NOT_VISITED s"
  shows "\<exists>r s'. visit (Suc f) reg i s = Some (r, s') \<and> progress reg ids s s' \<and>
    (r = Ok () \<longrightarrow> i \<in> marked VISITED s')"
proof -
  have "i < length (nodes s)" using assms(2) search_inv_length [OF assms(1)] by simp
  then show ?thesis
    using assms(3) progress_refl [OF assms(1)]
    by (cases "dn_visit (nodes s ! i)") (auto simp: marked_def)
qed

lemma visit_spec: "visits reg ids N (visit (Suc N) reg)"
proof (induction N)
  case 0
  show ?case unfolding visits_def
  proof (intro allI impI)
    fix s :: "'a lifecycle" and j
    assume *: "search_inv reg ids s" "j < length ids" "card (marked NOT_VISITED s) \<le> 0"
    then have "j \<notin> marked NOT_VISITED s" by simp
    from visit_marked [OF *(1,2) this] show "\<exists>r s'. visit (Suc 0) reg j s = Some (r, s') \<and>
        progress reg ids s s' \<and> (r = Ok () \<longrightarrow> j \<in> marked VISITED s')" .
  qed
next
  case (Suc N)
  show ?case unfolding visits_def
  proof (intro allI impI)
    fix s :: "'a lifecycle" and j
    assume *: "search_inv reg ids s" "j < length ids" "card (marked NOT_VISITED s) \<le> Suc N"
    show "\<exists>r s'. visit (Suc (Suc N)) reg j s = Some (r, s') \<and> progress reg ids s s' \<and>
        (r = Ok () \<longrightarrow> j \<in> marked VISITED s')"
      using visit_body [OF *(1) _ Suc.IH *(3)] visit_marked [OF *(1,2)] by blast
  qed
qed

section \<open>init\_all\<close>

lemma not_visited_bound: "card (marked NOT_VISITED s) \<le> length (nodes s)"
  using card_mono [of "{..<length (nodes s)}" "marked NOT_VISITED s"] by (auto simp: marked_def)

lemma visit_all_spec:
  assumes "search_inv reg ids s" "i + n = length ids" "{..<i} \<subseteq> marked VISITED s"
  shows "\<exists>r s'. visit_all reg i n s = Some (r, s') \<and> progress reg ids s s' \<and>
    (r = Ok () \<longrightarrow> {..<length ids} \<subseteq> marked VISITED s')"
  using assms
proof (induction n arbitrary: i s)
  case 0
  then show ?case using progress_refl by auto
next
  case (Suc n)
  have len: "i < length ids" using Suc.prems(2) by simp
  obtain r t where t: "visit (Suc (length (nodes s))) reg i s = Some (r, t)" "progress reg ids s t"
      "r = Ok () \<longrightarrow> i \<in> marked VISITED t"
    using visitsE [OF visit_spec Suc.prems(1) len not_visited_bound] by blast
  show ?case
  proof (cases r)
    case (Inl e)
    then show ?thesis using t by auto
  next
    case (Inr u)
    have "search_inv reg ids t" "{..<i + 1} \<subseteq> marked VISITED t"
      using t(2,3) Inr Suc.prems(3) by (auto simp: progress_def less_Suc_eq)
    then have "\<exists>r s'. visit_all reg (i + 1) n t = Some (r, s') \<and> progress reg ids t s' \<and>
        (r = Ok () \<longrightarrow> {..<length ids} \<subseteq> marked VISITED s')"
      using Suc.prems(2) by (intro Suc.IH) auto
    then show ?thesis using t Inr progress_trans [OF t(2)] by auto
  qed
qed

text \<open>Building the registry leaves every node unvisited.\<close>

definition fresh :: "'w lifecycle \<Rightarrow> bool" where
  "fresh s \<longleftrightarrow> initialized s = [] \<and> capabilities s = [] \<and> \<not> initialized_all s \<and>
     (\<forall>n \<in> set (nodes s). dn_visit n = NOT_VISITED \<and> \<not> dn_initialized n)"

lemma fresh_upd_node:
  assumes "fresh s" "\<And>n. dn_visit (f n) = dn_visit n \<and> dn_initialized (f n) = dn_initialized n"
  shows "fresh (upd_node i f s)"
proof (cases "i < length (nodes s)")
  case True
  then have "set (nodes (upd_node i f s)) \<subseteq> insert (f (nodes s ! i)) (set (nodes s))"
    by (simp add: upd_node_def set_update_subset_insert)
  then show ?thesis
    using assms True by (auto simp: fresh_def upd_node_def dest!: subsetD)
next
  case False
  then show ?thesis using assms(1) by (simp add: upd_node_def list_update_beyond)
qed

lemma each_record_fresh:
  assumes "\<And>r s. P s \<Longrightarrow> P (snd (f r s))" "P s"
  shows "P (snd (each_record f rs s))"
  using assms(2)
proof (induction rs arbitrary: s)
  case (Cons r rs)
  have "P (snd (f r s))" using assms(1) Cons.prems .
  then show ?case using Cons.IH by (cases "f r s") (auto split: sum.splits)
qed simp

lemma then_do_fresh:
  assumes "P (snd x)" "\<And>s. P s \<Longrightarrow> P (snd (f s))"
  shows "P (snd (then_do x f))"
  using assms by (auto simp: then_do_def split: prod.splits sum.splits)

lemma record_steps_fresh:
  "fresh s \<Longrightarrow> fresh (snd (add_driver i s))"
  "fresh s \<Longrightarrow> fresh (snd (attach_init_record r s))"
  "fresh s \<Longrightarrow> fresh (snd (attach_exit_record r' s))"
  "snd (validate_provider reg p s) = s"
  "snd (validate_require_driver q s) = s"
  "snd (validate_require_capability reg c s) = s"
proof -
  show "fresh s \<Longrightarrow> fresh (snd (add_driver i s))"
    by (auto simp: add_driver_def fresh_def)
  show "fresh s \<Longrightarrow> fresh (snd (attach_init_record r s))"
    by (auto simp: attach_init_record_def intro!: fresh_upd_node split: option.splits)
  show "fresh s \<Longrightarrow> fresh (snd (attach_exit_record r' s))"
    by (auto simp: attach_exit_record_def intro!: fresh_upd_node split: option.splits)
qed (auto simp: validate_provider_def validate_require_driver_def validate_require_capability_def
    split: option.splits sum.splits)

lemma build_registry_fresh:
  assumes "\<not> built s"
  shows "fresh (snd (build_registry reg s))"
proof -
  have new: "fresh (lifecycle_new w)" for w by (simp add: lifecycle_new_def fresh_def)
  have steps: "fresh t \<Longrightarrow> fresh (snd (attach_init_records reg t))"
    "fresh t \<Longrightarrow> fresh (snd (attach_exit_records reg t))"
    "fresh t \<Longrightarrow> fresh (snd (validate_provider_records reg t))"
    "fresh t \<Longrightarrow> fresh (snd (validate_dependency_records reg t))" for t
    unfolding attach_init_records_def attach_exit_records_def validate_provider_records_def
      validate_dependency_records_def
    by (intro then_do_fresh [where P = fresh] each_record_fresh [where P = fresh] record_steps_fresh;
        simp add: record_steps_fresh)+
  have "fresh (snd (each_record add_driver (reg_drivers reg) (lifecycle_new (world s))))"
    by (intro each_record_fresh [where P = fresh] record_steps_fresh(1) new)
  moreover have "fresh t \<Longrightarrow> fresh (snd (Ok (), t\<lparr>built := True\<rparr>))" for t :: "'a lifecycle"
    by (simp add: fresh_def)
  ultimately show ?thesis
    unfolding build_registry_def if_not_P [OF assms]
    by (intro then_do_fresh [where P = fresh] steps)
qed

lemma fresh_search_inv: "fresh s \<Longrightarrow> search_inv reg (ids_of s) s"
  by (auto simp: fresh_def search_inv_def marked_def dep_ordered_def)

lemma init_all_cases:
  assumes "\<not> built s" "\<not> initialized_all s"
  shows "\<exists>r s'. init_all reg s = Some (r, s') \<and>
    (r = Ok () \<longrightarrow> search_inv reg (ids_of s') s' \<and> {..<length (nodes s')} \<subseteq> marked VISITED s' \<and>
       built s' \<and> initialized_all s')"
proof -
  obtain r1 s1 where s1: "build_registry reg s = (r1, s1)" by fastforce
  show ?thesis
  proof (cases r1)
    case (Inl e)
    then show ?thesis using s1 assms by (simp add: init_all_def)
  next
    case (Inr u)
    have inv: "search_inv reg (ids_of s1) s1"
      using build_registry_fresh [OF assms(1), of reg] s1 fresh_search_inv by simp
    have b: "built s1" using s1 Inr assms(1)
      by (auto simp: build_registry_def then_do_def split: prod.splits sum.splits)
    obtain r2 s2 where s2: "visit_all reg 0 (length (nodes s1)) s1 = Some (r2, s2)"
        "progress reg (ids_of s1) s1 s2" "r2 = Ok () \<longrightarrow> {..<length (ids_of s1)} \<subseteq> marked VISITED s2"
      using visit_all_spec [OF inv, of 0 "length (nodes s1)"] by auto
    have "ids_of s2 = ids_of s1" "search_inv reg (ids_of s1) s2" "built s2"
      using s2(2) b by (auto simp: progress_def search_inv_def)
    moreover from this(1) have "length (nodes s2) = length (nodes s1)" by (metis length_map)
    ultimately show ?thesis
      using s1 s2 Inr assms
      by (cases r2) (simp_all add: init_all_def search_inv_def marked_def)
  qed
qed

section \<open>Properties\<close>

text \<open>
  C27: driver initialisation always ends: the search never exceeds one nested visit per
  driver, whatever the dependency graph and whatever the drivers do.
\<close>

lemma init_all_returns:
  assumes "\<not> built s" "\<not> initialized_all s"
  shows "\<exists>r s'. init_all reg s = Some (r, s')"
  using init_all_cases [OF assms, of reg] by blast

text \<open>
  C17: when driver initialisation succeeds, every registered driver was initialised exactly
  once and only after all drivers it names and all providers of the capabilities it
  requires; in particular the dependency graph has no cycle.
\<close>

lemma init_all_order:
  assumes "\<not> built s" "\<not> initialized_all s" "init_all reg s = Some (Ok (), s')"
  shows "distinct (initialized s') \<and> set (initialized s') = {..<length (nodes s')} \<and>
    dep_ordered (depends reg (ids_of s')) (initialized s') \<and>
    \<not> (\<exists>i < length (nodes s'). (depends reg (ids_of s'))\<^sup>+\<^sup>+ i i)"
proof -
  have inv: "search_inv reg (ids_of s') s'" "{..<length (nodes s')} \<subseteq> marked VISITED s'"
    using init_all_cases [OF assms(1,2), of reg] assms(3) by auto
  then have all: "distinct (initialized s')" "set (initialized s') = {..<length (nodes s')}"
      "dep_ordered (depends reg (ids_of s')) (initialized s')"
    by (auto simp: search_inv_def marked_def)
  have "\<not> (depends reg (ids_of s'))\<^sup>+\<^sup>+ i i" if "i < length (nodes s')" for i
  proof
    assume cyc: "(depends reg (ids_of s'))\<^sup>+\<^sup>+ i i"
    have "i \<in> set (initialized s')" using that all(2) by simp
    from dep_ordered_acyclic [OF all(3,1) this cyc]
    obtain k l where "k < l" "l < length (initialized s')" "initialized s' ! k = i" "initialized s' ! l = i"
      by blast
    then show False using all(1) by (auto simp: nth_eq_iff_index_eq)
  qed
  then show ?thesis using all by blast
qed

text \<open>Two drivers, the first depending on the second; their entry points append to a log.\<close>

definition sample_registry :: "nat list registry" where
  "sample_registry =
     \<lparr>reg_drivers = [\<lparr>id_name = Some ''a''\<rparr>, \<lparr>id_name = Some ''b''\<rparr>],
      reg_inits = [\<lparr>ir_driver = Some \<lparr>id_name = Some ''a''\<rparr>, ir_init = Some (\<lambda>w. (Ok (), w @ [1]))\<rparr>,
                   \<lparr>ir_driver = Some \<lparr>id_name = Some ''b''\<rparr>, ir_init = Some (\<lambda>w. (Ok (), w @ [2]))\<rparr>],
      reg_exits = [], reg_provides = [],
      reg_require_drivers = [\<lparr>rd_driver = Some \<lparr>id_name = Some ''a''\<rparr>, rd_dependency_name = Some ''b''\<rparr>],
      reg_require_capabilities = []\<rparr>"

lemma sample_init:
  "\<exists>s'. init_all sample_registry (lifecycle_new []) = Some (Ok (), s') \<and> initialized s' = [1, 0] \<and>
     world s' = [2, 1]"
  by (simp add: init_all_def build_registry_def sample_registry_def lifecycle_new_def add_driver_def
      then_do_def find_node_name_def find_node_def MAX_DRIVERS_def attach_init_records_def
      attach_init_record_def attach_exit_records_def validate_provider_records_def upd_node_def
      validate_dependency_records_def validate_require_driver_def string_equal_def set_visit_def
      or_reset_def driver_name_def run_driver_def register_capabilities_def eval_nat_numeral)

lemma init_all_returns_witness: "\<exists>r s'. init_all sample_registry (lifecycle_new []) = Some (r, s')"
  using init_all_returns [of "lifecycle_new []" sample_registry] by (simp add: lifecycle_new_def)

lemma init_all_order_witness:
  "\<exists>s'. init_all sample_registry (lifecycle_new []) = Some (Ok (), s') \<and> distinct (initialized s') \<and>
     set (initialized s') = {..<length (nodes s')}"
proof -
  obtain s' where s': "init_all sample_registry (lifecycle_new []) = Some (Ok (), s')"
    using sample_init by blast
  from init_all_order [OF _ _ s'] s' show ?thesis by (auto simp: lifecycle_new_def)
qed

section \<open>Shutdown\<close>

definition run_exit :: "'w lifecycle \<Rightarrow> nat \<Rightarrow> 'w \<Rightarrow> 'w" where
  "run_exit s i w = (case dn_exit (nodes s ! i) of None \<Rightarrow> w | Some f \<Rightarrow> f w)"

definition exited :: "nat set \<Rightarrow> 'w lifecycle \<Rightarrow> 'w lifecycle \<Rightarrow> bool" where
  "exited X s s' \<longleftrightarrow> length (nodes s') = length (nodes s) \<and> built s' = built s \<and>
     initialized s' = initialized s \<and>
     (\<forall>i < length (nodes s). nodes s' ! i =
        (if i \<in> X then (nodes s ! i)\<lparr>dn_initialized := False\<rparr> else nodes s ! i))"

lemma exit_fold:
  assumes "distinct xs" "\<forall>i \<in> set xs. i < length (nodes s) \<and> dn_initialized (nodes s ! i)"
  shows "world (fold exit_node xs s) = fold (run_exit s) xs (world s) \<and>
    exited (set xs) s (fold exit_node xs s)"
  using assms
proof (induction xs arbitrary: s)
  case Nil
  then show ?case by (simp add: exited_def)
next
  case (Cons x xs)
  let ?t = "exit_node x s"
  have x: "x < length (nodes s)" "dn_initialized (nodes s ! x)" "x \<notin> set xs"
    using Cons.prems by auto
  have t: "nodes ?t = (nodes s)[x := (nodes s ! x)\<lparr>dn_initialized := False\<rparr>]"
      "world ?t = run_exit s x (world s)" "built ?t = built s" "initialized ?t = initialized s"
    using x(2) by (auto simp: exit_node_def upd_node_def run_exit_def Let_def split: option.splits)
  have "\<forall>i \<in> set xs. i < length (nodes ?t) \<and> dn_initialized (nodes ?t ! i)"
    using Cons.prems(2) x(3) t(1) by (auto simp: nth_list_update)
  then have IH: "world (fold exit_node xs ?t) = fold (run_exit ?t) xs (world ?t)"
      "exited (set xs) ?t (fold exit_node xs ?t)"
    using Cons.IH [of ?t] Cons.prems(1) by auto
  have "run_exit ?t k = run_exit s k" for k
    using x(1) t(1) by (cases "k = x") (auto simp: run_exit_def fun_eq_iff)
  then have "run_exit ?t = run_exit s" by blast
  moreover have "exited (insert x (set xs)) s (fold exit_node xs ?t)"
    using IH(2) x t by (auto simp: exited_def nth_list_update)
  ultimately show ?case using IH(1) t(2) by simp
qed

text \<open>
  shutdown runs the exit points of the initialised drivers in the reverse of the order
  in which they were initialised, each once, and leaves no driver initialised and no
  capability registered.
\<close>

lemma exit_all_reverse:
  assumes "distinct (initialized s)"
    and "\<forall>i \<in> set (initialized s). i < length (nodes s) \<and> dn_initialized (nodes s ! i)"
  shows "world (exit_all s) = fold (run_exit s) (rev (initialized s)) (world s) \<and>
    initialized (exit_all s) = [] \<and> capabilities (exit_all s) = [] \<and>
    (\<forall>i \<in> set (initialized s). \<not> dn_initialized (nodes (exit_all s) ! i))"
  using exit_fold [of "rev (initialized s)" s] assms by (auto simp: exit_all_def exited_def Let_def)

lemma visit_all_visited:
  "(\<forall>k < length (nodes s). dn_visit (nodes s ! k) = VISITED) \<Longrightarrow> i + n \<le> length (nodes s) \<Longrightarrow>
     visit_all reg i n s = Some (Ok (), s)"
  by (induction n arbitrary: i) auto

text \<open>
  C39: after a successful start and a shutdown, starting the drivers again reports success
  without initialising any driver: the nodes are still marked visited, no capability is
  registered, and asking for any capability halts the kernel.
\<close>

lemma restart_runs_nothing:
  assumes "\<not> built s" "\<not> initialized_all s" "init_all reg s = Some (Ok (), s')"
  shows "\<exists>s''. init_all reg (exit_all s') = Some (Ok (), s'') \<and> initialized s'' = [] \<and>
    capabilities s'' = [] \<and> world s'' = world (exit_all s') \<and> (\<forall>key. \<not> returns (get_capability key s''))"
proof -
  have inv: "search_inv reg (ids_of s') s'" "{..<length (nodes s')} \<subseteq> marked VISITED s'" "built s'"
    using init_all_cases [OF assms(1,2), of reg] assms(3) by auto
  let ?e = "exit_all s'"
  have "exited (set (rev (initialized s'))) s' (fold exit_node (rev (initialized s')) s')"
    using exit_fold [of "rev (initialized s')" s'] inv(1) by (auto simp: search_inv_def marked_def)
  then have e: "length (nodes ?e) = length (nodes s')" "built ?e"
      "\<forall>k < length (nodes ?e). dn_visit (nodes ?e ! k) = VISITED"
    using inv by (auto simp: exited_def exit_all_def Let_def marked_def)
  have "\<not> initialized_all ?e" "initialized ?e = []" "capabilities ?e = []"
    by (simp_all add: exit_all_def Let_def)
  moreover have "init_all reg ?e = Some (Ok (), ?e\<lparr>initialized_all := True\<rparr>)"
    using calculation(1) e visit_all_visited [OF e(3), of 0 "length (nodes ?e)" reg]
    by (simp add: init_all_def build_registry_def)
  ultimately show ?thesis
    by (simp add: get_capability_def find_capability_def)
qed

lemma restart_runs_nothing_witness:
  "\<exists>s' s''. init_all sample_registry (lifecycle_new []) = Some (Ok (), s') \<and>
     init_all sample_registry (exit_all s') = Some (Ok (), s'') \<and> initialized s'' = []"
proof -
  obtain s' where s': "init_all sample_registry (lifecycle_new []) = Some (Ok (), s')"
    using sample_init by blast
  from restart_runs_nothing [OF _ _ s'] s' show ?thesis by (auto simp: lifecycle_new_def)
qed

text \<open>
  \<^verbatim>\<open>string_equal\<close> compares the text before the terminators, and two null pointers are equal.
\<close>

lemma string_equal_text:
  "string_equal a b \<longleftrightarrow> map_option c_text a = map_option c_text b"
  by (auto simp: string_equal_def string_equal_loop_iff split: option.splits)

end
