(* ===== verification/Init_Graph.thy ===== *)
theory Init_Graph
  imports Boot_Info
begin

text \<open>
  \<^verbatim>\<open>kernel/init/init_graph.hpp\<close>: the type-level topological sort of the components to
  initialise and the runners that execute the sorted list. A \<^verbatim>\<open>type_list\<close> is a list, the
  \<^verbatim>\<open>deps\<close> member of a component is a function from components to lists, and the
  \<^verbatim>\<open>static_assert\<close> against cycles is the result \<open>None\<close>. The component initialisers are
  functions on an arbitrary kernel state that may succeed, fail or halt the machine.
\<close>

section \<open>Type lists\<close>

fun list_contains :: "'c \<Rightarrow> 'c list \<Rightarrow> bool" where
  "list_contains x [] = False"
| "list_contains x (h # t) = (x = h \<or> list_contains x t)"

definition list_append :: "'c list \<Rightarrow> 'c \<Rightarrow> 'c list" where
  "list_append ts t = ts @ [t]"

definition list_append_unique :: "'c list \<Rightarrow> 'c \<Rightarrow> 'c list" where
  "list_append_unique ts t = (if list_contains t ts then ts else list_append ts t)"

fun list_concat_unique :: "'c list \<Rightarrow> 'c list \<Rightarrow> 'c list" where
  "list_concat_unique a [] = a"
| "list_concat_unique a (h # t) = list_concat_unique (list_append_unique a h) t"

fun list_filter_out_accum :: "'c list \<Rightarrow> 'c list \<Rightarrow> 'c list \<Rightarrow> 'c list" where
  "list_filter_out_accum [] excluded acc = acc"
| "list_filter_out_accum (h # t) excluded acc =
     list_filter_out_accum t excluded (if list_contains h excluded then acc else list_append acc h)"

definition list_filter_out :: "'c list \<Rightarrow> 'c list \<Rightarrow> 'c list" where
  "list_filter_out ts excluded = list_filter_out_accum ts excluded []"

lemma list_contains_iff [simp]: "list_contains t ts \<longleftrightarrow> t \<in> set ts"
  by (induction ts) auto

lemma list_concat_unique_filter:
  "distinct b \<Longrightarrow> list_concat_unique a b = a @ filter (\<lambda>x. x \<notin> set a) b"
proof (induction b arbitrary: a)
  case (Cons h t)
  show ?case
  proof (cases "h \<in> set a")
    case True
    with Cons show ?thesis by (simp add: list_append_unique_def)
  next
    case False
    have "filter (\<lambda>x. x \<notin> set (a @ [h])) t = filter (\<lambda>x. x \<notin> set a) t"
      using Cons.prems by (intro filter_cong) auto
    with Cons False show ?thesis by (simp add: list_append_unique_def list_append_def)
  qed
qed simp

lemma list_filter_out_filter: "list_filter_out ts ex = filter (\<lambda>x. x \<notin> set ex) ts"
proof -
  have "list_filter_out_accum ts ex acc = acc @ filter (\<lambda>x. x \<notin> set ex) ts" for acc
    by (induction ts arbitrary: acc) (auto simp: list_append_def)
  then show ?thesis by (simp add: list_filter_out_def)
qed

lemma filter_split_at:
  "filter P xs = as @ c # bs \<Longrightarrow> \<exists>us vs. xs = us @ c # vs \<and> filter P us = as"
proof (induction xs arbitrary: as)
  case (Cons x xs)
  show ?case
  proof (cases "P x \<and> as = []")
    case True
    then show ?thesis using Cons.prems by (intro exI [of _ "[]"] exI [of _ xs]) auto
  next
    case False
    then have "filter P xs = (if P x then tl as else as) @ c # bs"
      using Cons.prems by (cases as) auto
    from Cons.IH [OF this] obtain us vs where
      "xs = us @ c # vs" "filter P us = (if P x then tl as else as)" by blast
    then show ?thesis
      using False Cons.prems by (intro exI [of _ "x # us"] exI [of _ vs]) (cases as; auto)
  qed
qed simp

section \<open>The topological sort\<close>

definition topo_size ::
    "(('c::finite \<Rightarrow> 'c list) \<times> 'c \<times> 'c list) + (('c \<Rightarrow> 'c list) \<times> 'c list \<times> 'c list) \<Rightarrow> nat \<times> nat" where
  "topo_size x =
     (case x of
        Inl (deps, c, visiting) \<Rightarrow> (card (- set visiting), 0)
      | Inr (deps, cs, visiting) \<Rightarrow> (card (- set visiting), Suc (length cs)))"

function (sequential) topo_component ::
    "('c::finite \<Rightarrow> 'c list) \<Rightarrow> 'c \<Rightarrow> 'c list \<Rightarrow> 'c list option"
  and topo_list :: "('c \<Rightarrow> 'c list) \<Rightarrow> 'c list \<Rightarrow> 'c list \<Rightarrow> 'c list option" where
  "topo_component deps c visiting =
     (if list_contains c visiting then None
      else
        case topo_list deps (deps c) (list_append visiting c) of
          None \<Rightarrow> None
        | Some deps_sorted \<Rightarrow> Some (list_append_unique deps_sorted c))"
| "topo_list deps [] visiting = Some []"
| "topo_list deps (h # t) visiting =
     (case topo_component deps h visiting of
        None \<Rightarrow> None
      | Some head_sorted \<Rightarrow>
          (case topo_list deps t visiting of
             None \<Rightarrow> None
           | Some tail_sorted \<Rightarrow> Some (list_concat_unique head_sorted tail_sorted)))"
  by pat_completeness auto

termination
proof (relation "inv_image (less_than <*lex*> less_than) topo_size")
  fix deps :: "'c::finite \<Rightarrow> 'c list" and c and visiting :: "'c list"
  assume "\<not> list_contains c visiting"
  then have "- set (list_append visiting c) \<subset> - set visiting"
    by (auto simp: list_append_def)
  then have "card (- set (list_append visiting c)) < card (- set visiting)"
    by (intro psubset_card_mono) auto
  then show "(Inr (deps, deps c, list_append visiting c), Inl (deps, c, visiting))
      \<in> inv_image (less_than <*lex*> less_than) topo_size"
    by (simp add: topo_size_def)
qed (auto simp: topo_size_def)

declare topo_component.simps [simp del]

section \<open>What the sort computes\<close>

text \<open>The direct-dependency relation, and lists in which dependencies come first.\<close>

definition dep_rel :: "('c \<Rightarrow> 'c list) \<Rightarrow> ('c \<times> 'c) set" where
  "dep_rel deps = {(x, y). y \<in> set (deps x)}"

definition topo_ordered :: "('c \<Rightarrow> 'c list) \<Rightarrow> 'c list \<Rightarrow> bool" where
  "topo_ordered deps xs \<longleftrightarrow>
     distinct xs \<and> (\<forall>i < length xs. set (deps (xs ! i)) \<subseteq> set (take i xs))"

lemma topo_ordered_Nil [simp]: "topo_ordered deps []"
  by (simp add: topo_ordered_def)

lemma topo_ordered_iff:
  "topo_ordered deps xs \<longleftrightarrow>
     distinct xs \<and> (\<forall>i < length xs. \<forall>d \<in> set (deps (xs ! i)). \<exists>j < i. xs ! j = d)"
proof -
  have "set (take i xs) = {d. \<exists>j < i. xs ! j = d}" if "i < length xs" for i
    using that by (force simp: in_set_conv_nth)
  then show ?thesis unfolding topo_ordered_def by (auto simp: subset_iff)
qed

lemma topo_ordered_snoc:
  "topo_ordered deps (xs @ [x]) \<longleftrightarrow> topo_ordered deps xs \<and> x \<notin> set xs \<and> set (deps x) \<subseteq> set xs"
  unfolding topo_ordered_def by (auto simp: nth_append less_Suc_eq)

lemma topo_ordered_merge:
  assumes "topo_ordered deps a" "topo_ordered deps b"
  shows "topo_ordered deps (a @ filter (\<lambda>x. x \<notin> set a) b)"
  using assms(2)
proof (induction b rule: rev_induct)
  case (snoc x b)
  then show ?case
    by (auto simp: topo_ordered_snoc simp flip: append_assoc)
qed (simp add: assms(1))

lemma topo_ordered_descend:
  assumes "topo_ordered deps xs" "(x, y) \<in> (dep_rel deps)\<^sup>+" "i < length xs" "x = xs ! i"
  shows "\<exists>j < i. y = xs ! j"
  using assms(2)
proof (induction rule: trancl_induct)
  case (base y)
  then have "y \<in> set (take i xs)"
    using assms by (auto simp: topo_ordered_def dep_rel_def)
  then show ?case using assms(3) by (auto simp: in_set_conv_nth)
next
  case (step y z)
  then obtain j where j: "j < i" "y = xs ! j" by blast
  have "z \<in> set (deps (xs ! j))" using step.hyps(2) j by (simp add: dep_rel_def)
  moreover have "j < length xs" using j assms(3) by simp
  ultimately have "z \<in> set (take j xs)" using assms(1) unfolding topo_ordered_def by blast
  then obtain k where "k < j" "z = xs ! k" by (auto simp: in_set_conv_nth)
  then show ?case using j(1) by (intro exI [of _ k]) simp
qed

lemma topo_ordered_acyclic:
  assumes "topo_ordered deps xs" "x \<in> set xs"
  shows "(x, x) \<notin> (dep_rel deps)\<^sup>+"
proof
  assume "(x, x) \<in> (dep_rel deps)\<^sup>+"
  moreover obtain i where i: "i < length xs" "x = xs ! i"
    using assms(2) by (auto simp: in_set_conv_nth)
  ultimately obtain j where "j < i" "x = xs ! j"
    using topo_ordered_descend [OF assms(1)] by blast
  with i assms(1) show False
    by (auto simp: topo_ordered_def nth_eq_iff_index_eq)
qed

lemma reach_unfold:
  "(dep_rel deps)\<^sup>* `` {c} = insert c ((dep_rel deps)\<^sup>* `` set (deps c))"
proof -
  have "y = c \<or> (\<exists>x \<in> set (deps c). (x, y) \<in> (dep_rel deps)\<^sup>*)" if "(c, y) \<in> (dep_rel deps)\<^sup>*" for y
    using that by (cases rule: converse_rtranclE) (auto simp: dep_rel_def)
  moreover have "(c, y) \<in> (dep_rel deps)\<^sup>*" if "x \<in> set (deps c)" "(x, y) \<in> (dep_rel deps)\<^sup>*" for x y
  proof -
    have "(c, x) \<in> dep_rel deps" using that(1) by (simp add: dep_rel_def)
    then show ?thesis using that(2) by (rule converse_rtrancl_into_rtrancl)
  qed
  ultimately show ?thesis by blast
qed

lemma topo_sound:
  fixes deps :: "'c::finite \<Rightarrow> 'c list"
  shows "topo_component deps c v = Some xs
           \<Longrightarrow> topo_ordered deps xs \<and> set xs = (dep_rel deps)\<^sup>* `` {c}"
    and "topo_list deps cs v = Some ys
           \<Longrightarrow> topo_ordered deps ys \<and> set ys = (dep_rel deps)\<^sup>* `` set cs"
proof (induction deps c v and deps cs v arbitrary: xs and ys rule: topo_component_topo_list.induct)
  case (1 deps c v)
  from "1.prems" obtain ds where c: "\<not> list_contains c v"
    and ds: "topo_list deps (deps c) (list_append v c) = Some ds"
    and xs: "xs = list_append_unique ds c"
    by (auto simp: topo_component.simps split: if_splits option.splits)
  have ih: "topo_ordered deps ds" "set ds = (dep_rel deps)\<^sup>* `` set (deps c)"
    using "1.IH" [OF c ds] by auto
  have sub: "set (deps c) \<subseteq> set ds" unfolding ih(2) by blast
  have set_xs: "set xs = insert c (set ds)"
    by (auto simp: xs list_append_unique_def list_append_def)
  have "topo_ordered deps xs"
    using ih(1) sub by (simp add: xs list_append_unique_def list_append_def topo_ordered_snoc)
  then show ?case unfolding set_xs ih(2) reach_unfold [of deps c] by simp
next
  case (2 deps v)
  then show ?case by simp
next
  case (3 deps h t v)
  then obtain hs ts where hs: "topo_component deps h v = Some hs"
    and ts: "topo_list deps t v = Some ts" and ys: "ys = list_concat_unique hs ts"
    by (auto split: option.splits)
  have ih: "topo_ordered deps hs" "set hs = (dep_rel deps)\<^sup>* `` {h}"
    "topo_ordered deps ts" "set ts = (dep_rel deps)\<^sup>* `` set t"
    using "3.IH" hs ts by auto
  have "distinct ts" using ih(3) by (simp add: topo_ordered_def)
  then have eq: "ys = hs @ filter (\<lambda>x. x \<notin> set hs) ts"
    by (simp add: ys list_concat_unique_filter)
  have "set ys = set hs \<union> set ts" by (auto simp: eq)
  moreover have "(dep_rel deps)\<^sup>* `` set (h # t) = (dep_rel deps)\<^sup>* `` {h} \<union> (dep_rel deps)\<^sup>* `` set t"
    by auto
  ultimately show ?case
    using topo_ordered_merge [OF ih(1,3)] ih(2,4) by (simp add: eq)
qed

lemma topo_None_cycle:
  fixes deps :: "'c::finite \<Rightarrow> 'c list"
  shows "topo_component deps c v = None \<Longrightarrow> (\<And>x. x \<in> set v \<Longrightarrow> (x, c) \<in> (dep_rel deps)\<^sup>+)
           \<Longrightarrow> \<exists>d. (c, d) \<in> (dep_rel deps)\<^sup>* \<and> (d, d) \<in> (dep_rel deps)\<^sup>+"
    and "topo_list deps cs v = None
           \<Longrightarrow> (\<And>x h. x \<in> set v \<Longrightarrow> h \<in> set cs \<Longrightarrow> (x, h) \<in> (dep_rel deps)\<^sup>+)
           \<Longrightarrow> \<exists>h \<in> set cs. \<exists>d. (h, d) \<in> (dep_rel deps)\<^sup>* \<and> (d, d) \<in> (dep_rel deps)\<^sup>+"
proof (induction deps c v and deps cs v rule: topo_component_topo_list.induct)
  case (1 deps c v)
  show ?case
  proof (cases "list_contains c v")
    case True
    then show ?thesis using "1.prems"(2) by auto
  next
    case False
    then have none: "topo_list deps (deps c) (list_append v c) = None"
      using "1.prems"(1) by (auto simp: topo_component.simps split: option.splits)
    have "(x, h) \<in> (dep_rel deps)\<^sup>+" if "x \<in> set (list_append v c)" "h \<in> set (deps c)" for x h
    proof -
      have ch: "(c, h) \<in> dep_rel deps" using that(2) by (simp add: dep_rel_def)
      show ?thesis
        using that(1) "1.prems"(2) [of x] ch by (auto simp: list_append_def intro: trancl_into_trancl)
    qed
    from "1.IH" [OF False none this] obtain h d where
      h: "h \<in> set (deps c)" and d: "(h, d) \<in> (dep_rel deps)\<^sup>*" "(d, d) \<in> (dep_rel deps)\<^sup>+"
      by blast
    have "(c, h) \<in> dep_rel deps" using h by (simp add: dep_rel_def)
    then have "(c, d) \<in> (dep_rel deps)\<^sup>*" using d(1) by (rule converse_rtrancl_into_rtrancl)
    then show ?thesis using d(2) by blast
  qed
next
  case (2 deps v)
  then show ?case by simp
next
  case (3 deps h t v)
  show ?case
  proof (cases "topo_component deps h v")
    case None
    then show ?thesis using "3.IH"(1) "3.prems"(2) by auto
  next
    case (Some hs)
    then have "topo_list deps t v = None"
      using "3.prems"(1) by (auto split: option.splits)
    with Some show ?thesis using "3.IH"(2) "3.prems"(2) by auto
  qed
qed

text \<open>
  C28: the sorted component list of \<^verbatim>\<open>init_graph\<close> contains exactly the components
  reachable from the roots, each once, and every component's dependencies stand before
  it.
\<close>

theorem topo_list_sorts:
  fixes deps :: "'c::finite \<Rightarrow> 'c list"
  assumes "topo_list deps roots [] = Some order"
  shows "distinct order
    \<and> set order = {c. \<exists>r \<in> set roots. (r, c) \<in> (dep_rel deps)\<^sup>*}
    \<and> (\<forall>i < length order. \<forall>d \<in> set (deps (order ! i)). \<exists>j < i. order ! j = d)"
  using topo_sound(2) [OF assms] by (auto simp: topo_ordered_iff)

text \<open>
  C29: the \<^verbatim>\<open>static_assert\<close> against cycles fires exactly when some root reaches a component
  that depends on itself.
\<close>

theorem topo_list_rejects_cycles:
  fixes deps :: "'c::finite \<Rightarrow> 'c list"
  shows "topo_list deps roots [] = None
    \<longleftrightarrow> (\<exists>r \<in> set roots. \<exists>c. (r, c) \<in> (dep_rel deps)\<^sup>* \<and> (c, c) \<in> (dep_rel deps)\<^sup>+)"
proof
  show "\<exists>r \<in> set roots. \<exists>c. (r, c) \<in> (dep_rel deps)\<^sup>* \<and> (c, c) \<in> (dep_rel deps)\<^sup>+"
    if "topo_list deps roots [] = None"
    using topo_None_cycle(2) [OF that] by simp
  show "topo_list deps roots [] = None"
    if cyc: "\<exists>r \<in> set roots. \<exists>c. (r, c) \<in> (dep_rel deps)\<^sup>* \<and> (c, c) \<in> (dep_rel deps)\<^sup>+"
  proof (cases "topo_list deps roots []")
    case (Some xs)
    from cyc obtain r c where "r \<in> set roots" "(r, c) \<in> (dep_rel deps)\<^sup>*"
      and c: "(c, c) \<in> (dep_rel deps)\<^sup>+" by blast
    then have "c \<in> set xs" using topo_sound(2) [OF Some] by auto
    moreover have "topo_ordered deps xs" using topo_sound(2) [OF Some] by simp
    ultimately have "(c, c) \<notin> (dep_rel deps)\<^sup>+" by (intro topo_ordered_acyclic)
    with c show ?thesis by simp
  qed
qed

section \<open>The runners\<close>

text \<open>
  \<open>ini\<close> is the initialiser of a component on a backing (\<^verbatim>\<open>Component::init(view)\<close>), a
  logger is the triple of its \<^verbatim>\<open>begin\<close>, \<^verbatim>\<open>ok\<close> and \<^verbatim>\<open>fail\<close> members.
\<close>

type_synonym ('c, 's) init_table = "'c \<Rightarrow> 's \<Rightarrow> (init_result \<times> 's) outcome"

record ('c, 's) init_logger =
  log_begin :: "'c \<Rightarrow> 's \<Rightarrow> 's"
  log_ok :: "'c \<Rightarrow> 's \<Rightarrow> 's"
  log_fail :: "'c \<Rightarrow> init_error \<Rightarrow> 's \<Rightarrow> 's"

definition run_component_silent :: "('c, 's) init_table \<Rightarrow> 'c \<Rightarrow> 's \<Rightarrow> (bool \<times> 's) outcome" where
  "run_component_silent ini c s =
     (case ini c s of
        Return (Ok _, s) \<Rightarrow> Return (True, s)
      | Return (Err _, s) \<Rightarrow> Return (False, s)
      | Panic m \<Rightarrow> Panic m)"

definition run_component_logged ::
    "('c, 's) init_table \<Rightarrow> ('c, 's) init_logger \<Rightarrow> 'c \<Rightarrow> 's \<Rightarrow> (bool \<times> 's) outcome" where
  "run_component_logged ini logger c s =
     (case ini c (log_begin logger c s) of
        Return (Err e, s) \<Rightarrow> Return (False, log_fail logger c e s)
      | Return (Ok _, s) \<Rightarrow> Return (True, log_ok logger c s)
      | Panic m \<Rightarrow> Panic m)"

text \<open>The fold expression \<^verbatim>\<open>(run<Components>(...) && ...)\<close>.\<close>

fun init_list_runner :: "('c \<Rightarrow> 's \<Rightarrow> (bool \<times> 's) outcome) \<Rightarrow> 'c list \<Rightarrow> 's \<Rightarrow> (bool \<times> 's) outcome" where
  "init_list_runner run [] s = Return (True, s)"
| "init_list_runner run (c # cs) s =
     (case run c s of
        Return (True, s) \<Rightarrow> init_list_runner run cs s
      | Return (False, s) \<Rightarrow> Return (False, s)
      | Panic m \<Rightarrow> Panic m)"

definition run_init_graph ::
    "('c::finite \<Rightarrow> 'c list) \<Rightarrow> ('c, 's) init_table \<Rightarrow> ('c, 's) init_logger \<Rightarrow> 'c list
      \<Rightarrow> 's \<Rightarrow> (bool \<times> 's) outcome option" where
  "run_init_graph deps ini logger roots s =
     (case topo_list deps roots [] of
        None \<Rightarrow> None
      | Some sorted_components \<Rightarrow> Some (init_list_runner (run_component_logged ini logger) sorted_components s))"

definition run_init_graph_after ::
    "('c::finite \<Rightarrow> 'c list) \<Rightarrow> ('c, 's) init_table \<Rightarrow> ('c, 's) init_logger \<Rightarrow> 'c list \<Rightarrow> 'c list
      \<Rightarrow> 's \<Rightarrow> (bool \<times> 's) outcome option" where
  "run_init_graph_after deps ini logger roots satisfied_roots s =
     (case topo_list deps roots [] of
        None \<Rightarrow> None
      | Some sorted_components \<Rightarrow>
          (case topo_list deps satisfied_roots [] of
             None \<Rightarrow> None
           | Some satisfied \<Rightarrow>
               Some (init_list_runner (run_component_logged ini logger)
                       (list_filter_out sorted_components satisfied) s)))"

definition run_init_graph_silent ::
    "('c::finite \<Rightarrow> 'c list) \<Rightarrow> ('c, 's) init_table \<Rightarrow> 'c list \<Rightarrow> 's \<Rightarrow> (bool \<times> 's) outcome option" where
  "run_init_graph_silent deps ini roots s =
     (case topo_list deps roots [] of
        None \<Rightarrow> None
      | Some sorted_components \<Rightarrow> Some (init_list_runner (run_component_silent ini) sorted_components s))"

definition run_init_graph_after_silent ::
    "('c::finite \<Rightarrow> 'c list) \<Rightarrow> ('c, 's) init_table \<Rightarrow> 'c list \<Rightarrow> 'c list
      \<Rightarrow> 's \<Rightarrow> (bool \<times> 's) outcome option" where
  "run_init_graph_after_silent deps ini roots satisfied_roots s =
     (case topo_list deps roots [] of
        None \<Rightarrow> None
      | Some sorted_components \<Rightarrow>
          (case topo_list deps satisfied_roots [] of
             None \<Rightarrow> None
           | Some satisfied \<Rightarrow>
               Some (init_list_runner (run_component_silent ini)
                       (list_filter_out sorted_components satisfied) s)))"

definition run_init_graph_or_halt ::
    "('c::finite \<Rightarrow> 'c list) \<Rightarrow> ('c, 's) init_table \<Rightarrow> ('c, 's) init_logger \<Rightarrow> 'c list
      \<Rightarrow> 's \<Rightarrow> 's outcome option" where
  "run_init_graph_or_halt deps ini logger roots s =
     (case run_init_graph deps ini logger roots s of
        None \<Rightarrow> None
      | Some (Return (True, s)) \<Rightarrow> Some (Return s)
      | Some (Return (False, s)) \<Rightarrow> Some (Panic ''halt'')
      | Some (Panic m) \<Rightarrow> Some (Panic m))"

text \<open>
  A successful chain of component runs, and the three ways a list of components can end:
  all of them ran, one of them failed, or one of them halted the machine. In the last two
  cases the components before it ran and the ones after it were not started.
\<close>

inductive chain :: "('c \<Rightarrow> 's \<Rightarrow> (bool \<times> 's) outcome) \<Rightarrow> 'c list \<Rightarrow> 's \<Rightarrow> 's \<Rightarrow> bool" for run where
  chain_Nil: "chain run [] s s"
| chain_Cons: "run c s = Return (True, t) \<Longrightarrow> chain run cs t u \<Longrightarrow> chain run (c # cs) s u"

inductive_simps chain_Nil_iff [simp]: "chain run [] s t"
inductive_simps chain_Cons_iff: "chain run (c # cs) s u"

lemma runner_True_iff:
  "init_list_runner run cs s = Return (True, t) \<longleftrightarrow> chain run cs s t"
  by (induction cs arbitrary: s) (auto simp: chain_Cons_iff split: outcome.splits bool.splits)

lemma runner_split:
  "init_list_runner run (as @ bs) s =
     (case init_list_runner run as s of
        Return (True, t) \<Rightarrow> init_list_runner run bs t
      | Return (False, t) \<Rightarrow> Return (False, t)
      | Panic m \<Rightarrow> Panic m)"
  by (induction as arbitrary: s) (auto split: outcome.splits bool.splits)

lemma runner_stop:
  assumes "init_list_runner run cs s = r" "\<forall>t. r \<noteq> Return (True, t)"
  shows "\<exists>k < length cs. \<exists>t. chain run (take k cs) s t \<and> run (cs ! k) t = r"
  using assms
proof (induction cs arbitrary: s)
  case (Cons c cs)
  consider (ok) t where "run c s = Return (True, t)"
    | (stop) "run c s = r"
    using Cons.prems(1) by (auto split: outcome.splits bool.splits)
  then show ?case
  proof cases
    case ok
    then have "init_list_runner run cs t = r" using Cons.prems(1) by simp
    from Cons.IH [OF this Cons.prems(2)] obtain k u where
      "k < length cs" "chain run (take k cs) t u" "run (cs ! k) u = r" by blast
    with ok show ?thesis
      by (intro exI [of _ "Suc k"]) (auto simp: chain_Cons_iff)
  next
    case stop
    then show ?thesis by (intro exI [of _ 0]) auto
  qed
qed auto

text \<open>
  running a sorted graph starts the components in order and stops at the first one
  that fails or halts: there is a point up to which every component succeeded, the
  component at that point (if any) is the one whose outcome is reported, all its
  dependencies are among the components that succeeded, and nothing after it was started.
\<close>

theorem run_init_graph_stops:
  fixes deps :: "'c::finite \<Rightarrow> 'c list"
  assumes "topo_list deps roots [] = Some order"
  shows "\<exists>k t r. run_init_graph deps ini logger roots s = Some r \<and> k \<le> length order
    \<and> chain (run_component_logged ini logger) (take k order) s t
    \<and> (if k = length order then r = Return (True, t)
       else run_component_logged ini logger (order ! k) t = r
         \<and> (\<forall>u. r \<noteq> Return (True, u))
         \<and> set (deps (order ! k)) \<subseteq> set (take k order))"
proof -
  let ?run = "run_component_logged ini logger"
  let ?r = "init_list_runner ?run order s"
  have eq: "run_init_graph deps ini logger roots s = Some ?r"
    by (simp add: run_init_graph_def assms)
  have ord: "topo_ordered deps order" using topo_sound(2) [OF assms] by simp
  show ?thesis
  proof (cases "\<exists>t. ?r = Return (True, t)")
    case True
    then obtain t where t: "?r = Return (True, t)" by blast
    then have "chain ?run order s t" by (simp add: runner_True_iff)
    with eq t show ?thesis by (intro exI [of _ "length order"] exI [of _ t] exI [of _ ?r]) simp
  next
    case False
    then obtain k t where k: "k < length order" and "chain ?run (take k order) s t"
      and "?run (order ! k) t = ?r"
      using runner_stop [of ?run order s ?r] by blast
    moreover have "set (deps (order ! k)) \<subseteq> set (take k order)"
      using ord k by (simp add: topo_ordered_def)
    ultimately show ?thesis
      using eq False by (intro exI [of _ k] exI [of _ t] exI [of _ ?r]) simp
  qed
qed

text \<open>
  \<^verbatim>\<open>init_graph_after\<close> runs exactly the components of its roots that the satisfied
  roots do not reach, and each of them has its dependencies among the satisfied
  components or before it.
\<close>

theorem init_graph_after_runnable:
  fixes deps :: "'c::finite \<Rightarrow> 'c list"
  assumes "topo_list deps roots [] = Some order"
    and "topo_list deps satisfied_roots [] = Some satisfied"
  defines "runnable \<equiv> list_filter_out order satisfied"
  shows "run_init_graph_after deps ini logger roots satisfied_roots s =
           Some (init_list_runner (run_component_logged ini logger) runnable s)
    \<and> set runnable = {c. (\<exists>r \<in> set roots. (r, c) \<in> (dep_rel deps)\<^sup>*)
         \<and> \<not> (\<exists>r \<in> set satisfied_roots. (r, c) \<in> (dep_rel deps)\<^sup>*)}
    \<and> (\<forall>as c bs. runnable = as @ c # bs \<longrightarrow> set (deps c) \<subseteq> set satisfied \<union> set as)"
proof -
  have ord: "topo_ordered deps order" and set: "set order = (dep_rel deps)\<^sup>* `` set roots"
    using topo_sound(2) [OF assms(1)] by auto
  have sat: "set satisfied = (dep_rel deps)\<^sup>* `` set satisfied_roots"
    using topo_sound(2) [OF assms(2)] by auto
  have eq: "runnable = filter (\<lambda>x. x \<notin> set satisfied) order"
    by (simp add: runnable_def list_filter_out_filter)
  have deps: "set (deps c) \<subseteq> set satisfied \<union> set as"
    if run: "filter (\<lambda>x. x \<notin> set satisfied) order = as @ c # bs" for as c bs
  proof -
    obtain us vs where o: "order = us @ c # vs" and us: "filter (\<lambda>x. x \<notin> set satisfied) us = as"
      using filter_split_at [OF run] by blast
    have "set (deps c) \<subseteq> set us"
      using ord unfolding topo_ordered_def o
      by (auto dest!: spec [of _ "length us"])
    moreover have "set us \<subseteq> set satisfied \<union> set as" using us by auto
    ultimately show ?thesis by blast
  qed
  show ?thesis
    using deps by (auto simp: eq run_init_graph_after_def assms runnable_def set sat
        list_filter_out_filter)
qed

end
