(* ===== verification/Boot_Plan.thy ===== *)
theory Boot_Plan
  imports Init_Graph
begin

text \<open>
  The components of the kernel with the dependencies they declare, the root lists of
  \<^verbatim>\<open>platform/pc/boot_plan.hpp\<close> and \<^verbatim>\<open>arch/x86_64/core_wiring.hpp\<close>, the per-core
  initialisation of \<^verbatim>\<open>arch/x86_64/core_init.cpp\<close> and \<^verbatim>\<open>kernel_main\<close>. The initialisers of
  the single components are the argument \<open>base\<close>; the two components whose initialiser
  runs a further graph (\<^verbatim>\<open>CORE_INIT\<close>, \<^verbatim>\<open>LAPIC\<close>) are composed here as the code does.
\<close>

datatype kcomponent =
  SERIAL | CPU | CORE_INIT | BOOT_INFO | PMM | MMU | VMM | KHEAP | RUNTIME | ACPI | LAPIC
| STACKS | TSS | GDT | EXCEPTIONS | IDT | FPU | LAPIC_CORE | DRIVERS

instantiation kcomponent :: finite
begin

instance
proof
  have "(UNIV :: kcomponent set) =
    {SERIAL, CPU, CORE_INIT, BOOT_INFO, PMM, MMU, VMM, KHEAP, RUNTIME, ACPI, LAPIC,
     STACKS, TSS, GDT, EXCEPTIONS, IDT, FPU, LAPIC_CORE, DRIVERS}"
    by (auto intro: kcomponent.exhaust)
  then show "finite (UNIV :: kcomponent set)" by (metis finite.simps)
qed

end

fun deps_of :: "kcomponent \<Rightarrow> kcomponent list" where
  "deps_of SERIAL = []"
| "deps_of CPU = []"
| "deps_of CORE_INIT = [CPU]"
| "deps_of BOOT_INFO = []"
| "deps_of PMM = [BOOT_INFO]"
| "deps_of MMU = [BOOT_INFO, PMM]"
| "deps_of VMM = [MMU]"
| "deps_of KHEAP = [VMM]"
| "deps_of RUNTIME = [KHEAP]"
| "deps_of ACPI = [BOOT_INFO, VMM]"
| "deps_of LAPIC = [ACPI]"
| "deps_of STACKS = []"
| "deps_of TSS = [STACKS]"
| "deps_of GDT = [TSS]"
| "deps_of EXCEPTIONS = []"
| "deps_of IDT = [GDT, EXCEPTIONS]"
| "deps_of FPU = []"
| "deps_of LAPIC_CORE = [IDT]"
| "deps_of DRIVERS = []"

definition early_boot_roots :: "kcomponent list" where "early_boot_roots = [SERIAL]"
definition platform_roots :: "kcomponent list" where "platform_roots = [CORE_INIT]"
definition boot_roots :: "kcomponent list" where "boot_roots = [LAPIC, RUNTIME]"
definition early_core_roots :: "kcomponent list" where "early_core_roots = [IDT, FPU]"
definition late_core_roots :: "kcomponent list" where "late_core_roots = [LAPIC_CORE]"

text \<open>
  The backing a component works on: none for the global components, the local state of a
  core (named by its logical id) for the per-core ones. \<open>emit\<close> prints one log line.
\<close>

datatype backing = No_Backing | Core u32

datatype init_event =
  Ev_Begin backing kcomponent
| Ev_Ok backing kcomponent
| Ev_Fail backing kcomponent init_error
| Ev_Kernel_Boot

type_synonym 's base_init = "backing \<Rightarrow> kcomponent \<Rightarrow> 's \<Rightarrow> (init_result \<times> 's) outcome"

definition kernel_logger :: "(init_event \<Rightarrow> 's \<Rightarrow> 's) \<Rightarrow> backing \<Rightarrow> (kcomponent, 's) init_logger" where
  "kernel_logger emit b =
     \<lparr>log_begin = (\<lambda>c. emit (Ev_Begin b c)),
      log_ok = (\<lambda>c. emit (Ev_Ok b c)),
      log_fail = (\<lambda>c e. emit (Ev_Fail b c e))\<rparr>"

definition core_init_core ::
    "(init_event \<Rightarrow> 's \<Rightarrow> 's) \<Rightarrow> 's base_init \<Rightarrow> ('s \<Rightarrow> bool) \<Rightarrow> u32 \<Rightarrow> 's \<Rightarrow> (bool \<times> 's) outcome option" where
  "core_init_core emit base lapic_ready cpu s =
     (case run_init_graph deps_of (base (Core cpu)) (kernel_logger emit (Core cpu)) early_core_roots s of
        None \<Rightarrow> None
      | Some (Panic m) \<Rightarrow> Some (Panic m)
      | Some (Return (False, s)) \<Rightarrow> Some (Return (False, s))
      | Some (Return (True, s)) \<Rightarrow>
          if lapic_ready s
          then run_init_graph_after deps_of (base (Core cpu)) (kernel_logger emit (Core cpu))
                 late_core_roots early_core_roots s
          else Some (Return (True, s)))"

definition init_late_core ::
    "(init_event \<Rightarrow> 's \<Rightarrow> 's) \<Rightarrow> 's base_init \<Rightarrow> u32 \<Rightarrow> 's \<Rightarrow> (bool \<times> 's) outcome option" where
  "init_late_core emit base cpu s =
     run_init_graph_after deps_of (base (Core cpu)) (kernel_logger emit (Core cpu))
       late_core_roots early_core_roots s"

text \<open>
  \<^verbatim>\<open>core_init::component::init\<close> (\<^verbatim>\<open>init_bsp\<close>) and \<^verbatim>\<open>lapic::component::init_lapic\<close>
  (\<^verbatim>\<open>lapic::init\<close>, then \<^verbatim>\<open>init_late_bsp\<close>); the boot processor has logical id 0.
\<close>

definition or_unspecified :: "(bool \<times> 's) outcome option \<Rightarrow> (init_result \<times> 's) outcome" where
  "or_unspecified r =
     (case r of
        Some (Return (True, s)) \<Rightarrow> Return (Ok (), s)
      | Some (Return (False, s)) \<Rightarrow> Return (Err UNSPECIFIED, s)
      | Some (Panic m) \<Rightarrow> Panic m
      | None \<Rightarrow> Panic ''cycle detected in init graph'')"

definition core_init_init ::
    "(init_event \<Rightarrow> 's \<Rightarrow> 's) \<Rightarrow> 's base_init \<Rightarrow> ('s \<Rightarrow> bool) \<Rightarrow> 's \<Rightarrow> (init_result \<times> 's) outcome" where
  "core_init_init emit base lapic_ready s = or_unspecified (core_init_core emit base lapic_ready 0 s)"

definition init_lapic ::
    "(init_event \<Rightarrow> 's \<Rightarrow> 's) \<Rightarrow> 's base_init \<Rightarrow> 's \<Rightarrow> (init_result \<times> 's) outcome" where
  "init_lapic emit base s =
     (case base No_Backing LAPIC s of
        Panic m \<Rightarrow> Panic m
      | Return (Err e, s) \<Rightarrow> Return (Err e, s)
      | Return (Ok _, s) \<Rightarrow> or_unspecified (init_late_core emit base 0 s))"

fun kernel_init ::
    "(init_event \<Rightarrow> 's \<Rightarrow> 's) \<Rightarrow> 's base_init \<Rightarrow> ('s \<Rightarrow> bool) \<Rightarrow> (kcomponent, 's) init_table" where
  "kernel_init emit base lapic_ready CORE_INIT s = core_init_init emit base lapic_ready s"
| "kernel_init emit base lapic_ready LAPIC s = init_lapic emit base s"
| "kernel_init emit base lapic_ready c s = base No_Backing c s"

text \<open>
  \<^verbatim>\<open>kernel_main\<close> up to the call of \<^verbatim>\<open>doom_os_start_application\<close>, which does not return:
  \<open>Return s\<close> is the state the application starts in. The result of the silent
  early-boot graph is discarded.
\<close>

definition kernel_main ::
    "(init_event \<Rightarrow> 's \<Rightarrow> 's) \<Rightarrow> 's base_init \<Rightarrow> ('s \<Rightarrow> bool) \<Rightarrow> 's \<Rightarrow> 's outcome option" where
  "kernel_main emit base lapic_ready s =
     (let ini = kernel_init emit base lapic_ready;
          logger = kernel_logger emit No_Backing
      in case run_init_graph_silent deps_of ini early_boot_roots s of
           None \<Rightarrow> None
         | Some (Panic m) \<Rightarrow> Some (Panic m)
         | Some (Return (_, s)) \<Rightarrow>
             (case run_init_graph_or_halt deps_of ini logger platform_roots (emit Ev_Kernel_Boot s) of
                None \<Rightarrow> None
              | Some (Panic m) \<Rightarrow> Some (Panic m)
              | Some (Return s) \<Rightarrow> run_init_graph_or_halt deps_of ini logger boot_roots s))"

section \<open>The plan is acyclic and its order\<close>

lemmas root_defs = early_boot_roots_def platform_roots_def boot_roots_def early_core_roots_def
  late_core_roots_def

lemmas sort_simps = topo_component.simps list_append_def list_append_unique_def

lemma early_boot_order [simp]: "topo_list deps_of early_boot_roots [] = Some [SERIAL]"
  by (simp add: root_defs sort_simps)

lemma platform_order [simp]: "topo_list deps_of platform_roots [] = Some [CPU, CORE_INIT]"
  by (simp add: root_defs sort_simps)

lemma boot_order [simp]:
  "topo_list deps_of boot_roots [] = Some [BOOT_INFO, PMM, MMU, VMM, ACPI, LAPIC, KHEAP, RUNTIME]"
  by (simp add: root_defs sort_simps)

lemma early_core_order [simp]:
  "topo_list deps_of early_core_roots [] = Some [STACKS, TSS, GDT, EXCEPTIONS, IDT, FPU]"
  by (simp add: root_defs sort_simps)

lemma late_core_order [simp]:
  "topo_list deps_of late_core_roots [] = Some [STACKS, TSS, GDT, EXCEPTIONS, IDT, LAPIC_CORE]"
  by (simp add: root_defs sort_simps)

lemma runnable_late_core [simp]:
  "list_filter_out [STACKS, TSS, GDT, EXCEPTIONS, IDT, LAPIC_CORE] [STACKS, TSS, GDT, EXCEPTIONS, IDT, FPU]
     = [LAPIC_CORE]"
  by (simp add: list_filter_out_filter)

text \<open>
  the root lists of the platform pass the cycle check; sorted, they start the
  components in the order of the statement, and the late per-core graph has only the local
  APIC left to start.
\<close>

theorem boot_plan_order:
  "topo_list deps_of early_boot_roots [] = Some [SERIAL]
   \<and> topo_list deps_of platform_roots [] = Some [CPU, CORE_INIT]
   \<and> topo_list deps_of early_core_roots [] = Some [STACKS, TSS, GDT, EXCEPTIONS, IDT, FPU]
   \<and> topo_list deps_of boot_roots [] =
        Some [BOOT_INFO, PMM, MMU, VMM, ACPI, LAPIC, KHEAP, RUNTIME]
   \<and> run_init_graph_after deps_of ini logger late_core_roots early_core_roots s =
        Some (init_list_runner (run_component_logged ini logger) [LAPIC_CORE] s)"
  by (simp add: run_init_graph_after_def)

section \<open>What has run when the application starts\<close>

text \<open>
  Any table of initialisers can be observed: the observed table appends a component to a
  trace whenever its initialiser returns \<open>Ok\<close>, and does nothing else to the state.
\<close>

definition observed :: "'s base_init \<Rightarrow> ('s \<times> kcomponent list) base_init" where
  "observed base b c st =
     (case base b c (fst st) of
        Return (Ok _, s) \<Rightarrow> Return (Ok (), (s, snd st @ [c]))
      | Return (Err e, s) \<Rightarrow> Return (Err e, (s, snd st))
      | Panic m \<Rightarrow> Panic m)"

definition observed_emit :: "(init_event \<Rightarrow> 's \<Rightarrow> 's) \<Rightarrow> init_event \<Rightarrow> 's \<times> kcomponent list \<Rightarrow> 's \<times> kcomponent list" where
  "observed_emit emit e st = (emit e (fst st), snd st)"

definition adds :: "('s \<times> 'c list \<Rightarrow> (bool \<times> 's \<times> 'c list) outcome) \<Rightarrow> 'c list set \<Rightarrow> bool" where
  "adds f S \<longleftrightarrow> (\<forall>st st'. f st = Return (True, st') \<longrightarrow> (\<exists>e \<in> S. snd st' = snd st @ e))"

lemma chain_adds:
  assumes "chain run cs st st'" "\<And>c. c \<in> set cs \<Longrightarrow> adds (run c) (S c)"
  shows "\<exists>es. list_all2 (\<lambda>c e. e \<in> S c) cs es \<and> snd st' = snd st @ concat es"
  using assms
proof (induction rule: chain.induct)
  case (chain_Nil st)
  then show ?case by (intro exI [of _ "[]"]) simp
next
  case (chain_Cons c st t cs u)
  then obtain es where es: "list_all2 (\<lambda>c e. e \<in> S c) cs es" "snd u = snd t @ concat es"
    by auto
  have "adds (run c) (S c)" using chain_Cons.prems by simp
  then obtain e where "e \<in> S c" "snd t = snd st @ e"
    using chain_Cons.hyps(1) unfolding adds_def by blast
  with es show ?case by (intro exI [of _ "e # es"]) simp
qed

lemma adds_list:
  assumes "\<And>c. c \<in> set cs \<Longrightarrow> adds (run c) (S c)"
  shows "adds (init_list_runner run cs) {concat es | es. list_all2 (\<lambda>c e. e \<in> S c) cs es}"
  unfolding adds_def using chain_adds [OF _ assms] by (fastforce simp: runner_True_iff)

lemma adds_logged:
  assumes "\<And>st r st'. ini c st = Return (Ok (), st') \<Longrightarrow> \<exists>e \<in> S. snd st' = snd st @ e"
  shows "adds (run_component_logged ini (kernel_logger (observed_emit emit) b) c) S"
  unfolding adds_def run_component_logged_def kernel_logger_def observed_emit_def
  using assms by (fastforce split: outcome.splits sum.splits)

lemma adds_observed:
  "adds (run_component_logged (observed base b') (kernel_logger (observed_emit emit) b) c) {[c]}"
  by (rule adds_logged) (auto simp: observed_def split: outcome.splits sum.splits)

lemma adds_observed_list:
  "adds (init_list_runner (run_component_logged (observed base b') (kernel_logger (observed_emit emit) b)) cs) {cs}"
proof -
  have "concat es = cs" if "list_all2 (\<lambda>c e. e \<in> {[c]}) cs es" for es :: "kcomponent list list"
    using that by (induction rule: list_all2_induct) auto
  then have "{concat es | es. list_all2 (\<lambda>c e. e \<in> {[c]}) cs es} \<subseteq> {cs}"
    by auto
  moreover have "adds (init_list_runner (run_component_logged (observed base b')
      (kernel_logger (observed_emit emit) b)) cs) {concat es | es. list_all2 (\<lambda>c e. e \<in> {[c]}) cs es}"
    by (rule adds_list) (rule adds_observed)
  ultimately show ?thesis unfolding adds_def by blast
qed

definition core_trace :: "kcomponent list" where
  "core_trace = [STACKS, TSS, GDT, EXCEPTIONS, IDT, FPU]"

lemma addsD: "adds f S \<Longrightarrow> f st = Return (True, st') \<Longrightarrow> \<exists>e \<in> S. snd st' = snd st @ e"
  unfolding adds_def by blast

lemma core_init_adds:
  assumes "core_init_init (observed_emit emit) (observed base) ready st = Return (Ok (), st')"
  shows "\<exists>late \<in> {[], [LAPIC_CORE]}. snd st' = snd st @ core_trace @ late"
proof -
  let ?run = "run_component_logged (observed base (Core 0)) (kernel_logger (observed_emit emit) (Core 0))"
  obtain t where t: "init_list_runner ?run core_trace st = Return (True, t)"
    and st': "if ready t then init_list_runner ?run [LAPIC_CORE] t = Return (True, st') else st' = t"
    using assms
    by (auto simp: core_init_init_def or_unspecified_def core_init_core_def run_init_graph_def
        run_init_graph_after_def core_trace_def simp del: init_list_runner.simps
        split: outcome.splits bool.splits if_splits)
  have t': "snd t = snd st @ core_trace"
    using addsD [OF adds_observed_list t] by simp
  show ?thesis
  proof (cases "ready t")
    case True
    then have "snd st' = snd t @ [LAPIC_CORE]"
      using st' addsD [OF adds_observed_list, of _ _ _ _ "[LAPIC_CORE]" t st'] by simp
    then show ?thesis using t' by simp
  next
    case False
    then show ?thesis using st' t' by simp
  qed
qed

lemma init_lapic_adds:
  assumes "init_lapic (observed_emit emit) (observed base) st = Return (Ok (), st')"
  shows "snd st' = snd st @ [LAPIC, LAPIC_CORE]"
proof -
  let ?run = "run_component_logged (observed base (Core 0)) (kernel_logger (observed_emit emit) (Core 0))"
  obtain t where "observed base No_Backing LAPIC st = Return (Ok (), t)"
    and t: "init_list_runner ?run [LAPIC_CORE] t = Return (True, st')"
    using assms
    by (auto simp: init_lapic_def or_unspecified_def init_late_core_def
        run_init_graph_after_def simp del: init_list_runner.simps
        split: outcome.splits sum.splits bool.splits)
  then have "snd t = snd st @ [LAPIC]"
    by (auto simp: observed_def split: outcome.splits sum.splits)
  then show ?thesis using addsD [OF adds_observed_list t] by simp
qed

definition kernel_adds :: "kcomponent \<Rightarrow> kcomponent list set" where
  "kernel_adds c =
     (if c = CORE_INIT then {core_trace, core_trace @ [LAPIC_CORE]}
      else if c = LAPIC then {[LAPIC, LAPIC_CORE]}
      else {[c]})"

lemma kernel_init_adds:
  "adds (run_component_logged (kernel_init (observed_emit emit) (observed base) ready)
     (kernel_logger (observed_emit emit) No_Backing) c) (kernel_adds c)"
proof (rule adds_logged)
  fix st r st'
  assume ini: "kernel_init (observed_emit emit) (observed base) ready c st = Return (Ok (), st')"
  show "\<exists>e \<in> kernel_adds c. snd st' = snd st @ e"
  proof (cases "c = CORE_INIT \<or> c = LAPIC")
    case True
    have "\<exists>e \<in> kernel_adds CORE_INIT. snd st' = snd st @ e" if "c = CORE_INIT"
      using core_init_adds [of emit base ready st st'] ini that by (auto simp: kernel_adds_def)
    moreover have "\<exists>e \<in> kernel_adds LAPIC. snd st' = snd st @ e" if "c = LAPIC"
      using init_lapic_adds [of emit base st st'] ini that by (auto simp: kernel_adds_def)
    ultimately show ?thesis using True by blast
  next
    case False
    then have "observed base No_Backing c st = Return (Ok (), st')"
      using ini by (cases c) auto
    then show ?thesis
      using False by (auto simp: kernel_adds_def observed_def split: outcome.splits sum.splits)
  qed
qed

lemma or_halt_adds:
  assumes "run_init_graph_or_halt deps_of (kernel_init (observed_emit emit) (observed base) ready)
      (kernel_logger (observed_emit emit) No_Backing) roots st = Some (Return st')"
    and "topo_list deps_of roots [] = Some order"
  shows "\<exists>es. list_all2 (\<lambda>c e. e \<in> kernel_adds c) order es \<and> snd st' = snd st @ concat es"
proof -
  have "chain (run_component_logged (kernel_init (observed_emit emit) (observed base) ready)
      (kernel_logger (observed_emit emit) No_Backing)) order st st'"
    using assms
    by (auto simp: run_init_graph_or_halt_def run_init_graph_def simp flip: runner_True_iff
        split: outcome.splits bool.splits)
  then show ?thesis by (rule chain_adds) (rule kernel_init_adds)
qed

text \<open>
  C22: \<^verbatim>\<open>kernel_main\<close> starts the application only after every component of the plan has
  initialised successfully, in this order. The serial console may be missing, since the
  result of the early graph is discarded, and the local APIC of the boot core is
  initialised early as well if it is already mapped; nothing else may vary. The driver
  framework is not part of any root list and is never started here.
\<close>

theorem kernel_main_sequence:
  assumes "kernel_main (observed_emit emit) (observed base) ready (s, []) = Some (Return (s', tr))"
  shows "\<exists>early \<in> {[], [SERIAL]}. \<exists>late \<in> {[], [LAPIC_CORE]}.
    tr = early @ [CPU, STACKS, TSS, GDT, EXCEPTIONS, IDT, FPU] @ late
           @ [BOOT_INFO, PMM, MMU, VMM, ACPI, LAPIC, LAPIC_CORE, KHEAP, RUNTIME]"
proof -
  let ?ini = "kernel_init (observed_emit emit) (observed base) ready"
  let ?logger = "kernel_logger (observed_emit emit) No_Backing"
  obtain b s1 s2 where early: "run_init_graph_silent deps_of ?ini early_boot_roots (s, []) = Some (Return (b, s1))"
    and plat: "run_init_graph_or_halt deps_of ?ini ?logger platform_roots
        (observed_emit emit Ev_Kernel_Boot s1) = Some (Return s2)"
    and boot: "run_init_graph_or_halt deps_of ?ini ?logger boot_roots s2 = Some (Return (s', tr))"
    using assms by (auto simp: kernel_main_def Let_def split: option.splits outcome.splits)
  have "snd s1 \<in> {[], [SERIAL]}"
    using early by (auto simp: run_init_graph_silent_def run_component_silent_def observed_def
        split: outcome.splits sum.splits bool.splits)
  moreover have "\<exists>late \<in> {[], [LAPIC_CORE]}. snd s2 = snd s1 @ [CPU] @ core_trace @ late"
    using or_halt_adds [OF plat platform_order]
    by (auto simp: list_all2_Cons1 kernel_adds_def observed_emit_def)
  moreover have "tr = snd s2 @ [BOOT_INFO, PMM, MMU, VMM, ACPI, LAPIC, LAPIC_CORE, KHEAP, RUNTIME]"
    using or_halt_adds [OF boot boot_order]
    by (auto simp: list_all2_Cons1 kernel_adds_def)
  ultimately show ?thesis by (auto simp: core_trace_def)
qed

section \<open>Instances\<close>

lemma topo_list_sorts_witness:
  "distinct [BOOT_INFO, PMM, MMU, VMM, ACPI, LAPIC, KHEAP, RUNTIME]
   \<and> set [BOOT_INFO, PMM, MMU, VMM, ACPI, LAPIC, KHEAP, RUNTIME] =
       {c. \<exists>r \<in> set boot_roots. (r, c) \<in> (dep_rel deps_of)\<^sup>*}"
  using topo_list_sorts [OF boot_order] by blast

text \<open>A table whose MMU initialiser fails, on a state that lists what has been initialised.\<close>

definition failing_mmu :: "(kcomponent, kcomponent list) init_table" where
  "failing_mmu c s = Return (if c = MMU then (Err NO_USABLE_MEMORY, s) else (Ok (), s @ [c]))"

definition silent_logger :: "(kcomponent, kcomponent list) init_logger" where
  "silent_logger = kernel_logger (\<lambda>_ s. s) No_Backing"

lemma failing_mmu_run:
  "run_init_graph deps_of failing_mmu silent_logger boot_roots [] = Some (Return (False, [BOOT_INFO, PMM]))"
  by (simp add: run_init_graph_def run_component_logged_def failing_mmu_def silent_logger_def
      kernel_logger_def)

definition always_ok :: "unit base_init" where
  "always_ok b c s = Return (Ok (), s)"

lemma always_ok_reaches_application:
  "kernel_main (observed_emit (\<lambda>_ s. s)) (observed always_ok) (\<lambda>_. False) ((), []) =
     Some (Return ((), [SERIAL, CPU, STACKS, TSS, GDT, EXCEPTIONS, IDT, FPU,
       BOOT_INFO, PMM, MMU, VMM, ACPI, LAPIC, LAPIC_CORE, KHEAP, RUNTIME]))"
  by (simp add: kernel_main_def Let_def run_init_graph_silent_def run_component_silent_def
      run_init_graph_or_halt_def run_init_graph_def run_component_logged_def observed_def
      observed_emit_def always_ok_def kernel_logger_def core_init_init_def core_init_core_def
      or_unspecified_def init_lapic_def init_late_core_def run_init_graph_after_def)

lemma kernel_main_sequence_witness:
  "\<exists>early \<in> {[], [SERIAL]}. \<exists>late \<in> {[], [LAPIC_CORE]}.
    [SERIAL, CPU, STACKS, TSS, GDT, EXCEPTIONS, IDT, FPU,
       BOOT_INFO, PMM, MMU, VMM, ACPI, LAPIC, LAPIC_CORE, KHEAP, RUNTIME]
      = early @ [CPU, STACKS, TSS, GDT, EXCEPTIONS, IDT, FPU] @ late
          @ [BOOT_INFO, PMM, MMU, VMM, ACPI, LAPIC, LAPIC_CORE, KHEAP, RUNTIME]"
  using kernel_main_sequence [OF always_ok_reaches_application] .

end
