(* ===== verification/Bytes.thy ===== *)
theory Bytes
  imports Prelude
begin

text \<open>
  Memory as a function from addresses to bytes, the little-endian reads a cast to a
  structure pointer performs, and what it means for two memories to agree on a buffer.
  A function that gives equal results on memories that agree on a buffer reads nothing
  outside the buffer: this is how the parsers' bounds are stated.
\<close>

type_synonym memory = "u64 \<Rightarrow> u8"

text \<open>A read: the address and the number of bytes.\<close>

type_synonym access = "u64 \<times> nat"

definition access_in :: "u64 \<Rightarrow> nat \<Rightarrow> access \<Rightarrow> bool" where
  "access_in base n r \<longleftrightarrow> (\<exists>k. fst r = base + of_nat k \<and> k + snd r \<le> n)"

lemma access_inI: "k + l \<le> n \<Longrightarrow> access_in base n (base + of_nat k, l)"
  by (auto simp: access_in_def)

lemma access_in_0: "l \<le> n \<Longrightarrow> access_in base n (base, l)"
  using access_inI [of 0 l n base] by simp

lemma access_in_offset:
  assumes "access_in (base + k) m r" "unat k + m \<le> n"
  shows "access_in base n r"
proof -
  obtain j where "fst r = base + k + of_nat j" "j + snd r \<le> m" using assms(1) by (auto simp: access_in_def)
  then have "fst r = base + of_nat (unat k + j) \<and> unat k + j + snd r \<le> n" using assms(2) by simp
  then show ?thesis unfolding access_in_def by blast
qed

fun read_le :: "memory \<Rightarrow> u64 \<Rightarrow> nat \<Rightarrow> nat" where
  "read_le mem a 0 = 0"
| "read_le mem a (Suc n) = unat (mem a) + 256 * read_le mem (a + 1) n"

lemma read_le_numeral:
  "read_le mem a (numeral k) = unat (mem a) + 256 * read_le mem (a + 1) (pred_numeral k)"
  by (simp add: numeral_eq_Suc)

definition read16 :: "memory \<Rightarrow> u64 \<Rightarrow> u16" where "read16 mem a = of_nat (read_le mem a 2)"
definition read32 :: "memory \<Rightarrow> u64 \<Rightarrow> u32" where "read32 mem a = of_nat (read_le mem a 4)"
definition read64 :: "memory \<Rightarrow> u64 \<Rightarrow> u64" where "read64 mem a = of_nat (read_le mem a 8)"

definition bytes_at :: "memory \<Rightarrow> u64 \<Rightarrow> nat \<Rightarrow> u8 list" where
  "bytes_at mem a n = map (\<lambda>i. mem (a + of_nat i)) [0..<n]"

definition char_of_byte :: "u8 \<Rightarrow> char" where
  "char_of_byte b = char_of (unat b)"

definition agree :: "memory \<Rightarrow> memory \<Rightarrow> u64 \<Rightarrow> nat \<Rightarrow> bool" where
  "agree mem mem' a n \<longleftrightarrow> (\<forall>i < n. mem (a + of_nat i) = mem' (a + of_nat i))"

lemma agree_refl [simp]: "agree mem mem a n"
  by (simp add: agree_def)

lemma agree_mono: "agree mem mem' a n \<Longrightarrow> m \<le> n \<Longrightarrow> agree mem mem' a m"
  by (simp add: agree_def)

lemma agree_offset:
  assumes "agree mem mem' a n" "k + m \<le> n"
  shows "agree mem mem' (a + of_nat k) m"
proof -
  have "mem (a + of_nat k + of_nat i) = mem' (a + of_nat k + of_nat i)" if "i < m" for i
    using assms(1) [unfolded agree_def, rule_format, of "k + i"] assms(2) that
    by (simp add: add.assoc)
  then show ?thesis by (simp add: agree_def)
qed

lemma agree_word_offset:
  assumes "agree mem mem' a n" "unat k + m \<le> n"
  shows "agree mem mem' (a + k) m"
  using agree_offset [OF assms] by simp

lemma byte_agree: "agree mem mem' a n \<Longrightarrow> 0 < n \<Longrightarrow> mem a = mem' a"
  unfolding agree_def by (drule spec [of _ 0]) simp

lemma read_le_agree: "agree mem mem' a n \<Longrightarrow> read_le mem a n = read_le mem' a n"
proof (induction n arbitrary: a)
  case (Suc n)
  have "mem a = mem' a" using byte_agree [OF Suc.prems] by simp
  moreover have "agree mem mem' (a + 1) n" using agree_offset [OF Suc.prems, of 1 n] by simp
  ultimately show ?case using Suc.IH by simp
qed simp

lemma read_agree:
  "agree mem mem' a n \<Longrightarrow> 2 \<le> n \<Longrightarrow> read16 mem a = read16 mem' a"
  "agree mem mem' a n \<Longrightarrow> 4 \<le> n \<Longrightarrow> read32 mem a = read32 mem' a"
  "agree mem mem' a n \<Longrightarrow> 8 \<le> n \<Longrightarrow> read64 mem a = read64 mem' a"
  by (simp_all add: read16_def read32_def read64_def read_le_agree [OF agree_mono])

lemma bytes_at_agree: "agree mem mem' a n \<Longrightarrow> m \<le> n \<Longrightarrow> bytes_at mem a m = bytes_at mem' a m"
  by (simp add: bytes_at_def agree_def)

lemma bytes_at_0 [simp]: "bytes_at mem a 0 = []"
  by (simp add: bytes_at_def)

lemma bytes_at_Suc: "bytes_at mem a (Suc n) = mem a # bytes_at mem (a + 1) n"
proof -
  have "[0..<Suc n] = 0 # map Suc [0..<n]" by (simp add: upt_conv_Cons map_Suc_upt del: upt_Suc)
  then show ?thesis by (simp add: bytes_at_def algebra_simps del: upt_Suc)
qed

lemma length_bytes_at [simp]: "length (bytes_at mem a n) = n"
  by (simp add: bytes_at_def)

text \<open>A memory that holds a list of bytes at an address, zero elsewhere.\<close>

definition image_at :: "u64 \<Rightarrow> u8 list \<Rightarrow> memory" where
  "image_at base bs a = (if unat (a - base) < length bs then bs ! unat (a - base) else 0)"

lemmas read_eval = read16_def read32_def read64_def read_le_numeral image_at_def

end
