(* ===== verification/Multiboot2.thy ===== *)
theory Multiboot2
  imports Bits Bytes Boot_Info
begin

text \<open>
  The Multiboot2 protocol: \<^verbatim>\<open>kernel/boot/multiboot2/spec.hpp\<close> (tag layouts),
  \<^verbatim>\<open>iterator.hpp\<close> (the validity check and the walk over the tags) and \<^verbatim>\<open>adapter.cpp\<close>
  (translation into the protocol-neutral boot information). A tag is its address; its
  fields are read from memory at the offsets the structures have. The walk over the tags
  follows the sizes stored in memory and has no bound of its own: \<open>None\<close> is a walk that
  never ends.
\<close>

section \<open>Layout\<close>

definition BOOTLOADER_MAGIC :: u64 where "BOOTLOADER_MAGIC = 0x36D76289"
definition TAG_ALIGNMENT :: u64 where "TAG_ALIGNMENT = 8"

datatype tag_type =
  END | COMMAND_LINE | BOOTLOADER_NAME | MODULE | BASIC_MEMORY | BIOS_BOOT_DEVICE | MEMORY_MAP
| VBE | FRAMEBUFFER | ELF_SECTIONS | APM | EFI32_SYSTEM_TABLE | EFI64_SYSTEM_TABLE | SMBIOS
| ACPI_OLD | ACPI_NEW | NETWORK | EFI_MEMORY_MAP | EFI_BOOT_SERVICES | EFI32_IMAGE_HANDLE
| EFI64_IMAGE_HANDLE | LOAD_BASE_ADDRESS

fun tag_code :: "tag_type \<Rightarrow> u32" where
  "tag_code END = 0"
| "tag_code COMMAND_LINE = 1"
| "tag_code BOOTLOADER_NAME = 2"
| "tag_code MODULE = 3"
| "tag_code BASIC_MEMORY = 4"
| "tag_code BIOS_BOOT_DEVICE = 5"
| "tag_code MEMORY_MAP = 6"
| "tag_code VBE = 7"
| "tag_code FRAMEBUFFER = 8"
| "tag_code ELF_SECTIONS = 9"
| "tag_code APM = 10"
| "tag_code EFI32_SYSTEM_TABLE = 11"
| "tag_code EFI64_SYSTEM_TABLE = 12"
| "tag_code SMBIOS = 13"
| "tag_code ACPI_OLD = 14"
| "tag_code ACPI_NEW = 15"
| "tag_code NETWORK = 16"
| "tag_code EFI_MEMORY_MAP = 17"
| "tag_code EFI_BOOT_SERVICES = 18"
| "tag_code EFI32_IMAGE_HANDLE = 19"
| "tag_code EFI64_IMAGE_HANDLE = 20"
| "tag_code LOAD_BASE_ADDRESS = 21"

definition SIZEOF_fixed_header :: nat where "SIZEOF_fixed_header = 8"
definition SIZEOF_tag_header :: nat where "SIZEOF_tag_header = 8"
definition SIZEOF_string_tag :: nat where "SIZEOF_string_tag = 8"
definition SIZEOF_module_tag :: nat where "SIZEOF_module_tag = 16"
definition SIZEOF_memory_map_tag :: nat where "SIZEOF_memory_map_tag = 16"
definition SIZEOF_memory_map_entry :: nat where "SIZEOF_memory_map_entry = 24"
definition SIZEOF_framebuffer_tag :: nat where "SIZEOF_framebuffer_tag = 32"
definition SIZEOF_framebuffer_color :: nat where "SIZEOF_framebuffer_color = 3"
definition SIZEOF_framebuffer_rgb :: nat where "SIZEOF_framebuffer_rgb = 6"
definition SIZEOF_acpi_tag :: nat where "SIZEOF_acpi_tag = 28"

lemmas sizeof_defs [layout] = SIZEOF_fixed_header_def SIZEOF_tag_header_def SIZEOF_string_tag_def
  SIZEOF_module_tag_def SIZEOF_memory_map_tag_def SIZEOF_memory_map_entry_def
  SIZEOF_framebuffer_tag_def SIZEOF_framebuffer_color_def SIZEOF_framebuffer_rgb_def
  SIZEOF_acpi_tag_def

text \<open>\<^verbatim>\<open>fixed_header\<close> and \<^verbatim>\<open>tag_header\<close>.\<close>

definition total_size :: "memory \<Rightarrow> u64 \<Rightarrow> u32" where "total_size mem header = read32 mem header"
definition tag_type_at :: "memory \<Rightarrow> u64 \<Rightarrow> u32" where "tag_type_at mem tag = read32 mem tag"
definition tag_size_at :: "memory \<Rightarrow> u64 \<Rightarrow> u32" where "tag_size_at mem tag = read32 mem (tag + 4)"

definition payload :: "memory \<Rightarrow> u64 \<Rightarrow> nat \<Rightarrow> u8 list" where
  "payload mem tag sizeof =
     (if unat (tag_size_at mem tag) \<le> sizeof then []
      else bytes_at mem (tag + of_nat sizeof) (unat (tag_size_at mem tag) - sizeof))"

fun bounded_length :: "u8 list \<Rightarrow> nat" where
  "bounded_length [] = 0"
| "bounded_length (b # bs) = (if char_of_byte b \<noteq> CHR 0x00 then Suc (bounded_length bs) else 0)"

definition bounded_string :: "u8 list \<Rightarrow> c_string" where
  "bounded_string bs = map char_of_byte (take (bounded_length bs) bs)"

definition string_value :: "memory \<Rightarrow> u64 \<Rightarrow> c_string" where
  "string_value mem tag = bounded_string (payload mem tag SIZEOF_string_tag)"

definition mod_start :: "memory \<Rightarrow> u64 \<Rightarrow> u32" where "mod_start mem tag = read32 mem (tag + 8)"
definition mod_end :: "memory \<Rightarrow> u64 \<Rightarrow> u32" where "mod_end mem tag = read32 mem (tag + 12)"

definition module_command_line :: "memory \<Rightarrow> u64 \<Rightarrow> c_string" where
  "module_command_line mem tag = bounded_string (payload mem tag SIZEOF_module_tag)"

definition entry_size :: "memory \<Rightarrow> u64 \<Rightarrow> u32" where "entry_size mem tag = read32 mem (tag + 8)"

record memory_map_entry =
  base_addr :: u64
  entry_length :: u64
  entry_type :: u32

definition read_entry :: "memory \<Rightarrow> u64 \<Rightarrow> memory_map_entry" where
  "read_entry mem a =
     \<lparr>base_addr = read64 mem a, entry_length = read64 mem (a + 8), entry_type = read32 mem (a + 16)\<rparr>"

text \<open>\<^verbatim>\<open>framebuffer_tag\<close> with its two payload readings.\<close>

definition fb_address :: "memory \<Rightarrow> u64 \<Rightarrow> u64" where "fb_address mem tag = read64 mem (tag + 8)"
definition fb_tag_pitch :: "memory \<Rightarrow> u64 \<Rightarrow> u32" where "fb_tag_pitch mem tag = read32 mem (tag + 16)"
definition fb_tag_width :: "memory \<Rightarrow> u64 \<Rightarrow> u32" where "fb_tag_width mem tag = read32 mem (tag + 20)"
definition fb_tag_height :: "memory \<Rightarrow> u64 \<Rightarrow> u32" where "fb_tag_height mem tag = read32 mem (tag + 24)"
definition fb_tag_bpp :: "memory \<Rightarrow> u64 \<Rightarrow> u8" where "fb_tag_bpp mem tag = mem (tag + 28)"
definition fb_tag_type :: "memory \<Rightarrow> u64 \<Rightarrow> u8" where "fb_tag_type mem tag = mem (tag + 29)"

definition FB_INDEXED :: u8 where "FB_INDEXED = 0"
definition FB_RGB :: u8 where "FB_RGB = 1"
definition FB_EGA_TEXT :: u8 where "FB_EGA_TEXT = 2"

fun read_colors :: "nat \<Rightarrow> u8 list \<Rightarrow> palette_color list" where
  "read_colors (Suc n) (r # g # b # bs) = \<lparr>pc_red = r, pc_green = g, pc_blue = b\<rparr> # read_colors n bs"
| "read_colors _ _ = []"

definition palette :: "memory \<Rightarrow> u64 \<Rightarrow> palette_color list" where
  "palette mem tag =
     (let bytes = payload mem tag SIZEOF_framebuffer_tag
      in if fb_tag_type mem tag \<noteq> FB_INDEXED \<or> length bytes < 2 then []
         else
           let count = unat (bytes ! 0) + 256 * unat (bytes ! 1);
               fits = (length bytes - 2) div SIZEOF_framebuffer_color
           in read_colors (if count < fits then count else fits) (drop 2 bytes))"

record framebuffer_rgb =
  red_position :: u8
  red_mask_size :: u8
  green_position :: u8
  green_mask_size :: u8
  blue_position :: u8
  blue_mask_size :: u8

definition rgb :: "memory \<Rightarrow> u64 \<Rightarrow> framebuffer_rgb option" where
  "rgb mem tag =
     (let bytes = payload mem tag SIZEOF_framebuffer_tag
      in if fb_tag_type mem tag \<noteq> FB_RGB \<or> length bytes < SIZEOF_framebuffer_rgb then None
         else Some \<lparr>red_position = bytes ! 0, red_mask_size = bytes ! 1,
                    green_position = bytes ! 2, green_mask_size = bytes ! 3,
                    blue_position = bytes ! 4, blue_mask_size = bytes ! 5\<rparr>)"

section \<open>Validity and iteration\<close>

definition tag_step :: "memory \<Rightarrow> u64 \<Rightarrow> u64" where
  "tag_step mem tag = align_up (ucast (tag_size_at mem tag)) TAG_ALIGNMENT"

lemma unat_ucast_32_64 [simp]: "unat (ucast (w :: u32) :: u64) = unat w"
proof -
  have "unat w < 2 ^ 32" using unsigned_less [of w] by simp
  then show ?thesis by (simp add: unsigned_ucast_eq take_bit_nat_eq_self)
qed

lemma unat_tag_step: "unat (tag_step mem tag) = (unat (tag_size_at mem tag) + 7) div 8 * 8"
proof -
  have "unat (tag_size_at mem tag) < 2 ^ 32" using unsigned_less [of "tag_size_at mem tag"] by simp
  then show ?thesis
    using unat_align_up [of 3 "ucast (tag_size_at mem tag) :: u64"]
    by (simp add: tag_step_def TAG_ALIGNMENT_def)
qed

lemma step_remaining:
  fixes fin at step :: u64
  assumes "step \<le> fin - at"
  shows "unat (fin - (at + step)) = unat (fin - at) - unat step"
  using unat_minus_le [OF assms] by (simp add: algebra_simps)

text \<open>
  The loop of the check, with the reads of tag headers it performs beside its result, each as
  address and number of bytes: the size of a tag first, its type only when the size is sane.
\<close>

function well_formed_scan :: "memory \<Rightarrow> u64 \<Rightarrow> u64 \<Rightarrow> bool \<times> access list" where
  "well_formed_scan mem at fin =
     (if unat (fin - at) \<ge> SIZEOF_tag_header
      then
        if unat (tag_size_at mem at) < SIZEOF_tag_header \<or> unat (tag_size_at mem at) > unat (fin - at)
        then (False, [(at + 4, 4)])
        else if tag_type_at mem at = tag_code END
        then (unat (tag_size_at mem at) = SIZEOF_tag_header, [(at + 4, 4), (at, 4)])
        else if tag_step mem at > fin - at then (False, [(at + 4, 4), (at, 4)])
        else
          let (r, reads) = well_formed_scan mem (at + tag_step mem at) fin
          in (r, (at + 4, 4) # (at, 4) # reads)
      else (False, []))"
  by pat_completeness auto

termination
proof (relation "measure (\<lambda>(mem, at, fin). unat (fin - at))")
  fix mem at fin
  assume size: "\<not> (unat (tag_size_at mem at) < SIZEOF_tag_header \<or> unat (tag_size_at mem at) > unat (fin - at))"
    and step: "\<not> fin - at < tag_step mem at"
  have "unat (tag_step mem at) \<ge> 8"
    using size by (simp only: unat_tag_step SIZEOF_tag_header_def) linarith
  moreover have "unat (tag_step mem at) \<le> unat (fin - at)"
    using step by (simp add: word_less_nat_alt not_less)
  moreover have "unat (fin - (at + tag_step mem at)) = unat (fin - at) - unat (tag_step mem at)"
    using step by (intro step_remaining) simp
  ultimately show "((mem, at + tag_step mem at, fin), mem, at, fin) \<in> measure (\<lambda>(mem, at, fin). unat (fin - at))"
    by simp
qed simp

declare well_formed_scan.simps [simp del]

text \<open>The check reads \<^verbatim>\<open>total_size\<close> first.\<close>

definition well_formed_reads :: "memory \<Rightarrow> u64 \<Rightarrow> bool \<times> access list" where
  "well_formed_reads mem header =
     (if unat (total_size mem header) < SIZEOF_fixed_header then (False, [(header, 4)])
      else if ucast (total_size mem header) > NOT 0 - header then (False, [(header, 4)])
      else
        let (r, reads) = well_formed_scan mem (header + of_nat SIZEOF_fixed_header) (header + ucast (total_size mem header))
        in (r, (header, 4) # reads))"

definition well_formed :: "memory \<Rightarrow> u64 \<Rightarrow> bool" where
  "well_formed mem header = fst (well_formed_reads mem header)"

definition entries :: "memory \<Rightarrow> u64 \<Rightarrow> memory_map_entry list" where
  "entries mem tag =
     (let fst = tag + of_nat SIZEOF_memory_map_tag;
          cnt = (unat (tag_size_at mem tag) - SIZEOF_memory_map_tag) div unat (entry_size mem tag);
          stride = ucast (entry_size mem tag)
      in map (\<lambda>i. read_entry mem (fst + of_nat i * stride)) [0..<cnt])"

section \<open>Translation of the tags\<close>

type_synonym tag_translator = "memory \<Rightarrow> u64 \<Rightarrow> boot_info \<Rightarrow> (bool \<times> boot_info) outcome"

definition translate_as :: "nat \<Rightarrow> tag_translator \<Rightarrow> tag_translator" where
  "translate_as sizeof translate mem tag out =
     (if unat (tag_size_at mem tag) < sizeof then Return (False, out) else translate mem tag out)"

definition translate_command_line :: tag_translator where
  "translate_command_line mem tag out =
     (let text = string_value mem tag
      in Return (True, out\<lparr>command_line := fs_assign MAX_BOOT_STRING (command_line out) text (length text)\<rparr>))"

definition translate_bootloader_name :: tag_translator where
  "translate_bootloader_name mem tag out =
     (let text = string_value mem tag
      in Return (True,
           out\<lparr>bootloader_name := fs_assign MAX_BOOT_STRING (bootloader_name out) text (length text)\<rparr>))"

definition translate_memory_type :: "u32 \<Rightarrow> memory_kind" where
  "translate_memory_type ty =
     (if ty = 1 then USABLE
      else if ty = 3 then ACPI_RECLAIMABLE
      else if ty = 4 then ACPI_NVS
      else if ty = 5 then DEFECTIVE
      else RESERVED)"

fun emplace_all :: "nat \<Rightarrow> 'a list \<Rightarrow> 'a inplace_vector \<Rightarrow> 'a inplace_vector outcome" where
  "emplace_all N [] v = Return v"
| "emplace_all N (x # xs) v = obind (emplace_back N v x) (emplace_all N xs)"

definition region_of_entry :: "memory_map_entry \<Rightarrow> memory_region" where
  "region_of_entry e =
     \<lparr>mr_base = base_addr e, mr_length = entry_length e, mr_kind = translate_memory_type (entry_type e)\<rparr>"

definition translate_memory_map :: tag_translator where
  "translate_memory_map mem tag out =
     (if unat (entry_size mem tag) < SIZEOF_memory_map_entry then Return (False, out)
      else
        obind (emplace_all MAX_BOOT_MEMORY_REGIONS (map region_of_entry (entries mem tag)) (memory_map out))
          (\<lambda>v. Return (True, out\<lparr>memory_map := v\<rparr>)))"

definition translate_module :: tag_translator where
  "translate_module mem tag out =
     (if mod_end mem tag \<le> mod_start mem tag then Return (True, out)
      else
        let rng = \<lparr>r_base = ucast (mod_start mem tag), r_length = ucast (mod_end mem tag - mod_start mem tag)\<rparr>
        in obind (emplace_back MAX_BOOT_MODULES (modules out) (module_info_zero\<lparr>mod_range := rng\<rparr>))
             (\<lambda>v. let text = module_command_line mem tag;
                      entry = v_items v ! (v_size v - 1);
                      entry = entry\<lparr>mod_command_line :=
                        fs_assign MAX_BOOT_MODULE_COMMAND_LINE (mod_command_line entry) text (length text)\<rparr>
                  in Return (True, out\<lparr>modules := v\<lparr>v_items := (v_items v)[v_size v - 1 := entry]\<rparr>\<rparr>)))"

definition finish_framebuffer :: "memory \<Rightarrow> u64 \<Rightarrow> framebuffer_info \<Rightarrow> framebuffer_info" where
  "finish_framebuffer mem tag fb =
     fb\<lparr>fb_present := True,
        fb_range := \<lparr>r_base = fb_address mem tag,
                     r_length = ucast (fb_tag_pitch mem tag) * ucast (fb_tag_height mem tag)\<rparr>,
        fb_pitch := fb_tag_pitch mem tag,
        fb_width := fb_tag_width mem tag,
        fb_height := fb_tag_height mem tag,
        fb_bits_per_pixel := fb_tag_bpp mem tag\<rparr>"

definition translate_framebuffer :: tag_translator where
  "translate_framebuffer mem tag out =
     (let fb = framebuffer_info_zero
      in if fb_tag_type mem tag = FB_RGB then
           (case rgb mem tag of
              None \<Rightarrow> Return (False, out\<lparr>framebuffer := fb\<rparr>)
            | Some c \<Rightarrow>
                Return (True, out\<lparr>framebuffer := finish_framebuffer mem tag
                  (fb\<lparr>fb_kind := RGB,
                      fb_red := \<lparr>ch_position = red_position c, ch_size = red_mask_size c\<rparr>,
                      fb_green := \<lparr>ch_position = green_position c, ch_size = green_mask_size c\<rparr>,
                      fb_blue := \<lparr>ch_position = blue_position c, ch_size = blue_mask_size c\<rparr>\<rparr>)\<rparr>))
         else if fb_tag_type mem tag = FB_INDEXED then
           if length (palette mem tag) > MAX_BOOT_PALETTE_COLORS
           then Return (False, out\<lparr>framebuffer := fb\<rparr>)
           else obind (emplace_all MAX_BOOT_PALETTE_COLORS (palette mem tag) (fb_palette fb))
                  (\<lambda>v. Return (True, out\<lparr>framebuffer := finish_framebuffer mem tag
                         (fb\<lparr>fb_kind := INDEXED, fb_palette := v\<rparr>)\<rparr>))
         else if fb_tag_type mem tag = FB_EGA_TEXT then
           Return (True, out\<lparr>framebuffer := finish_framebuffer mem tag (fb\<lparr>fb_kind := TEXT\<rparr>)\<rparr>)
         else Return (True, out\<lparr>framebuffer := fb\<rparr>))"

definition translate_acpi :: "u8 \<Rightarrow> tag_translator" where
  "translate_acpi revision mem tag out =
     (if acpi_present (acpi out) \<and> acpi_revision (acpi out) \<ge> revision then Return (True, out)
      else
        Return (True, out\<lparr>acpi :=
          \<lparr>acpi_present = True,
           acpi_rsdp = \<lparr>r_base = tag + 8, r_length = ucast (tag_size_at mem tag) - of_nat SIZEOF_tag_header\<rparr>,
           acpi_revision = revision\<rparr>\<rparr>))"

definition translate_tag :: tag_translator where
  "translate_tag mem tag out =
     (let ty = tag_type_at mem tag
      in if ty = tag_code COMMAND_LINE then translate_as SIZEOF_string_tag translate_command_line mem tag out
         else if ty = tag_code BOOTLOADER_NAME then translate_as SIZEOF_string_tag translate_bootloader_name mem tag out
         else if ty = tag_code MODULE then translate_as SIZEOF_module_tag translate_module mem tag out
         else if ty = tag_code MEMORY_MAP then translate_as SIZEOF_memory_map_tag translate_memory_map mem tag out
         else if ty = tag_code FRAMEBUFFER then translate_as SIZEOF_framebuffer_tag translate_framebuffer mem tag out
         else if ty = tag_code ACPI_OLD then translate_as SIZEOF_acpi_tag (translate_acpi 1) mem tag out
         else if ty = tag_code ACPI_NEW then translate_as SIZEOF_acpi_tag (translate_acpi 2) mem tag out
         else Return (True, out))"

section \<open>The adapter\<close>

record handoff =
  m_magic :: u64
  m_info_address :: paddr_t

definition set_handoff :: "u64 \<Rightarrow> paddr_t \<Rightarrow> handoff" where
  "set_handoff magic address = \<lparr>m_magic = magic, m_info_address = address\<rparr>"

definition adapter_well_formed :: "memory \<Rightarrow> handoff \<Rightarrow> bool" where
  "adapter_well_formed mem h =
     (if m_magic h \<noteq> BOOTLOADER_MAGIC then False
      else if m_info_address h = 0 then False
      else well_formed mem (m_info_address h))"

partial_function (option) parse_tags ::
    "memory \<Rightarrow> u64 \<Rightarrow> boot_info \<Rightarrow> (init_result \<times> boot_info) outcome option" where
  "parse_tags mem tag out =
     (if tag_type_at mem tag = tag_code END then Some (Return (Ok (), out))
      else
        case translate_tag mem tag out of
          Panic m \<Rightarrow> Some (Panic m)
        | Return (ok, out) \<Rightarrow>
            if ok then parse_tags mem (tag + tag_step mem tag) out
            else Some (Return (Err INVALID_BOOT_DATA, out)))"

definition adapter_parse ::
    "memory \<Rightarrow> handoff \<Rightarrow> boot_info \<Rightarrow> (init_result \<times> boot_info) outcome option" where
  "adapter_parse mem h out =
     (let header = m_info_address h
      in case emplace_back MAX_BOOT_RESERVED_RANGES (reserved out)
                \<lparr>r_base = header, r_length = ucast (total_size mem header)\<rparr> of
           Panic m \<Rightarrow> Some (Panic m)
         | Return v \<Rightarrow>
             parse_tags mem (header + of_nat SIZEOF_fixed_header) (out\<lparr>reserved := v\<rparr>))"

text \<open>The boot-info component with Multiboot2 as the active protocol.\<close>

definition multiboot2_boot_info ::
    "memory \<Rightarrow> handoff \<Rightarrow> boot_info \<Rightarrow> (init_result \<times> boot_info) outcome option" where
  "multiboot2_boot_info mem h m_info =
     boot_info_parse (adapter_well_formed mem h) (adapter_parse mem h) m_info"

end
