(* ===== verification/Multiboot2_Correct.thy ===== *)
theory Multiboot2_Correct
  imports Multiboot2
begin

text \<open>
  What the Multiboot2 adapter guarantees: the walk over a block of tags that passed the
  validity check ends, it reads nothing outside the block, and the boot information it
  fills keeps its containers well formed.
\<close>

section \<open>The validity check\<close>

definition well_formed_loop :: "memory \<Rightarrow> u64 \<Rightarrow> u64 \<Rightarrow> bool" where
  "well_formed_loop mem at fin = fst (well_formed_scan mem at fin)"

lemma well_formed_loop_eq:
  "well_formed_loop mem at fin =
     (if unat (fin - at) \<ge> SIZEOF_tag_header
      then
        if unat (tag_size_at mem at) < SIZEOF_tag_header \<or> unat (tag_size_at mem at) > unat (fin - at)
        then False
        else if tag_type_at mem at = tag_code END then unat (tag_size_at mem at) = SIZEOF_tag_header
        else if tag_step mem at > fin - at then False
        else well_formed_loop mem (at + tag_step mem at) fin
      else False)"
  unfolding well_formed_loop_def
  by (subst well_formed_scan.simps) (simp add: Let_def split_beta)

lemma well_formed_eq:
  "well_formed mem header =
     (if unat (total_size mem header) < SIZEOF_fixed_header then False
      else if ucast (total_size mem header) > NOT 0 - header then False
      else well_formed_loop mem (header + of_nat SIZEOF_fixed_header) (header + ucast (total_size mem header)))"
  by (simp add: well_formed_def well_formed_reads_def well_formed_loop_def Let_def split_beta)

lemma well_formed_loopD:
  assumes "well_formed_loop mem at fin"
  shows "8 \<le> unat (tag_size_at mem at)" "unat (tag_size_at mem at) \<le> unat (fin - at)"
    and "tag_type_at mem at \<noteq> tag_code END \<Longrightarrow>
      unat (tag_step mem at) \<le> unat (fin - at) \<and> unat (tag_size_at mem at) \<le> unat (tag_step mem at)
      \<and> unat (fin - (at + tag_step mem at)) = unat (fin - at) - unat (tag_step mem at)
      \<and> well_formed_loop mem (at + tag_step mem at) fin"
proof -
  note unf = assms [unfolded well_formed_loop_eq [of mem at fin] SIZEOF_tag_header_def]
  show "8 \<le> unat (tag_size_at mem at)" "unat (tag_size_at mem at) \<le> unat (fin - at)"
    using unf by (simp_all add: not_less split: if_splits)
  assume "tag_type_at mem at \<noteq> tag_code END"
  with unf have le: "tag_step mem at \<le> fin - at"
    and wf: "well_formed_loop mem (at + tag_step mem at) fin"
    by (simp_all add: not_less split: if_splits)
  have "unat (tag_size_at mem at) \<le> unat (tag_step mem at)"
    unfolding unat_tag_step by linarith
  with le wf show "unat (tag_step mem at) \<le> unat (fin - at)
      \<and> unat (tag_size_at mem at) \<le> unat (tag_step mem at)
      \<and> unat (fin - (at + tag_step mem at)) = unat (fin - at) - unat (tag_step mem at)
      \<and> well_formed_loop mem (at + tag_step mem at) fin"
    using step_remaining [OF le] by (simp add: word_le_nat_alt)
qed

section \<open>The walk ends\<close>

lemma parse_tags_returns:
  "well_formed_loop mem at fin \<Longrightarrow> \<exists>r. parse_tags mem at out = Some r"
proof (induction mem at fin arbitrary: out rule: well_formed_scan.induct)
  case (1 mem at fin)
  note wf = "1.prems"
  show ?case
  proof (cases "tag_type_at mem at = tag_code END")
    case True
    then show ?thesis by (subst parse_tags.simps) simp
  next
    case False
    have "\<exists>r. parse_tags mem (at + tag_step mem at) out' = Some r" for out'
      using "1.IH" False well_formed_loopD [OF wf] by (simp add: SIZEOF_tag_header_def word_less_nat_alt)
    then show ?thesis
      using False by (subst parse_tags.simps) (auto split: outcome.splits)
  qed
qed

section \<open>Reads stay inside the block\<close>

lemma header_agree:
  assumes "agree mem mem' tag n" "8 \<le> n"
  shows "tag_type_at mem' tag = tag_type_at mem tag" "tag_size_at mem' tag = tag_size_at mem tag"
    "tag_step mem' tag = tag_step mem tag"
proof -
  show "tag_type_at mem' tag = tag_type_at mem tag"
    using read_agree(2) [OF assms(1)] assms(2) by (simp add: tag_type_at_def)
  show size: "tag_size_at mem' tag = tag_size_at mem tag"
    using read_agree(2) [OF agree_offset [OF assms(1), of 4 4]] assms(2)
    by (simp add: tag_size_at_def)
  show "tag_step mem' tag = tag_step mem tag" by (simp add: tag_step_def size)
qed

text \<open>Two memories hold the same tag when they agree on the bytes its size field covers.\<close>

definition same_tag :: "memory \<Rightarrow> memory \<Rightarrow> u64 \<Rightarrow> bool" where
  "same_tag mem mem' tag \<longleftrightarrow>
     agree mem mem' tag (unat (tag_size_at mem tag)) \<and> 8 \<le> unat (tag_size_at mem tag)"

lemma size_eq: "same_tag mem mem' tag \<Longrightarrow> tag_size_at mem' tag = tag_size_at mem tag"
  unfolding same_tag_def by (blast intro: header_agree(2))

lemma payload_eq:
  assumes "same_tag mem mem' tag"
  shows "payload mem' tag k = payload mem tag k"
proof (cases "unat (tag_size_at mem tag) \<le> k")
  case False
  then have "agree mem mem' (tag + of_nat k) (unat (tag_size_at mem tag) - k)"
    using assms unfolding same_tag_def by (intro agree_offset) auto
  then show ?thesis by (simp add: payload_def size_eq [OF assms] bytes_at_agree)
qed (simp add: payload_def size_eq [OF assms])

lemma field_eq:
  assumes "same_tag mem mem' tag"
  shows "unat k + 4 \<le> unat (tag_size_at mem tag) \<Longrightarrow> read32 mem' (tag + k) = read32 mem (tag + k)"
    and "unat k + 8 \<le> unat (tag_size_at mem tag) \<Longrightarrow> read64 mem' (tag + k) = read64 mem (tag + k)"
    and "unat k + 1 \<le> unat (tag_size_at mem tag) \<Longrightarrow> mem' (tag + k) = mem (tag + k)"
proof -
  have ag: "agree mem mem' tag (unat (tag_size_at mem tag))" using assms by (simp add: same_tag_def)
  show "read32 mem' (tag + k) = read32 mem (tag + k)" if "unat k + 4 \<le> unat (tag_size_at mem tag)"
    using read_agree(2) [OF agree_word_offset [OF ag that]] by simp
  show "read64 mem' (tag + k) = read64 mem (tag + k)" if "unat k + 8 \<le> unat (tag_size_at mem tag)"
    using read_agree(3) [OF agree_word_offset [OF ag that]] by simp
  show "mem' (tag + k) = mem (tag + k)" if "unat k + 1 \<le> unat (tag_size_at mem tag)"
    using byte_agree [OF agree_word_offset [OF ag that]] by simp
qed

lemma read_entry_agree:
  assumes "agree mem mem' a 24"
  shows "read_entry mem a = read_entry mem' a"
  using read_agree(3) [OF assms] read_agree(3) [OF agree_offset [OF assms, of 8 16]]
    read_agree(2) [OF agree_offset [OF assms, of 16 8]]
  by (simp add: read_entry_def)

lemma entries_eq:
  assumes "same_tag mem mem' tag"
    and "16 \<le> unat (tag_size_at mem tag)" "24 \<le> unat (entry_size mem tag)"
  shows "entries mem' tag = entries mem tag"
proof -
  let ?n = "unat (tag_size_at mem tag)" and ?k = "unat (entry_size mem tag)"
  have es: "entry_size mem' tag = entry_size mem tag"
    unfolding entry_size_def using assms by (intro field_eq) auto
  have "read_entry mem' (tag + 16 + of_nat i * ucast (entry_size mem tag))
      = read_entry mem (tag + 16 + of_nat i * ucast (entry_size mem tag))"
    if i: "i < (?n - 16) div ?k" for i
  proof -
    have "(i + 1) * ?k \<le> (?n - 16) div ?k * ?k" using i by (intro mult_le_mono1) simp
    also have "\<dots> \<le> ?n - 16" by simp
    finally have "16 + i * ?k + 24 \<le> ?n" using assms by (simp add: add_mult_distrib)
    then have ag: "agree mem mem' (tag + of_nat (16 + i * ?k)) 24"
      using assms(1) unfolding same_tag_def by (blast intro: agree_offset)
    have "of_nat ?k = (ucast (entry_size mem tag) :: u64)"
      by (simp flip: unat_ucast_32_64)
    then have eq: "tag + of_nat (16 + i * ?k) = tag + 16 + of_nat i * ucast (entry_size mem tag)"
      by (simp add: add.assoc)
    show ?thesis using read_entry_agree [OF ag] unfolding eq by simp
  qed
  then show ?thesis
    by (simp add: entries_def es size_eq [OF assms(1)] Let_def sizeof_defs)
qed

lemma translate_module_eq:
  assumes "same_tag mem mem' tag" "16 \<le> unat (tag_size_at mem tag)"
  shows "translate_module mem' tag = translate_module mem tag"
proof -
  have "mod_start mem' tag = mod_start mem tag" "mod_end mem' tag = mod_end mem tag"
    unfolding mod_start_def mod_end_def using assms by (auto intro!: field_eq)
  then show ?thesis
    by (intro ext) (simp add: translate_module_def module_command_line_def payload_eq [OF assms(1)])
qed

lemma translate_memory_map_eq:
  assumes "same_tag mem mem' tag" "16 \<le> unat (tag_size_at mem tag)"
  shows "translate_memory_map mem' tag = translate_memory_map mem tag"
proof -
  have "entry_size mem' tag = entry_size mem tag"
    unfolding entry_size_def using assms by (auto intro!: field_eq)
  then show ?thesis
    using entries_eq [OF assms] by (intro ext) (simp add: translate_memory_map_def sizeof_defs)
qed

lemma translate_framebuffer_eq:
  assumes "same_tag mem mem' tag" "32 \<le> unat (tag_size_at mem tag)"
  shows "translate_framebuffer mem' tag = translate_framebuffer mem tag"
proof -
  have fields: "fb_address mem' tag = fb_address mem tag" "fb_tag_pitch mem' tag = fb_tag_pitch mem tag"
    "fb_tag_width mem' tag = fb_tag_width mem tag" "fb_tag_height mem' tag = fb_tag_height mem tag"
    "fb_tag_bpp mem' tag = fb_tag_bpp mem tag" "fb_tag_type mem' tag = fb_tag_type mem tag"
    unfolding fb_address_def fb_tag_pitch_def fb_tag_width_def fb_tag_height_def fb_tag_bpp_def
      fb_tag_type_def
    using assms by (auto intro!: field_eq)
  then have "palette mem' tag = palette mem tag" "rgb mem' tag = rgb mem tag"
    by (simp_all add: palette_def rgb_def payload_eq [OF assms(1)])
  with fields show ?thesis
    by (intro ext) (simp add: translate_framebuffer_def finish_framebuffer_def cong: option.case_cong)
qed

lemma translate_as_eq:
  assumes "same_tag mem mem' tag"
    and "n \<le> unat (tag_size_at mem tag) \<Longrightarrow> tr mem' tag = tr mem tag"
  shows "translate_as n tr mem' tag = translate_as n tr mem tag"
  using assms(2) by (intro ext) (auto simp: translate_as_def size_eq [OF assms(1)])

lemma translate_strings_eq:
  assumes "same_tag mem mem' tag"
  shows "translate_command_line mem' tag = translate_command_line mem tag"
    "translate_bootloader_name mem' tag = translate_bootloader_name mem tag"
    "translate_acpi r mem' tag = translate_acpi r mem tag"
  by (intro ext; simp add: translate_command_line_def translate_bootloader_name_def
      translate_acpi_def string_value_def payload_eq [OF assms] size_eq [OF assms])+

lemma translate_tag_eq:
  assumes "same_tag mem mem' tag"
  shows "translate_tag mem' tag out = translate_tag mem tag out"
proof -
  have ty: "tag_type_at mem' tag = tag_type_at mem tag"
    using assms unfolding same_tag_def by (blast intro: header_agree(1))
  have eqs: "translate_as SIZEOF_string_tag translate_command_line mem' tag
        = translate_as SIZEOF_string_tag translate_command_line mem tag"
    "translate_as SIZEOF_string_tag translate_bootloader_name mem' tag
        = translate_as SIZEOF_string_tag translate_bootloader_name mem tag"
    "translate_as SIZEOF_acpi_tag (translate_acpi r) mem' tag
        = translate_as SIZEOF_acpi_tag (translate_acpi r) mem tag"
    "translate_as SIZEOF_module_tag translate_module mem' tag
        = translate_as SIZEOF_module_tag translate_module mem tag"
    "translate_as SIZEOF_memory_map_tag translate_memory_map mem' tag
        = translate_as SIZEOF_memory_map_tag translate_memory_map mem tag"
    "translate_as SIZEOF_framebuffer_tag translate_framebuffer mem' tag
        = translate_as SIZEOF_framebuffer_tag translate_framebuffer mem tag" for r
    by (rule translate_as_eq [OF assms]; simp add: translate_strings_eq [OF assms]
        translate_module_eq [OF assms] translate_memory_map_eq [OF assms]
        translate_framebuffer_eq [OF assms] sizeof_defs)+
  show ?thesis unfolding translate_tag_def ty eqs ..
qed

lemma walk_agree:
  "well_formed_loop mem at fin \<Longrightarrow> agree mem mem' at (unat (fin - at))
    \<Longrightarrow> well_formed_loop mem' at fin \<and> parse_tags mem' at out = parse_tags mem at out"
proof (induction mem at fin arbitrary: out rule: well_formed_scan.induct)
  case (1 mem at fin)
  note wf = "1.prems"(1) and D = well_formed_loopD [OF "1.prems"(1)]
  have tag: "same_tag mem mem' at"
    using D(1,2) agree_mono [OF "1.prems"(2)] by (simp add: same_tag_def)
  have eqs: "tag_type_at mem' at = tag_type_at mem at" "tag_size_at mem' at = tag_size_at mem at"
    "tag_step mem' at = tag_step mem at"
    using header_agree [OF "1.prems"(2)] D(1,2) by auto
  show ?case
  proof (cases "tag_type_at mem at = tag_code END")
    case True
    have "well_formed_loop mem' at fin"
      using wf True by (simp add: well_formed_loop_eq [of mem at] well_formed_loop_eq [of mem' at] eqs
          split: if_splits)
    moreover have "parse_tags mem' at out = parse_tags mem at out"
      using True by (simp add: parse_tags.simps [of mem at] parse_tags.simps [of mem' at] eqs)
    ultimately show ?thesis ..
  next
    case False
    note D' = D(3) [OF False]
    have "agree mem mem' (at + tag_step mem at) (unat (fin - (at + tag_step mem at)))"
      using D' by (intro agree_word_offset [OF "1.prems"(2)]) simp
    then have ih: "well_formed_loop mem' (at + tag_step mem at) fin
        \<and> parse_tags mem' (at + tag_step mem at) o' = parse_tags mem (at + tag_step mem at) o'" for o'
      using "1.IH" False D D' by (simp add: SIZEOF_tag_header_def word_less_nat_alt)
    have "well_formed_loop mem' at fin"
      using D D' False ih by (subst well_formed_loop_eq) (simp add: eqs SIZEOF_tag_header_def word_less_nat_alt)
    moreover have "parse_tags mem' at out = parse_tags mem at out"
      using False ih by (simp add: parse_tags.simps [of mem at] parse_tags.simps [of mem' at] eqs
          translate_tag_eq [OF tag] cong: if_cong outcome.case_cong)
    ultimately show ?thesis ..
  qed
qed

lemma well_formedD:
  assumes "well_formed mem header"
  shows "8 \<le> unat (total_size mem header)"
    and "well_formed_loop mem (header + 8) (header + ucast (total_size mem header))"
    and "unat (header + ucast (total_size mem header) - (header + 8)) = unat (total_size mem header) - 8"
proof -
  show size: "8 \<le> unat (total_size mem header)"
    and "well_formed_loop mem (header + 8) (header + ucast (total_size mem header))"
    using assms by (auto simp: well_formed_eq sizeof_defs split: if_splits)
  have "header + ucast (total_size mem header) - (header + 8) = ucast (total_size mem header) - (8 :: u64)"
    by simp
  moreover have "(8 :: u64) \<le> ucast (total_size mem header)"
    using size by (simp add: word_le_nat_alt)
  ultimately show "unat (header + ucast (total_size mem header) - (header + 8)) = unat (total_size mem header) - 8"
    using unat_minus_le [of 8 "ucast (total_size mem header) :: u64"] by simp
qed

text \<open>
  The walk over a tag block that passed the validity check ends: \<^verbatim>\<open>adapter::parse\<close>
  returns or reports an overfull table, it never runs on past the block.
\<close>

lemma adapter_parse_returns:
  assumes "adapter_well_formed mem h"
  shows "\<exists>r. adapter_parse mem h out = Some r"
proof -
  have "well_formed mem (m_info_address h)"
    using assms by (auto simp: adapter_well_formed_def split: if_splits)
  then show ?thesis
    using parse_tags_returns [OF well_formedD(2)]
    by (auto simp: adapter_parse_def sizeof_defs Let_def split: outcome.splits)
qed

lemma scan_agree:
  "agree mem mem' at (unat (fin - at)) \<Longrightarrow> well_formed_scan mem' at fin = well_formed_scan mem at fin"
proof (induction mem at fin rule: well_formed_scan.induct)
  case (1 mem at fin)
  show ?case
  proof (cases "8 \<le> unat (fin - at)")
    case False
    then show ?thesis by (simp add: well_formed_scan.simps [of mem at] well_formed_scan.simps [of mem' at] sizeof_defs)
  next
    case long: True
    have eqs: "tag_type_at mem' at = tag_type_at mem at" "tag_size_at mem' at = tag_size_at mem at"
        "tag_step mem' at = tag_step mem at"
      using header_agree [OF "1.prems" long] by auto
    show ?thesis
    proof (cases "unat (tag_size_at mem at) < 8 \<or> unat (tag_size_at mem at) > unat (fin - at) \<or>
        tag_type_at mem at = tag_code END \<or> tag_step mem at > fin - at")
      case True
      then show ?thesis
        by (simp add: well_formed_scan.simps [of mem at] well_formed_scan.simps [of mem' at] eqs sizeof_defs) auto
    next
      case False
      then have le: "tag_step mem at \<le> fin - at" by (simp add: not_less)
      have "agree mem mem' (at + tag_step mem at) (unat (fin - (at + tag_step mem at)))"
        using le step_remaining [OF le] by (intro agree_word_offset [OF "1.prems"]) (simp add: word_le_nat_alt)
      then have "well_formed_scan mem' (at + tag_step mem at) fin = well_formed_scan mem (at + tag_step mem at) fin"
        using "1.IH" False long by (simp add: sizeof_defs)
      then show ?thesis
        by (simp add: well_formed_scan.simps [of mem at] well_formed_scan.simps [of mem' at] eqs)
    qed
  qed
qed

lemma scan_reads: "\<forall>r \<in> set (snd (well_formed_scan mem at fin)). access_in at (unat (fin - at)) r"
proof (induction mem at fin rule: well_formed_scan.induct)
  case (1 mem at fin)
  have hd: "access_in at (unat (fin - at)) (at + 4, 4) \<and> access_in at (unat (fin - at)) (at, 4)" if "8 \<le> unat (fin - at)"
    using access_inI [of 4 4 "unat (fin - at)" at] access_in_0 [of 4 "unat (fin - at)" at] that by simp
  show ?case
  proof (cases "8 \<le> unat (fin - at) \<and> \<not> (unat (tag_size_at mem at) < 8 \<or> unat (tag_size_at mem at) > unat (fin - at)) \<and>
      tag_type_at mem at \<noteq> tag_code END \<and> \<not> tag_step mem at > fin - at")
    case False
    then show ?thesis using hd by (subst well_formed_scan.simps) (auto simp: sizeof_defs)
  next
    case True
    then have le: "tag_step mem at \<le> fin - at" by (simp add: not_less)
    have "\<forall>r \<in> set (snd (well_formed_scan mem (at + tag_step mem at) fin)).
        access_in (at + tag_step mem at) (unat (fin - (at + tag_step mem at))) r"
      using "1.IH" True by (simp add: sizeof_defs)
    then have "\<forall>r \<in> set (snd (well_formed_scan mem (at + tag_step mem at) fin)). access_in at (unat (fin - at)) r"
      using access_in_offset [of at "tag_step mem at" "unat (fin - (at + tag_step mem at))" _ "unat (fin - at)"]
        step_remaining [OF le] le by (simp add: word_le_nat_alt)
    then show ?thesis using hd True by (subst well_formed_scan.simps) (auto simp: sizeof_defs split_beta Let_def)
  qed
qed

lemma block_rest:
  assumes "8 \<le> unat (total_size mem header)"
  shows "unat (header + ucast (total_size mem header) - (header + 8)) = unat (total_size mem header) - 8"
proof -
  have "header + ucast (total_size mem header) - (header + 8) = ucast (total_size mem header) - (8 :: u64)" by simp
  moreover have "(8 :: u64) \<le> ucast (total_size mem header)" using assms by (simp add: word_le_nat_alt)
  ultimately show ?thesis by (simp add: unat_minus_le)
qed

lemma well_formed_reads_block:
  "\<forall>r \<in> set (snd (well_formed_reads mem header)). access_in header (max 4 (unat (total_size mem header))) r"
proof (cases "8 \<le> unat (total_size mem header)")
  case True
  let ?n = "max 4 (unat (total_size mem header))"
  have "\<forall>r \<in> set (snd (well_formed_scan mem (header + 8) (header + ucast (total_size mem header)))). access_in header ?n r"
    using scan_reads [of mem "header + 8" "header + ucast (total_size mem header)"] True
    unfolding block_rest [OF True] by (auto intro!: access_in_offset [of header 8])
  then show ?thesis using access_in_0 [of 4 ?n header] by (auto simp: well_formed_reads_def sizeof_defs split_beta Let_def)
next
  case False
  then show ?thesis using access_in_0 [of 4 _ header] by (auto simp: well_formed_reads_def sizeof_defs)
qed

lemma parse_block_agree:
  assumes ag: "agree mem mem' header (max 4 (unat (total_size mem header)))"
  shows "total_size mem' header = total_size mem header"
    and "well_formed_reads mem' header = well_formed_reads mem header"
    and "well_formed mem header \<Longrightarrow> parse_tags mem' (header + 8) out = parse_tags mem (header + 8) out"
proof -
  show size: "total_size mem' header = total_size mem header"
    using read_agree(2) [OF ag] by (simp add: total_size_def)
  have rest: "agree mem mem' (header + 8) (unat (header + ucast (total_size mem header) - (header + 8)))"
    if "8 \<le> unat (total_size mem header)"
    using that unfolding block_rest [OF that] by (intro agree_word_offset [OF ag]) simp
  show "well_formed_reads mem' header = well_formed_reads mem header"
    using scan_agree [OF rest]
    by (cases "unat (total_size mem header) < 8") (simp_all add: well_formed_reads_def size sizeof_defs)
  show "parse_tags mem' (header + 8) out = parse_tags mem (header + 8) out" if "well_formed mem header"
    using walk_agree [OF well_formedD(2) [OF that] rest [OF well_formedD(1) [OF that]]] by blast
qed

text \<open>
  C18: the boot-information step reads no byte outside the block the boot loader announced,
  whatever the block holds: every read of the validity check, the size of the block and then
  the tag headers up to the first defect, lies in the \<^verbatim>\<open>total_size\<close> bytes at the handed-over
  address (or, for a block announced shorter than that, in the four bytes of \<^verbatim>\<open>total_size\<close>
  itself), and check and parse together give the same result on every memory that agrees on these bytes.
\<close>

theorem multiboot2_reads_block:
  "(\<forall>r \<in> set (snd (well_formed_reads mem (m_info_address h))).
      access_in (m_info_address h) (max 4 (unat (total_size mem (m_info_address h)))) r) \<and>
   (agree mem mem' (m_info_address h) (max 4 (unat (total_size mem (m_info_address h)))) \<longrightarrow>
      multiboot2_boot_info mem' h m_info = multiboot2_boot_info mem h m_info)"
proof (intro conjI impI)
  assume ag: "agree mem mem' (m_info_address h) (max 4 (unat (total_size mem (m_info_address h))))"
  note eqs = parse_block_agree [OF ag]
  have wf: "adapter_well_formed mem' h = adapter_well_formed mem h"
    by (simp add: adapter_well_formed_def well_formed_def eqs(2))
  show "multiboot2_boot_info mem' h m_info = multiboot2_boot_info mem h m_info"
  proof (cases "adapter_well_formed mem h")
    case True
    then have "well_formed mem (m_info_address h)" by (auto simp: adapter_well_formed_def split: if_splits)
    from eqs(3) [OF this] have "adapter_parse mem' h = adapter_parse mem h"
      by (intro ext) (simp add: adapter_parse_def eqs(1) sizeof_defs Let_def cong: outcome.case_cong)
    then show ?thesis by (simp add: multiboot2_boot_info_def wf)
  next
    case False
    then show ?thesis by (simp add: multiboot2_boot_info_def boot_info_parse_def wf)
  qed
qed (rule well_formed_reads_block)

section \<open>What the translation stores\<close>

lemma emplace_all_spec:
  "vec_wf N v \<Longrightarrow>
     (if v_size v + length xs \<le> N
      then \<exists>v'. emplace_all N xs v = Return v' \<and> vec_wf N v' \<and> v_contents v' = v_contents v @ xs
        \<and> v_size v' = v_size v + length xs
      else \<exists>m. emplace_all N xs v = Panic m)"
proof (induction xs arbitrary: v)
  case (Cons x xs)
  show ?case
  proof (cases "v_size v < N")
    case True
    then obtain v1 where v1: "emplace_back N v x = Return v1" "vec_wf N v1"
      "v_contents v1 = v_contents v @ [x]" "v_size v1 = v_size v + 1"
      using emplace_back_spec [OF Cons.prems] by (auto simp: emplace_back_def vec_wf_def)
    show ?thesis
      using Cons.IH [OF v1(2)] v1 by (auto split: if_splits)
  next
    case False
    then have "v_size v = N" using Cons.prems by (simp add: vec_wf_def)
    then show ?thesis by (simp add: emplace_back_def)
  qed
qed (simp add: vec_wf_def)

lemma translate_memory_map_spec:
  assumes "boot_info_wf out" "24 \<le> unat (entry_size mem tag)"
    and "v_size (memory_map out) + length (entries mem tag) \<le> MAX_BOOT_MEMORY_REGIONS"
  shows "\<exists>v. translate_memory_map mem tag out = Return (True, out\<lparr>memory_map := v\<rparr>)
    \<and> vec_wf MAX_BOOT_MEMORY_REGIONS v
    \<and> v_contents v = v_contents (memory_map out) @ map region_of_entry (entries mem tag)"
  using emplace_all_spec [of MAX_BOOT_MEMORY_REGIONS "memory_map out" "map region_of_entry (entries mem tag)"]
    assms
  by (auto simp: translate_memory_map_def sizeof_defs boot_info_wf_def)

text \<open>
  a memory-map tag whose entries have at least the standard size appends its entries,
  in order and with their types translated, to the memory map; if they do not fit, the
  machine halts, and a smaller entry size is reported as an error.
\<close>

theorem translate_memory_map_appends:
  assumes "boot_info_wf out"
  shows "if unat (entry_size mem tag) < 24
    then translate_memory_map mem tag out = Return (False, out)
    else if v_size (memory_map out) + length (entries mem tag) \<le> MAX_BOOT_MEMORY_REGIONS
    then \<exists>out'. translate_memory_map mem tag out = Return (True, out') \<and> boot_info_wf out'
       \<and> v_contents (memory_map out') =
           v_contents (memory_map out) @
           map (\<lambda>e. \<lparr>mr_base = base_addr e, mr_length = entry_length e,
                      mr_kind = translate_memory_type (entry_type e)\<rparr>) (entries mem tag)
       \<and> out'\<lparr>memory_map := memory_map out\<rparr> = out
    else \<exists>m. translate_memory_map mem tag out = Panic m"
proof -
  have wf: "vec_wf MAX_BOOT_MEMORY_REGIONS (memory_map out)" using assms by (simp add: boot_info_wf_def)
  have "map region_of_entry es = map (\<lambda>e. \<lparr>mr_base = base_addr e, mr_length = entry_length e,
      mr_kind = translate_memory_type (entry_type e)\<rparr>) es" for es
    by (simp add: region_of_entry_def)
  then show ?thesis
    using emplace_all_spec [OF wf, of "map region_of_entry (entries mem tag)"] assms
    by (auto simp: translate_memory_map_def sizeof_defs boot_info_wf_def split: if_splits)
qed

section \<open>The state after a parse\<close>

abbreviation overfull :: string where "overfull \<equiv> ''inplace_vector: emplace_back past capacity''"

text \<open>What every translator keeps: well-formed containers and the reserved ranges.\<close>

definition keeps :: "boot_info \<Rightarrow> (bool \<times> boot_info) outcome \<Rightarrow> bool" where
  "keeps out r =
     (case r of
        Return (ok, out') \<Rightarrow> boot_info_wf out' \<and> reserved out' = reserved out
      | Panic m \<Rightarrow> m = overfull)"

lemma emplace_all_Panic: "emplace_all N xs v = Panic m \<Longrightarrow> m = overfull"
  by (induction xs arbitrary: v) (auto simp: obind_Panic_iff emplace_back_def split: if_splits)

lemma translators_keep:
  assumes "boot_info_wf out"
  shows "keeps out (translate_command_line mem tag out)"
    "keeps out (translate_bootloader_name mem tag out)"
    "keeps out (translate_acpi r mem tag out)"
    "keeps out (translate_framebuffer mem tag out)"
    "keeps out (translate_memory_map mem tag out)"
    "keeps out (translate_module mem tag out)"
proof -
  show "keeps out (translate_command_line mem tag out)"
    "keeps out (translate_bootloader_name mem tag out)"
    "keeps out (translate_acpi r mem tag out)"
    using assms by (auto simp: keeps_def translate_command_line_def translate_bootloader_name_def
        translate_acpi_def boot_info_wf_def fs_assign_contents(1) Let_def)
  show "keeps out (translate_framebuffer mem tag out)"
    using assms emplace_all_Panic
    by (fastforce simp: keeps_def translate_framebuffer_def boot_info_wf_def Let_def obind_Panic_iff
        split: outcome.splits option.splits)
  show "keeps out (translate_memory_map mem tag out)"
  proof (cases "translate_memory_map mem tag out")
    case (Panic m)
    then show ?thesis
      using emplace_all_Panic by (auto simp: keeps_def translate_memory_map_def obind_Panic_iff split: if_splits)
  next
    case (Return p)
    show ?thesis
    proof (cases "unat (entry_size mem tag) < 24")
      case True
      then show ?thesis using assms by (simp add: keeps_def translate_memory_map_def sizeof_defs)
    next
      case False
      have "vec_wf MAX_BOOT_MEMORY_REGIONS (memory_map out)" using assms by (simp add: boot_info_wf_def)
      from emplace_all_spec [OF this, of "map region_of_entry (entries mem tag)"] show ?thesis
        using False Return assms
        by (auto simp: keeps_def translate_memory_map_def sizeof_defs boot_info_wf_def split: if_splits)
    qed
  qed
  show "keeps out (translate_module mem tag out)"
    using assms
    by (auto simp: keeps_def translate_module_def boot_info_wf_def emplace_back_def vec_wf_def Let_def)
qed

lemma translate_tag_keeps:
  assumes "boot_info_wf out"
  shows "keeps out (translate_tag mem tag out)"
proof -
  have as: "keeps out (translate_as n tr mem tag out)" if "keeps out (tr mem tag out)" for n tr
    using that assms by (simp add: translate_as_def keeps_def)
  have "keeps out (Return (True, out))" using assms by (simp add: keeps_def)
  then show ?thesis
    unfolding translate_tag_def Let_def by (simp add: as translators_keep [OF assms])
qed

definition parse_keeps :: "boot_info \<Rightarrow> (init_result \<times> boot_info) outcome \<Rightarrow> bool" where
  "parse_keeps out r =
     (case r of
        Return (Ok _, out') \<Rightarrow> boot_info_wf out' \<and> reserved out' = reserved out
      | Return (Err e, out') \<Rightarrow> boot_info_wf out' \<and> e = INVALID_BOOT_DATA
      | Panic m \<Rightarrow> m = overfull)"

lemma parse_tags_keeps:
  assumes "parse_tags mem tag out = Some r"
  shows "boot_info_wf out \<longrightarrow> parse_keeps out r"
  using assms
proof (rule parse_tags.raw_induct [where P = "\<lambda>mem tag out r. boot_info_wf out \<longrightarrow> parse_keeps out r", rotated])
  fix self mem tag out r
  assume ih: "\<And>mem tag out r. self mem tag out = Some r \<Longrightarrow> boot_info_wf out \<longrightarrow> parse_keeps out r"
    and body: "(if tag_type_at mem tag = tag_code END then Some (Return (Ok (), out))
      else case translate_tag mem tag out of
          Return (ok, out) \<Rightarrow>
            if ok then self mem (tag + tag_step mem tag) out
            else Some (Return (Err INVALID_BOOT_DATA, out))
        | Panic m \<Rightarrow> Some (Panic m)) = Some r"
  show "boot_info_wf out \<longrightarrow> parse_keeps out r"
  proof
    assume wf: "boot_info_wf out"
    note k = translate_tag_keeps [OF wf, of mem tag]
    show "parse_keeps out r"
    proof (cases "tag_type_at mem tag = tag_code END")
      case True
      then show ?thesis using body wf by (auto simp: parse_keeps_def)
    next
      case False
      show ?thesis
      proof (cases "translate_tag mem tag out")
        case (Return p)
        obtain ok out' where p: "p = (ok, out')" by fastforce
        have keep: "boot_info_wf out'" "reserved out' = reserved out"
          using k by (auto simp: Return p keeps_def)
        show ?thesis
        proof (cases ok)
          case True
          then have "self mem (tag + tag_step mem tag) out' = Some r"
            using body False Return p by simp
          then have "parse_keeps out' r" using ih keep(1) by blast
          then show ?thesis unfolding parse_keeps_def keep(2) .
        next
          case False
          then have "r = Return (Err INVALID_BOOT_DATA, out')"
            using body Return p \<open>tag_type_at mem tag \<noteq> tag_code END\<close> by simp
          then show ?thesis using keep(1) by (simp add: parse_keeps_def)
        qed
      next
        case (Panic m)
        then show ?thesis using k body False by (auto simp: parse_keeps_def keeps_def)
      qed
    qed
  qed
qed

text \<open>
  whatever the memory at the handed-over address holds, the boot-information step comes
  back: with a parsed block, whose range is then the reserved range, with
  \<^verbatim>\<open>INVALID_BOOT_DATA\<close> and cleared boot information, or by halting on an overfull table.
\<close>

theorem multiboot2_boot_info_total:
  assumes "boot_info_wf m_info"
  shows "\<exists>r. multiboot2_boot_info mem h m_info = Some r \<and>
    (case r of
       Return (Ok _, i) \<Rightarrow>
         adapter_well_formed mem h \<and> boot_info_wf i
         \<and> v_contents (reserved i) =
             [\<lparr>r_base = m_info_address h, r_length = ucast (total_size mem (m_info_address h))\<rparr>]
     | Return (Err e, i) \<Rightarrow> e = INVALID_BOOT_DATA \<and> boot_info_cleared i \<and> boot_info_wf i
     | Panic m \<Rightarrow> m = ''inplace_vector: emplace_back past capacity'')"
proof (cases "adapter_well_formed mem h")
  case False
  then show ?thesis
    using boot_info_reset_cleared [OF assms] by (simp add: multiboot2_boot_info_def boot_info_parse_def)
next
  case True
  let ?i = "boot_info_reset m_info"
  let ?blk = "\<lparr>r_base = m_info_address h, r_length = ucast (total_size mem (m_info_address h))\<rparr>"
  have i: "boot_info_wf ?i" "boot_info_cleared ?i" by (rule boot_info_reset_cleared [OF assms])+
  have "v_size (reserved ?i) < MAX_BOOT_RESERVED_RANGES"
    by (simp add: boot_info_reset_def vec_clear_def MAX_BOOT_RESERVED_RANGES_def)
  then obtain v where v: "emplace_back MAX_BOOT_RESERVED_RANGES (reserved ?i) ?blk = Return v"
    "vec_wf MAX_BOOT_RESERVED_RANGES v" "v_contents v = [?blk]"
    using emplace_back_spec [of MAX_BOOT_RESERVED_RANGES "reserved ?i" ?blk] i
    by (auto simp: boot_info_wf_def boot_info_cleared_def)
  have wf: "boot_info_wf (?i\<lparr>reserved := v\<rparr>)" using i v by (simp add: boot_info_wf_def)
  have "well_formed mem (m_info_address h)"
    using True by (auto simp: adapter_well_formed_def split: if_splits)
  then obtain r where r: "parse_tags mem (m_info_address h + 8) (?i\<lparr>reserved := v\<rparr>) = Some r"
    using parse_tags_returns well_formedD(2) by blast
  have p: "adapter_parse mem h ?i = Some r"
    using v r by (simp add: adapter_parse_def sizeof_defs Let_def)
  have k: "parse_keeps (?i\<lparr>reserved := v\<rparr>) r" using parse_tags_keeps [OF r] wf by blast
  note eq = multiboot2_boot_info_def boot_info_parse_def p True
  show ?thesis
  proof (cases r)
    case (Panic m)
    then show ?thesis using k by (simp add: eq parse_keeps_def)
  next
    case (Return q)
    then obtain res i' where q: "r = Return (res, i')" by (cases q) auto
    show ?thesis
    proof (cases res)
      case (Inl e)
      then show ?thesis
        using k boot_info_reset_cleared [of i'] by (simp add: eq q parse_keeps_def)
    next
      case (Inr u)
      then show ?thesis using k v(3) by (simp add: eq q parse_keeps_def)
    qed
  qed
qed

section \<open>A sample block\<close>

text \<open>
  A block of 104 bytes at address \<open>0x1000\<close>: a command line, a memory map with two entries
  and the end tag.
\<close>

definition sample_block :: "u8 list" where
  "sample_block =
     [104, 0, 0, 0, 0, 0, 0, 0,
      1, 0, 0, 0, 11, 0, 0, 0, 104, 105, 0, 0, 0, 0, 0, 0,
      6, 0, 0, 0, 64, 0, 0, 0, 24, 0, 0, 0, 0, 0, 0, 0,
      0, 0, 0, 0, 0, 0, 0, 0, 0, 0, 10, 0, 0, 0, 0, 0, 1, 0, 0, 0, 0, 0, 0, 0,
      0, 0, 16, 0, 0, 0, 0, 0, 0, 0, 0, 1, 0, 0, 0, 0, 2, 0, 0, 0, 0, 0, 0, 0,
      0, 0, 0, 0, 8, 0, 0, 0, 0, 0, 0, 0, 0, 0, 0, 0]"

definition sample_memory :: memory where "sample_memory = image_at 0x1000 sample_block"
definition sample_handoff :: handoff where "sample_handoff = set_handoff 0x36D76289 0x1000"

lemma sample_well_formed: "adapter_well_formed sample_memory sample_handoff"
  by code_simp

lemma sample_total_size: "total_size sample_memory (m_info_address sample_handoff) = 104"
  by code_simp

lemma sample_outside:
  "i < 104 \<Longrightarrow> (sample_memory(0x5000 := 7)) (m_info_address sample_handoff + of_nat i)
     = sample_memory (m_info_address sample_handoff + of_nat i)"
proof -
  assume i: "i < 104"
  have "unat ((0x1000 :: u64) + of_nat i) = 0x1000 + i"
    using i by (subst unat_plus_small) (simp_all add: unat_of_nat_small)
  then have "(0x1000 :: u64) + of_nat i \<noteq> 0x5000" using i by auto
  then show ?thesis by (simp add: sample_handoff_def set_handoff_def)
qed

text \<open>The first memory is a well-formed block, the second announces 12 bytes and stops inside a tag header.\<close>

definition short_memory :: memory where "short_memory = image_at 0x1000 [12, 0, 0, 0, 0, 0, 0, 0, 1, 0, 0, 0]"

lemma short_total_size: "total_size short_memory (m_info_address sample_handoff) = 12"
  by code_simp

theorem multiboot2_reads_block_witness:
  "multiboot2_boot_info (sample_memory(0x5000 := 7)) sample_handoff boot_info_zero
     = multiboot2_boot_info sample_memory sample_handoff boot_info_zero \<and>
   list_all (access_in 0x1000 12) (snd (well_formed_reads short_memory 0x1000)) \<and>
   multiboot2_boot_info (short_memory(0x100C := 7)) sample_handoff boot_info_zero
     = multiboot2_boot_info short_memory sample_handoff boot_info_zero"
proof -
  have h: "m_info_address sample_handoff = 0x1000" by (simp add: sample_handoff_def set_handoff_def)
  have "agree sample_memory (sample_memory(0x5000 := 7)) (m_info_address sample_handoff) 104"
    unfolding agree_def using sample_outside by (simp del: fun_upd_apply)
  moreover have "agree short_memory (short_memory(0x100C := 7)) (m_info_address sample_handoff) 12"
  proof -
    have "(0x1000 :: u64) + of_nat i \<noteq> 0x100C" if "i < 12" for i
    proof -
      have "unat ((0x1000 :: u64) + of_nat i) = 0x1000 + i"
        using that by (subst unat_plus_small) (simp_all add: unat_of_nat_small)
      then show ?thesis using that by auto
    qed
    then show ?thesis by (simp add: agree_def h)
  qed
  ultimately show ?thesis
    using multiboot2_reads_block [of sample_memory sample_handoff "sample_memory(0x5000 := 7)" boot_info_zero]
      multiboot2_reads_block [of short_memory sample_handoff "short_memory(0x100C := 7)" boot_info_zero]
    unfolding sample_total_size short_total_size by (simp add: h list_all_iff del: fun_upd_apply)
qed

lemmas sample_eval = sample_memory_def sample_block_def read_eval

lemma sample_map_header:
  "entry_size sample_memory 0x1018 = 24" "tag_size_at sample_memory 0x1018 = 64"
  by (simp_all add: entry_size_def tag_size_at_def sample_eval)

lemma sample_map_entries:
  "read_entry sample_memory 0x1028 = \<lparr>base_addr = 0, entry_length = 0xA0000, entry_type = 1\<rparr>"
  "read_entry sample_memory 0x1040 = \<lparr>base_addr = 0x100000, entry_length = 0x1000000, entry_type = 2\<rparr>"
  by (simp_all add: read_entry_def sample_eval)

lemma sample_entries:
  "entries sample_memory 0x1018 =
     [\<lparr>base_addr = 0, entry_length = 0xA0000, entry_type = 1\<rparr>,
      \<lparr>base_addr = 0x100000, entry_length = 0x1000000, entry_type = 2\<rparr>]"
  by (simp add: entries_def sample_map_header sample_map_entries sizeof_defs Let_def upt_conv_Cons)

end
