(* ===== verification/Acpi.thy ===== *)
theory Acpi
  imports Mmu Bytes
begin

text \<open>
  \<^verbatim>\<open>kernel/acpi\<close>: validation of the root pointer and of the tables, table lookup by
  signature (\<^verbatim>\<open>acpi.cpp\<close>), and the parser of the interrupt-controller table
  (\<^verbatim>\<open>madt.cpp\<close>). Tables are read through their virtual addresses; a null view is \<open>None\<close>.
  Positions inside a table are offsets from its start, and the bounded arrays of the parsed
  table are the lists of their first \<^verbatim>\<open>count\<close> elements.
\<close>

section \<open>Root pointer and table lookup\<close>

record acpi_state =
  m_rsdp_phys :: paddr_t
  m_sdt_root_phys :: paddr_t
  m_is_xsdt :: bool
  m_initialized :: bool

definition SIZEOF_sdt_header :: nat where "SIZEOF_sdt_header = 36"

fun signature_match_bytes :: "memory \<Rightarrow> u64 \<Rightarrow> string \<Rightarrow> bool" where
  "signature_match_bytes ram a [] = True"
| "signature_match_bytes ram a (c # cs) =
     (char_of_byte (ram a) = c \<and> signature_match_bytes ram (a + 1) cs)"

fun checksum_loop :: "memory \<Rightarrow> u64 \<Rightarrow> nat \<Rightarrow> u8 \<Rightarrow> u8" where
  "checksum_loop ram a 0 acc = acc"
| "checksum_loop ram a (Suc n) acc = checksum_loop ram (a + 1) n (acc + ram a)"

definition validate_checksum :: "memory \<Rightarrow> vaddr_t option \<Rightarrow> nat \<Rightarrow> bool" where
  "validate_checksum ram pointer len =
     (case pointer of
        None \<Rightarrow> False
      | Some a \<Rightarrow> if len = 0 then False else checksum_loop ram a len 0 = 0)"

text \<open>Fields of \<^verbatim>\<open>wire::rsdp_descriptor\<close> and \<^verbatim>\<open>wire::sdt_header\<close>.\<close>

definition rsdp_revision :: "memory \<Rightarrow> u64 \<Rightarrow> u8" where "rsdp_revision ram a = ram (a + 15)"
definition rsdt_address :: "memory \<Rightarrow> u64 \<Rightarrow> u32" where "rsdt_address ram a = read32 ram (a + 16)"
definition rsdp_length :: "memory \<Rightarrow> u64 \<Rightarrow> u32" where "rsdp_length ram a = read32 ram (a + 20)"
definition xsdt_address :: "memory \<Rightarrow> u64 \<Rightarrow> u64" where "xsdt_address ram a = read64 ram (a + 24)"
definition sdt_length :: "memory \<Rightarrow> u64 \<Rightarrow> u32" where "sdt_length ram a = read32 ram (a + 4)"

definition acpi_init :: "memory \<Rightarrow> paddr_t \<Rightarrow> acpi_state" where
  "acpi_init ram rsdp_address =
     (let st = \<lparr>m_rsdp_phys = rsdp_address, m_sdt_root_phys = 0, m_is_xsdt = False, m_initialized = False\<rparr>
      in if m_rsdp_phys st = 0 then st
         else
           case phy_to_vrt (m_rsdp_phys st) of
             None \<Rightarrow> st
           | Some rsdp \<Rightarrow>
               if \<not> signature_match_bytes ram rsdp ''RSD PTR '' then st
               else if \<not> validate_checksum ram (Some rsdp) 20 then st
               else if rsdp_revision ram rsdp \<ge> 2 \<and> xsdt_address ram rsdp \<noteq> 0 then
                 if \<not> validate_checksum ram (Some rsdp) (unat (rsdp_length ram rsdp)) then st
                 else st\<lparr>m_sdt_root_phys := xsdt_address ram rsdp, m_is_xsdt := True,
                         m_initialized := (xsdt_address ram rsdp \<noteq> 0)\<rparr>
               else
                 let root = ucast (rsdt_address ram rsdp)
                 in st\<lparr>m_sdt_root_phys := root, m_is_xsdt := False, m_initialized := (root \<noteq> 0)\<rparr>)"

fun table_loop :: "memory \<Rightarrow> string \<Rightarrow> paddr_t list \<Rightarrow> vaddr_t option" where
  "table_loop ram sig [] = None"
| "table_loop ram sig (table_phys # ptrs) =
     (if table_phys = 0 then table_loop ram sig ptrs
      else
        case phy_to_vrt table_phys of
          None \<Rightarrow> table_loop ram sig ptrs
        | Some header \<Rightarrow>
            if signature_match_bytes ram header sig
               \<and> validate_checksum ram (Some header) (unat (sdt_length ram header))
            then Some header
            else table_loop ram sig ptrs)"

definition root_entries :: "memory \<Rightarrow> bool \<Rightarrow> u64 \<Rightarrow> paddr_t list" where
  "root_entries ram is_xsdt root =
     (let entries_bytes = unat (sdt_length ram root) - SIZEOF_sdt_header;
          entries_base = root + of_nat SIZEOF_sdt_header
      in if is_xsdt
         then map (\<lambda>i. read64 ram (entries_base + of_nat (8 * i))) [0..<entries_bytes div 8]
         else map (\<lambda>i. ucast (read32 ram (entries_base + of_nat (4 * i)))) [0..<entries_bytes div 4])"

definition find_table :: "memory \<Rightarrow> acpi_state \<Rightarrow> string \<Rightarrow> vaddr_t option" where
  "find_table ram st sig =
     (if \<not> m_initialized st then None
      else
        case phy_to_vrt (m_sdt_root_phys st) of
          None \<Rightarrow> None
        | Some root_header \<Rightarrow>
            if \<not> validate_checksum ram (Some root_header) (unat (sdt_length ram root_header)) then None
            else if unat (sdt_length ram root_header) < SIZEOF_sdt_header then None
            else table_loop ram sig (root_entries ram (m_is_xsdt st) root_header))"

definition sdt_view_length :: "memory \<Rightarrow> vaddr_t option \<Rightarrow> u32" where
  "sdt_view_length ram view = (case view of None \<Rightarrow> 0 | Some h \<Rightarrow> sdt_length ram h)"

definition sdt_body :: "vaddr_t option \<Rightarrow> vaddr_t option" where
  "sdt_body view = map_option (\<lambda>h. h + of_nat SIZEOF_sdt_header) view"

definition sdt_body_size :: "memory \<Rightarrow> vaddr_t option \<Rightarrow> nat" where
  "sdt_body_size ram view =
     (case view of
        None \<Rightarrow> 0
      | Some h \<Rightarrow>
          if unat (sdt_length ram h) < SIZEOF_sdt_header then 0
          else unat (sdt_length ram h) - SIZEOF_sdt_header)"

definition init_acpi :: "memory \<Rightarrow> boot_info \<Rightarrow> acpi_state \<Rightarrow> init_result \<times> acpi_state" where
  "init_acpi ram boot st =
     (if \<not> acpi_present (acpi boot) \<or> r_base (acpi_rsdp (acpi boot)) = 0
      then (Err INVALID_BOOT_DATA, st)
      else
        let st = acpi_init ram (r_base (acpi_rsdp (acpi boot)))
        in if \<not> m_initialized st then (Err INVALID_BOOT_DATA, st) else (Ok (), st))"

section \<open>The interrupt-controller table\<close>

record processor_info =
  apic_id :: u32
  acpi_id :: u32
  enabled :: bool
  online_capable :: bool

record ioapic_record =
  io_id :: u8
  io_address :: paddr_t
  io_gsi_base :: u32

record iso_record =
  iso_bus :: u8
  iso_source :: u8
  iso_gsi :: u32
  iso_flags :: u16

record madt_info =
  lapic_address :: paddr_t
  madt_flags :: u32
  cpus :: "processor_info list"
  ioapics :: "ioapic_record list"
  isos :: "iso_record list"

definition MAX_CPUS :: nat where "MAX_CPUS = 64"
definition MAX_IOAPICS :: nat where "MAX_IOAPICS = 8"
definition MAX_ISOS :: nat where "MAX_ISOS = 32"

definition madt_info_zero :: madt_info where
  "madt_info_zero = \<lparr>lapic_address = 0xFEE00000, madt_flags = 0, cpus = [], ioapics = [], isos = []\<rparr>"

definition SIZEOF_madt_header :: nat where "SIZEOF_madt_header = 44"
definition SIZEOF_madt_entry_header :: nat where "SIZEOF_madt_entry_header = 2"
definition SIZEOF_madt_lapic :: nat where "SIZEOF_madt_lapic = 8"
definition SIZEOF_madt_ioapic :: nat where "SIZEOF_madt_ioapic = 12"
definition SIZEOF_madt_iso :: nat where "SIZEOF_madt_iso = 10"
definition SIZEOF_madt_lapic_address_override :: nat where "SIZEOF_madt_lapic_address_override = 12"
definition SIZEOF_madt_x2apic :: nat where "SIZEOF_madt_x2apic = 16"

definition TYPE_LAPIC :: u8 where "TYPE_LAPIC = 0"
definition TYPE_IOAPIC :: u8 where "TYPE_IOAPIC = 1"
definition TYPE_INTERRUPT_OVERRIDE :: u8 where "TYPE_INTERRUPT_OVERRIDE = 2"
definition TYPE_LAPIC_ADDRESS_OVERRIDE :: u8 where "TYPE_LAPIC_ADDRESS_OVERRIDE = 5"
definition TYPE_X2APIC :: u8 where "TYPE_X2APIC = 9"

lemmas madt_layout [layout] = SIZEOF_sdt_header_def SIZEOF_madt_header_def SIZEOF_madt_entry_header_def
  SIZEOF_madt_lapic_def SIZEOF_madt_ioapic_def SIZEOF_madt_iso_def
  SIZEOF_madt_lapic_address_override_def SIZEOF_madt_x2apic_def

text \<open>The structures of the entries, read at the entry's address.\<close>

definition read_lapic :: "memory \<Rightarrow> u64 \<Rightarrow> processor_info" where
  "read_lapic ram e =
     \<lparr>apic_id = ucast (ram (e + 3)), acpi_id = ucast (ram (e + 2)),
      enabled = (read32 ram (e + 4) AND 1 \<noteq> 0), online_capable = (read32 ram (e + 4) AND 2 \<noteq> 0)\<rparr>"

definition read_ioapic :: "memory \<Rightarrow> u64 \<Rightarrow> ioapic_record" where
  "read_ioapic ram e =
     \<lparr>io_id = ram (e + 2), io_address = ucast (read32 ram (e + 4)), io_gsi_base = read32 ram (e + 8)\<rparr>"

definition read_iso :: "memory \<Rightarrow> u64 \<Rightarrow> iso_record" where
  "read_iso ram e =
     \<lparr>iso_bus = ram (e + 2), iso_source = ram (e + 3), iso_gsi = read32 ram (e + 4),
      iso_flags = read16 ram (e + 8)\<rparr>"

definition read_x2apic :: "memory \<Rightarrow> u64 \<Rightarrow> processor_info" where
  "read_x2apic ram e =
     \<lparr>apic_id = read32 ram (e + 4), acpi_id = read32 ram (e + 12),
      enabled = (read32 ram (e + 8) AND 1 \<noteq> 0), online_capable = (read32 ram (e + 8) AND 2 \<noteq> 0)\<rparr>"

definition madt_entry_type :: "memory \<Rightarrow> u64 \<Rightarrow> u8" where "madt_entry_type ram e = ram e"
definition madt_entry_length :: "memory \<Rightarrow> u64 \<Rightarrow> nat" where "madt_entry_length ram e = unat (ram (e + 1))"

definition madt_entry :: "memory \<Rightarrow> u64 \<Rightarrow> madt_info \<Rightarrow> madt_info" where
  "madt_entry ram e info =
     (if madt_entry_type ram e = TYPE_LAPIC then
        if madt_entry_length ram e \<ge> SIZEOF_madt_lapic \<and> length (cpus info) < MAX_CPUS
        then info\<lparr>cpus := cpus info @ [read_lapic ram e]\<rparr> else info
      else if madt_entry_type ram e = TYPE_IOAPIC then
        if madt_entry_length ram e \<ge> SIZEOF_madt_ioapic \<and> length (ioapics info) < MAX_IOAPICS
        then info\<lparr>ioapics := ioapics info @ [read_ioapic ram e]\<rparr> else info
      else if madt_entry_type ram e = TYPE_INTERRUPT_OVERRIDE then
        if madt_entry_length ram e \<ge> SIZEOF_madt_iso \<and> length (isos info) < MAX_ISOS
        then info\<lparr>isos := isos info @ [read_iso ram e]\<rparr> else info
      else if madt_entry_type ram e = TYPE_LAPIC_ADDRESS_OVERRIDE then
        if madt_entry_length ram e \<ge> SIZEOF_madt_lapic_address_override
        then info\<lparr>lapic_address := read64 ram (e + 4)\<rparr> else info
      else if madt_entry_type ram e = TYPE_X2APIC then
        if madt_entry_length ram e \<ge> SIZEOF_madt_x2apic \<and> length (cpus info) < MAX_CPUS
        then info\<lparr>cpus := cpus info @ [read_x2apic ram e]\<rparr> else info
      else info)"

text \<open>
  The loop over the entries, with the reads of entry headers it performs beside its result:
  the length, and the type once the length is sane.
\<close>

function madt_scan :: "memory \<Rightarrow> u64 \<Rightarrow> nat \<Rightarrow> nat \<Rightarrow> madt_info \<Rightarrow> madt_info \<times> access list" where
  "madt_scan ram madt len cursor info =
     (if cursor + SIZEOF_madt_entry_header \<le> len then
        let e = madt + of_nat cursor
        in if madt_entry_length ram e < SIZEOF_madt_entry_header then (info, [(e + 1, 1)])
           else if cursor + madt_entry_length ram e > len then (info, [(e + 1, 1)])
           else
             let (info, reads) = madt_scan ram madt len (cursor + madt_entry_length ram e) (madt_entry ram e info)
             in (info, (e + 1, 1) # (e, 1) # reads)
      else (info, []))"
  by pat_completeness auto
termination
  by (relation "measure (\<lambda>(ram, madt, len, cursor, info). len - cursor)")
    (auto simp: SIZEOF_madt_entry_header_def)

declare madt_scan.simps [simp del]

record madt_state =
  m_cached_madt_info :: madt_info
  m_madt_parsed :: bool

definition madt_boot_state :: madt_state where
  "madt_boot_state = \<lparr>m_cached_madt_info = madt_info_zero, m_madt_parsed = False\<rparr>"

text \<open>Beside the result, the reads of the table's header and of the headers of its entries.\<close>

definition parse_madt_reads ::
    "memory \<Rightarrow> vaddr_t option \<Rightarrow> madt_state \<Rightarrow> (madt_info \<times> madt_state) \<times> access list" where
  "parse_madt_reads ram view st =
     (case view of
        None \<Rightarrow> ((madt_info_zero, st), [])
      | Some madt \<Rightarrow>
          if unat (sdt_view_length ram view) < SIZEOF_madt_header then ((madt_info_zero, st), [(madt + 4, 4)])
          else
            let info = madt_info_zero\<lparr>lapic_address := ucast (read32 ram (madt + 36)),
                                      madt_flags := read32 ram (madt + 40)\<rparr>;
                (info, reads) = madt_scan ram madt (unat (sdt_length ram madt)) SIZEOF_madt_header info
            in ((info, \<lparr>m_cached_madt_info = info, m_madt_parsed = True\<rparr>),
                (madt + 4, 4) # (madt + 36, 4) # (madt + 40, 4) # reads))"

definition parse_madt :: "memory \<Rightarrow> vaddr_t option \<Rightarrow> madt_state \<Rightarrow> madt_info \<times> madt_state" where
  "parse_madt ram view st = fst (parse_madt_reads ram view st)"

definition get_madt_info :: "memory \<Rightarrow> acpi_state \<Rightarrow> madt_state \<Rightarrow> madt_info \<times> madt_state" where
  "get_madt_info ram as st =
     (let st =
        (if \<not> m_madt_parsed st
         then
           let view = find_table ram as ''APIC''
           in if view \<noteq> None then snd (parse_madt ram view st) else st
         else st)
      in (m_cached_madt_info st, st))"

end
