(* ===== verification/Acpi_Correct.thy ===== *)
theory Acpi_Correct
  imports Acpi
begin

text \<open>
  Correctness of the table lookup (first valid table with the signature) and of the
  interrupt-controller parser (equal to a specification over the list of entries, bounded
  arrays, no read outside the table).
\<close>

section \<open>Checksums\<close>

lemma checksum_loop_sum: "checksum_loop ram a n acc = acc + sum_list (bytes_at ram a n)"
  by (induction n arbitrary: a acc) (simp_all add: bytes_at_Suc algebra_simps)

lemma validate_checksum_iff:
  "validate_checksum ram p n \<longleftrightarrow> (\<exists>a. p = Some a \<and> n \<noteq> 0 \<and> sum_list (bytes_at ram a n) = 0)"
  by (auto simp: validate_checksum_def checksum_loop_sum split: option.splits)

lemma signature_match_bytes_iff:
  "signature_match_bytes ram a s \<longleftrightarrow> map char_of_byte (bytes_at ram a (length s)) = s"
  by (induction s arbitrary: a) (simp_all add: bytes_at_Suc)

section \<open>Lookup\<close>

definition good_table :: "memory \<Rightarrow> string \<Rightarrow> paddr_t \<Rightarrow> vaddr_t \<Rightarrow> bool" where
  "good_table ram sig p h \<longleftrightarrow>
     p \<noteq> 0 \<and> phy_to_vrt p = Some h
     \<and> map char_of_byte (bytes_at ram h (length sig)) = sig
     \<and> sdt_length ram h \<noteq> 0
     \<and> sum_list (bytes_at ram h (unat (sdt_length ram h))) = 0"

lemma good_table_code:
  "good_table ram sig p h \<longleftrightarrow>
     p \<noteq> 0 \<and> phy_to_vrt p = Some h \<and> signature_match_bytes ram h sig
     \<and> validate_checksum ram (Some h) (unat (sdt_length ram h))"
  by (auto simp: good_table_def validate_checksum_iff signature_match_bytes_iff unat_eq_zero)

lemma table_loop_spec:
  "(case table_loop ram sig ps of
      None \<Rightarrow> \<forall>p \<in> set ps. \<forall>h. \<not> good_table ram sig p h
    | Some h \<Rightarrow> \<exists>as p bs. ps = as @ p # bs \<and> good_table ram sig p h
        \<and> (\<forall>q \<in> set as. \<forall>h. \<not> good_table ram sig q h))"
proof (induction ps)
  case (Cons p ps)
  show ?case
  proof (cases "\<exists>h. good_table ram sig p h")
    case True
    then obtain h where h: "good_table ram sig p h" by blast
    then have "table_loop ram sig (p # ps) = Some h" by (auto simp: good_table_code)
    then show ?thesis using h by (auto intro!: exI [of _ "[]"])
  next
    case False
    then have eq: "table_loop ram sig (p # ps) = table_loop ram sig ps"
      by (auto simp: good_table_code split: option.splits)
    show ?thesis
    proof (cases "table_loop ram sig ps")
      case None
      then show ?thesis using Cons.IH eq False by simp
    next
      case (Some h)
      then obtain as q bs where "ps = as @ q # bs" "good_table ram sig q h"
        "\<forall>r \<in> set as. \<forall>h. \<not> good_table ram sig r h"
        using Cons.IH by auto
      then have "p # ps = (p # as) @ q # bs \<and> good_table ram sig q h
          \<and> (\<forall>r \<in> set (p # as). \<forall>h. \<not> good_table ram sig r h)"
        using False by auto
      then show ?thesis unfolding eq Some option.case by blast
    qed
  qed
qed simp

text \<open>
  \<^verbatim>\<open>find_table\<close> on a valid root table returns the first listed table that has the
  signature, a non-zero length and a zero byte sum, and nothing exactly when no listed
  table has these.
\<close>

theorem find_table_first:
  assumes "m_initialized st" "phy_to_vrt (m_sdt_root_phys st) = Some root"
    and "sum_list (bytes_at ram root (unat (sdt_length ram root))) = 0"
    and "36 \<le> unat (sdt_length ram root)"
  shows "case find_table ram st sig of
      None \<Rightarrow> \<forall>p \<in> set (root_entries ram (m_is_xsdt st) root). \<forall>h. \<not> good_table ram sig p h
    | Some h \<Rightarrow> \<exists>as p bs. root_entries ram (m_is_xsdt st) root = as @ p # bs
        \<and> good_table ram sig p h \<and> (\<forall>q \<in> set as. \<forall>h'. \<not> good_table ram sig q h')"
proof -
  have "validate_checksum ram (Some root) (unat (sdt_length ram root))"
    using assms(3,4) by (auto simp: validate_checksum_iff)
  then have "find_table ram st sig = table_loop ram sig (root_entries ram (m_is_xsdt st) root)"
    using assms by (simp add: find_table_def SIZEOF_sdt_header_def)
  then show ?thesis using table_loop_spec [where ps = "root_entries ram (m_is_xsdt st) root"] by simp
qed

section \<open>The parser and its specification\<close>

text \<open>
  The entries of a table: the offsets at which the chain of entry lengths puts them, up to
  the first entry that is too short or does not fit.
\<close>

function madt_offsets :: "memory \<Rightarrow> u64 \<Rightarrow> nat \<Rightarrow> nat \<Rightarrow> nat list" where
  "madt_offsets ram madt len cursor =
     (let l = madt_entry_length ram (madt + of_nat cursor)
      in if cursor + 2 \<le> len \<and> 2 \<le> l \<and> cursor + l \<le> len
         then cursor # madt_offsets ram madt len (cursor + l) else [])"
  by pat_completeness auto
termination
  by (relation "measure (\<lambda>(ram, madt, len, cursor). len - cursor)") auto

declare madt_offsets.simps [simp del]

definition cpu_of :: "memory \<Rightarrow> u64 \<Rightarrow> processor_info list" where
  "cpu_of ram e =
     (if madt_entry_type ram e = TYPE_LAPIC \<and> 8 \<le> madt_entry_length ram e then [read_lapic ram e]
      else if madt_entry_type ram e = TYPE_X2APIC \<and> 16 \<le> madt_entry_length ram e then [read_x2apic ram e]
      else [])"

definition ioapic_of :: "memory \<Rightarrow> u64 \<Rightarrow> ioapic_record list" where
  "ioapic_of ram e =
     (if madt_entry_type ram e = TYPE_IOAPIC \<and> 12 \<le> madt_entry_length ram e then [read_ioapic ram e] else [])"

definition iso_of :: "memory \<Rightarrow> u64 \<Rightarrow> iso_record list" where
  "iso_of ram e =
     (if madt_entry_type ram e = TYPE_INTERRUPT_OVERRIDE \<and> 10 \<le> madt_entry_length ram e
      then [read_iso ram e] else [])"

definition override_of :: "memory \<Rightarrow> u64 \<Rightarrow> paddr_t list" where
  "override_of ram e =
     (if madt_entry_type ram e = TYPE_LAPIC_ADDRESS_OVERRIDE \<and> 12 \<le> madt_entry_length ram e
      then [read64 ram (e + 4)] else [])"

lemma madt_scan_fold:
  "fst (madt_scan ram madt len cursor info) =
     fold (\<lambda>c. madt_entry ram (madt + of_nat c)) (madt_offsets ram madt len cursor) info"
proof (induction ram madt len cursor info rule: madt_scan.induct)
  case (1 ram madt len cursor info)
  let ?l = "madt_entry_length ram (madt + of_nat cursor)"
  show ?case
  proof (cases "cursor + 2 \<le> len \<and> 2 \<le> ?l \<and> cursor + ?l \<le> len")
    case True
    then show ?thesis
      using "1.IH" [OF _ refl]
      by (subst madt_scan.simps, subst madt_offsets.simps) (simp add: madt_layout Let_def split_beta)
  next
    case False
    then show ?thesis
      by (subst madt_scan.simps, subst madt_offsets.simps) (auto simp: madt_layout Let_def)
  qed
qed

lemmas madt_types = TYPE_LAPIC_def TYPE_IOAPIC_def TYPE_INTERRUPT_OVERRIDE_def
  TYPE_LAPIC_ADDRESS_OVERRIDE_def TYPE_X2APIC_def

lemma madt_entry_fields:
  assumes "cpus info = take MAX_CPUS cs" "ioapics info = take MAX_IOAPICS ios" "isos info = take MAX_ISOS is"
  shows "cpus (madt_entry ram e info) = take MAX_CPUS (cs @ cpu_of ram e)"
    "ioapics (madt_entry ram e info) = take MAX_IOAPICS (ios @ ioapic_of ram e)"
    "isos (madt_entry ram e info) = take MAX_ISOS (is @ iso_of ram e)"
    "lapic_address (madt_entry ram e info) = last (lapic_address info # override_of ram e)"
    "madt_flags (madt_entry ram e info) = madt_flags info"
  using assms
  by (auto simp: madt_entry_def cpu_of_def ioapic_of_def iso_of_def override_of_def madt_layout madt_types)

lemma madt_fold_fields:
  fixes ram :: memory and madt :: u64 and info :: madt_info
  assumes "cpus info = take MAX_CPUS cs" "ioapics info = take MAX_IOAPICS ios" "isos info = take MAX_ISOS is"
  defines "r \<equiv> \<lambda>es. fold (\<lambda>c. madt_entry ram (madt + of_nat c)) es info"
  shows "cpus (r es) = take MAX_CPUS (cs @ concat (map (\<lambda>c. cpu_of ram (madt + of_nat c)) es))
    \<and> ioapics (r es) = take MAX_IOAPICS (ios @ concat (map (\<lambda>c. ioapic_of ram (madt + of_nat c)) es))
    \<and> isos (r es) = take MAX_ISOS (is @ concat (map (\<lambda>c. iso_of ram (madt + of_nat c)) es))
    \<and> lapic_address (r es) = last (lapic_address info # concat (map (\<lambda>c. override_of ram (madt + of_nat c)) es))
    \<and> madt_flags (r es) = madt_flags info"
  unfolding r_def
proof (induction es rule: rev_induct)
  case Nil
  then show ?case using assms(1-3) by simp
next
  case (snoc e es)
  note F = madt_entry_fields [of "fold (\<lambda>c. madt_entry ram (madt + of_nat c)) es info"
      "cs @ concat (map (\<lambda>c. cpu_of ram (madt + of_nat c)) es)"
      "ios @ concat (map (\<lambda>c. ioapic_of ram (madt + of_nat c)) es)"
      "is @ concat (map (\<lambda>c. iso_of ram (madt + of_nat c)) es)" ram "madt + of_nat e"]
  have "last (last (x # ys) # zs) = last (x # ys @ zs)" for x and ys zs :: "paddr_t list"
    by (cases zs) auto
  then show ?case using F snoc by simp
qed

text \<open>
  C33: the interrupt-controller table is parsed as specified: with the entries that the
  chain of lengths reaches, the processors, I/O APICs and interrupt overrides are the
  entries of these types that are long enough, in table order and cut at the capacity of
  the arrays; the local APIC address is the last override, or the header's; the result is
  cached.
\<close>

theorem parse_madt_correct:
  fixes ram :: memory and madt :: u64
  assumes "44 \<le> unat (sdt_length ram madt)"
  defines "es \<equiv> map (\<lambda>c. madt + of_nat c) (madt_offsets ram madt (unat (sdt_length ram madt)) 44)"
  shows "\<exists>info. parse_madt ram (Some madt) st = (info, \<lparr>m_cached_madt_info = info, m_madt_parsed = True\<rparr>)
    \<and> cpus info = take 64 (concat (map (cpu_of ram) es))
    \<and> ioapics info = take 8 (concat (map (ioapic_of ram) es))
    \<and> isos info = take 32 (concat (map (iso_of ram) es))
    \<and> lapic_address info = last (ucast (read32 ram (madt + 36)) # concat (map (override_of ram) es))
    \<and> madt_flags info = read32 ram (madt + 40)"
proof -
  let ?i = "madt_info_zero\<lparr>lapic_address := ucast (read32 ram (madt + 36)), madt_flags := read32 ram (madt + 40)\<rparr>"
  have "parse_madt ram (Some madt) st =
      (let info = fst (madt_scan ram madt (unat (sdt_length ram madt)) 44 ?i)
       in (info, \<lparr>m_cached_madt_info = info, m_madt_parsed = True\<rparr>))"
    using assms(1) by (simp add: parse_madt_def parse_madt_reads_def sdt_view_length_def SIZEOF_madt_header_def Let_def split_beta)
  moreover have "cpus ?i = take MAX_CPUS []" "ioapics ?i = take MAX_IOAPICS []" "isos ?i = take MAX_ISOS []"
    by (simp_all add: madt_info_zero_def)
  note F = madt_fold_fields [OF this, of ram madt]
  ultimately show ?thesis
    using F [of "madt_offsets ram madt (unat (sdt_length ram madt)) 44"]
    unfolding madt_scan_fold es_def
    by (simp add: Let_def MAX_CPUS_def MAX_IOAPICS_def MAX_ISOS_def comp_def)
qed

section \<open>Reads stay inside the table\<close>

lemma madt_entry_agree:
  assumes ag: "agree ram ram' e (madt_entry_length ram e)" and len: "2 \<le> madt_entry_length ram e"
  shows "madt_entry_length ram' e = madt_entry_length ram e" "madt_entry ram' e = madt_entry ram e"
proof -
  have byte: "ram' (e + k) = ram (e + k)" if "unat k < madt_entry_length ram e" for k
    using byte_agree [OF agree_word_offset [OF ag, of k 1]] that by simp
  have r32: "read32 ram' (e + k) = read32 ram (e + k)" if "unat k + 4 \<le> madt_entry_length ram e" for k
    using read_agree(2) [OF agree_word_offset [OF ag that]] by simp
  have r64: "read64 ram' (e + k) = read64 ram (e + k)" if "unat k + 8 \<le> madt_entry_length ram e" for k
    using read_agree(3) [OF agree_word_offset [OF ag that]] by simp
  have r16: "read16 ram' (e + k) = read16 ram (e + k)" if "unat k + 2 \<le> madt_entry_length ram e" for k
    using read_agree(1) [OF agree_word_offset [OF ag that]] by simp
  show l: "madt_entry_length ram' e = madt_entry_length ram e"
    using byte [of 1] len by (simp add: madt_entry_length_def)
  have t: "madt_entry_type ram' e = madt_entry_type ram e"
    using byte [of 0] len by (simp add: madt_entry_type_def)
  have "read_lapic ram' e = read_lapic ram e" if "8 \<le> madt_entry_length ram e"
    using that by (simp add: read_lapic_def byte r32)
  moreover have "read_ioapic ram' e = read_ioapic ram e" if "12 \<le> madt_entry_length ram e"
    using that by (simp add: read_ioapic_def byte r32)
  moreover have "read_iso ram' e = read_iso ram e" if "10 \<le> madt_entry_length ram e"
    using that by (simp add: read_iso_def byte r32 r16)
  moreover have "read_x2apic ram' e = read_x2apic ram e" if "16 \<le> madt_entry_length ram e"
    using that by (simp add: read_x2apic_def r32)
  moreover have "read64 ram' (e + 4) = read64 ram (e + 4)" if "12 \<le> madt_entry_length ram e"
    using that by (simp add: r64)
  ultimately show "madt_entry ram' e = madt_entry ram e"
    by (intro ext) (auto simp: madt_entry_def l t madt_layout)
qed

lemma madt_scan_agree:
  "agree ram ram' madt len \<Longrightarrow> madt_scan ram' madt len cursor info = madt_scan ram madt len cursor info"
proof (induction ram madt len cursor info rule: madt_scan.induct)
  case (1 ram madt len cursor info)
  let ?e = "madt + of_nat cursor"
  show ?case
  proof (cases "cursor + 2 \<le> len")
    case False
    then show ?thesis by (simp add: madt_scan.simps [of ram] madt_scan.simps [of ram'] madt_layout)
  next
    case True
    have "agree ram ram' ?e 2" using True by (intro agree_offset [OF "1.prems"]) simp
    then have l: "madt_entry_length ram' ?e = madt_entry_length ram ?e"
      using byte_agree [OF agree_offset [of ram ram' ?e 2 1 1]] by (simp add: madt_entry_length_def)
    show ?thesis
    proof (cases "2 \<le> madt_entry_length ram ?e \<and> cursor + madt_entry_length ram ?e \<le> len")
      case fits: True
      then have "agree ram ram' ?e (madt_entry_length ram ?e)"
        by (intro agree_offset [OF "1.prems"]) simp
      then have "madt_entry ram' ?e = madt_entry ram ?e" using fits by (intro madt_entry_agree) auto
      then show ?thesis
        using "1.IH" [OF _ refl] True fits l "1.prems"
        by (simp add: madt_scan.simps [of ram _ _ cursor] madt_scan.simps [of ram' _ _ cursor] madt_layout Let_def)
    next
      case False
      then show ?thesis
        using True l by (auto simp: madt_scan.simps [of ram _ _ cursor] madt_scan.simps [of ram' _ _ cursor]
            madt_layout Let_def)
    qed
  qed
qed

lemma madt_scan_reads: "\<forall>r \<in> set (snd (madt_scan ram madt len cursor info)). access_in madt len r"
proof (induction ram madt len cursor info rule: madt_scan.induct)
  case (1 ram madt len cursor info)
  let ?e = "madt + of_nat cursor"
  have hd: "access_in madt len (?e + 1, 1) \<and> access_in madt len (?e, 1)" if "cursor + 2 \<le> len"
    using access_inI [of "cursor + 1" 1 len madt] access_inI [of cursor 1 len madt] that by (simp add: ac_simps)
  show ?case
  proof (cases "cursor + 2 \<le> len \<and> 2 \<le> madt_entry_length ram ?e \<and> cursor + madt_entry_length ram ?e \<le> len")
    case True
    then show ?thesis
      using "1.IH" [OF _ refl] hd by (subst madt_scan.simps) (auto simp: madt_layout Let_def split_beta)
  next
    case False
    then show ?thesis using hd by (subst madt_scan.simps) (auto simp: madt_layout Let_def)
  qed
qed

text \<open>
  C34: the parser reads no byte outside the table, whatever its length and the entries' own
  length fields say: its reads of the table's header and of the entries' headers lie in the
  table's \<^verbatim>\<open>length\<close> bytes (the length field itself, bytes 4 to 7, is read of any table), and
  memories that agree on these bytes give the same result, so that no entry field is read
  outside them either. A table shorter than its header is not read further.
\<close>

theorem parse_madt_reads_table:
  "(\<forall>r \<in> set (snd (parse_madt_reads ram (Some madt) st)). access_in madt (max 8 (unat (sdt_length ram madt))) r) \<and>
   (agree ram ram' madt (max 8 (unat (sdt_length ram madt))) \<longrightarrow>
      parse_madt ram' (Some madt) st = parse_madt ram (Some madt) st)"
proof (intro conjI impI)
  let ?n = "unat (sdt_length ram madt)"
  have hd: "access_in madt (max 8 ?n) (madt + 4, 4)" using access_inI [of 4 4 "max 8 ?n" madt] by simp
  show "\<forall>r \<in> set (snd (parse_madt_reads ram (Some madt) st)). access_in madt (max 8 ?n) r"
  proof (cases "?n < 44")
    case True
    then show ?thesis using hd by (simp add: parse_madt_reads_def sdt_view_length_def SIZEOF_madt_header_def)
  next
    case False
    then have m: "max 8 ?n = ?n" by simp
    have "access_in madt ?n (madt + 36, 4)" "access_in madt ?n (madt + 40, 4)"
      using access_inI [of 36 4 ?n madt] access_inI [of 40 4 ?n madt] False by simp_all
    then show ?thesis
      using hd False madt_scan_reads [of ram madt ?n 44] unfolding m
      by (auto simp: parse_madt_reads_def sdt_view_length_def SIZEOF_madt_header_def Let_def split_beta)
  qed
  assume ag: "agree ram ram' madt (max 8 ?n)"
  have r32: "read32 ram' (madt + k) = read32 ram (madt + k)" if "unat k + 4 \<le> max 8 ?n" for k
    using read_agree(2) [OF agree_word_offset [OF ag that]] by simp
  have l: "sdt_length ram' madt = sdt_length ram madt" using r32 [of 4] by (simp add: sdt_length_def)
  show "parse_madt ram' (Some madt) st = parse_madt ram (Some madt) st"
  proof (cases "?n < 44")
    case True
    then show ?thesis by (simp add: parse_madt_def parse_madt_reads_def sdt_view_length_def SIZEOF_madt_header_def l)
  next
    case False
    have "agree ram ram' madt ?n" using agree_mono [OF ag] by simp
    then show ?thesis
      using madt_scan_agree r32 [of 36] r32 [of 40] False
      by (simp add: parse_madt_def parse_madt_reads_def sdt_view_length_def SIZEOF_madt_header_def l Let_def)
  qed
qed

section \<open>A sample set of tables\<close>

text \<open>A root table at physical \<open>0x1000\<close> that lists one interrupt-controller table at \<open>0x2000\<close>.\<close>

definition sample_rsdt :: "u8 list" where
  "sample_rsdt =
     [82, 83, 68, 84, 40, 0, 0, 0, 1, 85, 68, 79, 79, 77, 79, 83,
      68, 79, 79, 77, 84, 65, 66, 76, 1, 0, 0, 0, 0, 0, 0, 0,
      1, 0, 0, 0, 0, 32, 0, 0]"

definition sample_madt :: "u8 list" where
  "sample_madt =
     [65, 80, 73, 67, 74, 0, 0, 0, 1, 176, 68, 79, 79, 77, 79, 83,
      68, 79, 79, 77, 84, 65, 66, 76, 1, 0, 0, 0, 0, 0, 0, 0,
      1, 0, 0, 0, 0, 0, 224, 254, 1, 0, 0, 0, 0, 8, 0, 0,
      1, 0, 0, 0, 1, 12, 2, 0, 0, 0, 192, 254, 0, 0, 0, 0,
      2, 10, 0, 0, 2, 0, 0, 0, 0, 0]"

definition sample_ram :: memory where
  "sample_ram a =
     (if unat (a - 0xFFFF800000001000) < length sample_rsdt
      then sample_rsdt ! unat (a - 0xFFFF800000001000)
      else image_at 0xFFFF800000002000 sample_madt a)"

definition sample_acpi :: acpi_state where
  "sample_acpi = \<lparr>m_rsdp_phys = 0x500, m_sdt_root_phys = 0x1000, m_is_xsdt = False, m_initialized = True\<rparr>"

lemmas sample_ram_eval = sample_ram_def sample_rsdt_def sample_madt_def read_eval

lemma sample_lengths:
  "sdt_length sample_ram 0xFFFF800000001000 = 40"
  "sdt_length sample_ram 0xFFFF800000002000 = 74"
  by (simp_all add: sdt_length_def sample_ram_eval)

lemma sample_root_vrt: "phy_to_vrt (m_sdt_root_phys sample_acpi) = Some 0xFFFF800000001000"
  by (simp add: sample_acpi_def phy_to_vrt_def DIRECT_MAP_SIZE_def DIRECT_MAP_BASE_def)

lemma sample_acpi_ready: "m_initialized sample_acpi"
  by (simp add: sample_acpi_def)

lemma sample_root_checksum: "sum_list (bytes_at sample_ram 0xFFFF800000001000 40) = 0"
  by code_simp

lemma parse_madt_correct_witness:
  "\<exists>info. parse_madt sample_ram (Some 0xFFFF800000002000) madt_boot_state
      = (info, \<lparr>m_cached_madt_info = info, m_madt_parsed = True\<rparr>) \<and> madt_flags info = 1"
proof -
  have "read32 sample_ram (0xFFFF800000002000 + 40) = 1"
    by (simp add: sample_ram_eval)
  then show ?thesis
    using parse_madt_correct [of sample_ram "0xFFFF800000002000" madt_boot_state]
    by (auto simp: sample_lengths)
qed

text \<open>A table of nine bytes: nothing behind its length field is read.\<close>

definition short_madt :: memory where
  "short_madt = image_at 0x2000 [65, 80, 73, 67, 9, 0, 0, 0, 1]"

lemma short_madt_length: "sdt_length short_madt 0x2000 = 9"
  by code_simp

theorem parse_madt_reads_table_witness:
  "parse_madt (sample_ram(0 := 1)) (Some 0xFFFF800000002000) madt_boot_state
     = parse_madt sample_ram (Some 0xFFFF800000002000) madt_boot_state \<and>
   list_all (access_in 0x2000 9) (snd (parse_madt_reads short_madt (Some 0x2000) madt_boot_state)) \<and>
   parse_madt (short_madt(0 := 1)) (Some 0x2000) madt_boot_state = parse_madt short_madt (Some 0x2000) madt_boot_state"
proof -
  have off: "b + of_nat i \<noteq> 0" if "0 < unat b" "i < 74" "unat b + 74 < 2 ^ 64" for b :: u64 and i
  proof -
    have "unat (b + of_nat i) = unat b + i"
      using that by (subst unat_plus_small) (simp_all add: unat_of_nat_small)
    then show ?thesis using that(1) by auto
  qed
  have "agree sample_ram (sample_ram(0 := 1)) 0xFFFF800000002000 74"
    using off [of "0xFFFF800000002000"] by (simp add: agree_def)
  moreover have "agree short_madt (short_madt(0 := 1)) 0x2000 9"
    using off [of "0x2000"] by (simp add: agree_def)
  ultimately show ?thesis
    using parse_madt_reads_table [of sample_ram "0xFFFF800000002000" madt_boot_state "sample_ram(0 := 1)"]
      parse_madt_reads_table [of short_madt "0x2000" madt_boot_state "short_madt(0 := 1)"]
    unfolding sample_lengths(2) short_madt_length by (simp add: list_all_iff del: fun_upd_apply)
qed

end
