(* ===== verification/Page_Tree.thy ===== *)
theory Page_Tree
  imports Radix
begin

text \<open>
  The page-table tree as a data structure in physical memory: the tables a tree owns, its
  well-formedness (tables are disjoint frames, large leaves are aligned), the leaf a
  virtual address reaches, and what changing one entry does to all three. The walks of
  \<^verbatim>\<open>radix_tree.hpp\<close> are related to these notions in the next theory.
\<close>

section \<open>The tree below a table\<close>

type_synonym ram = "u64 \<Rightarrow> u64"

definition is_table :: "u64 \<Rightarrow> nat \<Rightarrow> bool" where
  "is_table e level \<longleftrightarrow> present e \<and> \<not> leaf e level"

abbreviation entry :: "ram \<Rightarrow> paddr_t \<Rightarrow> nat \<Rightarrow> u64" where
  "entry r t i \<equiv> r (slot_at t i)"

fun owned :: "ram \<Rightarrow> nat \<Rightarrow> paddr_t \<Rightarrow> paddr_t set" where
  "owned r 0 t = {}"
| "owned r (Suc l) t =
     insert t (\<Union>i\<in>{i. i < 512 \<and> is_table (entry r t i) (Suc l)}. owned r l (pte_address (entry r t i)))"

text \<open>The tables below the entries of \<open>t\<close> other than entry \<open>k\<close>, and those below one entry.\<close>

definition others :: "ram \<Rightarrow> nat \<Rightarrow> paddr_t \<Rightarrow> nat \<Rightarrow> paddr_t set" where
  "others r l t k =
     (\<Union>i\<in>{i. i < 512 \<and> i \<noteq> k \<and> is_table (entry r t i) (Suc l)}. owned r l (pte_address (entry r t i)))"

definition below :: "ram \<Rightarrow> nat \<Rightarrow> u64 \<Rightarrow> paddr_t set" where
  "below r l e = (if is_table e (Suc l) then owned r l (pte_address e) else {})"

definition leaf_ok :: "nat \<Rightarrow> u64 \<Rightarrow> bool" where
  "leaf_ok level e \<longleftrightarrow> level \<in> {1, 2, 3} \<and> unat (bytes_in (size_at level)) dvd unat (pte_address e)"

fun tree_wf :: "ram \<Rightarrow> nat \<Rightarrow> paddr_t \<Rightarrow> bool" where
  "tree_wf r 0 t \<longleftrightarrow> False"
| "tree_wf r (Suc l) t \<longleftrightarrow>
     frame_address t \<and>
     (\<forall>i<512. present (entry r t i) \<longrightarrow>
        (if leaf (entry r t i) (Suc l) then leaf_ok (Suc l) (entry r t i)
         else tree_wf r l (pte_address (entry r t i)))) \<and>
     (\<forall>i<512. t \<notin> below r l (entry r t i) \<and>
        (\<forall>j<512. i \<noteq> j \<longrightarrow> below r l (entry r t i) \<inter> below r l (entry r t j) = {}))"

fun find_leaf :: "ram \<Rightarrow> nat \<Rightarrow> paddr_t \<Rightarrow> vaddr_t \<Rightarrow> (nat \<times> u64) option" where
  "find_leaf r 0 t va = None"
| "find_leaf r (Suc l) t va =
     (let e = entry r t (pt_index (Suc l) va)
      in if \<not> present e then None
         else if leaf e (Suc l) then Some (Suc l, e)
         else find_leaf r l (pte_address e) va)"

text \<open>The table at level \<open>target\<close> on the path of \<open>va\<close>, where the path gets that far.\<close>

fun path_table :: "ram \<Rightarrow> nat \<Rightarrow> paddr_t \<Rightarrow> vaddr_t \<Rightarrow> nat \<Rightarrow> paddr_t option" where
  "path_table r 0 t va target = None"
| "path_table r (Suc l) t va target =
     (let e = entry r t (pt_index (Suc l) va)
      in if Suc l = target then Some t
         else if is_table e (Suc l) then path_table r l (pte_address e) va target
         else None)"

text \<open>What an address translates to: physical address and protection.\<close>

definition leaf_target :: "vaddr_t \<Rightarrow> nat \<times> u64 \<Rightarrow> paddr_t \<times> page_prot" where
  "leaf_target va = (\<lambda>(level, e).
     (pte_address e + (va AND (bytes_in (size_at level) - 1)), pte_prot e))"

definition xlate :: "ram \<Rightarrow> nat \<Rightarrow> paddr_t \<Rightarrow> vaddr_t \<Rightarrow> (paddr_t \<times> page_prot) option" where
  "xlate r level t va = map_option (leaf_target va) (find_leaf r level t va)"

section \<open>Slots\<close>

lemma pt_index_bound [simp]: "pt_index level va < 512"
proof -
  have "drop_bit (3 + 9 * level) va AND mask 9 < 2 ^ 9"
    by (rule and_mask_less_size) (simp add: word_size)
  then have "unat (drop_bit (3 + 9 * level) va AND mask 9) < 512"
    by (simp add: word_less_nat_alt)
  then show ?thesis by (simp add: pt_index_def mask_eq_exp_minus_1)
qed

lemma unat_slot_at:
  assumes "frame_address t" "i < 512"
  shows "unat (slot_at t i) = unat t + 8 * i"
proof -
  have "unat (of_nat (8 * i) :: u64) = 8 * i" using assms(2) by (intro unat_of_nat_small) simp
  moreover have "unat t < 2 ^ 52" using assms(1) by (simp add: frame_address_iff)
  then have "unat t + 8 * i < 2 ^ LENGTH(64)" using assms(2) by simp
  ultimately show ?thesis
    unfolding slot_at_def using unat_plus_small [of t "of_nat (8 * i)"] by simp
qed

lemma slot_at_inj:
  assumes "frame_address t" "frame_address t'" "i < 512" "j < 512"
  shows "slot_at t i = slot_at t' j \<longleftrightarrow> t = t' \<and> i = j"
proof
  assume "slot_at t i = slot_at t' j"
  then have eq: "unat t + 8 * i = unat t' + 8 * j"
    using unat_slot_at [OF assms(1,3)] unat_slot_at [OF assms(2,4)] by simp
  have "4096 dvd unat t" "4096 dvd unat t'" using assms(1,2) by (auto simp: frame_address_iff)
  moreover have "(unat t + 8 * i) div 4096 = (unat t' + 8 * j) div 4096" using eq by simp
  ultimately have "unat t div 4096 = unat t' div 4096" using assms(3,4) by (auto elim!: dvdE)
  then have "unat t = unat t'"
    using \<open>4096 dvd unat t\<close> \<open>4096 dvd unat t'\<close> by (metis dvd_div_mult_self)
  then show "t = t' \<and> i = j" using eq by (simp add: word_unat_eq_iff)
qed simp

definition same_tables :: "ram \<Rightarrow> ram \<Rightarrow> paddr_t set \<Rightarrow> bool" where
  "same_tables r r' X \<longleftrightarrow> (\<forall>x\<in>X. \<forall>i<512. entry r' x i = entry r x i)"

lemma same_tablesD: "same_tables r r' X \<Longrightarrow> x \<in> X \<Longrightarrow> i < 512 \<Longrightarrow> entry r' x i = entry r x i"
  by (simp add: same_tables_def)

lemma same_tables_mono: "same_tables r r' X \<Longrightarrow> Y \<subseteq> X \<Longrightarrow> same_tables r r' Y"
  by (auto simp: same_tables_def)

lemma same_tables_refl [simp]: "same_tables r r X"
  by (simp add: same_tables_def)

lemma same_tables_trans:
  "same_tables r r' X \<Longrightarrow> same_tables r' r'' X \<Longrightarrow> same_tables r r'' X"
  by (simp add: same_tables_def)

lemma fun_upd_slot:
  assumes "frame_address t" "k < 512"
  shows "frame_address x \<Longrightarrow> i < 512 \<Longrightarrow>
    (r(slot_at t k := e)) (slot_at x i) = (if x = t \<and> i = k then e else r (slot_at x i))"
  using slot_at_inj [of x t i k] assms by auto

section \<open>Owned tables\<close>

lemma owned_Suc: "k < 512 \<Longrightarrow> owned r (Suc l) t = insert t (others r l t k \<union> below r l (entry r t k))"
  by (auto simp: others_def below_def)

lemma owned_below: "owned r (Suc l) t = insert t (\<Union>i<512. below r l (entry r t i))"
  by (auto simp: below_def)

lemma others_below: "others r l t k = (\<Union>i\<in>{..<512} - {k}. below r l (entry r t i))"
  by (auto simp: others_def below_def)

lemma owned_frame: "tree_wf r l t \<Longrightarrow> x \<in> owned r l t \<Longrightarrow> frame_address x"
  by (induction l arbitrary: t) (auto simp: is_table_def)

lemma tree_wf_root: "tree_wf r l t \<Longrightarrow> t \<in> owned r l t" "tree_wf r l t \<Longrightarrow> frame_address t"
  by (cases l; simp)+

lemma tree_wf_child:
  assumes "tree_wf r (Suc l) t" "i < 512" "is_table (entry r t i) (Suc l)"
  shows "tree_wf r l (pte_address (entry r t i))" "owned r l (pte_address (entry r t i)) \<subseteq> owned r (Suc l) t"
    "t \<notin> owned r l (pte_address (entry r t i))"
    "owned r l (pte_address (entry r t i)) \<inter> others r l t i = {}"
proof -
  show "tree_wf r l (pte_address (entry r t i))" using assms by (auto simp: is_table_def)
  show "owned r l (pte_address (entry r t i)) \<subseteq> owned r (Suc l) t" using assms by auto
  have b: "below r l (entry r t i) = owned r l (pte_address (entry r t i))"
    using assms(3) by (simp add: below_def)
  show "t \<notin> owned r l (pte_address (entry r t i))" using assms(1,2) b by auto
  have "below r l (entry r t i) \<inter> below r l (entry r t j) = {}" if "j < 512" "j \<noteq> i" for j
    using assms(1,2) that by auto
  then show "owned r l (pte_address (entry r t i)) \<inter> others r l t i = {}"
    unfolding others_below b [symmetric] by auto
qed

lemma others_subset: "others r l t k \<subseteq> owned r (Suc l) t"
  by (auto simp: others_def)

lemma tree_wf_others:
  assumes "tree_wf r (Suc l) t" "k < 512"
  shows "t \<notin> others r l t k" "below r l (entry r t k) \<inter> others r l t k = {}"
proof -
  show "t \<notin> others r l t k"
    using assms(1) unfolding others_below by auto
  have "below r l (entry r t k) \<inter> below r l (entry r t j) = {}" if "j < 512" "j \<noteq> k" for j
    using assms that by auto
  then show "below r l (entry r t k) \<inter> others r l t k = {}"
    unfolding others_below by auto
qed

section \<open>A tree depends on its own tables only\<close>

lemma tree_frame:
  "same_tables r r' (owned r l t) \<Longrightarrow>
     owned r' l t = owned r l t \<and> find_leaf r' l t va = find_leaf r l t va \<and>
     (tree_wf r' l t \<longleftrightarrow> tree_wf r l t)"
proof (induction l arbitrary: t)
  case (Suc l)
  have row: "entry r' t i = entry r t i" if "i < 512" for i
    using Suc.prems that by (auto simp: same_tables_def)
  have sub: "same_tables r r' (owned r l (pte_address (entry r t i)))"
    if "i < 512" "is_table (entry r t i) (Suc l)" for i
    using that by (intro same_tables_mono [OF Suc.prems]) auto
  have ow: "owned r' l (pte_address (entry r t i)) = owned r l (pte_address (entry r t i))"
    and fl: "find_leaf r' l (pte_address (entry r t i)) va = find_leaf r l (pte_address (entry r t i)) va"
    and wf: "tree_wf r' l (pte_address (entry r t i)) = tree_wf r l (pte_address (entry r t i))"
    if "i < 512" "is_table (entry r t i) (Suc l)" for i
    using Suc.IH [OF sub [OF that]] by blast+
  have bl: "below r' l (entry r t i) = below r l (entry r t i)" if "i < 512" for i
    using ow [OF that] by (simp add: below_def)
  have "owned r' (Suc l) t = owned r (Suc l) t"
    unfolding owned_below using row bl by auto
  moreover have "find_leaf r' (Suc l) t va = find_leaf r (Suc l) t va"
    using fl [OF pt_index_bound] by (simp add: row Let_def is_table_def)
  moreover have "tree_wf r' (Suc l) t \<longleftrightarrow> tree_wf r (Suc l) t"
  proof -
    have "(present (entry r' t i) \<longrightarrow>
        (if leaf (entry r' t i) (Suc l) then leaf_ok (Suc l) (entry r' t i)
         else tree_wf r' l (pte_address (entry r' t i)))) \<longleftrightarrow>
       (present (entry r t i) \<longrightarrow>
        (if leaf (entry r t i) (Suc l) then leaf_ok (Suc l) (entry r t i)
         else tree_wf r l (pte_address (entry r t i))))" if "i < 512" for i
      using row [OF that] wf [OF that] by (simp add: is_table_def)
    then show ?thesis by (simp add: row bl)
  qed
  ultimately show ?case by blast
qed simp

lemmas tree_frame_owned = tree_frame [THEN conjunct1]
lemmas tree_frame_find = tree_frame [THEN conjunct2, THEN conjunct1]
lemmas tree_frame_wf = tree_frame [THEN conjunct2, THEN conjunct2]

section \<open>Changing one entry\<close>

text \<open>
  The general form: entry \<open>k\<close> of \<open>t\<close> and the tables below it change in any way that leaves
  them well formed and disjoint from the rest of the tree.
\<close>

definition entry_ok :: "ram \<Rightarrow> nat \<Rightarrow> u64 \<Rightarrow> bool" where
  "entry_ok r l e \<longleftrightarrow>
     (present e \<longrightarrow> (if leaf e (Suc l) then leaf_ok (Suc l) e else tree_wf r l (pte_address e)))"

definition entry_find :: "ram \<Rightarrow> nat \<Rightarrow> u64 \<Rightarrow> vaddr_t \<Rightarrow> (nat \<times> u64) option" where
  "entry_find r l e va =
     (if \<not> present e then None else if leaf e (Suc l) then Some (Suc l, e)
      else find_leaf r l (pte_address e) va)"

lemma find_leaf_entry: "find_leaf r (Suc l) t va = entry_find r l (entry r t (pt_index (Suc l) va)) va"
  by (simp add: entry_find_def Let_def)

lemma tree_wf_entries:
  "tree_wf r (Suc l) t \<longleftrightarrow> frame_address t \<and> (\<forall>i<512. entry_ok r l (entry r t i)) \<and>
     (\<forall>i<512. t \<notin> below r l (entry r t i) \<and>
        (\<forall>j<512. i \<noteq> j \<longrightarrow> below r l (entry r t i) \<inter> below r l (entry r t j) = {}))"
  by (auto simp: entry_ok_def)

lemma entry_frame:
  assumes "same_tables r r' (below r l e)"
  shows "below r' l e = below r l e" "entry_ok r' l e \<longleftrightarrow> entry_ok r l e"
    "entry_find r' l e va = entry_find r l e va"
  using tree_frame [of r r' l "pte_address e" va] assms
  by (auto simp: below_def entry_ok_def entry_find_def is_table_def split: if_splits)

definition tree_update :: "ram \<Rightarrow> ram \<Rightarrow> nat \<Rightarrow> paddr_t \<Rightarrow> nat \<Rightarrow> bool" where
  "tree_update r r' l t k \<longleftrightarrow>
     tree_wf r (Suc l) t \<and> k < 512 \<and> (\<forall>i<512. i \<noteq> k \<longrightarrow> entry r' t i = entry r t i) \<and>
     same_tables r r' (others r l t k) \<and>
     entry_ok r' l (entry r' t k) \<and> t \<notin> below r' l (entry r' t k) \<and>
     below r' l (entry r' t k) \<inter> others r l t k = {}"

lemma tree_updateD:
  assumes "tree_update r r' l t k"
  shows "tree_wf r (Suc l) t" "k < 512" "\<And>i. i < 512 \<Longrightarrow> i \<noteq> k \<Longrightarrow> entry r' t i = entry r t i"
    "same_tables r r' (others r l t k)" "entry_ok r' l (entry r' t k)"
    "t \<notin> below r' l (entry r' t k)" "below r' l (entry r' t k) \<inter> others r l t k = {}"
  using assms unfolding tree_update_def by blast+

lemma old_entry:
  assumes up: "tree_update r r' l t k" and i: "i < 512" "i \<noteq> k"
  shows "below r' l (entry r' t i) = below r l (entry r t i)" "entry_ok r' l (entry r' t i)"
    "entry_find r' l (entry r' t i) va = entry_find r l (entry r t i) va"
    "below r l (entry r t i) \<subseteq> others r l t k"
proof -
  show sub: "below r l (entry r t i) \<subseteq> others r l t k" using i by (auto simp: others_below)
  have same: "same_tables r r' (below r l (entry r t i))" by (rule same_tables_mono [OF tree_updateD(4) [OF up] sub])
  have ok: "entry_ok r l (entry r t i)" using tree_updateD(1) [OF up] i(1) unfolding tree_wf_entries by blast
  show "below r' l (entry r' t i) = below r l (entry r t i)"
      "entry_ok r' l (entry r' t i)"
      "entry_find r' l (entry r' t i) va = entry_find r l (entry r t i) va"
    using entry_frame(1,2) [OF same] entry_frame(3) [OF same, of va] ok tree_updateD(3) [OF up i] by simp_all
qed

lemma others_eq: "tree_update r r' l t k \<Longrightarrow> others r' l t k = others r l t k"
  unfolding others_below using old_entry(1) by simp

lemma updated_owned:
  "tree_update r r' l t k \<Longrightarrow> owned r' (Suc l) t = insert t (others r l t k \<union> below r' l (entry r' t k))"
  using owned_Suc [of k r' l t] others_eq tree_updateD(2) by auto

lemma updated_wf:
  assumes up: "tree_update r r' l t k"
  shows "tree_wf r' (Suc l) t"
  unfolding tree_wf_entries
proof (intro conjI allI impI)
  show "frame_address t" using tree_updateD(1) [OF up] by simp
next
  fix i :: nat assume "i < 512"
  then show "entry_ok r' l (entry r' t i)" using tree_updateD(5) [OF up] old_entry(2) [OF up] by (cases "i = k") auto
next
  fix i :: nat assume i: "i < 512"
  show "t \<notin> below r' l (entry r' t i)"
  proof (cases "i = k")
    case False
    then show ?thesis using old_entry(1) [OF up i False] tree_updateD(1) [OF up] i unfolding tree_wf_entries by auto
  qed (use tree_updateD(6) [OF up] in simp)
next
  fix i j :: nat assume i: "i < 512" and j: "j < 512" and ne: "i \<noteq> j"
  consider "i = k" | "j = k" | "i \<noteq> k" "j \<noteq> k" by blast
  then show "below r' l (entry r' t i) \<inter> below r' l (entry r' t j) = {}"
  proof cases
    case 1
    then show ?thesis using tree_updateD(7) [OF up] old_entry(1,4) [OF up j] ne by auto
  next
    case 2
    then show ?thesis using tree_updateD(7) [OF up] old_entry(1,4) [OF up i] ne by auto
  next
    case 3
    then show ?thesis using old_entry(1) [OF up] i j ne tree_updateD(1) [OF up] unfolding tree_wf_entries by auto
  qed
qed

lemma updated_find:
  "tree_update r r' l t k \<Longrightarrow> find_leaf r' (Suc l) t va =
     (if pt_index (Suc l) va = k then entry_find r' l (entry r' t k) va else find_leaf r (Suc l) t va)"
  using old_entry(3) [OF _ pt_index_bound] unfolding find_leaf_entry by simp

text \<open>
  An entry at any level is overwritten with a leaf or cleared: the tables below it leave the
  tree, the addresses of its page reach the new entry and no other address is affected.
\<close>

definition same_page :: "nat \<Rightarrow> nat \<Rightarrow> vaddr_t \<Rightarrow> vaddr_t \<Rightarrow> bool" where
  "same_page target upper va va' \<longleftrightarrow> (\<forall>level\<in>{target..upper}. pt_index level va' = pt_index level va)"

lemma same_page_Suc:
  "same_page target (Suc l) va va' \<longleftrightarrow>
     (target \<le> Suc l \<longrightarrow> pt_index (Suc l) va' = pt_index (Suc l) va) \<and> same_page target l va va'"
  by (auto simp: same_page_def le_Suc_eq)

lemma same_page_self [simp]: "same_page (Suc l) (Suc l) va va' \<longleftrightarrow> pt_index (Suc l) va' = pt_index (Suc l) va"
  by (simp add: same_page_def)

lemma path_table_level: "path_table r l t va target = Some T \<Longrightarrow> 1 \<le> target \<and> target \<le> l"
proof (induction l arbitrary: t)
  case (Suc l)
  then show ?case
    by (cases "Suc l = target") (auto simp: Let_def le_Suc_eq split: if_splits)
qed simp

lemma path_table_owned: "path_table r l t va target = Some T \<Longrightarrow> T \<in> owned r l t"
proof (induction l arbitrary: t)
  case (Suc l)
  note step = Suc.prems [unfolded path_table.simps Let_def]
  show ?case
  proof (cases "Suc l = target")
    case True
    then have "t = T" using step by simp
    then show ?thesis by simp
  next
    case False
    then have "is_table (entry r t (pt_index (Suc l) va)) (Suc l)"
        "path_table r l (pte_address (entry r t (pt_index (Suc l) va))) va target = Some T"
      using step by (auto split: if_splits)
    then have "T \<in> below r l (entry r t (pt_index (Suc l) va))"
      using Suc.IH by (simp add: below_def)
    then show ?thesis unfolding owned_below using pt_index_bound by blast
  qed
qed simp

lemma path_table_below:
  "path_table r l t va (Suc n) = Some T \<Longrightarrow> below r n (entry r T (pt_index (Suc n) va)) \<subseteq> owned r l t"
proof (induction l arbitrary: t)
  case (Suc l)
  note step = Suc.prems [unfolded path_table.simps Let_def]
  show ?case
  proof (cases "l = n")
    case True
    then have "T = t" using step by simp
    then show ?thesis unfolding owned_below True using pt_index_bound by blast
  next
    case False
    then have "is_table (entry r t (pt_index (Suc l) va)) (Suc l)"
        "path_table r l (pte_address (entry r t (pt_index (Suc l) va))) va (Suc n) = Some T"
      using step by (auto split: if_splits)
    then have "below r n (entry r T (pt_index (Suc n) va)) \<subseteq> below r l (entry r t (pt_index (Suc l) va))"
      using Suc.IH by (simp add: below_def [of r l])
    then show ?thesis unfolding owned_below using pt_index_bound by blast
  qed
qed simp

lemma path_table_find:
  assumes "path_table r l t va target = Some T" "target = Suc n" "same_page target l va va'"
  shows "find_leaf r l t va' = entry_find r n (entry r T (pt_index target va)) va'"
  using assms
proof (induction l arbitrary: t)
  case (Suc l)
  note step = Suc.prems(1) [unfolded path_table.simps Let_def]
  show ?case
  proof (cases "Suc l = target")
    case True
    then show ?thesis using step Suc.prems(2,3) unfolding find_leaf_entry by simp
  next
    case False
    then have p: "path_table r l (pte_address (entry r t (pt_index (Suc l) va))) va target = Some T"
        "is_table (entry r t (pt_index (Suc l) va)) (Suc l)"
      using step by (auto split: if_splits)
    then have "target \<le> l" using path_table_level [OF p(1)] by simp
    then have "pt_index (Suc l) va' = pt_index (Suc l) va" "same_page target l va va'"
      using Suc.prems(3) by (auto simp: same_page_Suc)
    then show ?thesis using p Suc.IH [OF p(1) Suc.prems(2)] by (simp add: is_table_def Let_def)
  qed
qed simp

lemma path_table_above: "l < j \<Longrightarrow> path_table r l t va j = None"
  using path_table_level [of r l t va j] by (cases "path_table r l t va j") auto

lemma set_entry:
  assumes "tree_wf r l t" "path_table r l t va (Suc n) = Some T"
    "\<not> is_table e (Suc n)" "present e \<Longrightarrow> leaf_ok (Suc n) e"
    and r': "r' = r(slot_at T (pt_index (Suc n) va) := e)"
  shows "tree_wf r' l t \<and>
    owned r' l t = owned r l t - below r n (entry r T (pt_index (Suc n) va)) \<and>
    (\<forall>j>n. path_table r' l t va j = path_table r l t va j) \<and>
    (\<forall>va'. find_leaf r' l t va' =
       (if same_page (Suc n) l va va' then (if present e then Some (Suc n, e) else None)
        else find_leaf r l t va'))"
  using assms(1,2)
proof (induction l arbitrary: t)
  case (Suc l)
  let ?k = "pt_index (Suc l) va" and ?T = "pt_index (Suc n) va"
  note step = Suc.prems(2) [unfolded path_table.simps Let_def]
  have T: "frame_address T" using owned_frame [OF Suc.prems(1) path_table_owned [OF Suc.prems(2)]] .
  have upd: "entry r' x i = (if x = T \<and> i = ?T then e else entry r x i)"
    if "frame_address x" "i < 512" for x i
    unfolding r' using fun_upd_slot [OF T pt_index_bound that] .
  have t: "frame_address t" using Suc.prems(1) by simp
  have fr: "\<And>x. x \<in> others r l t ?k \<Longrightarrow> frame_address x"
    using owned_frame [OF Suc.prems(1)] others_subset by blast
  have oth: "t \<notin> others r l t ?k" "below r l (entry r t ?k) \<inter> others r l t ?k = {}"
    using tree_wf_others [OF Suc.prems(1) pt_index_bound] by blast+
  have tb: "t \<notin> below r l (entry r t ?k)" using Suc.prems(1) pt_index_bound unfolding tree_wf_entries by blast
  have own: "owned r (Suc l) t = insert t (others r l t ?k \<union> below r l (entry r t ?k))"
    by (rule owned_Suc [OF pt_index_bound])
  show ?case
  proof (cases "Suc l = Suc n")
    case True
    then have eq: "t = T" "l = n" using step by auto
    have e: "entry r' t ?k = e" using upd [OF t, of ?k] eq by simp
    have none: "below r' l e = {}" using assms(3) eq by (auto simp: below_def)
    have up: "tree_update r r' l t ?k"
      unfolding tree_update_def
    proof (intro conjI allI impI)
      show "same_tables r r' (others r l t ?k)"
        unfolding same_tables_def using upd fr oth(1) eq by auto
      show "entry_ok r' l (entry r' t ?k)"
        unfolding e entry_ok_def using assms(3,4) eq(2) by (auto simp: is_table_def)
    qed (use Suc.prems(1) upd [OF t] eq e none in auto)
    have "owned r' (Suc l) t = owned r (Suc l) t - below r n (entry r T ?T)"
      unfolding updated_owned [OF up] own e none using oth tb eq by blast
    moreover have "path_table r' (Suc l) t va j = path_table r (Suc l) t va j" if "n < j" for j
      using that eq path_table_above [of l j] by (simp add: Let_def)
    moreover have "find_leaf r' (Suc l) t va' = (if same_page (Suc n) (Suc l) va va'
        then (if present e then Some (Suc n, e) else None) else find_leaf r (Suc l) t va')" for va'
      unfolding updated_find [OF up] e entry_find_def using eq assms(3)
      by (simp add: is_table_def del: find_leaf.simps)
    ultimately show ?thesis using updated_wf [OF up] by blast
  next
    case False
    let ?c = "pte_address (entry r t ?k)" and ?B = "below r n (entry r T ?T)"
    have p: "path_table r l ?c va (Suc n) = Some T" and tab: "is_table (entry r t ?k) (Suc l)"
      using step False by (auto split: if_splits)
    note child = tree_wf_child [OF Suc.prems(1) pt_index_bound tab]
    have IH: "tree_wf r' l ?c" "owned r' l ?c = owned r l ?c - ?B"
        "\<And>j. n < j \<Longrightarrow> path_table r' l ?c va j = path_table r l ?c va j"
        "\<And>va'. find_leaf r' l ?c va' =
           (if same_page (Suc n) l va va' then (if present e then Some (Suc n, e) else None)
            else find_leaf r l ?c va')"
      using Suc.IH [OF child(1) p] by auto
    have Tc: "T \<in> owned r l ?c" by (rule path_table_owned [OF p])
    have keep: "entry r' t i = entry r t i" if "i < 512" for i
      using upd [OF t that] Tc child(3) by auto
    have b: "below r' l (entry r t ?k) = owned r l ?c - ?B" "below r l (entry r t ?k) = owned r l ?c"
      using tab IH(2) by (simp_all add: below_def)
    have up: "tree_update r r' l t ?k"
      unfolding tree_update_def
    proof (intro conjI allI impI)
      show "same_tables r r' (others r l t ?k)"
        unfolding same_tables_def using upd fr Tc child(4) by auto
      show "entry_ok r' l (entry r' t ?k)"
        using IH(1) tab by (simp add: keep entry_ok_def is_table_def)
    qed (use Suc.prems(1) keep b child in auto)
    have "Suc n \<le> l" using path_table_level [OF p] by simp
    then have sp: "same_page (Suc n) (Suc l) va va' \<longleftrightarrow>
        pt_index (Suc l) va' = ?k \<and> same_page (Suc n) l va va'" for va'
      by (auto simp: same_page_Suc)
    have B: "?B \<subseteq> owned r l ?c" by (rule path_table_below [OF p])
    show ?thesis
    proof (intro conjI allI impI)
      show "tree_wf r' (Suc l) t" by (rule updated_wf [OF up])
      show "owned r' (Suc l) t = owned r (Suc l) t - ?B"
        unfolding updated_owned [OF up] own keep [OF pt_index_bound] b using B child(3,4) by blast
      show "path_table r' (Suc l) t va j = path_table r (Suc l) t va j" if "n < j" for j
        using IH(3) [OF that] keep by (simp add: Let_def)
      show "find_leaf r' (Suc l) t va' = (if same_page (Suc n) (Suc l) va va'
          then (if present e then Some (Suc n, e) else None) else find_leaf r (Suc l) t va')" for va'
        using updated_find [OF up, of va'] IH(4) [of va'] keep tab
        by (auto simp: sp entry_find_def is_table_def Let_def)
    qed
  qed
qed simp

section \<open>Pages of virtual addresses\<close>

lemma unat_power_less: "s < LENGTH('a) \<Longrightarrow> unat (2 ^ s :: 'a::len word) = 2 ^ s"
  using unat_of_nat_small [of "2 ^ s", where 'a='a] by simp

lemma word_eq_bits: "(v :: 'a::len word) = w \<longleftrightarrow> (\<forall>n. bit v n \<longleftrightarrow> bit w n)"
  by (auto intro: bit_word_eqI)

lemma pt_index_nat: "pt_index level va = unat va div 2 ^ (3 + 9 * level) mod 512"
proof -
  have "pt_index level va = unat (take_bit 9 (drop_bit (3 + 9 * level) va))"
    by (simp add: pt_index_def take_bit_eq_mask mask_eq_exp_minus_1)
  then show ?thesis by (simp only: unsigned_take_bit_eq unat_drop_bit_eq) (simp add: take_bit_eq_mod drop_bit_eq_div)
qed

lemma bit_shift_mask:
  "bit (drop_bit s va AND (mask 9 :: u64)) n \<longleftrightarrow> n < 9 \<and> bit va (s + n)"
  by (auto simp: bit_simps dest: bit_imp_le_length)

lemma pt_index_eq_iff:
  "pt_index level va' = pt_index level va \<longleftrightarrow>
     (\<forall>n<9. bit va' (3 + 9 * level + n) \<longleftrightarrow> bit va (3 + 9 * level + n))"
proof -
  have m: "(0x1FF :: u64) = mask 9" by (simp add: mask_eq_exp_minus_1)
  have "pt_index level va' = pt_index level va \<longleftrightarrow>
      drop_bit (3 + 9 * level) va' AND mask 9 = drop_bit (3 + 9 * level) va AND mask 9"
    unfolding pt_index_def m by (simp only: word_unat_eq_iff)
  also have "\<dots> \<longleftrightarrow> (\<forall>n. bit (drop_bit (3 + 9 * level) va' AND mask 9) n \<longleftrightarrow>
      bit (drop_bit (3 + 9 * level) va AND mask 9) n)"
    by (rule word_eq_bits)
  finally show ?thesis unfolding bit_shift_mask by auto
qed

lemma valid_bits:
  assumes "valid va" "47 \<le> n" "n < 64"
  shows "bit va n \<longleftrightarrow> bit va 47"
proof -
  have m: "(0x1FFFF :: u64) = mask 17" by (simp add: mask_eq_exp_minus_1)
  have "bit va n \<longleftrightarrow> bit (drop_bit 47 va) (n - 47)" "bit va 47 \<longleftrightarrow> bit (drop_bit 47 va) 0"
    using assms by (simp_all add: bit_drop_bit_eq)
  moreover have "drop_bit 47 va = 0 \<or> drop_bit 47 va = mask 17"
    using assms(1) unfolding valid_def m .
  ultimately show ?thesis using assms(2,3) by (auto simp: bit_mask_iff)
qed

lemma same_page_iff:
  assumes "valid va" "valid va'" "target \<le> 4"
  shows "same_page target 4 va va' \<longleftrightarrow> drop_bit (3 + 9 * target) va' = drop_bit (3 + 9 * target) va"
proof -
  let ?s = "3 + 9 * target"
  have "drop_bit ?s va' = drop_bit ?s va \<longleftrightarrow> (\<forall>n\<ge>?s. bit va' n \<longleftrightarrow> bit va n)"
    unfolding word_eq_bits bit_drop_bit_eq o_def by (metis le_add1 le_add_diff_inverse)
  also have "\<dots> \<longleftrightarrow> same_page target 4 va va'"
  proof
    assume "\<forall>n\<ge>?s. bit va' n \<longleftrightarrow> bit va n"
    then show "same_page target 4 va va'" by (auto simp: same_page_def pt_index_eq_iff)
  next
    assume sp: "same_page target 4 va va'"
    have low: "bit va' n \<longleftrightarrow> bit va n" if "?s \<le> n" "n < 48" for n
    proof -
      let ?level = "(n - 3) div 9"
      have "?level \<in> {target..4}" "n = 3 + 9 * ?level + (n - 3) mod 9" using that by auto
      then show ?thesis using sp unfolding same_page_def pt_index_eq_iff
        by (metis mod_less_divisor zero_less_numeral)
    qed
    show "\<forall>n\<ge>?s. bit va' n \<longleftrightarrow> bit va n"
    proof (intro allI impI)
      fix n assume n: "?s \<le> n"
      consider "n < 48" | "48 \<le> n" "n < 64" | "64 \<le> n" by linarith
      then show "bit va' n \<longleftrightarrow> bit va n"
      proof cases
        case 2
        then show ?thesis
          using valid_bits [OF assms(1), of n] valid_bits [OF assms(2), of n] low [of 47] assms(3) by simp
      next
        case 3
        then show ?thesis by (auto dest: bit_imp_le_length)
      qed (use low n in blast)
    qed
  qed
  finally show ?thesis by blast
qed

lemma in_page_iff:
  fixes va :: vaddr_t
  assumes "take_bit s va = 0" "s < 64"
  shows "drop_bit s va' = drop_bit s va \<longleftrightarrow> va' - va < 2 ^ s"
    and "va' - va < 2 ^ s \<Longrightarrow> take_bit s va' = va' - va"
proof -
  have va: "push_bit s (drop_bit s va) = va"
    using bits_ident [of s va] assms(1) by simp
  have A: "take_bit s va' = va' - va" "va' - va < 2 ^ s" if "drop_bit s va' = drop_bit s va"
  proof -
    have "va + take_bit s va' = va'" using bits_ident [of s va'] that va by simp
    then show *: "take_bit s va' = va' - va" by (metis add_diff_cancel_left')
    have "take_bit s va' < 2 ^ s" 
      unfolding take_bit_eq_mask using assms(2) by (intro and_mask_less_size) (simp add: word_size)
    then show "va' - va < 2 ^ s" by (simp add: *)
  qed
  have B: "drop_bit s va' = drop_bit s va" if "va' - va < 2 ^ s"
  proof -
    have d: "drop_bit s (va' - va) = 0"
    proof -
      have "unat (va' - va) < 2 ^ s" using that assms(2) by (simp add: word_less_nat_alt unat_power_less)
      then have "unat (drop_bit s (va' - va)) = 0"
        by (simp only: unat_drop_bit_eq) (simp add: drop_bit_eq_div)
      then show ?thesis by (simp only: unat_eq_0)
    qed
    have "va AND (va' - va) = 0"
    proof (rule bit_word_eqI)
      fix n assume "n < LENGTH(64)"
      have "\<not> bit va n" if "n < s"
        using assms(1) that by (metis bit_0_eq bit_take_bit_iff bot_apply bot_bool_def)
      moreover have "\<not> bit (va' - va) n" if "s \<le> n"
        using d that drop_bit_eq_0_iff [of s "va' - va"] by (auto simp: not_le [symmetric])
      ultimately show "bit (va AND (va' - va)) n \<longleftrightarrow> bit 0 n"
        by (cases "n < s") (auto simp: bit_and_iff)
    qed
    then have "va' = va OR (va' - va)" using disjunctive_add_eq_or [of va "va' - va"] by simp
    then have "drop_bit s va' = drop_bit s va OR drop_bit s (va' - va)" by (metis drop_bit_or)
    then show ?thesis by (simp add: d)
  qed
  show "drop_bit s va' = drop_bit s va \<longleftrightarrow> va' - va < 2 ^ s" using A(2) B by blast
  show "va' - va < 2 ^ s \<Longrightarrow> take_bit s va' = va' - va" using A(1) B by blast
qed

lemma valid_in_page:
  fixes va :: vaddr_t
  assumes "drop_bit s va' = drop_bit s va" "s \<le> 47"
  shows "valid va' \<longleftrightarrow> valid va"
proof -
  have *: "drop_bit 47 v = drop_bit (47 - s) (drop_bit s v)" for v :: vaddr_t
    using assms(2) by (simp add: drop_bit_drop_bit)
  show ?thesis unfolding valid_def * [of va'] * [of va] assms(1) by simp
qed

section \<open>Filling a table\<close>

lemma write_slots_upto:
  assumes "frame_address t" "n \<le> 512" "frame_address x" "i < 512"
  shows "fold (\<lambda>i r. r(slot_at t i := es ! i)) [0..<n] r (slot_at x i) =
    (if x = t \<and> i < n then es ! i else entry r x i)"
  using assms(2)
proof (induction n)
  case (Suc n)
  then show ?case using fun_upd_slot [OF assms(1) _ assms(3,4), of n] by (auto simp: less_Suc_eq)
qed simp

lemma entry_write_slots:
  assumes "frame_address t" "length es = 512" "frame_address x" "i < 512"
  shows "entry (write_slots t es r) x i = (if x = t then es ! i else entry r x i)"
  unfolding write_slots_def using write_slots_upto [OF assms(1) _ assms(3,4), of 512] assms(2,4) by simp

lemma empty_table:
  assumes "frame_address t" "\<And>i. i < 512 \<Longrightarrow> entry r t i = 0"
  shows "tree_wf r (Suc l) t" "owned r (Suc l) t = {t}" "find_leaf r (Suc l) t va = None"
proof -
  have np: "\<not> present (entry r t i)" if "i < 512" for i
    using assms(2) [OF that] by (simp add: present_def)
  then have "\<not> is_table (entry r t i) (Suc l)" if "i < 512" for i
    using that by (simp add: is_table_def)
  then show "tree_wf r (Suc l) t" "owned r (Suc l) t = {t}"
    using assms(1) np by (auto simp: below_def)
  show "find_leaf r (Suc l) t va = None" using np by (simp add: Let_def)
qed

text \<open>Splitting: the 512 new leaves translate every address as the large leaf did.\<close>

lemma bytes_at_pow: "level \<in> {1, 2, 3} \<Longrightarrow> unat (bytes_in (size_at level)) = 2 ^ (3 + 9 * level)"
  by (auto simp: bytes_at [unfolded One_nat_def [symmetric]] bytes_at)

lemma leaf_target_unat:
  assumes "leaf_ok level e"
  shows "unat (fst (leaf_target va (level, e))) =
    unat (pte_address e) + unat va mod unat (bytes_in (size_at level))"
    (is "_ = ?a + _ mod ?b")
proof -
  have lv: "level \<in> {1, 2, 3}" using assms by (simp add: leaf_ok_def)
  let ?s = "3 + 9 * level"
  have b: "?b = 2 ^ ?s" by (rule bytes_at_pow [OF lv])
  have "bytes_in (size_at level) = 2 ^ ?s"
    unfolding word_unat_eq_iff b using lv by (subst unat_power_less) auto
  then have m: "bytes_in (size_at level) - 1 = mask ?s" by (simp add: word_pow2_minus_1)
  have off: "unat (va AND (bytes_in (size_at level) - 1)) = unat va mod ?b"
    unfolding m b take_bit_eq_mask [symmetric] unsigned_take_bit_eq by (simp add: take_bit_eq_mod)
  have "?a < 2 ^ 52" using pte_address_frame [of e] unfolding frame_address_iff by blast
  moreover have "unat va mod ?b < 2 ^ 30"
  proof -
    have "unat va mod ?b < ?b" by (simp add: b)
    also have "?b \<le> 2 ^ 30" unfolding b using lv by (intro power_increasing) auto
    finally show ?thesis .
  qed
  ultimately have "?a + unat va mod ?b < 2 ^ LENGTH(64)" by simp
  then show ?thesis unfolding leaf_target_def off [symmetric] prod.case fst_conv
    by (rule unat_plus_small)
qed

lemma split_target:
  fixes va :: vaddr_t
  assumes "leaf_ok (Suc l) e" "l \<in> {1, 2}" "present e"
  defines "f \<equiv> split_entry e (Suc l) (pt_index l va)"
  shows "leaf_ok l f" "leaf_target va (l, f) = leaf_target va (Suc l, e)"
proof -
  have al: "Suc l = 2 \<or> Suc l = 3" "unat (bytes_in (size_at (Suc l))) dvd unat (pte_address e)"
    using assms(1,2) by (auto simp: leaf_ok_def)
  note spec = split_entry_spec [OF al pt_index_bound [of l va] assms(3), folded f_def, unfolded diff_Suc_1]
  have b: "unat (bytes_in (size_at l)) = 2 ^ (3 + 9 * l)"
      "unat (bytes_in (size_at (Suc l))) = 2 ^ (3 + 9 * l) * 512"
    using bytes_at_pow [of l] bytes_at_pow [of "Suc l"] assms(2) by (auto simp: power_add)
  have "2 ^ (3 + 9 * l) dvd unat (pte_address e)"
    using al(2) unfolding b by (rule dvd_mult_left)
  then show ok: "leaf_ok l f" using assms(2) by (auto simp: leaf_ok_def spec(4) b)
  have "unat (fst (leaf_target va (l, f))) = unat (fst (leaf_target va (Suc l, e)))"
    unfolding leaf_target_unat [OF ok] leaf_target_unat [OF assms(1)] spec(4) b
    by (simp add: mod_mult2_eq pt_index_nat)
  then show "leaf_target va (l, f) = leaf_target va (Suc l, e)"
    by (simp add: word_unat_eq_iff prod_eq_iff) (simp add: leaf_target_def spec(3))
qed

lemma split_table:
  assumes "frame_address t" "leaf_ok (Suc l) e" "l \<in> {1, 2}" "present e"
    "\<And>i. i < 512 \<Longrightarrow> entry r t i = split (e) (Suc l) ! i"
  shows "tree_wf r l t" "owned r l t = {t}" "xlate r l t va = Some (leaf_target va (Suc l, e))"
proof -
  have al: "Suc l = 2 \<or> Suc l = 3" "unat (bytes_in (size_at (Suc l))) dvd unat (pte_address e)"
    using assms(2,3) by (auto simp: leaf_ok_def)
  have ent: "entry r t i = split_entry e (Suc l) i" if "i < 512" for i
    using assms(5) [OF that] that by (simp add: split_def ENTRIES_def)
  have kind: "present (entry r t i)" "leaf (entry r t i) l" if "i < 512" for i
    using split_entry_spec(1,2) [OF al that assms(4)] ent [OF that] by simp_all
  have ok: "leaf_ok l (entry r t i)" if "i < 512" for i
  proof -
    have "unat (bytes_in (size_at l)) dvd unat (bytes_in (size_at (Suc l)))"
      using bytes_at_pow [of l] bytes_at_pow [of "Suc l"] assms(3) by (auto simp: le_imp_power_dvd)
    then show ?thesis
      using split_entry_spec(4) [OF al that assms(4)] al(2) assms(3)
      by (auto simp: ent [OF that] leaf_ok_def intro!: dvd_add dvd_trans [OF _ al(2)])
  qed
  obtain l' where l': "l = Suc l'" using assms(3) by (cases l) auto
  have nt: "\<not> is_table (entry r t i) l" if "i < 512" for i
    using kind [OF that] by (simp add: is_table_def)
  show "owned r l t = {t}" using nt by (auto simp: l')
  show "tree_wf r l t" using assms(1) kind ok nt by (auto simp: l' below_def)
  have "find_leaf r l t va = Some (l, entry r t (pt_index l va))"
    using kind [OF pt_index_bound] by (simp add: l' Let_def)
  then show "xlate r l t va = Some (leaf_target va (Suc l, e))"
    using split_target(2) [OF assms(2,3,4), of va] ent [OF pt_index_bound] by (simp add: xlate_def)
qed

end
