(* ===== verification/Radix_Correct.thy ===== *)
theory Radix_Correct
  imports Page_Tree Pmm_Service
begin

text \<open>
  The operations of \<^verbatim>\<open>radix_tree.hpp\<close> implement an address space, a partial function from
  virtual addresses to physical addresses and protections. The invariant ties the three
  components together: the tree is well formed, the frame allocator is consistent, and no
  table of the tree is free. A walk that allocates keeps every translation, whether it adds
  an empty table or splits a large page, and takes its tables from the free frames only.
\<close>

section \<open>The invariant\<close>

definition free_tables :: "machine \<Rightarrow> paddr_t set" where
  "free_tables m = {x. frame_address x \<and> unat x div 4096 \<in> free_frames (m_pmm m)}"

definition sub_inv :: "machine \<Rightarrow> nat \<Rightarrow> paddr_t \<Rightarrow> bool" where
  "sub_inv m level t \<longleftrightarrow>
     tree_wf (mem m) level t \<and> pmm_inv (m_pmm m) \<and> owned (mem m) level t \<inter> free_tables m = {}"

definition same_config :: "machine \<Rightarrow> machine \<Rightarrow> bool" where
  "same_config m m' \<longleftrightarrow>
     feats m' = feats m \<and> image_first m' = image_first m \<and> image_end m' = image_end m"

text \<open>
  The effect of growing a tree: translations are kept, the tables it gains are the frames
  the allocator loses, and no other table of memory changes.
\<close>

definition tree_step :: "machine \<Rightarrow> machine \<Rightarrow> nat \<Rightarrow> paddr_t \<Rightarrow> bool" where
  "tree_step m m' level t \<longleftrightarrow>
     sub_inv m' level t \<and> free_tables m' \<subseteq> free_tables m \<and>
     owned (mem m) level t \<subseteq> owned (mem m') level t \<and>
     owned (mem m') level t \<union> free_tables m' = owned (mem m) level t \<union> free_tables m \<and>
     same_tables (mem m) (mem m') {x. frame_address x \<and> x \<notin> owned (mem m) level t \<and> x \<notin> free_tables m} \<and>
     same_config m m' \<and>
     (\<forall>va. xlate (mem m') level t va = xlate (mem m) level t va) \<and>
     (\<forall>va e. find_leaf (mem m) level t va = Some (1, e) \<longrightarrow> find_leaf (mem m') level t va = Some (1, e)) \<and>
     (\<forall>va lv e. find_leaf (mem m) level t va = Some (lv, e) \<longrightarrow>
        (\<exists>lv'\<le>lv. \<exists>e'. find_leaf (mem m') level t va = Some (lv', e')))"

lemma sub_invD:
  assumes "sub_inv m level t"
  shows "tree_wf (mem m) level t" "pmm_inv (m_pmm m)" "owned (mem m) level t \<inter> free_tables m = {}"
  using assms by (simp_all add: sub_inv_def)

lemma tree_stepD:
  assumes "tree_step m m' level t"
  shows "sub_inv m' level t" "free_tables m' \<subseteq> free_tables m"
    "owned (mem m) level t \<subseteq> owned (mem m') level t"
    "owned (mem m') level t \<union> free_tables m' = owned (mem m) level t \<union> free_tables m"
    "same_tables (mem m) (mem m') {x. frame_address x \<and> x \<notin> owned (mem m) level t \<and> x \<notin> free_tables m}"
    "same_config m m'" "xlate (mem m') level t va = xlate (mem m) level t va"
    "find_leaf (mem m) level t va = Some (1, e) \<Longrightarrow> find_leaf (mem m') level t va = Some (1, e)"
    "find_leaf (mem m) level t va = Some (lv, e) \<Longrightarrow> \<exists>lv'\<le>lv. \<exists>e'. find_leaf (mem m') level t va = Some (lv', e')"
  using assms unfolding tree_step_def by blast+

lemma tree_step_refl: "sub_inv m level t \<Longrightarrow> tree_step m m level t"
  by (auto simp: tree_step_def same_config_def)

lemma alloc_frame:
  assumes "pmm_inv (m_pmm m)"
  shows "pmm_alloc SIZE_4K (m_pmm m) = Return (Err OUT_OF_MEMORY, m_pmm m) \<or>
    (\<exists>c p. pmm_alloc SIZE_4K (m_pmm m) = Return (Ok c, p) \<and>
       pmm_inv p \<and> c \<in> free_tables m \<and> free_tables (m\<lparr>m_pmm := p\<rparr>) = free_tables m - {c})"
proof (cases "\<exists>f. free_run (m_pmm m) (frames_in SIZE_4K) f")
  case True
  then obtain f p where p: "pmm_alloc SIZE_4K (m_pmm m) = Return (Ok (address_of f), p)"
    using pmm_alloc_spec [OF assms, of SIZE_4K] unfolding if_P [OF True] by blast
  let ?c = "address_of f"
  have ok: "pmm_inv p" "valid_release SIZE_4K ?c" "pmm_run SIZE_4K ?c \<subseteq> free_frames (m_pmm m)"
      "free_frames p = free_frames (m_pmm m) - pmm_run SIZE_4K ?c"
    using pmm_alloc_Ok [OF assms _ p] by auto
  have run: "pmm_run SIZE_4K ?c = {unat ?c div 4096}" by (auto simp: pmm_run_def layout)
  have c: "4096 dvd unat ?c" "unat ?c div 4096 + 1 \<le> 4194304"
    using ok(2) by (simp_all add: valid_release_def layout)
  then have fr: "frame_address ?c" by (auto simp: frame_address_iff elim!: dvdE)
  have "free_tables (m\<lparr>m_pmm := p\<rparr>) = free_tables m - {?c}"
  proof -
    have "unat x div 4096 = unat ?c div 4096 \<longleftrightarrow> x = ?c" if "frame_address x" for x
      using that fr by (auto simp: frame_address_iff word_unat_eq_iff elim!: dvdE)
    then show ?thesis using ok(4) run by (auto simp: free_tables_def)
  qed
  moreover have "?c \<in> free_tables m" using ok(3) run fr by (simp add: free_tables_def)
  ultimately show ?thesis using ok(1) p by blast
next
  case False
  then show ?thesis
    using pmm_alloc_spec [OF assms, of SIZE_4K] unfolding if_not_P [OF False] by simp
qed

lemma alloc_table_spec:
  assumes "pmm_inv (m_pmm m)"
  shows "alloc_table m = Return (Err OUT_OF_MEMORY, m) \<or>
    (\<exists>c p. alloc_table m = Return (Ok c, m\<lparr>m_pmm := p, mem := write_slots c (replicate ENTRIES 0) (mem m)\<rparr>) \<and>
       pmm_inv p \<and> c \<in> free_tables m \<and> free_tables (m\<lparr>m_pmm := p\<rparr>) = free_tables m - {c})"
  using alloc_frame [OF assms] by (auto simp: alloc_table_def)

section \<open>Growing a subtree grows the tree\<close>

text \<open>
  \<open>m1\<close> is the machine once entry \<open>k\<close> of \<open>t\<close> is a table that translates as the old entry did;
  \<open>m2\<close> is the machine after the walk went on below that table.
\<close>

definition entry_step :: "machine \<Rightarrow> machine \<Rightarrow> nat \<Rightarrow> paddr_t \<Rightarrow> nat \<Rightarrow> bool" where
  "entry_step m m1 l t k \<longleftrightarrow>
     (let e = entry (mem m) t k; e1 = entry (mem m1) t k; c = pte_address e1
      in is_table e1 (Suc l) \<and> sub_inv m1 l c \<and>
         same_tables (mem m) (mem m1) {x. frame_address x \<and> x \<noteq> t \<and> x \<notin> free_tables m} \<and>
         (\<forall>i<512. i \<noteq> k \<longrightarrow> entry (mem m1) t i = entry (mem m) t i) \<and>
         free_tables m1 \<subseteq> free_tables m \<and> below (mem m) l e \<subseteq> owned (mem m1) l c \<and>
         owned (mem m1) l c \<union> free_tables m1 = below (mem m) l e \<union> free_tables m \<and>
         same_config m m1 \<and>
         (\<forall>va. xlate (mem m1) l c va = map_option (leaf_target va) (entry_find (mem m) l e va)) \<and>
         (\<forall>va x. entry_find (mem m) l e va = Some (1, x) \<longrightarrow> find_leaf (mem m1) l c va = Some (1, x)) \<and>
         (\<forall>va lv x. entry_find (mem m) l e va = Some (lv, x) \<longrightarrow>
            (\<exists>lv'\<le>lv. \<exists>x'. find_leaf (mem m1) l c va = Some (lv', x'))))"

lemma child_step:
  assumes inv: "sub_inv m (Suc l) t" and k: "k < 512" and es: "entry_step m m1 l t k"
    and c: "c = pte_address (entry (mem m1) t k)" and step: "tree_step m1 m2 l c"
  shows "tree_step m m2 (Suc l) t \<and> entry (mem m2) t k = entry (mem m1) t k"
proof -
  let ?e = "entry (mem m) t k" and ?e1 = "entry (mem m1) t k" and ?e2 = "entry (mem m2) t k"
  note wf = sub_invD(1) [OF inv] and free = sub_invD(3) [OF inv]
  have E: "is_table ?e1 (Suc l)"
      "same_tables (mem m) (mem m1) {x. frame_address x \<and> x \<noteq> t \<and> x \<notin> free_tables m}"
      "\<And>i. i < 512 \<Longrightarrow> i \<noteq> k \<Longrightarrow> entry (mem m1) t i = entry (mem m) t i"
      "free_tables m1 \<subseteq> free_tables m" "below (mem m) l ?e \<subseteq> owned (mem m1) l c"
      "owned (mem m1) l c \<union> free_tables m1 = below (mem m) l ?e \<union> free_tables m" "same_config m m1"
      "\<And>va. xlate (mem m1) l c va = map_option (leaf_target va) (entry_find (mem m) l ?e va)"
      "\<And>va x. entry_find (mem m) l ?e va = Some (1, x) \<Longrightarrow> find_leaf (mem m1) l c va = Some (1, x)"
      "\<And>va lv x. entry_find (mem m) l ?e va = Some (lv, x) \<Longrightarrow>
         \<exists>lv'\<le>lv. \<exists>x'. find_leaf (mem m1) l c va = Some (lv', x')"
    using es unfolding entry_step_def Let_def c by blast+
  note S = tree_stepD [OF step]
  have t: "frame_address t" "t \<in> owned (mem m) (Suc l) t" "t \<notin> free_tables m"
    using wf free by auto
  have own: "owned (mem m) (Suc l) t = insert t (others (mem m) l t k \<union> below (mem m) l ?e)"
    by (rule owned_Suc [OF k])
  have tnb: "t \<notin> below (mem m) l ?e" using wf k unfolding tree_wf_entries by blast
  have tc: "t \<notin> owned (mem m1) l c" using E(6) tnb t(3) by blast
  have row12: "entry (mem m2) t i = entry (mem m1) t i" if "i < 512" for i
    using S(5) that t tc E(4) by (intro same_tablesD [OF S(5)]) auto
  have e2: "?e2 = ?e1" by (rule row12 [OF k])
  have b2: "below (mem m2) l ?e2 = owned (mem m2) l c" using E(1) e2 c by (simp add: below_def)
  have oth: "x \<notin> free_tables m" "frame_address x" "x \<noteq> t" "x \<notin> owned (mem m1) l c"
    if "x \<in> others (mem m) l t k" for x
  proof -
    show "x \<notin> free_tables m" using that own free by blast
    show "frame_address x" using that owned_frame [OF wf] others_subset by blast
    show "x \<noteq> t" using that tree_wf_others(1) [OF wf k] by blast
    show "x \<notin> owned (mem m1) l c"
      using that tree_wf_others(2) [OF wf k] E(6) \<open>x \<notin> free_tables m\<close> by blast
  qed
  have rest: "same_tables (mem m) (mem m2) (others (mem m) l t k)"
  proof (rule same_tables_trans)
    show "same_tables (mem m) (mem m1) (others (mem m) l t k)"
      using oth by (intro same_tables_mono [OF E(2)]) blast
    show "same_tables (mem m1) (mem m2) (others (mem m) l t k)"
      using oth E(4) by (intro same_tables_mono [OF S(5)]) blast
  qed
  have sub2: "owned (mem m2) l c \<subseteq> below (mem m) l ?e \<union> free_tables m" using S(4) E(6) by blast
  have up: "tree_update (mem m) (mem m2) l t k"
    unfolding tree_update_def b2
  proof (intro conjI allI impI)
    show "entry_ok (mem m2) l ?e2"
      using sub_invD(1) [OF S(1)] E(1) e2 c by (simp add: entry_ok_def is_table_def)
    show "t \<notin> owned (mem m2) l c" using sub2 tnb t(3) by blast
    show "owned (mem m2) l c \<inter> others (mem m) l t k = {}"
      using sub2 tree_wf_others(2) [OF wf k] oth(1) by blast
    show "entry (mem m2) t i = entry (mem m) t i" if "i < 512" "i \<noteq> k" for i
      using row12 E(3) that by simp
  qed (use wf k rest in auto)
  note own2 = updated_owned [OF up, unfolded b2]
  have "sub_inv m2 (Suc l) t"
    unfolding sub_inv_def
    using updated_wf [OF up] sub_invD(2,3) [OF S(1)] own2 t(3) S(2) E(4) oth(1) by auto
  moreover have "owned (mem m2) (Suc l) t \<union> free_tables m2 = owned (mem m) (Suc l) t \<union> free_tables m"
    unfolding own2 own using S(4) E(6) by blast
  moreover have "owned (mem m) (Suc l) t \<subseteq> owned (mem m2) (Suc l) t"
    unfolding own2 own using S(3) E(5) by blast
  moreover have "same_tables (mem m) (mem m2)
      {x. frame_address x \<and> x \<notin> owned (mem m) (Suc l) t \<and> x \<notin> free_tables m}"
  proof (rule same_tables_trans)
    show "same_tables (mem m) (mem m1) {x. frame_address x \<and> x \<notin> owned (mem m) (Suc l) t \<and> x \<notin> free_tables m}"
      using t(2) by (intro same_tables_mono [OF E(2)]) auto
    show "same_tables (mem m1) (mem m2) {x. frame_address x \<and> x \<notin> owned (mem m) (Suc l) t \<and> x \<notin> free_tables m}"
      using E(4,6) own by (intro same_tables_mono [OF S(5)]) blast
  qed
  moreover have ef: "entry_find (mem m2) l ?e2 va = find_leaf (mem m2) l c va" for va
    using E(1) by (simp add: e2 c entry_find_def is_table_def)
  have "\<exists>lv'\<le>lv. \<exists>x'. find_leaf (mem m2) (Suc l) t va = Some (lv', x')"
    if f: "find_leaf (mem m) (Suc l) t va = Some (lv, x)" for va lv x
  proof (cases "pt_index (Suc l) va = k")
    case True
    then obtain lv1 x1 where c1: "lv1 \<le> lv" "find_leaf (mem m1) l c va = Some (lv1, x1)"
      using E(10) [of va lv x] f by (auto simp: find_leaf_entry [of "mem m"] simp del: find_leaf.simps)
    obtain lv2 x2 where "lv2 \<le> lv1" "find_leaf (mem m2) l c va = Some (lv2, x2)"
      using S(9) [OF c1(2)] by blast
    then have "lv2 \<le> lv" "find_leaf (mem m2) (Suc l) t va = Some (lv2, x2)"
      using c1(1) True updated_find [OF up, of va] ef [of va] by simp_all
    then show ?thesis by blast
  qed (use f updated_find [OF up, of va] in \<open>auto simp del: find_leaf.simps\<close>)
  moreover have "find_leaf (mem m2) (Suc l) t va = Some (1, x)" if "find_leaf (mem m) (Suc l) t va = Some (1, x)" for va x
    using ef that updated_find [OF up, of va] S(8) [of va x] E(9) [of va x]
    by (cases "pt_index (Suc l) va = k") (simp_all add: find_leaf_entry [of "mem m"] del: find_leaf.simps)
  moreover have "xlate (mem m2) (Suc l) t va = xlate (mem m) (Suc l) t va" for va
  proof (cases "pt_index (Suc l) va = k")
    case True
    then show ?thesis
      using True ef updated_find [OF up, of va] S(7) [of va] E(8) [of va]
      by (simp add: xlate_def find_leaf_entry [of "mem m"] del: find_leaf.simps)
  next
    case False
    then show ?thesis using updated_find [OF up, of va] by (simp add: xlate_def del: find_leaf.simps)
  qed
  moreover have "same_config m m2" "free_tables m2 \<subseteq> free_tables m"
    using S(2,6) E(4,7) by (auto simp: same_config_def)
  ultimately show ?thesis unfolding tree_step_def using e2 by simp
qed

section \<open>The three ways a walk goes down\<close>

lemma descend_step:
  assumes "sub_inv m (Suc l) t" "k < 512" "is_table (entry (mem m) t k) (Suc l)"
  shows "entry_step m m l t k"
proof -
  note child = tree_wf_child [OF sub_invD(1) [OF assms(1)] assms(2,3)]
  have "sub_inv m l (pte_address (entry (mem m) t k))"
    using child(1,2) sub_invD(2,3) [OF assms(1)] unfolding sub_inv_def by blast
  then show ?thesis
    using assms(3)
    by (auto simp: entry_step_def Let_def below_def same_config_def xlate_def entry_find_def is_table_def)
qed

lemma find_leaf_level: "find_leaf r l t va = Some (lv, e) \<Longrightarrow> lv \<le> l"
  by (induction l arbitrary: t) (fastforce simp: Let_def split: if_splits)+

text \<open>A new table \<open>c\<close>, already filled, is linked at entry \<open>k\<close> in place of an entry without tables.\<close>

lemma new_child_step:
  assumes inv: "sub_inv m (Suc l) t" and k: "k < 512" and nt: "\<not> is_table (entry (mem m) t k) (Suc l)"
    and l: "1 \<le> l" and c: "c \<in> free_tables m"
    and pmm: "pmm_inv (m_pmm m1)" "free_tables m1 = free_tables m - {c}"
    and ram: "\<And>x i. frame_address x \<Longrightarrow> i < 512 \<Longrightarrow> entry (mem m1) x i =
      (if x = t \<and> i = k then table_entry c else if x = c then es ! i else entry (mem m) x i)"
    and sub: "tree_wf (mem m1) l c" "owned (mem m1) l c = {c}"
    and xl: "\<And>va. xlate (mem m1) l c va = map_option (leaf_target va) (entry_find (mem m) l (entry (mem m) t k) va)"
    and small: "\<And>va x. entry_find (mem m) l (entry (mem m) t k) va \<noteq> Some (1, x)"
    and cfg: "same_config m m1"
  shows "entry_step m m1 l t k" "pte_address (entry (mem m1) t k) = c"
proof -
  have t: "frame_address t" using sub_invD(1) [OF inv] by simp
  have "t \<in> owned (mem m) (Suc l) t" by simp
  then have "t \<noteq> c" using c sub_invD(3) [OF inv] by blast
  have fc: "frame_address c" using c by (simp add: free_tables_def)
  have e1: "entry (mem m1) t k = table_entry c" using ram [OF t k] by simp
  then show adr: "pte_address (entry (mem m1) t k) = c" using fc by simp
  have "sub_inv m1 l c" using sub pmm by (simp add: sub_inv_def)
  moreover have "is_table (entry (mem m1) t k) (Suc l)" using e1 l by (simp add: is_table_def)
  moreover have "same_tables (mem m) (mem m1) {x. frame_address x \<and> x \<noteq> t \<and> x \<notin> free_tables m}"
    using ram c by (auto simp: same_tables_def)
  moreover have "entry (mem m1) t i = entry (mem m) t i" if "i < 512" "i \<noteq> k" for i
    using ram [OF t that(1)] that(2) \<open>t \<noteq> c\<close> by simp
  moreover have "below (mem m) l (entry (mem m) t k) = {}" using nt by (simp add: below_def)
  moreover have "\<exists>lv'\<le>lv. \<exists>x'. find_leaf (mem m1) l c va = Some (lv', x')"
    if f: "entry_find (mem m) l (entry (mem m) t k) va = Some (lv, x)" for va lv x
  proof -
    have "lv = Suc l" using f nt by (auto simp: entry_find_def is_table_def split: if_splits)
    moreover obtain lv' x' where "find_leaf (mem m1) l c va = Some (lv', x')"
      using xl [of va] f by (auto simp: xlate_def)
    ultimately show ?thesis using find_leaf_level [of "mem m1" l c va lv' x'] le_SucI by blast
  qed
  ultimately show "entry_step m m1 l t k"
    unfolding entry_step_def Let_def adr using sub(2) pmm(2) c cfg xl small by auto
qed

lemma link_table:
  assumes "frame_address c" "frame_address t" "k < 512" "length es = 512" "c \<noteq> t"
    and same: "\<And>x i. frame_address x \<Longrightarrow> x \<noteq> c \<Longrightarrow> i < 512 \<Longrightarrow> entry r0 x i = entry r x i"
  shows "frame_address x \<Longrightarrow> i < 512 \<Longrightarrow>
    ((write_slots c es r0)(slot_at t k := e)) (slot_at x i) =
      (if x = t \<and> i = k then e else if x = c then es ! i else entry r x i)"
  using fun_upd_slot [OF assms(2,3), of x i] entry_write_slots [OF assms(1,4), of x i] same by auto

lemma mem_replace [simp]: "mem (replace slot e va m) = (mem m)(slot := e)"
  by (simp add: replace_def Let_def)

lemma replace_frame [simp]:
  "m_pmm (replace slot e va m) = m_pmm m" "feats (replace slot e va m) = feats m"
  "image_first (replace slot e va m) = image_first m" "image_end (replace slot e va m) = image_end m"
  by (simp_all add: replace_def Let_def)

lemma free_tables_cong: "m_pmm m = m_pmm m' \<Longrightarrow> free_tables m = free_tables m'"
  by (simp add: free_tables_def)

lemma empty_child_step:
  assumes inv: "sub_inv m (Suc l) t" and k: "k < 512" and np: "\<not> present (entry (mem m) t k)"
    and l: "1 \<le> l" and c: "c \<in> free_tables m"
    and pmm: "pmm_inv p" "free_tables (m\<lparr>m_pmm := p\<rparr>) = free_tables m - {c}"
    and m1: "m1 = replace (slot_at t k) (table_entry c) va
        (m\<lparr>m_pmm := p, mem := write_slots c (replicate ENTRIES 0) (mem m)\<rparr>)"
  shows "entry_step m m1 l t k" "pte_address (entry (mem m1) t k) = c"
proof -
  have t: "frame_address t" "t \<in> owned (mem m) (Suc l) t" using sub_invD(1) [OF inv] by simp_all
  have fc: "frame_address c" "c \<noteq> t" using c t(2) sub_invD(3) [OF inv] by (auto simp: free_tables_def)
  have ram: "entry (mem m1) x i = (if x = t \<and> i = k then table_entry c
      else if x = c then replicate ENTRIES 0 ! i else entry (mem m) x i)"
    if "frame_address x" "i < 512" for x i
    unfolding m1 mem_replace
    using link_table [OF fc(1) t(1) k _ fc(2) _ that, of "replicate ENTRIES 0" "mem m" "mem m"]
    by (simp add: ENTRIES_def)
  obtain l' where l': "l = Suc l'" using l by (cases l) auto
  have zero: "entry (mem m1) c i = 0" if "i < 512" for i
    using ram [OF fc(1) that] fc(2) that by (simp add: ENTRIES_def)
  note tab = empty_table [where r = "mem m1", OF fc(1) zero, of l', folded l']
  have ft: "free_tables m1 = free_tables m - {c}"
    using pmm(2) by (simp add: m1 free_tables_def)
  have xl: "xlate (mem m1) l c va = map_option (leaf_target va) (entry_find (mem m) l (entry (mem m) t k) va)" for va
    using tab(3) np by (simp add: xlate_def entry_find_def)
  have "\<not> is_table (entry (mem m) t k) (Suc l)" using np by (simp add: is_table_def)
  note st = new_child_step [where ?m1.0 = m1 and es = "replicate ENTRIES 0", OF inv k this l c _ ft ram tab(1,2) xl]
  have small: "entry_find (mem m) l (entry (mem m) t k) va \<noteq> Some (1, x)" for va x
    using np by (simp add: entry_find_def)
  show "entry_step m m1 l t k" "pte_address (entry (mem m1) t k) = c"
    by (rule st; simp add: m1 pmm(1) same_config_def small [unfolded One_nat_def])+
qed

lemma split_child_step:
  assumes inv: "sub_inv m (Suc l) t" and k: "k < 512"
    and lf: "present (entry (mem m) t k)" "leaf (entry (mem m) t k) (Suc l)"
    and l: "1 \<le> l" and c: "c \<in> free_tables m"
    and pmm: "pmm_inv p" "free_tables (m\<lparr>m_pmm := p\<rparr>) = free_tables m - {c}"
    and m1: "m1 = replace (slot_at t k) (table_entry c) va
        (m\<lparr>m_pmm := p, mem := write_slots c (split (entry (mem m) t k) (Suc l))
           (write_slots c (replicate ENTRIES 0) (mem m))\<rparr>)"
  shows "entry_step m m1 l t k" "pte_address (entry (mem m1) t k) = c"
proof -
  let ?e = "entry (mem m) t k"
  have t: "frame_address t" "t \<in> owned (mem m) (Suc l) t" using sub_invD(1) [OF inv] by simp_all
  have fc: "frame_address c" "c \<noteq> t" using c t(2) sub_invD(3) [OF inv] by (auto simp: free_tables_def)
  have len: "length (split ?e (Suc l)) = 512" by (simp add: split_def ENTRIES_def)
  have r0: "entry (write_slots c (replicate ENTRIES 0) (mem m)) x i = entry (mem m) x i"
    if "frame_address x" "x \<noteq> c" "i < 512" for x i
    using entry_write_slots [OF fc(1) _ that(1,3), of "replicate ENTRIES 0" "mem m"] that(2)
    by (simp add: ENTRIES_def)
  have ram: "entry (mem m1) x i = (if x = t \<and> i = k then table_entry c
      else if x = c then split ?e (Suc l) ! i else entry (mem m) x i)"
    if "frame_address x" "i < 512" for x i
    unfolding m1 mem_replace using link_table [where r = "mem m" and ?r0.0 = "write_slots c (replicate ENTRIES 0) (mem m)",
        OF fc(1) t(1) k len fc(2) r0 that] by simp
  have ok: "leaf_ok (Suc l) ?e" using sub_invD(1) [OF inv] k lf by auto
  then have l12: "l \<in> {1, 2}" using l by (auto simp: leaf_ok_def)
  have "entry (mem m1) c i = split ?e (Suc l) ! i" if "i < 512" for i
    using ram [OF fc(1) that] fc(2) by simp
  note tab = split_table [where r = "mem m1", OF fc(1) ok l12 lf(1) this]
  have ft: "free_tables m1 = free_tables m - {c}"
    using pmm(2) by (simp add: m1 free_tables_def)
  have xl: "xlate (mem m1) l c va = map_option (leaf_target va) (entry_find (mem m) l ?e va)" for va
    using tab(3) lf by (simp add: entry_find_def)
  have "\<not> is_table ?e (Suc l)" using lf(2) by (simp add: is_table_def)
  note st = new_child_step [where ?m1.0 = m1 and es = "split ?e (Suc l)", OF inv k this l c _ ft ram tab(1,2) xl]
  have small: "entry_find (mem m) l ?e va \<noteq> Some (1, x)" for va x
    using lf l by (simp add: entry_find_def)
  show "entry_step m m1 l t k" "pte_address (entry (mem m1) t k) = c"
    by (rule st; simp add: m1 pmm(1) same_config_def small [unfolded One_nat_def])+
qed

section \<open>Walking with allocation\<close>

definition walk_result :: "machine \<Rightarrow> nat \<Rightarrow> paddr_t \<Rightarrow> vaddr_t \<Rightarrow> nat \<Rightarrow> walk_path \<Rightarrow> bool" where
  "walk_result m level t va target p \<longleftrightarrow> reached_level p = target \<and>
     (\<exists>T. path_table (mem m) level t va target = Some T \<and> tables p target = T \<and>
          slots p target = slot_at T (pt_index target va))"

definition walk_ok :: "machine \<Rightarrow> nat \<Rightarrow> paddr_t \<Rightarrow> vaddr_t \<Rightarrow> nat \<Rightarrow> ((walk_path, mm_error) result \<times> machine) outcome \<Rightarrow> bool" where
  "walk_ok m level t va target out \<longleftrightarrow>
     (\<exists>res m'. out = Return (res, m') \<and> tree_step m m' level t \<and>
        (case res of Ok p \<Rightarrow> walk_result m' level t va target p | Err e \<Rightarrow> e = OUT_OF_MEMORY))"

lemma walk_ok_child:
  assumes inv: "sub_inv m (Suc l) t" and "Suc l \<noteq> target"
    and k: "k = pt_index (Suc l) va" and es: "entry_step m m1 l t k"
    and ok: "walk_ok m1 l (pte_address (entry (mem m1) t k)) va target out"
  shows "walk_ok m (Suc l) t va target out"
proof -
  let ?c = "pte_address (entry (mem m1) t k)"
  obtain res m2 where out: "out = Return (res, m2)" and st: "tree_step m1 m2 l ?c"
    and res: "case res of Ok p \<Rightarrow> walk_result m2 l ?c va target p | Err e \<Rightarrow> e = OUT_OF_MEMORY"
    using ok unfolding walk_ok_def by blast
  have kk: "k < 512" by (simp add: k)
  note cs = child_step [OF inv kk es refl st]
  have "is_table (entry (mem m1) t k) (Suc l)" using es by (simp add: entry_step_def Let_def)
  then have "path_table (mem m2) (Suc l) t va target = path_table (mem m2) l ?c va target"
    using assms(2) cs by (simp add: k Let_def)
  then have "case res of Ok p \<Rightarrow> walk_result m2 (Suc l) t va target p | Err e \<Rightarrow> e = OUT_OF_MEMORY"
    using res by (simp add: walk_result_def split: sum.splits)
  then show ?thesis unfolding walk_ok_def using out cs by blast
qed

lemma walk_alloc_spec:
  assumes "sub_inv m level t" "1 \<le> target" "target \<le> level"
  shows "walk_ok m level t va target (walk_from va target True level t path m)"
  using assms
proof (induction level arbitrary: t path m)
  case (Suc l)
  let ?k = "pt_index (Suc l) va"
  let ?e = "entry (mem m) t ?k"
  let ?path = "\<lparr>slots = (slots path)(Suc l := slot_at t ?k), tables = (tables path)(Suc l := t), reached_level = Suc l\<rparr>"
  show ?case
  proof (cases "Suc l = target")
    case True
    then show ?thesis
      using tree_step_refl [OF Suc.prems(1)]
      by (auto simp: walk_ok_def walk_result_def Let_def mm_ok_def)
  next
    case False
    then have l: "1 \<le> l" "target \<le> l" using Suc.prems by auto
    have IH: "walk_ok m' l c va target (walk_from va target True l c path' m')" if "sub_inv m' l c" for m' c path'
      using Suc.IH [OF that Suc.prems(2) l(2)] .
    have es_inv: "sub_inv m1 l (pte_address (entry (mem m1) t ?k))" if "entry_step m m1 l t ?k" for m1
      using that by (simp add: entry_step_def Let_def)
    have oom: "walk_ok m (Suc l) t va target (Return (Err OUT_OF_MEMORY, m))"
      using tree_step_refl [OF Suc.prems(1)] by (simp add: walk_ok_def)
    consider (none) "\<not> present ?e" | (big) "present ?e" "leaf ?e (Suc l)" | (tab) "is_table ?e (Suc l)"
      by (auto simp: is_table_def)
    then show ?thesis
    proof cases
      case none
      show ?thesis
      proof (cases "alloc_table m = Return (Err OUT_OF_MEMORY, m)")
        case True
        then show ?thesis using False none oom by (simp add: Let_def)
      next
        case F: False
        then obtain c p where al: "alloc_table m = Return (Ok c, m\<lparr>m_pmm := p, mem := write_slots c (replicate ENTRIES 0) (mem m)\<rparr>)"
          and p: "pmm_inv p" "c \<in> free_tables m" "free_tables (m\<lparr>m_pmm := p\<rparr>) = free_tables m - {c}"
          using alloc_table_spec [OF sub_invD(2) [OF Suc.prems(1)]] by blast
        define m1 where "m1 = replace (slot_at t ?k) (table_entry c) va
            (m\<lparr>m_pmm := p, mem := write_slots c (replicate ENTRIES 0) (mem m)\<rparr>)"
        note st = empty_child_step [OF Suc.prems(1) pt_index_bound none l(1) p(2,1,3) m1_def]
        have "walk_from va target True (Suc l) t path m =
            walk_from va target True l (pte_address (entry (mem m1) t ?k)) ?path m1"
          using False none al by (simp add: Let_def m1_def)
        then show ?thesis
          using walk_ok_child [OF Suc.prems(1) False refl st(1) IH [OF es_inv [OF st(1)]]] by simp
      qed
    next
      case big
      show ?thesis
      proof (cases "alloc_table m = Return (Err OUT_OF_MEMORY, m)")
        case True
        then show ?thesis using False big oom by (simp add: Let_def)
      next
        case F: False
        then obtain c p where al: "alloc_table m = Return (Ok c, m\<lparr>m_pmm := p, mem := write_slots c (replicate ENTRIES 0) (mem m)\<rparr>)"
          and p: "pmm_inv p" "c \<in> free_tables m" "free_tables (m\<lparr>m_pmm := p\<rparr>) = free_tables m - {c}"
          using alloc_table_spec [OF sub_invD(2) [OF Suc.prems(1)]] by blast
        have keep: "entry (write_slots c (replicate ENTRIES 0) (mem m)) t ?k = ?e"
        proof -
          have "t \<in> owned (mem m) (Suc l) t" "frame_address t" using sub_invD(1) [OF Suc.prems(1)] by simp_all
          moreover from this have "t \<noteq> c" using p(2) sub_invD(3) [OF Suc.prems(1)] by blast
          moreover have "frame_address c" using p(2) by (simp add: free_tables_def)
          ultimately show ?thesis
            using entry_write_slots [of c "replicate ENTRIES 0" t ?k "mem m"] by (simp add: ENTRIES_def)
        qed
        define m1 where "m1 = replace (slot_at t ?k) (table_entry c) va
            (m\<lparr>m_pmm := p, mem := write_slots c (split ?e (Suc l))
               (write_slots c (replicate ENTRIES 0) (mem m))\<rparr>)"
        note st = split_child_step [OF Suc.prems(1) pt_index_bound big l(1) p(2,1,3) m1_def]
        have "walk_from va target True (Suc l) t path m =
            walk_from va target True l (pte_address (entry (mem m1) t ?k)) ?path m1"
          using False big al keep by (simp add: Let_def m1_def)
        then show ?thesis
          using walk_ok_child [OF Suc.prems(1) False refl st(1) IH [OF es_inv [OF st(1)]]] by simp
      qed
    next
      case tab
      note st = descend_step [OF Suc.prems(1) pt_index_bound tab]
      have "walk_from va target True (Suc l) t path m =
          walk_from va target True l (pte_address ?e) ?path m"
        using False tab by (simp add: Let_def is_table_def)
      then show ?thesis
        using walk_ok_child [OF Suc.prems(1) False refl st IH [OF es_inv [OF st]]] by simp
    qed
  qed
qed (use assms in simp)

section \<open>Walking without allocation\<close>

text \<open>Where the walk stops: the level and the table whose slot it returns.\<close>

fun walk_end :: "ram \<Rightarrow> nat \<Rightarrow> paddr_t \<Rightarrow> vaddr_t \<Rightarrow> nat \<Rightarrow> (nat \<times> paddr_t) option" where
  "walk_end r 0 t va target = None"
| "walk_end r (Suc l) t va target =
     (let e = entry r t (pt_index (Suc l) va)
      in if Suc l = target then Some (Suc l, t)
         else if \<not> present e then None
         else if leaf e (Suc l) then Some (Suc l, t)
         else walk_end r l (pte_address e) va target)"

definition path_upto :: "ram \<Rightarrow> nat \<Rightarrow> paddr_t \<Rightarrow> vaddr_t \<Rightarrow> nat \<Rightarrow> walk_path \<Rightarrow> bool" where
  "path_upto r level t va low p \<longleftrightarrow>
     (\<forall>j\<in>{low..level}. path_table r level t va j = Some (tables p j) \<and>
        slots p j = slot_at (tables p j) (pt_index j va))"

lemma walk_end_bound: "walk_end r level t va target = Some (lv, T) \<Longrightarrow> 1 \<le> lv \<and> lv \<le> level"
proof (induction level arbitrary: t)
  case (Suc l)
  then show ?case
    by (auto simp: Let_def le_Suc_eq split: if_splits)
qed simp

lemma walk_end_target:
  "walk_end r level t va target = Some (lv, T) \<Longrightarrow> target \<le> level \<Longrightarrow> target \<le> lv"
proof (induction level arbitrary: t)
  case (Suc l)
  then show ?case
    using Suc.IH [of "pte_address (entry r t (pt_index (Suc l) va))"]
    by (cases "Suc l = target") (auto simp: Let_def split: if_splits)
qed simp

lemma walk_end_path: "walk_end r level t va target = Some (lv, T) \<Longrightarrow> path_table r level t va lv = Some T"
proof (induction level arbitrary: t)
  case (Suc l)
  note step = Suc.prems [unfolded walk_end.simps Let_def]
  let ?c = "pte_address (entry r t (pt_index (Suc l) va))"
  show ?case
  proof (cases "lv = Suc l")
    case True
    then have "walk_end r l ?c va target \<noteq> Some (lv, T)" using walk_end_bound [of r l ?c va target lv T] by auto
    then show ?thesis using step True by (auto simp: Let_def split: if_splits)
  next
    case False
    then show ?thesis using step Suc.IH by (auto simp: Let_def is_table_def split: if_splits)
  qed
qed simp

lemma walk_end_find:
  "find_leaf r level t va =
     (case walk_end r level t va 1 of None \<Rightarrow> None
      | Some (lv, T) \<Rightarrow> let e = entry r T (pt_index lv va) in if present e then Some (lv, e) else None)"
  by (induction level arbitrary: t) (auto simp: Let_def leaf_def split: option.splits)

lemma walk_False_spec:
  assumes "1 \<le> target" "target \<le> level"
  shows "case walk_end (mem m) level t va target of
      None \<Rightarrow> walk_from va target False level t path m = Return (Err NOT_MAPPED, m)
    | Some (lv, T) \<Rightarrow> (\<exists>p. walk_from va target False level t path m = Return (Ok p, m) \<and>
        reached_level p = lv \<and> tables p lv = T \<and> path_upto (mem m) level t va lv p \<and>
        (\<forall>j>level. tables p j = tables path j \<and> slots p j = slots path j))"
  using assms
proof (induction level arbitrary: t path)
  case (Suc l)
  let ?k = "pt_index (Suc l) va"
  let ?e = "entry (mem m) t ?k"
  let ?path = "\<lparr>slots = (slots path)(Suc l := slot_at t ?k), tables = (tables path)(Suc l := t), reached_level = Suc l\<rparr>"
  consider (none) "Suc l \<noteq> target" "\<not> present ?e" | (stop) "Suc l = target \<or> present ?e \<and> leaf ?e (Suc l)"
    | (tab) "Suc l \<noteq> target" "is_table ?e (Suc l)"
    by (auto simp: is_table_def)
  then show ?case
  proof cases
    case none
    then show ?thesis by (simp add: Let_def mm_fail_def)
  next
    case stop
    then have "walk_end (mem m) (Suc l) t va target = Some (Suc l, t)" by (auto simp: Let_def)
    moreover have "walk_from va target False (Suc l) t path m = Return (Ok ?path, m)"
      using stop by (auto simp: Let_def mm_ok_def)
    ultimately show ?thesis by (simp add: path_upto_def Let_def)
  next
    case tab
    let ?c = "pte_address ?e"
    have w: "walk_from va target False (Suc l) t path m = walk_from va target False l ?c ?path m"
        "walk_end (mem m) (Suc l) t va target = walk_end (mem m) l ?c va target"
      using tab by (simp_all add: Let_def is_table_def)
    note IH = Suc.IH [of ?c ?path, folded w]
    have pt: "path_table (mem m) (Suc l) t va j =
        (if j = Suc l then Some t else path_table (mem m) l ?c va j)" for j
      using tab by (simp add: Let_def)
    have up: "path_upto (mem m) (Suc l) t va lv p"
      if "path_upto (mem m) l ?c va lv p" "tables p (Suc l) = t" "slots p (Suc l) = slot_at t ?k" for lv p
      using that unfolding path_upto_def pt by (auto simp: le_Suc_eq)
    show ?thesis
      using IH tab Suc.prems up by (auto simp: less_Suc_eq split: option.splits)
  qed
qed (use assms in simp)

section \<open>The address space\<close>

text \<open>
  Every table outside the kernel image is a frame the allocator manages, so that it can be
  released.
\<close>

definition releasable :: "machine \<Rightarrow> paddr_t \<Rightarrow> bool" where
  "releasable m x \<longleftrightarrow> image_first m \<le> x \<and> x < image_end m \<or> unat x div 4096 < 4194304"

definition tree_inv :: "machine \<Rightarrow> paddr_t \<Rightarrow> bool" where
  "tree_inv m root \<longleftrightarrow>
     sub_inv m LEVELS root \<and> (\<forall>x\<in>owned (mem m) LEVELS root. releasable m x)"

lemma tree_invD:
  assumes "tree_inv m root"
  shows "sub_inv m LEVELS root" "\<And>x. x \<in> owned (mem m) LEVELS root \<Longrightarrow> releasable m x"
  using assms by (simp_all add: tree_inv_def)

lemma releasable_config: "same_config m m' \<Longrightarrow> releasable m' x \<longleftrightarrow> releasable m x"
  by (simp add: same_config_def releasable_def)

lemma tree_inv_step:
  assumes "tree_inv m root" "tree_step m m' LEVELS root"
  shows "tree_inv m' root"
proof -
  note S = tree_stepD [OF assms(2)] and I = tree_invD [OF assms(1)]
  have "unat x div 4096 < 4194304" if "x \<in> free_tables m" for x
    using that free_frame_bound(1) [OF sub_invD(2) [OF I(1)]] by (simp add: free_tables_def)
  then have "releasable m x" if "x \<in> owned (mem m) LEVELS root \<union> free_tables m" for x
    using that I(2) by (auto simp: releasable_def)
  then show ?thesis
    unfolding tree_inv_def using S(1,4) releasable_config [OF S(6)] by blast
qed

definition leaf_at :: "machine \<Rightarrow> paddr_t \<Rightarrow> vaddr_t \<Rightarrow> (nat \<times> u64) option" where
  "leaf_at m root va = (if valid va then find_leaf (mem m) LEVELS root va else None)"

definition address_space :: "machine \<Rightarrow> paddr_t \<Rightarrow> vaddr_t \<Rightarrow> (paddr_t \<times> page_prot) option" where
  "address_space m root va = map_option (leaf_target va) (leaf_at m root va)"

lemma address_space_xlate: "address_space m root va = (if valid va then xlate (mem m) LEVELS root va else None)"
  by (simp add: address_space_def leaf_at_def xlate_def)

lemma translate_spec:
  assumes "valid va"
  shows "translate root va m =
    Return (case find_leaf (mem m) LEVELS root va of
              None \<Rightarrow> Err NOT_MAPPED
            | Some (lv, e) \<Rightarrow> Ok \<lparr>mp_frame = pte_address e, mp_offset = va AND (bytes_in (size_at lv) - 1),
                mp_size = size_at lv, mp_prot = pte_prot e\<rparr>, m)"
proof -
  have W: "case walk_end (mem m) LEVELS root va 1 of
      None \<Rightarrow> walk root va 1 False m = Return (Err NOT_MAPPED, m)
    | Some (lv, T) \<Rightarrow> (\<exists>p. walk root va 1 False m = Return (Ok p, m) \<and>
        reached_level p = lv \<and> tables p lv = T \<and> path_upto (mem m) LEVELS root va lv p \<and>
        (\<forall>j>LEVELS. tables p j = tables empty_path j \<and> slots p j = slots empty_path j))"
    unfolding walk_def by (rule walk_False_spec) (simp_all add: LEVELS_def)
  show ?thesis
  proof (cases "walk_end (mem m) LEVELS root va 1")
    case None
    then show ?thesis using W assms by (simp add: translate_def walk_end_find)
  next
    case (Some x)
    obtain lv T where x: "x = (lv, T)" by force
    obtain p where p: "walk root va 1 False m = Return (Ok p, m)" "reached_level p = lv"
        "tables p lv = T" "path_upto (mem m) LEVELS root va lv p"
      using W Some x by auto
    have "lv \<in> {lv..LEVELS}" using walk_end_bound [of "mem m" LEVELS root va 1 lv T] Some x by simp
    then have "slots p lv = slot_at T (pt_index lv va)" using p(3,4) unfolding path_upto_def by blast
    then show ?thesis
      using assms p Some x by (simp add: translate_def walk_end_find Let_def mm_ok_def mm_fail_def)
  qed
qed

section \<open>Writing one leaf\<close>

abbreviation page_shift :: "nat \<Rightarrow> nat" where
  "page_shift level \<equiv> 3 + 9 * level"

lemma write_leaf:
  assumes inv: "tree_inv m root" and va: "valid va" and target: "1 \<le> target" "target \<le> 4"
    and path: "path_table (mem m) LEVELS root va target = Some T"
    and new: "\<not> is_table e target" "present e \<Longrightarrow> leaf_ok target e"
    and m': "mem m' = (mem m)(slot_at T (pt_index target va) := e)" "m_pmm m' = m_pmm m" "same_config m m'"
  shows "tree_inv m' root"
    "owned (mem m') LEVELS root =
       owned (mem m) LEVELS root - below (mem m) (target - 1) (entry (mem m) T (pt_index target va))"
    "target \<le> j \<Longrightarrow> path_table (mem m') LEVELS root va j = path_table (mem m) LEVELS root va j"
    "leaf_at m' root va' =
       (if drop_bit (page_shift target) va' = drop_bit (page_shift target) va
        then (if present e then Some (target, e) else None) else leaf_at m root va')"
    "address_space m' root va' =
       (if drop_bit (page_shift target) va' = drop_bit (page_shift target) va
        then (if present e then Some (leaf_target va' (target, e)) else None)
        else address_space m root va')"
proof -
  obtain n where n: "target = Suc n" using target by (cases target) auto
  have wf: "tree_wf (mem m) LEVELS root" "pmm_inv (m_pmm m)" "owned (mem m) LEVELS root \<inter> free_tables m = {}"
    using tree_invD(1) [OF inv] sub_invD by blast+
  note S = set_entry [OF wf(1) path [unfolded n] new [unfolded n] m'(1) [unfolded n], folded n]
  show own: "owned (mem m') LEVELS root =
      owned (mem m) LEVELS root - below (mem m) (target - 1) (entry (mem m) T (pt_index target va))"
    using S by (simp add: n)
  show "target \<le> j \<Longrightarrow> path_table (mem m') LEVELS root va j = path_table (mem m) LEVELS root va j"
    using S by (simp add: n)
  have "sub_inv m' LEVELS root"
    using S own wf(2,3) m'(2) by (auto simp: sub_inv_def free_tables_def)
  then show "tree_inv m' root"
    using own tree_invD(2) [OF inv] releasable_config [OF m'(3)] by (auto simp: tree_inv_def)
  have find: "find_leaf (mem m') LEVELS root va' =
      (if same_page target LEVELS va va' then (if present e then Some (target, e) else None)
       else find_leaf (mem m) LEVELS root va')"
    using S by blast
  show lf: "leaf_at m' root va' =
       (if drop_bit (page_shift target) va' = drop_bit (page_shift target) va
        then (if present e then Some (target, e) else None) else leaf_at m root va')"
  proof (cases "valid va'")
    case True
    have "same_page target LEVELS va va' \<longleftrightarrow> drop_bit (page_shift target) va' = drop_bit (page_shift target) va"
      unfolding LEVELS_def using target by (intro same_page_iff [OF va True]) auto
    then show ?thesis using find True by (simp add: leaf_at_def)
  next
    case False
    then have "drop_bit (page_shift target) va' \<noteq> drop_bit (page_shift target) va"
      using valid_in_page [of "page_shift target" va' va] va target by auto
    then show ?thesis using False by (simp add: leaf_at_def)
  qed
  show "address_space m' root va' =
       (if drop_bit (page_shift target) va' = drop_bit (page_shift target) va
        then (if present e then Some (leaf_target va' (target, e)) else None)
        else address_space m root va')"
    unfolding address_space_def lf by simp
qed

lemma level_of_sizes:
  assumes "supported_size psize"
  shows "level_of psize \<in> {1, 2, 3}" "1 \<le> level_of psize" "level_of psize \<le> 4" "shift_of psize = page_shift (level_of psize)"
    "bytes_in psize = 2 ^ page_shift (level_of psize)" "bytes_in psize - 1 = mask (page_shift (level_of psize))"
  using assms by (auto simp: level_of_def shift_of_sizes bytes_in_pow2 mask_eq_exp_minus_1)

lemma aligned_iff:
  assumes "supported_size psize"
  shows "(va OR pa) AND (bytes_in psize - 1) = 0 \<longleftrightarrow>
    take_bit (page_shift (level_of psize)) va = 0 \<and> take_bit (page_shift (level_of psize)) pa = 0"
  unfolding level_of_sizes(6) [OF assms] take_bit_eq_mask
  by (metis (no_types) or_eq_0_iff bit.conj_disj_distrib2)

lemma leaf_ok_entry:
  assumes "supported_size psize" "take_bit (page_shift (level_of psize)) pa = 0" "unat pa < 2 ^ 52"
  shows "frame_address pa" "leaf_ok (level_of psize) (leaf_entry ft pa psize p)"
    "\<not> is_table (leaf_entry ft pa psize p) (level_of psize)"
proof -
  let ?s = "page_shift (level_of psize)"
  have "unat (take_bit ?s pa) = unat pa mod 2 ^ ?s"
    by (simp only: unsigned_take_bit_eq) (simp add: take_bit_eq_mod)
  then have dvd: "2 ^ ?s dvd unat pa" using assms(2) by (simp add: dvd_eq_mod_eq_0)
  moreover have "(4096 :: nat) dvd 2 ^ ?s"
    using le_imp_power_dvd [of 12 ?s "2 :: nat"] level_of_sizes(1) [OF assms(1)] by auto
  ultimately show fr: "frame_address pa" using assms(3) dvd_trans by (auto simp: frame_address_iff)
  show "leaf_ok (level_of psize) (leaf_entry ft pa psize p)"
    using dvd fr bytes_at_pow [OF level_of_sizes(1) [OF assms(1)]] level_of_sizes(1) [OF assms(1)]
    by (simp add: leaf_ok_def)
  show "\<not> is_table (leaf_entry ft pa psize p) (level_of psize)"
    using leaf_entry_kind(2) [OF assms(1)] by (simp add: is_table_def)
qed

lemma leaf_entry_target:
  assumes "supported_size psize" "frame_address pa"
  shows "leaf_target va' (level_of psize, leaf_entry ft pa psize p) =
    (pa + take_bit (page_shift (level_of psize)) va', effective_prot ft p)"
  using assms
  by (simp add: leaf_target_def leaf_entry_prot size_at_level_of level_of_sizes(6) take_bit_eq_mask)

text \<open>
  The effect of an operation that only adds tables: none is lost, the frames the allocator
  gives away are the tables the tree gains, and small leaves stay in place.
\<close>

definition tree_grow :: "machine \<Rightarrow> machine \<Rightarrow> paddr_t \<Rightarrow> bool" where
  "tree_grow m m' root \<longleftrightarrow>
     tree_inv m' root \<and> same_config m m' \<and> free_tables m' \<subseteq> free_tables m \<and>
     owned (mem m) LEVELS root \<subseteq> owned (mem m') LEVELS root \<and>
     owned (mem m') LEVELS root \<union> free_tables m' = owned (mem m) LEVELS root \<union> free_tables m \<and>
     (\<forall>va e. leaf_at m root va = Some (1, e) \<longrightarrow> leaf_at m' root va = Some (1, e))"

lemma tree_grow_trans:
  assumes "tree_grow m m1 root" "tree_grow m1 m2 root"
  shows "tree_grow m m2 root"
  using assms unfolding tree_grow_def same_config_def by (intro conjI) auto

lemma tree_grow_step: "tree_inv m root \<Longrightarrow> tree_step m m' LEVELS root \<Longrightarrow> tree_grow m m' root"
  unfolding tree_grow_def
  using tree_inv_step tree_stepD(2,3,4,6,8) by (auto simp: leaf_at_def split: if_splits)

lemma leaf_at_path:
  assumes va: "valid va" and path: "path_table (mem m) LEVELS root va target = Some T"
    and eq: "drop_bit (page_shift target) va' = drop_bit (page_shift target) va"
  shows "leaf_at m root va' = entry_find (mem m) (target - 1) (entry (mem m) T (pt_index target va)) va'"
proof -
  have t: "1 \<le> target" "target \<le> 4" using path_table_level [OF path] by (simp_all add: LEVELS_def)
  then have va': "valid va'" using valid_in_page [OF eq] va by simp
  have "same_page target LEVELS va va'"
    using same_page_iff [OF va va' t(2)] eq by (simp add: LEVELS_def)
  then show ?thesis
    using path_table_find [OF path, of "target - 1" va'] t va' by (simp add: leaf_at_def)
qed

lemma walk_alloc_root:
  assumes inv: "tree_inv m root" and target: "target \<in> {1, 2, 3}"
  obtains res m1 where "walk root va target True m = Return (res, m1)" "tree_inv m1 root"
    "address_space m1 root = address_space m root" "same_config m m1" "tree_step m m1 LEVELS root"
    "case res of Ok p \<Rightarrow> walk_result m1 LEVELS root va target p | Err e \<Rightarrow> e = OUT_OF_MEMORY"
proof -
  have "walk_ok m LEVELS root va target (walk root va target True m)"
    unfolding walk_def
    using tree_invD(1) [OF inv] target by (intro walk_alloc_spec) (auto simp: LEVELS_def)
  then obtain res m1 where R: "walk root va target True m = Return (res, m1)" "tree_step m m1 LEVELS root"
      "case res of Ok p \<Rightarrow> walk_result m1 LEVELS root va target p | Err e \<Rightarrow> e = OUT_OF_MEMORY"
    unfolding walk_ok_def by blast
  have "address_space m1 root = address_space m root"
    using tree_stepD(7) [OF R(2)] by (auto simp: address_space_xlate)
  moreover have "tree_inv m1 root" "same_config m m1"
    using tree_inv_step [OF inv R(2)] tree_stepD(6) [OF R(2)] by simp_all
  ultimately show thesis using that R by blast
qed

lemma map_leaf_spec:
  assumes inv: "tree_inv m root" and sz: "supported_size psize" and pa: "unat pa < 2 ^ 52"
  shows "\<exists>r m'. map_leaf root va pa psize p m = Return (r, m') \<and> tree_grow m m' root \<and>
    (case r of
       Ok _ \<Rightarrow> leaf_at m' root va = Some (level_of psize, leaf_entry (feats m) pa psize p) \<and> valid va \<and> (va OR pa) AND (bytes_in psize - 1) = 0 \<and>
         (\<forall>va'. address_space m' root va' =
            (if va' - va < bytes_in psize then Some (pa + (va' - va), effective_prot (feats m) p)
             else address_space m root va'))
     | Err e \<Rightarrow> address_space m' root = address_space m root \<and>
         (e = INVALID_ADDRESS \<longleftrightarrow> \<not> valid va \<or> (va OR pa) AND (bytes_in psize - 1) \<noteq> 0) \<and>
         (e = CONFLICT \<and> psize = SIZE_4K \<longrightarrow> leaf_at m root va \<noteq> None) \<and>
         e \<in> {INVALID_ADDRESS, OUT_OF_MEMORY, CONFLICT})"
proof (cases "valid va \<and> (va OR pa) AND (bytes_in psize - 1) = 0")
  case False
  then show ?thesis
    using inv by (auto simp: map_leaf_def validate_def mm_fail_def ktry_def same_config_def tree_grow_def)
next
  case True
  let ?t = "level_of psize" and ?pte = "leaf_entry (feats m) pa psize p"
  have va: "valid va" and al: "take_bit (page_shift ?t) va = 0" "take_bit (page_shift ?t) pa = 0"
    using True aligned_iff [OF sz] by blast+
  have lt: "page_shift ?t < 64" using level_of_sizes(1) [OF sz] by auto
  note ok = leaf_ok_entry [OF sz al(2) pa]
  obtain res m1 where W: "walk root va ?t True m = Return (res, m1)" "tree_inv m1 root"
      "address_space m1 root = address_space m root" "same_config m m1" "tree_grow m m1 root"
      "case res of Ok p \<Rightarrow> walk_result m1 LEVELS root va ?t p | Err e \<Rightarrow> e = OUT_OF_MEMORY"
    using walk_alloc_root [OF inv level_of_sizes(1) [OF sz]] tree_grow_step [OF inv] by metis
  have val: "validate va psize pa = mm_ok ?t" using True by (simp add: validate_def)
  show ?thesis
  proof (cases res)
    case (Inl e)
    then show ?thesis using W True by (simp add: map_leaf_def val)
  next
    case (Inr path)
    then obtain T where T: "path_table (mem m1) LEVELS root va ?t = Some T"
        "slots path ?t = slot_at T (pt_index ?t va)"
      using W(6) by (auto simp: walk_result_def)
    let ?slot = "slot_at T (pt_index ?t va)"
    have ft: "feats m1 = feats m" using W(4) by (simp add: same_config_def)
    have run: "map_leaf root va pa psize p m =
        (if present (mem m1 ?slot) \<and> mem m1 ?slot \<noteq> ?pte then mm_fail CONFLICT m1
         else if \<not> present (mem m1 ?slot) then mm_ok () (replace ?slot ?pte va m1) else mm_ok () m1)"
      using W(1) Inr T(2) ft by (simp add: map_leaf_def val Let_def)
    note at = leaf_at_path [OF va T(1)]
    show ?thesis
    proof (cases "present (mem m1 ?slot) \<and> mem m1 ?slot \<noteq> ?pte")
      case conf: True
      have "leaf_at m root va \<noteq> None" if "psize = SIZE_4K"
      proof -
        have "level_of psize = 1" using that by (simp add: level_of_def layout)
        then have "leaf_at m1 root va \<noteq> None" using at [of va] conf by (simp add: entry_find_def leaf_def)
        then have "address_space m1 root va \<noteq> None" by (simp add: address_space_def)
        then show ?thesis unfolding W(3) by (simp add: address_space_def)
      qed
      then show ?thesis using run W True conf by (simp add: mm_fail_def)
    next
      case free: False
      define m2 where "m2 = (if present (mem m1 ?slot) then m1 else replace ?slot ?pte va m1)"
      have m2: "mem m2 = (mem m1)(?slot := ?pte)" "m_pmm m2 = m_pmm m1" "same_config m1 m2"
        using free by (auto simp: m2_def same_config_def)
      note S = write_leaf [OF W(2) va level_of_sizes(2,3) [OF sz] T(1) ok(3,2) m2]
      have "map_leaf root va pa psize p m = Return (Ok (), m2)"
        using run free by (simp add: m2_def mm_ok_def)
      moreover have "address_space m2 root va' =
          (if va' - va < bytes_in psize then Some (pa + (va' - va), effective_prot (feats m) p)
           else address_space m root va')" for va'
        using S(5) [of va'] in_page_iff [OF al(1) lt, of va'] W(3)
        by (simp add: leaf_entry_target [OF sz ok(1)] level_of_sizes(5) [OF sz])
      moreover have "tree_grow m1 m2 root"
      proof (cases "present (mem m1 ?slot)")
        case True
        then show ?thesis using W(2) by (simp add: m2_def tree_grow_def same_config_def)
      next
        case np: False
        then have "owned (mem m2) LEVELS root = owned (mem m1) LEVELS root"
          using S(2) by (simp add: below_def is_table_def)
        moreover have "leaf_at m2 root va' = Some (1, e)" if "leaf_at m1 root va' = Some (1, e)" for va' e
          using S(4) [of va'] at [of va'] np that by (auto simp: entry_find_def split: if_splits)
        moreover have "free_tables m2 = free_tables m1" using m2(2) by (simp add: free_tables_def)
        ultimately show ?thesis using S(1) m2(3) unfolding tree_grow_def by auto
      qed
      moreover have "leaf_at m2 root va = Some (?t, ?pte)" using S(4) [of va] by simp
      ultimately show ?thesis
        using tree_grow_trans [OF W(5)] True by auto
    qed
  qed
qed

end
