(* ===== verification/Address_Space.thy ===== *)
theory Address_Space
  imports Radix_Correct
begin

text \<open>
  Removal, protection and ranges over the address space of a page-table tree. Removing a
  leaf clears the translations of its page and gives every table that became empty back to
  the frame allocator, except the static tables of the kernel image.
\<close>

section \<open>Pruning\<close>

definition in_image :: "machine \<Rightarrow> paddr_t \<Rightarrow> bool" where
  "in_image m x \<longleftrightarrow> image_first m \<le> x \<and> x < image_end m"

definition tree_shrink :: "machine \<Rightarrow> machine \<Rightarrow> paddr_t \<Rightarrow> bool" where
  "tree_shrink m m' root \<longleftrightarrow>
     tree_inv m' root \<and> same_config m m' \<and>
     owned (mem m') LEVELS root \<subseteq> owned (mem m) LEVELS root \<and> free_tables m \<subseteq> free_tables m' \<and>
     owned (mem m') LEVELS root \<union> free_tables m' \<subseteq> owned (mem m) LEVELS root \<union> free_tables m \<and>
     (\<forall>x\<in>owned (mem m) LEVELS root \<union> free_tables m.
        x \<in> owned (mem m') LEVELS root \<union> free_tables m' \<or> in_image m x)"

lemma tree_shrink_trans:
  "tree_shrink m m1 root \<Longrightarrow> tree_shrink m1 m2 root \<Longrightarrow> tree_shrink m m2 root"
  unfolding tree_shrink_def same_config_def in_image_def by auto

lemma path_table_step:
  assumes "path_table r l t va (Suc n) = Some X" "path_table r l t va (Suc (Suc n)) = Some T"
  shows "is_table (entry r T (pt_index (Suc (Suc n)) va)) (Suc (Suc n)) \<and>
    X = pte_address (entry r T (pt_index (Suc (Suc n)) va))"
  using assms
proof (induction l arbitrary: t)
  case (Suc l)
  let ?e = "entry r t (pt_index (Suc l) va)"
  show ?case
  proof (cases "l = Suc n")
    case True
    then have "T = t" "is_table ?e (Suc l)" "path_table r l (pte_address ?e) va (Suc n) = Some X"
      using Suc.prems by (auto simp: Let_def split: if_splits)
    then show ?thesis using True by (simp add: Let_def)
  next
    case False
    moreover have "l \<noteq> n"
      using Suc.prems(2) path_table_above [of "Suc l" "Suc (Suc n)" r t va] by auto
    ultimately show ?thesis
      using Suc.prems Suc.IH by (auto simp: Let_def split: if_splits)
  qed
qed simp

lemma release_frame:
  assumes "pmm_inv (m_pmm m)" "frame_address x" "x \<notin> free_tables m" "unat x div 4096 < 4194304"
  shows "\<exists>s. pmm_free SIZE_4K x (m_pmm m) = Return s \<and> pmm_inv s \<and>
    free_tables (m\<lparr>m_pmm := s\<rparr>) = insert x (free_tables m)"
proof -
  have al: "4096 dvd unat x" using assms(2) by (simp add: frame_address_iff)
  have "valid_release SIZE_4K x" using assms(4) al by (simp add: valid_release_def layout)
  moreover have "{unat x div 4096..<unat x div 4096 + frames_in SIZE_4K} = {unat x div 4096}"
    by (auto simp: layout)
  moreover have "unat x div 4096 \<notin> free_frames (m_pmm m)" using assms(2,3) by (simp add: free_tables_def)
  ultimately obtain s where s: "pmm_free SIZE_4K x (m_pmm m) = Return s" "pmm_inv s"
      "free_frames s = free_frames (m_pmm m) \<union> {unat x div 4096}"
    using pmm_free_spec [OF assms(1), of SIZE_4K x] by auto
  have "unat y div 4096 = unat x div 4096 \<longleftrightarrow> y = x" if "frame_address y" for y
    using that assms(2) by (auto simp: frame_address_iff word_unat_eq_iff elim!: dvdE)
  then have "free_tables (m\<lparr>m_pmm := s\<rparr>) = insert x (free_tables m)"
    using s(3) assms(2) by (auto simp: free_tables_def)
  then show ?thesis using s by blast
qed

lemma free_table_spec:
  assumes "pmm_inv (m_pmm m)" "frame_address x" "x \<notin> free_tables m" "releasable m x"
  shows "\<exists>m'. free_table x m = Return m' \<and> mem m' = mem m \<and> pmm_inv (m_pmm m') \<and> same_config m m' \<and>
    free_tables m' = (if in_image m x then free_tables m else insert x (free_tables m))"
proof (cases "in_image m x")
  case True
  then have "\<not> (x < image_first m \<or> x \<ge> image_end m)" by (auto simp: in_image_def)
  then show ?thesis using assms(1) True by (simp add: free_table_def same_config_def)
next
  case False
  then have out: "x < image_first m \<or> x \<ge> image_end m" by (auto simp: in_image_def not_le not_less)
  have "unat x div 4096 < 4194304" using assms(4) False by (auto simp: releasable_def in_image_def)
  from release_frame [OF assms(1-3) this]
  show ?thesis using out False by (auto simp: free_table_def same_config_def)
qed

lemma prune_step:
  assumes inv: "tree_inv m root" and va: "valid va" and level: "1 \<le> level" "level < 4"
    and up: "path_upto (mem m) LEVELS root va level p" and empty: "is_table_empty (tables p level) m"
  shows "\<exists>m'. free_table (tables p level) (replace (slots p (level + 1)) 0 va m) = Return m' \<and>
    tree_shrink m m' root \<and> leaf_at m' root = leaf_at m root \<and>
    path_upto (mem m') LEVELS root va (level + 1) p"
proof -
  let ?X = "tables p level" and ?T = "tables p (level + 1)" and ?k = "pt_index (level + 1) va"
  obtain n where n: "level = Suc n" using level by (cases level) auto
  have pt: "path_table (mem m) LEVELS root va level = Some ?X"
      "path_table (mem m) LEVELS root va (level + 1) = Some ?T" "slots p (level + 1) = slot_at ?T ?k"
    using up level unfolding path_upto_def LEVELS_def by auto
  have tab: "is_table (entry (mem m) ?T ?k) (level + 1)" "?X = pte_address (entry (mem m) ?T ?k)"
    using path_table_step [of "mem m" LEVELS root va n ?X ?T] pt by (simp_all add: n)
  note I = tree_invD [OF inv]
  have X: "?X \<in> owned (mem m) LEVELS root" by (rule path_table_owned [OF pt(1)])
  then have frX: "frame_address ?X" "?X \<notin> free_tables m" "releasable m ?X"
    using owned_frame [OF sub_invD(1) [OF I(1)]] sub_invD(3) [OF I(1)] I(2) by auto
  have zero: "entry (mem m) ?X i = 0" if "i < 512" for i
    using empty that by (simp add: is_table_empty_def ENTRIES_def list_all_iff)
  note emp = empty_table [where r = "mem m", OF frX(1) zero, of n, folded n]
  have below: "below (mem m) level (entry (mem m) ?T ?k) = {?X}"
    using tab emp(2) by (simp add: below_def)
  define m1 where "m1 = replace (slots p (level + 1)) 0 va m"
  have m1: "mem m1 = (mem m)(slot_at ?T ?k := 0)" "m_pmm m1 = m_pmm m" "same_config m m1"
    unfolding m1_def pt(3) by (simp_all add: same_config_def)
  have e0: "\<not> is_table 0 (level + 1)" "present 0 \<Longrightarrow> leaf_ok (level + 1) 0"
    by (simp_all add: is_table_def present_def)
  note W = write_leaf [OF inv va _ _ pt(2) e0 m1, unfolded add_diff_cancel_right' below]
  have W1: "tree_inv m1 root" "owned (mem m1) LEVELS root = owned (mem m) LEVELS root - {?X}"
      "\<And>j. level + 1 \<le> j \<Longrightarrow> path_table (mem m1) LEVELS root va j = path_table (mem m) LEVELS root va j"
    using W(1-3) level by auto
  have as: "leaf_at m1 root va' = leaf_at m root va'" for va'
  proof (cases "drop_bit (page_shift (level + 1)) va' = drop_bit (page_shift (level + 1)) va")
    case True
    then have va': "valid va'"
      using valid_in_page [OF True] va level by simp
    then have "same_page (level + 1) LEVELS va va'"
      using same_page_iff [OF va va', of "level + 1"] True level by (simp add: LEVELS_def)
    then have "find_leaf (mem m) LEVELS root va' = entry_find (mem m) level (entry (mem m) ?T ?k) va'"
      using path_table_find [OF pt(2), of level va'] by simp
    then have "leaf_at m root va' = None"
      using emp(3) tab va' by (simp add: leaf_at_def entry_find_def is_table_def)
    then show ?thesis using W(4) [of va'] True level by (simp add: present_def)
  next
    case False
    then show ?thesis using W(4) [of va'] level by simp
  qed
  have f1: "free_tables m1 = free_tables m" "in_image m1 ?X = in_image m ?X" "releasable m1 ?X"
    using m1(2,3) frX(3) by (auto simp: free_tables_def in_image_def same_config_def releasable_def)
  obtain m2 where m2: "free_table ?X m1 = Return m2" "mem m2 = mem m1" "pmm_inv (m_pmm m2)"
      "same_config m1 m2" "free_tables m2 = (if in_image m ?X then free_tables m else insert ?X (free_tables m))"
    using free_table_spec [of m1 ?X] sub_invD(2) [OF I(1)] m1(2) frX f1 by auto
  have cfg: "same_config m m2" using m1(3) m2(4) by (simp add: same_config_def)
  have inv2: "tree_inv m2 root"
    unfolding tree_inv_def sub_inv_def m2(2)
    using tree_invD [OF W1(1)] sub_invD [OF tree_invD(1) [OF W1(1)]] m2(3,5) f1(1) W1(2)
      releasable_config [OF m2(4)] by auto
  then have "tree_shrink m m2 root"
    unfolding tree_shrink_def m2(2) using cfg W1(2) m2(5) X by auto
  moreover have "leaf_at m2 root = leaf_at m root"
  proof (rule ext)
    fix va'
    have "leaf_at m2 root va' = leaf_at m1 root va'" by (simp add: leaf_at_def m2(2))
    then show "leaf_at m2 root va' = leaf_at m root va'" using as by simp
  qed
  moreover have "path_upto (mem m2) LEVELS root va (level + 1) p"
    using up W1(3) unfolding path_upto_def m2(2) by auto
  ultimately show ?thesis using m2(1) m1_def by blast
qed

lemma tree_shrink_refl: "tree_inv m root \<Longrightarrow> tree_shrink m m root"
  by (simp add: tree_shrink_def same_config_def)

lemma prune_spec:
  assumes "tree_inv m root" "valid va" "1 \<le> level" "level + n = 4"
    "path_upto (mem m) LEVELS root va level p"
  shows "\<exists>m'. prune_loop p va level n m = Return m' \<and> tree_shrink m m' root \<and>
    leaf_at m' root = leaf_at m root"
  using assms
proof (induction n arbitrary: level m)
  case 0
  then show ?case using tree_shrink_refl by auto
next
  case (Suc n)
  show ?case
  proof (cases "is_table_empty (tables p level) m")
    case False
    then show ?thesis using Suc.prems tree_shrink_refl by auto
  next
    case True
    obtain m1 where m1: "free_table (tables p level) (replace (slots p (level + 1)) 0 va m) = Return m1"
        "tree_shrink m m1 root" "leaf_at m1 root = leaf_at m root"
        "path_upto (mem m1) LEVELS root va (level + 1) p"
      using prune_step [OF Suc.prems(1-3) _ Suc.prems(5) True] Suc.prems(4) by auto
    have "tree_inv m1 root" using m1(2) by (simp add: tree_shrink_def)
    then obtain m2 where "prune_loop p va (level + 1) n m1 = Return m2" "tree_shrink m1 m2 root"
        "leaf_at m2 root = leaf_at m1 root"
      using Suc.IH [of m1 "level + 1"] Suc.prems m1(4) by auto
    then show ?thesis using m1 True tree_shrink_trans by (auto simp: Let_def)
  qed
qed

section \<open>Removing a leaf\<close>

lemma walk_end_present:
  "walk_end r l t va target = Some (lv, T) \<Longrightarrow> lv \<noteq> target \<Longrightarrow> present (entry r T (pt_index lv va))"
  by (induction l arbitrary: t) (auto simp: Let_def split: if_splits)

text \<open>The walk that looks for the leaf of an address, as a case distinction.\<close>

lemma walk_to_end:
  assumes "valid va"
  obtains (none) "walk root va 1 False m = Return (Err NOT_MAPPED, m)" "address_space m root va = None"
  | (slot) p lv T where "walk root va 1 False m = Return (Ok p, m)" "reached_level p = lv" "1 \<le> lv" "lv \<le> 4"
      "path_upto (mem m) LEVELS root va lv p" "slots p lv = slot_at T (pt_index lv va)"
      "path_table (mem m) LEVELS root va lv = Some T"
      "find_leaf (mem m) LEVELS root va =
        (if present (entry (mem m) T (pt_index lv va)) then Some (lv, entry (mem m) T (pt_index lv va)) else None)"
      "lv = 1 \<or> present (entry (mem m) T (pt_index lv va))"
proof -
  have W: "case walk_end (mem m) LEVELS root va 1 of
      None \<Rightarrow> walk root va 1 False m = Return (Err NOT_MAPPED, m)
    | Some (lv, T) \<Rightarrow> (\<exists>p. walk root va 1 False m = Return (Ok p, m) \<and>
        reached_level p = lv \<and> tables p lv = T \<and> path_upto (mem m) LEVELS root va lv p \<and>
        (\<forall>j>LEVELS. tables p j = tables empty_path j \<and> slots p j = slots empty_path j))"
    unfolding walk_def by (rule walk_False_spec) (simp_all add: LEVELS_def)
  show thesis
  proof (cases "walk_end (mem m) LEVELS root va 1")
    case None
    then show thesis
      using W that(1) walk_end_find [of "mem m" LEVELS root va] by (simp add: address_space_xlate xlate_def)
  next
    case (Some x)
    obtain lv T where x: "x = (lv, T)" by force
    obtain p where p: "walk root va 1 False m = Return (Ok p, m)" "reached_level p = lv"
        "tables p lv = T" "path_upto (mem m) LEVELS root va lv p"
      using W Some x by auto
    have lv: "1 \<le> lv" "lv \<le> 4"
      using walk_end_bound [of "mem m" LEVELS root va 1 lv T] Some x by (simp_all add: LEVELS_def)
    then have "path_table (mem m) LEVELS root va lv = Some T" "slots p lv = slot_at T (pt_index lv va)"
      using p(3,4) unfolding path_upto_def LEVELS_def by auto
    moreover have "lv = 1 \<or> present (entry (mem m) T (pt_index lv va))"
      using walk_end_present [of "mem m" LEVELS root va 1 lv T] Some x by auto
    ultimately show thesis
      using that(2) p lv Some x by (simp add: walk_end_find Let_def)
  qed
qed

lemma find_leaf_ok:
  assumes "tree_wf r l t" "find_leaf r l t va = Some (lv, e)"
  shows "present e" "leaf e lv" "leaf_ok lv e"
proof -
  have "present e \<and> leaf e lv \<and> leaf_ok lv e"
    using assms
  proof (induction l arbitrary: t)
    case (Suc l)
    then show ?case by (auto simp: Let_def split: if_splits)
  qed simp
  then show "present e" "leaf e lv" "leaf_ok lv e" by blast+
qed

lemma remove_leaf_spec:
  assumes inv: "tree_inv m root" and va: "valid va"
  shows "case find_leaf (mem m) LEVELS root va of
      None \<Rightarrow> remove_leaf root va m = Return (Err NOT_MAPPED, m)
    | Some (lv, e) \<Rightarrow> (\<exists>m'. remove_leaf root va m =
          Return (Ok \<lparr>mp_frame = pte_address e, mp_offset = 0, mp_size = size_at lv, mp_prot = pte_prot e\<rparr>, m') \<and>
        lv \<in> {1, 2, 3} \<and> tree_shrink m m' root \<and>
        (\<forall>va'. leaf_at m' root va' =
           (if drop_bit (page_shift lv) va' = drop_bit (page_shift lv) va then None
            else leaf_at m root va')))"
proof (rule walk_to_end [OF va, of root m], goal_cases)
  case none: 1
  then have "find_leaf (mem m) LEVELS root va = None"
    using va by (simp add: address_space_xlate xlate_def)
  then show ?thesis using none(1) va by (simp add: remove_leaf_def)
next
  case slot: (2 p lv T)
  let ?slot = "slot_at T (pt_index lv va)"
  let ?e = "mem m ?slot"
  show ?thesis
  proof (cases "present ?e")
    case False
    then show ?thesis using slot va by (simp add: remove_leaf_def Let_def mm_fail_def)
  next
    case True
    then have find: "find_leaf (mem m) LEVELS root va = Some (lv, ?e)" using slot(8) by simp
    note ok = find_leaf_ok [OF sub_invD(1) [OF tree_invD(1) [OF inv]] find]
    define m1 where "m1 = replace ?slot 0 va m"
    have m1: "mem m1 = (mem m)(?slot := 0)" "m_pmm m1 = m_pmm m" "same_config m m1"
      by (simp_all add: m1_def same_config_def)
    have e0: "\<not> is_table 0 lv" "present 0 \<Longrightarrow> leaf_ok lv 0" by (simp_all add: is_table_def present_def)
    note W = write_leaf [OF inv va slot(3,4,7) e0 m1]
    have "below (mem m) (lv - 1) ?e = {}"
      using ok(2) slot(3) by (simp add: below_def is_table_def)
    then have own: "owned (mem m1) LEVELS root = owned (mem m) LEVELS root" using W(2) by simp
    have "path_upto (mem m1) LEVELS root va lv p"
      using slot(5) W(3) by (auto simp: path_upto_def)
    moreover have "lv + (LEVELS - lv) = 4" using slot(4) by (simp add: LEVELS_def)
    ultimately obtain m2 where m2: "prune p lv va m1 = Return m2" "tree_shrink m1 m2 root"
        "leaf_at m2 root = leaf_at m1 root"
      using prune_spec [OF W(1) va slot(3)] unfolding prune_def by blast
    have "tree_shrink m m1 root"
      using W(1) m1 own unfolding tree_shrink_def free_tables_def by auto
    then have "tree_shrink m m2 root" using m2(2) tree_shrink_trans by blast
    moreover have "lv \<in> {1, 2, 3}" using ok(3) by (simp add: leaf_ok_def)
    moreover have "remove_leaf root va m =
        Return (Ok \<lparr>mp_frame = pte_address ?e, mp_offset = 0, mp_size = size_at lv, mp_prot = pte_prot ?e\<rparr>, m2)"
      using slot va True m2(1) by (simp add: remove_leaf_def Let_def m1_def mm_ok_def)
    moreover have "leaf_at m2 root va' =
        (if drop_bit (page_shift lv) va' = drop_bit (page_shift lv) va then None else leaf_at m root va')" for va'
      using W(4) [of va'] m2(3) by (simp add: present_def)
    ultimately show ?thesis using find by auto
  qed
qed

section \<open>Changing the protection of a leaf\<close>

lemma same_page_refl [simp]: "same_page target upper va va"
  by (simp add: same_page_def)

lemma walk_end_none: "walk_end r l t va target = None \<Longrightarrow> 1 \<le> target \<Longrightarrow> target \<le> l \<Longrightarrow> find_leaf r l t va = None"
proof (induction l arbitrary: t)
  case (Suc l)
  then show ?case by (cases "target \<le> l") (auto simp: Let_def split: if_splits)
qed simp

lemma leaf_on_path:
  assumes inv: "tree_inv m root" and va: "valid va" and target: "1 \<le> target" "target \<le> 4"
    and path: "path_table (mem m) LEVELS root va target = Some T"
    and e: "e = entry (mem m) T (pt_index target va)" "present e" "leaf e target"
  shows "leaf_ok target e"
    "drop_bit (page_shift target) va' = drop_bit (page_shift target) va \<Longrightarrow>
       address_space m root va' = Some (leaf_target va' (target, e))"
proof -
  obtain n where n: "target = Suc n" using target by (cases target) auto
  have ef: "entry_find (mem m) n e va'' = Some (target, e)" for va''
    using e(2,3) by (simp add: entry_find_def n)
  have find: "find_leaf (mem m) LEVELS root va'' = Some (target, e)" if "same_page target LEVELS va va''" for va''
    using path_table_find [OF path n that] ef e(1) by simp
  show "leaf_ok target e"
    using find_leaf_ok(3) [OF sub_invD(1) [OF tree_invD(1) [OF inv]] find [OF same_page_refl]] .
  assume eq: "drop_bit (page_shift target) va' = drop_bit (page_shift target) va"
  have va': "valid va'" using valid_in_page [OF eq] va target by simp
  have "same_page target LEVELS va va'"
    using same_page_iff [OF va va' target(2)] eq by (simp add: LEVELS_def)
  then show "address_space m root va' = Some (leaf_target va' (target, e))"
    using find va' by (simp add: address_space_xlate xlate_def)
qed

lemma walk_to_leaf_spec:
  assumes inv: "tree_inv m root" and target: "target \<in> {1, 2, 3}"
  shows "\<exists>r m'. walk_to_leaf root va target m = Return (r, m') \<and> tree_inv m' root \<and> same_config m m' \<and>
    address_space m' root = address_space m root \<and>
    (case r of
       Ok p \<Rightarrow> (\<exists>T. path_table (mem m') LEVELS root va target = Some T \<and>
                   slots p target = slot_at T (pt_index target va) \<and>
                   present (mem m' (slots p target)) \<and> leaf (mem m' (slots p target)) target)
     | Err e \<Rightarrow> e \<in> {NOT_MAPPED, CONFLICT, OUT_OF_MEMORY})"
proof -
  have le: "1 \<le> target" "target \<le> LEVELS" using target by (auto simp: LEVELS_def)
  have fin: "\<exists>r m'. (\<lambda>path m. if \<not> present (mem m (slots path target)) then mm_fail NOT_MAPPED m
       else if \<not> leaf (mem m (slots path target)) target then mm_fail CONFLICT m
       else mm_ok path m) p m1 = Return (r, m') \<and> tree_inv m' root \<and> same_config m m' \<and>
      address_space m' root = address_space m root \<and>
      (case r of Ok p \<Rightarrow> (\<exists>T. path_table (mem m') LEVELS root va target = Some T \<and>
                   slots p target = slot_at T (pt_index target va) \<and>
                   present (mem m' (slots p target)) \<and> leaf (mem m' (slots p target)) target)
       | Err e \<Rightarrow> e \<in> {NOT_MAPPED, CONFLICT, OUT_OF_MEMORY})"
    if "tree_inv m1 root" "same_config m m1" "address_space m1 root = address_space m root"
      "path_table (mem m1) LEVELS root va target = Some T" "slots p target = slot_at T (pt_index target va)"
    for p m1 T
    using that by (simp add: mm_fail_def mm_ok_def)
  show ?thesis
  proof (cases "walk_end (mem m) LEVELS root va target")
    case None
    then have "walk root va target False m = Return (Err NOT_MAPPED, m)"
      using walk_False_spec [OF le, where m = m and t = root and va = va and path = empty_path] by (simp add: walk_def)
    then show ?thesis using inv by (simp add: walk_to_leaf_def same_config_def)
  next
    case (Some x)
    obtain lv T where x: "x = (lv, T)" by force
    obtain p where p: "walk root va target False m = Return (Ok p, m)" "reached_level p = lv"
        "path_upto (mem m) LEVELS root va lv p"
      using walk_False_spec [OF le, where m = m and t = root and va = va and path = empty_path] Some x by (auto simp: walk_def)
    show ?thesis
    proof (cases "lv = target")
      case True
      then obtain T' where "path_table (mem m) LEVELS root va target = Some T'"
          "slots p target = slot_at T' (pt_index target va)"
        using p(3) le unfolding path_upto_def by auto
      then show ?thesis
        using fin [of m T' p] inv p True by (simp add: walk_to_leaf_def same_config_def)
    next
      case False
      then have big: "target < lv" using walk_end_target [of "mem m" LEVELS root va target lv T] Some x le by simp
      obtain res m1 where W: "walk root va target True m = Return (res, m1)" "tree_inv m1 root"
          "address_space m1 root = address_space m root" "same_config m m1"
          "case res of Ok p \<Rightarrow> walk_result m1 LEVELS root va target p | Err e \<Rightarrow> e = OUT_OF_MEMORY"
        using walk_alloc_root [OF inv target] by metis
      show ?thesis
      proof (cases res)
        case (Inl e)
        then show ?thesis using W p big by (simp add: walk_to_leaf_def)
      next
        case (Inr q)
        then obtain T' where "path_table (mem m1) LEVELS root va target = Some T'"
            "slots q target = slot_at T' (pt_index target va)"
          using W(5) by (auto simp: walk_result_def)
        then show ?thesis
          using fin [of m1 T' q] W p big Inr by (simp add: walk_to_leaf_def)
      qed
    qed
  qed
qed

lemma protect_leaf_spec:
  assumes inv: "tree_inv m root" and sz: "supported_size psize"
  shows "\<exists>r m'. protect_leaf root va psize p m = Return (r, m') \<and> tree_inv m' root \<and> same_config m m' \<and>
    (case r of
       Ok _ \<Rightarrow> valid va \<and> va AND (bytes_in psize - 1) = 0 \<and> va \<in> set (flushes m') \<and>
         address_space m root va \<noteq> None \<and>
         (\<forall>va'. address_space m' root va' =
            (if va' - va < bytes_in psize
             then map_option (\<lambda>(a, _). (a, effective_prot (feats m) p)) (address_space m root va')
             else address_space m root va'))
     | Err e \<Rightarrow> address_space m' root = address_space m root \<and>
         (e = INVALID_ADDRESS \<longleftrightarrow> \<not> valid va \<or> va AND (bytes_in psize - 1) \<noteq> 0))"
proof (cases "valid va \<and> va AND (bytes_in psize - 1) = 0")
  case False
  then show ?thesis
    using inv by (auto simp: protect_leaf_def validate_def mm_fail_def ktry_def same_config_def)
next
  case True
  let ?t = "level_of psize"
  have va: "valid va" and al: "take_bit (page_shift ?t) va = 0"
    using True aligned_iff [OF sz, of va 0] by auto
  have lt: "page_shift ?t < 64" using level_of_sizes(1) [OF sz] by auto
  have val: "validate va psize 0 = mm_ok ?t" using True by (simp add: validate_def)
  obtain r m1 where W: "walk_to_leaf root va ?t m = Return (r, m1)" "tree_inv m1 root" "same_config m m1"
      "address_space m1 root = address_space m root"
      "case r of
       Ok p \<Rightarrow> (\<exists>T. path_table (mem m1) LEVELS root va ?t = Some T \<and>
                   slots p ?t = slot_at T (pt_index ?t va) \<and>
                   present (mem m1 (slots p ?t)) \<and> leaf (mem m1 (slots p ?t)) ?t)
     | Err e \<Rightarrow> e \<in> {NOT_MAPPED, CONFLICT, OUT_OF_MEMORY}"
    using walk_to_leaf_spec [OF inv level_of_sizes(1) [OF sz], of va] by blast
  show ?thesis
  proof (cases r)
    case (Inl e)
    then show ?thesis using W True by (auto simp: protect_leaf_def val)
  next
    case (Inr path)
    then obtain T where T: "path_table (mem m1) LEVELS root va ?t = Some T"
        "slots path ?t = slot_at T (pt_index ?t va)"
        "present (entry (mem m1) T (pt_index ?t va))" "leaf (entry (mem m1) T (pt_index ?t va)) ?t"
      using W(5) by auto
    let ?slot = "slot_at T (pt_index ?t va)"
    let ?e = "mem m1 ?slot"
    let ?pte = "leaf_entry (feats m) (pte_address ?e) psize p"
    note L = leaf_on_path [OF W(2) va level_of_sizes(2,3) [OF sz] T(1) refl T(3,4)]
    have new: "\<not> is_table ?pte ?t" "leaf_ok ?t ?pte"
      using L(1) leaf_entry_kind(2) [OF sz] by (simp_all add: is_table_def leaf_ok_def)
    define m2 where "m2 = replace ?slot ?pte va m1"
    have m2: "mem m2 = (mem m1)(?slot := ?pte)" "m_pmm m2 = m_pmm m1" "same_config m1 m2"
      by (simp_all add: m2_def same_config_def)
    note S = write_leaf [OF W(2) va level_of_sizes(2,3) [OF sz] T(1) new m2]
    have "protect_leaf root va psize p m = Return (Ok (), m2)"
      using W(1,3) Inr T(2) by (simp add: protect_leaf_def val Let_def m2_def mm_ok_def same_config_def)
    moreover have "address_space m2 root va' =
        (if va' - va < bytes_in psize
         then map_option (\<lambda>(a, _). (a, effective_prot (feats m) p)) (address_space m root va')
         else address_space m root va')" for va'
      using S(5) [of va'] in_page_iff(1) [OF al lt, of va'] L(2) [of va'] W(4)
      by (simp add: leaf_target_def leaf_entry_prot level_of_sizes(5) [OF sz])
    moreover have "va \<in> set (flushes m2)" using T(3) by (simp add: m2_def replace_def Let_def)
    moreover have "address_space m root va \<noteq> None" using L(2) [of va] W(4) by simp
    ultimately show ?thesis
      using S(1) True W(3) m2(3) by (auto simp: same_config_def)
  qed
qed

end
