(* ===== verification/Address_Range.thy ===== *)
theory Address_Range
  imports Address_Space
begin

text \<open>
  Ranges of an address space: \<^verbatim>\<open>map_range\<close>, \<^verbatim>\<open>protect_range\<close> and \<^verbatim>\<open>unmap_range\<close>. The loop of
  \<^verbatim>\<open>for_each_leaf\<close> is verified once, for any operation on single leaves with a contract
  over the address space; mapping and protecting a leaf are its two instances.
\<close>

section \<open>An operation on single leaves\<close>

text \<open>Leaf \<open>i\<close> of a range, as a window of offsets from its start.\<close>

lemma window_iff:
  fixes d step :: u64
  assumes "(i + 1) * unat step < 2 ^ 64"
  shows "d - of_nat i * step < step \<longleftrightarrow> i * unat step \<le> unat d \<and> unat d < (i + 1) * unat step"
proof -
  have "i * unat step < 2 ^ 64" using assms by simp
  have "unat (of_nat i * step) = i * unat step"
  proof (cases "step = 0")
    case False
    then have "i < 2 ^ 64"
      using \<open>i * unat step < 2 ^ 64\<close> by (metis le_less_trans mult_le_mono2 mult.right_neutral
          unat_eq_0 Suc_leI neq0_conv One_nat_def)
    then have "unat (of_nat i :: u64) = i" by (intro unat_of_nat_small) simp
    then show ?thesis using \<open>i * unat step < 2 ^ 64\<close> by (simp add: unat_word_ariths)
  qed simp
  then have x: "unat (of_nat i * step) = i * unat step" .
  show ?thesis
  proof (cases "of_nat i * step \<le> d")
    case True
    then have "unat (d - of_nat i * step) = unat d - i * unat step"
      using x by (simp add: unat_minus_le)
    then show ?thesis using True x by (auto simp: word_less_nat_alt word_le_nat_alt)
  next
    case False
    then have lt: "unat d < i * unat step" using x by (simp add: word_le_nat_alt)
    have "unat (d - of_nat i * step) = 2 ^ 64 + unat d - i * unat step"
      using lt x \<open>i * unat step < 2 ^ 64\<close> by (simp add: unat_sub_if' )
    then show ?thesis using lt assms by (simp add: word_less_nat_alt)
  qed
qed

lemma leaf_size_supported:
  assumes "supported_size psize"
  shows "supported_size (leaf_size ft psize)"
proof -
  have "leaf_size_level ft 3 \<in> {2, 3}" "leaf_size_level ft 2 = 2" "leaf_size_level ft 1 = 1"
    by (auto simp: numeral_3_eq_3 numeral_2_eq_2 supports_def
        size_at_level_of [unfolded numeral_3_eq_3 numeral_2_eq_2])
  then have "leaf_size_level ft (level_of psize) \<in> {1, 2, 3}"
    using level_of_sizes(1) [OF assms] by auto
  then show ?thesis unfolding leaf_size_def by (auto simp: size_at_level_of)
qed

locale leaf_operation =
  fixes op :: "'a \<Rightarrow> vaddr_t \<Rightarrow> u64 \<Rightarrow> page_size \<Rightarrow> unit mm"
    and root_of :: "'a \<Rightarrow> paddr_t"
    and limit :: "'a \<Rightarrow> nat"
    and effect :: "features \<Rightarrow> 'a \<Rightarrow> u64 \<Rightarrow> (paddr_t \<times> page_prot) option \<Rightarrow> (paddr_t \<times> page_prot) option"
  assumes op_spec: "tree_inv m (root_of a) \<Longrightarrow> supported_size psize \<Longrightarrow> unat off < limit a \<Longrightarrow>
    \<exists>r m'. op a lf off psize m = Return (r, m') \<and> tree_inv m' (root_of a) \<and> same_config m m' \<and>
      (case r of
         Ok _ \<Rightarrow> \<forall>va'. address_space m' (root_of a) va' =
           (if va' - lf < bytes_in psize then effect (feats m) a (off + (va' - lf)) (address_space m (root_of a) va')
            else address_space m (root_of a) va')
       | Err e \<Rightarrow> address_space m' (root_of a) = address_space m (root_of a))"
begin

lemma leaf_loop_spec:
  assumes "tree_inv m (root_of a)" "supported_size psize" "step = bytes_in psize"
    "(i + n) * unat step < 2 ^ 64" "(i + n) * unat step \<le> limit a"
  shows "\<exists>r m' j. leaf_loop (op a) va step psize i n m = Return (r, m') \<and>
    tree_inv m' (root_of a) \<and> same_config m m' \<and> i \<le> j \<and> j \<le> i + n \<and> (j = i + n \<longleftrightarrow> \<not> isl r) \<and>
    (\<forall>va'. address_space m' (root_of a) va' =
       (if i * unat step \<le> unat (va' - va) \<and> unat (va' - va) < j * unat step
        then effect (feats m) a (va' - va) (address_space m (root_of a) va')
        else address_space m (root_of a) va'))"
  using assms
proof (induction n arbitrary: i m)
  case 0
  then show ?case by (auto simp: mm_ok_def same_config_def intro!: exI [of _ i])
next
  case (Suc n)
  let ?as = "\<lambda>m. address_space m (root_of a)"
  let ?lf = "va + of_nat i * step" and ?off = "of_nat i * step"
  have pos: "0 < unat step" using Suc.prems(2,3) by (auto simp: bytes_in_frames layout)
  have b: "(i + 1) * unat step \<le> (i + Suc n) * unat step" by (intro mult_le_mono1) simp
  have b1: "(i + 1) * unat step < 2 ^ 64" using b Suc.prems(4) by linarith
  have "i * unat step < (i + 1) * unat step" using pos by simp
  then have "i * unat step < limit a" using b Suc.prems(5) by linarith
  moreover have "unat ?off \<le> i * unat step"
    by (simp add: unat_word_ariths unat_of_nat) (metis (no_types) mod_less_eq_dividend mod_mult_left_eq)
  ultimately have lim: "unat ?off < limit a" by simp
  obtain r m1 where O: "op a ?lf ?off psize m = Return (r, m1)" "tree_inv m1 (root_of a)" "same_config m m1"
      "case r of Ok _ \<Rightarrow> \<forall>va'. ?as m1 va' =
           (if va' - ?lf < bytes_in psize then effect (feats m) a (?off + (va' - ?lf)) (?as m va') else ?as m va')
       | Err e \<Rightarrow> ?as m1 = ?as m"
    using op_spec [OF Suc.prems(1,2) lim, of ?lf] by auto
  show ?case
  proof (cases r)
    case (Inl e)
    then have "leaf_loop (op a) va step psize i (Suc n) m = Return (Err e, m1)" using O(1) by simp
    then show ?thesis using O Inl by (intro exI [of _ "Err e"] exI [of _ m1] exI [of _ i]) auto
  next
    case (Inr u)
    have ft: "feats m1 = feats m" using O(3) by (simp add: same_config_def)
    have as1: "?as m1 va' = (if i * unat step \<le> unat (va' - va) \<and> unat (va' - va) < (i + 1) * unat step
        then effect (feats m) a (va' - va) (?as m va') else ?as m va')" for va'
    proof -
      have eq: "va' - ?lf = va' - va - of_nat i * step" "?off + (va' - ?lf) = va' - va" by simp_all
      have "?as m1 va' = (if va' - ?lf < step then effect (feats m) a (?off + (va' - ?lf)) (?as m va')
          else ?as m va')"
        using O(4) unfolding Inr Suc.prems(3) sum.case by blast
      then show ?thesis unfolding eq(2) unfolding eq(1) window_iff [OF b1] .
    qed
    have "(i + 1 + n) * unat step < 2 ^ 64" "(i + 1 + n) * unat step \<le> limit a"
      using Suc.prems(4,5) by simp_all
    from Suc.IH [OF O(2) Suc.prems(2,3) this]
    obtain r' m2 j where R: "leaf_loop (op a) va step psize (i + 1) n m1 = Return (r', m2)"
        "tree_inv m2 (root_of a)" "same_config m1 m2" "i + 1 \<le> j" "j \<le> i + 1 + n" "j = i + 1 + n \<longleftrightarrow> \<not> isl r'"
        "\<And>va'. ?as m2 va' = (if (i + 1) * unat step \<le> unat (va' - va) \<and> unat (va' - va) < j * unat step
           then effect (feats m1) a (va' - va) (?as m1 va') else ?as m1 va')"
      by blast
    have "leaf_loop (op a) va step psize i (Suc n) m = Return (r', m2)" using O(1) Inr R(1) by simp
    moreover have "?as m2 va' = (if i * unat step \<le> unat (va' - va) \<and> unat (va' - va) < j * unat step
           then effect (feats m) a (va' - va) (?as m va') else ?as m va')" for va'
    proof -
      have "(i + 1) * unat step \<le> j * unat step" using R(4) by (intro mult_le_mono1)
      moreover have "i * unat step \<le> (i + 1) * unat step" by simp
      ultimately show ?thesis unfolding R(7) as1 ft by auto
    qed
    moreover have "same_config m m2" using O(3) R(3) by (simp add: same_config_def)
    ultimately show ?thesis using R(2,4,5,6) by (intro exI [of _ r'] exI [of _ m2] exI [of _ j]) auto
  qed
qed

lemma for_each_spec:
  assumes "tree_inv m (root_of a)" "supported_size psize" "unat len \<le> limit a"
  shows "\<exists>r m' n. for_each_leaf va len psize (op a) m = Return (r, m') \<and>
    tree_inv m' (root_of a) \<and> same_config m m' \<and> n \<le> unat len \<and>
    (\<not> isl r \<longrightarrow> len \<noteq> 0 \<and> n = unat len) \<and>
    (\<forall>va'. address_space m' (root_of a) va' =
       (if unat (va' - va) < n then effect (feats m) a (va' - va) (address_space m (root_of a) va')
        else address_space m (root_of a) va'))"
proof -
  let ?sz = "leaf_size (feats m) psize" and ?step = "bytes_in (leaf_size (feats m) psize)"
  show ?thesis
  proof (cases "len = 0 \<or> len mod ?step \<noteq> 0")
    case True
    then show ?thesis
      using assms(1) by (auto simp: for_each_leaf_def Let_def mm_fail_def same_config_def intro!: exI [of _ 0])
  next
    case False
    let ?n = "unat (len div ?step)"
    have sz: "supported_size ?sz" by (rule leaf_size_supported [OF assms(2)])
    have "unat len mod unat ?step = 0" using False by (simp add: unat_mod_distrib flip: unat_eq_0)
    then have "unat ?step dvd unat len" by (simp add: dvd_eq_mod_eq_0)
    then have n: "?n * unat ?step = unat len" by (simp add: unat_div_distrib)
    have bound: "(0 + ?n) * unat ?step < 2 ^ 64" "(0 + ?n) * unat ?step \<le> limit a"
      using n unsigned_less [of len] assms(3) by simp_all
    from leaf_loop_spec [OF assms(1) sz refl bound, of va]
    obtain r m' j where R: "leaf_loop (op a) va ?step ?sz 0 ?n m = Return (r, m')"
        "tree_inv m' (root_of a)" "same_config m m'" "j \<le> ?n" "j = ?n \<longleftrightarrow> \<not> isl r"
        "\<And>va'. address_space m' (root_of a) va' = (if unat (va' - va) < j * unat ?step
           then effect (feats m) a (va' - va) (address_space m (root_of a) va')
           else address_space m (root_of a) va')"
      by auto
    have "j * unat ?step \<le> unat len" using R(4) n by (metis mult_le_mono1)
    moreover have "for_each_leaf va len psize (op a) m = Return (r, m')"
      using False R(1) by (simp add: for_each_leaf_def Let_def)
    moreover have "\<not> isl r \<Longrightarrow> j * unat ?step = unat len" using R(5) n by simp
    ultimately show ?thesis
      using R(2,3,6) False by (intro exI [of _ r] exI [of _ m'] exI [of _ "j * unat ?step"]) auto
  qed
qed

end

section \<open>Mapping and protecting\<close>

definition map_op :: "paddr_t \<times> paddr_t \<times> page_prot \<Rightarrow> vaddr_t \<Rightarrow> u64 \<Rightarrow> page_size \<Rightarrow> unit mm" where
  "map_op a lf off psize = map_leaf (fst a) lf (fst (snd a) + off) psize (snd (snd a))"

definition protect_op :: "paddr_t \<times> page_prot \<Rightarrow> vaddr_t \<Rightarrow> u64 \<Rightarrow> page_size \<Rightarrow> unit mm" where
  "protect_op a lf off psize = protect_leaf (fst a) lf psize (snd a)"

interpretation mapping: leaf_operation map_op fst "\<lambda>a. 2 ^ 52 - unat (fst (snd a))"
  "\<lambda>ft a d old. Some (fst (snd a) + d, effective_prot ft (snd (snd a)))"
proof (unfold_locales, goal_cases)
  case (1 m a psize off lf)
  let ?pa = "fst (snd a)"
  have "unat (?pa + off) = unat ?pa + unat off" using 1(3) by (intro unat_plus_small) simp
  then have "unat (?pa + off) < 2 ^ 52" using 1(3) by simp
  from map_leaf_spec [OF 1(1,2) this, of lf "snd (snd a)"]
  show ?case by (fastforce simp: map_op_def add.assoc tree_grow_def split: sum.splits)
qed

interpretation protecting: leaf_operation protect_op fst "\<lambda>_. 2 ^ 64"
  "\<lambda>ft a d old. map_option (\<lambda>(x, _). (x, effective_prot ft (snd a))) old"
proof (unfold_locales, goal_cases)
  case (1 m a psize off lf)
  from protect_leaf_spec [OF 1(1,2), of lf "snd a"]
  show ?case by (fastforce simp: protect_op_def split: sum.splits)
qed

section \<open>The operations implement an address space\<close>

text \<open>A machine with an empty tree at the table \<open>0x101000\<close> of the kernel image.\<close>

definition empty_machine :: machine where
  "empty_machine =
     \<lparr>mem = (\<lambda>_. 0), m_pmm = sample_pmm,
      feats = \<lparr>nx_enabled = True, global_pages_enabled = True, gib_pages_supported = False\<rparr>,
      flushes = [], image_first = 0x100000, image_end = 0x200000\<rparr>"

lemma empty_machine_inv: "tree_inv empty_machine 0x101000" "address_space empty_machine 0x101000 va = None"
proof -
  have fr: "frame_address 0x101000" by (simp add: frame_address_iff)
  have z: "entry (mem empty_machine) 0x101000 i = 0" for i by (simp add: empty_machine_def)
  have L: "LEVELS = Suc 3" by (simp add: LEVELS_def)
  note E = empty_table [where r = "mem empty_machine", OF fr z, of 3, folded L]
  have "0x101000 \<notin> free_tables empty_machine"
    using sample_pmm(2) by (simp add: free_tables_def empty_machine_def)
  then show "tree_inv empty_machine 0x101000"
    using E(1,2) sample_pmm(1)
    by (simp add: tree_inv_def sub_inv_def releasable_def) (simp add: empty_machine_def)
  show "address_space empty_machine 0x101000 va = None"
    using E(3) by (simp add: address_space_xlate xlate_def)
qed

text \<open>
  C12: \<^verbatim>\<open>translate\<close> evaluates the address space: a non-canonical address is
  \<^verbatim>\<open>INVALID_ADDRESS\<close>, an unmapped one \<^verbatim>\<open>NOT_MAPPED\<close>, and otherwise the physical address and
  the protection of the result are the ones the tree gives the address. The machine is
  left as it was.
\<close>

lemma translate_correct:
  "\<exists>r. translate root va m = Return (r, m) \<and>
     (case r of
        Ok info \<Rightarrow> valid va \<and> address_space m root va = Some (physical info, mp_prot info)
      | Err e \<Rightarrow> e = (if valid va then NOT_MAPPED else INVALID_ADDRESS) \<and> address_space m root va = None)"
proof (cases "valid va")
  case True
  then show ?thesis
    unfolding translate_spec [OF True]
    by (auto simp: address_space_xlate xlate_def leaf_target_def physical_def split: option.splits)
next
  case False
  then show ?thesis by (simp add: translate_def mm_fail_def address_space_xlate)
qed

lemma map_range_spec:
  assumes "tree_inv m root" "supported_size psize" "unat pa + unat len \<le> 2 ^ 52"
  shows "\<exists>r m' n. map_range root va pa len psize p m = Return (r, m') \<and> tree_inv m' root \<and>
    n \<le> unat len \<and> (\<not> isl r \<longrightarrow> len \<noteq> 0 \<and> n = unat len) \<and>
    (\<forall>va'. address_space m' root va' =
       (if unat (va' - va) < n then Some (pa + (va' - va), effective_prot (feats m) p)
        else address_space m root va'))"
proof -
  have "(\<lambda>lf offset leaf_sz. map_leaf root lf (pa + offset) leaf_sz p) = map_op (root, pa, p)"
    by (intro ext) (simp add: map_op_def)
  then have "map_range root va pa len psize p = for_each_leaf va len psize (map_op (root, pa, p))"
    by (simp only: map_range_def)
  then show ?thesis
    using mapping.for_each_spec [of m "(root, pa, p)" psize len va] assms by fastforce
qed

text \<open>
  C10: \<^verbatim>\<open>map_range\<close> returns on every well-formed tree, keeps the tree invariant, and maps a
  prefix of the range to the corresponding physical bytes with the protection the machine
  can give; no other translation changes, whether tables were added or large pages split
  on the way. On success the prefix is the whole range.
\<close>

lemma map_range_correct:
  assumes "tree_inv m root" "supported_size psize" "unat pa + unat len \<le> 2 ^ 52"
  shows "\<exists>r m' n. map_range root va pa len psize p m = Return (r, m') \<and> tree_inv m' root \<and>
    n \<le> unat len \<and> (\<not> isl r \<longrightarrow> len \<noteq> 0 \<and> n = unat len) \<and>
    (\<forall>va'. address_space m' root va' =
       (if unat (va' - va) < n then Some (pa + (va' - va), effective_prot (feats m) p)
        else address_space m root va'))"
  using map_range_spec [OF assms] .

lemma map_range_correct_witness:
  "\<exists>r m' n. map_range 0x101000 0xffff800000000000 0 0x200000 SIZE_2M KERNEL_DATA empty_machine = Return (r, m') \<and>
     tree_inv m' 0x101000 \<and> n \<le> 0x200000 \<and>
     (\<forall>va. address_space m' 0x101000 va =
        (if unat (va - 0xffff800000000000) < n then Some (va - 0xffff800000000000, effective_prot (feats empty_machine) KERNEL_DATA)
         else None))"
proof -
  obtain r m' n where R: "map_range 0x101000 0xffff800000000000 0 0x200000 SIZE_2M KERNEL_DATA empty_machine = Return (r, m')"
      "tree_inv m' 0x101000" "n \<le> unat (0x200000 :: u64)"
      "\<And>va. address_space m' 0x101000 va =
        (if unat (va - 0xffff800000000000) < n then Some (0 + (va - 0xffff800000000000), effective_prot (feats empty_machine) KERNEL_DATA)
         else address_space empty_machine 0x101000 va)"
    using map_range_correct [OF empty_machine_inv(1), of SIZE_2M 0 "0x200000" "0xffff800000000000" KERNEL_DATA]
    by auto
  have "n \<le> 0x200000" using R(3) by simp
  moreover have "address_space m' 0x101000 va =
        (if unat (va - 0xffff800000000000) < n then Some (va - 0xffff800000000000, effective_prot (feats empty_machine) KERNEL_DATA)
         else None)" for va
    using R(4) [of va] by (simp add: empty_machine_inv(2))
  ultimately show ?thesis using R(1,2) by blast
qed

text \<open>
  \<^verbatim>\<open>protect_range\<close> returns on every well-formed tree, keeps the tree invariant and
  changes the protection, never the physical address, of a prefix of the range; the rest of
  the address space is unchanged. On success the prefix is the whole range.
\<close>

lemma protect_range_correct:
  assumes "tree_inv m root" "supported_size psize"
  shows "\<exists>r m' n. protect_range root va len psize p m = Return (r, m') \<and> tree_inv m' root \<and>
    n \<le> unat len \<and> (\<not> isl r \<longrightarrow> len \<noteq> 0 \<and> n = unat len) \<and>
    (\<forall>va'. address_space m' root va' =
       (if unat (va' - va) < n
        then map_option (\<lambda>(pa, _). (pa, effective_prot (feats m) p)) (address_space m root va')
        else address_space m root va'))"
proof -
  have "(\<lambda>lf _ leaf_sz. protect_leaf root lf leaf_sz p) = protect_op (root, p)"
    by (intro ext) (simp add: protect_op_def)
  then have op: "protect_range root va len psize p = for_each_leaf va len psize (protect_op (root, p))"
    by (simp only: protect_range_def)
  have "unat len < 2 ^ LENGTH(64)" by (rule unsigned_less)
  then have "unat len \<le> 2 ^ 64" by simp
  then show ?thesis
    unfolding op using protecting.for_each_spec [of m "(root, p)" psize len va] assms by fastforce
qed

text \<open>
  \<^verbatim>\<open>remove_leaf\<close> returns on every well-formed tree. It reports \<^verbatim>\<open>NOT_MAPPED\<close> exactly for an
  unmapped canonical address and changes nothing then; otherwise it returns the leaf that
  translated the address, unmaps exactly the page of that leaf, and every table that leaves
  the tree goes back to the allocator unless it belongs to the kernel image.
\<close>

lemma remove_leaf_correct:
  assumes "tree_inv m root"
  shows "\<exists>r m'. remove_leaf root va m = Return (r, m') \<and> tree_inv m' root \<and>
    (case r of
       Ok info \<Rightarrow> supported_size (mp_size info) \<and>
         address_space m root va =
           Some (mp_frame info + (va AND (bytes_in (mp_size info) - 1)), mp_prot info) \<and>
         (\<forall>va'. address_space m' root va' =
            (if drop_bit (shift_of (mp_size info)) va' = drop_bit (shift_of (mp_size info)) va then None
             else address_space m root va')) \<and>
         (\<forall>x\<in>owned (mem m) LEVELS root - owned (mem m') LEVELS root. x \<in> free_tables m' \<or> in_image m x)
     | Err e \<Rightarrow> m' = m \<and> e = (if valid va then NOT_MAPPED else INVALID_ADDRESS) \<and>
         address_space m root va = None)"
proof (cases "valid va")
  case False
  then show ?thesis using assms by (simp add: remove_leaf_def mm_fail_def address_space_xlate)
next
  case va: True
  note R = remove_leaf_spec [OF assms va]
  show ?thesis
  proof (cases "find_leaf (mem m) LEVELS root va")
    case None
    then show ?thesis using R va assms by (simp add: address_space_xlate xlate_def)
  next
    case (Some x)
    obtain lv e where x: "x = (lv, e)" by force
    let ?info = "\<lparr>mp_frame = pte_address e, mp_offset = 0, mp_size = size_at lv, mp_prot = pte_prot e\<rparr>"
    obtain m' where m': "remove_leaf root va m = Return (Ok ?info, m')" "lv \<in> {1, 2, 3}" "tree_shrink m m' root"
        "\<And>va'. leaf_at m' root va' =
           (if drop_bit (page_shift lv) va' = drop_bit (page_shift lv) va then None
            else leaf_at m root va')"
      using R Some x by auto
    have as: "address_space m' root va' =
           (if drop_bit (page_shift lv) va' = drop_bit (page_shift lv) va then None
            else address_space m root va')" for va'
      unfolding address_space_def m'(4) by simp
    have sz: "supported_size (size_at lv)" "shift_of (size_at lv) = page_shift lv"
      using m'(2) by (auto simp: size_at_level_of layout)
    have "address_space m root va = Some (leaf_target va (lv, e))"
      using Some x va by (simp add: address_space_xlate xlate_def)
    moreover have "tree_inv m' root"
        "\<forall>x\<in>owned (mem m) LEVELS root - owned (mem m') LEVELS root. x \<in> free_tables m' \<or> in_image m x"
      using m'(3) by (auto simp: tree_shrink_def)
    ultimately show ?thesis
      using m'(1) as sz by (auto simp: leaf_target_def)
  qed
qed

end
