(* ===== verification/Vmm_Service.thy ===== *)
theory Vmm_Service
  imports Address_Range Vmm_Correct
begin

text \<open>
  The virtual memory manager on top of the page-table tree and the frame allocator. The
  invariant of the whole: the allocation table is well formed, every page of an allocation
  is a small leaf that has a frame of its own, neither free nor a table, and nothing else
  is mapped in the window. From it follows that \<^verbatim>\<open>vmm::alloc\<close> and \<^verbatim>\<open>vmm::free\<close> never panic,
  lose no frame and roll back completely on failure.
\<close>

section \<open>Pages with their own frames\<close>

definition page_addr :: "vaddr_t \<Rightarrow> bool" where
  "page_addr p \<longleftrightarrow> valid p \<and> take_bit 12 p = 0"

definition page_frame :: "machine \<Rightarrow> paddr_t \<Rightarrow> vaddr_t \<Rightarrow> paddr_t" where
  "page_frame m root p = pte_address (snd (the (leaf_at m root p)))"

definition backed :: "machine \<Rightarrow> paddr_t \<Rightarrow> vaddr_t set \<Rightarrow> bool" where
  "backed m root P \<longleftrightarrow> tree_inv m root \<and> inj_on (page_frame m root) P \<and>
     (\<forall>p\<in>P. page_addr p \<and> (\<exists>e. leaf_at m root p = Some (1, e)) \<and>
        unat (page_frame m root p) div 4096 < 4194304 \<and>
        page_frame m root p \<notin> free_tables m \<union> owned (mem m) LEVELS root)"

definition footprint :: "machine \<Rightarrow> paddr_t \<Rightarrow> vaddr_t set \<Rightarrow> paddr_t set" where
  "footprint m root P = free_tables m \<union> owned (mem m) LEVELS root \<union> page_frame m root ` P"

text \<open>No frame is lost, except static tables of the kernel image, and none appears.\<close>

definition frames_kept :: "paddr_t \<Rightarrow> machine \<Rightarrow> vaddr_t set \<Rightarrow> machine \<Rightarrow> vaddr_t set \<Rightarrow> bool" where
  "frames_kept root m P m' P' \<longleftrightarrow>
     same_config m m' \<and> footprint m' root P' \<subseteq> footprint m root P \<and>
     (\<forall>x\<in>footprint m root P. x \<in> footprint m' root P' \<or> in_image m x)"

lemma frames_kept_trans:
  "frames_kept root m P m1 P1 \<Longrightarrow> frames_kept root m1 P1 m2 P2 \<Longrightarrow> frames_kept root m P m2 P2"
  unfolding frames_kept_def same_config_def in_image_def by auto

lemma frames_kept_refl: "frames_kept root m P m P"
  by (simp add: frames_kept_def same_config_def)

lemma page_addr_eq:
  assumes "page_addr p" "page_addr q"
  shows "q - p < 4096 \<longleftrightarrow> q = p"
proof -
  have "drop_bit 12 q = drop_bit 12 p \<longleftrightarrow> q - p < 2 ^ 12"
    using assms(1) by (intro in_page_iff(1)) (simp_all add: page_addr_def)
  moreover have "push_bit 12 (drop_bit 12 q) = q" "push_bit 12 (drop_bit 12 p) = p"
    using bits_ident [of 12 q] bits_ident [of 12 p] assms by (simp_all add: page_addr_def)
  then have "drop_bit 12 q = drop_bit 12 p \<longleftrightarrow> q = p" by metis
  ultimately show ?thesis by simp
qed

lemma frame_address_page_frame [simp]: "frame_address (page_frame m root p)"
  by (simp add: page_frame_def)

lemma page_frame_cong: "leaf_at m' root p = leaf_at m root p \<Longrightarrow> page_frame m' root p = page_frame m root p"
  by (simp add: page_frame_def)

section \<open>Releasing pages\<close>

lemma remove_page:
  assumes B: "backed m root P" and p: "p \<in> P"
  shows "\<exists>info m1 m2. remove_leaf root p m = Return (Ok info, m1) \<and> mp_size info = SIZE_4K \<and>
    free_removed info m1 = Return m2 \<and> backed m2 root (P - {p}) \<and>
    (\<forall>va. leaf_at m2 root va = (if va - p < 4096 then None else leaf_at m root va)) \<and>
    frames_kept root m P m2 (P - {p})"
proof -
  let ?F = "page_frame m root p"
  have inv: "tree_inv m root" and pa: "page_addr p"
    and nF: "unat ?F div 4096 < 4194304" "?F \<notin> free_tables m" "?F \<notin> owned (mem m) LEVELS root"
    using B p unfolding backed_def by auto
  obtain e where e: "leaf_at m root p = Some (1, e)" using B p unfolding backed_def by auto
  have v: "valid p" using pa by (simp add: page_addr_def)
  have F: "?F = pte_address e" by (simp add: page_frame_def e)
  let ?info = "\<lparr>mp_frame = ?F, mp_offset = 0, mp_size = SIZE_4K, mp_prot = pte_prot e\<rparr>"
  have "find_leaf (mem m) LEVELS root p = Some (1, e)" using e v by (simp add: leaf_at_def)
  then obtain m1 where m1: "remove_leaf root p m = Return (Ok ?info, m1)" "tree_shrink m m1 root"
      "\<And>va. leaf_at m1 root va = (if drop_bit 12 va = drop_bit 12 p then None else leaf_at m root va)"
    using remove_leaf_spec [OF inv v] F by (auto simp: size_at_level_of)
  have page: "drop_bit 12 va = drop_bit 12 p \<longleftrightarrow> va - p < 4096" for va
    using in_page_iff(1) [of 12 p va] pa by (simp add: page_addr_def)
  note sh = m1(2) [unfolded tree_shrink_def]
  have I1: "tree_inv m1 root" and nF1: "?F \<notin> free_tables m1" using sh nF by auto
  obtain s where s: "pmm_free SIZE_4K ?F (m_pmm m1) = Return s" "pmm_inv s"
      "free_tables (m1\<lparr>m_pmm := s\<rparr>) = insert ?F (free_tables m1)"
    using release_frame [OF sub_invD(2) [OF tree_invD(1) [OF I1]] _ nF1 nF(1)] by auto
  define m2 where "m2 = m1\<lparr>m_pmm := s\<rparr>"
  have cfg: "same_config m1 m2" "mem m2 = mem m1" "free_tables m2 = insert ?F (free_tables m1)"
    using s(3) by (simp_all add: m2_def same_config_def)
  have at: "leaf_at m2 root va = (if va - p < 4096 then None else leaf_at m root va)" for va
  proof -
    have "leaf_at m2 root va = leaf_at m1 root va" by (simp add: leaf_at_def cfg(2))
    then show ?thesis using m1(3) [of va] page [of va] by simp
  qed
  have own: "owned (mem m2) LEVELS root \<subseteq> owned (mem m) LEVELS root" using sh cfg(2) by auto
  have I2: "tree_inv m2 root"
    using I1 s(2) nF(3) own releasable_config [OF cfg(1)]
    unfolding tree_inv_def sub_inv_def cfg(2,3) by (auto simp: m2_def)
  have keep: "leaf_at m2 root q = leaf_at m root q" if "q \<in> P - {p}" for q
    using that at [of q] page_addr_eq [OF pa, of q] B unfolding backed_def by auto
  have pf: "page_frame m2 root q = page_frame m root q" if "q \<in> P - {p}" for q
    by (rule page_frame_cong [OF keep [OF that]])
  have inj: "inj_on (page_frame m root) P" using B by (simp add: backed_def)
  have ne: "page_frame m root q \<noteq> ?F" if "q \<in> P - {p}" for q
    using that inj p by (auto dest: inj_onD)
  have "backed m2 root (P - {p})"
    unfolding backed_def
  proof (intro conjI ballI)
    show "inj_on (page_frame m2 root) (P - {p})"
      using inj pf by (auto simp: inj_on_def)
    fix q assume q: "q \<in> P - {p}"
    have Q: "page_addr q" "\<exists>e. leaf_at m root q = Some (1, e)" "unat (page_frame m root q) div 4096 < 4194304"
        "page_frame m root q \<notin> free_tables m \<union> owned (mem m) LEVELS root"
      using B q unfolding backed_def by auto
    then show "page_addr q" "\<exists>e. leaf_at m2 root q = Some (1, e)" "unat (page_frame m2 root q) div 4096 < 4194304"
      using keep [OF q] pf [OF q] by auto
    show "page_frame m2 root q \<notin> free_tables m2 \<union> owned (mem m2) LEVELS root"
      using Q(4) ne [OF q] sh own unfolding pf [OF q] cfg(3) by auto
  qed (rule I2)
  moreover have "frames_kept root m P m2 (P - {p})"
  proof -
    have img: "page_frame m2 root ` (P - {p}) = page_frame m root ` (P - {p})" using pf by (auto simp: image_iff)
    have "page_frame m root ` P = insert ?F (page_frame m root ` (P - {p}))" using p by auto
    then have "footprint m root P = free_tables m \<union> owned (mem m) LEVELS root \<union> insert ?F (page_frame m root ` (P - {p}))"
        "footprint m2 root (P - {p}) = free_tables m1 \<union> owned (mem m1) LEVELS root \<union> insert ?F (page_frame m root ` (P - {p}))"
      by (auto simp: footprint_def img cfg(2,3))
    then show ?thesis using sh cfg(1) unfolding frames_kept_def same_config_def by auto
  qed
  moreover have "free_removed ?info m1 = Return m2" using s(1) by (simp add: free_removed_def m2_def)
  ultimately show ?thesis using m1(1) at by (intro exI [of _ ?info] exI [of _ m1] exI [of _ m2]) simp
qed

definition pg :: "vaddr_t \<Rightarrow> nat \<Rightarrow> vaddr_t" where
  "pg va i = va + of_nat i * 4096"

lemma unat_page_offset: "i * 4096 < 2 ^ 64 \<Longrightarrow> unat (of_nat i * 4096 :: u64) = i * 4096"
  using unat_of_nat_small [of i, where 'a = 64] by (simp add: unat_word_ariths)

lemma pg_inj: "i * 4096 < 2 ^ 64 \<Longrightarrow> j * 4096 < 2 ^ 64 \<Longrightarrow> pg va i = pg va j \<longleftrightarrow> i = j"
  unfolding pg_def add_left_cancel unfolding word_unat_eq_iff by (simp add: unat_page_offset)

lemma pg_window:
  assumes "(i + 1) * 4096 < 2 ^ 64"
  shows "va' - pg va i < 4096 \<longleftrightarrow> i * 4096 \<le> unat (va' - va) \<and> unat (va' - va) < (i + 1) * 4096"
proof -
  have eq: "va' - pg va i = va' - va - of_nat i * 4096" by (simp add: pg_def)
  have "(i + 1) * unat (4096 :: u64) < 2 ^ 64" using assms by simp
  from window_iff [OF this, of "va' - va"]
  have "va' - va - of_nat i * 4096 < 4096 \<longleftrightarrow> i * 4096 \<le> unat (va' - va) \<and> unat (va' - va) < (i + 1) * 4096"
    by simp
  then show ?thesis unfolding eq .
qed

definition pages :: "vaddr_t \<Rightarrow> nat \<Rightarrow> nat \<Rightarrow> vaddr_t set" where
  "pages va i n = pg va ` {i..<n}"

lemma pages_step:
  assumes "i < n" "n * 4096 < 2 ^ 64"
  shows "pages va i n = insert (pg va i) (pages va (Suc i) n)" "pg va i \<notin> pages va (Suc i) n"
proof -
  have "{i..<n} = insert i {Suc i..<n}" using assms(1) by auto
  then show "pages va i n = insert (pg va i) (pages va (Suc i) n)" by (simp add: pages_def)
  have "pg va i \<noteq> pg va j" if "j < n" "j \<noteq> i" for j
  proof -
    have "i * 4096 < 2 ^ 64" "j * 4096 < 2 ^ 64" using that assms by linarith+
    then show ?thesis using pg_inj that by blast
  qed
  then show "pg va i \<notin> pages va (Suc i) n" unfolding pages_def by (metis Suc_n_not_le_n atLeastLessThan_iff image_iff)
qed

lemma unmap_pages:
  assumes "n * 4096 < 2 ^ 64" "i \<le> n" "n - i \<le> fuel" "backed m root P" "pages va i n \<subseteq> P"
  shows "\<exists>m'. unmap_loop fuel root va (of_nat n * 4096) (of_nat i * 4096) free_removed m = Return (Ok (), m') \<and>
    backed m' root (P - pages va i n) \<and>
    (\<forall>va'. leaf_at m' root va' =
       (if i * 4096 \<le> unat (va' - va) \<and> unat (va' - va) < n * 4096 then None else leaf_at m root va')) \<and>
    frames_kept root m P m' (P - pages va i n)"
  using assms
proof (induction fuel arbitrary: i m P)
  case 0
  then show ?case by (auto simp: mm_ok_def pages_def frames_kept_refl)
next
  case (Suc fuel)
  have off: "(of_nat i * 4096 :: u64) < of_nat n * 4096 \<longleftrightarrow> i < n"
    using unat_page_offset [of i] unat_page_offset [of n] Suc.prems(1,2) by (simp add: word_less_nat_alt)
  show ?case
  proof (cases "i < n")
    case False
    then show ?thesis using Suc.prems off by (auto simp: mm_ok_def pages_def frames_kept_refl)
  next
    case True
    note st = pages_step [OF True Suc.prems(1), of va]
    have "pg va i \<in> P" using st(1) Suc.prems(5) by auto
    from remove_page [OF Suc.prems(4) this]
    obtain info m1 m2 where R: "remove_leaf root (pg va i) m = Return (Ok info, m1)" "mp_size info = SIZE_4K"
        "free_removed info m1 = Return m2" "backed m2 root (P - {pg va i})"
        "\<And>va'. leaf_at m2 root va' = (if va' - pg va i < 4096 then None else leaf_at m root va')"
        "frames_kept root m P m2 (P - {pg va i})"
      by blast
    have sub: "pages va (Suc i) n \<subseteq> P - {pg va i}" using st Suc.prems(5) by auto
    have "Suc i \<le> n" "n - Suc i \<le> fuel" using True Suc.prems(3) by auto
    from Suc.IH [OF Suc.prems(1) this R(4) sub]
    obtain m' where M: "unmap_loop fuel root va (of_nat n * 4096) (of_nat (Suc i) * 4096) free_removed m2 = Return (Ok (), m')"
        "backed m' root (P - {pg va i} - pages va (Suc i) n)"
        "\<And>va'. leaf_at m' root va' =
          (if Suc i * 4096 \<le> unat (va' - va) \<and> unat (va' - va) < n * 4096 then None else leaf_at m2 root va')"
        "frames_kept root m2 (P - {pg va i}) m' (P - {pg va i} - pages va (Suc i) n)"
      by blast
    have P: "P - {pg va i} - pages va (Suc i) n = P - pages va i n" using st(1) by auto
    have "bytes_in SIZE_4K = 4096" by (simp add: bytes_in_pow2 layout)
    then have next_off: "of_nat i * 4096 + bytes_in (mp_size info) = (of_nat (Suc i) * 4096 :: u64)"
      by (simp add: R(2) algebra_simps)
    have "unmap_loop (Suc fuel) root va (of_nat n * 4096) (of_nat i * 4096) free_removed m = Return (Ok (), m')"
      using R(1,3) M(1) next_off True off by (simp add: pg_def [symmetric] del: of_nat_Suc)
    moreover have "leaf_at m' root va' =
        (if i * 4096 \<le> unat (va' - va) \<and> unat (va' - va) < n * 4096 then None else leaf_at m root va')" for va'
    proof -
      have "(i + 1) * 4096 \<le> n * 4096" using True by simp
      then have "(i + 1) * 4096 < 2 ^ 64" using Suc.prems(1) by linarith
      from pg_window [OF this, of va' va] \<open>(i + 1) * 4096 \<le> n * 4096\<close>
      show ?thesis unfolding M(3) R(5) by auto
    qed
    ultimately show ?thesis
      using M(2) frames_kept_trans [OF R(6) M(4)] unfolding P by blast
  qed
qed

lemma split_at_small:
  assumes "valid b" "case leaf_at m root b of None \<Rightarrow> True | Some (lv, e) \<Rightarrow> lv = 1"
  shows "split_at root b 1 m = Return (Ok (), m)"
proof (rule walk_to_end [OF assms(1), of root m], goal_cases)
  case 1
  then show ?thesis by (simp add: split_at_def mm_ok_def)
next
  case (2 p lv T)
  then have "lv = 1" using assms by (auto simp: leaf_at_def split: if_splits)
  then show ?thesis using 2 by (simp add: split_at_def mm_ok_def)
qed

lemma release_pages:
  assumes B: "backed m root P" and sub: "pages va 0 n \<subseteq> P" and n: "0 < n" "unat va + n * 4096 < 2 ^ 64"
    and guard: "leaf_at m root (pg va n) = None"
  shows "\<exists>m'. vmm_release root va (of_nat n * 4096) m = Return m' \<and> backed m' root (P - pages va 0 n) \<and>
    (\<forall>va'. leaf_at m' root va' = (if unat (va' - va) < n * 4096 then None else leaf_at m root va')) \<and>
    frames_kept root m P m' (P - pages va 0 n)"
proof -
  let ?len = "of_nat n * 4096 :: u64"
  have n64: "n * 4096 < 2 ^ 64" using n(2) by simp
  have len: "unat ?len = n * 4096" by (rule unat_page_offset [OF n64])
  have "va = pg va 0" "0 \<in> {0..<n}" using n(1) by (simp_all add: pg_def)
  then have "va \<in> P" using sub by (force simp: pages_def)
  then have va: "page_addr va" "\<exists>e. leaf_at m root va = Some (1, e)" using B unfolding backed_def by auto
  then have v: "valid va" "take_bit 12 va = 0" by (simp_all add: page_addr_def)
  have sz: "leaf_size (feats m) SIZE_4K = SIZE_4K" "bytes_in SIZE_4K = 4096" "level_of SIZE_4K = 1"
    by (simp_all add: leaf_size_def level_of_def layout size_at_level_of bytes_in_pow2)
  have val: "validate va SIZE_4K 0 = mm_ok 1"
    using v aligned_iff [of SIZE_4K va 0] by (simp add: validate_def sz)
  have e: "unat (va + ?len) = unat va + n * 4096"
    using n(2) len unat_plus_small [of va ?len] by simp
  have "?len mod 4096 = 0"
    unfolding word_unat_eq_iff unat_mod_distrib len by simp
  moreover have "?len \<noteq> 0" using len n(1) by (auto simp: word_unat_eq_iff)
  moreover have last: "unat (va + ?len - 1) = unat va + n * 4096 - 1"
    using e n(1) by (subst unat_minus_le) (auto simp: word_le_nat_alt)
  then have "\<not> va + ?len - 1 < va" using n(1) by (simp add: word_less_nat_alt)
  moreover have "valid (va + ?len - 1)"
  proof -
    let ?p = "pg va (n - 1)"
    have "?p \<in> P" using sub n(1) by (force simp: pages_def)
    then have p: "page_addr ?p" using B unfolding backed_def by auto
    have "va + ?len - 1 - ?p < 4096"
    proof -
      have "va + ?len - 1 - ?p = 4095"
        using n(1) by (cases n) (simp_all add: pg_def algebra_simps)
      then show ?thesis by (simp only:) simp
    qed
    then have "drop_bit 12 (va + ?len - 1) = drop_bit 12 ?p"
      using p in_page_iff(1) [of 12 ?p "va + ?len - 1"] by (simp add: page_addr_def)
    then show ?thesis using valid_in_page [of 12 "va + ?len - 1" ?p] p by (simp add: page_addr_def)
  qed
  ultimately have guardF: "\<not> (?len = 0 \<or> ?len mod bytes_in SIZE_4K \<noteq> 0 \<or> va + ?len - 1 < va \<or> \<not> valid (va + ?len - 1))"
    by (simp add: sz)
  have s1: "split_at root va 1 m = Return (Ok (), m)" using v(1) va(2) by (intro split_at_small) auto
  have s2: "(if va + ?len > va \<and> valid (va + ?len) then split_at root (va + ?len) 1 else mm_ok ()) m = Return (Ok (), m)"
    using guard split_at_small [of "va + ?len" m root] by (simp add: pg_def mm_ok_def)
  have "n - 0 \<le> unat ?len div 4096 + 1" by (simp add: len)
  from unmap_pages [OF n64 _ this B sub]
  obtain m' where M: "unmap_loop (unat ?len div 4096 + 1) root va ?len 0 free_removed m = Return (Ok (), m')"
      "backed m' root (P - pages va 0 n)"
      "\<And>va'. leaf_at m' root va' = (if unat (va' - va) < n * 4096 then None else leaf_at m root va')"
      "frames_kept root m P m' (P - pages va 0 n)"
    by auto
  have "unmap_range root va ?len SIZE_4K free_removed m = Return (Ok (), m')"
    unfolding unmap_range_def Let_def sz(1) val ktry_mm(1) if_not_P [OF guardF]
    using s1 s2 M(1) by simp
  moreover have "?len \<noteq> 0" using guardF by blast
  ultimately show ?thesis using M(2-4) by (simp add: vmm_release_def)
qed

section \<open>Backing a range with frames\<close>

lemma backed_keep:
  assumes B: "backed m root P" and inv: "tree_inv m' root"
    and at: "\<And>p. p \<in> P \<Longrightarrow> leaf_at m' root p = leaf_at m root p"
    and fr: "\<And>p. p \<in> P \<Longrightarrow> page_frame m root p \<notin> free_tables m' \<union> owned (mem m') LEVELS root"
  shows "backed m' root P" "page_frame m' root ` P = page_frame m root ` P"
proof -
  have pf: "page_frame m' root p = page_frame m root p" if "p \<in> P" for p
    by (rule page_frame_cong [OF at [OF that]])
  then show "page_frame m' root ` P = page_frame m root ` P" by (auto simp: image_iff)
  show "backed m' root P"
    unfolding backed_def
  proof (intro conjI ballI)
    show "inj_on (page_frame m' root) P" using B pf by (auto simp: backed_def inj_on_def)
    fix p assume p: "p \<in> P"
    show "page_addr p" "\<exists>e. leaf_at m' root p = Some (1, e)" "unat (page_frame m' root p) div 4096 < 4194304"
      using B p at [OF p] pf [OF p] unfolding backed_def by auto
    show "page_frame m' root p \<notin> free_tables m' \<union> owned (mem m') LEVELS root"
      using fr [OF p] pf [OF p] by simp
  qed (rule inv)
qed

lemma backed_grow:
  assumes "backed m root P" "tree_grow m m' root"
  shows "backed m' root P" "frames_kept root m P m' P"
proof -
  have G: "tree_inv m' root" "same_config m m'"
      "owned (mem m') LEVELS root \<union> free_tables m' = owned (mem m) LEVELS root \<union> free_tables m"
      "\<And>va e. leaf_at m root va = Some (1, e) \<Longrightarrow> leaf_at m' root va = Some (1, e)"
    using assms(2) unfolding tree_grow_def by blast+
  have at: "leaf_at m' root p = leaf_at m root p" if "p \<in> P" for p
    using assms(1) that G(4) unfolding backed_def by metis
  have fr: "page_frame m root p \<notin> free_tables m' \<union> owned (mem m') LEVELS root" if "p \<in> P" for p
    using assms(1) that G(3) unfolding backed_def by blast
  note K = backed_keep [OF assms(1) G(1) at fr]
  show "backed m' root P" by (rule K(1))
  have "footprint m' root P = footprint m root P"
    using G(3) K(2) by (simp add: footprint_def Un_commute)
  then show "frames_kept root m P m' P" using G(2) by (simp add: frames_kept_def)
qed

lemma leaf_at_None_iff: "leaf_at m root va = None \<longleftrightarrow> address_space m root va = None"
  by (simp add: address_space_def)

lemma map_range_page:
  "map_range root va pa FRAME_SIZE SIZE_4K p m = map_leaf root va pa SIZE_4K p m"
proof -
  have 4: "bytes_in SIZE_4K = 0x1000" "leaf_size (feats m) SIZE_4K = SIZE_4K"
    by (simp_all add: bytes_in_pow2 layout level_of_def leaf_size_def size_at_level_of)
  show ?thesis
    by (auto simp: map_range_def for_each_leaf_def 4 FRAME_SIZE_eq ktry_def mm_ok_def
        split: outcome.splits sum.splits)
qed

lemma rollback:
  assumes B: "backed m root (P \<union> pages base 0 i)" and dis: "P \<inter> pages base 0 i = {}"
    and n: "unat base + i * 4096 < 2 ^ 64" and guard: "leaf_at m root (pg base i) = None"
  shows "\<exists>m'. vmm_release root base (of_nat i * 4096) m = Return m' \<and> backed m' root P \<and>
    (\<forall>va'. leaf_at m' root va' = (if unat (va' - base) < i * 4096 then None else leaf_at m root va')) \<and>
    frames_kept root m (P \<union> pages base 0 i) m' P"
proof (cases "i = 0")
  case True
  then show ?thesis using B by (auto simp: vmm_release_def pages_def frames_kept_refl)
next
  case False
  have "P \<union> pages base 0 i - pages base 0 i = P" using dis by auto
  then show ?thesis using release_pages [OF B _ _ n guard] False by auto
qed

text \<open>One more page: a frame is allocated and mapped, or handed back when mapping fails.\<close>

lemma back_page:
  assumes B: "backed m root P" and q: "page_addr q" "q \<notin> P" "leaf_at m root q = None"
    and al: "pmm_alloc SIZE_4K (m_pmm m) = Return (Ok F, pm)"
  shows "(\<exists>m2. map_leaf root q F SIZE_4K p (m\<lparr>m_pmm := pm\<rparr>) = Return (Ok (), m2) \<and>
      backed m2 root (insert q P) \<and> frames_kept root m P m2 (insert q P) \<and>
      (\<forall>va. address_space m2 root va =
         (if va - q < 4096 then Some (F + (va - q), effective_prot (feats m) p) else address_space m root va))) \<or>
    (\<exists>m2 s. map_leaf root q F SIZE_4K p (m\<lparr>m_pmm := pm\<rparr>) = Return (Err OUT_OF_MEMORY, m2) \<and>
      pmm_free SIZE_4K F (m_pmm m2) = Return s \<and> backed (m2\<lparr>m_pmm := s\<rparr>) root P \<and>
      frames_kept root m P (m2\<lparr>m_pmm := s\<rparr>) P \<and>
      address_space (m2\<lparr>m_pmm := s\<rparr>) root = address_space m root)"
proof -
  define m1 where "m1 = m\<lparr>m_pmm := pm\<rparr>"
  have inv: "tree_inv m root" using B by (simp add: backed_def)
  have F: "pmm_inv pm" "F \<in> free_tables m" "free_tables m1 = free_tables m - {F}"
    using alloc_frame [OF sub_invD(2) [OF tree_invD(1) [OF inv]]] al by (auto simp: m1_def)
  have frF: "frame_address F" "unat F div 4096 < 4194304" "F \<notin> owned (mem m) LEVELS root"
    using F(2) free_frame_bound(1) [OF sub_invD(2) [OF tree_invD(1) [OF inv]]] sub_invD(3) [OF tree_invD(1) [OF inv]]
    by (auto simp: free_tables_def)
  have m1: "mem m1 = mem m" "same_config m m1" "feats m1 = feats m" by (simp_all add: m1_def same_config_def)
  have at1: "leaf_at m1 root = leaf_at m root" "address_space m1 root = address_space m root"
    by (auto simp: leaf_at_def address_space_def m1(1))
  have inv1: "tree_inv m1 root"
    using inv F releasable_config [OF m1(2)]
    unfolding tree_inv_def sub_inv_def m1(1) by (auto simp: m1_def)
  have fr1: "page_frame m root p \<notin> free_tables m1 \<union> owned (mem m1) LEVELS root" if "p \<in> P" for p
    using B that F(3) m1(1) unfolding backed_def by auto
  have a1: "leaf_at m1 root p = leaf_at m root p" for p by (simp add: at1)
  note B1 = backed_keep [OF B inv1 a1 fr1]
  have nF: "page_frame m1 root p \<noteq> F" if "p \<in> P" for p
    using B B1(2) that F(2) unfolding backed_def by (metis UnI1 at1(1) page_frame_cong)
  have "unat F < 2 ^ 52" using frF(1) by (simp add: frame_address_iff)
  from map_leaf_spec [OF inv1 _ this, of SIZE_4K q p]
  obtain r m2 where R: "map_leaf root q F SIZE_4K p m1 = Return (r, m2)" "tree_grow m1 m2 root"
      "case r of
       Ok _ \<Rightarrow> leaf_at m2 root q = Some (level_of SIZE_4K, leaf_entry (feats m1) F SIZE_4K p) \<and>
         valid q \<and> (q OR F) AND (bytes_in SIZE_4K - 1) = 0 \<and>
         (\<forall>va'. address_space m2 root va' =
            (if va' - q < bytes_in SIZE_4K then Some (F + (va' - q), effective_prot (feats m1) p)
             else address_space m1 root va'))
     | Err e \<Rightarrow> address_space m2 root = address_space m1 root \<and>
         (e = INVALID_ADDRESS \<longleftrightarrow> \<not> valid q \<or> (q OR F) AND (bytes_in SIZE_4K - 1) \<noteq> 0) \<and>
         (e = CONFLICT \<and> SIZE_4K = SIZE_4K \<longrightarrow> leaf_at m1 root q \<noteq> None) \<and>
         e \<in> {INVALID_ADDRESS, OUT_OF_MEMORY, CONFLICT}"
    by blast
  note G = backed_grow [OF B1(1) R(2)]
  have T: "owned (mem m2) LEVELS root \<union> free_tables m2 = owned (mem m) LEVELS root \<union> (free_tables m - {F})"
      "tree_inv m2 root" "same_config m1 m2"
    using R(2) F(3) m1(1) unfolding tree_grow_def by auto
  have F2: "F \<notin> free_tables m2" "F \<notin> owned (mem m2) LEVELS root" using T(1) frF(3) by auto
  have pf2: "page_frame m2 root ` P = page_frame m root ` P"
    using B1(2) B G(1) R(2) unfolding backed_def tree_grow_def page_frame_def at1(1)
    by (metis (no_types, lifting) image_cong)
  have fp: "insert F (footprint m2 root P) = footprint m root P"
    unfolding footprint_def pf2 using T(1) F(2) by auto
  have al4: "(q OR F) AND (bytes_in SIZE_4K - 1) = 0"
    unfolding aligned_iff [of SIZE_4K q F, simplified]
    using q(1) frF(1) by (auto simp: page_addr_def level_of_def layout frame_address_iff and_mask_dvd_nat [symmetric] take_bit_eq_mask)
  have b4: "bytes_in SIZE_4K = 4096" "level_of SIZE_4K = 1" by (simp_all add: bytes_in_pow2 level_of_def layout)
  show ?thesis
  proof (cases r)
    case (Inr u)
    then have ok: "leaf_at m2 root q = Some (1, leaf_entry (feats m1) F SIZE_4K p)"
        "\<And>va. address_space m2 root va =
         (if va - q < 4096 then Some (F + (va - q), effective_prot (feats m) p) else address_space m root va)"
      using R(3) by (simp_all add: b4 at1 m1(3))
    have pq: "page_frame m2 root q = F" using frF(1) by (simp add: page_frame_def ok(1))
    have "backed m2 root (insert q P)"
    proof -
      have "F \<notin> page_frame m2 root ` P"
        using nF pf2 B1(2) by (metis image_iff)
      then show ?thesis
        using G(1) pq frF(2) F2 q(1) ok(1) unfolding backed_def by auto
    qed
    moreover have "frames_kept root m P m2 (insert q P)"
    proof -
      have "footprint m2 root (insert q P) = insert F (footprint m2 root P)"
        by (auto simp: footprint_def pq)
      then show ?thesis using fp T(3) m1(2) unfolding frames_kept_def same_config_def by simp
    qed
    ultimately show ?thesis using R(1) Inr ok(2) by (auto simp: m1_def)
  next
    case (Inl e)
    then have e: "e = OUT_OF_MEMORY" "address_space m2 root = address_space m root"
      using R(3) al4 q(1,3) at1 by (auto simp: page_addr_def)
    obtain s where s: "pmm_free SIZE_4K F (m_pmm m2) = Return s" "pmm_inv s"
        "free_tables (m2\<lparr>m_pmm := s\<rparr>) = insert F (free_tables m2)"
      using release_frame [OF sub_invD(2) [OF tree_invD(1) [OF T(2)]] frF(1) F2(1) frF(2)] by blast
    define m3 where "m3 = m2\<lparr>m_pmm := s\<rparr>"
    have m3: "mem m3 = mem m2" "same_config m2 m3" "free_tables m3 = insert F (free_tables m2)"
      using s(3) by (simp_all add: m3_def same_config_def)
    have at3: "leaf_at m3 root = leaf_at m2 root" "address_space m3 root = address_space m2 root"
      by (auto simp: leaf_at_def address_space_def m3(1))
    have inv3: "tree_inv m3 root"
      using T(2) s(2) F2(2) m3(3) releasable_config [OF m3(2)]
      unfolding tree_inv_def sub_inv_def m3(1) by (auto simp: m3_def)
    have "page_frame m2 root p \<notin> free_tables m3 \<union> owned (mem m3) LEVELS root" if "p \<in> P" for p
    proof -
      have "page_frame m2 root p \<noteq> F" using that nF pf2 B1(2) by (metis image_iff)
      then show ?thesis using G(1) that m3(1,3) unfolding backed_def by auto
    qed
    then have B3: "backed m3 root P" "page_frame m3 root ` P = page_frame m2 root ` P"
      using backed_keep [OF G(1) inv3] at3 by auto
    have "footprint m3 root P = insert F (footprint m2 root P)"
      using B3(2) by (auto simp: footprint_def m3)
    then have "frames_kept root m P m3 P"
      using fp m1(2) T(3) m3(2) unfolding frames_kept_def same_config_def by simp
    moreover have "address_space m3 root = address_space m root" using at3 e(2) by simp
    ultimately show ?thesis
      using R(1) Inl e(1) s(1) B3(1) by (auto simp: m1_def [symmetric] m3_def)
  qed
qed

lemma pages_Suc: "pages va 0 (Suc i) = insert (pg va i) (pages va 0 i)"
  by (simp add: pages_def atLeast0LessThan lessThan_Suc)

lemma unat_pg_offset: "j * 4096 < 2 ^ 64 \<Longrightarrow> unat (pg va j - va) = j * 4096"
  using unat_page_offset [of j] by (simp add: pg_def)

definition backed_result ::
  "paddr_t \<Rightarrow> vaddr_t \<Rightarrow> page_prot \<Rightarrow> vaddr_t set \<Rightarrow> nat \<Rightarrow> nat \<Rightarrow> machine \<Rightarrow> (unit, mm_error) result \<Rightarrow> machine \<Rightarrow> bool" where
  "backed_result root base p P i N m r m' \<longleftrightarrow>
     (case r of
        Ok _ \<Rightarrow> backed m' root (P \<union> pages base 0 N) \<and>
          frames_kept root m (P \<union> pages base 0 i) m' (P \<union> pages base 0 N) \<and>
          (\<forall>va. if i * 4096 \<le> unat (va - base) \<and> unat (va - base) < N * 4096
                then \<exists>pa. address_space m' root va = Some (pa, effective_prot (feats m) p)
                else address_space m' root va = address_space m root va)
      | Err e \<Rightarrow> e = OUT_OF_MEMORY \<and> backed m' root P \<and>
          frames_kept root m (P \<union> pages base 0 i) m' P \<and>
          (\<forall>va. address_space m' root va =
             (if unat (va - base) < i * 4096 then None else address_space m root va)))"

lemma rollback_result:
  assumes "backed m root (P \<union> pages base 0 i)" "P \<inter> pages base 0 i = {}"
    "unat base + i * 4096 < 2 ^ 64" "leaf_at m root (pg base i) = None"
    "frames_kept root m0 (P \<union> pages base 0 i) m (P \<union> pages base 0 i)"
    "address_space m root = address_space m0 root"
  shows "\<exists>m'. vmm_release root base (of_nat i * 4096) m = Return m' \<and>
    backed_result root base p P i N m0 (Err OUT_OF_MEMORY) m'"
proof -
  obtain m' where R: "vmm_release root base (of_nat i * 4096) m = Return m'" "backed m' root P"
      "\<And>va'. leaf_at m' root va' = (if unat (va' - base) < i * 4096 then None else leaf_at m root va')"
      "frames_kept root m (P \<union> pages base 0 i) m' P"
    using rollback [OF assms(1-4)] by blast
  have "address_space m' root va =
      (if unat (va - base) < i * 4096 then None else address_space m0 root va)" for va
    unfolding assms(6) [symmetric] by (simp add: address_space_def R(3))
  then show ?thesis
    using R(1,2) frames_kept_trans [OF assms(5) R(4)] by (auto simp: backed_result_def)
qed

lemma FRAME_SIZE_4096: "FRAME_SIZE = 4096"
  by (simp add: FRAME_SIZE_eq)

lemma backed_result_step:
  assumes R: "backed_result root base p P (Suc i) N m2 r m'" and N: "Suc i \<le> N" "N * 4096 < 2 ^ 64"
    and kept: "frames_kept root m (P \<union> pages base 0 i) m2 (P \<union> pages base 0 (Suc i))"
    and none: "\<And>va. i * 4096 \<le> unat (va - base) \<Longrightarrow> unat (va - base) < (i + 1) * 4096 \<Longrightarrow> address_space m root va = None"
    and as: "\<And>va. address_space m2 root va = (if va - pg base i < 4096
      then Some (F + (va - pg base i), effective_prot (feats m) p) else address_space m root va)"
  shows "backed_result root base p P i N m r m'"
proof -
  have "(i + 1) * 4096 \<le> N * 4096" using N(1) by simp
  then have i1: "(i + 1) * 4096 < 2 ^ 64" using N(2) by linarith
  note win = pg_window [OF i1, of _ base]
  have ft: "feats m2 = feats m" using kept by (simp add: frames_kept_def same_config_def)
  show ?thesis
  proof (cases r)
    case (Inl e)
    have "address_space m' root va = (if unat (va - base) < i * 4096 then None else address_space m root va)" for va
      using R Inl none [of va] as [of va] win [of va]
      by (cases "unat (va - base) < Suc i * 4096") (auto simp: backed_result_def)
    then show ?thesis
      using R Inl frames_kept_trans [OF kept] by (simp add: backed_result_def)
  next
    case (Inr u)
    note R' = R [unfolded backed_result_def Inr sum.case ft]
    have "if i * 4096 \<le> unat (va - base) \<and> unat (va - base) < N * 4096
        then \<exists>pa. address_space m' root va = Some (pa, effective_prot (feats m) p)
        else address_space m' root va = address_space m root va" for va
    proof -
      have step: "if Suc i * 4096 \<le> unat (va - base) \<and> unat (va - base) < N * 4096
          then \<exists>pa. address_space m' root va = Some (pa, effective_prot (feats m) p)
          else address_space m' root va = address_space m2 root va"
        using R' by blast
      show ?thesis
        using step as [of va] win [of va] \<open>(i + 1) * 4096 \<le> N * 4096\<close> by (auto split: if_splits)
    qed
    then show ?thesis
      using R' Inr frames_kept_trans [OF kept] by (simp add: backed_result_def)
  qed
qed

lemma back_loop_spec:
  assumes "backed m root (P \<union> pages base 0 i)" "P \<inter> pages base 0 (i + n) = {}"
    "unat base + (i + n) * 4096 < 2 ^ 64" "\<And>j. j < i + n \<Longrightarrow> page_addr (pg base j)"
    "\<And>va. i * 4096 \<le> unat (va - base) \<Longrightarrow> unat (va - base) \<le> (i + n) * 4096 \<Longrightarrow> address_space m root va = None"
  shows "\<exists>r m'. back_loop root base p i n m = Return (r, m') \<and> backed_result root base p P i (i + n) m r m'"
  using assms
proof (induction n arbitrary: i m)
  case 0
  then show ?case by (auto simp: mm_ok_def backed_result_def frames_kept_refl)
next
  case (Suc n)
  let ?q = "pg base i"
  have i64: "i * 4096 < 2 ^ 64" "(i + 1) * 4096 < 2 ^ 64" "(i + Suc n) * 4096 < 2 ^ 64"
    using Suc.prems(3) by auto
  have sub: "pages base 0 i \<subseteq> pages base 0 (i + Suc n)" by (auto simp: pages_def)
  then have dis: "P \<inter> pages base 0 i = {}" using Suc.prems(2) by auto
  have q: "page_addr ?q" using Suc.prems(4) by simp
  have q_in: "?q \<in> pages base 0 (i + Suc n)" by (auto simp: pages_def)
  have "?q \<notin> pages base 0 i"
  proof
    assume "?q \<in> pages base 0 i"
    then obtain j where "j < i" "pg base i = pg base j" by (auto simp: pages_def)
    moreover have "j * 4096 < 2 ^ 64" using \<open>j < i\<close> i64(1) by linarith
    ultimately show False using pg_inj i64(1) by blast
  qed
  then have nq: "?q \<notin> P \<union> pages base 0 i" using Suc.prems(2) q_in by auto
  have none_q: "leaf_at m root ?q = None"
    using Suc.prems(5) [of ?q] unat_pg_offset [OF i64(1), of base] by (simp add: leaf_at_None_iff)
  have base_i: "unat base + i * 4096 < 2 ^ 64" using Suc.prems(3) by simp
  have inv: "pmm_inv (m_pmm m)"
    using Suc.prems(1) sub_invD(2) [OF tree_invD(1)] unfolding backed_def by blast
  have off: "base + of_nat i * FRAME_SIZE = ?q" by (simp add: pg_def FRAME_SIZE_4096)
  show ?case
  proof (cases "pmm_alloc SIZE_4K (m_pmm m) = Return (Err OUT_OF_MEMORY, m_pmm m)")
    case True
    obtain m' where "vmm_release root base (of_nat i * 4096) m = Return m'"
        "backed_result root base p P i (i + Suc n) m (Err OUT_OF_MEMORY) m'"
      using rollback_result [OF Suc.prems(1) dis base_i none_q frames_kept_refl refl] by blast
    then show ?thesis using True by (auto simp: Let_def FRAME_SIZE_4096 mm_fail_def)
  next
    case False
    then obtain F pm where al: "pmm_alloc SIZE_4K (m_pmm m) = Return (Ok F, pm)"
      using alloc_frame [OF inv] by auto
    from back_page [OF Suc.prems(1) q nq none_q al, of p]
    show ?thesis
    proof (elim disjE exE conjE)
      fix m2 s
      assume M: "map_leaf root ?q F SIZE_4K p (m\<lparr>m_pmm := pm\<rparr>) = Return (Err OUT_OF_MEMORY, m2)"
        "pmm_free SIZE_4K F (m_pmm m2) = Return s" "backed (m2\<lparr>m_pmm := s\<rparr>) root (P \<union> pages base 0 i)"
        "frames_kept root m (P \<union> pages base 0 i) (m2\<lparr>m_pmm := s\<rparr>) (P \<union> pages base 0 i)"
        "address_space (m2\<lparr>m_pmm := s\<rparr>) root = address_space m root"
      have "leaf_at (m2\<lparr>m_pmm := s\<rparr>) root ?q = None"
        using none_q M(5) by (simp add: leaf_at_None_iff)
      then obtain m' where "vmm_release root base (of_nat i * 4096) (m2\<lparr>m_pmm := s\<rparr>) = Return m'"
          "backed_result root base p P i (i + Suc n) m (Err OUT_OF_MEMORY) m'"
        using rollback_result [OF M(3) dis base_i _ M(4,5)] by blast
      moreover have "back_loop root base p i (Suc n) m =
          obind (vmm_release root base (of_nat i * 4096) (m2\<lparr>m_pmm := s\<rparr>)) (mm_fail OUT_OF_MEMORY)"
        using al M(1,2) by (simp add: Let_def off map_range_page) (simp add: FRAME_SIZE_4096)
      ultimately show ?thesis by (auto simp: mm_fail_def)
    next
      fix m2
      assume M: "map_leaf root ?q F SIZE_4K p (m\<lparr>m_pmm := pm\<rparr>) = Return (Ok (), m2)"
        "backed m2 root (insert ?q (P \<union> pages base 0 i))"
        "frames_kept root m (P \<union> pages base 0 i) m2 (insert ?q (P \<union> pages base 0 i))"
        and as: "\<forall>va. address_space m2 root va =
          (if va - ?q < 4096 then Some (F + (va - ?q), effective_prot (feats m) p) else address_space m root va)"
      have P': "insert ?q (P \<union> pages base 0 i) = P \<union> pages base 0 (i + 1)" by (simp add: pages_Suc)
      have "address_space m2 root va = None"
        if "(i + 1) * 4096 \<le> unat (va - base)" "unat (va - base) \<le> (i + 1 + n) * 4096" for va
        using that as Suc.prems(5) [of va] pg_window [OF i64(2), of va base] by simp
      then obtain r m' where R: "back_loop root base p (i + 1) n m2 = Return (r, m')"
          "backed_result root base p P (i + 1) (i + 1 + n) m2 r m'"
        using Suc.IH [of m2 "i + 1"] M(2) Suc.prems(2-4) unfolding P' by auto
      have "back_loop root base p i (Suc n) m = Return (r, m')"
        using al M(1) R(1) by (simp add: Let_def off map_range_page)
      moreover have "backed_result root base p P i (i + Suc n) m r m'"
        using R(2) M(3) as Suc.prems(5) i64(3) unfolding P'
        by (intro backed_result_step [of root base p P i "i + Suc n" m2 r m' m F]) auto
      ultimately show ?thesis by blast
    qed
  qed
qed

end
