(* ===== verification/Vmm_Protect.thy ===== *)
theory Vmm_Protect
  imports Vmm_Service
begin

text \<open>
  Changing the protection of pages that have frames of their own: the change always succeeds,
  since such a page is a small leaf, allocates and frees nothing, and keeps every frame where
  it is.
\<close>

lemma backed_reprotect:
  assumes B: "backed m root P" and inv: "tree_inv m' root"
    and at: "\<And>p e. p \<in> P \<Longrightarrow> leaf_at m root p = Some (1, e) \<Longrightarrow>
      \<exists>e'. leaf_at m' root p = Some (1, e') \<and> pte_address e' = pte_address e"
    and fr: "free_tables m' = free_tables m" "owned (mem m') LEVELS root = owned (mem m) LEVELS root"
    and cfg: "same_config m m'"
  shows "backed m' root P" "frames_kept root m P m' P"
proof -
  have pf: "page_frame m' root p = page_frame m root p" and ex: "\<exists>e. leaf_at m' root p = Some (1, e)" if p: "p \<in> P" for p
  proof -
    obtain e where e: "leaf_at m root p = Some (1, e)" using B p unfolding backed_def by blast
    then obtain e' where "leaf_at m' root p = Some (1, e')" "pte_address e' = pte_address e" using at [OF p e] by blast
    then show "page_frame m' root p = page_frame m root p" "\<exists>e. leaf_at m' root p = Some (1, e)"
      by (simp_all add: page_frame_def e)
  qed
  show "backed m' root P"
    unfolding backed_def
  proof (intro conjI ballI)
    show "inj_on (page_frame m' root) P" using B pf by (auto simp: backed_def inj_on_def)
    fix p assume p: "p \<in> P"
    show "page_addr p" "unat (page_frame m' root p) div 4096 < 4194304"
        "page_frame m' root p \<notin> free_tables m' \<union> owned (mem m') LEVELS root"
      using B p unfolding backed_def pf [OF p] fr by auto
    show "\<exists>e. leaf_at m' root p = Some (1, e)" by (rule ex [OF p])
  qed (rule inv)
  have "page_frame m' root ` P = page_frame m root ` P" using pf by (auto simp: image_iff)
  then have "footprint m' root P = footprint m root P" by (simp add: footprint_def fr)
  then show "frames_kept root m P m' P" using cfg by (simp add: frames_kept_def)
qed

lemma walk_to_small_leaf:
  assumes v: "valid va" and e: "leaf_at m root va = Some (1, e)"
  shows "\<exists>path T. walk_to_leaf root va 1 m = Return (Ok path, m) \<and> slots path 1 = slot_at T (pt_index 1 va) \<and>
    path_table (mem m) LEVELS root va 1 = Some T \<and> entry (mem m) T (pt_index 1 va) = e \<and> present e \<and> leaf e 1"
proof (rule walk_to_end [OF v, of root m], goal_cases)
  case 1
  then show ?case using e by (simp add: address_space_def)
next
  case (2 p lv T)
  have lv: "lv = 1" "present (entry (mem m) T (pt_index lv va))" "entry (mem m) T (pt_index lv va) = e"
    using 2(8) e v by (auto simp: leaf_at_def split: if_splits)
  have "leaf e 1" by (simp add: leaf_def)
  then show ?case
    using 2 lv by (intro exI [of _ p] exI [of _ T]) (simp add: walk_to_leaf_def ktry_def mm_ok_def)
qed

lemma protect_page:
  assumes B: "backed m root P" and q: "q \<in> P"
  shows "\<exists>m'. protect_leaf root q SIZE_4K p m = Return (Ok (), m') \<and> backed m' root P \<and> frames_kept root m P m' P"
proof -
  have inv: "tree_inv m root" and pa: "page_addr q" using B q unfolding backed_def by auto
  obtain e where e: "leaf_at m root q = Some (1, e)" using B q unfolding backed_def by blast
  have v: "valid q" "take_bit 12 q = 0" using pa by (simp_all add: page_addr_def)
  have val: "validate q SIZE_4K 0 = mm_ok 1"
    using v aligned_iff [of SIZE_4K q 0] by (simp add: validate_def level_of_def layout)
  obtain path T where W: "walk_to_leaf root q 1 m = Return (Ok path, m)" "slots path 1 = slot_at T (pt_index 1 q)"
      "path_table (mem m) LEVELS root q 1 = Some T" "entry (mem m) T (pt_index 1 q) = e" "present e" "leaf e 1"
    using walk_to_small_leaf [OF v(1) e] by blast
  let ?pte = "leaf_entry (feats m) (pte_address e) SIZE_4K p"
  define m' where "m' = replace (slot_at T (pt_index 1 q)) ?pte q m"
  have m': "mem m' = (mem m)(slot_at T (pt_index 1 q) := ?pte)" "m_pmm m' = m_pmm m" "same_config m m'"
    by (simp_all add: m'_def same_config_def replace_def Let_def)
  have lv: "level_of SIZE_4K = 1" by (simp add: level_of_def layout)
  have "leaf ?pte 1" "leaf_ok 1 ?pte"
    using leaf_entry_kind(2) [of SIZE_4K "feats m" "pte_address e" p] leaf_on_path(1) [OF inv v(1) _ _ W(3) W(4) [symmetric]] W(5,6)
    by (simp_all add: lv leaf_ok_def)
  then have new: "\<not> is_table ?pte 1" "present ?pte \<Longrightarrow> leaf_ok 1 ?pte" by (simp_all add: is_table_def)
  note S = write_leaf [OF inv v(1) _ _ W(3) new m', simplified]
  have "protect_leaf root q SIZE_4K p m = Return (Ok (), m')"
    using W(1,2,4) by (simp add: protect_leaf_def val Let_def m'_def mm_ok_def)
  moreover have "free_tables m' = free_tables m" by (simp add: free_tables_def m'(2))
  moreover have "owned (mem m') LEVELS root = owned (mem m) LEVELS root"
    using S(2) W(4,6) by (simp add: below_def is_table_def)
  moreover have "\<exists>e'. leaf_at m' root r = Some (1, e') \<and> pte_address e' = pte_address f"
    if "r \<in> P" "leaf_at m root r = Some (1, f)" for r f
  proof (cases "r = q")
    case True
    then show ?thesis using S(4) [of q] that e by simp
  next
    case False
    have "page_addr r" using B that(1) unfolding backed_def by blast
    then have "\<not> r - q < 4096" using page_addr_eq [OF pa, of r] False by simp
    then have "drop_bit 12 r \<noteq> drop_bit 12 q" using in_page_iff(1) [OF v(2), of r] by simp
    then show ?thesis using S(4) [of r] that by simp
  qed
  ultimately show ?thesis using backed_reprotect [OF B S(1) _ _ _ m'(3)] by blast
qed

lemma protect_pages:
  assumes "backed m root P" "\<And>j. i \<le> j \<Longrightarrow> j < i + n \<Longrightarrow> pg va j \<in> P"
  shows "\<exists>m'. leaf_loop (protect_op (root, p)) va 4096 SIZE_4K i n m = Return (Ok (), m') \<and>
    backed m' root P \<and> frames_kept root m P m' P"
  using assms
proof (induction n arbitrary: i m)
  case 0
  then show ?case by (simp add: mm_ok_def frames_kept_refl)
next
  case (Suc n)
  obtain m1 where 1: "protect_leaf root (pg va i) SIZE_4K p m = Return (Ok (), m1)" "backed m1 root P" "frames_kept root m P m1 P"
    using protect_page [OF Suc.prems(1), of "pg va i" p] Suc.prems(2) [of i] by auto
  obtain m2 where 2: "leaf_loop (protect_op (root, p)) va 4096 SIZE_4K (i + 1) n m1 = Return (Ok (), m2)"
      "backed m2 root P" "frames_kept root m1 P m2 P"
    using Suc.IH [OF 1(2), of "i + 1"] Suc.prems(2) by fastforce
  have "leaf_loop (protect_op (root, p)) va 4096 SIZE_4K i (Suc n) m = Return (Ok (), m2)"
    using 1(1) 2(1) by (simp add: protect_op_def pg_def ktry_def)
  then show ?case using 2(2) frames_kept_trans [OF 1(3) 2(3)] by blast
qed

text \<open>The range form: every page of it is in \<open>P\<close>.\<close>

lemma protect_range_pages:
  assumes B: "backed m root P" and len: "unat len = n * 4096" "0 < n" and sub: "pages va 0 n \<subseteq> P"
  shows "\<exists>m'. protect_range root va len SIZE_4K p m = Return (Ok (), m') \<and> backed m' root P \<and>
    frames_kept root m P m' P \<and>
    (\<forall>va'. address_space m' root va' =
       (if unat (va' - va) < unat len
        then map_option (\<lambda>(pa, _). (pa, effective_prot (feats m) p)) (address_space m root va')
        else address_space m root va'))"
proof -
  have sz: "leaf_size (feats m) SIZE_4K = SIZE_4K" "bytes_in SIZE_4K = 4096"
    by (simp_all add: leaf_size_def level_of_def layout size_at_level_of bytes_in_pow2)
  have op: "protect_range root va len SIZE_4K p = for_each_leaf va len SIZE_4K (protect_op (root, p))"
    by (simp add: protect_range_def protect_op_def [abs_def])
  have l: "len \<noteq> 0" "len mod 4096 = 0" "unat (len div 4096) = n"
    using len by (auto simp: word_unat_eq_iff unat_mod_distrib unat_div_distrib)
  obtain m' where L: "leaf_loop (protect_op (root, p)) va 4096 SIZE_4K 0 n m = Return (Ok (), m')"
      "backed m' root P" "frames_kept root m P m' P"
    using protect_pages [OF B, of 0 n va p] sub by (force simp: pages_def)
  have R: "for_each_leaf va len SIZE_4K (protect_op (root, p)) m = Return (Ok (), m')"
    using L(1) l by (simp add: for_each_leaf_def sz)
  have inv: "tree_inv m root" using B by (simp add: backed_def)
  have "unat len < 2 ^ LENGTH(64)" by (rule unsigned_less)
  then have "unat len \<le> 2 ^ 64" by simp
  with protecting.for_each_spec [of m "(root, p)" SIZE_4K len va] inv R
  have "\<forall>va'. address_space m' root va' =
       (if unat (va' - va) < unat len
        then map_option (\<lambda>(pa, _). (pa, effective_prot (feats m) p)) (address_space m root va')
        else address_space m root va')"
    by auto
  then show ?thesis using R L(2,3) by (auto simp: op)
qed

end
