(* ===== verification/Vmm_Session.thy ===== *)
theory Vmm_Session
  imports Vmm_Protect
begin

text \<open>
  The interface of the virtual memory manager as a whole: \<^verbatim>\<open>vmm::alloc\<close>, \<^verbatim>\<open>vmm::free\<close> and
  \<^verbatim>\<open>vmm::protect\<close> on the allocation table, the page-table tree and the frame allocator together, and
  sequences of calls.
\<close>

section \<open>The invariant\<close>

definition in_ranges :: "vmm \<Rightarrow> nat \<Rightarrow> bool" where
  "in_ranges v x \<longleftrightarrow> (\<exists>(b, k)\<in>set (vmm_ranges v). b \<le> x \<and> x < b + k)"

definition range_pages :: "nat \<times> nat \<Rightarrow> vaddr_t set" where
  "range_pages r = pages (of_nat (fst r)) 0 (snd r div 4096)"

definition vmm_pages :: "vmm \<Rightarrow> vaddr_t set" where
  "vmm_pages v = (\<Union>r\<in>set (vmm_ranges v). range_pages r)"

definition kernel_inv :: "paddr_t \<Rightarrow> vmm \<Rightarrow> machine \<Rightarrow> bool" where
  "kernel_inv root v m \<longleftrightarrow> vmm_inv v \<and> backed m root (vmm_pages v) \<and>
     (\<forall>va. window_first \<le> unat va \<and> unat va < window_last \<and> \<not> in_ranges v (unat va) \<longrightarrow>
        address_space m root va = None)"

section \<open>Pages of a range\<close>

lemma unat_pg:
  assumes "unat base + j * 4096 < 2 ^ 64"
  shows "unat (pg base j) = unat base + j * 4096"
proof -
  have "unat (of_nat j * 4096 :: u64) = j * 4096" using assms by (intro unat_page_offset) simp
  then show ?thesis using unat_plus_small [of base "of_nat j * 4096"] assms by (simp add: pg_def)
qed

lemma unat_offset:
  assumes "unat base \<le> unat va"
  shows "unat (va - base) = unat va - unat (base :: u64)"
  using assms by (intro unat_minus_le) (simp add: word_le_nat_alt)

lemma in_offset:
  fixes base va :: u64
  assumes "unat base + k < 2 ^ 64"
  shows "unat (va - base) < k \<longleftrightarrow> unat base \<le> unat va \<and> unat va < unat base + k"
proof (cases "unat base \<le> unat va")
  case True
  then show ?thesis using unat_offset [OF True] by auto
next
  case False
  then have "unat (va - base) = 2 ^ 64 + unat va - unat base"
    using unsigned_less [of base] by (simp add: unat_sub_if')
  then show ?thesis using False assms by simp
qed

lemma range_pages_bounds:
  assumes "x \<in> range_pages (b, k)" "4096 dvd k" "b + k < 2 ^ 64"
  shows "b \<le> unat x" "unat x < b + k"
proof -
  have b: "unat (of_nat b :: u64) = b" using assms(3) by (intro unat_of_nat_small) simp
  obtain j where j: "x = pg (of_nat b) j" "j < k div 4096"
    using assms(1) by (auto simp: range_pages_def pages_def)
  have "j * 4096 < k" using j(2) assms(2) by (auto elim!: dvdE)
  then show "b \<le> unat x" "unat x < b + k"
    using unat_pg [of "of_nat b" j] assms(3) by (simp_all add: j(1) b)
qed

lemma window_valid:
  assumes "window_first \<le> unat va" "unat va < window_last"
  shows "valid va"
proof -
  have "unat (drop_bit 47 va) = unat va div 2 ^ 47"
    by (simp only: unat_drop_bit_eq) (simp add: drop_bit_eq_div)
  also have "\<dots> = 0x1FFFF" using assms by (simp add: div_nat_eqI)
  finally have "drop_bit 47 va = 0x1FFFF" by (simp add: word_unat_eq_iff)
  then show ?thesis by (simp add: valid_def)
qed

lemma window_page:
  assumes "window_first \<le> b" "b + k \<le> window_last" "4096 dvd b" "j < k div 4096" "4096 dvd k"
  shows "page_addr (pg (of_nat b) j)"
proof -
  have b: "unat (of_nat b :: u64) = b" using assms(1,2) by (intro unat_of_nat_small) simp
  have j: "j * 4096 < k" using assms(4,5) by (auto elim!: dvdE)
  have u: "unat (pg (of_nat b) j) = b + j * 4096"
    using unat_pg [of "of_nat b" j] assms(1,2) j by (simp add: b)
  have "valid (pg (of_nat b) j)" using u assms(1,2) j by (intro window_valid) auto
  moreover have "unat (take_bit 12 (pg (of_nat b) j)) = 0"
    using u assms(3) by (simp only: unsigned_take_bit_eq) (auto simp: take_bit_eq_mod elim!: dvdE)
  then have "take_bit 12 (pg (of_nat b) j) = 0" by (simp only: unat_eq_0)
  ultimately show ?thesis by (simp add: page_addr_def)
qed

lemma vmm_range_bounds:
  assumes "vmm_inv v" "(b, k) \<in> set (vmm_ranges v)"
  shows "window_first \<le> b" "b + k + 4096 \<le> window_last" "4096 dvd b" "4096 dvd k" "0 < k" "b + k < 2 ^ 64"
  using assms spaced_bounds [of window_first "vmm_ranges v" window_last b k] by (auto simp: vmm_inv_def)

text \<open>A range that is apart from all others has its pages apart from theirs.\<close>

lemma range_pages_disjoint:
  assumes "4096 dvd k" "b + k < 2 ^ 64" "4096 dvd k'" "c + k' < 2 ^ 64" "c + k' \<le> b \<or> b + k \<le> c"
  shows "range_pages (b, k) \<inter> range_pages (c, k') = {}"
  using range_pages_bounds [OF _ assms(1,2)] range_pages_bounds [OF _ assms(3,4)] assms(5) by fastforce

section \<open>Allocation\<close>

lemma find_gap_Ok:
  assumes inv: "vmm_inv v" and b: "bytes \<noteq> 0" "bytes \<le> VMALLOC_SIZE"
    and gap: "find_gap v (align_up bytes FRAME_SIZE) = Ok index"
  defines "n \<equiv> align_up bytes FRAME_SIZE" and "base \<equiv> gap_start v index"
  defines "v' \<equiv> vmm_insert index \<lparr>a_base = base, a_bytes = n\<rparr> v"
  shows "vmm_inv v'"
    "vmm_ranges v' = take index (vmm_ranges v) @ (unat base, unat n) # drop index (vmm_ranges v)"
    "\<And>c k. (c, k) \<in> set (vmm_ranges v) \<Longrightarrow> c + k + 4096 \<le> unat base \<or> unat base + unat n + 4096 \<le> c"
proof -
  note n = align_up_bytes [OF b, folded n_def]
  have c: "m_count v < 1024" "find_gap_loop v n 0 (m_count v + 1) = Some index"
    using gap inv by (auto simp: find_gap_def vmm_inv_def MAX_ALLOCATIONS_def n_def split: if_splits option.splits)
  have i: "index \<le> m_count v" using find_gap_loop_Some [OF c(2)] by simp
  have fit: "unat (gap_start v index) + unat n + 4096 \<le> unat (gap_end v index)"
    using find_gap_loop_Some [OF c(2)] gap_fits [OF inv i n(3)] by simp
  show inv': "vmm_inv v'" unfolding v'_def base_def using vmm_insert_inv [OF inv i c(1) n(1,2) fit] .
  show r: "vmm_ranges v' = take index (vmm_ranges v) @ (unat base, unat n) # drop index (vmm_ranges v)"
    unfolding v'_def using vmm_insert_ranges [OF inv i c(1)] by simp
  show "c + k + 4096 \<le> unat base \<or> unat base + unat n + 4096 \<le> c" if "(c, k) \<in> set (vmm_ranges v)" for c k
    using spaced_apart [of window_first "take index (vmm_ranges v)" "unat base" "unat n"
        "drop index (vmm_ranges v)" window_last c k] inv' r that by (auto simp: vmm_inv_def)
qed

lemma find_gap_Err: "find_gap v n = Err e \<Longrightarrow> e = OUT_OF_MEMORY"
  by (auto simp: find_gap_def split: if_splits option.splits)

lemma set_insert_at: "set (take i xs @ x # drop i xs) = insert x (set xs)"
  using set_append [of "take i xs" "drop i xs"] by auto

lemma vmm_alloc_spec:
  assumes K: "kernel_inv root v m"
  shows "\<exists>r v' m'. vmm_alloc root bytes p (v, m) = Return (r, v', m') \<and> kernel_inv root v' m' \<and>
    frames_kept root m (vmm_pages v) m' (vmm_pages v') \<and>
    (case r of
       Ok base \<Rightarrow> \<exists>n index. bytes \<noteq> 0 \<and> 4096 dvd n \<and> unat bytes \<le> n \<and> n < unat bytes + 4096 \<and>
         vmm_ranges v' = take index (vmm_ranges v) @ (unat base, n) # drop index (vmm_ranges v) \<and>
         (\<forall>va. if unat base \<le> unat va \<and> unat va < unat base + n
               then address_space m root va = None \<and>
                    (\<exists>pa. address_space m' root va = Some (pa, effective_prot (feats m) p))
               else address_space m' root va = address_space m root va)
     | Err e \<Rightarrow> v' = v \<and> address_space m' root = address_space m root \<and>
         e = (if bytes = 0 \<or> bytes > VMALLOC_SIZE then INVALID_ADDRESS else OUT_OF_MEMORY))"
proof -
  have inv: "vmm_inv v" and B: "backed m root (vmm_pages v)"
    and none: "\<And>va. window_first \<le> unat va \<Longrightarrow> unat va < window_last \<Longrightarrow> \<not> in_ranges v (unat va) \<Longrightarrow>
      address_space m root va = None"
    using K unfolding kernel_inv_def by auto
  show ?thesis
  proof (cases "bytes = 0 \<or> bytes > VMALLOC_SIZE")
    case True
    then show ?thesis using K by (simp add: vmm_alloc_def frames_kept_refl)
  next
    case ok: False
    define sz where "sz = align_up bytes FRAME_SIZE"
    have b: "bytes \<noteq> 0" "bytes \<le> VMALLOC_SIZE" using ok by (auto simp: not_less)
    note sz = align_up_bytes [OF b, folded sz_def]
    show ?thesis
    proof (cases "find_gap v sz")
      case (Inl e)
      then show ?thesis
        using K ok find_gap_Err [OF Inl] by (simp add: vmm_alloc_def sz_def [symmetric] frames_kept_refl)
    next
      case (Inr index)
      define base where "base = gap_start v index"
      define v' where "v' = vmm_insert index \<lparr>a_base = base, a_bytes = sz\<rparr> v"
      note G = find_gap_Ok [OF inv b Inr [unfolded sz_def], folded sz_def, folded base_def, folded v'_def]
      have "(unat base, unat sz) \<in> set (vmm_ranges v')" unfolding G(2) by simp
      note bd = vmm_range_bounds [OF G(1) this]
      let ?N = "unat sz div 4096"
      have N: "?N * 4096 = unat sz" using bd(4) by simp
      have apart: "c + k + 4096 \<le> unat base \<or> unat base + unat sz + 4096 \<le> c"
        if "(c, k) \<in> set (vmm_ranges v)" for c k using G(3) [OF that] .
      have pb: "range_pages (unat base, unat sz) = pages base 0 ?N" by (simp add: range_pages_def)
      have dis: "vmm_pages v \<inter> pages base 0 (0 + ?N) = {}"
      proof -
        have "range_pages (c, k) \<inter> range_pages (unat base, unat sz) = {}" if "(c, k) \<in> set (vmm_ranges v)" for c k
          using vmm_range_bounds [OF inv that] bd apart [OF that] by (intro range_pages_disjoint) auto
        then show ?thesis unfolding vmm_pages_def add_0 pb [symmetric] by fastforce
      qed
      have unmapped: "address_space m root va = None" "\<not> in_ranges v (unat va)"
        if "unat (va - base) \<le> unat sz" for va
      proof -
        have "unat (va - base) < unat sz + 4096" using that by simp
        then have va: "unat base \<le> unat va" "unat va < unat base + (unat sz + 4096)"
          using in_offset [of base "unat sz + 4096" va] bd(2) by auto
        show nr: "\<not> in_ranges v (unat va)"
          using apart va by (fastforce simp: in_ranges_def)
        show "address_space m root va = None"
          using none [OF _ _ nr] va bd(1,2) by simp
      qed
      have pa: "page_addr (pg base j)" if "j < 0 + ?N" for j
        using window_page [of "unat base" "unat sz" j] bd that by simp
      have nz: "address_space m root va = None" if "unat (va - base) \<le> (0 + ?N) * 4096" for va
        using unmapped(1) [of va] that N by simp
      have B0: "backed m root (vmm_pages v \<union> pages base 0 0)" using B by (simp add: pages_def)
      have "unat base + (0 + ?N) * 4096 < 2 ^ 64" using bd(2) N by simp
      from back_loop_spec [OF B0 dis this pa nz, of p]
      obtain r m' where R: "back_loop root base p 0 ?N m = Return (r, m')"
          "backed_result root base p (vmm_pages v) 0 ?N m r m'"
        by auto
      have bk: "vmm_back root base sz p m = Return (r, m')"
        using R(1) by (simp add: vmm_back_def unat_div_distrib window_values)
      have p0: "vmm_pages v \<union> pages base 0 0 = vmm_pages v" by (simp add: pages_def)
      show ?thesis
      proof (cases r)
        case (Inl e)
        have e: "e = OUT_OF_MEMORY" "backed m' root (vmm_pages v)" "frames_kept root m (vmm_pages v) m' (vmm_pages v)"
            "address_space m' root = address_space m root"
          using R(2) p0 unfolding Inl backed_result_def by auto
        have "vmm_alloc root bytes p (v, m) = Return (Err OUT_OF_MEMORY, v, m')"
          using ok Inr bk Inl e(1) by (simp add: vmm_alloc_def sz_def [symmetric] base_def [symmetric])
        moreover have "kernel_inv root v m'" using inv e(2,4) none by (simp add: kernel_inv_def)
        ultimately show ?thesis using e ok by auto
      next
        case (Inr u)
        have e: "backed m' root (vmm_pages v \<union> pages base 0 ?N)"
            "frames_kept root m (vmm_pages v) m' (vmm_pages v \<union> pages base 0 ?N)"
          and as: "\<And>va. if unat (va - base) < unat sz
             then \<exists>pa. address_space m' root va = Some (pa, effective_prot (feats m) p)
             else address_space m' root va = address_space m root va"
          using R(2) p0 N unfolding Inr backed_result_def by auto
        have off: "unat (va - base) < unat sz \<longleftrightarrow> unat base \<le> unat va \<and> unat va < unat base + unat sz" for va
          using in_offset [of base "unat sz" va] bd(2) by simp
        have P': "vmm_pages v' = vmm_pages v \<union> pages base 0 ?N"
          unfolding vmm_pages_def G(2) set_insert_at pb [symmetric] by auto
        have "address_space m' root va = None"
          if "window_first \<le> unat va" "unat va < window_last" "\<not> in_ranges v' (unat va)" for va
        proof -
          have "\<not> in_ranges v (unat va)" "\<not> (unat base \<le> unat va \<and> unat va < unat base + unat sz)"
            using that(3) unfolding in_ranges_def G(2) set_insert_at by auto
          then show ?thesis using as [of va] off [of va] none [OF that(1,2)] by simp
        qed
        then have "kernel_inv root v' m'" using G(1) e(1) P' by (simp add: kernel_inv_def)
        moreover have "vmm_alloc root bytes p (v, m) = Return (Ok base, v', m')"
          using ok \<open>find_gap v sz = Ok index\<close> bk Inr
          by (simp add: vmm_alloc_def sz_def [symmetric] base_def [symmetric] v'_def)
        moreover have "if unat base \<le> unat va \<and> unat va < unat base + unat sz
             then address_space m root va = None \<and> (\<exists>pa. address_space m' root va = Some (pa, effective_prot (feats m) p))
             else address_space m' root va = address_space m root va" for va
          using as [of va] off [of va] unmapped(1) [of va] by auto
        ultimately show ?thesis
          using e(2) G(2) sz b(1) unfolding P' [symmetric] by (auto simp del: One_nat_def)
      qed
    qed
  qed
qed

section \<open>Release\<close>

lemma free_search_spec:
  assumes "index + n = m_count v"
  shows "free_search root base bytes index n (v, m) = Return (Err INVALID_ADDRESS, v, m) \<or>
    (\<exists>i<m_count v. a_base (m_allocations v ! i) = base \<and>
       a_bytes (m_allocations v ! i) = align_up bytes FRAME_SIZE \<and>
       free_search root base bytes index n (v, m) =
         obind (vmm_release root base (align_up bytes FRAME_SIZE) m)
           (\<lambda>m. Return (Ok (), vmm_erase i v, m)))"
  using assms
proof (induction n arbitrary: index)
  case (Suc n)
  show ?case
  proof (cases "a_base (m_allocations v ! index) = base")
    case True
    then show ?thesis
      using Suc.prems by (auto simp: Let_def intro!: exI [of _ index])
  next
    case False
    then show ?thesis using Suc.IH [of "index + 1"] Suc.prems by (simp add: Let_def)
  qed
qed simp

lemma split_ranges:
  assumes "vmm_inv v" "i < m_count v"
  shows "vmm_ranges v = take i (vmm_ranges v) @ vmm_ranges v ! i # drop (i + 1) (vmm_ranges v)"
  using assms length_vmm_ranges [OF assms(1)] by (simp add: id_take_nth_drop)

lemma vmm_free_spec:
  assumes K: "kernel_inv root v m"
  shows "\<exists>r v' m'. vmm_free root ptr bytes (v, m) = Return (r, v', m') \<and> kernel_inv root v' m' \<and>
    frames_kept root m (vmm_pages v) m' (vmm_pages v') \<and>
    (case r of
       Ok _ \<Rightarrow> \<exists>xs ys n. n = unat (align_up bytes FRAME_SIZE) \<and>
         vmm_ranges v = xs @ (unat ptr, n) # ys \<and> vmm_ranges v' = xs @ ys \<and>
         (\<forall>va. address_space m' root va =
            (if unat ptr \<le> unat va \<and> unat va < unat ptr + n then None else address_space m root va))
     | Err e \<Rightarrow> e = INVALID_ADDRESS \<and> v' = v \<and> m' = m)"
proof -
  have inv: "vmm_inv v" and B: "backed m root (vmm_pages v)"
    and none: "\<And>va. window_first \<le> unat va \<Longrightarrow> unat va < window_last \<Longrightarrow> \<not> in_ranges v (unat va) \<Longrightarrow>
      address_space m root va = None"
    using K unfolding kernel_inv_def by auto
  define n where "n = align_up bytes FRAME_SIZE"
  from free_search_spec [of 0 "m_count v" v root ptr bytes m, folded n_def]
  consider (no) "vmm_free root ptr bytes (v, m) = Return (Err INVALID_ADDRESS, v, m)"
    | (yes) i where "i < m_count v" "a_base (m_allocations v ! i) = ptr" "a_bytes (m_allocations v ! i) = n"
      "vmm_free root ptr bytes (v, m) = obind (vmm_release root ptr n m) (\<lambda>m. Return (Ok (), vmm_erase i v, m))"
    by (auto simp: vmm_free_def)
  then show ?thesis
  proof cases
    case no
    then show ?thesis using K by (simp add: frames_kept_refl)
  next
    case yes
    let ?xs = "take i (vmm_ranges v)" and ?ys = "drop (i + 1) (vmm_ranges v)" and ?v' = "vmm_erase i v"
    have nth: "vmm_ranges v ! i = (unat ptr, unat n)" using nth_vmm_ranges [OF inv yes(1)] yes(2,3) by simp
    have rs: "vmm_ranges v = ?xs @ (unat ptr, unat n) # ?ys" using split_ranges [OF inv yes(1)] nth by simp
    have rs': "vmm_ranges ?v' = ?xs @ ?ys" by (rule vmm_erase_ranges [OF inv yes(1)])
    have inv': "vmm_inv ?v'" by (rule vmm_erase_inv [OF inv yes(1)])
    have mem_r: "(unat ptr, unat n) \<in> set (vmm_ranges v)" by (subst rs) simp
    note bd = vmm_range_bounds [OF inv mem_r]
    have apart: "c + k + 4096 \<le> unat ptr \<or> unat ptr + unat n + 4096 \<le> c" if "(c, k) \<in> set (?xs @ ?ys)" for c k
      using spaced_apart [of window_first ?xs "unat ptr" "unat n" ?ys window_last c k] inv that rs
      by (auto simp: vmm_inv_def)
    let ?N = "unat n div 4096"
    have N: "?N * 4096 = unat n" using bd(4) by simp
    have len: "of_nat ?N * 4096 = n"
      using unat_page_offset [of ?N] N bd(6) by (simp add: word_unat_eq_iff)
    have pb: "range_pages (unat ptr, unat n) = pages ptr 0 ?N" by (simp add: range_pages_def)
    have sub: "pages ptr 0 ?N \<subseteq> vmm_pages v" unfolding pb [symmetric] vmm_pages_def using mem_r by blast
    have pos: "0 < ?N" using bd(4,5) N by (cases ?N) auto
    have up: "unat ptr + ?N * 4096 < 2 ^ 64" using bd(6) N by simp
    have guard: "leaf_at m root (pg ptr ?N) = None"
    proof -
      have u: "unat (pg ptr ?N) = unat ptr + unat n" using unat_pg [OF up] N by simp
      have "\<not> in_ranges v (unat ptr + unat n)"
      proof
        assume "in_ranges v (unat ptr + unat n)"
        then obtain c k where ck: "(c, k) \<in> set (vmm_ranges v)" "c \<le> unat ptr + unat n" "unat ptr + unat n < c + k"
          by (auto simp: in_ranges_def)
        then have "(c, k) \<in> set (?xs @ ?ys) \<or> (c, k) = (unat ptr, unat n)"
          using rs by (metis Un_iff set_ConsD set_append)
        then show False using ck apart [of c k] by auto
      qed
      then have "address_space m root (pg ptr ?N) = None" using u bd(1,2) by (intro none) auto
      then show ?thesis by (simp add: leaf_at_None_iff)
    qed
    obtain m' where R: "vmm_release root ptr n m = Return m'" "backed m' root (vmm_pages v - pages ptr 0 ?N)"
        "\<And>va. leaf_at m' root va = (if unat (va - ptr) < unat n then None else leaf_at m root va)"
        "frames_kept root m (vmm_pages v) m' (vmm_pages v - pages ptr 0 ?N)"
      using release_pages [OF B sub pos up guard] unfolding len N by blast
    have P': "vmm_pages v - pages ptr 0 ?N = vmm_pages ?v'"
    proof -
      have "range_pages (c, k) \<inter> pages ptr 0 ?N = {}" if "(c, k) \<in> set (?xs @ ?ys)" for c k
      proof -
        have "(c, k) \<in> set (vmm_ranges v)" by (subst rs) (use that in auto)
        then show ?thesis
          unfolding pb [symmetric] using vmm_range_bounds [OF inv, of c k] bd apart [OF that]
          by (intro range_pages_disjoint) auto
      qed
      moreover have "vmm_pages v = pages ptr 0 ?N \<union> vmm_pages ?v'"
        unfolding vmm_pages_def rs' pb [symmetric] by (subst rs) auto
      moreover have "vmm_pages ?v' = (\<Union>r\<in>set (?xs @ ?ys). range_pages r)" by (simp add: vmm_pages_def rs')
      ultimately show ?thesis by fastforce
    qed
    have as: "address_space m' root va =
        (if unat ptr \<le> unat va \<and> unat va < unat ptr + unat n then None else address_space m root va)" for va
      using R(3) [of va] in_offset [OF bd(6), of va] by (simp add: address_space_def)
    have "address_space m' root va = None"
      if "window_first \<le> unat va" "unat va < window_last" "\<not> in_ranges ?v' (unat va)" for va
    proof (cases "unat ptr \<le> unat va \<and> unat va < unat ptr + unat n")
      case True
      then show ?thesis using as [of va] by simp
    next
      case False
      have "\<not> in_ranges v (unat va)"
        using that(3) False unfolding in_ranges_def rs' by (subst rs) auto
      then show ?thesis using as [of va] none [OF that(1,2)] by simp
    qed
    then have "kernel_inv root ?v' m'" using inv' R(2) P' by (simp add: kernel_inv_def)
    moreover have "vmm_free root ptr bytes (v, m) = Return (Ok (), ?v', m')" using yes(4) R(1) by simp
    moreover have "frames_kept root m (vmm_pages v) m' (vmm_pages ?v')" using R(4) unfolding P' .
    ultimately show ?thesis
      using rs rs' as unfolding n_def [symmetric]
      by (intro exI [of _ "Ok ()"] exI [of _ ?v'] exI [of _ m'] conjI) (simp_all only: sum.case, blast)
  qed
qed

section \<open>Protection\<close>

lemma protect_search_spec:
  assumes "index + n = m_count v"
  shows "(protect_search root first lst p index n (v, m) = Return (Err INVALID_ADDRESS, v, m) \<and>
     (\<forall>i. index \<le> i \<and> i < m_count v \<longrightarrow>
        \<not> (a_base (m_allocations v ! i) \<le> first \<and> lst \<le> a_base (m_allocations v ! i) + a_bytes (m_allocations v ! i)))) \<or>
    (\<exists>i<m_count v. a_base (m_allocations v ! i) \<le> first \<and>
       lst \<le> a_base (m_allocations v ! i) + a_bytes (m_allocations v ! i) \<and>
       protect_search root first lst p index n (v, m) =
         obind (protect_range root first (lst - first) SIZE_4K p m) (\<lambda>(r, m). Return (r, v, m)))"
  using assms
proof (induction n arbitrary: index)
  case (Suc n)
  let ?c = "a_base (m_allocations v ! index) \<le> first \<and>
    lst \<le> a_base (m_allocations v ! index) + a_bytes (m_allocations v ! index)"
  show ?case
  proof (cases ?c)
    case True
    then show ?thesis using Suc.prems by (auto simp: Let_def intro!: exI [of _ index])
  next
    case False
    then have eq: "protect_search root first lst p index (Suc n) (v, m) = protect_search root first lst p (index + 1) n (v, m)"
      by (auto simp: Let_def)
    have "index \<le> i \<longleftrightarrow> i = index \<or> index + 1 \<le> i" for i by auto
    then show ?thesis unfolding eq using Suc.IH [of "index + 1"] Suc.prems False by auto
  qed
qed auto

lemma sub_pages:
  assumes "4096 dvd a" "4096 dvd b" "b \<le> a" "a + n * 4096 \<le> b + k" "b + k < 2 ^ 64"
  shows "pages (of_nat a) 0 n \<subseteq> range_pages (b, k)"
proof
  fix x assume "x \<in> pages (of_nat a) 0 n"
  then obtain j where j: "x = pg (of_nat a) j" "j < n" by (auto simp: pages_def)
  obtain c where c: "a = b + c * 4096"
    using assms(1-3) by (metis dvd_diff_nat dvd_div_mult_self le_add_diff_inverse)
  have "x = pg (of_nat b) (c + j)" by (simp add: j(1) pg_def c algebra_simps)
  moreover have "(c + n) * 4096 \<le> k" using assms(4) c by simp
  then have "c + n \<le> k div 4096" by (simp add: less_eq_div_iff_mult_less_eq)
  ultimately show "x \<in> range_pages (b, k)" using j(2) by (auto simp: range_pages_def pages_def)
qed

lemma round_up_fits:
  fixes a c n :: nat
  assumes "4096 dvd a" "4096 dvd c"
  shows "a + (n + 4095) div 4096 * 4096 \<le> c \<longleftrightarrow> a + n \<le> c"
proof -
  obtain k l where kl: "a = 4096 * k" "c = 4096 * l" using assms by (elim dvdE)
  define q r where "q = (n + 4095) div 4096" and "r = (n + 4095) mod 4096"
  then have q: "q = (n + 4095) div 4096" "q * 4096 + r = n + 4095" "r < 4096" by simp_all
  from q(2,3) have "k + q \<le> l \<longleftrightarrow> 4096 * k + n \<le> 4096 * l" by arith
  then show ?thesis unfolding kl q(1) [symmetric] by linarith
qed

text \<open>The guard of \<^verbatim>\<open>protect\<close> and its range check, over the naturals.\<close>

lemma protect_limit:
  fixes ptr bytes :: u64
  assumes "4096 dvd unat ptr"
    and lst_def: "lst = align_up (ptr + bytes) FRAME_SIZE"
  shows "unat ptr + unat bytes \<le> 2 ^ 64 - 4096 \<Longrightarrow>
      unat lst = unat ptr + (unat bytes + 4095) div 4096 * 4096"
    "2 ^ 64 - 4096 < unat ptr + unat bytes \<Longrightarrow> lst \<le> ptr"
proof -
  obtain c where c: "unat ptr = 4096 * c" using assms(1) by (elim dvdE)
  have "unat ptr < 2 ^ LENGTH(64)" "unat bytes < 2 ^ LENGTH(64)" by (rule unsigned_less)+
  then have lt: "unat bytes < 2 ^ 64" "unat ptr < 2 ^ 64" and c52: "c < 2 ^ 52" using c by simp_all
  have fs: "FRAME_SIZE = 2 ^ 12" by (simp add: FRAME_SIZE_eq)
  show "unat lst = unat ptr + (unat bytes + 4095) div 4096 * 4096" if "unat ptr + unat bytes \<le> 2 ^ 64 - 4096"
  proof -
    have u: "unat (ptr + bytes) = unat ptr + unat bytes" using that by (intro unat_plus_small) simp
    have "unat lst = (unat (ptr + bytes) + 4095) div 4096 * 4096"
      using unat_align_up [of 12 "ptr + bytes"] that u by (simp add: lst_def fs)
    moreover have "(4096 * c + unat bytes + 4095) div 4096 = c + (unat bytes + 4095) div 4096"
      using div_mult_self2 [of 4096 "unat bytes + 4095" c] by (simp add: ac_simps)
    ultimately show ?thesis using u c by simp
  qed
  show "lst \<le> ptr" if "2 ^ 64 - 4096 < unat ptr + unat bytes"
  proof (cases "unat ptr + unat bytes < 2 ^ 64")
    case True
    then have u: "unat (ptr + bytes) = unat ptr + unat bytes" by (intro unat_plus_small) simp
    have "unat (ptr + bytes + 4095) = unat (ptr + bytes) + 4095 - 2 ^ 64"
      using that True u by (simp add: unat_word_ariths mod_if)
    then have "unat lst = 0"
      using that True u unat_align_down [of "ptr + bytes + 4095" 12]
      by (simp add: lst_def fs align_up_eq)
    then show ?thesis by (simp add: word_le_nat_alt)
  next
    case False
    have u: "unat (ptr + bytes) = unat ptr + unat bytes - 2 ^ 64"
      using False lt by (simp add: unat_word_ariths mod_if)
    have small: "unat (ptr + bytes) < unat ptr" using u lt False by simp
    have "unat (ptr + bytes) + 4095 < 2 ^ 64" using small c c52 by simp
    then have "unat lst = (unat (ptr + bytes) + 4095) div 4096 * 4096"
      using unat_align_up [of 12 "ptr + bytes"] by (simp add: lst_def fs)
    also have "\<dots> \<le> unat ptr" using small c by (simp add: less_mult_imp_div_less)
    finally show ?thesis by (simp add: word_le_nat_alt)
  qed
qed

lemma page_aligned_iff: "(ptr :: u64) AND (FRAME_SIZE - 1) = 0 \<longleftrightarrow> 4096 dvd unat ptr"
proof -
  have "FRAME_SIZE - 1 = mask 12" by (simp add: FRAME_SIZE_eq mask_eq_exp_minus_1)
  then have "ptr AND (FRAME_SIZE - 1) = take_bit 12 ptr" by (simp add: take_bit_eq_mask)
  moreover have "unat (take_bit 12 ptr) = unat ptr mod 4096" by (simp only: unsigned_take_bit_eq) (simp add: take_bit_eq_mod)
  ultimately show ?thesis by (metis dvd_eq_mod_eq_0 unat_eq_0)
qed

lemma vmm_protect_spec:
  assumes K: "kernel_inv root v m"
    and n_def: "n = (unat bytes + 4095) div 4096 * 4096"
  shows "\<exists>r m'. vmm_protect root ptr bytes p (v, m) = Return (r, v, m') \<and> kernel_inv root v m' \<and>
    frames_kept root m (vmm_pages v) m' (vmm_pages v) \<and>
    (\<not> isl r \<longleftrightarrow> bytes \<noteq> 0 \<and> 4096 dvd unat ptr \<and>
       (\<exists>(b, k)\<in>set (vmm_ranges v). b \<le> unat ptr \<and> unat ptr + unat bytes \<le> b + k)) \<and>
    (case r of
       Ok _ \<Rightarrow> \<forall>va. address_space m' root va =
         (if unat ptr \<le> unat va \<and> unat va < unat ptr + n
          then map_option (\<lambda>(pa, _). (pa, effective_prot (feats m) p)) (address_space m root va)
          else address_space m root va)
     | Err e \<Rightarrow> e = INVALID_ADDRESS \<and> m' = m)"
proof -
  have inv: "vmm_inv v" and B: "backed m root (vmm_pages v)" using K unfolding kernel_inv_def by auto
  define lst where "lst = align_up (ptr + bytes) FRAME_SIZE"
  let ?in = "\<lambda>b k. b \<le> unat ptr \<and> unat ptr + unat bytes \<le> b + k"
  have err: ?thesis
    if "vmm_protect root ptr bytes p (v, m) = Return (Err INVALID_ADDRESS, v, m)"
      "bytes = 0 \<or> \<not> 4096 dvd unat ptr \<or> (\<forall>(b, k)\<in>set (vmm_ranges v). \<not> ?in b k)"
    using that K by (fastforce simp: frames_kept_refl)
  show ?thesis
  proof (cases "bytes = 0 \<or> \<not> 4096 dvd unat ptr \<or> lst \<le> ptr")
    case True
    have "\<not> ?in b k" if "4096 dvd unat ptr" "lst \<le> ptr" "bytes \<noteq> 0" "(b, k) \<in> set (vmm_ranges v)" for b k
    proof
      assume i: "?in b k"
      then have "unat ptr + unat bytes \<le> 2 ^ 64 - 4096" using vmm_range_bounds(2) [OF inv that(4)] by simp
      then have "unat lst = unat ptr + n" using protect_limit(1) [OF that(1) lst_def] by (simp add: n_def)
      moreover have "0 < unat bytes" using that(3) by (simp add: unat_gt_0)
      then have "0 < n" unfolding n_def by simp
      ultimately show False using that(2) by (simp add: word_le_nat_alt)
    qed
    moreover have "vmm_protect root ptr bytes p (v, m) = Return (Err INVALID_ADDRESS, v, m)"
      using True page_aligned_iff [of ptr] by (auto simp: vmm_protect_def lst_def)
    ultimately show ?thesis using True by (intro err) auto
  next
    case False
    then have al: "4096 dvd unat ptr" and nz: "0 < unat bytes" and lt: "ptr < lst" by (auto simp: unat_gt_0)
    have small: "unat ptr + unat bytes \<le> 2 ^ 64 - 4096"
      using protect_limit(2) [OF al lst_def] lt by (meson not_le)
    have lstu: "unat lst = unat ptr + n" using protect_limit(1) [OF al lst_def small] by (simp add: n_def)
    have len: "unat (lst - ptr) = n" using lt lstu by (subst unat_minus_le) simp_all
    have eq: "vmm_protect root ptr bytes p (v, m) = protect_search root ptr lst p 0 (m_count v) (v, m)"
      using False page_aligned_iff [of ptr] by (simp add: vmm_protect_def lst_def)
    have fits: "a_base (m_allocations v ! i) \<le> ptr \<and> lst \<le> a_base (m_allocations v ! i) + a_bytes (m_allocations v ! i) \<longleftrightarrow>
        ?in (fst (vmm_ranges v ! i)) (snd (vmm_ranges v ! i))" if i: "i < m_count v" for i
    proof -
      let ?b = "unat (a_base (m_allocations v ! i))" and ?k = "unat (a_bytes (m_allocations v ! i))"
      have r: "vmm_ranges v ! i = (?b, ?k)" using nth_vmm_ranges [OF inv i] .
      have "vmm_ranges v ! i \<in> set (vmm_ranges v)" using i length_vmm_ranges [OF inv] by simp
      note bd = vmm_range_bounds [OF inv this [unfolded r]]
      have "unat (a_base (m_allocations v ! i) + a_bytes (m_allocations v ! i)) = ?b + ?k"
        using bd(6) by (intro unat_plus_small) simp
      moreover have "unat ptr + n \<le> ?b + ?k \<longleftrightarrow> unat ptr + unat bytes \<le> ?b + ?k"
        unfolding n_def using al bd(3,4) by (intro round_up_fits) simp_all
      ultimately show ?thesis by (simp add: r word_le_nat_alt lstu)
    qed
    from protect_search_spec [of 0 "m_count v" v root ptr lst p m, folded eq]
    consider (no) "vmm_protect root ptr bytes p (v, m) = Return (Err INVALID_ADDRESS, v, m)"
        "\<And>i. i < m_count v \<Longrightarrow> \<not> ?in (fst (vmm_ranges v ! i)) (snd (vmm_ranges v ! i))"
      | (yes) i where "i < m_count v" "?in (fst (vmm_ranges v ! i)) (snd (vmm_ranges v ! i))"
        "vmm_protect root ptr bytes p (v, m) =
           obind (protect_range root ptr (lst - ptr) SIZE_4K p m) (\<lambda>(r, m). Return (r, v, m))"
      using fits by auto
    then show ?thesis
    proof cases
      case no
      have "\<not> ?in b k" if "(b, k) \<in> set (vmm_ranges v)" for b k
        using no(2) that length_vmm_ranges [OF inv] by (metis fst_conv in_set_conv_nth snd_conv)
      then show ?thesis using no(1) by (intro err) auto
    next
      case yes
      obtain b k where bk: "vmm_ranges v ! i = (b, k)" by force
      have mem_r: "(b, k) \<in> set (vmm_ranges v)" using bk yes(1) length_vmm_ranges [OF inv] by (metis nth_mem)
      note bd = vmm_range_bounds [OF inv mem_r]
      have i: "?in b k" using yes(2) bk by simp
      have up: "unat ptr + n \<le> b + k" using round_up_fits [OF al, of "b + k" "unat bytes"] bd(3,4) i by (simp add: n_def)
      have N: "n = n div 4096 * 4096" "0 < n div 4096" using nz by (simp_all add: n_def)
      have "pages ptr 0 (n div 4096) \<subseteq> vmm_pages v"
        using sub_pages [OF al bd(3), of "n div 4096" k] i up N(1) bd(6) mem_r by (fastforce simp: vmm_pages_def)
      from protect_range_pages [OF B _ N(2) this, of "lst - ptr" p] len N(1)
      obtain m' where R: "protect_range root ptr (lst - ptr) SIZE_4K p m = Return (Ok (), m')"
          "backed m' root (vmm_pages v)" "frames_kept root m (vmm_pages v) m' (vmm_pages v)"
          "\<And>va. address_space m' root va =
             (if unat (va - ptr) < n
              then map_option (\<lambda>(pa, _). (pa, effective_prot (feats m) p)) (address_space m root va)
              else address_space m root va)"
        by auto
      have off: "unat (va - ptr) < n \<longleftrightarrow> unat ptr \<le> unat va \<and> unat va < unat ptr + n" for va
        using in_offset [of ptr n va] up bd(6) by simp
      have none: "address_space m' root va = None \<longleftrightarrow> address_space m root va = None" for va
        unfolding R(4) by (simp add: split_beta)
      have "kernel_inv root v m'" using K R(2) unfolding kernel_inv_def none by blast
      moreover have "vmm_protect root ptr bytes p (v, m) = Return (Ok (), v, m')" using yes(3) R(1) by simp
      ultimately show ?thesis
        using R(3,4) off nz al i mem_r False by (intro exI [of _ "Ok ()"] exI [of _ m']) auto
    qed
  qed
qed

section \<open>Sequences of calls\<close>

inductive vmm_session :: "paddr_t \<Rightarrow> vmm \<times> machine \<Rightarrow> vmm \<times> machine \<Rightarrow> bool" for root s0 where
  start: "vmm_session root s0 s0"
| alloc: "vmm_session root s0 s \<Longrightarrow> vmm_alloc root bytes p s = Return (r, s') \<Longrightarrow> vmm_session root s0 s'"
| free: "vmm_session root s0 s \<Longrightarrow> vmm_free root ptr bytes s = Return (r, s') \<Longrightarrow> vmm_session root s0 s'"
| protect: "vmm_session root s0 s \<Longrightarrow> vmm_protect root ptr bytes p s = Return (r, s') \<Longrightarrow> vmm_session root s0 s'"

text \<open>One call, whichever: the invariant and the account of frames are kept.\<close>

definition call_safe :: "paddr_t \<Rightarrow> vmm_machine \<Rightarrow> vmm_machine \<Rightarrow> bool" where
  "call_safe root s s' \<longleftrightarrow> kernel_inv root (fst s') (snd s') \<and>
     frames_kept root (snd s) (vmm_pages (fst s)) (snd s') (vmm_pages (fst s'))"

lemma calls_safe:
  assumes "kernel_inv root (fst s) (snd s)"
  shows "vmm_alloc root bytes p s = Return (r, s') \<Longrightarrow> call_safe root s s'"
    and "vmm_free root ptr bytes s = Return (r', s') \<Longrightarrow> call_safe root s s'"
    and "vmm_protect root ptr bytes p s = Return (r', s') \<Longrightarrow> call_safe root s s'"
  using vmm_alloc_spec [OF assms, of bytes p] vmm_free_spec [OF assms, of ptr bytes]
    vmm_protect_spec [OF assms refl, of ptr bytes p]
  by (auto simp: call_safe_def)

lemma session_kernel_inv:
  assumes "vmm_session root s0 s" "kernel_inv root (fst s0) (snd s0)"
  shows "call_safe root s0 s"
proof -
  have trans: "call_safe root s0 s2" if "call_safe root s1 s2" "call_safe root s0 s1" for s1 s2
    using that frames_kept_trans unfolding call_safe_def by blast
  have inv: "kernel_inv root (fst s') (snd s')" if "call_safe root s0 s'" for s'
    using that by (simp add: call_safe_def)
  from assms show ?thesis
  proof induction
    case start
    then show ?case by (simp add: call_safe_def frames_kept_refl)
  next
    case (alloc s bytes p r s')
    then show ?case using trans [OF calls_safe(1) [OF inv]] by blast
  next
    case (free s ptr bytes r s')
    then show ?case using trans [OF calls_safe(2) [OF inv]] by blast
  next
    case (protect s ptr bytes p r s')
    then show ?case using trans [OF calls_safe(3) [OF inv]] by blast
  qed
qed

lemma boot_kernel_inv: "kernel_inv 0x101000 vmm_boot_state empty_machine"
  by (simp add: kernel_inv_def vmm_boot_inv vmm_pages_def backed_def empty_machine_inv)

section \<open>Properties\<close>

text \<open>
  C2: \<^verbatim>\<open>vmm::alloc\<close> never panics. A successful call adds exactly one range to the table, at the
  returned base and of the requested size rounded up to pages; all of it was unmapped before
  and is mapped afterwards with the requested protection, and no other translation changes.
  A failing call leaves the table and every translation as they were, also when it ran out
  of frames half way. No frame is lost or used twice.
\<close>

lemma vmm_alloc_correct:
  assumes "kernel_inv root v m"
  shows "\<exists>r v' m'. vmm_alloc root bytes p (v, m) = Return (r, v', m') \<and> kernel_inv root v' m' \<and>
    frames_kept root m (vmm_pages v) m' (vmm_pages v') \<and>
    (case r of
       Ok base \<Rightarrow> \<exists>n index. bytes \<noteq> 0 \<and> 4096 dvd n \<and> unat bytes \<le> n \<and> n < unat bytes + 4096 \<and>
         vmm_ranges v' = take index (vmm_ranges v) @ (unat base, n) # drop index (vmm_ranges v) \<and>
         (\<forall>va. if unat base \<le> unat va \<and> unat va < unat base + n
               then address_space m root va = None \<and>
                    (\<exists>pa. address_space m' root va = Some (pa, effective_prot (feats m) p))
               else address_space m' root va = address_space m root va)
     | Err e \<Rightarrow> v' = v \<and> address_space m' root = address_space m root \<and>
         e = (if bytes = 0 \<or> bytes > VMALLOC_SIZE then INVALID_ADDRESS else OUT_OF_MEMORY))"
  using assms by (rule vmm_alloc_spec)

lemma vmm_alloc_correct_witness:
  "\<exists>r v' m'. vmm_alloc 0x101000 100 KERNEL_DATA (vmm_boot_state, empty_machine) = Return (r, v', m') \<and>
     kernel_inv 0x101000 v' m' \<and> r \<noteq> Err INVALID_ADDRESS"
proof -
  have big: "\<not> ((100 :: u64) = 0 \<or> 100 > VMALLOC_SIZE)" by (simp add: VMALLOC_SIZE_def)
  note C = vmm_alloc_correct [OF boot_kernel_inv, of 100 KERNEL_DATA, unfolded if_not_P [OF big]]
  obtain r v' m' where R: "vmm_alloc 0x101000 100 KERNEL_DATA (vmm_boot_state, empty_machine) = Return (r, v', m')"
      "kernel_inv 0x101000 v' m'" using C by blast
  have "r \<noteq> Err INVALID_ADDRESS" using C R(1) by auto
  with R show ?thesis by blast
qed

text \<open>
  C3: \<^verbatim>\<open>vmm::free\<close> never panics. It reports \<^verbatim>\<open>INVALID_ADDRESS\<close> and changes nothing, or it
  removes exactly the range with that base and size from the table, unmaps exactly its
  addresses and returns its frames.
\<close>

lemma vmm_free_correct:
  assumes "kernel_inv root v m"
  shows "\<exists>r v' m'. vmm_free root ptr bytes (v, m) = Return (r, v', m') \<and> kernel_inv root v' m' \<and>
    frames_kept root m (vmm_pages v) m' (vmm_pages v') \<and>
    (case r of
       Ok _ \<Rightarrow> \<exists>xs ys n. n = unat (align_up bytes FRAME_SIZE) \<and>
         vmm_ranges v = xs @ (unat ptr, n) # ys \<and> vmm_ranges v' = xs @ ys \<and>
         (\<forall>va. address_space m' root va =
            (if unat ptr \<le> unat va \<and> unat va < unat ptr + n then None else address_space m root va))
     | Err e \<Rightarrow> e = INVALID_ADDRESS \<and> v' = v \<and> m' = m)"
  using assms by (rule vmm_free_spec)

lemma vmm_free_correct_witness:
  "vmm_free 0x101000 VMALLOC_BASE 100 (vmm_boot_state, empty_machine) =
     Return (Err INVALID_ADDRESS, vmm_boot_state, empty_machine)"
proof -
  note C = vmm_free_correct [OF boot_kernel_inv, of VMALLOC_BASE 100, unfolded vmm_boot_inv(2)]
  obtain r v' m' where R: "vmm_free 0x101000 VMALLOC_BASE 100 (vmm_boot_state, empty_machine) = Return (r, v', m')"
    using C by blast
  show ?thesis
  proof (cases r)
    case (Inl e)
    then show ?thesis using C R by auto
  next
    case (Inr u)
    then show ?thesis using C R by auto
  qed
qed

text \<open>
  C4: \<^verbatim>\<open>vmm::protect\<close> never panics, moves no page and needs no memory. It succeeds exactly when
  the address is page aligned and the bytes, of which there is at least one, lie in one
  allocation; then every page they touch, and nothing else, has the new protection at the
  frame it had. Otherwise it reports \<^verbatim>\<open>INVALID_ADDRESS\<close> and changes nothing.
\<close>

lemma vmm_protect_correct:
  assumes "kernel_inv root v m"
  shows "\<exists>r m'. vmm_protect root ptr bytes p (v, m) = Return (r, v, m') \<and> kernel_inv root v m' \<and>
    frames_kept root m (vmm_pages v) m' (vmm_pages v) \<and>
    (\<not> isl r \<longleftrightarrow> bytes \<noteq> 0 \<and> 4096 dvd unat ptr \<and>
       (\<exists>(b, k)\<in>set (vmm_ranges v). b \<le> unat ptr \<and> unat ptr + unat bytes \<le> b + k)) \<and>
    (case r of
       Ok _ \<Rightarrow> \<forall>va. address_space m' root va =
         (if unat ptr \<le> unat va \<and> unat va < unat ptr + (unat bytes + 4095) div 4096 * 4096
          then map_option (\<lambda>(pa, _). (pa, effective_prot (feats m) p)) (address_space m root va)
          else address_space m root va)
     | Err e \<Rightarrow> e = INVALID_ADDRESS \<and> m' = m)"
  by (rule vmm_protect_spec [OF assms refl])

lemma vmm_protect_correct_witness:
  "\<exists>r m'. vmm_protect 0x101000 VMALLOC_BASE 100 KERNEL_RODATA (vmm_boot_state, empty_machine) =
     Return (r, vmm_boot_state, m') \<and> r = Err INVALID_ADDRESS \<and> m' = empty_machine"
proof -
  obtain r m' where R: "vmm_protect 0x101000 VMALLOC_BASE 100 KERNEL_RODATA (vmm_boot_state, empty_machine) =
      Return (r, vmm_boot_state, m')" "\<not> isl r \<longleftrightarrow> False"
      "case r of Ok _ \<Rightarrow> True | Err e \<Rightarrow> e = INVALID_ADDRESS \<and> m' = empty_machine"
    using vmm_protect_correct [OF boot_kernel_inv, of VMALLOC_BASE 100 KERNEL_RODATA]
    by (fastforce simp: vmm_boot_inv(2) split: sum.splits)
  then show ?thesis by (cases r) auto
qed

text \<open>
  C1: whatever sequence of allocations, releases and changes of protection the kernel makes, the page tables, the
  allocation table and the frame allocator stay consistent: every allocated page has a frame
  that is neither free nor a table nor used by another page, and the frames in use together
  with the free ones are those the system started with, less static image tables.
\<close>

lemma vmm_session_safe:
  assumes "vmm_session root (v0, m0) (v, m)" "kernel_inv root v0 m0"
  shows "backed m root (vmm_pages v) \<and>
    footprint m root (vmm_pages v) \<subseteq> footprint m0 root (vmm_pages v0) \<and>
    (\<forall>x\<in>footprint m0 root (vmm_pages v0) - footprint m root (vmm_pages v). in_image m0 x)"
  using session_kernel_inv [OF assms(1)] assms(2) by (auto simp: call_safe_def kernel_inv_def frames_kept_def)

lemma vmm_session_safe_witness:
  "\<exists>v m. vmm_session 0x101000 (vmm_boot_state, empty_machine) (v, m) \<and> backed m 0x101000 (vmm_pages v)"
proof -
  obtain r v m where "vmm_alloc 0x101000 100 KERNEL_DATA (vmm_boot_state, empty_machine) = Return (r, v, m)"
    using vmm_alloc_spec [OF boot_kernel_inv, of 100 KERNEL_DATA] by blast
  then have s: "vmm_session 0x101000 (vmm_boot_state, empty_machine) (v, m)"
    by (rule vmm_session.alloc [OF vmm_session.start])
  then show ?thesis using vmm_session_safe [OF s boot_kernel_inv] by blast
qed

end
