(* ===== verification/Atomic.thy ===== *)
theory Atomic
  imports Bits
begin

text \<open>
  \<^verbatim>\<open>kernel/sync/atomic.hpp\<close>: the memory orders and their translation for the compiler's
  builtins, the encoding of a value into its inline storage word, and the members of
  \<^verbatim>\<open>atomic<T>\<close> and \<^verbatim>\<open>atomic_ref<T>\<close>.

  A template instance is given by the functions that encode a value into the storage word
  and decode it. A builtin is the single indivisible access it stands for and is undefined
  (\<open>None\<close>) for an order the compiler documents as invalid; every member returns the new
  storage beside its result. Ordering between different objects is not modelled.
\<close>

section \<open>Memory orders\<close>

datatype memory_order = RELAXED | CONSUME | ACQUIRE | RELEASE | ACQ_REL | SEQ_CST

definition to_builtin_order :: "memory_order \<Rightarrow> int" where
  "to_builtin_order order =
     (case order of RELAXED \<Rightarrow> 0 | CONSUME \<Rightarrow> 1 | ACQUIRE \<Rightarrow> 2 | RELEASE \<Rightarrow> 3 | ACQ_REL \<Rightarrow> 4 | SEQ_CST \<Rightarrow> 5)"

definition to_load_order :: "memory_order \<Rightarrow> int" where
  "to_load_order order =
     (if order \<in> {RELAXED, CONSUME, ACQUIRE, SEQ_CST} then to_builtin_order order
      else to_builtin_order SEQ_CST)"

definition to_store_order :: "memory_order \<Rightarrow> int" where
  "to_store_order order =
     (if order \<in> {RELAXED, RELEASE, SEQ_CST} then to_builtin_order order
      else to_builtin_order SEQ_CST)"

definition default_failure_order :: "memory_order \<Rightarrow> memory_order" where
  "default_failure_order success_order =
     (case success_order of
        RELAXED \<Rightarrow> RELAXED | CONSUME \<Rightarrow> CONSUME | ACQUIRE \<Rightarrow> ACQUIRE
      | RELEASE \<Rightarrow> RELAXED | ACQ_REL \<Rightarrow> ACQUIRE | SEQ_CST \<Rightarrow> SEQ_CST)"

definition to_failure_order :: "memory_order \<Rightarrow> int" where
  "to_failure_order order =
     (case order of
        RELEASE \<Rightarrow> to_builtin_order RELAXED
      | ACQ_REL \<Rightarrow> to_builtin_order ACQUIRE
      | _ \<Rightarrow> to_builtin_order order)"

section \<open>The builtins\<close>

text \<open>The orders each builtin accepts, as the compiler documents them.\<close>

definition load_order_ok :: "int \<Rightarrow> bool" where "load_order_ok order \<longleftrightarrow> order \<in> {0, 1, 2, 5}"
definition store_order_ok :: "int \<Rightarrow> bool" where "store_order_ok order \<longleftrightarrow> order \<in> {0, 3, 5}"
definition rmw_order_ok :: "int \<Rightarrow> bool" where "rmw_order_ok order \<longleftrightarrow> 0 \<le> order \<and> order \<le> 5"

text \<open>
  The failure order of a compare-exchange must be an order for a load and must not be
  stronger than the success order. An order is stronger than another if it gives more
  guarantees: consuming, acquiring, releasing, a single total order.
\<close>

definition order_guarantees :: "int \<Rightarrow> nat set" where
  "order_guarantees order =
     (if order = 0 then {} else if order = 1 then {1} else if order = 2 then {1, 2}
      else if order = 3 then {3} else if order = 4 then {1, 2, 3} else {1, 2, 3, 4})"

definition stronger_order :: "int \<Rightarrow> int \<Rightarrow> bool" where
  "stronger_order a b \<longleftrightarrow> order_guarantees b \<subset> order_guarantees a"

definition compare_exchange_orders_ok :: "int \<Rightarrow> int \<Rightarrow> bool" where
  "compare_exchange_orders_ok success failure \<longleftrightarrow>
     rmw_order_ok success \<and> load_order_ok failure \<and> \<not> stronger_order failure success"

definition builtin_load_n :: "int \<Rightarrow> 's word \<Rightarrow> 's::len word option" where
  "builtin_load_n order st = (if load_order_ok order then Some st else None)"

definition builtin_store_n :: "int \<Rightarrow> 's word \<Rightarrow> 's word \<Rightarrow> 's::len word option" where
  "builtin_store_n order value st = (if store_order_ok order then Some value else None)"

definition builtin_exchange_n :: "int \<Rightarrow> 's word \<Rightarrow> 's word \<Rightarrow> ('s::len word \<times> 's word) option" where
  "builtin_exchange_n order value st = (if rmw_order_ok order then Some (st, value) else None)"

text \<open>The result of a compare-exchange: whether it happened, the expected value as it is
  written back, and the storage. A weak one may fail although the values agree.\<close>

definition builtin_compare_exchange_n ::
  "bool \<Rightarrow> int \<Rightarrow> int \<Rightarrow> 's word \<Rightarrow> 's word \<Rightarrow> 's word \<Rightarrow> (bool \<times> 's::len word \<times> 's word) option" where
  "builtin_compare_exchange_n spurious success failure expected desired st =
     (if compare_exchange_orders_ok success failure
      then Some (if st = expected \<and> \<not> spurious then (True, expected, desired) else (False, st, st))
      else None)"

definition builtin_fetch :: "('s word \<Rightarrow> 's word \<Rightarrow> 's word) \<Rightarrow> int \<Rightarrow> 's word \<Rightarrow> 's word \<Rightarrow> ('s::len word \<times> 's word) option" where
  "builtin_fetch f order value st = (if rmw_order_ok order then Some (st, f st value) else None)"

section \<open>Storage\<close>

text \<open>The number of bits of \<^verbatim>\<open>inline_atomic_storage<Size>\<close>.\<close>

definition inline_atomic_storage :: "nat \<Rightarrow> nat option" where
  "inline_atomic_storage n =
     (if n < 1 \<or> 8 < n then None
      else Some (if n \<le> 1 then 8 else if n \<le> 2 then 16 else if n \<le> 4 then 32 else 64))"

text \<open>
  Values that are not integral are byte sequences; \<open>keep\<close> has a zero bit for every bit of
  padding, which \<^verbatim>\<open>canonicalize_atomic_value\<close> clears. The storage word is filled from its
  low end, as \<^verbatim>\<open>memcpy\<close> does on a little-endian machine, over a zeroed word.
\<close>

definition canonicalize_atomic_value :: "u8 list \<Rightarrow> u8 list \<Rightarrow> u8 list" where
  "canonicalize_atomic_value keep bs = map2 (AND) keep bs"

fun bytes_to_storage :: "u8 list \<Rightarrow> 's::len word" where
  "bytes_to_storage [] = 0"
| "bytes_to_storage (b # bs) = ucast b OR push_bit 8 (bytes_to_storage bs)"

definition storage_to_bytes :: "nat \<Rightarrow> 's::len word \<Rightarrow> u8 list" where
  "storage_to_bytes n st = map (\<lambda>i. ucast (drop_bit (8 * i) st)) [0..<n]"

definition encode_atomic_value :: "u8 list \<Rightarrow> u8 list \<Rightarrow> 's::len word" where
  "encode_atomic_value keep bs = bytes_to_storage (canonicalize_atomic_value keep bs)"

definition decode_atomic_value :: "u8 list \<Rightarrow> 's::len word \<Rightarrow> u8 list" where
  "decode_atomic_value keep st = canonicalize_atomic_value keep (storage_to_bytes (length keep) st)"

text \<open>The casts of the integral instances.\<close>

definition encode_integral :: "'t word \<Rightarrow> 't::len word" where "encode_integral value = value"
definition decode_integral :: "'t word \<Rightarrow> 't::len word" where "decode_integral st = st"
definition encode_bool :: "bool \<Rightarrow> u8" where "encode_bool b = of_bool b"
definition decode_bool :: "u8 \<Rightarrow> bool" where "decode_bool st \<longleftrightarrow> st \<noteq> 0"

definition add_atomic_values :: "'t word \<Rightarrow> 't word \<Rightarrow> 't::len word" where
  "add_atomic_values lhs rhs = decode_integral (encode_integral lhs + encode_integral rhs)"

definition sub_atomic_values :: "'t word \<Rightarrow> 't word \<Rightarrow> 't::len word" where
  "sub_atomic_values lhs rhs = decode_integral (encode_integral lhs - encode_integral rhs)"

section \<open>atomic\<close>

definition atomic_init :: "('t \<Rightarrow> 's::len word) \<Rightarrow> 't \<Rightarrow> 's word" where
  "atomic_init enc value = enc value"

definition atomic_load :: "('s::len word \<Rightarrow> 't) \<Rightarrow> memory_order \<Rightarrow> 's word \<Rightarrow> 't option" where
  "atomic_load dec order st = map_option dec (builtin_load_n (to_load_order order) st)"

definition atomic_store :: "('t \<Rightarrow> 's::len word) \<Rightarrow> 't \<Rightarrow> memory_order \<Rightarrow> 's word \<Rightarrow> 's word option" where
  "atomic_store enc value order st = builtin_store_n (to_store_order order) (enc value) st"

definition atomic_assign :: "('t \<Rightarrow> 's::len word) \<Rightarrow> 't \<Rightarrow> 's word \<Rightarrow> ('t \<times> 's word) option" where
  "atomic_assign enc value st = map_option (Pair value) (atomic_store enc value SEQ_CST st)"

definition atomic_exchange ::
  "('t \<Rightarrow> 's::len word) \<Rightarrow> ('s word \<Rightarrow> 't) \<Rightarrow> 't \<Rightarrow> memory_order \<Rightarrow> 's word \<Rightarrow> ('t \<times> 's word) option" where
  "atomic_exchange enc dec value order st =
     map_option (\<lambda>(old, st). (dec old, st)) (builtin_exchange_n (to_builtin_order order) (enc value) st)"

text \<open>The result is the flag, the updated \<^verbatim>\<open>expected\<close> argument and the storage.\<close>

definition atomic_compare_exchange_gen ::
  "bool \<Rightarrow> ('t \<Rightarrow> 's::len word) \<Rightarrow> ('s word \<Rightarrow> 't) \<Rightarrow> 't \<Rightarrow> 't \<Rightarrow> memory_order \<Rightarrow> memory_order \<Rightarrow>
   's word \<Rightarrow> (bool \<times> 't \<times> 's word) option" where
  "atomic_compare_exchange_gen spurious enc dec expected desired success_order failure_order st =
     (case builtin_compare_exchange_n spurious (to_builtin_order success_order)
             (to_failure_order failure_order) (enc expected) (enc desired) st of
        None \<Rightarrow> None
      | Some (exchanged, expected_storage, st) \<Rightarrow>
          Some (exchanged, if \<not> exchanged then dec expected_storage else expected, st))"

definition compare_exchange where
  "compare_exchange = atomic_compare_exchange_gen False"

definition compare_exchange_weak where
  "compare_exchange_weak spurious = atomic_compare_exchange_gen spurious"

definition compare_exchange_default where
  "compare_exchange_default enc dec expected desired success_order =
     compare_exchange enc dec expected desired success_order (default_failure_order success_order)"

definition compare_exchange_weak_default where
  "compare_exchange_weak_default spurious enc dec expected desired success_order =
     compare_exchange_weak spurious enc dec expected desired success_order (default_failure_order success_order)"

definition atomic_fetch :: "('t word \<Rightarrow> 't word \<Rightarrow> 't word) \<Rightarrow> 't word \<Rightarrow> memory_order \<Rightarrow> 't::len word \<Rightarrow> ('t word \<times> 't word) option" where
  "atomic_fetch f value order st =
     map_option (\<lambda>(old, st). (decode_integral old, st))
       (builtin_fetch f (to_builtin_order order) (encode_integral value) st)"

definition fetch_add :: "'t word \<Rightarrow> memory_order \<Rightarrow> 't::len word \<Rightarrow> ('t word \<times> 't word) option" where
  "fetch_add = atomic_fetch (+)"
definition fetch_sub :: "'t word \<Rightarrow> memory_order \<Rightarrow> 't::len word \<Rightarrow> ('t word \<times> 't word) option" where
  "fetch_sub = atomic_fetch (-)"
definition fetch_and :: "'t word \<Rightarrow> memory_order \<Rightarrow> 't::len word \<Rightarrow> ('t word \<times> 't word) option" where
  "fetch_and = atomic_fetch (AND)"
definition fetch_or :: "'t word \<Rightarrow> memory_order \<Rightarrow> 't::len word \<Rightarrow> ('t word \<times> 't word) option" where
  "fetch_or = atomic_fetch (OR)"
definition fetch_xor :: "'t word \<Rightarrow> memory_order \<Rightarrow> 't::len word \<Rightarrow> ('t word \<times> 't word) option" where
  "fetch_xor = atomic_fetch (XOR)"

definition op_preinc :: "'t::len word \<Rightarrow> ('t word \<times> 't word) option" where
  "op_preinc st = map_option (\<lambda>(old, st). (add_atomic_values old 1, st)) (fetch_add 1 SEQ_CST st)"
definition op_postinc :: "'t::len word \<Rightarrow> ('t word \<times> 't word) option" where
  "op_postinc st = fetch_add 1 SEQ_CST st"
definition op_predec :: "'t::len word \<Rightarrow> ('t word \<times> 't word) option" where
  "op_predec st = map_option (\<lambda>(old, st). (sub_atomic_values old 1, st)) (fetch_sub 1 SEQ_CST st)"
definition op_postdec :: "'t::len word \<Rightarrow> ('t word \<times> 't word) option" where
  "op_postdec st = fetch_sub 1 SEQ_CST st"
definition op_add_assign :: "'t word \<Rightarrow> 't::len word \<Rightarrow> ('t word \<times> 't word) option" where
  "op_add_assign value st = map_option (\<lambda>(old, st). (add_atomic_values old value, st)) (fetch_add value SEQ_CST st)"
definition op_sub_assign :: "'t word \<Rightarrow> 't::len word \<Rightarrow> ('t word \<times> 't word) option" where
  "op_sub_assign value st = map_option (\<lambda>(old, st). (sub_atomic_values old value, st)) (fetch_sub value SEQ_CST st)"
definition op_and_assign :: "'t word \<Rightarrow> 't::len word \<Rightarrow> ('t word \<times> 't word) option" where
  "op_and_assign value st =
     map_option (\<lambda>(old, st). (decode_integral (encode_integral old AND encode_integral value), st))
       (fetch_and value SEQ_CST st)"
definition op_or_assign :: "'t word \<Rightarrow> 't::len word \<Rightarrow> ('t word \<times> 't word) option" where
  "op_or_assign value st =
     map_option (\<lambda>(old, st). (decode_integral (encode_integral old OR encode_integral value), st))
       (fetch_or value SEQ_CST st)"
definition op_xor_assign :: "'t word \<Rightarrow> 't::len word \<Rightarrow> ('t word \<times> 't word) option" where
  "op_xor_assign value st =
     map_option (\<lambda>(old, st). (decode_integral (encode_integral old XOR encode_integral value), st))
       (fetch_xor value SEQ_CST st)"

section \<open>atomic\_ref\<close>

text \<open>The same accesses on a referenced integral or pointer object, without an encoding.\<close>

definition ref_load :: "memory_order \<Rightarrow> 't word \<Rightarrow> 't::len word option" where
  "ref_load order obj = builtin_load_n (to_load_order order) obj"
definition ref_store :: "'t word \<Rightarrow> memory_order \<Rightarrow> 't::len word \<Rightarrow> 't word option" where
  "ref_store value order obj = builtin_store_n (to_store_order order) value obj"
definition ref_exchange :: "'t word \<Rightarrow> memory_order \<Rightarrow> 't::len word \<Rightarrow> ('t word \<times> 't word) option" where
  "ref_exchange value order obj = builtin_exchange_n (to_builtin_order order) value obj"
definition ref_compare_exchange_gen ::
  "bool \<Rightarrow> 't word \<Rightarrow> 't word \<Rightarrow> memory_order \<Rightarrow> memory_order \<Rightarrow> 't::len word \<Rightarrow> (bool \<times> 't word \<times> 't word) option" where
  "ref_compare_exchange_gen spurious expected desired success_order failure_order obj =
     builtin_compare_exchange_n spurious (to_builtin_order success_order)
       (to_failure_order failure_order) expected desired obj"
definition ref_compare_exchange ::
  "'t word \<Rightarrow> 't word \<Rightarrow> memory_order \<Rightarrow> memory_order \<Rightarrow> 't::len word \<Rightarrow> (bool \<times> 't word \<times> 't word) option" where
  "ref_compare_exchange = ref_compare_exchange_gen False"
definition ref_compare_exchange_weak ::
  "bool \<Rightarrow> 't word \<Rightarrow> 't word \<Rightarrow> memory_order \<Rightarrow> memory_order \<Rightarrow> 't::len word \<Rightarrow> (bool \<times> 't word \<times> 't word) option" where
  "ref_compare_exchange_weak spurious = ref_compare_exchange_gen spurious"
definition ref_compare_exchange_default ::
  "bool \<Rightarrow> 't word \<Rightarrow> 't word \<Rightarrow> memory_order \<Rightarrow> 't::len word \<Rightarrow> (bool \<times> 't word \<times> 't word) option" where
  "ref_compare_exchange_default spurious expected desired success_order =
     ref_compare_exchange_gen spurious expected desired success_order (default_failure_order success_order)"
definition ref_fetch :: "('t word \<Rightarrow> 't word \<Rightarrow> 't word) \<Rightarrow> 't word \<Rightarrow> memory_order \<Rightarrow> 't::len word \<Rightarrow> ('t word \<times> 't word) option" where
  "ref_fetch f value order obj = builtin_fetch f (to_builtin_order order) value obj"
definition ref_fetch_add :: "'t word \<Rightarrow> memory_order \<Rightarrow> 't::len word \<Rightarrow> ('t word \<times> 't word) option" where
  "ref_fetch_add = ref_fetch (+)"
definition ref_fetch_sub :: "'t word \<Rightarrow> memory_order \<Rightarrow> 't::len word \<Rightarrow> ('t word \<times> 't word) option" where
  "ref_fetch_sub = ref_fetch (-)"
definition ref_fetch_and :: "'t word \<Rightarrow> memory_order \<Rightarrow> 't::len word \<Rightarrow> ('t word \<times> 't word) option" where
  "ref_fetch_and = ref_fetch (AND)"
definition ref_fetch_or :: "'t word \<Rightarrow> memory_order \<Rightarrow> 't::len word \<Rightarrow> ('t word \<times> 't word) option" where
  "ref_fetch_or = ref_fetch (OR)"
definition ref_fetch_xor :: "'t word \<Rightarrow> memory_order \<Rightarrow> 't::len word \<Rightarrow> ('t word \<times> 't word) option" where
  "ref_fetch_xor = ref_fetch (XOR)"

section \<open>The orders that reach the builtins\<close>

lemma orders_ok [simp]:
  "load_order_ok (to_load_order order)" "store_order_ok (to_store_order order)"
  "rmw_order_ok (to_builtin_order order)" "load_order_ok (to_failure_order order)"
  by (cases order; simp add: to_load_order_def to_store_order_def to_failure_order_def
      to_builtin_order_def load_order_ok_def store_order_ok_def rmw_order_ok_def)+

text \<open>The pairs of orders of which the failure order is too strong.\<close>

definition failure_too_strong :: "memory_order \<Rightarrow> memory_order \<Rightarrow> bool" where
  "failure_too_strong success failure \<longleftrightarrow>
     failure = SEQ_CST \<and> success \<noteq> SEQ_CST \<or>
     failure \<in> {ACQUIRE, ACQ_REL} \<and> success \<in> {RELAXED, CONSUME} \<or>
     failure = CONSUME \<and> success = RELAXED"

lemma compare_exchange_orders [simp]:
  "compare_exchange_orders_ok (to_builtin_order order) (to_failure_order order') \<longleftrightarrow> \<not> failure_too_strong order order'"
  by (cases order; cases order')
    (simp_all add: compare_exchange_orders_ok_def stronger_order_def order_guarantees_def failure_too_strong_def
      to_failure_order_def to_builtin_order_def load_order_ok_def rmw_order_ok_def less_le_not_le)

lemma default_failure_ok [simp]: "\<not> failure_too_strong order (default_failure_order order)"
  by (cases order) (simp_all add: failure_too_strong_def default_failure_order_def)

lemmas atomic_defs =
  builtin_load_n_def builtin_store_n_def builtin_exchange_n_def builtin_compare_exchange_n_def
  builtin_fetch_def atomic_load_def atomic_store_def atomic_assign_def atomic_exchange_def
  atomic_compare_exchange_gen_def compare_exchange_def compare_exchange_weak_def
  compare_exchange_default_def compare_exchange_weak_default_def atomic_fetch_def fetch_add_def
  fetch_sub_def fetch_and_def fetch_or_def fetch_xor_def encode_integral_def decode_integral_def


section \<open>Encodings\<close>

text \<open>
  What the members rely on: decoding an encoded value gives back the value up to its
  padding, and values that agree up to padding have the same storage, so that a
  compare-exchange compares values and never padding.
\<close>

locale atomic_value =
  fixes enc :: "'t \<Rightarrow> 's::len word" and dec :: "'s word \<Rightarrow> 't"
    and canon :: "'t \<Rightarrow> 't" and ok :: "'t \<Rightarrow> bool"
  assumes dec_enc: "ok v \<Longrightarrow> dec (enc v) = canon v"
    and enc_canon: "ok v \<Longrightarrow> enc (canon v) = enc v"
begin

lemma enc_eq_iff: "ok v \<Longrightarrow> ok w \<Longrightarrow> enc v = enc w \<longleftrightarrow> canon v = canon w"
  by (metis dec_enc enc_canon)

lemma load_after_store:
  assumes "ok v"
  shows "\<exists>st'. atomic_store enc v order st = Some st' \<and> atomic_load dec order' st' = Some (canon v)"
  using assms by (simp add: atomic_defs dec_enc)

lemma exchange_spec:
  assumes "ok v" "ok w"
  shows "atomic_exchange enc dec w order (enc v) = Some (canon v, enc w)"
  using assms by (simp add: atomic_defs dec_enc)

lemma compare_exchange_spec:
  assumes "ok v" "ok e" "ok d" "\<not> failure_too_strong order order'"
  shows "compare_exchange enc dec e d order order' (enc v) =
    Some (if canon v = canon e then (True, e, enc d) else (False, canon v, enc v))"
  using assms by (simp add: atomic_defs dec_enc enc_eq_iff)

end

interpretation integral: atomic_value encode_integral decode_integral "\<lambda>v. v" "\<lambda>_. True"
  by unfold_locales (simp_all add: encode_integral_def decode_integral_def)

interpretation boolean: atomic_value encode_bool decode_bool "\<lambda>v. v" "\<lambda>_. True"
  by unfold_locales (simp_all add: encode_bool_def decode_bool_def)

subsection \<open>Byte sequences\<close>

lemma bytes_to_storage_bit:
  "8 * length bs \<le> LENGTH('s) \<Longrightarrow>
     bit (bytes_to_storage bs :: 's::len word) n \<longleftrightarrow> n < 8 * length bs \<and> bit (bs ! (n div 8)) (n mod 8)"
proof (induction bs arbitrary: n)
  case (Cons b bs)
  show ?case
  proof (cases "n < 8")
    case True
    then show ?thesis
      using Cons.prems by (simp add: bit_or_iff bit_push_bit_iff bit_unsigned_iff)
  next
    case False
    then obtain k where k: "n = 8 + k" using le_Suc_ex [of 8 n] by auto
    have "\<not> bit b n" using False by (auto dest: bit_imp_le_length)
    moreover have "(8 + k) div 8 = Suc (k div 8)" by simp
    ultimately show ?thesis
      using Cons.prems Cons.IH [of k]
      by (auto simp: k bit_or_iff bit_push_bit_iff bit_unsigned_iff)
  qed
qed simp

lemma storage_roundtrip:
  assumes "8 * length bs \<le> LENGTH('s)"
  shows "storage_to_bytes (length bs) (bytes_to_storage bs :: 's::len word) = bs"
proof (rule nth_equalityI)
  fix i assume "i < length (storage_to_bytes (length bs) (bytes_to_storage bs :: 's word))"
  then have i: "i < length bs" by (simp add: storage_to_bytes_def)
  show "storage_to_bytes (length bs) (bytes_to_storage bs :: 's word) ! i = bs ! i"
  proof (rule bit_word_eqI)
    fix n assume n: "n < LENGTH(8)"
    have "bit (ucast (drop_bit (8 * i) (bytes_to_storage bs :: 's word)) :: u8) n \<longleftrightarrow>
        bit (bytes_to_storage bs :: 's word) (8 * i + n)"
      using n by (simp add: bit_unsigned_iff bit_drop_bit_eq)
    also have "\<dots> \<longleftrightarrow> bit (bs ! i) n"
      using bytes_to_storage_bit [OF assms, of "8 * i + n"] n i by simp
    finally show "bit (storage_to_bytes (length bs) (bytes_to_storage bs :: 's word) ! i) n \<longleftrightarrow> bit (bs ! i) n"
      using i by (simp add: storage_to_bytes_def)
  qed
qed (simp add: storage_to_bytes_def)

lemma canonicalize_idem:
  "length bs = length keep \<Longrightarrow>
     canonicalize_atomic_value keep (canonicalize_atomic_value keep bs) = canonicalize_atomic_value keep bs"
  by (rule nth_equalityI) (simp_all add: canonicalize_atomic_value_def)

lemma decode_encode:
  assumes "8 * length keep \<le> LENGTH('s)" "length bs = length keep"
  shows "decode_atomic_value keep (encode_atomic_value keep bs :: 's::len word) =
    canonicalize_atomic_value keep bs"
proof -
  have "length (canonicalize_atomic_value keep bs) = length keep"
    using assms(2) by (simp add: canonicalize_atomic_value_def)
  then show ?thesis
    using storage_roundtrip [of "canonicalize_atomic_value keep bs", where 's = 's] assms
    by (simp add: decode_atomic_value_def encode_atomic_value_def canonicalize_idem)
qed

text \<open>
  a value stored in an atomic object of up to eight bytes is loaded back with all its
  value bits, and with its padding cleared; a compare-exchange succeeds exactly if the stored
  value and the expected one agree outside their padding, and writes the stored value back to
  \<^verbatim>\<open>expected\<close> otherwise.
\<close>

lemma atomic_struct_exchange:
  fixes keep :: "u8 list"
  assumes "8 * length keep \<le> LENGTH('s)" "length v = length keep" "length e = length keep" "length d = length keep"
    and "\<not> failure_too_strong order order'"
  defines "enc \<equiv> encode_atomic_value keep :: u8 list \<Rightarrow> 's::len word"
    and "canon \<equiv> canonicalize_atomic_value keep"
  shows "(\<exists>st'. atomic_store enc v order st = Some st' \<and>
       atomic_load (decode_atomic_value keep) order' st' = Some (canon v)) \<and>
    compare_exchange enc (decode_atomic_value keep) e d order order' (enc v) =
      Some (if canon v = canon e then (True, e, enc d) else (False, canon v, enc v))"
proof -
  have "atomic_value enc (decode_atomic_value keep) canon (\<lambda>v. length v = length keep)"
    unfolding enc_def canon_def using assms(1)
    by unfold_locales (simp add: decode_encode, simp add: encode_atomic_value_def canonicalize_idem)
  then show ?thesis
    using atomic_value.load_after_store [of enc "decode_atomic_value keep" canon _ v order st order']
      atomic_value.compare_exchange_spec [of enc "decode_atomic_value keep" canon _ v e d order order'] assms(2-5)
    by blast
qed

text \<open>
  On integral types the read-modify-write operators return the new value and the fetch
  operations the old one, with wrap-around at the width of the type.
\<close>

lemma atomic_arithmetic:
  "fetch_add v order st = Some (st, st + v) \<and> fetch_sub v order st = Some (st, st - v) \<and>
   fetch_and v order st = Some (st, st AND v) \<and> fetch_or v order st = Some (st, st OR v) \<and>
   fetch_xor v order st = Some (st, st XOR v) \<and>
   op_preinc st = Some (st + 1, st + 1) \<and> op_postinc st = Some (st, st + 1) \<and>
   op_predec st = Some (st - 1, st - 1) \<and> op_postdec st = Some (st, st - 1) \<and>
   op_add_assign v st = Some (st + v, st + v) \<and> op_sub_assign v st = Some (st - v, st - v) \<and>
   op_and_assign v st = Some (st AND v, st AND v) \<and> op_or_assign v st = Some (st OR v, st OR v) \<and>
   op_xor_assign v st = Some (st XOR v, st XOR v)"
  by (simp add: atomic_defs op_preinc_def op_postinc_def op_predec_def op_postdec_def
      op_add_assign_def op_sub_assign_def op_and_assign_def op_or_assign_def op_xor_assign_def
      add_atomic_values_def sub_atomic_values_def)

end
