(* ===== verification/Spinlock.thy ===== *)
theory Spinlock
  imports Atomic
begin

text \<open>
  \<^verbatim>\<open>kernel/sync/spinlock.hpp\<close>: the members of \<^verbatim>\<open>spinlock\<close> over its atomic state byte, and
  any number of processors that run critical sections under a \<^verbatim>\<open>spinlock_guard\<close>, as a step
  relation with one indivisible memory access per step. A critical section reads the shared
  data in one step and writes it back in a later one. The lock serialises them: the data is
  always what the completed sections produce one after the other. The models of the memory
  managers rest on this when they take each locked operation as a single transition.
\<close>

section \<open>The lock\<close>

definition SPINLOCK_UNLOCKED :: u8 where "SPINLOCK_UNLOCKED = 0"
definition SPINLOCK_LOCKED :: u8 where "SPINLOCK_LOCKED = 1"

definition spinlock_init :: u8 where
  "spinlock_init = atomic_init encode_integral SPINLOCK_UNLOCKED"

text \<open>The accesses are defined for the orders named here, so the members return a value outright.\<close>

definition try_lock :: "u8 \<Rightarrow> bool \<times> u8" where
  "try_lock st =
     (case compare_exchange encode_integral decode_integral SPINLOCK_UNLOCKED SPINLOCK_LOCKED
             ACQUIRE RELAXED st of
        Some (exchanged, expected, st') \<Rightarrow> (exchanged, st')
      | None \<Rightarrow> (False, st))"

definition unlock :: "u8 \<Rightarrow> u8" where
  "unlock st = (case atomic_store encode_integral SPINLOCK_UNLOCKED RELEASE st of Some st' \<Rightarrow> st' | None \<Rightarrow> st)"

definition is_locked :: "u8 \<Rightarrow> bool" where
  "is_locked st \<longleftrightarrow> atomic_load decode_integral RELAXED st = Some SPINLOCK_LOCKED"

lemma try_lock_spec: "try_lock st = (if st = SPINLOCK_UNLOCKED then (True, SPINLOCK_LOCKED) else (False, st))"
  using integral.compare_exchange_spec [where v = st and e = SPINLOCK_UNLOCKED and d = SPINLOCK_LOCKED
      and order = ACQUIRE and order' = RELAXED]
  by (simp add: try_lock_def encode_integral_def failure_too_strong_def)

lemma unlock_spec [simp]: "unlock st = SPINLOCK_UNLOCKED"
  by (simp add: unlock_def atomic_defs)

lemma is_locked_iff [simp]: "is_locked st \<longleftrightarrow> st = SPINLOCK_LOCKED"
  by (simp add: is_locked_def atomic_defs)

lemma lock_values [simp]: "SPINLOCK_UNLOCKED \<noteq> SPINLOCK_LOCKED" "SPINLOCK_LOCKED \<noteq> SPINLOCK_UNLOCKED"
  by (simp_all add: SPINLOCK_UNLOCKED_def SPINLOCK_LOCKED_def)

lemma spinlock_init_eq [simp]: "spinlock_init = SPINLOCK_UNLOCKED"
  by (simp add: spinlock_init_def atomic_init_def encode_integral_def)

section \<open>Processors under the lock\<close>

text \<open>
  Where a processor is: outside, at the \<^verbatim>\<open>try_lock\<close> of the outer loop of \<^verbatim>\<open>lock\<close>, in the inner
  loop that waits for the byte to change, holding the lock, or holding it with a copy of the
  data read. The function is the effect of its critical section.
\<close>

datatype 'd place =
  Outside
| Trying "'d \<Rightarrow> 'd"
| Waiting "'d \<Rightarrow> 'd"
| Holding "'d \<Rightarrow> 'd"
| Loaded "'d \<Rightarrow> 'd" 'd
| Stored

record 'd system =
  lock_state :: u8
  shared :: 'd
  place_of :: "nat \<Rightarrow> 'd place"
  completed :: "('d \<Rightarrow> 'd) list"

definition holds :: "'d place \<Rightarrow> bool" where
  "holds pl \<longleftrightarrow> (case pl of Holding _ \<Rightarrow> True | Loaded _ _ \<Rightarrow> True | Stored \<Rightarrow> True | _ \<Rightarrow> False)"

definition move :: "nat \<Rightarrow> 'd place \<Rightarrow> 'd system \<Rightarrow> 'd system" where
  "move t pl s = s\<lparr>place_of := (place_of s)(t := pl)\<rparr>"

inductive sys_step :: "'d system \<Rightarrow> 'd system \<Rightarrow> bool" where
  enter: "place_of s t = Outside \<Longrightarrow> sys_step s (move t (Trying f) s)"
| lock_taken: "place_of s t = Trying f \<Longrightarrow> try_lock (lock_state s) = (True, st) \<Longrightarrow>
    sys_step s (move t (Holding f) (s\<lparr>lock_state := st\<rparr>))"
| lock_busy: "place_of s t = Trying f \<Longrightarrow> try_lock (lock_state s) = (False, st) \<Longrightarrow>
    sys_step s (move t (Waiting f) (s\<lparr>lock_state := st\<rparr>))"
| relax: "place_of s t = Waiting f \<Longrightarrow> is_locked (lock_state s) \<Longrightarrow> sys_step s s"
| retry: "place_of s t = Waiting f \<Longrightarrow> \<not> is_locked (lock_state s) \<Longrightarrow> sys_step s (move t (Trying f) s)"
| load_data: "place_of s t = Holding f \<Longrightarrow> sys_step s (move t (Loaded f (shared s)) s)"
| store_data: "place_of s t = Loaded f d \<Longrightarrow>
    sys_step s (move t Stored (s\<lparr>shared := f d, completed := completed s @ [f]\<rparr>))"
| leave: "place_of s t = Stored \<Longrightarrow>
    sys_step s (move t Outside (s\<lparr>lock_state := unlock (lock_state s)\<rparr>))"

definition sys_start :: "'d \<Rightarrow> 'd system" where
  "sys_start d = \<lparr>lock_state = spinlock_init, shared = d, place_of = (\<lambda>_. Outside), completed = []\<rparr>"

inductive sys_reach :: "'d \<Rightarrow> 'd system \<Rightarrow> bool" for d where
  start: "sys_reach d (sys_start d)"
| step: "sys_reach d s \<Longrightarrow> sys_step s s' \<Longrightarrow> sys_reach d s'"

inductive_cases sys_stepE: "sys_step s s'"

section \<open>Invariant\<close>

definition lock_inv :: "'d \<Rightarrow> 'd system \<Rightarrow> bool" where
  "lock_inv d s \<longleftrightarrow>
     lock_state s \<in> {SPINLOCK_UNLOCKED, SPINLOCK_LOCKED} \<and>
     (lock_state s = SPINLOCK_UNLOCKED \<longrightarrow> (\<forall>t. \<not> holds (place_of s t))) \<and>
     (lock_state s = SPINLOCK_LOCKED \<longrightarrow> (\<exists>t. holds (place_of s t))) \<and>
     (\<forall>t u. holds (place_of s t) \<longrightarrow> holds (place_of s u) \<longrightarrow> t = u) \<and>
     (\<forall>t f x. place_of s t = Loaded f x \<longrightarrow> x = shared s) \<and>
     shared s = fold (\<lambda>f. f) (completed s) d"

lemma holds_simps [simp]:
  "\<not> holds Outside" "\<not> holds (Trying f)" "\<not> holds (Waiting f)" "holds (Holding f)" "holds (Loaded f x)"
  "holds Stored"
  by (simp_all add: holds_def)

lemma move_simps [simp]:
  "place_of (move t pl s) u = (if u = t then pl else place_of s u)"
  "lock_state (move t pl s) = lock_state s" "shared (move t pl s) = shared s"
  "completed (move t pl s) = completed s"
  by (simp_all add: move_def)

text \<open>Only the holder changes the lock byte or the data, so each rule is checked against it.\<close>

lemma lock_inv_start: "lock_inv d (sys_start d)"
  by (simp add: lock_inv_def sys_start_def)

lemma lock_invD:
  assumes "lock_inv d s"
  shows "lock_state s = SPINLOCK_UNLOCKED \<or> lock_state s = SPINLOCK_LOCKED"
    "lock_state s = SPINLOCK_UNLOCKED \<Longrightarrow> \<not> holds (place_of s t)"
    "lock_state s = SPINLOCK_LOCKED \<Longrightarrow> \<exists>t. holds (place_of s t)"
    "holds (place_of s t) \<Longrightarrow> holds (place_of s u) \<Longrightarrow> t = u"
    "place_of s t = Loaded f x \<Longrightarrow> x = shared s"
    "shared s = fold (\<lambda>f. f) (completed s) d"
  using assms unfolding lock_inv_def by blast+

lemma lock_inv_outside:
  assumes inv: "lock_inv d s" and "\<not> holds (place_of s t)" "\<not> holds pl"
  shows "lock_inv d (move t pl s)"
proof -
  have same: "holds (place_of (move t pl s) u) = holds (place_of s u)" for u using assms(2,3) by simp
  have "x = shared s" if "place_of (move t pl s) u = Loaded f x" for u f x
    using that assms(3) lock_invD(5) [OF inv] by (auto split: if_splits)
  then show ?thesis
    unfolding lock_inv_def same using inv by (auto simp: lock_inv_def)
qed

lemma lock_inv_step:
  assumes inv: "lock_inv d s" and st: "sys_step s s'"
  shows "lock_inv d s'"
  using st
proof cases
  case (lock_taken t f st)
  then have "lock_state s = SPINLOCK_UNLOCKED" "st = SPINLOCK_LOCKED"
    by (auto simp: try_lock_spec split: if_splits)
  moreover from this have "\<not> holds (place_of s u)" for u using lock_invD(2) [OF inv] by blast
  moreover from this have "place_of s u \<noteq> Loaded g x" for u g x by (metis holds_simps(5))
  ultimately show ?thesis
    unfolding lock_inv_def using lock_taken lock_invD(6) [OF inv] by (auto split: if_splits)
next
  case (store_data t f x)
  have h: "holds (place_of s t)" using store_data(2) by simp
  have "lock_state s = SPINLOCK_LOCKED" using h lock_invD(1,2) [OF inv] by blast
  moreover have "x = shared s" by (rule lock_invD(5) [OF inv store_data(2)])
  moreover have "place_of s u \<noteq> Loaded g y" if "u \<noteq> t" for u g y
    using lock_invD(4) [OF inv h, of u] that by auto
  ultimately show ?thesis
    unfolding lock_inv_def using store_data lock_invD(4) [OF inv h] lock_invD(6) [OF inv]
    by (auto split: if_splits)
next
  case (leave t)
  have h: "holds (place_of s t)" using leave(2) by simp
  have "\<not> holds (place_of s u)" if "u \<noteq> t" for u using lock_invD(4) [OF inv h, of u] that by auto
  then show ?thesis
    unfolding lock_inv_def using leave lock_invD(5,6) [OF inv] by (auto split: if_splits)
next
  case (load_data t f)
  then have h: "holds (place_of s t)" by simp
  have lk: "lock_state s = SPINLOCK_LOCKED" using h lock_invD(1,2) [OF inv] by blast
  have "\<not> holds (place_of s u)" if "u \<noteq> t" for u using lock_invD(4) [OF inv h, of u] that by auto
  moreover from this have "place_of s u \<noteq> Loaded g y" if "u \<noteq> t" for u g y using that by (metis holds_simps(5))
  ultimately show ?thesis
    unfolding lock_inv_def using load_data lk lock_invD(6) [OF inv] by (auto split: if_splits)
next
  case (lock_busy t f st)
  then have "s\<lparr>lock_state := st\<rparr> = s" by (auto simp: try_lock_spec split: if_splits)
  then show ?thesis using lock_busy lock_inv_outside [OF inv] by simp
qed (use inv lock_inv_outside [OF inv] in auto)

lemma reach_lock_inv: "sys_reach d s \<Longrightarrow> lock_inv d s"
  by (induction rule: sys_reach.induct) (auto intro: lock_inv_start lock_inv_step)

section \<open>Progress\<close>

text \<open>The holder can always finish its section, whatever the others do meanwhile.\<close>

lemma release_path:
  assumes "holds (place_of s u)"
  shows "\<exists>s'. sys_step\<^sup>*\<^sup>* s s' \<and> lock_state s' = SPINLOCK_UNLOCKED \<and> (\<forall>t. t \<noteq> u \<longrightarrow> place_of s' t = place_of s t)"
proof -
  have stored: "\<exists>s'. sys_step\<^sup>*\<^sup>* s s' \<and> lock_state s' = SPINLOCK_UNLOCKED \<and> (\<forall>t. t \<noteq> u \<longrightarrow> place_of s' t = place_of s t)"
    if "place_of s u = Stored" for s :: "'a system"
    using sys_step.leave [OF that]
    by (intro exI [of _ "move u Outside (s\<lparr>lock_state := unlock (lock_state s)\<rparr>)"]) auto
  have loaded: "\<exists>s'. sys_step\<^sup>*\<^sup>* s s' \<and> lock_state s' = SPINLOCK_UNLOCKED \<and> (\<forall>t. t \<noteq> u \<longrightarrow> place_of s' t = place_of s t)"
    if "place_of s u = Loaded f d" for s :: "'a system" and f d
  proof -
    let ?s = "move u Stored (s\<lparr>shared := f d, completed := completed s @ [f]\<rparr>)"
    have "sys_step s ?s" by (rule sys_step.store_data [OF that])
    moreover obtain s' where "sys_step\<^sup>*\<^sup>* ?s s'" "lock_state s' = SPINLOCK_UNLOCKED"
        "\<forall>t. t \<noteq> u \<longrightarrow> place_of s' t = place_of ?s t"
      using stored [of ?s] by auto
    ultimately show ?thesis by (intro exI [of _ s']) (auto intro: converse_rtranclp_into_rtranclp)
  qed
  have holding: "\<exists>s'. sys_step\<^sup>*\<^sup>* s s' \<and> lock_state s' = SPINLOCK_UNLOCKED \<and> (\<forall>t. t \<noteq> u \<longrightarrow> place_of s' t = place_of s t)"
    if "place_of s u = Holding f" for s :: "'a system" and f
  proof -
    let ?s = "move u (Loaded f (shared s)) s"
    have "sys_step s ?s" by (rule sys_step.load_data [OF that])
    moreover obtain s' where "sys_step\<^sup>*\<^sup>* ?s s'" "lock_state s' = SPINLOCK_UNLOCKED"
        "\<forall>t. t \<noteq> u \<longrightarrow> place_of s' t = place_of ?s t"
      using loaded [of ?s f "shared s"] by auto
    ultimately show ?thesis by (intro exI [of _ s']) (auto intro: converse_rtranclp_into_rtranclp)
  qed
  show ?thesis using assms stored loaded holding by (cases "place_of s u") auto
qed

lemma take_free_lock:
  assumes "lock_state s = SPINLOCK_UNLOCKED" "place_of s t = Trying f \<or> place_of s t = Waiting f"
  shows "\<exists>s'. sys_step\<^sup>*\<^sup>* s s' \<and> place_of s' t = Holding f"
proof -
  have tk: "\<exists>s'. sys_step s s' \<and> place_of s' t = Holding f"
    if "lock_state s = SPINLOCK_UNLOCKED" "place_of s t = Trying f" for s :: "'a system"
    using sys_step.lock_taken [OF that(2), of SPINLOCK_LOCKED] that(1)
    by (intro exI [of _ "move t (Holding f) (s\<lparr>lock_state := SPINLOCK_LOCKED\<rparr>)"]) (simp add: try_lock_spec)
  show ?thesis
  proof (cases "place_of s t = Trying f")
    case True
    then show ?thesis using tk [OF assms(1)] by blast
  next
    case False
    then have w: "place_of s t = Waiting f" using assms(2) by simp
    have st: "sys_step s (move t (Trying f) s)" using w assms(1) by (intro sys_step.retry) simp_all
    obtain s' where "sys_step (move t (Trying f) s) s'" "place_of s' t = Holding f"
      using tk [of "move t (Trying f) s"] assms(1) by auto
    then show ?thesis using st by (meson converse_rtranclp_into_rtranclp r_into_rtranclp)
  qed
qed

section \<open>Properties\<close>

text \<open>
  C15: in every interleaving of any number of processors, at most one holds the spinlock, the
  state byte is set exactly while one does, and the data the critical sections read and
  write in separate steps is always the result of the completed sections run one after the
  other in the order they completed.
\<close>

lemma spinlock_serialises:
  assumes "sys_reach d s"
  shows "(\<forall>t u. holds (place_of s t) \<longrightarrow> holds (place_of s u) \<longrightarrow> t = u) \<and>
    (is_locked (lock_state s) \<longleftrightarrow> (\<exists>t. holds (place_of s t))) \<and>
    shared s = fold (\<lambda>f. f) (completed s) d"
  using reach_lock_inv [OF assms] unfolding lock_inv_def by auto

definition sample_run :: "nat system" where
  "sample_run = move 0 (Holding Suc) (move 0 (Trying Suc) (sys_start 0)\<lparr>lock_state := SPINLOCK_LOCKED\<rparr>)"

lemma sample_run_reach: "sys_reach 0 sample_run"
proof -
  have "sys_reach 0 (move 0 (Trying Suc) (sys_start 0))"
    by (rule sys_reach.step [OF sys_reach.start], rule sys_step.enter) (simp add: sys_start_def)
  then show ?thesis
    unfolding sample_run_def
    by (rule sys_reach.step, intro sys_step.lock_taken) (simp_all add: sys_start_def try_lock_spec)
qed

lemma spinlock_serialises_witness: "is_locked (lock_state sample_run) \<and> holds (place_of sample_run 0)"
  using spinlock_serialises [OF sample_run_reach] by (auto simp: sample_run_def)

text \<open>
  C16: the lock cannot deadlock: from every reachable state, a processor that is waiting for the
  lock can still come to hold it, with the critical section it asked for.
\<close>

lemma spinlock_progress:
  assumes "sys_reach d s" "place_of s t = Trying f \<or> place_of s t = Waiting f"
  shows "\<exists>s'. sys_step\<^sup>*\<^sup>* s s' \<and> place_of s' t = Holding f"
proof (cases "lock_state s = SPINLOCK_UNLOCKED")
  case True
  then show ?thesis by (rule take_free_lock [OF _ assms(2)])
next
  case False
  note inv = reach_lock_inv [OF assms(1)]
  obtain u where u: "holds (place_of s u)" using False lock_invD(1,3) [OF inv] by blast
  then have "u \<noteq> t" using assms(2) by auto
  obtain s1 where s1: "sys_step\<^sup>*\<^sup>* s s1" "lock_state s1 = SPINLOCK_UNLOCKED" "\<forall>t. t \<noteq> u \<longrightarrow> place_of s1 t = place_of s t"
    using release_path [OF u] by blast
  then have "place_of s1 t = Trying f \<or> place_of s1 t = Waiting f" using assms(2) \<open>u \<noteq> t\<close> by simp
  from take_free_lock [OF s1(2) this] s1(1) show ?thesis by (meson rtranclp_trans)
qed

lemma spinlock_progress_witness:
  "\<exists>s'. sys_step\<^sup>*\<^sup>* (move 1 (Trying (\<lambda>n. n + 2)) sample_run) s' \<and> place_of s' 1 = Holding (\<lambda>n. n + 2)"
proof -
  have "sys_reach 0 (move 1 (Trying (\<lambda>n. n + 2)) sample_run)"
    by (rule sys_reach.step [OF sample_run_reach], rule sys_step.enter) (simp add: sample_run_def sys_start_def)
  from spinlock_progress [OF this] show ?thesis by simp
qed

end
