(* ===== verification/Format_Spec.thy ===== *)
theory Format_Spec
  imports Bits
begin

text \<open>
  \<^verbatim>\<open>kernel/debug/format_spec.hpp\<close>: the compile-time parser of \<^verbatim>\<open>kprint\<close> format strings. The
  functions work on indices into the format string as the code does; \<^verbatim>\<open>usize\<close> numbers read
  from the string are 64-bit words and wrap.
\<close>

definition MAX_FORMAT_WIDTH :: u64 where "MAX_FORMAT_WIDTH = 128"
definition MAX_FLOAT_PRECISION :: u64 where "MAX_FLOAT_PRECISION = 18"

datatype presentation =
  P_DEFAULT | P_DECIMAL | P_HEX_LOWER | P_HEX_UPPER | P_POINTER | P_FIXED | P_STRING | P_CHARACTER

datatype format_align = A_DEFAULT | A_LEFT | A_RIGHT | A_CENTER

datatype format_sign = S_DEFAULT | S_PLUS | S_SPACE

record format_spec =
  presentation_value :: presentation
  f_align :: format_align
  f_sign :: format_sign
  f_fill :: char
  f_alternate :: bool
  f_zero_pad :: bool
  f_has_width :: bool
  f_width :: u64
  f_has_precision :: bool
  f_precision :: u64

record format_field =
  ff_valid :: bool
  ff_length :: nat
  ff_spec :: format_spec

record format_parse_result =
  pr_valid :: bool
  pr_field_count :: nat

definition default_format_spec :: format_spec where
  "default_format_spec =
     \<lparr>presentation_value = P_DEFAULT, f_align = A_DEFAULT, f_sign = S_DEFAULT, f_fill = CHR '' '',
      f_alternate = False, f_zero_pad = False, f_has_width = False, f_width = 0,
      f_has_precision = False, f_precision = 0\<rparr>"

definition invalid_format_field :: format_field where
  "invalid_format_field = \<lparr>ff_valid = False, ff_length = 0, ff_spec = default_format_spec\<rparr>"

definition is_format_digit :: "char \<Rightarrow> bool" where
  "is_format_digit c \<longleftrightarrow> of_char c \<ge> (48 :: nat) \<and> of_char c \<le> (57 :: nat)"

definition format_digit_value :: "char \<Rightarrow> u64" where
  "format_digit_value c = of_char c - 48"

definition is_format_align :: "char \<Rightarrow> bool" where
  "is_format_align c \<longleftrightarrow> c = CHR ''<'' \<or> c = CHR ''>'' \<or> c = CHR ''^''"

definition parse_format_align :: "char \<Rightarrow> format_align" where
  "parse_format_align c =
     (if c = CHR ''<'' then A_LEFT else if c = CHR ''>'' then A_RIGHT
      else if c = CHR ''^'' then A_CENTER else A_DEFAULT)"

definition format_char_at :: "string \<Rightarrow> nat \<Rightarrow> char" where
  "format_char_at fmt index = (if index \<ge> length fmt then CHR 0x00 else fmt ! index)"

section \<open>One replacement field\<close>

text \<open>The digit loops: they add the digits from \<open>index\<close> on to \<open>n\<close>.\<close>

function parse_digits :: "string \<Rightarrow> nat \<Rightarrow> u64 \<Rightarrow> nat \<times> u64" where
  "parse_digits fmt index n =
     (if index < length fmt \<and> is_format_digit (fmt ! index)
      then parse_digits fmt (index + 1) (n * 10 + format_digit_value (fmt ! index))
      else (index, n))"
  by auto
termination by (relation "measure (\<lambda>(fmt, index, n). length fmt - index)") auto

declare parse_digits.simps [simp del]

text \<open>The steps of \<^verbatim>\<open>parse_field_at\<close>, in its order.\<close>

definition parse_alignment :: "string \<Rightarrow> nat \<Rightarrow> format_spec \<Rightarrow> nat \<times> format_spec" where
  "parse_alignment fmt index spec =
     (if index + 1 < length fmt \<and> is_format_align (fmt ! (index + 1))
      then (index + 2, spec\<lparr>f_fill := fmt ! index, f_align := parse_format_align (fmt ! (index + 1))\<rparr>)
      else if is_format_align (fmt ! index)
      then (index + 1, spec\<lparr>f_align := parse_format_align (fmt ! index)\<rparr>)
      else (index, spec))"

definition parse_sign :: "string \<Rightarrow> nat \<Rightarrow> format_spec \<Rightarrow> nat \<times> format_spec" where
  "parse_sign fmt index spec =
     (if index < length fmt \<and> fmt ! index = CHR ''+'' then (index + 1, spec\<lparr>f_sign := S_PLUS\<rparr>)
      else if index < length fmt \<and> fmt ! index = CHR '' '' then (index + 1, spec\<lparr>f_sign := S_SPACE\<rparr>)
      else (index, spec))"

definition parse_alternate :: "string \<Rightarrow> nat \<Rightarrow> format_spec \<Rightarrow> nat \<times> format_spec" where
  "parse_alternate fmt index spec =
     (if index < length fmt \<and> fmt ! index = CHR ''#'' then (index + 1, spec\<lparr>f_alternate := True\<rparr>)
      else (index, spec))"

definition parse_zero_pad :: "string \<Rightarrow> nat \<Rightarrow> format_spec \<Rightarrow> nat \<times> format_spec" where
  "parse_zero_pad fmt index spec =
     (if index < length fmt \<and> fmt ! index = CHR ''0''
      then (index + 1,
            spec\<lparr>f_zero_pad := True,
                 f_align := (if f_align spec = A_DEFAULT then A_RIGHT else f_align spec)\<rparr>)
      else (index, spec))"

definition parse_width :: "string \<Rightarrow> nat \<Rightarrow> format_spec \<Rightarrow> (nat \<times> format_spec) option" where
  "parse_width fmt index spec =
     (let (index', w) = parse_digits fmt index (f_width spec);
          spec = (if index' > index then spec\<lparr>f_has_width := True, f_width := w\<rparr> else spec)
      in if f_has_width spec \<and> f_width spec > MAX_FORMAT_WIDTH then None else Some (index', spec))"

definition parse_precision :: "string \<Rightarrow> nat \<Rightarrow> format_spec \<Rightarrow> (nat \<times> format_spec) option" where
  "parse_precision fmt index spec =
     (if index < length fmt \<and> fmt ! index = CHR ''.'' then
        let index = index + 1
        in if index \<ge> length fmt \<or> \<not> is_format_digit (fmt ! index) then None
           else
             let (index, n) = parse_digits fmt index (f_precision spec)
             in if n > MAX_FLOAT_PRECISION then None
                else Some (index, spec\<lparr>f_has_precision := True, f_precision := n\<rparr>)
      else Some (index, spec))"

definition presentation_of :: "char \<Rightarrow> presentation option" where
  "presentation_of c =
     (if c = CHR ''d'' then Some P_DECIMAL
      else if c = CHR ''x'' then Some P_HEX_LOWER
      else if c = CHR ''X'' then Some P_HEX_UPPER
      else if c = CHR ''p'' then Some P_POINTER
      else if c = CHR ''f'' then Some P_FIXED
      else if c = CHR ''s'' then Some P_STRING
      else if c = CHR ''c'' then Some P_CHARACTER
      else None)"

definition parse_type :: "string \<Rightarrow> nat \<Rightarrow> format_spec \<Rightarrow> (nat \<times> format_spec) option" where
  "parse_type fmt index spec =
     (if index < length fmt \<and> fmt ! index \<noteq> CHR ''}'' then
        (case presentation_of (fmt ! index) of
           None \<Rightarrow> None
         | Some p \<Rightarrow> Some (index + 1, spec\<lparr>presentation_value := p\<rparr>))
      else Some (index, spec))"

definition parse_field_at :: "string \<Rightarrow> nat \<Rightarrow> format_field" where
  "parse_field_at fmt offset =
     (if offset + 1 \<ge> length fmt \<or> fmt ! offset \<noteq> CHR ''{'' then invalid_format_field
      else if fmt ! (offset + 1) = CHR ''}''
      then \<lparr>ff_valid = True, ff_length = 2, ff_spec = default_format_spec\<rparr>
      else if fmt ! (offset + 1) \<noteq> CHR '':'' then invalid_format_field
      else if offset + 2 \<ge> length fmt then invalid_format_field
      else
        let (index, spec) = parse_alignment fmt (offset + 2) default_format_spec;
            (index, spec) = parse_sign fmt index spec;
            (index, spec) = parse_alternate fmt index spec;
            (index, spec) = parse_zero_pad fmt index spec
        in case parse_width fmt index spec of
             None \<Rightarrow> invalid_format_field
           | Some (index, spec) \<Rightarrow>
               (case parse_precision fmt index spec of
                  None \<Rightarrow> invalid_format_field
                | Some (index, spec) \<Rightarrow>
                    (case parse_type fmt index spec of
                       None \<Rightarrow> invalid_format_field
                     | Some (index, spec) \<Rightarrow>
                         if index \<ge> length fmt \<or> fmt ! index \<noteq> CHR ''}'' then invalid_format_field
                         else \<lparr>ff_valid = True, ff_length = index - offset + 1, ff_spec = spec\<rparr>)))"

section \<open>A field lies inside the string\<close>

lemma parse_digits_index: "index \<le> fst (parse_digits fmt index n)"
proof (induction fmt index n rule: parse_digits.induct)
  case (1 fmt index n)
  then show ?case by (subst parse_digits.simps) auto
qed

lemma parse_steps_index:
  "index \<le> fst (parse_alignment fmt index spec)" "index \<le> fst (parse_sign fmt index spec)"
  "index \<le> fst (parse_alternate fmt index spec)" "index \<le> fst (parse_zero_pad fmt index spec)"
  "parse_width fmt index spec = Some (i, s) \<Longrightarrow> index \<le> i"
  "parse_precision fmt index spec = Some (i, s) \<Longrightarrow> index \<le> i"
  "parse_type fmt index spec = Some (i, s) \<Longrightarrow> index \<le> i"
  using parse_digits_index [of index fmt "f_width spec"] parse_digits_index [of "index + 1" fmt "f_precision spec"]
  by (auto simp: parse_alignment_def parse_sign_def parse_alternate_def parse_zero_pad_def
      parse_width_def parse_precision_def parse_type_def Let_def
      split: if_splits option.splits prod.splits)

lemma parse_field_bounds:
  assumes "ff_valid (parse_field_at fmt offset)"
  shows "2 \<le> ff_length (parse_field_at fmt offset)"
    "offset + ff_length (parse_field_at fmt offset) \<le> length fmt" "fmt ! offset = CHR ''{''"
    "fmt ! (offset + ff_length (parse_field_at fmt offset) - 1) = CHR ''}''"
proof -
  obtain i1 s1 where 1: "parse_alignment fmt (offset + 2) default_format_spec = (i1, s1)" by force
  obtain i2 s2 where 2: "parse_sign fmt i1 s1 = (i2, s2)" by force
  obtain i3 s3 where 3: "parse_alternate fmt i2 s2 = (i3, s3)" by force
  obtain i4 s4 where 4: "parse_zero_pad fmt i3 s3 = (i4, s4)" by force
  have le: "offset + 2 \<le> i4"
    using parse_steps_index(1) [of "offset + 2" fmt default_format_spec] parse_steps_index(2) [of i1 fmt s1]
      parse_steps_index(3) [of i2 fmt s2] parse_steps_index(4) [of i3 fmt s3] 1 2 3 4 by simp
  let ?f = "parse_field_at fmt offset"
  have short: "\<not> (offset + 1 \<ge> length fmt \<or> fmt ! offset \<noteq> CHR ''{'')"
    using assms by (auto simp: parse_field_at_def invalid_format_field_def split: if_splits)
  have "2 \<le> ff_length ?f \<and> offset + ff_length ?f \<le> length fmt \<and> fmt ! offset = CHR ''{'' \<and>
      fmt ! (offset + ff_length ?f - 1) = CHR ''}''"
  proof (cases "fmt ! (offset + 1) = CHR ''}''")
    case True
    then show ?thesis using short by (simp add: parse_field_at_def)
  next
    case False
    have inv: "\<not> ff_valid invalid_format_field" by (simp add: invalid_format_field_def)
    note f = parse_field_at_def [of fmt offset, unfolded if_not_P [OF short] if_not_P [OF False] 1 2 3 4 Let_def prod.case]
    obtain i5 s5 where 5: "parse_width fmt i4 s4 = Some (i5, s5)"
      using assms f inv by (cases "parse_width fmt i4 s4") (auto split: if_splits)
    obtain i6 s6 where 6: "parse_precision fmt i5 s5 = Some (i6, s6)"
      using assms f inv 5 by (cases "parse_precision fmt i5 s5") (auto split: if_splits)
    obtain i7 s7 where 7: "parse_type fmt i6 s6 = Some (i7, s7)"
      using assms f inv 5 6 by (cases "parse_type fmt i6 s6") (auto split: if_splits)
    have end7: "i7 < length fmt" "fmt ! i7 = CHR ''}''" "?f = \<lparr>ff_valid = True, ff_length = i7 - offset + 1, ff_spec = s7\<rparr>"
      using assms f inv 5 6 7 by (auto split: if_splits)
    have "offset + 2 \<le> i7"
      using le parse_steps_index(5) [OF 5] parse_steps_index(6) [OF 6] parse_steps_index(7) [OF 7] by linarith
    then show ?thesis using short end7 by simp
  qed
  then show "2 \<le> ff_length (parse_field_at fmt offset)"
    "offset + ff_length (parse_field_at fmt offset) \<le> length fmt" "fmt ! offset = CHR ''{''"
    "fmt ! (offset + ff_length (parse_field_at fmt offset) - 1) = CHR ''}''"
    by blast+
qed

section \<open>The whole string\<close>

text \<open>The loop of \<^verbatim>\<open>parse_format\<close>.\<close>

function parse_format_from :: "string \<Rightarrow> nat \<Rightarrow> nat \<Rightarrow> format_parse_result" where
  "parse_format_from fmt index field_count =
     (if index < length fmt then
        let c = fmt ! index
        in if c = CHR ''{'' then
             (if index + 1 < length fmt \<and> fmt ! (index + 1) = CHR ''{''
              then parse_format_from fmt (index + 2) field_count
              else if ff_valid (parse_field_at fmt index)
              then parse_format_from fmt (index + ff_length (parse_field_at fmt index)) (field_count + 1)
              else \<lparr>pr_valid = False, pr_field_count = field_count\<rparr>)
           else if c = CHR ''}'' then
             (if index + 1 < length fmt \<and> fmt ! (index + 1) = CHR ''}''
              then parse_format_from fmt (index + 2) field_count
              else \<lparr>pr_valid = False, pr_field_count = field_count\<rparr>)
           else parse_format_from fmt (index + 1) field_count
      else \<lparr>pr_valid = True, pr_field_count = field_count\<rparr>)"
  by auto
termination
  by (relation "measure (\<lambda>(fmt, index, n). length fmt - index)")
    (auto dest: parse_field_bounds(1))

declare parse_format_from.simps [simp del]

definition parse_format :: "string \<Rightarrow> format_parse_result" where
  "parse_format fmt = parse_format_from fmt 0 0"

function run_end :: "string \<Rightarrow> nat \<Rightarrow> nat" where
  "run_end fmt index =
     (if index < length fmt \<and> \<not> (fmt ! index = CHR ''{'' \<or> fmt ! index = CHR ''}'')
      then run_end fmt (index + 1) else index)"
  by auto
termination by (relation "measure (\<lambda>(fmt, index). length fmt - index)") auto

definition literal_run_length :: "string \<Rightarrow> nat \<Rightarrow> nat" where
  "literal_run_length fmt I = run_end fmt I - I"

declare run_end.simps [simp del]

end
