(* ===== verification/Long_Double.thy ===== *)
theory Long_Double
  imports Prelude "HOL-Library.Countable"
begin

text \<open>
  The arithmetic of the 80-bit \<^verbatim>\<open>long double\<close> as the formatter uses it: exact results on rational
  numbers, rounded to the nearest number with a 64-bit significand, ties to even. The
  operations here stay far from the limits of the exponent, which is therefore unbounded.
  The kernel itself is compiled without the floating-point unit (\<^verbatim>\<open>-mno-80387\<close>) and formats no such
  value; the formatter is a template that code built with the unit can instantiate.
\<close>

section \<open>Rounding to a 64-bit significand\<close>

function bit_length :: "int \<Rightarrow> int" where
  "bit_length n = (if n \<le> 0 then 0 else bit_length (n div 2) + 1)"
  by auto
termination
  by (relation "measure nat") auto

declare bit_length.simps [simp del]

definition exponent_of :: "rat \<Rightarrow> int" where
  "exponent_of x =
     (let (a, b) = quotient_of x;
          k = bit_length a - bit_length b
      in if 2 powi k \<le> x then k else k - 1)"

definition half_even :: "rat \<Rightarrow> int" where
  "half_even x =
     (let n = \<lfloor>x\<rfloor>; d = x - of_int n
      in if d < 1 / 2 then n else if d > 1 / 2 then n + 1 else if even n then n else n + 1)"

definition ld_round :: "rat \<Rightarrow> rat" where
  "ld_round x =
     (if x \<le> 0 then 0
      else let e = exponent_of x - 63 in of_int (half_even (x / 2 powi e)) * 2 powi e)"

text \<open>The numbers of the format: 64-bit significands at any exponent.\<close>

definition representable :: "rat \<Rightarrow> bool" where
  "representable x \<longleftrightarrow> (\<exists>n e. n < (2 :: nat) ^ 64 \<and> x = of_nat n * 2 powi e)"

text \<open>A value: the sign of an infinity is kept, a zero has none.\<close>

datatype long_double = Nan | Inf bool | Finite rat

text \<open>The conversion to an unsigned integer truncates; from 2^64 on it is undefined.\<close>

definition ld_to_u64 :: "rat \<Rightarrow> u64 option" where
  "ld_to_u64 x = (if x < 2 ^ 64 then Some (of_int \<lfloor>x\<rfloor>) else None)"

section \<open>Laws of rounding\<close>

lemma two_powi_pos [simp]: "0 < (2 :: rat) powi e" by (rule zero_less_power_int) simp

lemma two_powi_add: "(2 :: rat) powi a * 2 powi b = 2 powi (a + b)"
  by (simp add: power_int_add)

lemma bit_length_bounds: "0 < n \<Longrightarrow> 2 powi (bit_length n - 1) \<le> rat_of_int n \<and> rat_of_int n < 2 powi bit_length n"
proof (induction n rule: bit_length.induct)
  case (1 n)
  have b: "bit_length n = bit_length (n div 2) + 1" using 1(2) by (subst bit_length.simps) simp
  show ?case
  proof (cases "n = 1")
    case True
    moreover have "bit_length 1 = 1" by (simp add: bit_length.simps)
    ultimately show ?thesis by simp
  next
    case False
    then have I: "2 powi (bit_length (n div 2) - 1) \<le> rat_of_int (n div 2)" "rat_of_int (n div 2) < 2 powi bit_length (n div 2)"
      using 1 by auto
    define m where "m = n div 2"
    have "2 * m \<le> n" "n + 1 \<le> 2 * (m + 1)" unfolding m_def by presburger+
    then have "rat_of_int (2 * m) \<le> of_int n" "rat_of_int (n + 1) \<le> of_int (2 * (m + 1))" by (simp_all only: of_int_le_iff)
    then have M: "2 * rat_of_int m \<le> of_int n" "rat_of_int n + 1 \<le> 2 * (rat_of_int m + 1)" by simp_all
    have C: "rat_of_int m + 1 \<le> 2 powi bit_length m"
    proof (cases "0 \<le> bit_length m")
      case True
      then have "(2 :: rat) powi bit_length m = of_int (2 ^ nat (bit_length m))" by (simp add: power_int_def)
      then show ?thesis using I(2) unfolding m_def [symmetric] by (metis of_int_1 of_int_add of_int_le_iff of_int_less_iff zless_imp_add1_zle)
    next
      case False
      then have "(2 :: rat) powi bit_length m \<le> 2 powi 0" by (intro power_int_increasing) simp_all
      then show ?thesis using I(2) 1(2) False unfolding m_def [symmetric] by (subst (asm) bit_length.simps) (auto split: if_splits)
    qed
    have lo: "2 * 2 powi (bit_length m - 1) \<le> rat_of_int n"
      using I(1) M(1) unfolding m_def [symmetric] by linarith
    have "rat_of_int n + 1 \<le> 2 * 2 powi bit_length m" using M(2) mult_left_mono [OF C, of 2] by (rule order_trans) simp
    then have hi: "rat_of_int n < 2 * 2 powi bit_length m" by (rule less_le_trans [OF less_add_one])
    have "(2 :: rat) powi (bit_length m + 1 - 1) = 2 * 2 powi (bit_length m - 1)" "(2 :: rat) powi (bit_length m + 1) = 2 * 2 powi bit_length m"
      using two_powi_add [of 1 "bit_length m - 1"] two_powi_add [of 1 "bit_length m"] by (simp_all add: algebra_simps)
    then have "2 powi (bit_length m + 1 - 1) \<le> rat_of_int n" "rat_of_int n < 2 powi (bit_length m + 1)" using lo hi by (simp_all only:)
    then show ?thesis unfolding b m_def [symmetric] by blast
  qed
qed

lemma exponent_of_bounds:
  assumes "0 < x"
  shows "2 powi exponent_of x \<le> x" "x < 2 powi (exponent_of x + 1)"
proof -
  obtain a b where q: "quotient_of x = (a, b)" by force
  have x: "x = of_int a / of_int b" "0 < b" using quotient_of_div [OF q] quotient_of_denom_pos [OF q] .
  then have a: "0 < a" using assms by (simp add: zero_less_divide_iff)
  define k where "k = bit_length a - bit_length b"
  note a' = bit_length_bounds [OF a, THEN conjunct1] bit_length_bounds [OF a, THEN conjunct2]
  note b' = bit_length_bounds [OF x(2), THEN conjunct1] bit_length_bounds [OF x(2), THEN conjunct2]
  have bp: "0 < rat_of_int b" using x(2) by simp
  have lo: "2 powi (k - 1) \<le> x"
  proof -
    have "2 powi (k - 1) * rat_of_int b \<le> 2 powi (k - 1) * 2 powi bit_length b" using b'(2) by (intro mult_left_mono) simp_all
    also have "\<dots> = 2 powi (bit_length a - 1)" unfolding two_powi_add k_def by (rule arg_cong [of _ _ "power_int 2"]) simp
    finally show ?thesis using a'(1) bp by (simp add: x(1) field_simps)
  qed
  have hi: "x < 2 powi (k + 1)"
  proof -
    have "2 powi bit_length a = 2 powi (k + 1) * (2 :: rat) powi (bit_length b - 1)"
      unfolding two_powi_add k_def by (rule arg_cong [of _ _ "power_int 2"]) simp
    also have "\<dots> \<le> 2 powi (k + 1) * rat_of_int b" using b'(1) by (intro mult_left_mono) simp_all
    finally have "rat_of_int a < 2 powi (k + 1) * rat_of_int b" using a'(2) by (rule less_le_trans [rotated])
    then show ?thesis unfolding x(1) pos_divide_less_eq [OF bp] .
  qed
  have e: "exponent_of x = (if 2 powi k \<le> x then k else k - 1)" by (simp add: exponent_of_def q k_def Let_def)
  show "2 powi exponent_of x \<le> x" "x < 2 powi (exponent_of x + 1)" using lo hi unfolding e by auto
qed

lemma half_even_error: "\<bar>of_int (half_even x) - x\<bar> \<le> 1 / 2"
  unfolding half_even_def Let_def by (auto simp: abs_if) linarith+

lemma half_even_int [simp]: "half_even (of_int n) = n"
  by (simp add: half_even_def Let_def)

lemma half_even_mono: "x \<le> y \<Longrightarrow> half_even x \<le> half_even y"
proof -
  assume le: "x \<le> y"
  then have f: "\<lfloor>x\<rfloor> \<le> \<lfloor>y\<rfloor>" by (rule floor_mono)
  show ?thesis
  proof (cases "\<lfloor>x\<rfloor> = \<lfloor>y\<rfloor>")
    case True
    then show ?thesis using le by (auto simp: half_even_def Let_def)
  next
    case False
    then have "half_even x \<le> \<lfloor>x\<rfloor> + 1" "\<lfloor>x\<rfloor> + 1 \<le> \<lfloor>y\<rfloor>" "\<lfloor>y\<rfloor> \<le> half_even y" using f by (auto simp: half_even_def Let_def)
    then show ?thesis by linarith
  qed
qed

lemma two_powi_mono: "a \<le> b \<Longrightarrow> (2 :: rat) powi a \<le> 2 powi b"
  by (rule power_int_increasing) simp_all

lemma two_powi_nat: "(2 :: rat) powi int n = 2 ^ n"
  by (simp add: power_int_def)

text \<open>A positive number in units of the last place of its binade.\<close>

lemma scaled:
  assumes "0 < x" "e = exponent_of x - 63"
  shows "2 ^ 63 \<le> x / 2 powi e" "x / 2 powi e < 2 ^ 64" "x = x / 2 powi e * 2 powi e"
proof -
  note B = exponent_of_bounds [OF assms(1)]
  have "(2 :: rat) powi int 63 * 2 powi e = 2 powi exponent_of x" "(2 :: rat) powi int 64 * 2 powi e = 2 powi (exponent_of x + 1)"
    unfolding two_powi_add assms(2) by (rule arg_cong [of _ _ "power_int 2"], simp)+
  then have "(2 :: rat) ^ 63 * 2 powi e \<le> x" "x < (2 :: rat) ^ 64 * 2 powi e" using B unfolding two_powi_nat by simp_all
  then show "2 ^ 63 \<le> x / 2 powi e" "x / 2 powi e < 2 ^ 64"
    unfolding pos_le_divide_eq [OF two_powi_pos] pos_divide_less_eq [OF two_powi_pos] .
  show "x = x / 2 powi e * 2 powi e" by simp
qed

lemma half_even_bounds:
  "of_int a \<le> x \<Longrightarrow> a \<le> half_even x" "x \<le> of_int a \<Longrightarrow> half_even x \<le> a" "x < of_int a - 1 / 2 \<Longrightarrow> half_even x < a"
proof -
  show "of_int a \<le> x \<Longrightarrow> a \<le> half_even x" "x \<le> of_int a \<Longrightarrow> half_even x \<le> a"
    using half_even_mono [of "of_int a" x] half_even_mono [of x "of_int a"] by simp_all
  assume "x < of_int a - 1 / 2"
  then have "rat_of_int (half_even x) < of_int a" using half_even_error [of x] by linarith
  then show "half_even x < a" by simp
qed

lemma ld_round_scaled:
  assumes "0 < x"
  obtains n e where "e = exponent_of x - 63" "n = half_even (x / 2 powi e)" "2 ^ 63 \<le> n" "n \<le> 2 ^ 64"
    "ld_round x = of_int n * 2 powi e"
proof -
  define e where "e = exponent_of x - 63"
  note S = scaled [OF assms e_def]
  have "2 ^ 63 \<le> half_even (x / 2 powi e)" "half_even (x / 2 powi e) \<le> 2 ^ 64"
    using half_even_bounds(1) [of "2 ^ 63" "x / 2 powi e"] half_even_bounds(2) [of "x / 2 powi e" "2 ^ 64"] S by simp_all
  moreover have "ld_round x = of_int (half_even (x / 2 powi e)) * 2 powi e"
    using assms by (simp add: ld_round_def e_def Let_def)
  ultimately show thesis using that e_def by blast
qed

lemma ld_round_error:
  assumes "0 \<le> x"
  shows "\<bar>ld_round x - x\<bar> \<le> x / 2 ^ 64"
proof (cases "x = 0")
  case False
  then have x: "0 < x" using assms by simp
  then obtain n e where R: "e = exponent_of x - 63" "n = half_even (x / 2 powi e)" "ld_round x = of_int n * 2 powi e"
    using ld_round_scaled by metis
  note S = scaled [OF x R(1)]
  have "ld_round x - x = (of_int n - x / 2 powi e) * 2 powi e"
    unfolding R(3) using S(3) by (simp add: left_diff_distrib)
  then have "\<bar>ld_round x - x\<bar> = \<bar>of_int n - x / 2 powi e\<bar> * 2 powi e" by (simp add: abs_mult)
  also have "\<dots> \<le> 1 / 2 * 2 powi e" using half_even_error [of "x / 2 powi e"] R(2) by (intro mult_right_mono) simp_all
  also have "\<dots> \<le> x / 2 ^ 64" using S(1) by (simp add: field_simps)
  finally show ?thesis .
qed (simp add: ld_round_def)

lemma ld_round_nonneg: "0 \<le> ld_round x"
proof (cases "0 < x")
  case True
  then obtain n e where "2 ^ 63 \<le> n" "ld_round x = of_int n * 2 powi e" using ld_round_scaled by metis
  moreover from this have "(0 :: int) \<le> n" by (simp add: order_trans [of 0 "2 ^ 63"])
  ultimately show ?thesis by simp
qed (simp add: ld_round_def)

lemma exponent_of_mono:
  assumes "0 < x" "x \<le> y"
  shows "exponent_of x \<le> exponent_of y"
proof (rule ccontr)
  assume "\<not> exponent_of x \<le> exponent_of y"
  then have "(2 :: rat) powi (exponent_of y + 1) \<le> 2 powi exponent_of x" by (intro two_powi_mono) simp
  then show False using exponent_of_bounds [of x] exponent_of_bounds [of y] assms by linarith
qed

lemma ld_round_mono:
  assumes "x \<le> y"
  shows "ld_round x \<le> ld_round y"
proof (cases "0 < x")
  case False
  then show ?thesis using ld_round_nonneg [of y] by (simp add: ld_round_def)
next
  case x: True
  then have y: "0 < y" using assms by simp
  obtain n e where X: "e = exponent_of x - 63" "n = half_even (x / 2 powi e)" "n \<le> 2 ^ 64" "ld_round x = of_int n * 2 powi e"
    using ld_round_scaled [OF x] by metis
  obtain k d where Y: "d = exponent_of y - 63" "k = half_even (y / 2 powi d)" "2 ^ 63 \<le> k" "ld_round y = of_int k * 2 powi d"
    using ld_round_scaled [OF y] by metis
  show ?thesis
  proof (cases "exponent_of x = exponent_of y")
    case True
    then have "n \<le> k" using X(1,2) Y(1,2) assms by (auto intro!: half_even_mono divide_right_mono)
    then show ?thesis using True X(1,4) Y(1,4) by simp
  next
    case False
    then have le: "e + 1 \<le> d" using exponent_of_mono [OF x assms] X(1) Y(1) by simp
    have "ld_round x \<le> 2 ^ 64 * 2 powi e" unfolding X(4) using X(3) by (intro mult_right_mono) (simp_all flip: of_int_le_iff)
    also have "\<dots> = 2 ^ 63 * 2 powi (e + 1)" by (simp add: power_int_add)
    also have "\<dots> \<le> 2 ^ 63 * 2 powi d" using two_powi_mono [OF le] by simp
    also have "\<dots> \<le> ld_round y" unfolding Y(4) using Y(3) by (intro mult_right_mono) (simp_all flip: of_int_le_iff)
    finally show ?thesis .
  qed
qed

section \<open>The numbers of the format\<close>

lemma representable_ld_round: "representable (ld_round x)"
proof (cases "0 < x")
  case True
  then obtain n e where R: "2 ^ 63 \<le> n" "n \<le> 2 ^ 64" "ld_round x = of_int n * 2 powi e" using ld_round_scaled by metis
  show ?thesis
  proof (cases "n = 2 ^ 64")
    case True
    then have "ld_round x = of_nat (2 ^ 63) * 2 powi (e + 1)" using R(3) by (simp add: power_int_add)
    moreover have "(2 :: nat) ^ 63 < 2 ^ 64" by simp
    ultimately show ?thesis unfolding representable_def by blast
  next
    case False
    have "0 \<le> n" using R(1) by (simp add: order_trans [of 0 "2 ^ 63"])
    then have "ld_round x = of_nat (nat n) * 2 powi e" "nat n < 2 ^ 64" using R(2,3) False by (simp_all add: nat_less_iff)
    then show ?thesis unfolding representable_def by blast
  qed
next
  case False
  then have "ld_round x = of_nat 0 * 2 powi 0" by (simp add: ld_round_def)
  then show ?thesis unfolding representable_def by (intro exI [of _ 0]) auto
qed

lemma representable_nonneg: "representable x \<Longrightarrow> 0 \<le> x"
  by (auto simp: representable_def)

lemma ld_round_representable:
  assumes "representable x"
  shows "ld_round x = x"
proof (cases "0 < x")
  case True
  obtain n d where x: "n < 2 ^ 64" "x = of_nat n * 2 powi d" using assms unfolding representable_def by blast
  define e where "e = exponent_of x - 63"
  have "x < 2 powi int 64 * 2 powi d"
    unfolding x(2) two_powi_nat using x(1) by (intro mult_strict_right_mono) simp_all
  then have "(2 :: rat) powi exponent_of x < 2 powi (int 64 + d)"
    using exponent_of_bounds(1) [OF True] unfolding two_powi_add by (rule le_less_trans [rotated])
  then have le: "e \<le> d" using two_powi_mono [of "int 64 + d" "exponent_of x"] unfolding e_def by (cases "int 64 + d \<le> exponent_of x") simp_all
  have "x = of_nat n * 2 powi (int (nat (d - e))) * 2 powi e" using le unfolding x(2) mult.assoc two_powi_add by simp
  then have "x = of_int (int (n * 2 ^ nat (d - e))) * 2 powi e" unfolding two_powi_nat by simp
  then have q: "x / 2 powi e = of_int (int (n * 2 ^ nat (d - e)))" by (metis nonzero_mult_div_cancel_right two_powi_pos less_irrefl)
  have "ld_round x = of_int (half_even (x / 2 powi e)) * 2 powi e" using True by (simp add: ld_round_def e_def Let_def)
  also have "\<dots> = x" unfolding q half_even_int unfolding q [symmetric] by simp
  finally show ?thesis .
next
  case False
  then show ?thesis using representable_nonneg [OF assms] by (simp add: ld_round_def)
qed

lemma representable_nat: "n < 2 ^ 64 \<Longrightarrow> representable (of_nat n)"
  unfolding representable_def by (intro exI [of _ n] exI [of _ 0]) simp

text \<open>Cutting off the integer part is exact.\<close>

lemma representable_fraction:
  assumes "representable x"
  shows "representable (x - of_int \<lfloor>x\<rfloor>)"
proof -
  obtain n e where x: "n < 2 ^ 64" "x = of_nat n * 2 powi e" using assms unfolding representable_def by blast
  show ?thesis
  proof (cases "0 \<le> e")
    case True
    then have "x = of_nat n * 2 powi int (nat e)" using x(2) by simp
    then have "x = of_int (int (n * 2 ^ nat e))" unfolding two_powi_nat by simp
    then have "x - of_int \<lfloor>x\<rfloor> = of_nat 0" by (simp only: floor_of_int diff_self of_nat_0)
    then show ?thesis using representable_nat [of 0] by simp
  next
    case False
    define k where "k = nat (- e)"
    have e: "2 powi e * (2 :: rat) ^ k = 1"
      unfolding two_powi_nat [symmetric] two_powi_add using False by (simp add: k_def)
    define d where "d = nat \<lfloor>x\<rfloor>"
    have d: "of_int \<lfloor>x\<rfloor> = (of_nat d :: rat)" "of_nat d \<le> x" using representable_nonneg [OF assms] by (simp_all add: d_def)
    have "of_nat d * 2 ^ k \<le> x * 2 ^ k" using d(2) by (intro mult_right_mono) simp_all
    also have "\<dots> = of_nat n" unfolding x(2) mult.assoc e by simp
    finally have "d * 2 ^ k \<le> n" by (simp only: of_nat_mult of_nat_power of_nat_numeral flip: of_nat_le_iff [where 'a = rat])
    moreover have "of_nat d = of_nat (d * 2 ^ k) * (2 :: rat) powi e" using e by (simp add: ac_simps)
    ultimately have "x - of_int \<lfloor>x\<rfloor> = of_nat (n - d * 2 ^ k) * 2 powi e"
      unfolding x(2) d(1) [unfolded x(2)] by (simp add: of_nat_diff left_diff_distrib)
    then show ?thesis using x(1) unfolding representable_def by (intro exI [of _ "n - d * 2 ^ k"] exI [of _ e]) simp
  qed
qed

section \<open>Where rounding cannot reach the next bound\<close>

lemma exponent_of_unique:
  assumes "2 powi k \<le> x" "x < 2 powi (k + 1)"
  shows "exponent_of x = k"
proof -
  have x: "0 < x" using less_le_trans [OF two_powi_pos assms(1)] .
  note B = exponent_of_bounds [OF x]
  have "\<not> exponent_of x + 1 \<le> k" "\<not> k + 1 \<le> exponent_of x"
    using B assms two_powi_mono [of "exponent_of x + 1" k] two_powi_mono [of "k + 1" "exponent_of x"] by auto
  then show ?thesis by simp
qed

text \<open>A sum below 2^64 by more than half a unit stays below 2^64.\<close>

lemma ld_round_below:
  assumes "x < 2 ^ 64 - 1 / 2"
  shows "ld_round x < 2 ^ 64"
proof -
  define y where "y = max x (2 ^ 63)"
  have y: "2 powi int 63 \<le> y" "y < 2 powi (int 63 + 1)" "y < of_int (2 ^ 64) - 1 / 2"
    using assms unfolding two_powi_nat y_def by (simp_all add: power_int_add)
  have "exponent_of y = 63" using exponent_of_unique [OF y(1,2)] by simp
  moreover have "0 < y" using less_le_trans [OF two_powi_pos y(1)] .
  ultimately have r: "ld_round y = of_int (half_even y)" by (simp add: ld_round_def Let_def)
  have "ld_round x \<le> ld_round y" by (rule ld_round_mono) (simp add: y_def)
  also have "\<dots> < 2 ^ 64" unfolding r using half_even_bounds(3) [OF y(3)] by simp
  finally show ?thesis .
qed

text \<open>A fraction of the format is at most 1 - 2^-64, so ten times it stays below 10.\<close>

lemma representable_fraction_le:
  assumes "representable x" "x < 1"
  shows "x \<le> 1 - 1 / 2 ^ 64"
proof (cases "x < 1 / 2")
  case False
  define k where "k = - (1 :: int)"
  have h: "(2 :: rat) powi (- 1) = 1 / 2" "(2 :: rat) powi (- 1 + 1) = 1" by simp_all
  have e: "exponent_of x = - 1" using False assms(2) by (intro exponent_of_unique) (simp_all add: h)
  have x: "0 < x" using False by simp
  obtain n d where R: "d = exponent_of x - 63" "ld_round x = of_int n * 2 powi d" using ld_round_scaled [OF x] by metis
  have d: "2 powi d * (2 :: rat) ^ 64 = 1"
    using two_powi_add [of d "int 64"] unfolding two_powi_nat R(1) e by simp
  have n: "x * 2 ^ 64 = of_int n" using ld_round_representable [OF assms(1)] R(2) d by (metis mult.assoc mult.right_neutral)
  have "x * 2 ^ 64 < 2 ^ 64" using assms(2) by simp
  then have "n \<le> 2 ^ 64 - 1" unfolding n by simp
  then have "rat_of_int n \<le> of_int (2 ^ 64 - 1)" by (simp only: of_int_le_iff)
  then show ?thesis using n by (simp add: field_simps)
qed simp

lemma ld_round_ten_fraction:
  assumes "representable f" "f < 1"
  shows "ld_round (f * 10) < 10"
proof -
  define y where "y = (10 :: rat) - 10 / 2 ^ 64"
  have e: "exponent_of y = 3" by (rule exponent_of_unique) (simp_all add: y_def)
  define u where "u = (2 :: rat) powi (- 60)"
  have u: "u * 2 ^ 60 = 1" using two_powi_add [of "- 60" "int 60"] unfolding two_powi_nat u_def by simp
  have s: "y / u < of_int (10 * 2 ^ 60) - 1 / 2" using u by (simp add: y_def field_simps)
  have "ld_round y = of_int (half_even (y / u)) * u" using e by (simp add: ld_round_def Let_def u_def y_def)
  also have "\<dots> < of_int (10 * 2 ^ 60) * u"
    using half_even_bounds(3) [OF s] by (intro mult_strict_right_mono) (simp_all only: of_int_less_iff u_def two_powi_pos)
  also have "\<dots> = 10" using u by (simp add: ac_simps)
  finally have "ld_round y < 10" .
  moreover have "f * 10 \<le> y" using representable_fraction_le [OF assms] by (simp add: y_def)
  ultimately show ?thesis using ld_round_mono [of "f * 10" y] by simp
qed

end
