(* ===== verification/Format.thy ===== *)
theory Format
  imports Format_Spec Long_Double
begin

text \<open>
  \<^verbatim>\<open>kernel/debug/emit.hpp\<close>, \<^verbatim>\<open>formatter.hpp\<close>, \<^verbatim>\<open>kprint.hpp\<close>, \<^verbatim>\<open>kprint.cpp\<close> and \<^verbatim>\<open>console.cpp\<close>.
  An emitting function is the text it sends to the console. A \<^verbatim>\<open>static_assert\<close> that fails
  is \<open>None\<close>: the call does not compile. \<open>None\<close> is also the result of a conversion that is
  undefined in C++, which happens in \<open>emit_fixed_float\<close> only.
\<close>

section \<open>Numbers\<close>

definition HEX_DIGITS_LOWER :: string where "HEX_DIGITS_LOWER = ''0123456789abcdef''"
definition HEX_DIGITS_UPPER :: string where "HEX_DIGITS_UPPER = ''0123456789ABCDEF''"

definition emit_repeated :: "char \<Rightarrow> nat \<Rightarrow> string" where
  "emit_repeated value count = replicate count value"

text \<open>The bytes before the terminating zero.\<close>

definition c_string_length :: "string \<Rightarrow> nat" where
  "c_string_length value = length (takeWhile (\<lambda>c. c \<noteq> CHR 0x00) value)"

text \<open>The contents of the array \<^verbatim>\<open>reverse\<close>, least significant digit first.\<close>

function decimal_reverse :: "u64 \<Rightarrow> string" where
  "decimal_reverse value =
     char_of (48 + unat (value mod 10)) # (if value div 10 \<noteq> 0 then decimal_reverse (value div 10) else [])"
  by auto
termination
proof (relation "measure unat")
  fix x :: u64
  assume "x div 10 \<noteq> 0"
  then have "0 < unat x div 10" by (simp add: unat_div_distrib flip: unat_gt_0)
  then show "(x div 10, x) \<in> measure unat" by (simp add: unat_div_distrib)
qed simp

declare decimal_reverse.simps [simp del]

definition format_u64_decimal :: "u64 \<Rightarrow> string" where
  "format_u64_decimal value = rev (decimal_reverse value)"

function hex_reverse :: "bool \<Rightarrow> u64 \<Rightarrow> string" where
  "hex_reverse uppercase value =
     ((if uppercase then HEX_DIGITS_UPPER else HEX_DIGITS_LOWER) ! unat (value AND 0xF))
       # (if drop_bit 4 value \<noteq> 0 then hex_reverse uppercase (drop_bit 4 value) else [])"
  by auto
termination
proof (relation "measure (\<lambda>(_, value). unat value)")
  fix uppercase and x :: u64
  assume "drop_bit 4 x \<noteq> 0"
  then have ne: "unat (drop_bit 4 x) \<noteq> 0" by (simp only: unat_eq_0 not_False_eq_True)
  have u: "unat (drop_bit 4 x) = unat x div 16"
    by (simp only: unat_drop_bit_eq) (simp add: drop_bit_eq_div)
  have "unat x \<noteq> 0" using ne unfolding u by auto
  then show "((uppercase, drop_bit 4 x), uppercase, x) \<in> measure (\<lambda>(_, value). unat value)"
    by (simp add: u)
qed simp

declare hex_reverse.simps [simp del]

definition format_u64_hex :: "u64 \<Rightarrow> bool \<Rightarrow> string" where
  "format_u64_hex value uppercase = rev (hex_reverse uppercase value)"

definition signed_magnitude_i64 :: "u64 \<Rightarrow> u64" where
  "signed_magnitude_i64 value = (if sint value \<ge> 0 then value else (- (value + 1)) + 1)"

section \<open>Padding and the value emitters\<close>

definition emit_padded :: "format_spec \<Rightarrow> string \<Rightarrow> string \<Rightarrow> bool \<Rightarrow> string" where
  "emit_padded spec prefix body numeric =
     (let content_length = length prefix + length body;
          width = (if f_has_width spec then unat (f_width spec) else 0);
          padding = (if width > content_length then width - content_length else 0);
          align = f_align spec;
          align = (if align = A_DEFAULT then (if numeric then A_RIGHT else A_LEFT) else align)
      in if numeric \<and> f_zero_pad spec \<and> align = A_RIGHT
         then prefix @ emit_repeated CHR ''0'' padding @ body
         else if align = A_LEFT then prefix @ body @ emit_repeated (f_fill spec) padding
         else if align = A_CENTER then
           let left_padding = padding div 2;
               right_padding = padding - left_padding
           in emit_repeated (f_fill spec) left_padding @ prefix @ body
                @ emit_repeated (f_fill spec) right_padding
         else emit_repeated (f_fill spec) padding @ prefix @ body)"

definition sign_prefix :: "format_spec \<Rightarrow> bool \<Rightarrow> string" where
  "sign_prefix spec negative =
     (if negative then ''-'' else if f_sign spec = S_PLUS then ''+''
      else if f_sign spec = S_SPACE then '' '' else [])"

definition emit_unsigned_decimal :: "format_spec \<Rightarrow> u64 \<Rightarrow> string option" where
  "emit_unsigned_decimal spec value =
     (if f_has_precision spec \<or> f_alternate spec then None
      else
        let has_sign = (f_sign spec = S_PLUS \<or> f_sign spec = S_SPACE);
            prefix_buffer = (if f_sign spec = S_PLUS then ''+'' else '' '')
        in Some (emit_padded spec (if has_sign then prefix_buffer else []) (format_u64_decimal value) True))"

definition emit_signed_decimal :: "format_spec \<Rightarrow> u64 \<Rightarrow> string option" where
  "emit_signed_decimal spec value =
     (if f_has_precision spec \<or> f_alternate spec then None
      else Some (emit_padded spec (sign_prefix spec (sint value < 0))
                   (format_u64_decimal (signed_magnitude_i64 value)) True))"

definition emit_hex_integer :: "format_spec \<Rightarrow> u64 \<Rightarrow> string option" where
  "emit_hex_integer spec value =
     (if f_has_precision spec then None
      else Some (emit_padded spec (if f_alternate spec then ''0x'' else [])
                   (format_u64_hex value (presentation_value spec = P_HEX_UPPER)) True))"

definition emit_pointer_value :: "format_spec \<Rightarrow> u64 \<Rightarrow> string option" where
  "emit_pointer_value spec address =
     (if f_has_precision spec then None
      else if presentation_value spec \<in> {P_HEX_LOWER, P_HEX_UPPER} then emit_hex_integer spec address
      else if presentation_value spec \<in> {P_DEFAULT, P_POINTER} then
        emit_hex_integer
          (spec\<lparr>presentation_value := P_HEX_LOWER, f_sign := S_DEFAULT, f_alternate := True,
                f_has_precision := False, f_precision := 0\<rparr>) address
      else None)"

text \<open>The special values are told apart by comparing a value with itself.\<close>

definition emit_float_special :: "format_spec \<Rightarrow> string \<Rightarrow> bool \<Rightarrow> string" where
  "emit_float_special spec body negative = emit_padded spec (sign_prefix spec negative) body True"

definition float_precision :: "format_spec \<Rightarrow> nat" where
  "float_precision spec = (if f_has_precision spec then unat (f_precision spec) else 6)"

text \<open>Half a unit of the last printed digit, by repeated division.\<close>

fun float_rounding :: "nat \<Rightarrow> rat" where
  "float_rounding 0 = 1 / 2"
| "float_rounding (Suc index) = ld_round (float_rounding index / 10)"

fun fraction_digits :: "nat \<Rightarrow> rat \<Rightarrow> string" where
  "fraction_digits 0 fractional_part = []"
| "fraction_digits (Suc index) fractional_part =
     (let fractional_part = ld_round (fractional_part * 10);
          digit = (of_int \<lfloor>fractional_part\<rfloor> :: u8)
      in char_of (48 + unat digit) # fraction_digits index (ld_round (fractional_part - of_int (uint digit))))"

definition emit_fixed_float :: "format_spec \<Rightarrow> long_double \<Rightarrow> string option" where
  "emit_fixed_float spec value =
     (if presentation_value spec \<notin> {P_DEFAULT, P_FIXED} then None
      else case value of
        Nan \<Rightarrow> Some (emit_float_special spec ''nan'' False)
      | Inf negative \<Rightarrow> Some (emit_float_special spec ''inf'' negative)
      | Finite x \<Rightarrow>
          let precision = float_precision spec;
              negative = x < 0;
              value = (if negative then - x else x)
          in if value > 18446744073709551615 then Some (emit_float_special spec ''ovf'' negative)
             else
               let value = ld_round (value + float_rounding precision)
               in (case ld_to_u64 value of
                     None \<Rightarrow> None
                   | Some integer_part \<Rightarrow>
                       let fractional_part = ld_round (value - ld_round (of_int (uint integer_part)));
                           body = format_u64_decimal integer_part
                             @ (if precision > 0 \<or> f_alternate spec then ''.'' else [])
                             @ fraction_digits precision fractional_part
                       in Some (emit_padded spec (sign_prefix spec negative) body True)))"

text \<open>A string argument is \<open>None\<close> for a null pointer.\<close>

definition emit_string_value :: "format_spec \<Rightarrow> string option \<Rightarrow> string option" where
  "emit_string_value spec value =
     (if presentation_value spec \<notin> {P_DEFAULT, P_STRING} then None
      else
        let actual_value = (case value of None \<Rightarrow> ''(null)'' | Some s \<Rightarrow> s);
            full_length = c_string_length actual_value;
            len = (if f_has_precision spec then min full_length (unat (f_precision spec)) else full_length)
        in Some (emit_padded spec [] (take len actual_value) False))"

definition emit_char_value :: "format_spec \<Rightarrow> char \<Rightarrow> string option" where
  "emit_char_value spec value =
     (if f_has_precision spec then None
      else if presentation_value spec \<in> {P_DEFAULT, P_CHARACTER} then Some (emit_padded spec [] [value] False)
      else if presentation_value spec = P_DECIMAL then emit_unsigned_decimal spec (of_char value)
      else if presentation_value spec \<in> {P_HEX_LOWER, P_HEX_UPPER} then emit_hex_integer spec (of_char value)
      else None)"

section \<open>formatter\<close>

text \<open>
  The specialisations of \<^verbatim>\<open>formatter\<close>, one constructor each. A C string carries its address
  and, when it is not null, its bytes; an enumerator its name, empty when it has none, and
  its underlying value (both ways to print it are compiled, so both must be supported); a
  reflected aggregate its fields in order.
\<close>

datatype fmt_arg =
  Arg_char char
| Arg_bool bool
| Arg_unsigned u64
| Arg_signed u64
| Arg_float long_double
| Arg_c_string u64 "string option"
| Arg_null
| Arg_pointer u64
| Arg_fixed_string string
| Arg_str_view string
| Arg_enum string fmt_arg
| Arg_aggregate "(string \<times> fmt_arg) list"

definition emit_bool :: "format_spec \<Rightarrow> bool \<Rightarrow> string option" where
  "emit_bool spec value =
     (if f_has_precision spec then None
      else if presentation_value spec = P_DEFAULT
      then emit_string_value spec (Some (if value then ''true'' else ''false''))
      else if presentation_value spec = P_DECIMAL then emit_unsigned_decimal spec (if value then 1 else 0)
      else if presentation_value spec \<in> {P_HEX_LOWER, P_HEX_UPPER}
      then emit_hex_integer spec (if value then 1 else 0)
      else None)"

definition emit_unsigned :: "format_spec \<Rightarrow> u64 \<Rightarrow> string option" where
  "emit_unsigned spec value =
     (if presentation_value spec \<in> {P_DEFAULT, P_DECIMAL} then emit_unsigned_decimal spec value
      else if presentation_value spec \<in> {P_HEX_LOWER, P_HEX_UPPER} then emit_hex_integer spec value
      else None)"

definition emit_signed :: "format_spec \<Rightarrow> u64 \<Rightarrow> string option" where
  "emit_signed spec value =
     (if presentation_value spec \<in> {P_DEFAULT, P_DECIMAL} then emit_signed_decimal spec value
      else if presentation_value spec \<in> {P_HEX_LOWER, P_HEX_UPPER} then emit_hex_integer spec value
      else None)"

definition emit_c_string_arg :: "format_spec \<Rightarrow> u64 \<Rightarrow> string option \<Rightarrow> string option" where
  "emit_c_string_arg spec address value =
     (if presentation_value spec \<in> {P_POINTER, P_HEX_LOWER, P_HEX_UPPER} then emit_pointer_value spec address
      else emit_string_value spec value)"

definition emit_str_view :: "format_spec \<Rightarrow> string \<Rightarrow> string option" where
  "emit_str_view spec value =
     (if presentation_value spec \<notin> {P_DEFAULT, P_STRING} then None
      else
        let len = (if f_has_precision spec then min (length value) (unat (f_precision spec)) else length value)
        in Some (emit_padded spec [] (take len value) False))"

fun emit_value :: "format_spec \<Rightarrow> fmt_arg \<Rightarrow> string option"
  and emit_fields :: "format_spec \<Rightarrow> bool \<Rightarrow> (string \<times> fmt_arg) list \<Rightarrow> string option" where
  "emit_value spec (Arg_char c) = emit_char_value spec c"
| "emit_value spec (Arg_bool b) = emit_bool spec b"
| "emit_value spec (Arg_unsigned v) = emit_unsigned spec v"
| "emit_value spec (Arg_signed v) = emit_signed spec v"
| "emit_value spec (Arg_float v) = emit_fixed_float spec v"
| "emit_value spec (Arg_c_string address s) = emit_c_string_arg spec address s"
| "emit_value spec Arg_null = emit_pointer_value spec 0"
| "emit_value spec (Arg_pointer address) = emit_pointer_value spec address"
| "emit_value spec (Arg_fixed_string s) = emit_string_value spec (Some s)"
| "emit_value spec (Arg_str_view s) = emit_str_view spec s"
| "emit_value spec (Arg_enum name underlying) =
     (if presentation_value spec \<in> {P_DECIMAL, P_HEX_LOWER, P_HEX_UPPER} then emit_value spec underlying
      else
        (case (emit_value spec underlying, emit_str_view spec name) of
           (Some number, Some t) \<Rightarrow> Some (if name = [] then number else t)
         | _ \<Rightarrow> None))"
| "emit_value spec (Arg_aggregate fs) =
     (if f_has_precision spec then None
      else map_option (\<lambda>t. ''{'' @ t @ ''}'') (emit_fields spec True fs))"
| "emit_fields spec first [] = Some []"
| "emit_fields spec first ((name, field) # fs) =
     (case emit_value spec field of
        None \<Rightarrow> None
      | Some t \<Rightarrow>
          map_option (\<lambda>rest. (if first then [] else '', '') @ name @ ''='' @ t @ rest)
            (emit_fields spec False fs))"

section \<open>kprint\<close>

fun emit_nth_arg :: "nat \<Rightarrow> format_spec \<Rightarrow> fmt_arg list \<Rightarrow> string option" where
  "emit_nth_arg target_index spec [] = None"
| "emit_nth_arg 0 spec (value # rest) = emit_value spec value"
| "emit_nth_arg (Suc target_index) spec (value # rest) = emit_nth_arg target_index spec rest"

function emit_format :: "string \<Rightarrow> nat \<Rightarrow> nat \<Rightarrow> fmt_arg list \<Rightarrow> string option" where
  "emit_format fmt offset arg_index args =
     (if offset \<ge> length fmt then Some []
      else if format_char_at fmt offset = CHR ''{'' \<and> format_char_at fmt (offset + 1) = CHR ''{''
      then map_option (\<lambda>t. CHR ''{'' # t) (emit_format fmt (offset + 2) arg_index args)
      else if format_char_at fmt offset = CHR ''}'' \<and> format_char_at fmt (offset + 1) = CHR ''}''
      then map_option (\<lambda>t. CHR ''}'' # t) (emit_format fmt (offset + 2) arg_index args)
      else if format_char_at fmt offset = CHR ''{'' then
        (if \<not> ff_valid (parse_field_at fmt offset) then None
         else case emit_nth_arg arg_index (ff_spec (parse_field_at fmt offset)) args of
                None \<Rightarrow> None
              | Some v \<Rightarrow>
                  map_option (\<lambda>t. v @ t)
                    (emit_format fmt (offset + ff_length (parse_field_at fmt offset)) (arg_index + 1) args))
      else if literal_run_length fmt offset > 0 then
        map_option (\<lambda>t. take (literal_run_length fmt offset) (drop offset fmt) @ t)
          (emit_format fmt (offset + literal_run_length fmt offset) arg_index args)
      else map_option (\<lambda>t. format_char_at fmt offset # t) (emit_format fmt (offset + 1) arg_index args))"
  by auto
termination
  by (relation "measure (\<lambda>(fmt, offset, n, args). length fmt - offset)")
    (auto dest: parse_field_bounds(1))

declare emit_format.simps [simp del]

definition kprint_ct :: "string \<Rightarrow> fmt_arg list \<Rightarrow> string option" where
  "kprint_ct fmt args =
     (if \<not> pr_valid (parse_format fmt) then None
      else if pr_field_count (parse_format fmt) \<noteq> length args then None
      else emit_format fmt 0 0 args)"

definition kprintln_ct :: "string \<Rightarrow> fmt_arg list \<Rightarrow> string option" where
  "kprintln_ct fmt args = map_option (\<lambda>t. t @ [CHR 0x0A]) (kprint_ct fmt args)"

section \<open>Console and the plain emitters\<close>

text \<open>The console: the address of the installed sink, and the bytes handed to it.\<close>

record console =
  m_sink :: "u64 option"
  written :: string

definition set_console_sink :: "u64 option \<Rightarrow> console \<Rightarrow> console" where
  "set_console_sink sink con = con\<lparr>m_sink := sink\<rparr>"

definition current_console_sink :: "console \<Rightarrow> u64 option" where
  "current_console_sink con = m_sink con"

definition console_ready :: "console \<Rightarrow> bool" where
  "console_ready con \<longleftrightarrow> m_sink con \<noteq> None"

definition console_write :: "string option \<Rightarrow> console \<Rightarrow> console" where
  "console_write bytes con =
     (case bytes of
        None \<Rightarrow> con
      | Some t \<Rightarrow> if m_sink con = None \<or> t = [] then con else con\<lparr>written := written con @ t\<rparr>)"

definition NULL_TEXT :: string where "NULL_TEXT = ''<null>''"

definition emit_char :: "char \<Rightarrow> console \<Rightarrow> console" where
  "emit_char value = console_write (Some [value])"

definition emit_c_string :: "string option \<Rightarrow> console \<Rightarrow> console" where
  "emit_c_string value =
     (case value of
        None \<Rightarrow> console_write (Some NULL_TEXT)
      | Some s \<Rightarrow> console_write (Some (take (c_string_length s) s)))"

definition emit_bytes :: "string option \<Rightarrow> console \<Rightarrow> console" where
  "emit_bytes value =
     (case value of None \<Rightarrow> emit_c_string (Some NULL_TEXT) | Some t \<Rightarrow> console_write (Some t))"

text \<open>The digits \<^verbatim>\<open>emit_decimal_u64\<close> collects; it emits them back to front one by one.\<close>

function decimal_digits :: "u64 \<Rightarrow> string" where
  "decimal_digits value =
     (if value \<noteq> 0 then char_of (48 + unat (value mod 10)) # decimal_digits (value div 10) else [])"
  by auto
termination
proof (relation "measure unat")
  fix x :: u64
  assume "x \<noteq> 0"
  then have "0 < unat x" by (simp add: unat_gt_0)
  then show "(x div 10, x) \<in> measure unat" by (simp add: unat_div_distrib)
qed simp

declare decimal_digits.simps [simp del]

definition emit_decimal_u64 :: "u64 \<Rightarrow> console \<Rightarrow> console" where
  "emit_decimal_u64 value con =
     (if value = 0 then emit_char CHR ''0'' con
      else fold emit_char (rev (decimal_digits value)) con)"

definition emit_decimal_i64 :: "u64 \<Rightarrow> console \<Rightarrow> console" where
  "emit_decimal_i64 value con =
     (if sint value < 0 then emit_decimal_u64 ((- (value + 1)) + 1) (emit_char CHR ''-'' con)
      else emit_decimal_u64 value con)"

definition emit_hex_u64 :: "u64 \<Rightarrow> console \<Rightarrow> console" where
  "emit_hex_u64 value =
     console_write (Some (''0x'' @
       map (\<lambda>i. HEX_DIGITS_UPPER ! unat (drop_bit (60 - 4 * i) value AND 0xF)) [0..<16]))"

definition emit_pointer :: "u64 \<Rightarrow> console \<Rightarrow> console" where
  "emit_pointer value = emit_hex_u64 value"

end
