(* ===== verification/Format_Correct.thy ===== *)
theory Format_Correct
  imports Format
begin

text \<open>
  The checker \<^verbatim>\<open>parse_format\<close> and the emitter \<^verbatim>\<open>emit_format\<close> read a format string in two
  different ways; both agree with one reading of it as a list of tokens. Numbers are
  printed so that the format parser's own digit loop reads them back.
\<close>

section \<open>Tokens\<close>

datatype token = Lit char | Field format_spec

function tokens_from :: "string \<Rightarrow> nat \<Rightarrow> token list option" where
  "tokens_from fmt index =
     (if index \<ge> length fmt then Some []
      else if fmt ! index = CHR ''{'' then
        (if index + 1 < length fmt \<and> fmt ! (index + 1) = CHR ''{''
         then map_option (Cons (Lit CHR ''{'')) (tokens_from fmt (index + 2))
         else if ff_valid (parse_field_at fmt index)
         then map_option (Cons (Field (ff_spec (parse_field_at fmt index))))
                (tokens_from fmt (index + ff_length (parse_field_at fmt index)))
         else None)
      else if fmt ! index = CHR ''}'' then
        (if index + 1 < length fmt \<and> fmt ! (index + 1) = CHR ''}''
         then map_option (Cons (Lit CHR ''}'')) (tokens_from fmt (index + 2))
         else None)
      else map_option (Cons (Lit (fmt ! index))) (tokens_from fmt (index + 1)))"
  by auto
termination
  by (relation "measure (\<lambda>(fmt, index). length fmt - index)") (auto dest: parse_field_bounds(1))

declare tokens_from.simps [simp del]

fun field_count :: "token list \<Rightarrow> nat" where
  "field_count [] = 0"
| "field_count (Lit c # ts) = field_count ts"
| "field_count (Field s # ts) = Suc (field_count ts)"

text \<open>The text of a token list: literals as they are, fields with the arguments in order.\<close>

fun render :: "token list \<Rightarrow> fmt_arg list \<Rightarrow> string option" where
  "render [] args = Some []"
| "render (Lit c # ts) args = map_option (Cons c) (render ts args)"
| "render (Field s # ts) [] = None"
| "render (Field s # ts) (a # args) =
     (case emit_value s a of None \<Rightarrow> None | Some v \<Rightarrow> map_option ((@) v) (render ts args))"

lemma parse_format_tokens:
  "case tokens_from fmt index of
     None \<Rightarrow> \<not> pr_valid (parse_format_from fmt index n)
   | Some ts \<Rightarrow> parse_format_from fmt index n = \<lparr>pr_valid = True, pr_field_count = n + field_count ts\<rparr>"
proof (induction fmt index n rule: parse_format_from.induct)
  case (1 fmt index n)
  note IH = "1.IH"
  show ?case
  proof (cases "index < length fmt")
    case False
    then show ?thesis by (subst tokens_from.simps) (simp add: parse_format_from.simps)
  next
    case in_str: True
    consider (open2) "fmt ! index = CHR ''{''" "index + 1 < length fmt \<and> fmt ! (index + 1) = CHR ''{''"
      | (field) "fmt ! index = CHR ''{''" "\<not> (index + 1 < length fmt \<and> fmt ! (index + 1) = CHR ''{'')"
          "ff_valid (parse_field_at fmt index)"
      | (bad) "fmt ! index = CHR ''{''" "\<not> (index + 1 < length fmt \<and> fmt ! (index + 1) = CHR ''{'')"
          "\<not> ff_valid (parse_field_at fmt index)"
      | (close2) "fmt ! index = CHR ''}''" "index + 1 < length fmt \<and> fmt ! (index + 1) = CHR ''}''"
      | (close1) "fmt ! index = CHR ''}''" "\<not> (index + 1 < length fmt \<and> fmt ! (index + 1) = CHR ''}'')"
      | (lit) "fmt ! index \<noteq> CHR ''{''" "fmt ! index \<noteq> CHR ''}''"
      by blast
    then show ?thesis
    proof cases
      case open2
      have "parse_format_from fmt index n = parse_format_from fmt (index + 2) n"
          "tokens_from fmt index = map_option (Cons (Lit CHR ''{'')) (tokens_from fmt (index + 2))"
        using in_str open2 by (subst parse_format_from.simps tokens_from.simps, simp)+
      then show ?thesis using IH(1) [OF in_str refl open2] by (simp split: option.splits)
    next
      case field
      let ?l = "ff_length (parse_field_at fmt index)"
      have "parse_format_from fmt index n = parse_format_from fmt (index + ?l) (n + 1)"
          "tokens_from fmt index =
            map_option (Cons (Field (ff_spec (parse_field_at fmt index)))) (tokens_from fmt (index + ?l))"
        using in_str field
        by (simp_all only: parse_format_from.simps [of fmt index] tokens_from.simps [of fmt index] Let_def)
          simp_all
      then show ?thesis using IH(2) [OF in_str refl field] by (simp split: option.splits)
    next
      case bad
      have "parse_format_from fmt index n = \<lparr>pr_valid = False, pr_field_count = n\<rparr>"
          "tokens_from fmt index = None"
        using in_str bad by (subst parse_format_from.simps tokens_from.simps, simp)+
      then show ?thesis by simp
    next
      case close2
      have "parse_format_from fmt index n = parse_format_from fmt (index + 2) n"
          "tokens_from fmt index = map_option (Cons (Lit CHR ''}'')) (tokens_from fmt (index + 2))"
        using in_str close2 by (subst parse_format_from.simps tokens_from.simps, simp)+
      then show ?thesis using IH(3) [OF in_str refl _ close2] close2(1) by (simp split: option.splits)
    next
      case close1
      have "parse_format_from fmt index n = \<lparr>pr_valid = False, pr_field_count = n\<rparr>"
          "tokens_from fmt index = None"
        using in_str close1 by (subst parse_format_from.simps tokens_from.simps, simp)+
      then show ?thesis by simp
    next
      case lit
      have "parse_format_from fmt index n = parse_format_from fmt (index + 1) n"
          "tokens_from fmt index = map_option (Cons (Lit (fmt ! index))) (tokens_from fmt (index + 1))"
        using in_str lit by (subst parse_format_from.simps tokens_from.simps, simp)+
      then show ?thesis using IH(4) [OF in_str refl lit] by (simp split: option.splits)
    qed
  qed
qed

section \<open>Literal runs\<close>

lemma run_end_ge: "index \<le> run_end fmt index"
proof (induction fmt index rule: run_end.induct)
  case (1 fmt index)
  then show ?case by (subst run_end.simps) auto
qed

lemma run_tokens:
  "tokens_from fmt index =
     map_option (\<lambda>ts. map Lit (take (run_end fmt index - index) (drop index fmt)) @ ts)
       (tokens_from fmt (run_end fmt index))"
proof (induction fmt index rule: run_end.induct)
  case (1 fmt index)
  show ?case
  proof (cases "index < length fmt \<and> \<not> (fmt ! index = CHR ''{'' \<or> fmt ! index = CHR ''}'')")
    case True
    let ?e = "run_end fmt (index + 1)"
    have e: "run_end fmt index = ?e" using True by (subst run_end.simps) simp
    have ge: "index + 1 \<le> ?e" by (rule run_end_ge)
    have t: "tokens_from fmt index = map_option (Cons (Lit (fmt ! index))) (tokens_from fmt (index + 1))"
      using True by (subst tokens_from.simps) auto
    have "take (?e - index) (drop index fmt) = fmt ! index # take (?e - (index + 1)) (drop (index + 1) fmt)"
    proof -
      have "?e - index = Suc (?e - (index + 1))" using ge by simp
      moreover have "drop index fmt = fmt ! index # drop (index + 1) fmt"
        using True by (simp add: Cons_nth_drop_Suc)
      ultimately show ?thesis by (simp only: take_Suc_Cons)
    qed
    then show ?thesis
      unfolding e t "1.IH" [OF True] by (simp add: option.map_comp comp_def)
  next
    case False
    have e: "run_end fmt index = index" using False by (subst run_end.simps) auto
    show ?thesis unfolding e by (simp add: option.map_ident)
  qed
qed


lemma emit_nth_arg_drop:
  "emit_nth_arg k spec args = (case drop k args of [] \<Rightarrow> None | a # _ \<Rightarrow> emit_value spec a)"
  by (induction k spec args rule: emit_nth_arg.induct) auto

lemma render_lits: "render (map Lit cs @ ts) args = map_option ((@) cs) (render ts args)"
  by (induction cs) (simp_all add: option.map_comp option.map_ident comp_def)

lemma run_end_positive:
  assumes "index < length fmt" "fmt ! index \<noteq> CHR ''{''" "fmt ! index \<noteq> CHR ''}''"
  shows "literal_run_length fmt index > 0"
proof -
  have "run_end fmt index = run_end fmt (index + 1)" using assms by (subst run_end.simps) simp
  then show ?thesis using run_end_ge [of "index + 1" fmt] by (simp add: literal_run_length_def)
qed

text \<open>The emitter writes what the token list says, taking the arguments in order.\<close>

lemma emit_format_tokens:
  "tokens_from fmt index = Some ts \<Longrightarrow> emit_format fmt index k args = render ts (drop k args)"
proof (induction fmt index k args arbitrary: ts rule: emit_format.induct)
  case (1 fmt index k args)
  note IH = "1.IH" and ts = "1.prems"
  show ?case
  proof (cases "index < length fmt")
    case False
    then show ?thesis using ts by (simp add: emit_format.simps tokens_from.simps)
  next
    case in_str: True
    then have notge: "\<not> length fmt \<le> index" by simp
    have at: "format_char_at fmt index = fmt ! index" using in_str by (simp add: format_char_at_def)
    have at1: "format_char_at fmt (index + 1) = c \<longleftrightarrow> index + 1 < length fmt \<and> fmt ! (index + 1) = c"
      if "c \<noteq> CHR 0x00" for c using that by (auto simp: format_char_at_def)
    consider (open2) "fmt ! index = CHR ''{''" "index + 1 < length fmt" "fmt ! (index + 1) = CHR ''{''"
      | (field) "fmt ! index = CHR ''{''" "\<not> (index + 1 < length fmt \<and> fmt ! (index + 1) = CHR ''{'')"
      | (close) "fmt ! index = CHR ''}''"
      | (lit) "fmt ! index \<noteq> CHR ''{''" "fmt ! index \<noteq> CHR ''}''"
      by blast
    then show ?thesis
    proof cases
      case open2
      obtain us where us: "tokens_from fmt (index + 2) = Some us" "ts = Lit CHR ''{'' # us"
        using ts in_str open2 by (subst (asm) tokens_from.simps) auto
      have c: "format_char_at fmt index = CHR ''{'' \<and> format_char_at fmt (index + 1) = CHR ''{''"
        using open2 at at1 by simp
      show ?thesis
        using IH(1) [OF notge c us(1)] us(2) unfolding emit_format.simps [of fmt index] if_not_P [OF notge] if_P [OF c]
        by simp
    next
      case field
      then have v: "ff_valid (parse_field_at fmt index)"
        using ts in_str by (subst (asm) tokens_from.simps) (auto split: if_splits)
      let ?l = "ff_length (parse_field_at fmt index)"
      obtain us where us: "tokens_from fmt (index + ?l) = Some us" "ts = Field (ff_spec (parse_field_at fmt index)) # us"
        using ts in_str field v by (subst (asm) tokens_from.simps) auto
      have c: "\<not> (format_char_at fmt index = CHR ''{'' \<and> format_char_at fmt (index + 1) = CHR ''{'')"
          "\<not> (format_char_at fmt index = CHR ''}'' \<and> format_char_at fmt (index + 1) = CHR ''}'')"
          "format_char_at fmt index = CHR ''{''"
        using field at at1 by auto
      have e: "emit_format fmt index k args =
          (case emit_nth_arg k (ff_spec (parse_field_at fmt index)) args of None \<Rightarrow> None
           | Some v \<Rightarrow> map_option (\<lambda>t. v @ t) (emit_format fmt (index + ?l) (k + 1) args))"
        using v by (simp only: emit_format.simps [of fmt index] if_not_P [OF notge] if_not_P [OF c(1)]
            if_not_P [OF c(2)] if_P [OF c(3)] not_True_eq_False if_False)
      have drop: "drop k args = a # rest \<Longrightarrow> drop (k + 1) args = rest" for a rest
        by (metis add.commute drop_drop drop_eq_Nil drop_0 drop_Suc_Cons One_nat_def)
      show ?thesis
        using IH(3) [OF notge c, of _ us] v us drop unfolding e
        by (auto simp: emit_nth_arg_drop split: list.splits option.splits)
    next
      case close
      have n1: "index + 1 < length fmt" "fmt ! (index + 1) = CHR ''}''"
        using ts in_str close by (subst (asm) tokens_from.simps, auto split: if_splits)+
      obtain us where us: "tokens_from fmt (index + 2) = Some us" "ts = Lit CHR ''}'' # us"
        using ts in_str close n1 by (subst (asm) tokens_from.simps) auto
      have c: "\<not> (format_char_at fmt index = CHR ''{'' \<and> format_char_at fmt (index + 1) = CHR ''{'')"
          "format_char_at fmt index = CHR ''}'' \<and> format_char_at fmt (index + 1) = CHR ''}''"
        using close n1 at at1 by auto
      show ?thesis
        using IH(2) [OF notge c us(1)] us(2)
        unfolding emit_format.simps [of fmt index] if_not_P [OF notge] if_not_P [OF c(1)] if_P [OF c(2)] by simp
    next
      case lit
      note pos = run_end_positive [OF in_str lit]
      have r: "index + literal_run_length fmt index = run_end fmt index"
        using run_end_ge by (simp add: literal_run_length_def)
      obtain us where us: "tokens_from fmt (index + literal_run_length fmt index) = Some us"
          "ts = map Lit (take (literal_run_length fmt index) (drop index fmt)) @ us"
        using ts unfolding run_tokens [of fmt index] r by (auto simp: literal_run_length_def)
      have c: "\<not> (format_char_at fmt index = CHR ''{'' \<and> format_char_at fmt (index + 1) = CHR ''{'')"
          "\<not> (format_char_at fmt index = CHR ''}'' \<and> format_char_at fmt (index + 1) = CHR ''}'')"
          "format_char_at fmt index \<noteq> CHR ''{''"
        using lit at by auto
      show ?thesis
        using IH(4) [OF notge c pos us(1)] us(2)
        unfolding emit_format.simps [of fmt index] if_not_P [OF notge] if_not_P [OF c(1)] if_not_P [OF c(2)]
          if_not_P [OF c(3)] if_P [OF pos] by (simp add: render_lits)
    qed
  qed
qed

lemma kprint_spec:
  "kprint_ct fmt args =
     (case tokens_from fmt 0 of
        None \<Rightarrow> None
      | Some ts \<Rightarrow> if field_count ts = length args then render ts args else None)"
proof (cases "tokens_from fmt 0")
  case None
  then show ?thesis using parse_format_tokens [of fmt 0 0] by (simp add: kprint_ct_def parse_format_def)
next
  case (Some ts)
  then show ?thesis
    using parse_format_tokens [of fmt 0 0] emit_format_tokens [OF Some, of 0 args]
    by (simp add: kprint_ct_def parse_format_def)
qed

lemma kprint_text:
  "tokens_from fmt 0 = Some ts \<Longrightarrow> field_count ts = length args \<Longrightarrow> kprint_ct fmt args = render ts args"
  by (simp add: kprint_spec)

text \<open>
  C21: \<open>kprint_ct\<close> compiles exactly for a format string whose braces are balanced fields and
  escapes, with as many fields as arguments, each field accepted by the formatter of its
  argument (whose text is also undefined for one floating-point value, the largest at precision
  0); what it then prints is the string read once as tokens, with the literal text as it
  stands, doubled braces single and the n-th field replaced by the n-th argument. The
  checker and the emitter, two separate scanners, agree on where every field is.
\<close>

theorem kprint_renders:
  "kprint_ct fmt args =
     (case tokens_from fmt 0 of
        None \<Rightarrow> None
      | Some ts \<Rightarrow> if field_count ts = length args then render ts args else None)"
  by (rule kprint_spec)

section \<open>Decimal numbers\<close>

definition digits_value :: "u64 \<Rightarrow> string \<Rightarrow> u64" where
  "digits_value = foldl (\<lambda>n c. n * 10 + format_digit_value c)"

lemma parse_digits_all:
  "list_all is_format_digit ds \<Longrightarrow>
   parse_digits (pre @ ds) (length pre) n = (length (pre @ ds), digits_value n ds)"
proof (induction ds arbitrary: pre n)
  case Nil
  show ?case by (subst parse_digits.simps) (simp add: digits_value_def)
next
  case (Cons c ds)
  have "parse_digits (pre @ c # ds) (length pre) n =
      parse_digits ((pre @ [c]) @ ds) (length (pre @ [c])) (n * 10 + format_digit_value c)"
    using Cons.prems by (subst parse_digits.simps) (simp add: nth_append)
  then show ?case using Cons.IH [of "pre @ [c]"] Cons.prems by (simp add: digits_value_def)
qed

lemma digit_char:
  assumes "k < 10"
  shows "is_format_digit (char_of (48 + k))" "format_digit_value (char_of (48 + k)) = of_nat k"
proof -
  have m: "(48 + k) mod 256 = 48 + k" using assms by simp
  show "is_format_digit (char_of (48 + k))" using assms by (simp add: is_format_digit_def m)
  have "(of_char (char_of (48 + k) :: char) :: u64) = of_nat (of_char (char_of (48 + k) :: char))"
    by (simp only: of_nat_of_char)
  also have "\<dots> = 48 + of_nat k" by (simp add: m)
  finally show "format_digit_value (char_of (48 + k)) = of_nat k" by (simp add: format_digit_value_def)
qed

lemma unat_mod_10: "unat (v mod 10 :: u64) < 10"
  by (simp add: unat_mod_distrib)

lemma decimal_reverse_digits: "list_all is_format_digit (decimal_reverse v)"
proof (induction v rule: decimal_reverse.induct)
  case (1 v)
  then show ?case
    by (subst decimal_reverse.simps) (simp add: digit_char(1) [OF unat_mod_10])
qed

lemma decimal_reverse_value: "digits_value 0 (rev (decimal_reverse v)) = v"
proof (induction v rule: decimal_reverse.induct)
  case (1 v)
  have "digits_value 0 (rev (decimal_reverse v)) = (v div 10) * 10 + v mod 10"
  proof (cases "v div 10 = 0")
    case True
    then show ?thesis
      by (subst decimal_reverse.simps) (simp add: digits_value_def digit_char(2) [OF unat_mod_10])
  next
    case False
    then show ?thesis using "1.IH" [OF False]
      by (subst decimal_reverse.simps) (simp add: digits_value_def digit_char(2) [OF unat_mod_10])
  qed
  then show ?case by (simp only: div_mult_mod_eq)
qed

lemma decimal_reverse_length: "unat v < 10 ^ Suc k \<Longrightarrow> length (decimal_reverse v) \<le> Suc k"
proof (induction k arbitrary: v)
  case 0
  then have "v div 10 = 0" by (simp add: word_unat_eq_iff unat_div_distrib)
  then show ?case by (subst decimal_reverse.simps) simp
next
  case (Suc k)
  have "unat (v div 10) < 10 ^ Suc k" using Suc.prems by (simp add: unat_div_distrib)
  then show ?case using Suc.IH [of "v div 10"] by (subst decimal_reverse.simps) simp
qed

text \<open>
  The decimal text of every 64-bit number is read back by the digit loop of the format
  parser as that number, consuming all of it; it has between one and twenty characters, the
  size of the digit array in \<open>format_u64_decimal\<close>, all of them digits.
\<close>

theorem decimal_round_trip:
  "parse_digits (format_u64_decimal v) 0 0 = (length (format_u64_decimal v), v) \<and>
   1 \<le> length (format_u64_decimal v) \<and> length (format_u64_decimal v) \<le> 20 \<and>
   list_all is_format_digit (format_u64_decimal v)"
proof -
  have d: "list_all is_format_digit (format_u64_decimal v)"
    using decimal_reverse_digits by (simp add: format_u64_decimal_def list_all_iff)
  have "unat v < 2 ^ 64" using unsigned_less [of v] by simp
  then have "unat v < 10 ^ Suc 19" by simp
  then have l: "length (decimal_reverse v) \<le> 20" using decimal_reverse_length [of v 19] by simp
  have "decimal_reverse v \<noteq> []" by (subst decimal_reverse.simps) simp
  then show ?thesis
    using parse_digits_all [OF d, of "[]" 0] d l decimal_reverse_value [of v]
    by (simp add: format_u64_decimal_def Suc_le_eq)
qed

section \<open>Hexadecimal numbers\<close>

definition hex_nibble :: "bool \<Rightarrow> u64 \<Rightarrow> nat \<Rightarrow> char" where
  "hex_nibble uppercase v i =
     (if uppercase then HEX_DIGITS_UPPER else HEX_DIGITS_LOWER) ! unat (drop_bit (4 * i) v AND 0xF)"

lemma hex_reverse_nibbles:
  "unat v < 16 ^ Suc n \<Longrightarrow>
   length (hex_reverse u v) \<le> Suc n \<and>
   hex_reverse u v @ replicate (Suc n - length (hex_reverse u v)) CHR ''0'' = map (hex_nibble u v) [0..<Suc n]"
proof (induction n arbitrary: v)
  case 0
  then have "drop_bit 4 v = 0"
    by (simp only: word_unat_eq_iff unat_drop_bit_eq) (simp add: drop_bit_eq_div)
  then show ?case by (subst (1 2 3) hex_reverse.simps) (simp add: hex_nibble_def)
next
  case (Suc n)
  have split: "map (hex_nibble u v) [0..<Suc (Suc n)] = hex_nibble u v 0 # map (hex_nibble u (drop_bit 4 v)) [0..<Suc n]"
    by (simp only: upt_conv_Cons zero_less_Suc list.map flip: map_Suc_upt)
      (simp add: hex_nibble_def drop_bit_drop_bit ac_simps)
  have lt: "unat (drop_bit 4 v) < 16 ^ Suc n"
    using Suc.prems by (simp only: unat_drop_bit_eq) (simp add: drop_bit_eq_div)
  have head: "hex_nibble u v 0 = (if u then HEX_DIGITS_UPPER else HEX_DIGITS_LOWER) ! unat (v AND 0xF)"
    by (simp add: hex_nibble_def)
  show ?case
  proof (cases "drop_bit 4 v = 0")
    case True
    have z: "hex_nibble u 0 i = CHR ''0''" for i
      by (simp add: hex_nibble_def HEX_DIGITS_UPPER_def HEX_DIGITS_LOWER_def)
    have "hex_reverse u v = [hex_nibble u v 0]" by (subst hex_reverse.simps) (simp add: True head)
    moreover have "map (hex_nibble u 0) [0..<Suc n] = replicate (Suc n) CHR ''0''"
      by (rule nth_equalityI) (simp_all add: z del: upt_Suc replicate_Suc)
    ultimately show ?thesis unfolding split True by (simp del: upt_Suc)
  next
    case False
    have "hex_reverse u v = hex_nibble u v 0 # hex_reverse u (drop_bit 4 v)"
      by (subst hex_reverse.simps) (simp add: False head)
    then show ?thesis using Suc.IH [OF lt] unfolding split by simp
  qed
qed


text \<open>The sixteen digits, most significant first, as \<^verbatim>\<open>emit_hex_u64\<close> computes them.\<close>

lemma hex_padded:
  "replicate (16 - length (format_u64_hex v u)) CHR ''0'' @ format_u64_hex v u =
     map (\<lambda>i. hex_nibble u v (15 - i)) [0..<16]" and hex_length: "length (format_u64_hex v u) \<le> 16"
proof -
  have "unat v < 2 ^ 64" using unsigned_less [of v] by simp
  then have "unat v < 16 ^ Suc 15" by simp
  note n = hex_reverse_nibbles [OF this, of u]
  show "length (format_u64_hex v u) \<le> 16" using n by (simp add: format_u64_hex_def)
  have "replicate (16 - length (format_u64_hex v u)) CHR ''0'' @ format_u64_hex v u =
      rev (hex_reverse u v @ replicate (Suc 15 - length (hex_reverse u v)) CHR ''0'')"
    by (simp add: format_u64_hex_def)
  also have "\<dots> = rev (map (hex_nibble u v) [0..<Suc 15])" using n by (simp only:)
  also have "\<dots> = map (\<lambda>i. hex_nibble u v (15 - i)) [0..<16]"
    by (rule nth_equalityI) (simp_all add: rev_nth nth_append del: upt_Suc)
  finally show "replicate (16 - length (format_u64_hex v u)) CHR ''0'' @ format_u64_hex v u =
     map (\<lambda>i. hex_nibble u v (15 - i)) [0..<16]" .
qed

section \<open>The plain emitters\<close>

definition fresh_console :: console where "fresh_console = \<lparr>m_sink = Some 0x1000, written = []\<rparr>"

lemma emit_char_fold:
  "m_sink con \<noteq> None \<Longrightarrow> fold emit_char cs con = con\<lparr>written := written con @ cs\<rparr>"
  by (induction cs arbitrary: con) (simp_all add: emit_char_def console_write_def)

lemma decimal_digits_reverse: "v \<noteq> 0 \<Longrightarrow> decimal_digits v = decimal_reverse v"
proof (induction v rule: decimal_digits.induct)
  case (1 v)
  show ?case
  proof (cases "v div 10 = 0")
    case True
    then show ?thesis using "1.prems"
      by (subst decimal_digits.simps, subst decimal_reverse.simps) (simp add: decimal_digits.simps [of 0])
  next
    case False
    then show ?thesis using "1.IH" [OF "1.prems" False] "1.prems"
      by (subst decimal_digits.simps, subst decimal_reverse.simps) simp
  qed
qed

lemma emit_decimal_text:
  assumes "m_sink con \<noteq> None"
  shows "emit_decimal_u64 v con = con\<lparr>written := written con @ format_u64_decimal v\<rparr>"
proof (cases "v = 0")
  case True
  have "decimal_reverse 0 = ''0''" by code_simp
  then show ?thesis
    using True assms by (simp add: emit_decimal_u64_def emit_char_def console_write_def format_u64_decimal_def)
next
  case False
  then show ?thesis
    using assms by (simp add: emit_decimal_u64_def emit_char_fold decimal_digits_reverse format_u64_decimal_def)
qed

lemma emit_padded_plain:
  "\<not> f_has_width spec \<Longrightarrow> emit_padded spec prefix body numeric = prefix @ body"
  by (simp add: emit_padded_def emit_repeated_def Let_def)

lemma default_field:
  "tokens_from ''{}'' 0 = Some [Field default_format_spec]"
  by code_simp

definition hex18_spec :: format_spec where
  "hex18_spec = default_format_spec\<lparr>presentation_value := P_HEX_UPPER, f_align := A_RIGHT,
     f_alternate := True, f_zero_pad := True, f_has_width := True, f_width := 18\<rparr>"

lemma hex18_field: "tokens_from ''{:#018X}'' 0 = Some [Field hex18_spec]"
  by code_simp

definition hex18_text :: "u64 \<Rightarrow> string" where
  "hex18_text v = ''0x'' @ map (\<lambda>i. hex_nibble True v (15 - i)) [0..<16]"

lemma emit_hex18: "emit_value hex18_spec (Arg_unsigned v) = Some (hex18_text v)"
proof -
  have "emit_value hex18_spec (Arg_unsigned v) =
      Some (''0x'' @ replicate (16 - length (format_u64_hex v True)) CHR ''0'' @ format_u64_hex v True)"
    using hex_length [of v True]
    by (auto simp: hex18_spec_def default_format_spec_def emit_unsigned_def emit_hex_integer_def emit_padded_def
        emit_repeated_def)
  then show ?thesis unfolding hex_padded hex18_text_def .
qed

lemma emit_default:
  "emit_value default_format_spec (Arg_unsigned v) = Some (format_u64_decimal v)"
  "emit_value default_format_spec (Arg_signed v) =
     Some (sign_prefix default_format_spec (sint v < 0) @ format_u64_decimal (signed_magnitude_i64 v))"
  "emit_value default_format_spec (Arg_c_string address (Some t)) = Some (take (c_string_length t) t)"
  "emit_value default_format_spec (Arg_bool b) = Some (if b then ''true'' else ''false'')"
  by (simp_all add: emit_unsigned_def emit_unsigned_decimal_def emit_signed_def emit_signed_decimal_def
      emit_c_string_arg_def emit_string_value_def emit_bool_def emit_padded_def emit_repeated_def
      default_format_spec_def c_string_length_def)

text \<open>
  The plain emitters and the formatter print the same text: \<open>{}\<close> on an unsigned or signed
  64-bit number what \<open>emit_decimal_u64\<close> and \<open>emit_decimal_i64\<close> write digit by digit, and
  \<open>{:#018X}\<close> the eighteen characters of \<open>emit_hex_u64\<close>, which takes the nibbles from the top
  instead of dividing.
\<close>

theorem emitters_agree:
  "kprint_ct ''{}'' [Arg_unsigned v] = Some (written (emit_decimal_u64 v fresh_console)) \<and>
   kprint_ct ''{}'' [Arg_signed v] = Some (written (emit_decimal_i64 v fresh_console)) \<and>
   kprint_ct ''{:#018X}'' [Arg_unsigned v] = Some (written (emit_hex_u64 v fresh_console))"
proof -
  have k: "kprint_ct fmt [a] = emit_value spec a" if "tokens_from fmt 0 = Some [Field spec]" for fmt a spec
    using that parse_format_tokens [of fmt 0 0] emit_format_tokens [OF that, of 0 "[a]"]
    by (simp add: kprint_ct_def parse_format_def option.map_ident split: option.splits)
  have con: "m_sink fresh_console \<noteq> None" "written fresh_console = []" by (simp_all add: fresh_console_def)
  have u: "kprint_ct ''{}'' [Arg_unsigned v] = Some (written (emit_decimal_u64 v fresh_console))"
    unfolding k [OF default_field] emit_default by (simp add: emit_decimal_text con)
  have i: "kprint_ct ''{}'' [Arg_signed v] = Some (written (emit_decimal_i64 v fresh_console))"
    unfolding k [OF default_field] emit_default
    by (simp add: emit_decimal_text con sign_prefix_def emit_decimal_i64_def signed_magnitude_i64_def
        emit_char_def console_write_def default_format_spec_def)
  have x: "kprint_ct ''{:#018X}'' [Arg_unsigned v] = Some (written (emit_hex_u64 v fresh_console))"
    unfolding k [OF hex18_field] emit_hex18 hex18_text_def
    by (simp add: emit_hex_u64_def console_write_def con hex_nibble_def diff_mult_distrib2 del: upt_Suc)
  from u i x show ?thesis by blast
qed

section \<open>Padding\<close>

lemma parse_width_bound:
  "parse_width fmt index spec = Some (i, s) \<Longrightarrow> f_has_width s \<Longrightarrow> f_width s \<le> MAX_FORMAT_WIDTH"
  by (auto simp: parse_width_def Let_def split: prod.splits if_splits)

lemma parse_tail_width:
  "parse_precision fmt index spec = Some (i, s) \<Longrightarrow> f_has_width s = f_has_width spec \<and> f_width s = f_width spec"
  "parse_type fmt index spec = Some (i, s) \<Longrightarrow> f_has_width s = f_has_width spec \<and> f_width s = f_width spec"
  by (auto simp: parse_precision_def parse_type_def Let_def split: prod.splits if_splits option.splits)

lemma parse_field_width:
  assumes "ff_valid (parse_field_at fmt offset)" "f_has_width (ff_spec (parse_field_at fmt offset))"
  shows "f_width (ff_spec (parse_field_at fmt offset)) \<le> MAX_FORMAT_WIDTH"
  using assms
  by (auto simp: parse_field_at_def invalid_format_field_def default_format_spec_def Let_def
      split: prod.splits if_splits option.splits dest: parse_width_bound dest!: parse_tail_width)

text \<open>
  What a field of a format string prints is the prefix and the digits or text of its
  argument in full, filled up to the field's width: the text is exactly as long as the longer
  of content and width, and a width that the parser accepted fills at most 128 characters.
\<close>

theorem padded_field_length:
  assumes "ff_valid (parse_field_at fmt offset)" and "spec = ff_spec (parse_field_at fmt offset)"
  shows "length (emit_padded spec prefix body numeric) =
           max (length prefix + length body) (if f_has_width spec then unat (f_width spec) else 0) \<and>
         length (emit_padded spec prefix body numeric) \<le> max (length prefix + length body) 128 \<and>
         (\<exists>a b c. emit_padded spec prefix body numeric = a @ prefix @ b @ body @ c)"
proof -
  let ?t = "emit_padded spec prefix body numeric"
  have len: "length ?t = max (length prefix + length body) (if f_has_width spec then unat (f_width spec) else 0)"
    by (auto simp: emit_padded_def emit_repeated_def Let_def)
  have "f_has_width spec \<Longrightarrow> unat (f_width spec) \<le> 128"
    using parse_field_width [OF assms(1)] unfolding assms(2) by (simp add: MAX_FORMAT_WIDTH_def word_le_nat_alt)
  then have bound: "length ?t \<le> max (length prefix + length body) 128" unfolding len by auto
  have "\<exists>a b c. ?t = a @ prefix @ b @ body @ c"
    unfolding emit_padded_def Let_def by (auto split: if_splits) (metis append_Nil append_Nil2 append_assoc)+
  with len bound show ?thesis by blast
qed

text \<open>
  The width limit is checked on the 64-bit number the digit loop leaves, which has wrapped
  for a long literal: \<open>{:18446744073709551617}\<close> is accepted as a field of width 1.
\<close>

theorem width_check_wraps:
  "ff_valid (parse_field_at ''{:18446744073709551617}'' 0) \<and>
   f_width (ff_spec (parse_field_at ''{:18446744073709551617}'' 0)) = 1"
  by code_simp

end
