(* ===== verification/Kpanic.thy ===== *)
theory Kpanic
  imports Format_Correct
begin

text \<open>
  \<^verbatim>\<open>kernel/debug/kpanic.cpp\<close> and \<^verbatim>\<open>kpanic.hpp\<close>: the report a panic prints before the
  processor halts. A report is the text on the console; \<open>None\<close> stands for a format string
  that does not compile with its arguments.
\<close>

definition PANIC_PREFIX :: string where
  "PANIC_PREFIX = CHR 0x1B # ''[1;31m[panic]'' @ CHR 0x1B # ''[0m''"

record panic_register_frame =
  pf_rax :: u64
  pf_rbx :: u64
  pf_rcx :: u64
  pf_rdx :: u64
  pf_rsi :: u64
  pf_rdi :: u64
  pf_rbp :: u64
  pf_rsp :: u64
  pf_r8 :: u64
  pf_r9 :: u64
  pf_r10 :: u64
  pf_r11 :: u64
  pf_r12 :: u64
  pf_r13 :: u64
  pf_r14 :: u64
  pf_r15 :: u64
  pf_rip :: u64
  pf_rflags :: u64
  pf_cs :: u64
  pf_ds :: u64
  pf_es :: u64
  pf_fs :: u64
  pf_gs :: u64
  pf_ss :: u64
  pf_cr0 :: u64
  pf_cr2 :: u64
  pf_cr3 :: u64
  pf_cr4 :: u64

definition panic_fields :: "panic_register_frame \<Rightarrow> (string \<times> u64) list" where
  "panic_fields r =
     [(''rax'', pf_rax r), (''rbx'', pf_rbx r), (''rcx'', pf_rcx r), (''rdx'', pf_rdx r),
      (''rsi'', pf_rsi r), (''rdi'', pf_rdi r), (''rbp'', pf_rbp r), (''rsp'', pf_rsp r),
      (''r8'', pf_r8 r), (''r9'', pf_r9 r), (''r10'', pf_r10 r), (''r11'', pf_r11 r),
      (''r12'', pf_r12 r), (''r13'', pf_r13 r), (''r14'', pf_r14 r), (''r15'', pf_r15 r),
      (''rip'', pf_rip r), (''rflags'', pf_rflags r), (''cs'', pf_cs r), (''ds'', pf_ds r),
      (''es'', pf_es r), (''fs'', pf_fs r), (''gs'', pf_gs r), (''ss'', pf_ss r),
      (''cr0'', pf_cr0 r), (''cr2'', pf_cr2 r), (''cr3'', pf_cr3 r), (''cr4'', pf_cr4 r)]"

definition zero_panic_frame :: panic_register_frame where
  "zero_panic_frame =
     \<lparr>pf_rax = 0, pf_rbx = 0, pf_rcx = 0, pf_rdx = 0, pf_rsi = 0, pf_rdi = 0, pf_rbp = 0,
      pf_rsp = 0, pf_r8 = 0, pf_r9 = 0, pf_r10 = 0, pf_r11 = 0, pf_r12 = 0, pf_r13 = 0,
      pf_r14 = 0, pf_r15 = 0, pf_rip = 0, pf_rflags = 0, pf_cs = 0, pf_ds = 0, pf_es = 0,
      pf_fs = 0, pf_gs = 0, pf_ss = 0, pf_cr0 = 0, pf_cr2 = 0, pf_cr3 = 0, pf_cr4 = 0\<rparr>"

text \<open>\<^verbatim>\<open>source_location\<close> of the panic.\<close>

record location =
  loc_file :: string
  loc_line :: u64
  loc_function :: string

text \<open>A character pointer to \<open>t\<close>; the address itself is printed by no field used here.\<close>

definition text_arg :: "string \<Rightarrow> fmt_arg" where "text_arg t = Arg_c_string 1 (Some t)"

definition REGISTERS_PER_LINE :: nat where "REGISTERS_PER_LINE = 3"

fun append_text :: "string option \<Rightarrow> string option \<Rightarrow> string option" where
  "append_text (Some a) (Some b) = Some (a @ b)"
| "append_text _ _ = None"

fun dump_fields :: "nat \<Rightarrow> (string \<times> u64) list \<Rightarrow> string option" where
  "dump_fields column [] =
     Some (if column mod REGISTERS_PER_LINE \<noteq> 0 then [CHR 0x0A] else [])"
| "dump_fields column ((name, v) # fs) =
     append_text (kprint_ct ''  {:<6} {:#018X}'' [Arg_str_view name, Arg_unsigned v])
       (append_text (Some (if (column + 1) mod REGISTERS_PER_LINE = 0 then [CHR 0x0A] else []))
          (dump_fields (column + 1) fs))"

definition dump_panic_registers :: "panic_register_frame \<Rightarrow> string option" where
  "dump_panic_registers r = dump_fields 0 (panic_fields r)"

text \<open>The text \<^verbatim>\<open>kpanic\<close> prints; it then halts.\<close>

definition kpanic :: "string option \<Rightarrow> panic_register_frame option \<Rightarrow> location \<Rightarrow> string option" where
  "kpanic message frame loc =
     append_text
       (case message of None \<Rightarrow> Some [] | Some m \<Rightarrow> kprintln_ct ''{} {}'' [text_arg PANIC_PREFIX, text_arg m])
       (append_text
          (kprintln_ct ''{} at {}:{} in {}''
             [text_arg PANIC_PREFIX, text_arg (loc_file loc), Arg_signed (loc_line loc), text_arg (loc_function loc)])
          (append_text
             (case frame of None \<Rightarrow> Some [] | Some r \<Rightarrow> dump_panic_registers r)
             (kprintln_ct ''{} halt'' [text_arg PANIC_PREFIX])))"

definition kpanic_fmt ::
    "string \<Rightarrow> fmt_arg list \<Rightarrow> panic_register_frame option \<Rightarrow> location \<Rightarrow> string option" where
  "kpanic_fmt fmt args frame loc =
     append_text (Some (take (c_string_length PANIC_PREFIX) PANIC_PREFIX @ '' ''))
       (append_text (kprintln_ct fmt args) (kpanic None frame loc))"

section \<open>The report written out\<close>

definition shown :: "string \<Rightarrow> string" where "shown t = take (c_string_length t) t"

definition signed_text :: "u64 \<Rightarrow> string" where
  "signed_text v = sign_prefix default_format_spec (sint v < 0) @ format_u64_decimal (signed_magnitude_i64 v)"

definition register_cell :: "string \<times> u64 \<Rightarrow> string" where
  "register_cell nv = ''  '' @ fst nv @ replicate (6 - length (fst nv)) CHR '' '' @ '' '' @ hex18_text (snd nv)"

fun register_lines :: "(string \<times> u64) list \<Rightarrow> string" where
  "register_lines (a # b # c # rest) =
     register_cell a @ register_cell b @ register_cell c @ [CHR 0x0A] @ register_lines rest"
| "register_lines [] = []"
| "register_lines [a] = register_cell a @ [CHR 0x0A]"
| "register_lines [a, b] = register_cell a @ register_cell b @ [CHR 0x0A]"

definition panic_tail :: "panic_register_frame \<Rightarrow> location \<Rightarrow> string" where
  "panic_tail r loc =
     PANIC_PREFIX @ '' at '' @ shown (loc_file loc) @ '':'' @ signed_text (loc_line loc) @ '' in ''
       @ shown (loc_function loc) @ [CHR 0x0A] @ register_lines (panic_fields r)
       @ PANIC_PREFIX @ '' halt'' @ [CHR 0x0A]"

lemma emit_text_arg [simp]: "emit_value default_format_spec (text_arg t) = Some (shown t)"
  unfolding text_arg_def emit_default shown_def ..

lemma emit_signed_arg: "emit_value default_format_spec (Arg_signed v) = Some (signed_text v)"
  unfolding emit_default signed_text_def ..

lemmas emit_numbers [simp] =
  emit_signed_arg [unfolded emit_value.simps] emit_default(1) [unfolded emit_value.simps]
  emit_hex18 [unfolded emit_value.simps]

lemma shown_prefix [simp]: "shown PANIC_PREFIX = PANIC_PREFIX"
  by (simp add: shown_def c_string_length_def PANIC_PREFIX_def)

definition left6_spec :: format_spec where
  "left6_spec = default_format_spec\<lparr>f_align := A_LEFT, f_has_width := True, f_width := 6\<rparr>"

lemma cell_tokens:
  "tokens_from ''  {:<6} {:#018X}'' 0 =
     Some [Lit CHR '' '', Lit CHR '' '', Field left6_spec, Lit CHR '' '', Field hex18_spec]"
  by code_simp

lemma cell_text:
  "kprint_ct ''  {:<6} {:#018X}'' [Arg_str_view name, Arg_unsigned v] = Some (register_cell (name, v))"
proof -
  have "emit_value left6_spec (Arg_str_view name) = Some (name @ replicate (6 - length name) CHR '' '')"
    by (simp add: left6_spec_def emit_str_view_def emit_padded_def emit_repeated_def
        default_format_spec_def Let_def)
  then show ?thesis by (simp add: kprint_text [OF cell_tokens] register_cell_def)
qed

lemma dump_fields_lines:
  "dump_fields column fs = Some (register_lines fs)" if "column mod 3 = 0"
  using that
proof (induction fs arbitrary: column rule: register_lines.induct)
  case (1 a b c rest)
  obtain an av bn bv cn cv where abc: "a = (an, av)" "b = (bn, bv)" "c = (cn, cv)"
    by (cases a, cases b, cases c) blast
  have m: "Suc column mod 3 = 1" "Suc (Suc column) mod 3 = 2" "Suc (Suc (Suc column)) mod 3 = 0"
    using 1(2) by presburger+
  have "dump_fields (Suc (Suc (Suc column))) rest = Some (register_lines rest)" by (rule 1(1)) (rule m)
  then show ?case using m by (simp add: abc cell_text REGISTERS_PER_LINE_def del: mod_Suc)
next
  case 2
  then show ?case by (simp add: REGISTERS_PER_LINE_def)
next
  case (3 a)
  have "Suc column mod 3 = 1" using 3 by presburger
  then show ?case by (cases a) (simp add: cell_text REGISTERS_PER_LINE_def)
next
  case (4 a b)
  have "Suc column mod 3 = 1" "Suc (Suc column) mod 3 = 2" using 4 by presburger+
  then show ?case by (cases a, cases b) (simp add: cell_text REGISTERS_PER_LINE_def)
qed

lemma at_tokens:
  "tokens_from ''{} at {}:{} in {}'' 0 =
     Some (Field default_format_spec # map Lit '' at '' @ Field default_format_spec # Lit CHR '':''
       # Field default_format_spec # map Lit '' in '' @ [Field default_format_spec])"
  by code_simp

lemma halt_tokens: "tokens_from ''{} halt'' 0 = Some (Field default_format_spec # map Lit '' halt'')"
  by code_simp

lemma kpanic_tail: "kpanic None (Some r) loc = Some (panic_tail r loc)"
  by (simp add: kpanic_def kprintln_ct_def kprint_text [OF at_tokens] kprint_text [OF halt_tokens]
      dump_panic_registers_def dump_fields_lines panic_tail_def)

lemma kpanic_fmt_text:
  "kprint_ct fmt args = Some t \<Longrightarrow>
   kpanic_fmt fmt args (Some r) loc = Some (PANIC_PREFIX @ '' '' @ t @ [CHR 0x0A] @ panic_tail r loc)"
  using shown_prefix by (simp add: kpanic_fmt_def kprintln_ct_def kpanic_tail shown_def)

end
