(* ===== verification/Cpu_Tables.thy ===== *)
theory Cpu_Tables
  imports Bits
begin

text \<open>
  The tables a core hands to the processor: \<^verbatim>\<open>arch/x86_64/cpu/stacks.cpp\<close>,
  \<^verbatim>\<open>tss/tss.cpp\<close>, \<^verbatim>\<open>gdt/gdt.cpp\<close> and \<^verbatim>\<open>idt/idt.cpp\<close>. The address of an object is an
  argument of the operations that take it; entry points of handlers are addresses, 0 being
  the null pointer. The section on decoding says how the processor reads the tables.
\<close>

section \<open>Stacks\<close>

definition CORE_STACK_SIZE :: u64 where "CORE_STACK_SIZE = 16 * 1024"
definition STACK_BYTE_ALIGNMENT :: u64 where "STACK_BYTE_ALIGNMENT = 16"

record stack =
  bottom :: u64
  top_address :: u64
  stack_size :: u64

record stack_set =
  kernel_m :: stack
  double_fault_m :: stack
  nmi_m :: stack
  machine_check_m :: stack

definition describe_stack :: "u64 \<Rightarrow> u64 \<Rightarrow> stack" where
  "describe_stack storage storage_size =
     \<lparr>bottom = storage, top_address = storage + storage_size, stack_size = storage_size\<rparr>"

text \<open>
  Where the storage arrays lie in a \<^verbatim>\<open>stack_set\<close> at \<open>self\<close>: after the four descriptions of
  24 bytes each, one after the other, every one a multiple of the alignment.
\<close>

definition stack_storage :: "u64 \<Rightarrow> nat \<Rightarrow> u64" where
  "stack_storage self i = self + 96 + of_nat i * CORE_STACK_SIZE"

definition stack_set_init :: "u64 \<Rightarrow> stack_set" where
  "stack_set_init self =
     \<lparr>kernel_m = describe_stack (stack_storage self 0) CORE_STACK_SIZE,
      double_fault_m = describe_stack (stack_storage self 1) CORE_STACK_SIZE,
      nmi_m = describe_stack (stack_storage self 2) CORE_STACK_SIZE,
      machine_check_m = describe_stack (stack_storage self 3) CORE_STACK_SIZE\<rparr>"

section \<open>Task state segment\<close>

definition PRIVILEGE_STACK_COUNT :: u8 where "PRIVILEGE_STACK_COUNT = 3"
definition INTERRUPT_STACK_COUNT :: u8 where "INTERRUPT_STACK_COUNT = 7"
definition NO_INTERRUPT_STACK :: u8 where "NO_INTERRUPT_STACK = 0"

datatype interrupt_stack =
  IST_NONE | IST_DOUBLE_FAULT | IST_NMI | IST_MACHINE_CHECK | IST4 | IST5 | IST6 | IST7

fun ist_u8 :: "interrupt_stack \<Rightarrow> u8" where
  "ist_u8 IST_NONE = 0"
| "ist_u8 IST_DOUBLE_FAULT = 1"
| "ist_u8 IST_NMI = 2"
| "ist_u8 IST_MACHINE_CHECK = 3"
| "ist_u8 IST4 = 4"
| "ist_u8 IST5 = 5"
| "ist_u8 IST6 = 6"
| "ist_u8 IST7 = 7"

record segment =
  seg_reserved0 :: u32
  seg_rsp :: "u64 list"
  seg_reserved1 :: u64
  seg_ist :: "u64 list"
  seg_reserved2 :: u64
  seg_reserved3 :: u16
  io_map_base :: u16

definition sizeof_segment :: nat where "sizeof_segment = 104"

definition IO_MAP_DISABLED_BASE :: u16 where "IO_MAP_DISABLED_BASE = of_nat sizeof_segment"

record stack_config =
  rsp0 :: u64
  rsp1 :: u64
  rsp2 :: u64
  ist1 :: u64
  ist2 :: u64
  ist3 :: u64
  ist4 :: u64
  ist5 :: u64
  ist6 :: u64
  ist7 :: u64

definition stack_config_zero :: stack_config where
  "stack_config_zero =
     \<lparr>rsp0 = 0, rsp1 = 0, rsp2 = 0, ist1 = 0, ist2 = 0, ist3 = 0, ist4 = 0, ist5 = 0, ist6 = 0, ist7 = 0\<rparr>"

definition tss_clear :: segment where
  "tss_clear =
     \<lparr>seg_reserved0 = 0, seg_rsp = replicate (unat PRIVILEGE_STACK_COUNT) 0, seg_reserved1 = 0,
      seg_ist = replicate (unat INTERRUPT_STACK_COUNT) 0, seg_reserved2 = 0, seg_reserved3 = 0,
      io_map_base = IO_MAP_DISABLED_BASE\<rparr>"

definition set_privilege_stack :: "u8 \<Rightarrow> u64 \<Rightarrow> segment \<Rightarrow> bool \<times> segment" where
  "set_privilege_stack privilege_level stack_top s =
     (if privilege_level \<ge> PRIVILEGE_STACK_COUNT then (False, s)
      else (True, s\<lparr>seg_rsp := (seg_rsp s)[unat privilege_level := stack_top]\<rparr>))"

definition set_interrupt_stack :: "interrupt_stack \<Rightarrow> u64 \<Rightarrow> segment \<Rightarrow> bool \<times> segment" where
  "set_interrupt_stack stk stack_top s =
     (let stack_index = ist_u8 stk
      in if stack_index = NO_INTERRUPT_STACK \<or> stack_index > INTERRUPT_STACK_COUNT then (False, s)
         else (True, s\<lparr>seg_ist := (seg_ist s)[unat (stack_index - 1) := stack_top]\<rparr>))"

definition tss_init :: "stack_config \<Rightarrow> segment" where
  "tss_init config =
     (let s = tss_clear
      in s\<lparr>seg_rsp := (seg_rsp s)[0 := rsp0 config, 1 := rsp1 config, 2 := rsp2 config],
           seg_ist := (seg_ist s)[0 := ist1 config, 1 := ist2 config, 2 := ist3 config, 3 := ist4 config,
                                  4 := ist5 config, 5 := ist6 config, 6 := ist7 config]\<rparr>)"

definition tss_limit :: u16 where "tss_limit = of_nat (sizeof_segment - 1)"

section \<open>Global descriptor table\<close>

definition NULL_SELECTOR :: u16 where "NULL_SELECTOR = 0x00"
definition KERNEL_CODE_SELECTOR :: u16 where "KERNEL_CODE_SELECTOR = 0x08"
definition KERNEL_DATA_SELECTOR :: u16 where "KERNEL_DATA_SELECTOR = 0x10"
definition USER_DATA_SELECTOR :: u16 where "USER_DATA_SELECTOR = 0x18"
definition USER_CODE_SELECTOR :: u16 where "USER_CODE_SELECTOR = 0x20"
definition TSS_SELECTOR :: u16 where "TSS_SELECTOR = 0x28"

definition GDT_ENTRY_COUNT :: nat where "GDT_ENTRY_COUNT = 7"

record descriptor =
  limit_low :: u16
  base_low :: u16
  base_mid :: u8
  access :: u8
  limit_high_flags :: u8
  base_high :: u8

record table_pointer =
  ptr_limit :: u16
  ptr_base :: u64

record gdt_table =
  gdt_entries :: "descriptor list"
  gdt_ptr :: table_pointer

definition ACCESS_PRESENT :: u8 where "ACCESS_PRESENT = 0x80"
definition ACCESS_RING_0 :: u8 where "ACCESS_RING_0 = 0x00"
definition ACCESS_RING_3 :: u8 where "ACCESS_RING_3 = 0x60"
definition ACCESS_DESCRIPTOR :: u8 where "ACCESS_DESCRIPTOR = 0x10"
definition ACCESS_EXECUTABLE :: u8 where "ACCESS_EXECUTABLE = 0x08"
definition ACCESS_READ_WRITE :: u8 where "ACCESS_READ_WRITE = 0x02"
definition ACCESS_TSS_AVAILABLE_64 :: u8 where "ACCESS_TSS_AVAILABLE_64 = 0x09"

definition FLAGS_GRANULARITY_4K :: u8 where "FLAGS_GRANULARITY_4K = 0x80"
definition FLAGS_32_BIT :: u8 where "FLAGS_32_BIT = 0x40"
definition FLAGS_64_BIT :: u8 where "FLAGS_64_BIT = 0x20"

definition FLAT_BASE :: u32 where "FLAT_BASE = 0"
definition FLAT_LIMIT :: u32 where "FLAT_LIMIT = 0xFFFFF"

definition TSS_ENTRY_INDEX :: nat where "TSS_ENTRY_INDEX = unat (drop_bit 3 TSS_SELECTOR)"

definition make_descriptor :: "u32 \<Rightarrow> u32 \<Rightarrow> u8 \<Rightarrow> u8 \<Rightarrow> descriptor" where
  "make_descriptor base limit acc flags =
     \<lparr>limit_low = ucast (limit AND 0xFFFF), base_low = ucast (base AND 0xFFFF),
      base_mid = ucast (drop_bit 16 base AND 0xFF), access = acc,
      limit_high_flags = ucast ((drop_bit 16 limit AND 0x0F) OR ucast (flags AND 0xF0)),
      base_high = ucast (drop_bit 24 base AND 0xFF)\<rparr>"

definition make_tss_descriptor_low :: "u64 \<Rightarrow> u32 \<Rightarrow> descriptor" where
  "make_tss_descriptor_low base limit =
     \<lparr>limit_low = ucast (limit AND 0xFFFF), base_low = ucast (base AND 0xFFFF),
      base_mid = ucast (drop_bit 16 base AND 0xFF),
      access = ACCESS_PRESENT OR ACCESS_RING_0 OR ACCESS_TSS_AVAILABLE_64,
      limit_high_flags = ucast (drop_bit 16 limit AND 0x0F),
      base_high = ucast (drop_bit 24 base AND 0xFF)\<rparr>"

definition make_tss_descriptor_high :: "u64 \<Rightarrow> descriptor" where
  "make_tss_descriptor_high base =
     (let high = (ucast (drop_bit 32 base) :: u32)
      in \<lparr>limit_low = ucast (high AND 0xFFFF), base_low = ucast (drop_bit 16 high AND 0xFFFF),
          base_mid = 0, access = 0, limit_high_flags = 0, base_high = 0\<rparr>)"

text \<open>\<open>tss_base\<close> is the address of the task state segment, \<open>entries\<close> that of the array.\<close>

definition gdt_init :: "u64 \<Rightarrow> u64 \<Rightarrow> gdt_table" where
  "gdt_init entries tss_base =
     \<lparr>gdt_entries =
        (replicate GDT_ENTRY_COUNT (make_descriptor 0 0 0 0))
          [0 := make_descriptor 0 0 0 0,
           1 := make_descriptor FLAT_BASE FLAT_LIMIT
                  (ACCESS_PRESENT OR ACCESS_RING_0 OR ACCESS_DESCRIPTOR OR ACCESS_EXECUTABLE OR ACCESS_READ_WRITE)
                  (FLAGS_GRANULARITY_4K OR FLAGS_64_BIT),
           2 := make_descriptor FLAT_BASE FLAT_LIMIT
                  (ACCESS_PRESENT OR ACCESS_RING_0 OR ACCESS_DESCRIPTOR OR ACCESS_READ_WRITE)
                  (FLAGS_GRANULARITY_4K OR FLAGS_32_BIT),
           3 := make_descriptor FLAT_BASE FLAT_LIMIT
                  (ACCESS_PRESENT OR ACCESS_RING_3 OR ACCESS_DESCRIPTOR OR ACCESS_READ_WRITE)
                  (FLAGS_GRANULARITY_4K OR FLAGS_32_BIT),
           4 := make_descriptor FLAT_BASE FLAT_LIMIT
                  (ACCESS_PRESENT OR ACCESS_RING_3 OR ACCESS_DESCRIPTOR OR ACCESS_EXECUTABLE OR ACCESS_READ_WRITE)
                  (FLAGS_GRANULARITY_4K OR FLAGS_64_BIT),
           TSS_ENTRY_INDEX := make_tss_descriptor_low tss_base (ucast tss_limit),
           TSS_ENTRY_INDEX + 1 := make_tss_descriptor_high tss_base],
      gdt_ptr = \<lparr>ptr_limit = of_nat (GDT_ENTRY_COUNT * 8 - 1), ptr_base = entries\<rparr>\<rparr>"

definition kernel_code_selector :: u16 where "kernel_code_selector = KERNEL_CODE_SELECTOR"

section \<open>Interrupt descriptor table\<close>

definition IDT_ENTRY_COUNT :: nat where "IDT_ENTRY_COUNT = 256"

definition GATE_TYPE_INTERRUPT :: u8 where "GATE_TYPE_INTERRUPT = 0x8E"
definition GATE_TYPE_TRAP :: u8 where "GATE_TYPE_TRAP = 0x8F"
definition GATE_TYPE_USER_TRAP :: u8 where "GATE_TYPE_USER_TRAP = 0xEF"

record gate_spec =
  entry_point :: u64
  gs_type_attributes :: u8
  gs_ist :: u8

type_synonym gate_table = "gate_spec list"

definition gate_table_new :: gate_table where
  "gate_table_new = replicate IDT_ENTRY_COUNT \<lparr>entry_point = 0, gs_type_attributes = 0, gs_ist = 0\<rparr>"

definition set_interrupt_gate :: "u8 \<Rightarrow> u64 \<Rightarrow> u8 \<Rightarrow> gate_table \<Rightarrow> gate_table" where
  "set_interrupt_gate vector h ist gates =
     gates[unat vector := \<lparr>entry_point = h, gs_type_attributes = GATE_TYPE_INTERRUPT, gs_ist = ist\<rparr>]"

definition set_trap_gate :: "u8 \<Rightarrow> u64 \<Rightarrow> u8 \<Rightarrow> gate_table \<Rightarrow> gate_table" where
  "set_trap_gate vector h ist gates =
     gates[unat vector := \<lparr>entry_point = h, gs_type_attributes = GATE_TYPE_TRAP, gs_ist = ist\<rparr>]"

definition set_user_trap_gate :: "u8 \<Rightarrow> u64 \<Rightarrow> u8 \<Rightarrow> gate_table \<Rightarrow> gate_table" where
  "set_user_trap_gate vector h ist gates =
     gates[unat vector := \<lparr>entry_point = h, gs_type_attributes = GATE_TYPE_USER_TRAP, gs_ist = ist\<rparr>]"

record idt_entry =
  offset_low :: u16
  ie_selector :: u16
  ie_ist :: u8
  type_attributes :: u8
  offset_mid :: u16
  offset_high :: u32
  ie_reserved :: u32

record idt_table =
  idt_entries :: "idt_entry list"
  idt_ptr :: table_pointer

definition make_entry :: "gate_spec \<Rightarrow> u16 \<Rightarrow> idt_entry" where
  "make_entry spec code_selector =
     (if entry_point spec = 0
      then \<lparr>offset_low = 0, ie_selector = 0, ie_ist = 0, type_attributes = 0, offset_mid = 0,
            offset_high = 0, ie_reserved = 0\<rparr>
      else
        let address = entry_point spec
        in \<lparr>offset_low = ucast (address AND 0xFFFF), ie_selector = code_selector,
            ie_ist = gs_ist spec AND 0x07, type_attributes = gs_type_attributes spec,
            offset_mid = ucast (drop_bit 16 address AND 0xFFFF),
            offset_high = ucast (drop_bit 32 address AND 0xFFFFFFFF), ie_reserved = 0\<rparr>)"

definition idt_init :: "u64 \<Rightarrow> gate_table \<Rightarrow> u16 \<Rightarrow> idt_table" where
  "idt_init entries gates code_selector =
     \<lparr>idt_entries = map (\<lambda>i. make_entry (gates ! i) code_selector) [0..<IDT_ENTRY_COUNT],
      idt_ptr = \<lparr>ptr_limit = of_nat (IDT_ENTRY_COUNT * 16 - 1), ptr_base = entries\<rparr>\<rparr>"

lemma tss_init_stacks:
  "seg_rsp (tss_init c) = [rsp0 c, rsp1 c, rsp2 c]"
  "seg_ist (tss_init c) = [ist1 c, ist2 c, ist3 c, ist4 c, ist5 c, ist6 c, ist7 c]"
proof -
  have "seg_rsp tss_clear = [0, 0, 0]" "seg_ist tss_clear = [0, 0, 0, 0, 0, 0, 0]" by code_simp+
  then show "seg_rsp (tss_init c) = [rsp0 c, rsp1 c, rsp2 c]"
    "seg_ist (tss_init c) = [ist1 c, ist2 c, ist3 c, ist4 c, ist5 c, ist6 c, ist7 c]"
    by (simp_all add: tss_init_def Let_def eval_nat_numeral)
qed

section \<open>How the processor reads the tables\<close>

definition segment_base :: "descriptor \<Rightarrow> u32" where
  "segment_base d =
     ucast (base_low d) OR push_bit 16 (ucast (base_mid d)) OR push_bit 24 (ucast (base_high d))"

definition segment_limit :: "descriptor \<Rightarrow> u32" where
  "segment_limit d = ucast (limit_low d) OR push_bit 16 (ucast (limit_high_flags d AND 0x0F))"

definition system_base :: "descriptor \<Rightarrow> descriptor \<Rightarrow> u64" where
  "system_base low high =
     ucast (segment_base low) OR push_bit 32 (ucast (limit_low high)) OR push_bit 48 (ucast (base_low high))"

definition privilege :: "u8 \<Rightarrow> u8" where "privilege acc = drop_bit 5 acc AND 3"

definition is_present :: "u8 \<Rightarrow> bool" where "is_present acc \<longleftrightarrow> bit acc 7"

definition code_segment64 :: "descriptor \<Rightarrow> bool" where
  "code_segment64 d \<longleftrightarrow>
     is_present (access d) \<and> bit (access d) 4 \<and> bit (access d) 3 \<and>
     bit (limit_high_flags d) 5 \<and> \<not> bit (limit_high_flags d) 6"

definition gate_offset :: "idt_entry \<Rightarrow> u64" where
  "gate_offset e =
     ucast (offset_low e) OR push_bit 16 (ucast (offset_mid e)) OR push_bit 32 (ucast (offset_high e))"

definition selector_index :: "u16 \<Rightarrow> nat" where "selector_index s = unat (drop_bit 3 s)"

text \<open>The stack a gate switches to: 0 keeps the current one, \<open>i\<close> takes slot \<open>i\<close> of the segment.\<close>

definition gate_stack :: "segment \<Rightarrow> idt_entry \<Rightarrow> u64 option" where
  "gate_stack s e = (if ie_ist e = 0 then None else Some (seg_ist s ! (unat (ie_ist e) - 1)))"

section \<open>Encodings are read back\<close>

lemma mask_low:
  fixes x :: "'a::len word"
  shows "x AND 0xFFFFFFFF = take_bit 32 x" "x AND 0xFFFF = take_bit 16 x" "x AND 0xFF = take_bit 8 x"
    "x AND 0xF = take_bit 4 x" "x AND 7 = take_bit 3 x" "x AND 3 = take_bit 2 x"
  by (simp_all add: take_bit_eq_mask mask_eq_exp_minus_1)

lemma bit_shifted:
  fixes x :: "'a::len word"
  shows "k \<le> n \<Longrightarrow> bit x (k + (n - k)) \<longleftrightarrow> bit x n"
  by simp

lemma bit_split_at: "k \<le> n \<or> n < (k :: nat)" by linarith

lemmas word_split = mask_low bit_take_bit_iff bit_or_iff bit_push_bit_iff bit_drop_bit_eq bit_unsigned_iff
  comp_def

lemma make_descriptor_base: "segment_base (make_descriptor base limit acc flags) = base"
proof (rule bit_word_eqI)
  fix n :: nat
  assume "n < LENGTH(32)"
  then show "bit (segment_base (make_descriptor base limit acc flags)) n = bit base n"
    using bit_split_at [of 16 n] bit_split_at [of 24 n]
    by (auto simp: segment_base_def make_descriptor_def word_split)
qed

lemma make_descriptor_limit:
  assumes "limit \<le> 0xFFFFF"
  shows "segment_limit (make_descriptor base limit acc flags) = limit"
proof (rule bit_word_eqI)
  fix n :: nat
  assume "n < LENGTH(32)"
  have "take_bit 20 limit = limit"
    using assms by (simp add: word_unat_eq_iff unsigned_take_bit_eq take_bit_eq_mod unat_mod_distrib word_le_nat_alt)
  then have "bit limit n \<Longrightarrow> n < 20" by (metis bit_take_bit_iff)
  moreover have "\<not> bit (0xF0 :: u8) j" if "j < 4" for j
  proof -
    have "j = 0 \<or> j = 1 \<or> j = 2 \<or> j = 3" using that by auto
    then show ?thesis by auto
  qed
  ultimately show "bit (segment_limit (make_descriptor base limit acc flags)) n = bit limit n"
    using bit_split_at [of 16 n] \<open>n < LENGTH(32)\<close>
    by (auto simp: segment_limit_def make_descriptor_def word_split bit_and_iff)
qed

lemma make_tss_descriptor_base:
  "system_base (make_tss_descriptor_low base limit) (make_tss_descriptor_high base) = base"
proof (rule bit_word_eqI)
  fix n :: nat
  assume "n < LENGTH(64)"
  then consider "n < 16" | "16 \<le> n" "n < 24" | "24 \<le> n" "n < 32" | "32 \<le> n" "n < 48" | "48 \<le> n" "n < 64"
    by fastforce
  then show "bit (system_base (make_tss_descriptor_low base limit) (make_tss_descriptor_high base)) n = bit base n"
    by cases (simp_all add: system_base_def segment_base_def make_tss_descriptor_low_def
        make_tss_descriptor_high_def word_split Let_def less_diff_conv2)
qed

lemma make_tss_descriptor_limit:
  "segment_limit (make_tss_descriptor_low base (ucast tss_limit)) = 103"
  by (simp add: segment_limit_def make_tss_descriptor_low_def tss_limit_def sizeof_segment_def)

lemma make_entry_offset: "gate_offset (make_entry spec sel) = entry_point spec"
proof (cases "entry_point spec = 0")
  case True
  then show ?thesis by (simp add: gate_offset_def make_entry_def)
next
  case False
  show ?thesis
  proof (rule bit_word_eqI)
    fix n :: nat
    assume "n < LENGTH(64)"
    then show "bit (gate_offset (make_entry spec sel)) n = bit (entry_point spec) n"
      using bit_split_at [of 16 n] bit_split_at [of 32 n] False
      by (auto simp: gate_offset_def make_entry_def word_split Let_def)
  qed
qed

end
