(* ===== verification/Exceptions.thy ===== *)
theory Exceptions
  imports Kpanic Cpu_Tables
begin

text \<open>
  \<^verbatim>\<open>arch/x86_64/exceptions/exceptions.cpp\<close> and \<^verbatim>\<open>trap/frame.hpp\<close>: the exception table, the gates
  it describes and the dispatcher with the default handlers, which report the exception and
  halt. The registers the handlers read from the processor, the entry points of the
  assembly stubs and the source locations are arguments.
\<close>

section \<open>Trap frame and exception table\<close>

definition CPU_EXCEPTION_COUNT :: u8 where "CPU_EXCEPTION_COUNT = 32"

record trap_frame =
  tf_r15 :: u64
  tf_r14 :: u64
  tf_r13 :: u64
  tf_r12 :: u64
  tf_r11 :: u64
  tf_r10 :: u64
  tf_r9 :: u64
  tf_r8 :: u64
  tf_rbp :: u64
  tf_rdi :: u64
  tf_rsi :: u64
  tf_rdx :: u64
  tf_rcx :: u64
  tf_rbx :: u64
  tf_rax :: u64
  tf_vector :: u64
  tf_error_code :: u64
  tf_rip :: u64
  tf_cs :: u64
  tf_rflags :: u64
  tf_rsp :: u64
  tf_ss :: u64

definition EXCEPTION_NAMES :: "string list" where
  "EXCEPTION_NAMES =
     [''#DE divide error'', ''#DB debug'',
      ''NMI interrupt'', ''#BP breakpoint'',
      ''#OF overflow'', ''#BR bound range exceeded'',
      ''#UD invalid opcode'', ''#NM device not available'',
      ''#DF double fault'', ''coprocessor segment overrun'',
      ''#TS invalid TSS'', ''#NP segment not present'',
      ''#SS stack-segment fault'', ''#GP general protection fault'',
      ''#PF page fault'', ''reserved'',
      ''#MF x87 floating-point exception'', ''#AC alignment check'',
      ''#MC machine check'', ''#XM SIMD floating-point exception'',
      ''#VE virtualization exception'', ''#CP control protection exception'',
      ''reserved'', ''reserved'',
      ''reserved'', ''reserved'',
      ''reserved'', ''reserved'',
      ''#HV hypervisor injection exception'', ''#VC VMM communication exception'',
      ''#SX security exception'', ''reserved'']"

definition exception_name :: "u8 \<Rightarrow> string" where
  "exception_name vector =
     (if vector < CPU_EXCEPTION_COUNT then EXCEPTION_NAMES ! unat vector else ''unknown exception'')"

datatype exception_gate = INTERRUPT_GATE | TRAP_GATE

datatype exception_type = FAULT | DEBUG | RESERVED_EXC | TRAP | NMI | DOUBLE_FAULT | MACHINE_CHECK

text \<open>\<^verbatim>\<open>DOOM_OS_CPU_EXCEPTION_VECTORS\<close>.\<close>

definition exception_vectors :: "(u8 \<times> exception_type) list" where
  "exception_vectors =
     [(0, FAULT), (1, DEBUG), (2, NMI), (3, TRAP), (4, TRAP), (5, FAULT),
      (6, FAULT), (7, FAULT), (8, DOUBLE_FAULT), (9, FAULT), (10, FAULT), (11, FAULT),
      (12, FAULT), (13, FAULT), (14, FAULT), (15, RESERVED_EXC), (16, FAULT), (17, FAULT),
      (18, MACHINE_CHECK), (19, FAULT), (20, FAULT), (21, FAULT), (22, RESERVED_EXC), (23, RESERVED_EXC),
      (24, RESERVED_EXC), (25, RESERVED_EXC), (26, RESERVED_EXC), (27, RESERVED_EXC), (28, FAULT), (29, FAULT),
      (30, FAULT), (31, RESERVED_EXC)]"

fun type_interrupt_stack :: "exception_type \<Rightarrow> interrupt_stack" where
  "type_interrupt_stack NMI = IST_NMI"
| "type_interrupt_stack DOUBLE_FAULT = IST_DOUBLE_FAULT"
| "type_interrupt_stack MACHINE_CHECK = IST_MACHINE_CHECK"
| "type_interrupt_stack _ = IST_NONE"

fun type_gate :: "exception_type \<Rightarrow> exception_gate" where
  "type_gate TRAP = TRAP_GATE"
| "type_gate _ = INTERRUPT_GATE"

fun fatal_reason :: "exception_type \<Rightarrow> string option" where
  "fatal_reason NMI = Some ''non-maskable interrupt''"
| "fatal_reason DOUBLE_FAULT = Some ''double fault''"
| "fatal_reason MACHINE_CHECK = Some ''machine check''"
| "fatal_reason _ = None"

definition exception_has_error_code :: "u8 \<Rightarrow> bool" where
  "exception_has_error_code vector \<longleftrightarrow> vector \<in> {8, 10, 11, 12, 13, 14, 17, 21, 29, 30}"

text \<open>The exception type of a vector, \<^verbatim>\<open>exception_descriptor_for_vector\<close>.\<close>

definition exception_descriptor :: "u8 \<Rightarrow> exception_type option" where
  "exception_descriptor vector = map_of exception_vectors vector"

section \<open>Reports\<close>

record page_fault_cause =
  pfc_protection_violation :: bool
  pfc_write :: bool
  pfc_user :: bool
  pfc_reserved_bit :: bool
  pfc_instruction_fetch :: bool
  pfc_protection_key :: bool
  pfc_shadow_stack :: bool

definition decode_page_fault :: "u64 \<Rightarrow> page_fault_cause" where
  "decode_page_fault error_code =
     (let b = (\<lambda>index. error_code AND push_bit index 1 \<noteq> 0)
      in \<lparr>pfc_protection_violation = b 0, pfc_write = b 1, pfc_user = b 2, pfc_reserved_bit = b 3,
          pfc_instruction_fetch = b 4, pfc_protection_key = b 5, pfc_shadow_stack = b 6\<rparr>)"

text \<open>The fields of a cause in the order reflection lists them.\<close>

definition cause_arg :: "page_fault_cause \<Rightarrow> fmt_arg" where
  "cause_arg c =
     Arg_aggregate
       [(''protection_violation'', Arg_bool (pfc_protection_violation c)), (''write'', Arg_bool (pfc_write c)),
        (''user'', Arg_bool (pfc_user c)), (''reserved_bit'', Arg_bool (pfc_reserved_bit c)),
        (''instruction_fetch'', Arg_bool (pfc_instruction_fetch c)), (''protection_key'', Arg_bool (pfc_protection_key c)),
        (''shadow_stack'', Arg_bool (pfc_shadow_stack c))]"

definition capture_ambient_registers :: "panic_register_frame \<Rightarrow> panic_register_frame \<Rightarrow> panic_register_frame" where
  "capture_ambient_registers ambient out =
     out\<lparr>pf_cs := pf_cs ambient, pf_ds := pf_ds ambient, pf_es := pf_es ambient, pf_fs := pf_fs ambient,
         pf_gs := pf_gs ambient, pf_ss := pf_ss ambient, pf_cr0 := pf_cr0 ambient, pf_cr2 := pf_cr2 ambient,
         pf_cr3 := pf_cr3 ambient, pf_cr4 := pf_cr4 ambient\<rparr>"

definition panic_frame_from :: "panic_register_frame \<Rightarrow> trap_frame \<Rightarrow> panic_register_frame" where
  "panic_frame_from ambient frame =
     (capture_ambient_registers ambient zero_panic_frame)
       \<lparr>pf_rax := tf_rax frame, pf_rbx := tf_rbx frame, pf_rcx := tf_rcx frame, pf_rdx := tf_rdx frame,
        pf_rsi := tf_rsi frame, pf_rdi := tf_rdi frame, pf_rbp := tf_rbp frame, pf_r8 := tf_r8 frame,
        pf_r9 := tf_r9 frame, pf_r10 := tf_r10 frame, pf_r11 := tf_r11 frame, pf_r12 := tf_r12 frame,
        pf_r13 := tf_r13 frame, pf_r14 := tf_r14 frame, pf_r15 := tf_r15 frame, pf_rip := tf_rip frame,
        pf_rsp := tf_rsp frame, pf_rflags := tf_rflags frame, pf_cs := tf_cs frame, pf_ss := tf_ss frame\<rparr>"

definition PAGE_FAULT_VECTOR :: u64 where "PAGE_FAULT_VECTOR = 14"

definition panic_unhandled_exception ::
    "panic_register_frame \<Rightarrow> location \<Rightarrow> location \<Rightarrow> trap_frame \<Rightarrow> string option" where
  "panic_unhandled_exception ambient loc_fault loc frame =
     (let vector = tf_vector frame;
          name = (if vector < ucast CPU_EXCEPTION_COUNT then EXCEPTION_NAMES ! unat vector else ''unknown exception'');
          dump = panic_frame_from ambient frame
      in if vector = PAGE_FAULT_VECTOR
         then kpanic_fmt ''[exception] {} address={:#018X} error={:#x} cause={}''
                [text_arg name, Arg_unsigned (pf_cr2 dump), Arg_unsigned (tf_error_code frame),
                 cause_arg (decode_page_fault (tf_error_code frame))] (Some dump) loc_fault
         else kpanic_fmt ''[exception] {} vector={} error={:#018X}''
                [text_arg name, Arg_unsigned vector, Arg_unsigned (tf_error_code frame)] (Some dump) loc)"

section \<open>Dispatch\<close>

text \<open>
  What the dispatcher finds outside its argument: the registers of the processor, the
  registers a \<^verbatim>\<open>KPANIC\<close> captures, the stacks of the current core and the source location of
  every panic.
\<close>

record exception_env =
  env_ambient :: panic_register_frame
  env_here :: panic_register_frame
  env_stacks :: stack_set
  loc_null :: location
  loc_malformed :: location
  loc_missing :: location
  loc_mismatch :: location
  loc_page_fault :: location
  loc_unhandled :: location
  loc_fatal :: location

definition unhandled :: "exception_env \<Rightarrow> trap_frame \<Rightarrow> string option" where
  "unhandled env frame = panic_unhandled_exception (env_ambient env) (loc_page_fault env) (loc_unhandled env) frame"

text \<open>A check either panics, with the report as its value, or lets the caller go on.\<close>

definition validate_exception_frame ::
    "exception_env \<Rightarrow> trap_frame \<Rightarrow> string option \<Rightarrow> string option" where
  "validate_exception_frame env frame continue =
     (if tf_vector frame \<ge> ucast CPU_EXCEPTION_COUNT then unhandled env frame
      else
        let vector = (ucast (tf_vector frame) :: u8)
        in if \<not> exception_has_error_code vector \<and> tf_error_code frame \<noteq> 0
           then kpanic_fmt ''[exception] malformed frame vector={} unexpected error={:#018X}''
                  [Arg_unsigned (ucast vector), Arg_unsigned (tf_error_code frame)]
                  (Some (env_here env)) (loc_malformed env)
           else continue)"

definition validate_handler_vector ::
    "exception_env \<Rightarrow> trap_frame \<Rightarrow> u8 \<Rightarrow> string option \<Rightarrow> string option" where
  "validate_handler_vector env frame expected continue =
     (if tf_vector frame \<noteq> ucast expected
      then kpanic_fmt ''[exception] handler/vector mismatch expected={} actual={}''
             [Arg_unsigned (ucast expected), Arg_unsigned (tf_vector frame)]
             (Some (env_here env)) (loc_mismatch env)
      else continue)"

fun stack_for_exception_type :: "interrupt_stack \<Rightarrow> stack_set \<Rightarrow> stack" where
  "stack_for_exception_type IST_NMI stacks = nmi_m stacks"
| "stack_for_exception_type IST_DOUBLE_FAULT stacks = double_fault_m stacks"
| "stack_for_exception_type IST_MACHINE_CHECK stacks = machine_check_m stacks"
| "stack_for_exception_type _ stacks = kernel_m stacks"

text \<open>\<^verbatim>\<open>handle<Vector>\<close> of the exception types: the fatal ones name their stack.\<close>

definition handle_exception :: "exception_type \<Rightarrow> u8 \<Rightarrow> exception_env \<Rightarrow> trap_frame \<Rightarrow> string option" where
  "handle_exception ty vector env frame =
     validate_handler_vector env frame vector
       (case fatal_reason ty of
          None \<Rightarrow> unhandled env frame
        | Some reason \<Rightarrow>
            let fatal_stack = stack_for_exception_type (type_interrupt_stack ty) (env_stacks env);
                fatal_dump = panic_frame_from (env_ambient env) frame
            in kpanic_fmt
                 ''[exception] fatal {}: {} vector={} error={:#018X} stack=[{:#018X}, {:#018X}) size={}''
                 [text_arg (exception_name (ucast (tf_vector frame))), text_arg reason,
                  Arg_unsigned (tf_vector frame), Arg_unsigned (tf_error_code frame),
                  Arg_unsigned (bottom fatal_stack), Arg_unsigned (top_address fatal_stack),
                  Arg_unsigned (stack_size fatal_stack)]
                 (Some fatal_dump) (loc_fatal env))"

text \<open>
  The handler table: entry \<open>i\<close> is the handler generated for the \<open>i\<close>-th row; \<open>None\<close> would be a
  null pointer.
\<close>

definition EXCEPTION_HANDLERS :: "(exception_env \<Rightarrow> trap_frame \<Rightarrow> string option) option list" where
  "EXCEPTION_HANDLERS = map (\<lambda>(vector, ty). Some (handle_exception ty vector)) exception_vectors"

definition x86_64_exception_dispatch :: "exception_env \<Rightarrow> trap_frame option \<Rightarrow> string option" where
  "x86_64_exception_dispatch env frame =
     (case frame of
        None \<Rightarrow> kpanic (Some ''exception dispatch received null frame'') (Some (env_here env)) (loc_null env)
      | Some f \<Rightarrow>
          validate_exception_frame env f
            (let vector = (ucast (tf_vector f) :: u8)
             in case EXCEPTION_HANDLERS ! unat vector of
                  None \<Rightarrow>
                    kpanic_fmt ''[exception] missing handler vector={}'' [Arg_unsigned (ucast vector)]
                      (Some (env_here env)) (loc_missing env)
                | Some handler \<Rightarrow> handler env f))"

section \<open>Gates\<close>

definition ist_for_vector :: "u8 \<Rightarrow> u8" where
  "ist_for_vector vector =
     (case exception_descriptor vector of None \<Rightarrow> 0 | Some ty \<Rightarrow> ist_u8 (type_interrupt_stack ty))"

definition describe_exception_gate :: "u64 list \<Rightarrow> nat \<Rightarrow> gate_table \<Rightarrow> gate_table" where
  "describe_exception_gate stubs v gates =
     (let vector = (of_nat v :: u8);
          ist = ist_for_vector vector;
          h = stubs ! v
      in case exception_descriptor vector of
           None \<Rightarrow> gates
         | Some ty \<Rightarrow>
             (case type_gate ty of
                TRAP_GATE \<Rightarrow> set_trap_gate vector h ist gates
              | INTERRUPT_GATE \<Rightarrow> set_interrupt_gate vector h ist gates))"

definition describe_exception_gates :: "u64 list \<Rightarrow> gate_table \<Rightarrow> gate_table" where
  "describe_exception_gates stubs gates =
     fold (describe_exception_gate stubs) [0..<unat CPU_EXCEPTION_COUNT] gates"

end
