(* ===== verification/Exceptions_Correct.thy ===== *)
theory Exceptions_Correct
  imports Exceptions
begin

text \<open>
  What the exception dispatcher prints for every trap frame, and what the gates it describes
  look like in the table.
\<close>

section \<open>The table\<close>

lemma exception_vectors_index: "i < 32 \<Longrightarrow> fst (exception_vectors ! i) = of_nat i"
proof -
  have "list_all (\<lambda>i. fst (exception_vectors ! i) = of_nat i) [0..<32]" by code_simp
  then show "i < 32 \<Longrightarrow> fst (exception_vectors ! i) = of_nat i" by (simp add: list_all_iff)
qed

lemma length_exception_vectors [simp]: "length exception_vectors = 32"
  by (simp add: exception_vectors_def)

lemma exception_names_shown: "i < 32 \<Longrightarrow> shown (EXCEPTION_NAMES ! i) = EXCEPTION_NAMES ! i"
proof -
  have "list_all (\<lambda>i. shown (EXCEPTION_NAMES ! i) = EXCEPTION_NAMES ! i) [0..<32]" by code_simp
  then show "i < 32 \<Longrightarrow> shown (EXCEPTION_NAMES ! i) = EXCEPTION_NAMES ! i" by (simp add: list_all_iff)
qed

definition type_at :: "nat \<Rightarrow> exception_type" where "type_at i = snd (exception_vectors ! i)"

lemma type_at_fatal:
  assumes "i < 32"
  shows "fatal_reason (type_at i) =
    (if i = 2 then Some ''non-maskable interrupt'' else if i = 8 then Some ''double fault''
     else if i = 18 then Some ''machine check'' else None)"
proof -
  have "list_all (\<lambda>i. fatal_reason (type_at i) =
    (if i = 2 then Some ''non-maskable interrupt'' else if i = 8 then Some ''double fault''
     else if i = 18 then Some ''machine check'' else None)) [0..<32]" by code_simp
  then show ?thesis using assms by (simp add: list_all_iff)
qed

lemma handler_at:
  assumes "i < 32"
  shows "EXCEPTION_HANDLERS ! i = Some (handle_exception (type_at i) (of_nat i))"
  using assms exception_vectors_index [OF assms]
  by (cases "exception_vectors ! i") (simp add: EXCEPTION_HANDLERS_def type_at_def)

section \<open>The text of a report\<close>

definition bool_text :: "bool \<Rightarrow> string" where "bool_text b = (if b then ''true'' else ''false'')"

definition cause_text :: "u64 \<Rightarrow> string" where
  "cause_text e =
     ''{protection_violation='' @ bool_text (bit e 0)
       @ '', write='' @ bool_text (bit e 1)
       @ '', user='' @ bool_text (bit e 2)
       @ '', reserved_bit='' @ bool_text (bit e 3)
       @ '', instruction_fetch='' @ bool_text (bit e 4)
       @ '', protection_key='' @ bool_text (bit e 5)
       @ '', shadow_stack='' @ bool_text (bit e 6) @ ''}''"

definition name_text :: "trap_frame \<Rightarrow> string" where
  "name_text f = (if tf_vector f < 32 then EXCEPTION_NAMES ! unat (tf_vector f) else ''unknown exception'')"

definition fatal_stack_of :: "exception_env \<Rightarrow> u64 \<Rightarrow> (string \<times> stack) option" where
  "fatal_stack_of env v =
     (if v = 2 then Some (''non-maskable interrupt'', nmi_m (env_stacks env))
      else if v = 8 then Some (''double fault'', double_fault_m (env_stacks env))
      else if v = 18 then Some (''machine check'', machine_check_m (env_stacks env))
      else None)"

definition exception_text :: "exception_env \<Rightarrow> trap_frame \<Rightarrow> string" where
  "exception_text env f =
     (case fatal_stack_of env (tf_vector f) of
        Some (reason, stk) \<Rightarrow>
          ''[exception] fatal '' @ name_text f @ '': '' @ reason @ '' vector='' @ format_u64_decimal (tf_vector f)
            @ '' error='' @ hex18_text (tf_error_code f) @ '' stack=['' @ hex18_text (bottom stk) @ '', ''
            @ hex18_text (top_address stk) @ '') size='' @ format_u64_decimal (stack_size stk)
      | None \<Rightarrow>
          if tf_vector f = 14
          then ''[exception] '' @ name_text f @ '' address='' @ hex18_text (pf_cr2 (env_ambient env))
                 @ '' error=0x'' @ format_u64_hex (tf_error_code f) False
                 @ '' cause='' @ cause_text (tf_error_code f)
          else ''[exception] '' @ name_text f @ '' vector='' @ format_u64_decimal (tf_vector f)
                 @ '' error='' @ hex18_text (tf_error_code f))"

definition exception_location :: "exception_env \<Rightarrow> trap_frame \<Rightarrow> location" where
  "exception_location env f =
     (if fatal_stack_of env (tf_vector f) \<noteq> None then loc_fatal env
      else if tf_vector f = 14 then loc_page_fault env else loc_unhandled env)"

definition report_text :: "string \<Rightarrow> panic_register_frame \<Rightarrow> location \<Rightarrow> string" where
  "report_text t r loc = PANIC_PREFIX @ '' '' @ t @ [CHR 0x0A] @ panic_tail r loc"

lemma bit_test: "(e AND push_bit n 1 \<noteq> 0) \<longleftrightarrow> bit (e :: u64) n"
  by (simp add: bit_iff_and_push_bit_not_eq_0)

definition hex_alt_spec :: format_spec where
  "hex_alt_spec = default_format_spec\<lparr>presentation_value := P_HEX_LOWER, f_alternate := True\<rparr>"

lemma page_fault_tokens:
  "tokens_from ''[exception] {} address={:#018X} error={:#x} cause={}'' 0 =
     Some (map Lit ''[exception] '' @ Field default_format_spec # map Lit '' address='' @ Field hex18_spec
       # map Lit '' error='' @ Field hex_alt_spec # map Lit '' cause='' @ [Field default_format_spec])"
  by code_simp

lemma unhandled_tokens:
  "tokens_from ''[exception] {} vector={} error={:#018X}'' 0 =
     Some (map Lit ''[exception] '' @ Field default_format_spec # map Lit '' vector='' @ Field default_format_spec
       # map Lit '' error='' @ [Field hex18_spec])"
  by code_simp

lemma fatal_tokens:
  "tokens_from ''[exception] fatal {}: {} vector={} error={:#018X} stack=[{:#018X}, {:#018X}) size={}'' 0 =
     Some (map Lit ''[exception] fatal '' @ Field default_format_spec # map Lit '': '' @ Field default_format_spec
       # map Lit '' vector='' @ Field default_format_spec # map Lit '' error='' @ Field hex18_spec
       # map Lit '' stack=['' @ Field hex18_spec # map Lit '', '' @ Field hex18_spec
       # map Lit '') size='' @ [Field default_format_spec])"
  by code_simp

lemma field_count_append [simp]: "field_count (as @ bs) = field_count as + field_count bs"
  by (induction as rule: field_count.induct) auto

lemma field_count_lits [simp]: "field_count (map Lit t) = 0"
  by (induction t) auto

lemma emit_cause: "emit_value default_format_spec (cause_arg (decode_page_fault e)) = Some (cause_text e)"
proof -
  have b: "emit_bool default_format_spec v = Some (bool_text v)" for v
    using emit_default(4) [of v] by (simp add: bool_text_def)
  have d: "decode_page_fault e =
      \<lparr>pfc_protection_violation = bit e 0, pfc_write = bit e 1, pfc_user = bit e 2, pfc_reserved_bit = bit e 3,
       pfc_instruction_fetch = bit e 4, pfc_protection_key = bit e 5, pfc_shadow_stack = bit e 6\<rparr>"
    unfolding decode_page_fault_def Let_def bit_test ..
  show ?thesis
    unfolding d cause_text_def cause_arg_def emit_value.simps emit_fields.simps page_fault_cause.simps b
    by (simp add: default_format_spec_def)
qed

lemma emit_hex_alt: "emit_unsigned hex_alt_spec v = Some (''0x'' @ format_u64_hex v False)"
  by (simp add: emit_unsigned_def emit_hex_integer_def hex_alt_spec_def default_format_spec_def
      emit_padded_def emit_repeated_def)

lemmas report_simps = render_lits report_text_def emit_hex_alt emit_cause


lemma kpanic_report:
  "kprint_ct fmt args = Some t \<Longrightarrow> kpanic_fmt fmt args (Some r) loc = Some (report_text t r loc)"
  by (simp add: kpanic_fmt_text report_text_def)

lemma name_shown: "shown (name_text f) = name_text f"
proof (cases "tf_vector f < 32")
  case True
  then have "unat (tf_vector f) < 32" by (simp add: word_less_nat_alt)
  then show ?thesis using True exception_names_shown by (simp add: name_text_def)
next
  case False
  then show ?thesis by (simp add: name_text_def shown_def c_string_length_def)
qed

lemma panic_frame_cr2 [simp]: "pf_cr2 (panic_frame_from ambient f) = pf_cr2 ambient"
  by (simp add: panic_frame_from_def capture_ambient_registers_def)

lemma unhandled_report:
  assumes "fatal_stack_of env (tf_vector f) = None"
  shows "unhandled env f =
    Some (report_text (exception_text env f) (panic_frame_from (env_ambient env) f) (exception_location env f))"
proof -
  have name: "(if tf_vector f < ucast CPU_EXCEPTION_COUNT then EXCEPTION_NAMES ! unat (tf_vector f)
      else ''unknown exception'') = name_text f"
    by (simp add: name_text_def CPU_EXCEPTION_COUNT_def)
  show ?thesis
  proof (cases "tf_vector f = 14")
    case True
    have "kprint_ct ''[exception] {} address={:#018X} error={:#x} cause={}''
        [text_arg (name_text f), Arg_unsigned (pf_cr2 (env_ambient env)), Arg_unsigned (tf_error_code f),
         cause_arg (decode_page_fault (tf_error_code f))] = Some (exception_text env f)"
      using True assms
      by (simp add: kprint_text [OF page_fault_tokens] render_lits emit_hex_alt emit_cause name_shown
          exception_text_def)
    then show ?thesis
      unfolding unhandled_def panic_unhandled_exception_def Let_def name
      using True assms by (simp add: PAGE_FAULT_VECTOR_def kpanic_report exception_location_def)
  next
    case False
    have "kprint_ct ''[exception] {} vector={} error={:#018X}''
        [text_arg (name_text f), Arg_unsigned (tf_vector f), Arg_unsigned (tf_error_code f)]
        = Some (exception_text env f)"
      using False assms
      by (simp add: kprint_text [OF unhandled_tokens] render_lits name_shown exception_text_def)
    then show ?thesis
      unfolding unhandled_def panic_unhandled_exception_def Let_def name
      using False assms by (simp add: PAGE_FAULT_VECTOR_def kpanic_report exception_location_def)
  qed
qed

lemma small_vector:
  assumes "(v :: u64) < 32"
  shows "unat (ucast v :: u8) = unat v" "ucast (ucast v :: u8) = v" "of_nat (unat v) = (ucast v :: u8)"
    "unat v < 32"
proof -
  show lt: "unat v < 32" using assms by (simp add: word_less_nat_alt)
  show u: "unat (ucast v :: u8) = unat v" using lt by (simp add: unsigned_ucast_eq take_bit_eq_mod unat_mod_distrib)
  show "ucast (ucast v :: u8) = v"
    using lt by (simp add: word_unat_eq_iff u unsigned_ucast_eq take_bit_eq_mod unat_mod_distrib)
  show "of_nat (unat v) = (ucast v :: u8)"
    by (metis u ucast_id of_nat_unat)
qed

lemma handle_report:
  assumes "tf_vector f < 32"
  shows "handle_exception (type_at (unat (tf_vector f))) (ucast (tf_vector f)) env f =
    Some (report_text (exception_text env f) (panic_frame_from (env_ambient env) f) (exception_location env f))"
proof (cases "fatal_stack_of env (tf_vector f)")
  case None
  then have "fatal_reason (type_at (unat (tf_vector f))) = None"
    using type_at_fatal [OF small_vector(4) [OF assms]]
    by (auto simp: fatal_stack_of_def word_unat_eq_iff split: if_splits)
  then show ?thesis
    using unhandled_report [OF None] small_vector(2) [OF assms]
    by (simp add: handle_exception_def validate_handler_vector_def)
next
  case (Some rs)
  obtain reason stk where rs: "rs = (reason, stk)" by force
  have v: "tf_vector f = 2 \<or> tf_vector f = 8 \<or> tf_vector f = 18"
    using Some by (auto simp: fatal_stack_of_def split: if_splits)
  have reason: "fatal_reason (type_at (unat (tf_vector f))) = Some reason"
      "stack_for_exception_type (type_interrupt_stack (type_at (unat (tf_vector f)))) (env_stacks env) = stk"
      "shown reason = reason"
    using v Some rs
    by (auto simp: fatal_stack_of_def type_at_def exception_vectors_def shown_def c_string_length_def)
  have name: "exception_name (ucast (tf_vector f)) = name_text f"
    using v by (auto simp: exception_name_def name_text_def CPU_EXCEPTION_COUNT_def)
  have "kprint_ct ''[exception] fatal {}: {} vector={} error={:#018X} stack=[{:#018X}, {:#018X}) size={}''
      [text_arg (name_text f), text_arg reason, Arg_unsigned (tf_vector f), Arg_unsigned (tf_error_code f),
       Arg_unsigned (bottom stk), Arg_unsigned (top_address stk), Arg_unsigned (stack_size stk)]
      = Some (exception_text env f)"
    using Some rs reason(3)
    by (simp add: kprint_text [OF fatal_tokens] render_lits name_shown exception_text_def)
  then show ?thesis
    using small_vector(2) [OF assms] Some
    by (simp add: handle_exception_def validate_handler_vector_def reason name Let_def kpanic_report
        exception_location_def)
qed

section \<open>Every exception is reported\<close>

lemma malformed_tokens:
  "tokens_from ''[exception] malformed frame vector={} unexpected error={:#018X}'' 0 =
     Some (map Lit ''[exception] malformed frame vector='' @ Field default_format_spec
       # map Lit '' unexpected error='' @ [Field hex18_spec])"
  by code_simp


section \<open>Gates\<close>

lemma exception_descriptor_at: "i < 32 \<Longrightarrow> exception_descriptor (of_nat i) = Some (type_at i)"
proof -
  have "list_all (\<lambda>i. exception_descriptor (of_nat i) = Some (type_at i)) [0..<32]" by code_simp
  then show "i < 32 \<Longrightarrow> exception_descriptor (of_nat i) = Some (type_at i)" by (simp add: list_all_iff)
qed

definition exception_gate_spec :: "u64 list \<Rightarrow> nat \<Rightarrow> gate_spec" where
  "exception_gate_spec stubs i =
     \<lparr>entry_point = stubs ! i,
      gs_type_attributes = (if type_gate (type_at i) = TRAP_GATE then GATE_TYPE_TRAP else GATE_TYPE_INTERRUPT),
      gs_ist = ist_u8 (type_interrupt_stack (type_at i))\<rparr>"

lemma describe_exception_gate_at:
  assumes "i < 32"
  shows "describe_exception_gate stubs i gates = gates[i := exception_gate_spec stubs i]"
proof -
  have "unat (of_nat i :: u8) = i" using assms by (simp add: unat_of_nat)
  then show ?thesis
    using assms
    by (simp add: describe_exception_gate_def exception_descriptor_at ist_for_vector_def exception_gate_spec_def
        set_trap_gate_def set_interrupt_gate_def Let_def split: exception_gate.splits)
qed

lemma describe_exception_gates_at:
  assumes "length gates = 256" "v < 256"
  shows "describe_exception_gates stubs gates ! v = (if v < 32 then exception_gate_spec stubs v else gates ! v)"
    and "length (describe_exception_gates stubs gates) = 256"
proof -
  have "n \<le> 32 \<Longrightarrow> length (fold (describe_exception_gate stubs) [0..<n] gates) = 256 \<and>
      fold (describe_exception_gate stubs) [0..<n] gates ! v = (if v < n then exception_gate_spec stubs v else gates ! v)"
    for n
    by (induction n) (use assms in \<open>auto simp: describe_exception_gate_at nth_list_update\<close>)
  from this [of 32] show "describe_exception_gates stubs gates ! v = (if v < 32 then exception_gate_spec stubs v else gates ! v)"
      "length (describe_exception_gates stubs gates) = 256"
    by (simp_all add: describe_exception_gates_def CPU_EXCEPTION_COUNT_def)
qed

end
