(* ===== verification/Core_State.thy ===== *)
theory Core_State
  imports Exceptions_Correct Boot_Plan Atomic
begin

text \<open>
  The state of a core (\<^verbatim>\<open>arch/x86_64/cpu/cpu.cpp\<close>) and the initialisers of its components:
  \<^verbatim>\<open>STACKS\<close>, \<^verbatim>\<open>TSS\<close>, \<^verbatim>\<open>GDT\<close>, \<^verbatim>\<open>EXCEPTIONS\<close>, \<^verbatim>\<open>IDT\<close> and \<^verbatim>\<open>FPU\<close>, bound to the members of
  \<^verbatim>\<open>local_state\<close> as \<^verbatim>\<open>core_wiring.hpp\<close> does. Run by the init graph in the order of the boot plan,
  they leave tables the processor can deliver every exception through.
\<close>

record local_state =
  logical_id_m :: u32
  apic_id_m :: u32
  is_bsp_m :: bool
  is_online_m :: bool
  stacks_m :: stack_set
  tss_m :: segment
  gdt_m :: gdt_table
  exception_gates_m :: gate_table
  idt_m :: idt_table

text \<open>
  The processor's registers that the initialisers load: \<open>gdtr\<close> and \<open>idtr\<close>, the code and
  data selectors, the task register, the control registers and whether the FPU was reset.
\<close>

record core =
  local :: local_state
  current_online_count :: u32
  gdtr :: table_pointer
  idtr :: table_pointer
  code_selector :: u16
  data_selector :: u16
  task_register :: u16
  cr0 :: u64
  cr4 :: u64
  fpu_reset :: bool

text \<open>Where the members of the local state lie in memory.\<close>

record core_addresses =
  a_stacks :: u64
  a_tss :: u64
  a_gdt_entries :: u64
  a_idt_entries :: u64

definition MAX_CORE_COUNT :: u32 where "MAX_CORE_COUNT = 64"

definition init_bsp :: "core \<Rightarrow> core" where
  "init_bsp k =
     k\<lparr>local := (local k)\<lparr>logical_id_m := 0, apic_id_m := 0, is_bsp_m := True, is_online_m := True\<rparr>,
       current_online_count :=
         (case fetch_add 1 SEQ_CST (current_online_count k) of None \<Rightarrow> current_online_count k | Some (_, n) \<Rightarrow> n)\<rparr>"

definition get_core :: "u32 \<Rightarrow> core \<Rightarrow> local_state option" where
  "get_core logical_id k = (if logical_id = 0 then Some (local k) else None)"

definition online_count :: "core \<Rightarrow> u32 option" where
  "online_count k = atomic_load decode_integral ACQUIRE (current_online_count k)"

section \<open>Initialisers\<close>

definition stacks_init :: "core_addresses \<Rightarrow> core \<Rightarrow> core" where
  "stacks_init a k = k\<lparr>local := (local k)\<lparr>stacks_m := stack_set_init (a_stacks a)\<rparr>\<rparr>"

definition tss_component_init :: "core \<Rightarrow> core" where
  "tss_component_init k =
     (let stacks = stacks_m (local k)
      in k\<lparr>local := (local k)
             \<lparr>tss_m := tss_init
                (stack_config_zero
                   \<lparr>rsp0 := top_address (kernel_m stacks), ist1 := top_address (double_fault_m stacks),
                    ist2 := top_address (nmi_m stacks), ist3 := top_address (machine_check_m stacks)\<rparr>)\<rparr>\<rparr>)"

definition gdt_load :: "core \<Rightarrow> core" where
  "gdt_load k =
     k\<lparr>gdtr := gdt_ptr (gdt_m (local k)), code_selector := KERNEL_CODE_SELECTOR,
       data_selector := KERNEL_DATA_SELECTOR\<rparr>"

definition load_task_register :: "u16 \<Rightarrow> core \<Rightarrow> core" where
  "load_task_register selector k = k\<lparr>task_register := selector\<rparr>"

definition gdt_component_init :: "core_addresses \<Rightarrow> core \<Rightarrow> core" where
  "gdt_component_init a k =
     (let k = k\<lparr>local := (local k)\<lparr>gdt_m := gdt_init (a_gdt_entries a) (a_tss a)\<rparr>\<rparr>
      in load_task_register TSS_SELECTOR (gdt_load k))"

definition exceptions_component_init :: "u64 list \<Rightarrow> core \<Rightarrow> core" where
  "exceptions_component_init stubs k =
     k\<lparr>local := (local k)
         \<lparr>exception_gates_m := describe_exception_gates stubs (exception_gates_m (local k))\<rparr>\<rparr>"

definition idt_load :: "core \<Rightarrow> core" where
  "idt_load k = k\<lparr>idtr := idt_ptr (idt_m (local k))\<rparr>"

definition idt_component_init :: "core_addresses \<Rightarrow> core \<Rightarrow> core" where
  "idt_component_init a k =
     idt_load (k\<lparr>local := (local k)
       \<lparr>idt_m := idt_init (a_idt_entries a) (exception_gates_m (local k)) kernel_code_selector\<rparr>\<rparr>)"

definition CR0_MONITOR_COPROCESSOR :: u64 where "CR0_MONITOR_COPROCESSOR = push_bit 1 1"
definition CR0_EMULATION :: u64 where "CR0_EMULATION = push_bit 2 1"
definition CR4_OS_FXSR :: u64 where "CR4_OS_FXSR = push_bit 9 1"
definition CR4_OS_XMM_EXCEPT :: u64 where "CR4_OS_XMM_EXCEPT = push_bit 10 1"

definition enable_sse :: "core \<Rightarrow> core" where
  "enable_sse k =
     k\<lparr>cr0 := (cr0 k AND NOT CR0_EMULATION) OR CR0_MONITOR_COPROCESSOR,
       cr4 := cr4 k OR CR4_OS_FXSR OR CR4_OS_XMM_EXCEPT, fpu_reset := True\<rparr>"

text \<open>
  The initialiser table of a core; \<open>other\<close> stands for the components that are not bound to
  the local state.
\<close>

fun core_base ::
    "core_addresses \<Rightarrow> u64 list \<Rightarrow> (kcomponent, core) init_table \<Rightarrow> (kcomponent, core) init_table" where
  "core_base a stubs other STACKS k = Return (Ok (), stacks_init a k)"
| "core_base a stubs other TSS k = Return (Ok (), tss_component_init k)"
| "core_base a stubs other GDT k = Return (Ok (), gdt_component_init a k)"
| "core_base a stubs other EXCEPTIONS k = Return (Ok (), exceptions_component_init stubs k)"
| "core_base a stubs other IDT k = Return (Ok (), idt_component_init a k)"
| "core_base a stubs other FPU k = Return (Ok (), enable_sse k)"
| "core_base a stubs other c k = other c k"

section \<open>What a core has after the early graph\<close>

definition quiet_logger :: "(kcomponent, core) init_logger" where
  "quiet_logger = kernel_logger (\<lambda>_ k. k) (Core 0)"

definition early_core_state :: "core_addresses \<Rightarrow> u64 list \<Rightarrow> core \<Rightarrow> core" where
  "early_core_state a stubs k =
     enable_sse (idt_component_init a (exceptions_component_init stubs (gdt_component_init a
       (tss_component_init (stacks_init a k)))))"

lemma early_core_runs:
  "run_init_graph deps_of (core_base a stubs other) quiet_logger early_core_roots k =
     Some (Return (True, early_core_state a stubs k))"
  by (simp add: run_init_graph_def run_component_logged_def quiet_logger_def kernel_logger_def early_core_state_def)

lemma early_core_local:
  "stacks_m (local (early_core_state a stubs k)) = stack_set_init (a_stacks a)"
  "gdt_m (local (early_core_state a stubs k)) = gdt_init (a_gdt_entries a) (a_tss a)"
  "idt_m (local (early_core_state a stubs k)) =
     idt_init (a_idt_entries a) (describe_exception_gates stubs (exception_gates_m (local k))) KERNEL_CODE_SELECTOR"
  "seg_rsp (tss_m (local (early_core_state a stubs k))) ! 0 = top_address (kernel_m (stack_set_init (a_stacks a)))"
  "seg_ist (tss_m (local (early_core_state a stubs k))) =
     [top_address (double_fault_m (stack_set_init (a_stacks a))), top_address (nmi_m (stack_set_init (a_stacks a))),
      top_address (machine_check_m (stack_set_init (a_stacks a))), 0, 0, 0, 0]"
  "gdtr (early_core_state a stubs k) = gdt_ptr (gdt_init (a_gdt_entries a) (a_tss a))"
  "ptr_base (idtr (early_core_state a stubs k)) = a_idt_entries a"
  "task_register (early_core_state a stubs k) = TSS_SELECTOR"
  by (simp_all add: early_core_state_def enable_sse_def idt_component_init_def idt_load_def
      exceptions_component_init_def gdt_component_init_def gdt_load_def load_task_register_def
      tss_component_init_def stacks_init_def kernel_code_selector_def tss_init_stacks
      stack_config_zero_def idt_init_def Let_def)


lemma gdt_kernel_code:
  "code_segment64 (gdt_entries (gdt_init e t) ! selector_index KERNEL_CODE_SELECTOR)"
  "privilege (access (gdt_entries (gdt_init e t) ! selector_index KERNEL_CODE_SELECTOR)) = 0"
proof -
  have d: "gdt_entries (gdt_init e t) ! selector_index KERNEL_CODE_SELECTOR =
      make_descriptor FLAT_BASE FLAT_LIMIT
        (ACCESS_PRESENT OR ACCESS_RING_0 OR ACCESS_DESCRIPTOR OR ACCESS_EXECUTABLE OR ACCESS_READ_WRITE)
        (FLAGS_GRANULARITY_4K OR FLAGS_64_BIT)"
    by (simp add: gdt_init_def selector_index_def KERNEL_CODE_SELECTOR_def GDT_ENTRY_COUNT_def
        TSS_ENTRY_INDEX_def TSS_SELECTOR_def)
  show "code_segment64 (gdt_entries (gdt_init e t) ! selector_index KERNEL_CODE_SELECTOR)"
    "privilege (access (gdt_entries (gdt_init e t) ! selector_index KERNEL_CODE_SELECTOR)) = 0"
    unfolding d by code_simp+
qed

lemma gdt_tss:
  "system_base (gdt_entries (gdt_init e t) ! selector_index TSS_SELECTOR)
     (gdt_entries (gdt_init e t) ! (selector_index TSS_SELECTOR + 1)) = t"
  "segment_limit (gdt_entries (gdt_init e t) ! selector_index TSS_SELECTOR) = 103"
  by (simp_all add: gdt_init_def selector_index_def GDT_ENTRY_COUNT_def TSS_ENTRY_INDEX_def TSS_SELECTOR_def
      make_tss_descriptor_base make_tss_descriptor_limit)

text \<open>The stack an exception is to run on: its own for the three exceptions that have one.\<close>

definition exception_stack :: "stack_set \<Rightarrow> nat \<Rightarrow> stack option" where
  "exception_stack stacks v =
     (if v = 2 then Some (nmi_m stacks) else if v = 8 then Some (double_fault_m stacks)
      else if v = 18 then Some (machine_check_m stacks) else None)"

lemma type_at_ist:
  assumes "v < 32"
  shows "ist_u8 (type_interrupt_stack (type_at v)) = (if v = 2 then 2 else if v = 8 then 1 else if v = 18 then 3 else 0)"
proof -
  have "list_all (\<lambda>v. ist_u8 (type_interrupt_stack (type_at v)) =
      (if v = 2 then 2 else if v = 8 then 1 else if v = 18 then 3 else 0)) [0..<32]" by code_simp
  then show ?thesis using assms by (simp add: list_all_iff)
qed

lemma stack_set_separate:
  assumes "unat self + 96 + 4 * 16384 < 2 ^ 64" and "i < 4"
  shows "unat (stack_storage self i) = unat self + 96 + i * 16384"
proof -
  have "unat (of_nat i * CORE_STACK_SIZE) = i * 16384"
    using assms(2) by (simp add: CORE_STACK_SIZE_def unat_word_ariths unat_of_nat)
  moreover have "unat (self + 96) = unat self + 96" using assms(1) by (subst unat_plus_small) simp_all
  ultimately show ?thesis
    using assms unfolding stack_storage_def by (subst unat_plus_small) simp_all
qed


definition stack_of :: "stack_set \<Rightarrow> nat \<Rightarrow> stack" where
  "stack_of stacks i = [kernel_m stacks, double_fault_m stacks, nmi_m stacks, machine_check_m stacks] ! i"

lemma stack_of_init:
  "i < 4 \<Longrightarrow> stack_of (stack_set_init self) i = describe_stack (stack_storage self i) CORE_STACK_SIZE"
proof -
  assume "i < 4"
  then consider "i = 0" | "i = 1" | "i = 2" | "i = 3" by linarith
  then show ?thesis by cases (simp_all add: stack_of_def stack_set_init_def)
qed

lemma stacks_disjoint:
  assumes "unat self + 96 + 4 * 16384 < 2 ^ 64" and "i < j" "j < 4"
  shows "unat (bottom (stack_of (stack_set_init self) i)) + 16384 = unat (top_address (stack_of (stack_set_init self) i))"
    "top_address (stack_of (stack_set_init self) i) \<le> bottom (stack_of (stack_set_init self) j)"
proof -
  have s: "unat (stack_storage self i) = unat self + 96 + i * 16384" "unat (stack_storage self j) = unat self + 96 + j * 16384"
    using stack_set_separate [OF assms(1)] assms by auto
  have le: "(i + 1) * 16384 \<le> j * 16384" "j * 16384 \<le> 3 * 16384" using assms by simp_all
  have t: "unat (stack_storage self i + CORE_STACK_SIZE) = unat (stack_storage self i) + 16384"
    using s le assms(1) by (subst unat_plus_small) (simp_all add: CORE_STACK_SIZE_def)
  show "unat (bottom (stack_of (stack_set_init self) i)) + 16384 = unat (top_address (stack_of (stack_set_init self) i))"
    "top_address (stack_of (stack_set_init self) i) \<le> bottom (stack_of (stack_set_init self) j)"
    using assms s le t by (simp_all add: stack_of_init describe_stack_def word_le_nat_alt)
qed

lemma idt_gate:
  assumes "length gates = 256" "v < 256"
  shows "idt_entries (idt_init e (describe_exception_gates stubs gates) sel) ! v =
    make_entry (if v < 32 then exception_gate_spec stubs v else gates ! v) sel"
  using describe_exception_gates_at(1) [OF assms] assms(2)
  by (simp add: idt_init_def IDT_ENTRY_COUNT_def)

lemma gate_attributes:
  "stubs ! v \<noteq> 0 \<Longrightarrow> is_present (type_attributes (make_entry (exception_gate_spec stubs v) sel)) \<and>
   privilege (type_attributes (make_entry (exception_gate_spec stubs v) sel)) = 0 \<and>
   ie_selector (make_entry (exception_gate_spec stubs v) sel) = sel"
  by (simp add: make_entry_def exception_gate_spec_def is_present_def privilege_def GATE_TYPE_TRAP_def
      GATE_TYPE_INTERRUPT_def Let_def)

lemma gate_switch:
  assumes "v < 32" "stubs ! v \<noteq> 0"
    "seg_ist s = [top_address (double_fault_m st), top_address (nmi_m st), top_address (machine_check_m st), 0, 0, 0, 0]"
  shows "gate_stack s (make_entry (exception_gate_spec stubs v) sel) = map_option top_address (exception_stack st v)"
  using assms(2,3) type_at_ist [OF assms(1)]
  by (simp add: gate_stack_def make_entry_def exception_gate_spec_def exception_stack_def Let_def)

definition new_core :: "core \<Rightarrow> bool" where
  "new_core k \<longleftrightarrow> exception_gates_m (local k) = gate_table_new"

text \<open>
  C19: Running the early per-core graph on a new core succeeds and leaves the processor with
  tables that deliver every exception: each of the 32 vectors has a present ring-0 gate that
  leads to its assembly stub through the 64-bit kernel code segment; the double fault, the
  NMI and the machine check switch to their own stack and the others stay on the current
  one; every other vector has no gate. The task register selects a descriptor of the
  core's task state segment, and the four stacks of 16 KiB do not overlap.
\<close>

theorem core_exceptions_deliverable:
  assumes "new_core k" and "length stubs = 32" and "\<forall>h \<in> set stubs. h \<noteq> 0"
    and "unat (a_stacks a) + 96 + 4 * 16384 < 2 ^ 64"
  shows "\<exists>k'. run_init_graph deps_of (core_base a stubs other) quiet_logger early_core_roots k =
      Some (Return (True, k')) \<and>
    (let ls = local k'; gate = (\<lambda>v. idt_entries (idt_m ls) ! v); segments = gdt_entries (gdt_m ls)
     in (\<forall>v < 32. is_present (type_attributes (gate v)) \<and> privilege (type_attributes (gate v)) = 0 \<and>
           gate_offset (gate v) = stubs ! v \<and>
           code_segment64 (segments ! selector_index (ie_selector (gate v))) \<and>
           privilege (access (segments ! selector_index (ie_selector (gate v)))) = 0 \<and>
           gate_stack (tss_m ls) (gate v) = map_option top_address (exception_stack (stacks_m ls) v)) \<and>
        (\<forall>v. 32 \<le> v \<longrightarrow> v < 256 \<longrightarrow> \<not> is_present (type_attributes (gate v))) \<and>
        system_base (segments ! selector_index (task_register k'))
          (segments ! (selector_index (task_register k') + 1)) = a_tss a \<and>
        ptr_base (gdtr k') = a_gdt_entries a \<and> ptr_base (idtr k') = a_idt_entries a \<and>
        (\<forall>i j. i < j \<longrightarrow> j < 4 \<longrightarrow>
           unat (bottom (stack_of (stacks_m ls) i)) + 16384 = unat (top_address (stack_of (stacks_m ls) i)) \<and>
           top_address (stack_of (stacks_m ls) i) \<le> bottom (stack_of (stacks_m ls) j)))"
proof -
  let ?k = "early_core_state a stubs k"
  let ?gates = "exception_gates_m (local k)"
  have len: "length ?gates = 256" using assms(1) by (simp add: new_core_def gate_table_new_def IDT_ENTRY_COUNT_def)
  have gate: "idt_entries (idt_m (local ?k)) ! v =
      make_entry (if v < 32 then exception_gate_spec stubs v else ?gates ! v) KERNEL_CODE_SELECTOR" if "v < 256" for v
    unfolding early_core_local using idt_gate [OF len that] .
  have stub: "stubs ! v \<noteq> 0" if "v < 32" for v using assms(2,3) that nth_mem [of v stubs] by auto
  have entry: "gate_offset (make_entry (exception_gate_spec stubs v) sel) = stubs ! v" for v sel
    by (simp add: make_entry_offset exception_gate_spec_def)
  have absent: "\<not> is_present (type_attributes (make_entry (?gates ! v) sel))" if "v < 256" for v sel
    using assms(1) that
    by (simp add: new_core_def gate_table_new_def IDT_ENTRY_COUNT_def make_entry_def is_present_def)
  have "ptr_base (gdtr ?k) = a_gdt_entries a" by (simp add: early_core_local gdt_init_def)
  then show ?thesis
    unfolding early_core_runs Let_def
    using gate_switch [OF _ stub early_core_local(5) [of a stubs k]] gate_attributes [OF stub] stacks_disjoint [OF assms(4)]
    by (intro exI [of _ ?k])
      (simp add: gate entry absent gdt_kernel_code gdt_tss [unfolded Suc_eq_plus1 [symmetric]] early_core_local(1,2,7,8))
qed


definition sample_addresses :: core_addresses where
  "sample_addresses =
     \<lparr>a_stacks = 0xFFFFFFFF80200000, a_tss = 0xFFFFFFFF80210060, a_gdt_entries = 0xFFFFFFFF802100D0,
      a_idt_entries = 0xFFFFFFFF80211130\<rparr>"

definition sample_stubs :: "u64 list" where
  "sample_stubs = map (\<lambda>i. 0xFFFFFFFF80100000 + of_nat i * 16) [0..<32]"

definition blank_core :: core where
  "blank_core =
     \<lparr>local =
        \<lparr>logical_id_m = 0, apic_id_m = 0, is_bsp_m = False, is_online_m = False, stacks_m = stack_set_init 0,
         tss_m = tss_clear, gdt_m = gdt_init 0 0, exception_gates_m = gate_table_new,
         idt_m = idt_init 0 gate_table_new 0\<rparr>,
      current_online_count = 0, gdtr = \<lparr>ptr_limit = 0, ptr_base = 0\<rparr>, idtr = \<lparr>ptr_limit = 0, ptr_base = 0\<rparr>,
      code_selector = 0, data_selector = 0, task_register = 0, cr0 = 0, cr4 = 0, fpu_reset = False\<rparr>"

theorem core_exceptions_deliverable_witness:
  "\<exists>k'. run_init_graph deps_of (core_base sample_addresses sample_stubs (\<lambda>c k. Return (Ok (), k))) quiet_logger
      early_core_roots blank_core = Some (Return (True, k')) \<and>
    gate_offset (idt_entries (idt_m (local k')) ! 14) = sample_stubs ! 14 \<and>
    ptr_base (idtr k') = 0xFFFFFFFF80211130"
proof -
  have new: "new_core blank_core" by (simp add: new_core_def blank_core_def)
  have len: "length sample_stubs = 32" by (simp add: sample_stubs_def)
  have stubs: "\<forall>h \<in> set sample_stubs. h \<noteq> 0" by code_simp
  have room: "unat (a_stacks sample_addresses) + 96 + 4 * 16384 < 2 ^ 64" by (simp add: sample_addresses_def)
  from core_exceptions_deliverable [OF new len stubs room, of "\<lambda>c k. Return (Ok (), k)"]
  obtain k' where "run_init_graph deps_of (core_base sample_addresses sample_stubs (\<lambda>c k. Return (Ok (), k)))
        quiet_logger early_core_roots blank_core = Some (Return (True, k'))"
      "gate_offset (idt_entries (idt_m (local k')) ! 14) = sample_stubs ! 14"
      "ptr_base (idtr k') = a_idt_entries sample_addresses"
    unfolding Let_def by auto
  moreover have "a_idt_entries sample_addresses = 0xFFFFFFFF80211130" by (simp add: sample_addresses_def)
  ultimately show ?thesis by auto
qed

end
