(* ===== verification/Mmio.thy ===== *)
theory Mmio
  imports Address_Range Vmm_Correct
begin

text \<open>
  The window of device memory: \<^verbatim>\<open>vmm::map_mmio\<close> makes the bytes of a physical range readable
  at a fixed offset, uncached.
\<close>

lemma mmio_range:
  assumes "unat pa + unat bytes \<le> 2 ^ 39"
  shows "unat (align_down pa FRAME_SIZE) \<le> unat pa" "unat pa + unat bytes \<le> unat (align_up (pa + bytes) FRAME_SIZE)"
    "unat (align_up (pa + bytes) FRAME_SIZE) \<le> unat pa + unat bytes + 4095"
proof -
  have f: "FRAME_SIZE = 2 ^ 12" by (simp add: layout)
  have p: "unat (pa + bytes) = unat pa + unat bytes" using assms by (intro unat_plus_small) simp
  show "unat (align_down pa FRAME_SIZE) \<le> unat pa" unfolding f unat_align_down by simp
  have u: "unat (align_up (pa + bytes) (2 ^ 12)) = (unat pa + unat bytes + (2 ^ 12 - 1)) div 2 ^ 12 * 2 ^ 12"
    using assms p by (subst unat_align_up) simp_all
  show "unat pa + unat bytes \<le> unat (align_up (pa + bytes) FRAME_SIZE)"
    "unat (align_up (pa + bytes) FRAME_SIZE) \<le> unat pa + unat bytes + 4095"
    unfolding f u using div_mult_mod_eq [of "unat pa + unat bytes + (2 ^ 12 - 1)" "2 ^ 12"]
      mod_less_divisor [of "2 ^ 12" "unat pa + unat bytes + (2 ^ 12 - 1)"] by simp_all
qed

lemma map_mmio_spec:
  assumes "tree_inv m root"
  shows "\<exists>r m'. map_mmio root pa bytes m = Return (r, m') \<and> tree_inv m' root \<and>
    (\<not> isl r \<longrightarrow> r = Ok (MMIO_MAP_BASE + pa) \<and> bytes \<noteq> 0 \<and> unat pa + unat bytes \<le> 2 ^ 39 \<and>
       (\<forall>off < bytes. address_space m' root (MMIO_MAP_BASE + pa + off) =
          Some (pa + off, effective_prot (feats m) MMIO))) \<and>
    (\<forall>va. (unat pa + unat bytes \<le> 2 ^ 39 \<longrightarrow>
        align_up (pa + bytes) FRAME_SIZE - align_down pa FRAME_SIZE \<le> va - (MMIO_MAP_BASE + align_down pa FRAME_SIZE)) \<longrightarrow>
      address_space m' root va = address_space m root va)"
proof (cases "bytes = 0 \<or> pa \<ge> MMIO_MAP_SIZE \<or> bytes > MMIO_MAP_SIZE - pa")
  case True
  then show ?thesis using assms by (auto simp: map_mmio_def mm_fail_def)
next
  case False
  let ?first = "align_down pa FRAME_SIZE" and ?last = "align_up (pa + bytes) FRAME_SIZE"
  have sz: "unat MMIO_MAP_SIZE = 2 ^ 39" by (simp add: MMIO_MAP_SIZE_def)
  have lt: "unat pa < 2 ^ 39" using False sz by (simp add: not_le word_less_nat_alt)
  have "unat (MMIO_MAP_SIZE - pa) = 2 ^ 39 - unat pa" using lt sz by (subst unat_minus_le) (simp_all add: word_le_nat_alt)
  then have u: "unat pa + unat bytes \<le> 2 ^ 39" using False lt by (auto simp: not_less word_le_nat_alt)
  note rng = mmio_range [OF u]
  have le: "?first \<le> ?last" using rng by (simp add: word_le_nat_alt)
  have len: "unat (?last - ?first) = unat ?last - unat ?first" by (rule unat_minus_le [OF le])
  have fit: "unat ?first + unat (?last - ?first) \<le> 2 ^ 52" using rng u unfolding len by simp
  obtain r m' n where R: "map_range root (MMIO_MAP_BASE + ?first) ?first (?last - ?first) SIZE_4K MMIO m = Return (r, m')"
      "tree_inv m' root" "\<not> isl r \<longrightarrow> n = unat (?last - ?first)" "n \<le> unat (?last - ?first)"
      "\<And>va. address_space m' root va =
        (if unat (va - (MMIO_MAP_BASE + ?first)) < n
         then Some (?first + (va - (MMIO_MAP_BASE + ?first)), effective_prot (feats m) MMIO)
         else address_space m root va)"
    using map_range_spec [OF assms _ fit, of SIZE_4K "MMIO_MAP_BASE + ?first" MMIO] by auto
  have eq: "map_mmio root pa bytes m =
      (case r of Err e \<Rightarrow> Return (Err e, m') | Ok _ \<Rightarrow> Return (Ok (MMIO_MAP_BASE + pa), m'))"
    using False R(1) by (auto simp: map_mmio_def ktry_def mm_ok_def Let_def split: sum.splits)
  have "address_space m' root (MMIO_MAP_BASE + pa + off) = Some (pa + off, effective_prot (feats m) MMIO)"
    if "\<not> isl r" "off < bytes" for off
  proof -
    have d: "MMIO_MAP_BASE + pa + off - (MMIO_MAP_BASE + ?first) = (pa - ?first) + off" by simp
    have pf: "unat (pa - ?first) = unat pa - unat ?first"
      using rng(1) by (intro unat_minus_le) (simp add: word_le_nat_alt)
    have o: "unat off < unat bytes" using that(2) by (simp add: word_less_nat_alt)
    have "unat ((pa - ?first) + off) = unat pa - unat ?first + unat off"
      using o u pf by (subst unat_plus_small) simp_all
    then have "unat ((pa - ?first) + off) < n"
      using that(1) R(3) o rng unfolding len by simp
    then show ?thesis unfolding R(5) d by (simp add: algebra_simps)
  qed
  moreover have "address_space m' root va = address_space m root va"
    if "?last - ?first \<le> va - (MMIO_MAP_BASE + ?first)" for va
    using R(4) R(5) [of va] that by (simp add: word_le_nat_alt)
  ultimately show ?thesis using R(2) u False unfolding eq by (cases r) auto
qed

end
