(* ===== verification/Lapic.thy ===== *)
theory Lapic
  imports Mmio
begin

text \<open>
  \<^verbatim>\<open>arch/x86_64/lapic/lapic.cpp\<close>: the local APIC. Its registers are memory the device answers
  for: an access is an event, and what a read returns is a function \<open>dev\<close> of the accesses so
  far and the address, so that nothing is assumed about the device.
\<close>

datatype reg =
  R_id | R_version | R_tpr | R_apr | R_ppr | R_eoi | R_rrd
| R_ldr | R_dfr | R_svr | R_isr_base | R_tmr_base | R_irr_base | R_esr
| R_icr_low | R_icr_high | R_lvt_timer | R_lvt_thermal | R_lvt_perf | R_lvt_lint0 | R_lvt_lint1
| R_lvt_error | R_timer_init | R_timer_current | R_timer_div

fun reg_u32 :: "reg \<Rightarrow> u32" where
  "reg_u32 R_id = 0x0020"
| "reg_u32 R_version = 0x0030"
| "reg_u32 R_tpr = 0x0080"
| "reg_u32 R_apr = 0x0090"
| "reg_u32 R_ppr = 0x00A0"
| "reg_u32 R_eoi = 0x00B0"
| "reg_u32 R_rrd = 0x00C0"
| "reg_u32 R_ldr = 0x00D0"
| "reg_u32 R_dfr = 0x00E0"
| "reg_u32 R_svr = 0x00F0"
| "reg_u32 R_isr_base = 0x0100"
| "reg_u32 R_tmr_base = 0x0180"
| "reg_u32 R_irr_base = 0x0200"
| "reg_u32 R_esr = 0x0280"
| "reg_u32 R_icr_low = 0x0300"
| "reg_u32 R_icr_high = 0x0310"
| "reg_u32 R_lvt_timer = 0x0320"
| "reg_u32 R_lvt_thermal = 0x0330"
| "reg_u32 R_lvt_perf = 0x0340"
| "reg_u32 R_lvt_lint0 = 0x0350"
| "reg_u32 R_lvt_lint1 = 0x0360"
| "reg_u32 R_lvt_error = 0x0370"
| "reg_u32 R_timer_init = 0x0380"
| "reg_u32 R_timer_current = 0x0390"
| "reg_u32 R_timer_div = 0x03E0"

definition isr_register :: "nat \<Rightarrow> u32" where "isr_register index = reg_u32 R_isr_base + of_nat (index * 0x10)"
definition tmr_register :: "nat \<Rightarrow> u32" where "tmr_register index = reg_u32 R_tmr_base + of_nat (index * 0x10)"
definition irr_register :: "nat \<Rightarrow> u32" where "irr_register index = reg_u32 R_irr_base + of_nat (index * 0x10)"

definition SVR_APIC_ENABLE :: u32 where "SVR_APIC_ENABLE = push_bit 8 1"
definition LVT_MASKED :: u32 where "LVT_MASKED = push_bit 16 1"
definition LVT_TIMER_PERIODIC :: u32 where "LVT_TIMER_PERIODIC = push_bit 17 1"
definition ICR_DELIVERY_INIT :: u32 where "ICR_DELIVERY_INIT = push_bit 8 5"
definition ICR_DELIVERY_STARTUP :: u32 where "ICR_DELIVERY_STARTUP = push_bit 8 6"
definition ICR_LEVEL_ASSERT :: u32 where "ICR_LEVEL_ASSERT = push_bit 14 1"
definition ICR_STATUS_PENDING :: u32 where "ICR_STATUS_PENDING = push_bit 12 1"
definition SPURIOUS_INTERRUPT_VECTOR :: u8 where "SPURIOUS_INTERRUPT_VECTOR = 0xFF"

datatype mmio_event = Rd u64 | Wr u64 u32

type_synonym device = "mmio_event list \<Rightarrow> u64 \<Rightarrow> u32"

record lapic_state =
  m_lapic_base_vaddr :: vaddr_t
  m_lapic_base_paddr :: paddr_t
  accesses :: "mmio_event list"

section \<open>Registers\<close>

definition reg_address :: "lapic_state \<Rightarrow> u32 \<Rightarrow> u64" where
  "reg_address s r = m_lapic_base_vaddr s + ucast r"

definition lapic_read :: "device \<Rightarrow> u32 \<Rightarrow> lapic_state \<Rightarrow> u32 \<times> lapic_state" where
  "lapic_read dev r s =
     (dev (accesses s) (reg_address s r), s\<lparr>accesses := accesses s @ [Rd (reg_address s r)]\<rparr>)"

definition lapic_write :: "u32 \<Rightarrow> u32 \<Rightarrow> lapic_state \<Rightarrow> lapic_state" where
  "lapic_write r v s = s\<lparr>accesses := accesses s @ [Wr (reg_address s r) v]\<rparr>"

definition eoi :: "lapic_state \<Rightarrow> lapic_state" where
  "eoi s = lapic_write (reg_u32 R_eoi) 0 s"

definition lapic_id :: "device \<Rightarrow> lapic_state \<Rightarrow> u32 \<times> lapic_state" where
  "lapic_id dev s = (let (v, s) = lapic_read dev (reg_u32 R_id) s in (drop_bit 24 v, s))"

definition lapic_version :: "device \<Rightarrow> lapic_state \<Rightarrow> u32 \<times> lapic_state" where
  "lapic_version dev s = (let (v, s) = lapic_read dev (reg_u32 R_version) s in (v AND 0xFF, s))"

section \<open>Initialisation\<close>

definition lapic_is_ready :: "lapic_state \<Rightarrow> bool" where
  "lapic_is_ready s \<longleftrightarrow> m_lapic_base_vaddr s \<noteq> 0"

definition lapic_init ::
    "paddr_t \<Rightarrow> paddr_t \<Rightarrow> lapic_state \<times> machine \<Rightarrow> (init_result \<times> lapic_state \<times> machine) outcome" where
  "lapic_init root lapic_base_address sm =
     (let (s, m) = sm
      in if lapic_base_address = 0 then Return (Err INVALID_BOOT_DATA, s, m)
         else if m_lapic_base_vaddr s \<noteq> 0 then
           (if m_lapic_base_paddr s = lapic_base_address then Return (Ok (), s, m)
            else Return (Err INVALID_BOOT_DATA, s, m))
         else case map_mmio root lapic_base_address FRAME_SIZE m of
                Panic e \<Rightarrow> Panic e
              | Return (Err _, m) \<Rightarrow> Return (Err NO_USABLE_MEMORY, s, m)
              | Return (Ok va, m) \<Rightarrow>
                  Return (Ok (), s\<lparr>m_lapic_base_paddr := lapic_base_address, m_lapic_base_vaddr := va\<rparr>, m))"

definition init_core :: "device \<Rightarrow> lapic_state \<Rightarrow> init_result \<times> lapic_state" where
  "init_core dev s =
     (if m_lapic_base_vaddr s = 0 then (Err DEPENDENCY_UNAVAILABLE, s)
      else
        let s = lapic_write (reg_u32 R_tpr) 0 s;
            s = lapic_write (reg_u32 R_dfr) 0xFFFFFFFF s;
            (ldr, s) = lapic_read dev (reg_u32 R_ldr) s;
            s = lapic_write (reg_u32 R_ldr) ((ldr AND 0x00FFFFFF) OR 1) s;
            s = lapic_write (reg_u32 R_lvt_lint0) LVT_MASKED s;
            s = lapic_write (reg_u32 R_lvt_lint1) LVT_MASKED s;
            s = lapic_write (reg_u32 R_lvt_perf) LVT_MASKED s;
            s = lapic_write (reg_u32 R_lvt_thermal) LVT_MASKED s;
            s = lapic_write (reg_u32 R_lvt_error) 0xFE s;
            s = lapic_write (reg_u32 R_esr) 0 s;
            s = lapic_write (reg_u32 R_esr) 0 s;
            s = lapic_write (reg_u32 R_svr) (SVR_APIC_ENABLE OR ucast SPURIOUS_INTERRUPT_VECTOR) s
        in (Ok (), eoi s))"

section \<open>Interprocessor interrupts and the timer\<close>

text \<open>The loop that waits for the delivery bit to clear; it may run forever.\<close>

partial_function (option) wait_delivered :: "device \<Rightarrow> lapic_state \<Rightarrow> lapic_state option" where
  "wait_delivered dev s =
     (let (v, s) = lapic_read dev (reg_u32 R_icr_low) s
      in if v AND ICR_STATUS_PENDING \<noteq> 0 then wait_delivered dev s else Some s)"

definition send_ipi :: "device \<Rightarrow> u32 \<Rightarrow> u32 \<Rightarrow> u32 \<Rightarrow> lapic_state \<Rightarrow> lapic_state option" where
  "send_ipi dev dest_apic_id vector flags s =
     wait_delivered dev
       (lapic_write (reg_u32 R_icr_low) ((vector AND 0xFF) OR flags)
          (lapic_write (reg_u32 R_icr_high) (push_bit 24 dest_apic_id) s))"

definition send_init_ipi :: "device \<Rightarrow> u32 \<Rightarrow> lapic_state \<Rightarrow> lapic_state option" where
  "send_init_ipi dev dest s = send_ipi dev dest 0 (ICR_DELIVERY_INIT OR ICR_LEVEL_ASSERT) s"

definition send_startup_ipi :: "device \<Rightarrow> u32 \<Rightarrow> u8 \<Rightarrow> lapic_state \<Rightarrow> lapic_state option" where
  "send_startup_ipi dev dest vector s =
     send_ipi dev dest (ucast vector) (ICR_DELIVERY_STARTUP OR ICR_LEVEL_ASSERT) s"

definition configure_timer :: "u8 \<Rightarrow> u32 \<Rightarrow> bool \<Rightarrow> u8 \<Rightarrow> lapic_state \<Rightarrow> lapic_state" where
  "configure_timer vector initial_count periodic divide_value s =
     (let s = lapic_write (reg_u32 R_timer_div) (ucast (divide_value AND 0x0F)) s;
          lvt = (if periodic then ucast vector OR LVT_TIMER_PERIODIC else ucast vector);
          s = lapic_write (reg_u32 R_lvt_timer) lvt s
      in lapic_write (reg_u32 R_timer_init) initial_count s)"

definition stop_timer :: "lapic_state \<Rightarrow> lapic_state" where
  "stop_timer s = lapic_write (reg_u32 R_timer_init) 0 (lapic_write (reg_u32 R_lvt_timer) LVT_MASKED s)"

section \<open>Mapping the registers\<close>

text \<open>
  Bringing up the local APIC returns on every well-formed address space and keeps it well
  formed. When it succeeds on a state that was not ready, the registers are ready at the
  mapped address and each of the 4096 bytes of the register page translates to the
  physical byte the boot data named, uncached; when it fails the state is as before. Once
  ready, a repeated call changes nothing and succeeds exactly for the same address.
\<close>

theorem lapic_init_correct:
  assumes "tree_inv m root"
  shows "\<exists>r s' m'. lapic_init root pa (s, m) = Return (r, s', m') \<and> tree_inv m' root \<and>
    (if lapic_is_ready s
     then s' = s \<and> m' = m \<and> (\<not> isl r \<longleftrightarrow> pa \<noteq> 0 \<and> pa = m_lapic_base_paddr s)
     else if isl r then s' = s
     else lapic_is_ready s' \<and> m_lapic_base_paddr s' = pa \<and> accesses s' = accesses s \<and>
       (\<forall>off < 4096. address_space m' root (m_lapic_base_vaddr s' + off) =
          Some (pa + off, effective_prot (feats m) MMIO)))"
proof (cases "lapic_is_ready s \<or> pa = 0")
  case True
  then show ?thesis using assms by (auto simp: lapic_init_def lapic_is_ready_def)
next
  case False
  obtain r m' where R: "map_mmio root pa FRAME_SIZE m = Return (r, m')" "tree_inv m' root"
      "\<not> isl r \<longrightarrow> r = Ok (MMIO_MAP_BASE + pa) \<and> unat pa < 2 ^ 39 \<and>
       (\<forall>off < 4096. address_space m' root (MMIO_MAP_BASE + pa + off) =
          Some (pa + off, effective_prot (feats m) MMIO))"
  proof -
    have f: "off < 4096 \<Longrightarrow> off < FRAME_SIZE" for off by (simp add: FRAME_SIZE_eq)
    show thesis using map_mmio_spec [OF assms, of pa FRAME_SIZE] f that by (fastforce simp: FRAME_SIZE_eq)
  qed
  have ne: "MMIO_MAP_BASE + pa \<noteq> 0" if "unat pa < 2 ^ 39"
  proof -
    have "unat (MMIO_MAP_BASE + pa) = unat MMIO_MAP_BASE + unat pa"
      using that by (subst unat_plus_small) (simp_all add: MMIO_MAP_BASE_def)
    then show ?thesis by (auto simp: MMIO_MAP_BASE_def)
  qed
  show ?thesis
    using False R ne by (cases r) (auto simp: lapic_init_def lapic_is_ready_def)
qed

section \<open>Core set-up and interprocessor interrupts\<close>

lemma lapic_write_simps [simp]:
  "m_lapic_base_vaddr (lapic_write r v s) = m_lapic_base_vaddr s"
  "accesses (lapic_write r v s) = accesses s @ [Wr (reg_address s r) v]"
  "reg_address (lapic_write r v s) = reg_address s"
  by (simp_all add: lapic_write_def reg_address_def fun_eq_iff)

lemma lapic_read_simps [simp]:
  "m_lapic_base_vaddr (snd (lapic_read dev r s)) = m_lapic_base_vaddr s"
  "reg_address (snd (lapic_read dev r s)) = reg_address s"
  by (simp_all add: lapic_read_def reg_address_def fun_eq_iff)

lemma lapic_read_eq:
  "lapic_read dev r s = (dev (accesses s) (reg_address s r), s\<lparr>accesses := accesses s @ [Rd (reg_address s r)]\<rparr>)"
  "reg_address (s\<lparr>accesses := t\<rparr>) = reg_address s"
  by (simp_all add: lapic_read_def reg_address_def fun_eq_iff)

text \<open>
  Setting up a core that is ready performs exactly the register accesses of the statement,
  in order. The value written to the logical destination register has its top eight bits, the
  logical identifier, cleared and the reserved bit 0 set, whatever the register held: in the
  flat model just selected the core belongs to no logical destination.
\<close>

lemma init_core_accesses:
  assumes "lapic_is_ready s"
  shows "\<exists>v s'. init_core dev s = (Ok (), s') \<and>
    (let at = (\<lambda>r. reg_address s (reg_u32 r))
     in accesses s' = accesses s @
          [Wr (at R_tpr) 0, Wr (at R_dfr) 0xFFFFFFFF, Rd (at R_ldr), Wr (at R_ldr) v,
           Wr (at R_lvt_lint0) LVT_MASKED, Wr (at R_lvt_lint1) LVT_MASKED, Wr (at R_lvt_perf) LVT_MASKED,
           Wr (at R_lvt_thermal) LVT_MASKED, Wr (at R_lvt_error) 0xFE, Wr (at R_esr) 0, Wr (at R_esr) 0,
           Wr (at R_svr) 0x1FF, Wr (at R_eoi) 0]) \<and>
    drop_bit 24 v = 0 \<and> bit v 0"
proof -
  let ?t = "accesses s @ [Wr (reg_address s (reg_u32 R_tpr)) 0, Wr (reg_address s (reg_u32 R_dfr)) 0xFFFFFFFF]"
  let ?v = "(dev ?t (reg_address s (reg_u32 R_ldr)) AND 0x00FFFFFF) OR 1"
  have m: "(0x00FFFFFF :: u32) = mask 24" by (simp add: mask_eq_exp_minus_1)
  have one: "drop_bit 24 (1 :: u32) = 0" by simp
  have "drop_bit 24 (mask 24 :: u32) = 0" by (simp add: mask_eq_exp_minus_1)
  then have "drop_bit 24 ?v = 0" unfolding m by (simp only: drop_bit_or drop_bit_and one and_zero_eq or.right_neutral)
  moreover have "bit ?v 0" by (simp add: bit_or_iff)
  moreover have "SVR_APIC_ENABLE OR ucast SPURIOUS_INTERRUPT_VECTOR = 0x1FF"
    by (simp add: SVR_APIC_ENABLE_def SPURIOUS_INTERRUPT_VECTOR_def)
  ultimately show ?thesis
    using assms unfolding init_core_def lapic_is_ready_def
    by (intro exI [of _ ?v]) (simp add: lapic_read_eq eoi_def del: reg_u32.simps)
qed

text \<open>The state after \<open>n\<close> unsuccessful polls of the delivery bit.\<close>

definition polled :: "nat \<Rightarrow> lapic_state \<Rightarrow> lapic_state" where
  "polled n s = s\<lparr>accesses := accesses s @ replicate n (Rd (reg_address s (reg_u32 R_icr_low)))\<rparr>"

definition icr_pending :: "device \<Rightarrow> lapic_state \<Rightarrow> bool" where
  "icr_pending dev s \<longleftrightarrow> dev (accesses s) (reg_address s (reg_u32 R_icr_low)) AND ICR_STATUS_PENDING \<noteq> 0"

lemma wait_step:
  "wait_delivered dev s = (if icr_pending dev s then wait_delivered dev (polled 1 s) else Some (polled 1 s))"
  by (subst wait_delivered.simps) (simp add: lapic_read_def icr_pending_def polled_def del: reg_u32.simps)

lemma polled_polled: "polled n (polled m s) = polled (m + n) s" "polled 0 s = s"
  by (simp_all add: polled_def lapic_read_eq replicate_add)

lemma wait_delivered_returns:
  "\<not> icr_pending dev (polled n s) \<Longrightarrow> \<exists>k \<le> n. wait_delivered dev s = Some (polled (Suc k) s)"
proof (induction n arbitrary: s)
  case 0
  then show ?case by (simp add: wait_step polled_polled)
next
  case (Suc n)
  show ?case
  proof (cases "icr_pending dev s")
    case False
    then show ?thesis by (intro exI [of _ 0]) (simp add: wait_step)
  next
    case True
    have "\<not> icr_pending dev (polled n (polled 1 s))" using Suc.prems by (simp add: polled_polled)
    from Suc.IH [OF this] obtain k where "k \<le> n" "wait_delivered dev (polled 1 s) = Some (polled (Suc k) (polled 1 s))"
      by blast
    then show ?thesis using True wait_step [of dev s] by (intro exI [of _ "Suc k"]) (simp add: polled_polled)
  qed
qed

text \<open>The poll numbered \<open>k\<close> is the first that finds the bit clear.\<close>

definition first_clear :: "device \<Rightarrow> lapic_state \<Rightarrow> nat \<Rightarrow> bool" where
  "first_clear dev s k \<longleftrightarrow> \<not> icr_pending dev (polled k s) \<and> (\<forall>j < k. icr_pending dev (polled j s))"

lemma first_clear_0: "\<not> icr_pending dev s \<Longrightarrow> first_clear dev s 0"
  by (simp add: first_clear_def polled_polled)

lemma first_clear_Suc: "icr_pending dev s \<Longrightarrow> first_clear dev (polled 1 s) k \<Longrightarrow> first_clear dev s (Suc k)"
  by (auto simp: first_clear_def polled_polled less_Suc_eq_0_disj)

lemma wait_delivered_sound:
  assumes w: "wait_delivered dev s = Some s'"
  shows "\<exists>k. s' = polled (Suc k) s \<and> first_clear dev s k"
proof (rule wait_delivered.raw_induct
    [where P = "\<lambda>dev s s'. \<exists>k. s' = polled (Suc k) s \<and> first_clear dev s k", OF _ w])
  fix f dev s s'
  assume IH: "\<And>dev s s'. f dev s = Some s' \<Longrightarrow> \<exists>k. s' = polled (Suc k) s \<and> first_clear dev s k"
    and step: "(let (v, s) = lapic_read dev (reg_u32 R_icr_low) s
      in if v AND ICR_STATUS_PENDING \<noteq> 0 then f dev s else Some s) = Some s'"
  have eq: "(if icr_pending dev s then f dev (polled 1 s) else Some (polled 1 s)) = Some s'"
    using step by (simp add: lapic_read_def icr_pending_def polled_def del: reg_u32.simps split: if_splits)
  show "\<exists>k. s' = polled (Suc k) s \<and> first_clear dev s k"
  proof (cases "icr_pending dev s")
    case False
    then show ?thesis using eq by (intro exI [of _ 0]) (simp add: first_clear_0)
  next
    case True
    then obtain k where "s' = polled (Suc k) (polled 1 s)" "first_clear dev (polled 1 s) k"
      using eq IH [of dev "polled 1 s" s'] by auto
    then show ?thesis using first_clear_Suc [OF True] by (intro exI [of _ "Suc k"]) (simp add: polled_polled)
  qed
qed

text \<open>The state once the interrupt command has been written.\<close>

definition ipi_written :: "u32 \<Rightarrow> u32 \<Rightarrow> u32 \<Rightarrow> lapic_state \<Rightarrow> lapic_state" where
  "ipi_written dest vector flags s =
     s\<lparr>accesses := accesses s @
        [Wr (reg_address s (reg_u32 R_icr_high)) (push_bit 24 dest),
         Wr (reg_address s (reg_u32 R_icr_low)) ((vector AND 0xFF) OR flags)]\<rparr>"

lemma send_ipi_eq: "send_ipi dev dest vector flags s = wait_delivered dev (ipi_written dest vector flags s)"
  by (simp add: send_ipi_def ipi_written_def lapic_write_def lapic_read_eq del: reg_u32.simps)

text \<open>
  C40: Sending an interprocessor interrupt returns exactly when the device clears its delivery
  bit after finitely many polls. It then has written the destination, then the command, and
  has read the command register up to and including the first poll that found the bit clear,
  with no other access. On a device that never clears the bit the call never returns.
\<close>

theorem send_ipi_returns_iff:
  "(case send_ipi dev dest vector flags s of
      None \<Rightarrow> (\<forall>n. icr_pending dev (polled n (ipi_written dest vector flags s)))
    | Some s' \<Rightarrow> \<exists>k. s' = polled (Suc k) (ipi_written dest vector flags s) \<and>
        \<not> icr_pending dev (polled k (ipi_written dest vector flags s)) \<and>
        (\<forall>j < k. icr_pending dev (polled j (ipi_written dest vector flags s))))"
proof (cases "send_ipi dev dest vector flags s")
  case None
  then show ?thesis using wait_delivered_returns [of dev _ "ipi_written dest vector flags s"]
    unfolding send_ipi_eq by fastforce
next
  case (Some s')
  then show ?thesis
    using wait_delivered_sound [of dev "ipi_written dest vector flags s" s'] by (simp add: send_ipi_eq first_clear_def)
qed

text \<open>A device that is busy for two polls.\<close>

definition slow_lapic :: device where
  "slow_lapic accs a = (if length accs < 4 then ICR_STATUS_PENDING else 0)"

definition idle_lapic :: lapic_state where
  "idle_lapic = \<lparr>m_lapic_base_vaddr = 0x1000, m_lapic_base_paddr = 0, accesses = []\<rparr>"

theorem send_ipi_returns_iff_witness:
  "\<exists>s'. send_ipi slow_lapic 1 0x30 0 idle_lapic = Some s' \<and>
     accesses s' = [Wr 0x1310 0x1000000, Wr 0x1300 0x30, Rd 0x1300, Rd 0x1300, Rd 0x1300]"
proof -
  let ?w = "ipi_written 1 0x30 0 idle_lapic"
  have p: "icr_pending slow_lapic (polled n ?w) \<longleftrightarrow> n < 2" for n
    by (auto simp: icr_pending_def polled_def ipi_written_def idle_lapic_def slow_lapic_def ICR_STATUS_PENDING_def)
  have R: "case send_ipi slow_lapic 1 0x30 0 idle_lapic of
      None \<Rightarrow> (\<forall>n. icr_pending slow_lapic (polled n ?w))
    | Some s' \<Rightarrow> \<exists>k. s' = polled (Suc k) ?w \<and> \<not> icr_pending slow_lapic (polled k ?w) \<and>
        (\<forall>j < k. icr_pending slow_lapic (polled j ?w))"
    by (rule send_ipi_returns_iff)
  have two: "\<not> k < 2 \<Longrightarrow> \<forall>j < k. j < 2 \<Longrightarrow> k = 2" for k :: nat
  proof -
    assume "\<not> k < 2" "\<forall>j < k. j < 2"
    then have "\<not> 2 < k" by blast
    with \<open>\<not> k < 2\<close> show "k = 2" by simp
  qed
  obtain s' k where s': "send_ipi slow_lapic 1 0x30 0 idle_lapic = Some s'" "s' = polled (Suc k) ?w"
      "\<not> k < 2" "\<forall>j < k. j < 2"
    using R unfolding p by (auto split: option.splits)
  have "k = 2" using two s'(3,4) by blast
  then have "s' = polled 3 ?w" using s'(2) by (simp add: numeral_3_eq_3 numeral_2_eq_2)
  moreover have "accesses (polled 3 ?w) = [Wr 0x1310 0x1000000, Wr 0x1300 0x30, Rd 0x1300, Rd 0x1300, Rd 0x1300]"
    by (simp add: polled_def ipi_written_def idle_lapic_def reg_address_def numeral_3_eq_3)
  ultimately show ?thesis using s'(1) by simp
qed

end
