(* ===== verification/Runtime.thy ===== *)
theory Runtime
  imports Bytes Atomic
begin

text \<open>
  \<^verbatim>\<open>kernel/runtime\<close>: the memory routines of \<^verbatim>\<open>memory.cpp\<close> on a byte memory, the guard of
  function-local static variables of \<^verbatim>\<open>cxx_abi.cpp\<close>, and the constructor tables of
  \<^verbatim>\<open>init.cpp\<close>. Addresses are 64-bit words; the routines return the destination pointer.
\<close>

section \<open>Memory routines\<close>

definition byte_of_i32 :: "u32 \<Rightarrow> u8" where "byte_of_i32 v = ucast v"

definition memset :: "u64 \<Rightarrow> u32 \<Rightarrow> nat \<Rightarrow> memory \<Rightarrow> u64 \<times> memory" where
  "memset dest v count mem =
     (dest, fold (\<lambda>i mem. mem(dest + of_nat i := byte_of_i32 v)) [0..<count] mem)"

definition copy_byte :: "u64 \<Rightarrow> u64 \<Rightarrow> nat \<Rightarrow> memory \<Rightarrow> memory" where
  "copy_byte d s i mem = mem(d + of_nat i := mem (s + of_nat i))"

definition copy_forward :: "u64 \<Rightarrow> u64 \<Rightarrow> nat \<Rightarrow> memory \<Rightarrow> memory" where
  "copy_forward d s count mem = fold (copy_byte d s) [0..<count] mem"

definition copy_backward :: "u64 \<Rightarrow> u64 \<Rightarrow> nat \<Rightarrow> memory \<Rightarrow> memory" where
  "copy_backward d s count mem = fold (copy_byte d s) (rev [0..<count]) mem"

definition memcpy :: "u64 \<Rightarrow> u64 \<Rightarrow> nat \<Rightarrow> memory \<Rightarrow> u64 \<times> memory" where
  "memcpy dest src count mem = (dest, copy_forward dest src count mem)"

definition memmove :: "u64 \<Rightarrow> u64 \<Rightarrow> nat \<Rightarrow> memory \<Rightarrow> u64 \<times> memory" where
  "memmove dest src count mem =
     (if dest = src \<or> count = 0 then (dest, mem)
      else if dest < src then (dest, copy_forward dest src count mem)
      else (dest, copy_backward dest src count mem))"

fun memcmp_loop :: "memory \<Rightarrow> u64 \<Rightarrow> u64 \<Rightarrow> nat \<Rightarrow> int" where
  "memcmp_loop mem a b 0 = 0"
| "memcmp_loop mem a b (Suc count) =
     (if mem a \<noteq> mem b then int (unat (mem a)) - int (unat (mem b))
      else memcmp_loop mem (a + 1) (b + 1) count)"

definition memcmp :: "u64 \<Rightarrow> u64 \<Rightarrow> nat \<Rightarrow> memory \<Rightarrow> int" where
  "memcmp lhs rhs count mem = memcmp_loop mem lhs rhs count"

section \<open>Constructor tables\<close>

definition call_global_constructors :: "('s \<Rightarrow> 's) list \<Rightarrow> 's \<Rightarrow> 's" where
  "call_global_constructors init_array = fold (\<lambda>f. f) init_array"

definition call_global_destructors :: "('s \<Rightarrow> 's) list \<Rightarrow> 's \<Rightarrow> 's" where
  "call_global_destructors fini_array = fold (\<lambda>f. f) (rev fini_array)"

definition cxa_pure_virtual :: "'a outcome" where "cxa_pure_virtual = Panic ''pure virtual function called''"
definition cxa_deleted_virtual :: "'a outcome" where
  "cxa_deleted_virtual = Panic ''deleted virtual function called''"

section \<open>What the memory routines do\<close>

text \<open>Memory with the \<open>n\<close> bytes at \<open>d\<close> replaced by the ones at \<open>s\<close> in the old memory.\<close>

definition moved :: "u64 \<Rightarrow> u64 \<Rightarrow> nat \<Rightarrow> memory \<Rightarrow> memory" where
  "moved d s n mem = (\<lambda>a. if unat (a - d) < n then mem (s + (a - d)) else mem a)"

lemma offset_eq:
  assumes "n < 2 ^ 64"
  shows "unat (a - d :: u64) = n \<longleftrightarrow> a = d + of_nat n"
proof
  assume "unat (a - d) = n"
  then have "of_nat n = a - d" by (metis of_nat_unat ucast_id)
  then show "a = d + of_nat n" by simp
qed (use assms in \<open>simp add: unat_of_nat_small\<close>)

lemma moved_Suc:
  assumes "n < 2 ^ 64"
  shows "moved d s (Suc n) mem = (moved d s n mem)(d + of_nat n := mem (s + of_nat n))"
  using offset_eq [OF assms, of _ d] by (auto simp: moved_def less_Suc_eq fun_eq_iff)

lemma offset_outside:
  fixes d s :: u64
  assumes "unat d + n \<le> 2 ^ 64" "unat s + n \<le> 2 ^ 64" "k < n" "d \<le> s \<or> unat s + n \<le> unat d"
  shows "k \<le> unat (s + of_nat k - d)"
proof -
  have u: "unat (s + of_nat k) = unat s + k"
    using assms(2,3) by (subst unat_plus_small) (simp_all add: unat_of_nat_small)
  show ?thesis
    using assms u unsigned_less [of d] by (auto simp: unat_sub_if_size word_size word_le_nat_alt)
qed

lemma copy_forward_moved:
  assumes "unat d + n \<le> 2 ^ 64" "unat s + n \<le> 2 ^ 64" "d \<le> s \<or> unat s + n \<le> unat d" "k \<le> n" "n < 2 ^ 64"
  shows "copy_forward d s k mem = moved d s k mem"
  using assms(4)
proof (induction k)
  case 0
  show ?case by (simp add: copy_forward_def moved_def)
next
  case (Suc k)
  have "k \<le> unat (s + of_nat k - d)" using offset_outside [OF assms(1,2) _ assms(3), of k] Suc.prems by simp
  then have "moved d s k mem (s + of_nat k) = mem (s + of_nat k)" by (simp add: moved_def)
  moreover have "copy_forward d s (Suc k) mem = copy_byte d s k (copy_forward d s k mem)"
    by (simp add: copy_forward_def)
  ultimately show ?case using Suc assms(5) by (simp add: copy_byte_def moved_Suc)
qed

lemma copy_backward_moved:
  assumes "unat d + n \<le> 2 ^ 64" "s \<le> d" "n < 2 ^ 64"
  shows "copy_backward d s n mem = moved d s n mem"
  using assms
proof (induction n arbitrary: mem)
  case 0
  show ?case by (simp add: copy_backward_def moved_def)
next
  case (Suc n)
  let ?mem = "copy_byte d s n mem"
  have "moved d s n ?mem = moved d s (Suc n) mem"
  proof
    fix a
    have dn: "unat (d + of_nat n) = unat d + n"
      using Suc.prems by (subst unat_plus_small) (simp_all add: unat_of_nat_small)
    have "s + (a - d) \<noteq> d + of_nat n" if lt: "unat (a - d) < n"
    proof -
      have "unat (s + (a - d)) = unat s + unat (a - d)"
        using Suc.prems lt by (subst unat_plus_small) (simp_all add: word_le_nat_alt)
      then show ?thesis using dn lt Suc.prems(2) by (auto simp: word_le_nat_alt word_unat_eq_iff)
    qed
    moreover have "n < 2 ^ 64" using Suc.prems by simp
    ultimately show "moved d s n ?mem a = moved d s (Suc n) mem a"
      using offset_eq [of n a d]
      by (cases "unat (a - d) < n") (auto simp: moved_def copy_byte_def less_Suc_eq)
  qed
  then show ?case using Suc.IH [of ?mem] Suc.prems by (simp add: copy_backward_def)
qed

lemma memset_spec:
  assumes "n < 2 ^ 64"
  shows "snd (memset d v n mem) = (\<lambda>a. if unat (a - d) < n then ucast v else mem a)"
proof -
  have "k \<le> n \<Longrightarrow> fold (\<lambda>i mem. mem(d + of_nat i := byte_of_i32 v)) [0..<k] mem =
      (\<lambda>a. if unat (a - d) < k then ucast v else mem a)" for k
  proof (induction k)
    case (Suc k)
    then have "k < 2 ^ 64" using assms by simp
    then show ?case
      using Suc offset_eq [of k _ d] by (auto simp: byte_of_i32_def less_Suc_eq fun_eq_iff)
  qed simp
  then show ?thesis by (simp add: memset_def)
qed

text \<open>
  C37: \<^verbatim>\<open>memmove\<close> copies the bytes the source held before the call, however the two regions
  overlap, and changes nothing else; \<^verbatim>\<open>memcpy\<close> does the same when the destination does not
  start inside the source; \<^verbatim>\<open>memset\<close> writes its byte to every cell of the region. The regions
  must not wrap around the address space.
\<close>

theorem memory_routines_correct:
  assumes "unat d + n \<le> 2 ^ 64" "unat s + n \<le> 2 ^ 64" "n < 2 ^ 64"
  shows "memmove d s n mem = (d, moved d s n mem) \<and>
    (d \<le> s \<or> unat s + n \<le> unat d \<longrightarrow> memcpy d s n mem = (d, moved d s n mem)) \<and>
    snd (memset d v n mem) = (\<lambda>a. if unat (a - d) < n then ucast v else mem a)"
proof -
  consider "d = s \<or> n = 0" | "d \<noteq> s" "n \<noteq> 0" "d < s" | "d \<noteq> s" "n \<noteq> 0" "\<not> d < s" by blast
  then have "memmove d s n mem = (d, moved d s n mem)"
  proof cases
    case 1
    then have "moved d s n mem = mem" by (auto simp: moved_def)
    then show ?thesis using 1 by (auto simp: memmove_def)
  next
    case 2
    then have "d \<le> s" by simp
    then show ?thesis using 2 copy_forward_moved [of d n s n mem] assms by (simp add: memmove_def)
  next
    case 3
    then have "s \<le> d" by simp
    then show ?thesis using 3 copy_backward_moved [OF assms(1) _ assms(3)] by (simp add: memmove_def)
  qed
  moreover have "d \<le> s \<or> unat s + n \<le> unat d \<longrightarrow> memcpy d s n mem = (d, moved d s n mem)"
    using copy_forward_moved [of d n s n mem] assms by (auto simp: memcpy_def)
  ultimately show ?thesis using memset_spec [OF assms(3)] by simp
qed

theorem memory_routines_correct_witness:
  "snd (memmove 0x1001 0x1000 3 (\<lambda>a. ucast a)) 0x1003 = 2"
proof -
  have "memmove 0x1001 0x1000 3 (\<lambda>a. ucast a) = (0x1001, moved 0x1001 0x1000 3 (\<lambda>a. ucast a))"
    using memory_routines_correct [of "0x1001" 3 "0x1000" "\<lambda>a. ucast a"] by simp
  then show ?thesis by (simp add: moved_def)
qed

lemma memcmp_loop_zero: "memcmp_loop mem a b n = 0 \<longleftrightarrow> bytes_at mem a n = bytes_at mem b n"
proof (induction n arbitrary: a b)
  case 0
  show ?case by (simp add: bytes_at_def)
next
  case (Suc n)
  have "bytes_at mem c (Suc n) = mem c # bytes_at mem (c + 1) n" for c
    unfolding bytes_at_def by (simp add: upt_conv_Cons map_Suc_upt [symmetric] add.assoc [symmetric] del: upt_Suc)
  moreover have "int (unat (mem a)) = int (unat (mem b)) \<longleftrightarrow> mem a = mem b" by (simp only: of_nat_eq_iff word_unat_eq_iff)
  ultimately show ?case using Suc by auto
qed

lemma memcmp_zero_iff: "memcmp a b n mem = 0 \<longleftrightarrow> bytes_at mem a n = bytes_at mem b n"
  by (simp add: memcmp_def memcmp_loop_zero)

section \<open>The guard of a static variable\<close>

definition INITIALIZED :: u64 where "INITIALIZED = push_bit 0 1"
definition IN_USE :: u64 where "IN_USE = push_bit 8 1"

text \<open>
  The first test of \<^verbatim>\<open>__cxa_guard_acquire\<close>, one turn of its loop, and the two ways to leave
  the section. A turn ends with \<open>Some True\<close> (the caller initialises), \<open>Some False\<close> (already
  done) or \<open>None\<close> (wait and try again).
\<close>

definition guard_loaded :: "u64 \<Rightarrow> bool" where
  "guard_loaded g = (case ref_load ACQUIRE g of None \<Rightarrow> False | Some v \<Rightarrow> v AND INITIALIZED \<noteq> 0)"

definition guard_turn :: "u64 \<Rightarrow> bool option \<times> u64" where
  "guard_turn g =
     (case ref_compare_exchange_gen False 0 IN_USE ACQ_REL ACQUIRE g of
        None \<Rightarrow> (None, g)
      | Some (True, _, g) \<Rightarrow> (Some True, g)
      | Some (False, expected, g) \<Rightarrow> (if expected AND INITIALIZED \<noteq> 0 then Some False else None, g))"

definition cxa_guard_release :: "u64 \<Rightarrow> u64" where
  "cxa_guard_release g = (case ref_store INITIALIZED RELEASE g of None \<Rightarrow> g | Some g \<Rightarrow> g)"

definition cxa_guard_abort :: "u64 \<Rightarrow> u64" where
  "cxa_guard_abort g = (case ref_store 0 RELEASE g of None \<Rightarrow> g | Some g \<Rightarrow> g)"


lemma guard_constants: "INITIALIZED = 1" "IN_USE = 256"
  by (simp_all add: INITIALIZED_def IN_USE_def)

lemma guard_ops [simp]:
  "guard_loaded g \<longleftrightarrow> g AND 1 \<noteq> 0" "cxa_guard_release g = 1" "cxa_guard_abort g = 0"
  by (simp_all add: guard_loaded_def cxa_guard_release_def cxa_guard_abort_def ref_load_def ref_store_def
      atomic_defs guard_constants)

lemma guard_turn_cases [simp]:
  "guard_turn 0 = (Some True, 256)" "guard_turn 256 = (None, 256)" "guard_turn 1 = (Some False, 1)"
  by (simp_all add: guard_turn_def ref_compare_exchange_gen_def atomic_defs guard_constants failure_too_strong_def)

text \<open>
  Where a processor stands that reaches the static variable: it has called the guard, is in its
  loop, runs the initialiser, or goes on with the variable.
\<close>

datatype guard_place = Away | Entered | Looping | Initialising | Using

record guard_system =
  guard :: u64
  spot :: "nat \<Rightarrow> guard_place"
  constructed :: nat

definition go :: "nat \<Rightarrow> guard_place \<Rightarrow> guard_system \<Rightarrow> guard_system" where
  "go t pl s = s\<lparr>spot := (spot s)(t := pl)\<rparr>"

inductive guard_step :: "guard_system \<Rightarrow> guard_system \<Rightarrow> bool" where
  call: "spot s t = Away \<Longrightarrow> guard_step s (go t Entered s)"
| fast: "spot s t = Entered \<Longrightarrow> guard_loaded (guard s) \<Longrightarrow> guard_step s (go t Using s)"
| slow: "spot s t = Entered \<Longrightarrow> \<not> guard_loaded (guard s) \<Longrightarrow> guard_step s (go t Looping s)"
| won: "spot s t = Looping \<Longrightarrow> guard_turn (guard s) = (Some True, g) \<Longrightarrow>
    guard_step s (go t Initialising (s\<lparr>guard := g\<rparr>))"
| late: "spot s t = Looping \<Longrightarrow> guard_turn (guard s) = (Some False, g) \<Longrightarrow>
    guard_step s (go t Using (s\<lparr>guard := g\<rparr>))"
| again: "spot s t = Looping \<Longrightarrow> guard_turn (guard s) = (None, g) \<Longrightarrow> guard_step s (s\<lparr>guard := g\<rparr>)"
| finish: "spot s t = Initialising \<Longrightarrow>
    guard_step s (go t Using (s\<lparr>guard := cxa_guard_release (guard s), constructed := constructed s + 1\<rparr>))"
| failed: "spot s t = Initialising \<Longrightarrow>
    guard_step s (go t Away (s\<lparr>guard := cxa_guard_abort (guard s)\<rparr>))"

inductive_cases guard_stepE: "guard_step s s'"

definition guard_start :: guard_system where
  "guard_start = \<lparr>guard = 0, spot = (\<lambda>_. Away), constructed = 0\<rparr>"

inductive guard_reach :: "guard_system \<Rightarrow> bool" where
  start: "guard_reach guard_start"
| step: "guard_reach s \<Longrightarrow> guard_step s s' \<Longrightarrow> guard_reach s'"

definition guard_inv :: "guard_system \<Rightarrow> bool" where
  "guard_inv s \<longleftrightarrow>
     guard s \<in> {0, 1, 256} \<and> constructed s = (if guard s = 1 then 1 else 0) \<and>
     (\<forall>t. spot s t = Using \<longrightarrow> guard s = 1) \<and> (\<forall>t. spot s t = Initialising \<longrightarrow> guard s = 256) \<and>
     (\<forall>t u. spot s t = Initialising \<longrightarrow> spot s u = Initialising \<longrightarrow> t = u)"

lemma go_simps [simp]:
  "spot (go t pl s) u = (if u = t then pl else spot s u)" "guard (go t pl s) = guard s"
  "constructed (go t pl s) = constructed s"
  by (simp_all add: go_def)

lemma guard_invD:
  assumes "guard_inv s"
  shows "guard s = 0 \<or> guard s = 1 \<or> guard s = 256" "constructed s = (if guard s = 1 then 1 else 0)"
    "spot s t = Using \<Longrightarrow> guard s = 1" "spot s t = Initialising \<Longrightarrow> guard s = 256"
    "spot s t = Initialising \<Longrightarrow> spot s u = Initialising \<Longrightarrow> t = u"
  using assms by (auto simp: guard_inv_def)

lemma guard_inv_step:
  assumes inv: "guard_inv s" and "guard_step s s'"
  shows "guard_inv s'"
  using assms(2)
proof (cases rule: guard_step.cases)
  case (call t)
  then show ?thesis using inv by (auto simp: guard_inv_def)
next
  case (fast t)
  then have "guard s = 1" using guard_invD(1) [OF inv] by auto
  then show ?thesis using fast inv by (simp add: guard_inv_def)
next
  case (slow t)
  then show ?thesis using inv by (auto simp: guard_inv_def)
next
  case (won t g)
  then have "guard s = 0" "g = 256" using guard_invD(1) [OF inv] by auto
  then show ?thesis using won guard_invD(2-4) [OF inv] by (fastforce simp: guard_inv_def)
next
  case (late t g)
  then have "guard s = 1" "g = 1" using guard_invD(1) [OF inv] by auto
  then show ?thesis using late inv by (simp add: guard_inv_def)
next
  case (again t g)
  then have "g = guard s" using guard_invD(1) [OF inv] by auto
  then show ?thesis using again inv by simp
next
  case (finish t)
  then show ?thesis using guard_invD(2,4,5) [OF inv] by (fastforce simp: guard_inv_def)
next
  case (failed t)
  then show ?thesis using guard_invD(2-5) [OF inv] by (fastforce simp: guard_inv_def)
qed

lemma guard_reach_inv: "guard_reach s \<Longrightarrow> guard_inv s"
proof (induction rule: guard_reach.induct)
  case start
  show ?case by (simp add: guard_inv_def guard_start_def)
next
  case (step s s')
  then show ?case by (blast intro: guard_inv_step)
qed

text \<open>
  C26: Of any number of processors that reach a function-local static variable, in any
  interleaving, at most one at a time runs its initialiser, the initialiser completes at
  most once, and whoever goes on to use the variable finds it completely constructed, with
  nobody still initialising it; a failed attempt leaves the variable to the next one.
\<close>

theorem static_initialised_once:
  assumes "guard_reach s"
  shows "constructed s \<le> 1 \<and>
    (\<forall>t u. spot s t = Initialising \<longrightarrow> spot s u = Initialising \<longrightarrow> t = u) \<and>
    (\<forall>t. spot s t = Using \<longrightarrow> constructed s = 1 \<and> (\<forall>u. spot s u \<noteq> Initialising)) \<and>
    (guard s = INITIALIZED \<longleftrightarrow> constructed s = 1)"
  using guard_invD [OF guard_reach_inv [OF assms]] unfolding guard_constants by fastforce

theorem static_initialised_once_witness:
  "constructed (go 3 Entered guard_start) \<le> 1 \<and> (guard (go 3 Entered guard_start) = INITIALIZED \<longleftrightarrow> False)"
proof -
  have "guard_reach (go 3 Entered guard_start)"
    by (rule guard_reach.step [OF guard_reach.start], rule guard_step.call) (simp add: guard_start_def)
  from static_initialised_once [OF this] show ?thesis by (simp add: guard_start_def)
qed

end
