(* ===== verification/Posix_Files.thy ===== *)
theory Posix_Files
  imports Runtime Format Boot_Info Mmu
begin

text \<open>
  \<^verbatim>\<open>kernel/fs/posix/stub_impl.cpp\<close>: the file calls the application links against. The files are
  the modules the boot loader placed in memory, found by their command line; standard
  output and error are the console. Buffers, vectors and result structures lie in a byte
  memory; 0 is the null pointer; \<^verbatim>\<open>int\<close> is an integer, \<^verbatim>\<open>ssize_t\<close> and \<^verbatim>\<open>off_t\<close> are 64-bit
  words read as signed.
\<close>

section \<open>ABI constants and state\<close>

definition EPERM :: int where "EPERM = 1"
definition ENOENT :: int where "ENOENT = 2"
definition EIO :: int where "EIO = 5"
definition EBADF :: int where "EBADF = 9"
definition ENOMEM :: int where "ENOMEM = 12"
definition EFAULT :: int where "EFAULT = 14"
definition EINVAL :: int where "EINVAL = 22"
definition EMFILE :: int where "EMFILE = 24"
definition ESPIPE :: int where "ESPIPE = 29"
definition ENOSYS :: int where "ENOSYS = 38"

definition STDIN_FILENO :: int where "STDIN_FILENO = 0"
definition STDOUT_FILENO :: int where "STDOUT_FILENO = 1"
definition STDERR_FILENO :: int where "STDERR_FILENO = 2"

definition O_WRONLY :: u32 where "O_WRONLY = 1"
definition O_RDWR :: u32 where "O_RDWR = 2"

definition SEEK_SET :: int where "SEEK_SET = 0"
definition SEEK_CUR :: int where "SEEK_CUR = 1"
definition SEEK_END :: int where "SEEK_END = 2"

definition S_IFCHR :: u32 where "S_IFCHR = 0x2000"
definition S_IFREG :: u32 where "S_IFREG = 0x8000"

definition IOV_MAX :: int where "IOV_MAX = 1024"
definition SSIZE_MAX_VALUE :: u64 where "SSIZE_MAX_VALUE = push_bit 63 1 - 1"

definition MAX_DESCRIPTORS :: int where "MAX_DESCRIPTORS = 8"
definition FIRST_FILE_DESCRIPTOR :: int where "FIRST_FILE_DESCRIPTOR = 3"

type_synonym ssize_t = "64 word"

record file_entry =
  fd_open :: bool
  fd_base :: u64
  fd_size :: u64
  fd_offset :: u64

definition closed_entry :: file_entry where
  "closed_entry = \<lparr>fd_open = False, fd_base = 0, fd_size = 0, fd_offset = 0\<rparr>"

record posix =
  m_descriptors :: "file_entry list"
  errno :: int
  pconsole :: console
  pmem :: memory

definition fail :: "int \<Rightarrow> posix \<Rightarrow> ssize_t \<times> posix" where
  "fail e p = (-1, p\<lparr>errno := e\<rparr>)"

section \<open>Helpers\<close>

definition is_console :: "int \<Rightarrow> bool" where
  "is_console fd \<longleftrightarrow> fd \<ge> 0 \<and> fd \<le> STDERR_FILENO"

definition file_descriptor :: "int \<Rightarrow> posix \<Rightarrow> file_entry option" where
  "file_descriptor fd p =
     (if fd < FIRST_FILE_DESCRIPTOR \<or> fd \<ge> MAX_DESCRIPTORS \<or> \<not> fd_open (m_descriptors p ! nat fd) then None
      else Some (m_descriptors p ! nat fd))"

definition store_entry :: "int \<Rightarrow> file_entry \<Rightarrow> posix \<Rightarrow> posix" where
  "store_entry fd e p = p\<lparr>m_descriptors := (m_descriptors p)[nat fd := e]\<rparr>"

text \<open>The loop runs while the characters are equal and not the terminator.\<close>

fun same_string :: "c_string \<Rightarrow> c_string \<Rightarrow> bool" where
  "same_string lhs rhs =
     (if char_at lhs 0 \<noteq> NUL \<and> char_at lhs 0 = char_at rhs 0
      then (case lhs of [] \<Rightarrow> True | _ # l \<Rightarrow> (case rhs of [] \<Rightarrow> False | _ # r \<Rightarrow> same_string l r))
      else char_at lhs 0 = char_at rhs 0)"

declare same_string.simps [simp del]

definition copy_bytes :: "u64 \<Rightarrow> u64 \<Rightarrow> u64 \<Rightarrow> memory \<Rightarrow> memory" where
  "copy_bytes destination source len ram = copy_forward destination source (unat len) ram"

definition iov_base :: "memory \<Rightarrow> u64 \<Rightarrow> nat \<Rightarrow> u64" where
  "iov_base ram vectors i = read64 ram (vectors + of_nat (16 * i))"

definition iov_len :: "memory \<Rightarrow> u64 \<Rightarrow> nat \<Rightarrow> u64" where
  "iov_len ram vectors i = read64 ram (vectors + of_nat (16 * i) + 8)"

text \<open>The error of the first vector that is not acceptable.\<close>

fun validate_loop :: "memory \<Rightarrow> u64 \<Rightarrow> nat \<Rightarrow> nat \<Rightarrow> u64 \<Rightarrow> int option" where
  "validate_loop ram vectors i 0 acc = None"
| "validate_loop ram vectors i (Suc n) acc =
     (if iov_base ram vectors i = 0 \<and> iov_len ram vectors i \<noteq> 0 then Some EFAULT
      else if iov_len ram vectors i > SSIZE_MAX_VALUE - acc then Some EINVAL
      else validate_loop ram vectors (i + 1) n (acc + iov_len ram vectors i))"

definition validate_iovecs :: "u64 \<Rightarrow> int \<Rightarrow> posix \<Rightarrow> int option" where
  "validate_iovecs vectors count p =
     (if count < 0 \<or> count > IOV_MAX \<or> (vectors = 0 \<and> count \<noteq> 0) then Some EINVAL
      else validate_loop (pmem p) vectors 0 (nat count) 0)"

section \<open>Calls\<close>

definition posix_write :: "int \<Rightarrow> u64 \<Rightarrow> u64 \<Rightarrow> posix \<Rightarrow> ssize_t \<times> posix" where
  "posix_write fd buffer count p =
     (if fd \<noteq> STDOUT_FILENO \<and> fd \<noteq> STDERR_FILENO then fail EBADF p
      else
        (count,
         p\<lparr>pconsole := emit_bytes
              (if buffer = 0 then None
               else Some (map char_of_byte (bytes_at (pmem p) buffer (unat count)))) (pconsole p)\<rparr>))"

text \<open>The loop of the vector calls, from vector \<open>i\<close> with \<open>n\<close> left; \<open>op\<close> is the single call.\<close>

fun vector_loop ::
    "(u64 \<Rightarrow> u64 \<Rightarrow> posix \<Rightarrow> ssize_t \<times> posix) \<Rightarrow> u64 \<Rightarrow> nat \<Rightarrow> nat \<Rightarrow> ssize_t \<Rightarrow> posix \<Rightarrow> ssize_t \<times> posix" where
  "vector_loop op vectors i 0 acc p = (acc, p)"
| "vector_loop op vectors i (Suc n) acc p =
     (let len = iov_len (pmem p) vectors i;
          (n_done, p) = op (iov_base (pmem p) vectors i) len p
      in if sint n_done < 0 then (if acc = 0 then -1 else acc, p)
         else
           let acc = acc + n_done
           in if n_done \<noteq> iov_len (pmem p) vectors i then (acc, p)
              else vector_loop op vectors (i + 1) n acc p)"

definition posix_writev :: "int \<Rightarrow> u64 \<Rightarrow> int \<Rightarrow> posix \<Rightarrow> ssize_t \<times> posix" where
  "posix_writev fd vectors count p =
     (case validate_iovecs vectors count p of
        Some e \<Rightarrow> fail e p
      | None \<Rightarrow> vector_loop (posix_write fd) vectors 0 (nat count) 0 p)"

fun first_free :: "posix \<Rightarrow> nat \<Rightarrow> nat \<Rightarrow> nat option" where
  "first_free p fd 0 = None"
| "first_free p fd (Suc n) = (if fd_open (m_descriptors p ! fd) then first_free p (fd + 1) n else Some fd)"

fun open_module :: "c_string \<Rightarrow> module_info list \<Rightarrow> posix \<Rightarrow> ssize_t \<times> posix" where
  "open_module path [] p = fail ENOENT p"
| "open_module path (m # ms) p =
     (if \<not> same_string path (m_data (mod_command_line m)) then open_module path ms p
      else
        case phy_to_vrt (r_base (mod_range m)) of
          None \<Rightarrow> fail ENOMEM p
        | Some window \<Rightarrow>
            (case first_free p (nat FIRST_FILE_DESCRIPTOR) (nat (MAX_DESCRIPTORS - FIRST_FILE_DESCRIPTOR)) of
               None \<Rightarrow> fail EMFILE p
             | Some fd \<Rightarrow>
                 (of_nat fd,
                  store_entry (int fd)
                    \<lparr>fd_open = True, fd_base = window, fd_size = r_length (mod_range m), fd_offset = 0\<rparr> p)))"

definition posix_open :: "boot_info \<Rightarrow> c_string option \<Rightarrow> u32 \<Rightarrow> posix \<Rightarrow> ssize_t \<times> posix" where
  "posix_open boot path flags p =
     (case path of
        None \<Rightarrow> fail EINVAL p
      | Some path \<Rightarrow>
          if flags AND O_WRONLY \<noteq> 0 \<or> flags AND O_RDWR \<noteq> 0 then fail EINVAL p
          else open_module path (v_contents (modules boot)) p)"

definition posix_read :: "int \<Rightarrow> u64 \<Rightarrow> u64 \<Rightarrow> posix \<Rightarrow> ssize_t \<times> posix" where
  "posix_read fd buffer count p =
     (if is_console fd then (if fd = STDIN_FILENO then (0, p) else fail EBADF p)
      else
        case file_descriptor fd p of
          None \<Rightarrow> fail EBADF p
        | Some entry \<Rightarrow>
            let remaining = fd_size entry - fd_offset entry;
                len = (if count < remaining then count else remaining);
                p = p\<lparr>pmem := copy_bytes buffer (fd_base entry + fd_offset entry) len (pmem p)\<rparr>
            in (len, store_entry fd (entry\<lparr>fd_offset := fd_offset entry + len\<rparr>) p))"

definition posix_readv :: "int \<Rightarrow> u64 \<Rightarrow> int \<Rightarrow> posix \<Rightarrow> ssize_t \<times> posix" where
  "posix_readv fd vectors count p =
     (case validate_iovecs vectors count p of
        Some e \<Rightarrow> fail e p
      | None \<Rightarrow> vector_loop (posix_read fd) vectors 0 (nat count) 0 p)"

definition posix_lseek :: "int \<Rightarrow> ssize_t \<Rightarrow> int \<Rightarrow> posix \<Rightarrow> ssize_t \<times> posix" where
  "posix_lseek fd off whence p =
     (case file_descriptor fd p of
        None \<Rightarrow> fail (if is_console fd then ESPIPE else EBADF) p
      | Some entry \<Rightarrow>
          if whence \<noteq> SEEK_CUR \<and> whence \<noteq> SEEK_END \<and> whence \<noteq> SEEK_SET then fail EINVAL p
          else
            let target = (if whence = SEEK_CUR then off + fd_offset entry
                          else if whence = SEEK_END then off + fd_size entry else off)
            in if sint target < 0 \<or> target > fd_size entry then fail EINVAL p
               else (target, store_entry fd (entry\<lparr>fd_offset := target\<rparr>) p))"

definition posix_close :: "int \<Rightarrow> posix \<Rightarrow> ssize_t \<times> posix" where
  "posix_close fd p =
     (case file_descriptor fd p of
        None \<Rightarrow> fail EBADF p
      | Some _ \<Rightarrow> (0, store_entry fd closed_entry p))"

text \<open>The fields \<^verbatim>\<open>mode\<close> at offset 24 and \<^verbatim>\<open>size\<close> at offset 48, little-endian.\<close>

fun write_le :: "u64 \<Rightarrow> nat \<Rightarrow> u64 \<Rightarrow> memory \<Rightarrow> memory" where
  "write_le a 0 v ram = ram"
| "write_le a (Suc n) v ram = write_le (a + 1) n (drop_bit 8 v) (ram(a := ucast v))"

definition stat_fill :: "u64 \<Rightarrow> u32 \<Rightarrow> u64 \<Rightarrow> memory \<Rightarrow> memory" where
  "stat_fill out mode sz ram = write_le (out + 48) 8 sz (write_le (out + 24) 4 (ucast mode) ram)"

definition posix_fstat :: "int \<Rightarrow> u64 \<Rightarrow> posix \<Rightarrow> ssize_t \<times> posix" where
  "posix_fstat fd out p =
     (if out = 0 then fail EINVAL p
      else if is_console fd then (0, p\<lparr>pmem := stat_fill out S_IFCHR 0 (pmem p)\<rparr>)
      else
        case file_descriptor fd p of
          None \<Rightarrow> fail EBADF p
        | Some entry \<Rightarrow> (0, p\<lparr>pmem := stat_fill out S_IFREG (fd_size entry) (pmem p)\<rparr>))"

end
