(* ===== verification/Posix_Correct.thy ===== *)
theory Posix_Correct
  imports Posix_Files
begin

text \<open>
  What the file calls promise: the descriptor table stays well formed under every sequence of
  calls, sequential reads deliver a module's bytes in order, and a vectored write is one
  write of the concatenation.
\<close>

section \<open>The descriptor table\<close>

definition posix_inv :: "posix \<Rightarrow> bool" where
  "posix_inv p \<longleftrightarrow>
     length (m_descriptors p) = 8 \<and> (\<forall>i < 3. \<not> fd_open (m_descriptors p ! i)) \<and>
     (\<forall>e \<in> set (m_descriptors p). fd_open e \<longrightarrow> fd_offset e \<le> fd_size e)"

definition posix_start :: "memory \<Rightarrow> console \<Rightarrow> posix" where
  "posix_start ram con =
     \<lparr>m_descriptors = replicate 8 closed_entry, errno = 0, pconsole = con, pmem = ram\<rparr>"

datatype posix_call =
  Call_write int u64 u64
| Call_writev int u64 int
| Call_open "c_string option" u32
| Call_read int u64 u64
| Call_readv int u64 int
| Call_lseek int ssize_t int
| Call_close int
| Call_fstat int u64

fun run_call :: "boot_info \<Rightarrow> posix_call \<Rightarrow> posix \<Rightarrow> ssize_t \<times> posix" where
  "run_call boot (Call_write fd buf n) = posix_write fd buf n"
| "run_call boot (Call_writev fd v n) = posix_writev fd v n"
| "run_call boot (Call_open path flags) = posix_open boot path flags"
| "run_call boot (Call_read fd buf n) = posix_read fd buf n"
| "run_call boot (Call_readv fd v n) = posix_readv fd v n"
| "run_call boot (Call_lseek fd off whence) = posix_lseek fd off whence"
| "run_call boot (Call_close fd) = posix_close fd"
| "run_call boot (Call_fstat fd out) = posix_fstat fd out"

definition posix_session :: "boot_info \<Rightarrow> posix_call list \<Rightarrow> posix \<Rightarrow> posix" where
  "posix_session boot calls p = fold (\<lambda>c p. snd (run_call boot c p)) calls p"

lemma posix_inv_frame [simp]:
  "posix_inv (p\<lparr>errno := n\<rparr>) = posix_inv p" "posix_inv (p\<lparr>pconsole := c\<rparr>) = posix_inv p"
  "posix_inv (p\<lparr>pmem := ram\<rparr>) = posix_inv p" "posix_inv (snd (fail e p)) = posix_inv p"
  by (simp_all add: posix_inv_def fail_def)

lemma store_entry_simps [simp]:
  "m_descriptors (store_entry fd e p) = (m_descriptors p)[nat fd := e]"
  "pmem (store_entry fd e p) = pmem p" "pconsole (store_entry fd e p) = pconsole p" "errno (store_entry fd e p) = errno p"
  by (simp_all add: store_entry_def)

lemma fail_simps [simp]: "fst (fail e p) = -1" "m_descriptors (snd (fail e p)) = m_descriptors p"
  by (simp_all add: fail_def)

lemma posix_inv_set:
  assumes "posix_inv p" "3 \<le> i" "i < 8" "fd_open e \<longrightarrow> fd_offset e \<le> fd_size e"
  shows "posix_inv (p\<lparr>m_descriptors := (m_descriptors p)[i := e]\<rparr>)"
proof -
  have "fd_open x \<longrightarrow> fd_offset x \<le> fd_size x" if "x \<in> set ((m_descriptors p)[i := e])" for x
    using that assms(1,4) set_update_subset_insert [of "m_descriptors p" i e] by (auto simp: posix_inv_def)
  then show ?thesis using assms(1-3) by (simp add: posix_inv_def nth_list_update)
qed

lemma posix_inv_store:
  assumes "posix_inv p" "3 \<le> fd" "fd < 8" "fd_open e \<longrightarrow> fd_offset e \<le> fd_size e"
  shows "posix_inv (store_entry fd e p)"
  unfolding store_entry_def using assms by (intro posix_inv_set) auto

lemma file_descriptorD:
  assumes "file_descriptor fd p = Some e"
  shows "3 \<le> fd" "fd < 8" "fd_open e" "e = m_descriptors p ! nat fd"
  using assms by (auto simp: file_descriptor_def FIRST_FILE_DESCRIPTOR_def MAX_DESCRIPTORS_def split: if_splits)

lemma file_descriptor_offset:
  assumes "posix_inv p" "file_descriptor fd p = Some e"
  shows "fd_offset e \<le> fd_size e"
  using file_descriptorD [OF assms(2)] assms(1) nth_mem [of "nat fd" "m_descriptors p"]
  by (auto simp: posix_inv_def)

definition read_len :: "file_entry \<Rightarrow> u64 \<Rightarrow> u64" where
  "read_len e n = (if n < fd_size e - fd_offset e then n else fd_size e - fd_offset e)"

lemma read_length:
  assumes "fd_offset e \<le> fd_size e"
  shows "unat (read_len e n) = min (unat n) (unat (fd_size e) - unat (fd_offset e))"
    "unat (fd_offset e + read_len e n) = unat (fd_offset e) + unat (read_len e n)"
    "fd_offset e + read_len e n \<le> fd_size e"
proof -
  show l: "unat (read_len e n) = min (unat n) (unat (fd_size e) - unat (fd_offset e))"
    using unat_minus_le [OF assms] by (simp add: read_len_def word_less_nat_alt min_def)
  have le: "unat (fd_offset e) \<le> unat (fd_size e)" using assms by (simp add: word_le_nat_alt)
  have "unat (fd_size e) < 2 ^ 64" using unsigned_less [of "fd_size e"] by simp
  then show o: "unat (fd_offset e + read_len e n) = unat (fd_offset e) + unat (read_len e n)"
    using l le by (intro unat_plus_small) simp
  show "fd_offset e + read_len e n \<le> fd_size e" using o l le by (simp add: word_le_nat_alt)
qed

lemma read_inv: "posix_inv p \<Longrightarrow> posix_inv (snd (posix_read fd buf n p))"
proof -
  assume inv: "posix_inv p"
  show ?thesis
  proof (cases "is_console fd \<or> file_descriptor fd p = None")
    case True
    then show ?thesis using inv by (auto simp: posix_read_def)
  next
    case False
    then obtain e where e: "file_descriptor fd p = Some e" by blast
    note len = read_length [OF file_descriptor_offset [OF inv e], of n]
    show ?thesis
      using len False e file_descriptorD [OF e] inv
      by (auto simp: posix_read_def Let_def read_len_def [symmetric] intro!: posix_inv_store)
  qed
qed

lemma vector_loop_inv:
  assumes "\<And>b n p. posix_inv p \<Longrightarrow> posix_inv (snd (op b n p))"
  shows "posix_inv p \<Longrightarrow> posix_inv (snd (vector_loop op vectors i n acc p))"
proof (induction n arbitrary: i acc p)
  case (Suc n)
  obtain d p' where d: "op (iov_base (pmem p) vectors i) (iov_len (pmem p) vectors i) p = (d, p')" by force
  then have "posix_inv p'" using assms [OF Suc.prems] by (metis snd_conv)
  then show ?case using Suc.IH by (simp add: d Let_def)
qed simp

lemma first_free_bounds: "first_free p fd n = Some k \<Longrightarrow> fd \<le> k \<and> k < fd + n"
  by (induction n arbitrary: fd) (fastforce split: if_splits)+

lemma open_inv: "posix_inv p \<Longrightarrow> posix_inv (snd (open_module path ms p))"
proof (induction ms)
  case (Cons m ms)
  show ?case
  proof (cases "same_string path (m_data (mod_command_line m))")
    case True
    then show ?thesis
      using Cons.prems
      by (auto simp: FIRST_FILE_DESCRIPTOR_def MAX_DESCRIPTORS_def split: option.splits
          dest!: first_free_bounds intro!: posix_inv_store)
  qed (use Cons in simp)
qed simp

lemma run_call_inv: "posix_inv p \<Longrightarrow> posix_inv (snd (run_call boot c p))"
proof (cases c)
  case (Call_writev fd v n)
  have "posix_inv p \<Longrightarrow> posix_inv (snd (posix_write fd b k p))" for b k p
    by (simp add: posix_write_def)
  then show "posix_inv p \<Longrightarrow> posix_inv (snd (run_call boot c p))"
    using Call_writev by (auto simp: posix_writev_def split: option.splits intro!: vector_loop_inv)
next
  case (Call_lseek fd off whence)
  show ?thesis if "posix_inv p"
  proof (cases "file_descriptor fd p")
    case (Some e)
    then show ?thesis
      using that Call_lseek file_descriptorD [OF Some]
      by (auto simp: posix_lseek_def Let_def not_less intro!: posix_inv_store)
  qed (use that Call_lseek in \<open>simp add: posix_lseek_def\<close>)
next
  case (Call_close fd)
  show ?thesis if "posix_inv p"
    using that Call_close file_descriptorD [of fd p]
    by (auto simp: posix_close_def closed_entry_def split: option.splits intro!: posix_inv_store)
qed (auto simp: posix_write_def posix_open_def posix_fstat_def posix_readv_def read_inv open_inv
    split: option.splits intro!: vector_loop_inv)

text \<open>
  C25: Whatever calls an application makes, with whatever arguments, the descriptor table keeps
  its eight entries, the three console descriptors are never opened as files, and no file
  position passes the end of its file.
\<close>

theorem posix_session_inv: "posix_inv (posix_session boot calls (posix_start ram con))"
proof -
  have "posix_inv p \<Longrightarrow> posix_inv (posix_session boot calls p)" for p
    unfolding posix_session_def by (induction calls arbitrary: p) (simp_all add: run_call_inv)
  moreover have "posix_inv (posix_start ram con)" by (simp add: posix_inv_def posix_start_def closed_entry_def)
  ultimately show ?thesis by blast
qed


section \<open>Reading a file\<close>

text \<open>The bytes of the file behind an entry.\<close>

definition file_bytes :: "file_entry \<Rightarrow> memory \<Rightarrow> u8 list" where
  "file_bytes e ram = bytes_at ram (fd_base e) (unat (fd_size e))"

text \<open>\<open>k\<close> reads of \<open>c\<close> bytes into the same buffer, with what each of them delivered.\<close>

fun read_chunks :: "int \<Rightarrow> u64 \<Rightarrow> u64 \<Rightarrow> nat \<Rightarrow> posix \<Rightarrow> u8 list \<times> posix" where
  "read_chunks fd buf c 0 p = ([], p)"
| "read_chunks fd buf c (Suc k) p =
     (let (n, p) = posix_read fd buf c p;
          got = bytes_at (pmem p) buf (unat n);
          (rest, p) = read_chunks fd buf c k p
      in (got @ rest, p))"

definition apart :: "u64 \<Rightarrow> nat \<Rightarrow> u64 \<Rightarrow> nat \<Rightarrow> bool" where
  "apart a n b m \<longleftrightarrow> unat a + n \<le> 2 ^ 64 \<and> unat b + m \<le> 2 ^ 64 \<and>
     (unat a + n \<le> unat b \<or> unat b + m \<le> unat a)"

lemma read_file:
  assumes "file_descriptor fd p = Some e"
  shows "posix_read fd buf n p =
    (read_len e n, store_entry fd (e\<lparr>fd_offset := fd_offset e + read_len e n\<rparr>)
       (p\<lparr>pmem := copy_forward buf (fd_base e + fd_offset e) (unat (read_len e n)) (pmem p)\<rparr>))"
proof -
  have "\<not> is_console fd" using file_descriptorD(1) [OF assms] by (simp add: is_console_def STDERR_FILENO_def)
  then show ?thesis using assms by (simp add: posix_read_def Let_def read_len_def copy_bytes_def)
qed

lemma bytes_at_nth: "i < n \<Longrightarrow> bytes_at ram a n ! i = ram (a + of_nat i)"
  by (simp add: bytes_at_def)

lemma copied_bytes:
  assumes ap: "apart buf n base sz" and off: "off + k \<le> sz" "k \<le> n" and lt: "n < 2 ^ 64"
    and ram'_def: "ram' = copy_forward buf (base + of_nat off) k ram"
  shows "bytes_at ram' buf k = take k (drop off (bytes_at ram base sz))"
    "bytes_at ram' base sz = bytes_at ram base sz"
proof -
  have sm: "off < 2 ^ 64 \<or> k = 0" using ap off by (auto simp: apart_def)
  have ub: "unat (base + of_nat i) = unat base + i" if "i < sz" for i
    using ap that by (subst unat_plus_small) (auto simp: apart_def unat_of_nat_small)
  have m: "ram' = moved buf (base + of_nat off) k ram"
  proof (cases "k = 0")
    case True
    then show ?thesis by (simp add: ram'_def copy_forward_def moved_def)
  next
    case False
    then have u: "unat (base + of_nat off) = unat base + off" using ub off by simp
    then have "buf \<le> base + of_nat off \<or> unat (base + of_nat off) + k \<le> unat buf"
      using ap off by (auto simp: apart_def word_le_nat_alt)
    then show ?thesis
      unfolding ram'_def using ap off u lt by (intro copy_forward_moved [where n = k]) (auto simp: apart_def)
  qed
  have "ram' (buf + of_nat i) = ram (base + of_nat (off + i))" if "i < k" for i
  proof -
    have "unat (of_nat i :: u64) = i" using that off lt by (simp add: unat_of_nat_small)
    then show ?thesis using that by (simp add: m moved_def add.assoc)
  qed
  then show "bytes_at ram' buf k = take k (drop off (bytes_at ram base sz))"
    using off by (intro nth_equalityI) (simp_all add: bytes_at_nth)
  have "ram' (base + of_nat i) = ram (base + of_nat i)" if "i < sz" for i
  proof -
    have "\<not> unat (base + of_nat i - buf) < k"
      using ub [OF that] ap that off unsigned_less [of buf]
      by (auto simp: apart_def unat_sub_if_size word_size)
    then show ?thesis by (simp add: m moved_def)
  qed
  then show "bytes_at ram' base sz = bytes_at ram base sz" by (simp add: bytes_at_def)
qed


lemma file_descriptor_set:
  assumes "posix_inv p" "file_descriptor fd p = Some e" "fd_open e'"
  shows "file_descriptor fd (store_entry fd e' (p\<lparr>pmem := ram\<rparr>)) = Some e'"
  using file_descriptorD [OF assms(2)] assms(1,3)
  by (simp add: file_descriptor_def FIRST_FILE_DESCRIPTOR_def MAX_DESCRIPTORS_def posix_inv_def)

lemma read_chunks_spec:
  assumes "posix_inv p" "file_descriptor fd p = Some e" "apart buf (unat c) (fd_base e) (unat (fd_size e))"
  shows "fst (read_chunks fd buf c k p) = take (k * unat c) (drop (unat (fd_offset e)) (file_bytes e (pmem p)))"
  using assms
proof (induction k arbitrary: p e)
  case (Suc k)
  let ?n = "read_len e c"
  let ?e = "e\<lparr>fd_offset := fd_offset e + ?n\<rparr>"
  let ?ram = "copy_forward buf (fd_base e + fd_offset e) (unat ?n) (pmem p)"
  let ?p = "store_entry fd ?e (p\<lparr>pmem := ?ram\<rparr>)"
  note l = read_length [OF file_descriptor_offset [OF Suc.prems(1,2)], of c]
  have o: "unat (fd_offset e) \<le> unat (fd_size e)"
    using file_descriptor_offset [OF Suc.prems(1,2)] by (simp add: word_le_nat_alt)
  have c64: "unat c < 2 ^ 64" using unsigned_less [of c] by simp
  have fits: "unat (fd_offset e) + unat ?n \<le> unat (fd_size e)" using l(1) o by simp
  have eq: "?ram = copy_forward buf (fd_base e + of_nat (unat (fd_offset e))) (unat ?n) (pmem p)" by simp
  have inv: "posix_inv ?p"
    using read_inv [OF Suc.prems(1), of fd buf c] by (simp add: read_file [OF Suc.prems(2)])
  have fd: "file_descriptor fd ?p = Some ?e"
    by (rule file_descriptor_set [OF Suc.prems(1,2)]) (simp add: file_descriptorD(3) [OF Suc.prems(2)])
  have c: "bytes_at ?ram buf (unat ?n) = take (unat ?n) (drop (unat (fd_offset e)) (file_bytes e (pmem p)))"
      "file_bytes e ?ram = file_bytes e (pmem p)"
    unfolding file_bytes_def
    by (rule copied_bytes [OF Suc.prems(3) fits _ c64 eq], simp add: l(1))+
  have "fst (read_chunks fd buf c k ?p) =
      take (k * unat c) (drop (unat (fd_offset ?e)) (file_bytes ?e (pmem ?p)))"
    by (rule Suc.IH [OF inv fd]) (simp add: Suc.prems(3))
  then have "fst (read_chunks fd buf c (Suc k) p) =
      take (unat ?n) (drop (unat (fd_offset e)) (file_bytes e (pmem p))) @
      take (k * unat c) (drop (unat (fd_offset e) + unat ?n) (file_bytes e (pmem p)))"
    using c l(2) by (simp add: read_file [OF Suc.prems(2)] file_bytes_def case_prod_beta)
  moreover have "take (Suc k * unat c) xs = take (unat ?n) xs @ take (k * unat c) (drop (unat ?n) xs)"
    if "length xs = unat (fd_size e) - unat (fd_offset e)" for xs :: "u8 list"
  proof (cases "unat c \<le> length xs")
    case True
    then have "unat ?n = unat c" using l(1) that by simp
    then show ?thesis using take_add [of "unat c" "k * unat c" xs] by simp
  next
    case False
    then have "unat ?n = length xs" using l(1) that by simp
    then show ?thesis using False by simp
  qed
  ultimately show ?case
    by (simp add: file_bytes_def add.commute)
qed simp

text \<open>
  C24: Reading an open file in chunks of any size, into a buffer apart from the file, delivers
  exactly the bytes of the module from the file position on, in order and without gaps, up
  to the end of the file; further reads deliver nothing.
\<close>

theorem sequential_reads:
  assumes "posix_inv p" and "file_descriptor fd p = Some e"
    and "apart buf (unat c) (fd_base e) (unat (fd_size e))"
  shows "fst (read_chunks fd buf c k p) =
    take (k * unat c) (drop (unat (fd_offset e)) (file_bytes e (pmem p)))"
  by (rule read_chunks_spec [OF assms])

definition sample_posix :: posix where
  "sample_posix =
     store_entry 3 \<lparr>fd_open = True, fd_base = 0x2000, fd_size = 5, fd_offset = 1\<rparr>
       (posix_start (\<lambda>a. ucast a + 1) \<lparr>m_sink = None, written = []\<rparr>)"

theorem sequential_reads_witness: "fst (read_chunks 3 0x1000 3 2 sample_posix) = [2, 3, 4, 5]"
proof -
  let ?e = "\<lparr>fd_open = True, fd_base = 0x2000, fd_size = 5, fd_offset = 1\<rparr>"
  have fd: "file_descriptor 3 sample_posix = Some ?e" by code_simp
  have inv: "posix_inv sample_posix"
    unfolding sample_posix_def
    by (rule posix_inv_store) (simp_all add: posix_inv_def posix_start_def closed_entry_def)
  have "apart 0x1000 (unat (3 :: u64)) (fd_base ?e) (unat (fd_size ?e))" by (simp add: apart_def)
  from sequential_reads [OF inv fd this, of 2]
  have "fst (read_chunks 3 0x1000 3 2 sample_posix) = take 6 (drop 1 (file_bytes ?e (pmem sample_posix)))" by simp
  also have "\<dots> = [2, 3, 4, 5]"
    by (simp add: file_bytes_def bytes_at_def sample_posix_def posix_start_def upt_conv_Cons)
  finally show ?thesis .
qed


section \<open>Vectored writes\<close>

definition vector_text :: "memory \<Rightarrow> u64 \<Rightarrow> nat \<Rightarrow> string" where
  "vector_text ram vectors i =
     (if iov_base ram vectors i = 0 then NULL_TEXT
      else map char_of_byte (bytes_at ram (iov_base ram vectors i) (unat (iov_len ram vectors i))))"

definition vectors_length :: "memory \<Rightarrow> u64 \<Rightarrow> nat \<Rightarrow> nat \<Rightarrow> nat" where
  "vectors_length ram vectors i n = sum_list (map (\<lambda>j. unat (iov_len ram vectors j)) [i..<i + n])"

lemma range_Cons: "[i..<i + Suc n] = i # [i + 1..<i + 1 + n]"
  by (simp add: upt_conv_Cons)

lemma validate_buffers:
  "\<forall>j < n. iov_base ram vectors (i + j) \<noteq> 0 \<Longrightarrow> unat acc < 2 ^ 63 \<Longrightarrow>
   validate_loop ram vectors i n acc =
     (if unat acc + vectors_length ram vectors i n < 2 ^ 63 then None else Some EINVAL)"
proof (induction n arbitrary: i acc)
  case 0
  then show ?case by (simp add: vectors_length_def)
next
  case (Suc n)
  let ?l = "iov_len ram vectors i"
  have base: "iov_base ram vectors i \<noteq> 0" using Suc.prems(1) [rule_format, of 0] by simp
  have rest: "\<forall>j < n. iov_base ram vectors (i + 1 + j) \<noteq> 0"
  proof (intro allI impI)
    fix j assume "j < n"
    then show "iov_base ram vectors (i + 1 + j) \<noteq> 0" using Suc.prems(1) [rule_format, of "Suc j"] by simp
  qed
  have len: "vectors_length ram vectors i (Suc n) = unat ?l + vectors_length ram vectors (i + 1) n"
    unfolding vectors_length_def range_Cons by simp
  have mx: "unat SSIZE_MAX_VALUE = 2 ^ 63 - 1" by (simp add: SSIZE_MAX_VALUE_def)
  have "acc \<le> SSIZE_MAX_VALUE" using Suc.prems(2) by (simp add: word_le_nat_alt mx)
  then have fits: "SSIZE_MAX_VALUE - acc < ?l \<longleftrightarrow> \<not> unat acc + unat ?l < 2 ^ 63"
    using Suc.prems(2) by (simp add: word_less_nat_alt unat_minus_le mx) linarith
  show ?case
  proof (cases "unat acc + unat ?l < 2 ^ 63")
    case True
    then have "unat (acc + ?l) = unat acc + unat ?l" by (intro unat_plus_small) simp
    then show ?thesis using Suc.IH [OF rest, of "acc + ?l"] True base fits by (simp add: len add.assoc)
  next
    case False
    then show ?thesis using base fits by (simp add: len)
  qed
qed

lemma emit_bytes_text:
  assumes "m_sink con \<noteq> None"
  shows "emit_bytes (if a = 0 then None else Some t) con =
    con\<lparr>written := written con @ (if a = 0 then NULL_TEXT else t)\<rparr>"
  using assms
  by (auto simp: emit_bytes_def emit_c_string_def console_write_def NULL_TEXT_def c_string_length_def)

lemma small_not_negative: "unat (l :: 64 word) < 2 ^ 63 \<Longrightarrow> \<not> sint l < 0"
proof -
  assume "unat l < 2 ^ 63"
  then have "\<not> bit (unat l) 63" by (simp add: bit_iff_odd)
  then have "\<not> bit l 63" by (simp add: bit_unsigned_iff)
  then show ?thesis using bit_last_iff [of l] by simp
qed

lemma write_loop_spec:
  assumes fd: "fd = 1 \<or> fd = 2"
  shows "m_sink (pconsole p) \<noteq> None \<Longrightarrow> unat acc + vectors_length (pmem p) vectors i n < 2 ^ 63 \<Longrightarrow>
   vector_loop (posix_write fd) vectors i n acc p =
     (acc + of_nat (vectors_length (pmem p) vectors i n),
      p\<lparr>pconsole := (pconsole p)\<lparr>written := written (pconsole p) @
           concat (map (vector_text (pmem p) vectors) [i..<i + n])\<rparr>\<rparr>)"
proof (induction n arbitrary: i acc p)
  case 0
  then show ?case by (simp add: vectors_length_def)
next
  case (Suc n)
  let ?ram = "pmem p"
  let ?l = "iov_len ?ram vectors i"
  let ?q = "p\<lparr>pconsole := (pconsole p)\<lparr>written := written (pconsole p) @ vector_text ?ram vectors i\<rparr>\<rparr>"
  have len: "vectors_length ?ram vectors i (Suc n) = unat ?l + vectors_length ?ram vectors (i + 1) n"
    unfolding vectors_length_def range_Cons by simp
  have w: "posix_write fd (iov_base ?ram vectors i) ?l p = (?l, ?q)"
    using fd by (auto simp: posix_write_def STDOUT_FILENO_def STDERR_FILENO_def emit_bytes_text [OF Suc.prems(1)] vector_text_def)
  have small: "unat ?l < 2 ^ 63" "unat acc + unat ?l < 2 ^ 64" using Suc.prems(2) len by simp_all
  then have pos: "\<not> sint ?l < 0" by (intro small_not_negative)
  have "unat (acc + ?l) = unat acc + unat ?l" using small(2) by (intro unat_plus_small) simp
  then have "vector_loop (posix_write fd) vectors (i + 1) n (acc + ?l) ?q =
     (acc + ?l + of_nat (vectors_length ?ram vectors (i + 1) n),
      p\<lparr>pconsole := (pconsole p)\<lparr>written := written (pconsole p) @ vector_text ?ram vectors i @
           concat (map (vector_text ?ram vectors) [i + 1..<i + 1 + n])\<rparr>\<rparr>)"
    using Suc.IH [of ?q "acc + ?l" "i + 1"] Suc.prems len by simp
  then show ?case using pos unfolding range_Cons by (simp add: w len add.assoc)
qed

text \<open>
  C36: A vectored write to the console whose vectors all have a buffer is one write: the console
  receives the bytes of the vectors in order and nothing else, and the call returns the sum
  of their lengths; when the sum does not fit the result type, nothing is written and the
  call fails with \<^verbatim>\<open>EINVAL\<close>.
\<close>

theorem writev_concatenates:
  assumes "fd = 1 \<or> fd = 2" and "0 \<le> count" "count \<le> IOV_MAX" "vectors \<noteq> 0"
    and "\<forall>i < nat count. iov_base (pmem p) vectors i \<noteq> 0" and "m_sink (pconsole p) \<noteq> None"
  shows "posix_writev fd vectors count p =
    (if vectors_length (pmem p) vectors 0 (nat count) < 2 ^ 63
     then (of_nat (vectors_length (pmem p) vectors 0 (nat count)),
       p\<lparr>pconsole := (pconsole p)\<lparr>written := written (pconsole p) @
           concat (map (\<lambda>i. map char_of_byte
             (bytes_at (pmem p) (iov_base (pmem p) vectors i) (unat (iov_len (pmem p) vectors i)))) [0..<nat count])\<rparr>\<rparr>)
     else (-1, p\<lparr>errno := EINVAL\<rparr>))"
proof -
  have v: "validate_iovecs vectors count p =
      (if vectors_length (pmem p) vectors 0 (nat count) < 2 ^ 63 then None else Some EINVAL)"
    using validate_buffers [of "nat count" "pmem p" vectors 0 0] assms(2-5) by (simp add: validate_iovecs_def)
  have t: "map (vector_text (pmem p) vectors) [0..<nat count] =
      map (\<lambda>i. map char_of_byte (bytes_at (pmem p) (iov_base (pmem p) vectors i) (unat (iov_len (pmem p) vectors i)))) [0..<nat count]"
    using assms(5) by (simp add: vector_text_def)
  show ?thesis
    using write_loop_spec [OF assms(1,6), of 0 vectors 0 "nat count"] unfolding posix_writev_def v t [symmetric]
    by (simp add: fail_def)
qed

text \<open>Two vectors, of two bytes and one, behind their table.\<close>

definition vector_memory :: memory where
  "vector_memory = image_at 0x1000
     ([0x20, 0x10, 0, 0, 0, 0, 0, 0, 2, 0, 0, 0, 0, 0, 0, 0,
       0x22, 0x10, 0, 0, 0, 0, 0, 0, 1, 0, 0, 0, 0, 0, 0, 0] @ [104, 105, 33])"

definition vector_process :: posix where
  "vector_process = posix_start vector_memory \<lparr>m_sink = Some 1, written = []\<rparr>"

lemma vector_table:
  "iov_base vector_memory 0x1000 0 = 0x1020" "iov_len vector_memory 0x1000 0 = 2"
  "iov_base vector_memory 0x1000 1 = 0x1022" "iov_len vector_memory 0x1000 1 = 1"
  "map char_of_byte (bytes_at vector_memory 0x1020 2) = ''hi''" "map char_of_byte (bytes_at vector_memory 0x1022 1) = ''!''"
  by code_simp+

theorem writev_concatenates_witness:
  "posix_writev 1 0x1000 2 vector_process =
     (3, vector_process\<lparr>pconsole := \<lparr>m_sink = Some 1, written = ''hi!''\<rparr>\<rparr>)"
proof -
  have mem: "pmem vector_process = vector_memory" "pconsole vector_process = \<lparr>m_sink = Some 1, written = []\<rparr>"
    by (simp_all add: vector_process_def posix_start_def)
  have two: "i < nat 2 \<Longrightarrow> i = 0 \<or> i = 1" for i by auto
  have "\<forall>i < nat 2. iov_base (pmem vector_process) 0x1000 i \<noteq> 0"
    using two vector_table(1,3) unfolding mem by fastforce
  then show ?thesis
    using writev_concatenates [of 1 2 "0x1000" vector_process] vector_table
    by (simp add: mem IOV_MAX_def vectors_length_def upt_conv_Cons)
qed

text \<open>
  A vector without a buffer is accepted when its length is 0, and \<^verbatim>\<open>write\<close> then prints the
  six characters of \<open><null>\<close>, which the result does not count.
\<close>

definition null_vector :: posix where
  "null_vector = posix_start (\<lambda>_. 0) \<lparr>m_sink = Some 1, written = []\<rparr>"

lemma writev_null_vector:
  "posix_writev 1 0x1000 1 null_vector =
     (0, null_vector\<lparr>pconsole := \<lparr>m_sink = Some 1, written = ''<null>''\<rparr>\<rparr>)"
proof -
  have z: "read64 (\<lambda>_. 0) a = 0" for a :: u64 by (simp add: read64_def read_le_numeral)
  have "validate_iovecs 0x1000 1 null_vector = None"
    by (simp add: validate_iovecs_def null_vector_def posix_start_def IOV_MAX_def iov_base_def iov_len_def z)
  then show ?thesis
    using write_loop_spec [of 1 null_vector 0 "0x1000" 0 1]
    by (simp add: posix_writev_def null_vector_def posix_start_def vectors_length_def vector_text_def
        iov_base_def iov_len_def z NULL_TEXT_def)
qed

end
