(* ===== verification/Posix_Misc.thy ===== *)
theory Posix_Misc
  imports Posix_Correct
begin

text \<open>
  The remaining POSIX calls that keep to the C++ side: \<^verbatim>\<open>kernel/random/posix/stub_impl.cpp\<close>,
  \<^verbatim>\<open>kernel/time/posix/stub_impl.cpp\<close>, \<^verbatim>\<open>kernel/runtime/posix/stub_impl.cpp\<close> and the fallbacks of
  \<^verbatim>\<open>posix/stubs.cpp\<close>. The random instruction is a stream of attempts, each with a value and
  whether it succeeded; \<^verbatim>\<open>cpuid\<close> is an argument.
\<close>

section \<open>Time and process\<close>

definition clock_gettime :: "int \<Rightarrow> u64 \<Rightarrow> posix \<Rightarrow> ssize_t \<times> posix" where
  "clock_gettime clock_id out p = fail ENOSYS p"

definition gettimeofday :: "u64 \<Rightarrow> u64 \<Rightarrow> posix \<Rightarrow> ssize_t \<times> posix" where
  "gettimeofday out timezone p = fail ENOSYS p"

definition nanosleep :: "u64 \<Rightarrow> u64 \<Rightarrow> posix \<Rightarrow> ssize_t \<times> posix" where
  "nanosleep requested remaining p = fail ENOSYS p"

definition isatty :: "int \<Rightarrow> int" where "isatty fd = (if is_console fd then 1 else 0)"

definition getpid :: int where "getpid = 1"

definition posix_kill :: "int \<Rightarrow> int \<Rightarrow> posix \<Rightarrow> ssize_t \<times> posix" where
  "posix_kill pid signal p = fail EINVAL p"

definition sysconf :: "int \<Rightarrow> posix \<Rightarrow> ssize_t \<times> posix" where
  "sysconf name p = (if name = 30 then (4096, p) else if name = 84 then (1, p) else fail EINVAL p)"

definition getauxval :: "u64 \<Rightarrow> u64" where "getauxval type = 0"

text \<open>What is printed goes through the console sink.\<close>

definition print_line :: "string option \<Rightarrow> posix \<Rightarrow> posix" where
  "print_line t p =
     (case t of None \<Rightarrow> p | Some t \<Rightarrow> p\<lparr>pconsole := console_write (Some t) (pconsole p)\<rparr>)"

definition posix_syscall :: "u64 \<Rightarrow> posix \<Rightarrow> ssize_t \<times> posix" where
  "posix_syscall number p =
     fail ENOSYS (print_line (kprintln_ct ''[musl] unsupported syscall {}'' [Arg_signed number]) p)"

text \<open>
  The body of \<^verbatim>\<open>POSIX_STUB\<close>: the name is reported the first time, the error number set when
  the table gives one, and the fixed value returned. \<open>reported\<close> is the static flag.
\<close>

definition report_once :: "string \<Rightarrow> bool \<Rightarrow> posix \<Rightarrow> bool \<times> posix" where
  "report_once name reported p =
     (if \<not> reported
      then (True, print_line (kprintln_ct ''[posix] fallback: {}'' [Arg_c_string 1 (Some name)]) p)
      else (reported, p))"

definition posix_stub :: "string \<Rightarrow> ssize_t \<Rightarrow> int \<Rightarrow> bool \<Rightarrow> posix \<Rightarrow> ssize_t \<times> bool \<times> posix" where
  "posix_stub name v err reported p =
     (let (reported, p) = report_once name reported p;
          p = (if err \<noteq> 0 then p\<lparr>errno := err\<rparr> else p)
      in (v, reported, p))"

text \<open>The calls that never return: the application ends, or the kernel panics.\<close>

definition posix_exit :: "int \<Rightarrow> posix \<Rightarrow> posix" where
  "posix_exit status p = print_line (kprintln_ct ''[app] exited with status {}'' [Arg_signed (of_int status)]) p"

definition posix_Exit :: "int \<Rightarrow> posix \<Rightarrow> posix" where "posix_Exit status = posix_exit status"
definition posix_exit_c :: "int \<Rightarrow> posix \<Rightarrow> posix" where "posix_exit_c status = posix_exit status"

definition posix_abort :: "'a outcome" where "posix_abort = Panic ''abort() called''"

definition tls_get_addr :: "u64 \<Rightarrow> 'a outcome" where
  "tls_get_addr descriptor = Panic ''__tls_get_addr: thread-local storage is not set up yet''"

definition compilerrt_abort :: "'a outcome" where
  "compilerrt_abort = Panic ''compiler-rt abort in {} at {}:{}''"

definition rust_eh_personality :: "'a outcome" where
  "rust_eh_personality = Panic ''rust_eh_personality: nothing unwinds in this image''"

section \<open>Random bytes\<close>

definition CPUID_FEATURE_LEAF :: u32 where "CPUID_FEATURE_LEAF = 1"
definition CPUID_ECX_RDRAND :: u32 where "CPUID_ECX_RDRAND = push_bit 30 1"
definition RDRAND_ATTEMPTS :: nat where "RDRAND_ATTEMPTS = 10"

definition rdrand_supported :: "(u32 \<Rightarrow> cpuid_result) \<Rightarrow> bool" where
  "rdrand_supported cpuid =
     (if c_eax (cpuid 0) < CPUID_FEATURE_LEAF then False
      else c_ecx (cpuid CPUID_FEATURE_LEAF) AND CPUID_ECX_RDRAND \<noteq> 0)"

type_synonym rdrand = "nat \<Rightarrow> u64 \<times> bool"

text \<open>At most \<open>n\<close> attempts from the \<open>at\<close>-th on: the value, and the next attempt.\<close>

fun rdrand_loop :: "rdrand \<Rightarrow> nat \<Rightarrow> nat \<Rightarrow> u64 option \<times> nat" where
  "rdrand_loop rd at 0 = (None, at)"
| "rdrand_loop rd at (Suc n) =
     (if snd (rd at) then (Some (fst (rd at)), at + 1) else rdrand_loop rd (at + 1) n)"

definition rdrand64 :: "rdrand \<Rightarrow> nat \<Rightarrow> u64 option \<times> nat" where
  "rdrand64 rd at = rdrand_loop rd at RDRAND_ATTEMPTS"

definition put_bytes :: "u64 \<Rightarrow> nat \<Rightarrow> u64 \<Rightarrow> memory \<Rightarrow> memory" where
  "put_bytes out chunk word ram =
     fold (\<lambda>i ram. ram(out + of_nat i := ucast (drop_bit (i * 8) word))) [0..<chunk] ram"

function fill_loop :: "rdrand \<Rightarrow> u64 \<Rightarrow> nat \<Rightarrow> nat \<Rightarrow> nat \<Rightarrow> memory \<Rightarrow> bool \<times> nat \<times> memory" where
  "fill_loop rd out len n_done at ram =
     (if n_done < len then
        case rdrand64 rd at of
          (None, at) \<Rightarrow> (False, at, ram)
        | (Some word, at) \<Rightarrow>
            let chunk = (if len - n_done < 8 then len - n_done else 8)
            in fill_loop rd out len (n_done + chunk) at (put_bytes (out + of_nat n_done) chunk word ram)
      else (True, at, ram))"
  by auto
termination by (relation "measure (\<lambda>(rd, out, len, n_done, at, ram). len - n_done)") auto

declare fill_loop.simps [simp del]

definition getrandom :: "(u32 \<Rightarrow> cpuid_result) \<Rightarrow> rdrand \<Rightarrow> nat \<Rightarrow> u64 \<Rightarrow> u64 \<Rightarrow> posix \<Rightarrow> ssize_t \<times> posix" where
  "getrandom cpuid rd at buffer len p =
     (if buffer = 0 then fail EFAULT p
      else if \<not> rdrand_supported cpuid then fail ENOSYS p
      else
        case fill_loop rd buffer (unat len) 0 at (pmem p) of
          (False, _, ram) \<Rightarrow> fail EIO (p\<lparr>pmem := ram\<rparr>)
        | (True, _, ram) \<Rightarrow> (len, p\<lparr>pmem := ram\<rparr>))"

definition getentropy :: "(u32 \<Rightarrow> cpuid_result) \<Rightarrow> rdrand \<Rightarrow> nat \<Rightarrow> u64 \<Rightarrow> u64 \<Rightarrow> posix \<Rightarrow> ssize_t \<times> posix" where
  "getentropy cpuid rd at buffer len p =
     (if len > 256 then fail EIO p
      else let (n, p) = getrandom cpuid rd at buffer len p in (if sint n < 0 then -1 else 0, p))"

section \<open>Random bytes stay in the buffer\<close>

lemma put_bytes_spec:
  assumes "chunk \<le> 8"
  shows "put_bytes out chunk word ram a =
    (if unat (a - out) < chunk then ucast (drop_bit (unat (a - out) * 8) word) else ram a)"
  using assms
proof (induction chunk)
  case 0
  show ?case by (simp add: put_bytes_def)
next
  case (Suc k)
  have "put_bytes out (Suc k) word ram = (put_bytes out k word ram)(out + of_nat k := ucast (drop_bit (k * 8) word))"
    by (simp add: put_bytes_def)
  then show ?case using Suc offset_eq [of k a out] by (auto simp: less_Suc_eq)
qed

lemma fill_loop_outside:
  assumes "n_done \<le> len" "len < 2 ^ 64" "len \<le> unat (a - out)"
  shows "snd (snd (fill_loop rd out len n_done at ram)) a = ram a"
  using assms
proof (induction rd out len n_done at ram rule: fill_loop.induct)
  case (1 rd out len n_done at ram)
  show ?case
  proof (cases "n_done < len \<and> fst (rdrand64 rd at) \<noteq> None")
    case False
    then show ?thesis by (subst fill_loop.simps) (auto split: prod.splits option.splits)
  next
    case True
    then obtain w at' where w: "rdrand64 rd at = (Some w, at')" by (cases "rdrand64 rd at") auto
    let ?c = "if len - n_done < 8 then len - n_done else 8"
    let ?ram = "put_bytes (out + of_nat n_done) ?c w ram"
    have nd: "unat (of_nat n_done :: u64) = n_done" using True "1.prems"(2) by (simp add: unat_of_nat_small)
    have "of_nat n_done \<le> a - out" using "1.prems"(3) True nd by (simp add: word_le_nat_alt)
    then have "unat (a - (out + of_nat n_done)) = unat (a - out) - n_done"
      using unat_minus_le [of "of_nat n_done" "a - out"] nd by (simp add: diff_diff_eq)
    then have "\<not> unat (a - (out + of_nat n_done)) < ?c" using "1.prems"(1,3) by auto
    then have "?ram a = ram a" by (subst put_bytes_spec) simp_all
    moreover have "n_done + ?c \<le> len" using True by auto
    then have "snd (snd (fill_loop rd out len (n_done + ?c) at' ?ram)) a = ?ram a"
      using "1.IH" [OF _ w [symmetric] refl refl] True "1.prems"(2,3) by blast
    ultimately show ?thesis
      by (subst fill_loop.simps) (simp add: w True Let_def split del: if_split)
  qed
qed


text \<open>Neither random call touches memory outside the buffer it was given.\<close>

lemma getrandom_in_buffer:
  assumes "unat len \<le> unat (a - buffer)"
  shows "pmem (snd (getrandom cpuid rd at buffer len p)) a = pmem p a"
  using fill_loop_outside [of 0 "unat len" a buffer rd at "pmem p"] assms unsigned_less [of len]
  by (auto simp: getrandom_def fail_def split: prod.splits bool.splits)

lemma getentropy_in_buffer:
  assumes "unat len \<le> unat (a - buffer)"
  shows "pmem (snd (getentropy cpuid rd at buffer len p)) a = pmem p a"
  using getrandom_in_buffer [OF assms]
  by (auto simp: getentropy_def fail_def split: prod.splits) (metis snd_conv)

end
