(* ===== verification/Posix_Memory.thy ===== *)
theory Posix_Memory
  imports Posix_Files Vmm_Session
begin

text \<open>
  \<^verbatim>\<open>kernel/mm/posix/stub_impl.cpp\<close>: \<^verbatim>\<open>mmap\<close>, \<^verbatim>\<open>munmap\<close> and \<^verbatim>\<open>mprotect\<close> over the virtual memory
  manager. The byte memory of \<open>posix\<close> is what the processor reads and writes at virtual addresses; by
  the invariant of the memory manager the frames behind it are no page tables. A second virtual
  address of the same frame, as the direct map has one, is not followed: that zeroing a range changes
  the bytes seen through the direct map is not represented. A C \<^verbatim>\<open>int\<close> that
  carries flags is a 32-bit word.
\<close>

section \<open>Calls\<close>

definition PROT_NONE :: u32 where "PROT_NONE = 0"
definition PROT_READ :: u32 where "PROT_READ = 1"
definition PROT_WRITE :: u32 where "PROT_WRITE = 2"
definition PROT_EXEC :: u32 where "PROT_EXEC = 4"

definition MAP_PRIVATE :: u32 where "MAP_PRIVATE = 0x02"
definition MAP_ANONYMOUS :: u32 where "MAP_ANONYMOUS = 0x20"
definition MAP_NORESERVE :: u32 where "MAP_NORESERVE = 0x4000"

definition SUPPORTED_PROTECTION :: u32 where
  "SUPPORTED_PROTECTION = PROT_READ OR PROT_WRITE OR PROT_EXEC"

definition SUPPORTED_FLAGS :: u32 where
  "SUPPORTED_FLAGS = MAP_PRIVATE OR MAP_ANONYMOUS OR MAP_NORESERVE"

text \<open>The condition under which \<^verbatim>\<open>mmap\<close> refuses a request.\<close>

definition mmap_refused :: "u64 \<Rightarrow> u64 \<Rightarrow> u32 \<Rightarrow> u32 \<Rightarrow> int \<Rightarrow> ssize_t \<Rightarrow> bool" where
  "mmap_refused address len protection flags fd offset \<longleftrightarrow>
     address \<noteq> 0 \<or> len = 0 \<or> fd \<noteq> -1 \<or> offset \<noteq> 0 \<or> flags AND MAP_PRIVATE = 0 \<or>
     flags AND MAP_ANONYMOUS = 0 \<or> flags AND NOT SUPPORTED_FLAGS \<noteq> 0 \<or>
     protection AND NOT SUPPORTED_PROTECTION \<noteq> 0"

type_synonym posix_kernel = "posix \<times> vmm_machine"

definition posix_mmap :: "paddr_t \<Rightarrow> u64 \<Rightarrow> u64 \<Rightarrow> u32 \<Rightarrow> u32 \<Rightarrow> int \<Rightarrow> ssize_t \<Rightarrow> posix_kernel \<Rightarrow>
    (u64 \<times> posix_kernel) outcome" where
  "posix_mmap root address len protection flags fd offset s =
     (let (p, vm) = s
      in if mmap_refused address len protection flags fd offset then Return (-1, p\<lparr>errno := EINVAL\<rparr>, vm)
         else case vmm_alloc root len KERNEL_DATA vm of
           Panic msg \<Rightarrow> Panic msg
         | Return (Err _, vm) \<Rightarrow> Return (-1, p\<lparr>errno := ENOMEM\<rparr>, vm)
         | Return (Ok memory, vm) \<Rightarrow>
             let p = p\<lparr>pmem := snd (memset memory 0 (unat (align_up len FRAME_SIZE)) (pmem p))\<rparr>
             in if protection AND PROT_WRITE \<noteq> 0 then Return (memory, p, vm)
                else
                  let prot = GLOBAL;
                      prot = (if protection AND PROT_EXEC \<noteq> 0 then prot OR EXEC else prot)
                  in case vmm_protect root memory len prot vm of
                       Panic msg \<Rightarrow> Panic msg
                     | Return (Err _, vm) \<Rightarrow>
                         Panic ''mmap: cannot drop write access on a fresh allocation at {}''
                     | Return (Ok _, vm) \<Rightarrow> Return (memory, p, vm))"

definition posix_munmap :: "paddr_t \<Rightarrow> u64 \<Rightarrow> u64 \<Rightarrow> posix_kernel \<Rightarrow> (int \<times> posix_kernel) outcome" where
  "posix_munmap root address len s =
     (let (p, vm) = s
      in case vmm_free root address len vm of
           Panic msg \<Rightarrow> Panic msg
         | Return (Ok _, vm) \<Rightarrow> Return (0, p, vm)
         | Return (Err _, vm) \<Rightarrow> Return (-1, p\<lparr>errno := EINVAL\<rparr>, vm))"

definition posix_mprotect :: "paddr_t \<Rightarrow> u64 \<Rightarrow> u64 \<Rightarrow> u32 \<Rightarrow> posix_kernel \<Rightarrow> (int \<times> posix_kernel) outcome" where
  "posix_mprotect root address len protection s =
     (let (p, vm) = s
      in if protection AND NOT SUPPORTED_PROTECTION \<noteq> 0 then Return (-1, p\<lparr>errno := EINVAL\<rparr>, vm)
         else
           let prot = GLOBAL;
               prot = (if protection AND PROT_WRITE \<noteq> 0 then prot OR WRITE else prot);
               prot = (if protection AND PROT_EXEC \<noteq> 0 then prot OR EXEC else prot);
               first = align_down address FRAME_SIZE;
               lst = align_up (address + len) FRAME_SIZE
           in case vmm_protect root first (lst - first) prot vm of
                Panic msg \<Rightarrow> Panic msg
              | Return (Err _, vm) \<Rightarrow> Return (-1, p\<lparr>errno := ENOMEM\<rparr>, vm)
              | Return (Ok _, vm) \<Rightarrow> Return (0, p, vm))"

end
