(* ===== verification/Frame_Count.thy ===== *)
theory Frame_Count
  imports Radix_Correct
begin

text \<open>
  How many frames an operation on the page tables takes from the allocator: a walk takes at
  most one per level, and with that many free it does not fail.
\<close>

definition avail :: "machine \<Rightarrow> nat" where
  "avail m = card (free_frames (m_pmm m))"

text \<open>At most \<open>k\<close> frames were taken.\<close>

definition takes :: "nat \<Rightarrow> machine \<Rightarrow> machine \<Rightarrow> bool" where
  "takes k m m' \<longleftrightarrow> pmm_inv (m_pmm m') \<and> avail m \<le> avail m' + k"

lemma takes_trans: "takes k m m' \<Longrightarrow> takes k' m' m'' \<Longrightarrow> takes (k + k') m m''"
  by (auto simp: takes_def)

lemma takes_same_pmm: "m_pmm m' = m_pmm m'' \<Longrightarrow> takes k m m' \<Longrightarrow> takes k m m''"
  by (simp add: takes_def avail_def)

lemma finite_free_frames: "pmm_inv s \<Longrightarrow> finite (free_frames s)"
  using free_frame_bound(1) by (intro finite_subset [of "free_frames s" "{..<4194304}"]) auto

lemma alloc_avail:
  assumes "pmm_inv (m_pmm m)"
  shows "pmm_alloc SIZE_4K (m_pmm m) = Return (Err OUT_OF_MEMORY, m_pmm m) \<and> avail m = 0 \<or>
    (\<exists>c s. pmm_alloc SIZE_4K (m_pmm m) = Return (Ok c, s) \<and> pmm_inv s \<and> avail m = card (free_frames s) + 1)"
proof -
  have run: "free_run (m_pmm m) (frames_in SIZE_4K) f \<longleftrightarrow> f \<in> free_frames (m_pmm m)" for f
    by (simp add: free_run_def frames_in_sizes)
  note S = pmm_alloc_spec [OF assms, of SIZE_4K]
  show ?thesis
  proof (cases "free_frames (m_pmm m) = {}")
    case True
    then show ?thesis using S by (simp add: run avail_def)
  next
    case False
    then have "\<exists>f. free_run (m_pmm m) (frames_in SIZE_4K) f" by (auto simp: run)
    then obtain f s where f: "pmm_alloc SIZE_4K (m_pmm m) = Return (Ok (address_of f), s)"
        "f \<in> free_frames (m_pmm m)" "free_frames s = free_frames (m_pmm m) - {f}" "pmm_inv s"
      using S by (auto simp: run) (auto simp: frames_in_sizes)
    have "avail m = card (free_frames s) + 1"
      using f(2,3) card_Suc_Diff1 [OF finite_free_frames [OF assms] f(2)] by (simp add: avail_def)
    then show ?thesis using f(1,4) by blast
  qed
qed

lemma alloc_table_avail:
  assumes "pmm_inv (m_pmm m)"
  shows "alloc_table m = Return (Err OUT_OF_MEMORY, m) \<and> avail m = 0 \<or>
    (\<exists>c m'. alloc_table m = Return (Ok c, m') \<and> takes 1 m m' \<and> avail m = avail m' + 1)"
  using alloc_avail [OF assms] by (auto simp: alloc_table_def takes_def avail_def)

text \<open>A walk that may allocate takes a frame per level, and fails only when they run out.\<close>

lemma walk_from_avail:
  assumes "pmm_inv (m_pmm m)" "walk_from va target True l table path m = Return (r, m')" "1 \<le> target" "target \<le> l"
  shows "takes (l - target) m m' \<and> (l - target \<le> avail m \<longrightarrow> \<not> isl r)"
  using assms
proof (induction l arbitrary: table path m)
  case (Suc l)
  let ?slot = "slot_at table (pt_index (Suc l) va)"
  have step: ?case
    if "takes k m m1" "k \<le> 1" "walk_from va target True l t p m1 = Return (r, m')"
      "avail m = avail m1 + k" "target \<le> l" for k m1 t p
  proof -
    have "pmm_inv (m_pmm m1)" using that(1) by (simp add: takes_def)
    from Suc.IH [OF this that(3) Suc.prems(3) that(5)] show ?thesis
      using takes_trans [OF that(1)] that(2,4,5) by (auto simp: takes_def)
  qed
  have same: "takes 0 m m" using Suc.prems(1) by (simp add: takes_def)
  show ?case
  proof (cases "Suc l = target")
    case True
    then show ?thesis using Suc.prems same by (auto simp: Let_def mm_ok_def)
  next
    case False
    then have le: "target \<le> l" using Suc.prems(4) by simp
    show ?thesis
    proof (cases "present (mem m ?slot) \<and> \<not> leaf (mem m ?slot) (Suc l)")
      case True
      then show ?thesis
        using Suc.prems(2) False step [OF same _ _ _ le] by (simp add: Let_def del: One_nat_def)
    next
      case alloc: False
      consider (no) "alloc_table m = Return (Err OUT_OF_MEMORY, m)" "avail m = 0"
        | (yes) c m1 where "alloc_table m = Return (Ok c, m1)" "takes 1 m m1" "avail m = avail m1 + 1"
        using alloc_table_avail [OF Suc.prems(1)] by metis
      then show ?thesis
      proof cases
        case no
        then show ?thesis
          using Suc.prems(2) False alloc same le
          by (auto simp: Let_def ktry_def takes_def split: if_splits)
      next
        case yes
        have st: "takes 1 m m2" "avail m = avail m2 + 1" if "m_pmm m2 = m_pmm m1" for m2
          using yes(2,3) that by (simp_all add: takes_def avail_def)
        show ?thesis
          using Suc.prems(2) False alloc yes(1) step [OF st(1) _ _ st(2) le]
          by (auto simp: Let_def ktry_def split: if_splits)
      qed
    qed
  qed
qed simp

end
