(* ===== verification/Vmm_Live.thy ===== *)
theory Vmm_Live
  imports Vmm_Session Frame_Count
begin

text \<open>
  Allocation makes progress: how many frames a mapping can take is counted along the walk
  through the page tables, so that enough free frames and a gap in the window make
  \<^verbatim>\<open>vmm::alloc\<close> succeed.
\<close>

section \<open>Frames taken by a mapping\<close>

lemma map_leaf_avail:
  assumes "pmm_inv (m_pmm m)" "map_leaf root va pa SIZE_4K p m = Return (r, m')"
  shows "takes 3 m m'" "3 \<le> avail m \<Longrightarrow> r \<noteq> Err OUT_OF_MEMORY"
proof -
  have lv: "level_of SIZE_4K = 1" by (simp add: level_of_def layout)
  have "takes 3 m m' \<and> (3 \<le> avail m \<longrightarrow> r \<noteq> Err OUT_OF_MEMORY)"
  proof (cases "validate va SIZE_4K pa = mm_ok 1")
    case False
    then have "r = Err INVALID_ADDRESS" "m' = m"
      using assms(2) by (auto simp: map_leaf_def validate_def lv mm_fail_def ktry_def split: if_splits)
    then show ?thesis using assms(1) by (simp add: takes_def)
  next
    case True
    show ?thesis
    proof (cases "walk root va 1 True m")
      case (Return x)
      obtain q m1 where x: "x = (q, m1)" by force
      have W: "takes 3 m m1" "3 \<le> avail m \<Longrightarrow> \<not> isl q"
        using walk_from_avail [OF assms(1), of va 1 LEVELS root empty_path q m1] Return x
        by (simp_all add: walk_def LEVELS_def)
      have "m_pmm m' = m_pmm m1"
        using assms(2) Return x by (auto simp: map_leaf_def True ktry_def Let_def mm_ok_def mm_fail_def split: sum.splits if_splits)
      moreover have "r = Err OUT_OF_MEMORY \<Longrightarrow> isl q"
        using assms(2) Return x by (auto simp: map_leaf_def True ktry_def Let_def mm_ok_def mm_fail_def split: sum.splits if_splits)
      ultimately show ?thesis using W by (auto simp: takes_def avail_def)
    next
      case (Panic msg)
      then show ?thesis using assms(2) by (simp add: map_leaf_def True ktry_def mm_ok_def)
    qed
  qed
  then show "takes 3 m m'" "3 \<le> avail m \<Longrightarrow> r \<noteq> Err OUT_OF_MEMORY" by blast+
qed

lemma back_loop_avail:
  assumes "pmm_inv (m_pmm m)" "back_loop root base p i n m = Return (Err OUT_OF_MEMORY, m')"
  shows "avail m < 4 * n"
  using assms
proof (induction n arbitrary: i m)
  case 0
  then show ?case by (simp add: mm_ok_def)
next
  case (Suc n)
  let ?va = "base + of_nat i * FRAME_SIZE"
  show ?case
  proof (rule ccontr)
    assume "\<not> avail m < 4 * Suc n"
    then have big: "4 * n + 4 \<le> avail m" by simp
    then obtain c s where al: "pmm_alloc SIZE_4K (m_pmm m) = Return (Ok c, s)" "pmm_inv s" "avail m = card (free_frames s) + 1"
      using alloc_avail [OF Suc.prems(1)] by auto
    define m1 where "m1 = m\<lparr>m_pmm := s\<rparr>"
    have m1: "pmm_inv (m_pmm m1)" "3 \<le> avail m1" "4 * n + 3 \<le> avail m1"
      using al big by (simp_all add: m1_def avail_def)
    show False
    proof (cases "map_leaf root ?va c SIZE_4K p m1")
      case (Return x)
      obtain r m2 where x: "x = (r, m2)" by force
      note M = map_leaf_avail [OF m1(1) Return [unfolded x]]
      show False
      proof (cases r)
        case (Inl e)
        then have "e = OUT_OF_MEMORY"
          using Suc.prems(2) al(1) Return x
          by (auto simp: Let_def map_range_page m1_def [symmetric] mm_fail_def)
        then show False using M(2) m1(2) Inl by simp
      next
        case (Inr u)
        then have "back_loop root base p (i + 1) n m2 = Return (Err OUT_OF_MEMORY, m')"
          using Suc.prems(2) al(1) Return x by (simp add: Let_def map_range_page m1_def [symmetric])
        moreover have "pmm_inv (m_pmm m2)" "4 * n \<le> avail m2" using M(1) m1(3) by (simp_all add: takes_def)
        ultimately show False using Suc.IH by fastforce
      qed
    next
      case (Panic msg)
      then show False using Suc.prems(2) al(1) by (simp add: Let_def map_range_page m1_def [symmetric])
    qed
  qed
qed

section \<open>Allocation succeeds\<close>

text \<open>\<open>n\<close> bytes at \<open>a\<close> lie in the window and, with a guard page, apart from every allocation.\<close>

definition room :: "vmm \<Rightarrow> nat \<Rightarrow> nat \<Rightarrow> bool" where
  "room v a n \<longleftrightarrow> window_first \<le> a \<and> a + n + 4096 \<le> window_last \<and>
     (\<forall>(b, k)\<in>set (vmm_ranges v). b + k + 4096 \<le> a \<or> a + n + 4096 \<le> b)"

lemma room_gap:
  assumes "spaced lo rs hi" "lo \<le> a" "a + n + 4096 \<le> hi"
    "\<forall>(b, k)\<in>set rs. b + k + 4096 \<le> a \<or> a + n + 4096 \<le> b"
  shows "\<exists>i\<le>length rs. after_range lo (take i rs) + n + 4096 \<le> (case drop i rs of [] \<Rightarrow> hi | r # _ \<Rightarrow> fst r)"
  using assms
proof (induction lo rs hi rule: spaced.induct)
  case (1 lo hi)
  then show ?case by simp
next
  case (2 lo b k rs hi)
  show ?case
  proof (cases "a + n + 4096 \<le> b")
    case True
    then show ?thesis using 2 by (intro exI [of _ 0]) auto
  next
    case False
    then obtain i where "i \<le> length rs"
        "after_range (b + k + 4096) (take i rs) + n + 4096 \<le> (case drop i rs of [] \<Rightarrow> hi | r # _ \<Rightarrow> fst r)"
      using 2 by auto
    then show ?thesis by (intro exI [of _ "Suc i"]) simp
  qed
qed

lemma find_gap_succeeds:
  assumes inv: "vmm_inv v" and n: "unat n \<le> 2 ^ 40" and c: "m_count v < 1024" and r: "room v a (unat n)"
  shows "\<exists>index. find_gap v n = Ok index"
proof -
  have sp: "spaced window_first (vmm_ranges v) window_last" using inv by (simp add: vmm_inv_def)
  obtain i where i: "i \<le> m_count v" "unat (gap_start v i) + unat n + 4096 \<le> unat (gap_end v i)"
    using room_gap [OF sp, of a "unat n"] r unat_gap_start [OF inv] unat_gap_end [OF inv] length_vmm_ranges [OF inv]
    by (auto simp: room_def)
  then have "gap_end v i - gap_start v i \<ge> n + FRAME_SIZE" using gap_fits [OF inv i(1) n] by simp
  then obtain index where "find_gap_loop v n 0 (m_count v + 1) = Some index"
    using find_gap_loop_None [of v n 0 "m_count v + 1" i] i(1) by (cases "find_gap_loop v n 0 (m_count v + 1)") auto
  then show ?thesis using c by (auto simp: find_gap_def MAX_ALLOCATIONS_def simp del: find_gap_loop.simps)
qed

lemma vmm_alloc_live:
  assumes K: "kernel_inv root v m" and b: "bytes \<noteq> 0" "bytes \<le> VMALLOC_SIZE" and c: "m_count v < 1024"
    and r: "room v a ((unat bytes + 4095) div 4096 * 4096)" and f: "4 * ((unat bytes + 4095) div 4096) \<le> avail m"
  shows "\<exists>base v' m'. vmm_alloc root bytes p (v, m) = Return (Ok base, v', m')"
proof -
  define sz where "sz = align_up bytes FRAME_SIZE"
  have inv: "vmm_inv v" and pi: "pmm_inv (m_pmm m)"
    using K sub_invD(2) [OF tree_invD(1)] unfolding kernel_inv_def backed_def by blast+
  note S = align_up_bytes [OF b, folded sz_def]
  have u: "unat sz = (unat bytes + 4095) div 4096 * 4096"
    using unat_align_up [of 12 bytes] S(3,4) by (simp add: sz_def FRAME_SIZE_eq)
  then obtain index where g: "find_gap v sz = Ok index" using find_gap_succeeds [OF inv S(3) c] r by auto
  obtain q v' m' where A: "vmm_alloc root bytes p (v, m) = Return (q, v', m')" "\<And>e. q = Err e \<Longrightarrow> e = OUT_OF_MEMORY"
    using vmm_alloc_spec [OF K, of bytes p] b by (fastforce simp: not_less split: sum.splits)
  have "q \<noteq> Err e" for e
  proof
    assume "q = Err e"
    then have e: "q = Err OUT_OF_MEMORY" using A(2) by blast
    have "\<not> (bytes = 0 \<or> bytes > VMALLOC_SIZE)" using b by simp
    then have "\<exists>m''. vmm_back root (gap_start v index) sz p m = Return (Err OUT_OF_MEMORY, m'')"
      using A(1) unfolding e vmm_alloc_def Let_def prod.case sz_def [symmetric] g
      by (auto split: outcome.splits sum.splits prod.splits)
    then have "avail m < 4 * unat (sz div FRAME_SIZE)"
      unfolding vmm_back_def using back_loop_avail [OF pi] by blast
    then show False using f u by (simp add: unat_div_distrib FRAME_SIZE_4096)
  qed
  then show ?thesis using A(1) by (cases q) auto
qed

text \<open>
  C5: \<^verbatim>\<open>vmm::alloc\<close> succeeds whenever it can: if the table of allocations has a free entry, the
  rounded size with its guard page fits between the allocations somewhere in the window,
  and four frames per page are free, one for the page and one for each table a mapping may
  need, an address is returned.
\<close>

theorem vmm_alloc_succeeds:
  assumes "kernel_inv root v m" "bytes \<noteq> 0" "bytes \<le> VMALLOC_SIZE" "m_count v < MAX_ALLOCATIONS"
    and "room v a ((unat bytes + 4095) div 4096 * 4096)"
    and "4 * ((unat bytes + 4095) div 4096) \<le> card (free_frames (m_pmm m))"
  shows "\<exists>base v' m'. vmm_alloc root bytes p (v, m) = Return (Ok base, v', m')"
  using vmm_alloc_live assms unfolding avail_def MAX_ALLOCATIONS_def by blast

lemma boot_alloc:
  assumes "bytes \<noteq> 0" "unat bytes \<le> 100"
  shows "bytes \<le> VMALLOC_SIZE" "m_count vmm_boot_state < MAX_ALLOCATIONS"
    "room vmm_boot_state window_first ((unat bytes + 4095) div 4096 * 4096)"
    "4 * ((unat bytes + 4095) div 4096) \<le> card (free_frames (m_pmm empty_machine))"
proof -
  have "unat bytes \<le> unat VMALLOC_SIZE" using assms(2) window_values(2) by simp
  then show "bytes \<le> VMALLOC_SIZE" by (simp add: word_le_nat_alt)
  show "m_count vmm_boot_state < MAX_ALLOCATIONS" by (simp add: vmm_boot_state_def MAX_ALLOCATIONS_def)
  have d: "(unat bytes + 4095) div 4096 \<le> 1" using assms(2) by simp
  then show "4 * ((unat bytes + 4095) div 4096) \<le> card (free_frames (m_pmm empty_machine))"
    by (simp add: empty_machine_def sample_pmm(2))
  show "room vmm_boot_state window_first ((unat bytes + 4095) div 4096 * 4096)"
    using d by (simp add: room_def vmm_boot_inv(2))
qed

theorem vmm_alloc_succeeds_witness:
  "\<exists>base v' m'. vmm_alloc 0x101000 100 KERNEL_DATA (vmm_boot_state, empty_machine) = Return (Ok base, v', m')"
proof -
  have b: "(100 :: u64) \<noteq> 0" "unat (100 :: u64) \<le> 100" by simp_all
  show ?thesis using vmm_alloc_succeeds [OF boot_kernel_inv b(1) boot_alloc [OF b]] .
qed

end
