(* ===== verification/Posix_Memory_Correct.thy ===== *)
theory Posix_Memory_Correct
  imports Posix_Memory Vmm_Live
begin

text \<open>
  The memory calls on a consistent kernel: a mapping is fresh and zeroed, its protection follows
  the request for write and execute access, its release restores the address space, and none of the calls can panic.
\<close>

section \<open>Release of a known range\<close>

lemma range_unique:
  assumes "vmm_inv v" "(b, k) \<in> set (vmm_ranges v)" "(b, k') \<in> set (vmm_ranges v)"
  shows "k' = k"
proof -
  obtain xs ys where rs: "vmm_ranges v = xs @ (b, k) # ys" using assms(2) by (meson split_list)
  have sp: "spaced window_first (xs @ (b, k) # ys) window_last" using assms(1) rs by (simp add: vmm_inv_def)
  have "0 < k" "0 < k'" using vmm_range_bounds(5) [OF assms(1)] assms(2,3) by blast+
  moreover have "(b, k') \<in> set (xs @ ys) \<Longrightarrow> b + k' + 4096 \<le> b \<or> b + k + 4096 \<le> b"
    using spaced_apart [OF sp] by blast
  ultimately show ?thesis using assms(3) rs by auto
qed

lemma vmm_free_Ok:
  assumes K: "kernel_inv root v m" and r: "(unat ptr, unat (align_up bytes FRAME_SIZE)) \<in> set (vmm_ranges v)"
  shows "\<exists>v' m'. vmm_free root ptr bytes (v, m) = Return (Ok (), v', m')"
proof -
  have inv: "vmm_inv v" using K by (simp add: kernel_inv_def)
  have hit: "\<exists>v' m'. free_search root ptr bytes index n (v, m) = Return (Ok (), v', m') \<or>
      free_search root ptr bytes index n (v, m) =
        obind (vmm_release root ptr (align_up bytes FRAME_SIZE) m) (\<lambda>m. Return (Ok (), v', m))"
    if "index + n = m_count v" "\<exists>i. index \<le> i \<and> i < m_count v \<and> vmm_ranges v ! i = (unat ptr, unat (align_up bytes FRAME_SIZE))"
    for index n
    using that
  proof (induction n arbitrary: index)
    case (Suc n)
    show ?case
    proof (cases "a_base (m_allocations v ! index) = ptr")
      case True
      have idx: "index < m_count v" using Suc.prems(1) by simp
      have "vmm_ranges v ! index = (unat ptr, unat (a_bytes (m_allocations v ! index)))"
        using nth_vmm_ranges [OF inv idx] True by simp
      then have "(unat ptr, unat (a_bytes (m_allocations v ! index))) \<in> set (vmm_ranges v)"
        using idx length_vmm_ranges [OF inv] by (metis nth_mem)
      then have "a_bytes (m_allocations v ! index) = align_up bytes FRAME_SIZE"
        using range_unique [OF inv r] by (simp add: word_unat_eq_iff)
      then show ?thesis using True by (auto simp: Let_def)
    next
      case False
      obtain i where i: "index \<le> i" "i < m_count v" "vmm_ranges v ! i = (unat ptr, unat (align_up bytes FRAME_SIZE))"
        using Suc.prems(2) by blast
      have "i \<noteq> index" using nth_vmm_ranges [OF inv, of index] i False by (auto simp: word_unat_eq_iff)
      then have "index + 1 \<le> i" using i(1) by simp
      then show ?thesis using Suc.IH [of "index + 1"] Suc.prems(1) i(2,3) False by (auto simp: Let_def)
    qed
  qed auto
  obtain i where i: "i < m_count v" "vmm_ranges v ! i = (unat ptr, unat (align_up bytes FRAME_SIZE))"
    using r length_vmm_ranges [OF inv] by (metis in_set_conv_nth)
  obtain r' v' m' where F: "vmm_free root ptr bytes (v, m) = Return (r', v', m')" using vmm_free_spec [OF K] by blast
  moreover have "r' = Ok ()"
    using hit [of 0 "m_count v"] i F unfolding vmm_free_def
    by (cases "vmm_release root ptr (align_up bytes FRAME_SIZE) m") auto
  ultimately show ?thesis by simp
qed

lemma same_split:
  assumes inv: "vmm_inv v" and "vmm_ranges v = xs @ (b, k) # ys" "vmm_ranges v = xs' @ (b, k) # ys'"
  shows "xs = xs'" "ys = ys'"
proof -
  have "(b, k) \<notin> set (as @ bs)" if "vmm_ranges v = as @ (b, k) # bs" for as bs
    using spaced_apart [of window_first as b k bs window_last b k] inv that
      vmm_range_bounds(5) [OF inv, of b k] by (auto simp: vmm_inv_def)
  from this [OF assms(2)] this [OF assms(3)] show "xs = xs'" "ys = ys'"
    using assms(2,3) append_Cons_eq_iff [of "(b, k)" xs ys xs' ys'] by auto
qed

section \<open>Mapping\<close>

definition mmap_prot :: "u32 \<Rightarrow> page_prot" where
  "mmap_prot protection =
     (if protection AND PROT_WRITE \<noteq> 0 then KERNEL_DATA
      else if protection AND PROT_EXEC \<noteq> 0 then GLOBAL OR EXEC else GLOBAL)"

definition fresh_mapping :: "paddr_t \<Rightarrow> u64 \<Rightarrow> nat \<Rightarrow> page_prot \<Rightarrow> posix_kernel \<Rightarrow> posix_kernel \<Rightarrow> bool" where
  "fresh_mapping root base n prot s s' \<longleftrightarrow>
     (case (s, s') of ((p, v, m), (p', v', m')) \<Rightarrow>
       p' = p\<lparr>pmem := pmem p'\<rparr> \<and>
       (\<exists>index. vmm_ranges v' = take index (vmm_ranges v) @ (unat base, n) # drop index (vmm_ranges v)) \<and>
       (\<forall>va. if unat base \<le> unat va \<and> unat va < unat base + n
             then address_space m root va = None \<and> pmem p' va = 0 \<and>
                  (\<exists>pa. address_space m' root va = Some (pa, effective_prot (feats m) prot))
             else address_space m' root va = address_space m root va \<and> pmem p' va = pmem p va))"

lemma mmap_spec:
  assumes K: "kernel_inv root v m"
  shows "\<exists>a p' v' m'. posix_mmap root address len protection flags fd offset (p, v, m) = Return (a, p', v', m') \<and>
    kernel_inv root v' m' \<and> frames_kept root m (vmm_pages v) m' (vmm_pages v') \<and>
    (if a = -1
     then p' = p\<lparr>errno := if mmap_refused address len protection flags fd offset then EINVAL else ENOMEM\<rparr> \<and>
          v' = v \<and> address_space m' root = address_space m root \<and>
          (mmap_refused address len protection flags fd offset \<or>
           (\<exists>e. vmm_alloc root len KERNEL_DATA (v, m) = Return (Err e, v', m')))
     else \<not> mmap_refused address len protection flags fd offset \<and>
          fresh_mapping root a (unat (align_up len FRAME_SIZE)) (mmap_prot protection) (p, v, m) (p', v', m'))"
proof -
  obtain r v1 m1 where A: "vmm_alloc root len KERNEL_DATA (v, m) = Return (r, v1, m1)" "kernel_inv root v1 m1"
      "frames_kept root m (vmm_pages v) m1 (vmm_pages v1)"
      "case r of
       Ok base \<Rightarrow> \<exists>n index. len \<noteq> 0 \<and> 4096 dvd n \<and> unat len \<le> n \<and> n < unat len + 4096 \<and>
         vmm_ranges v1 = take index (vmm_ranges v) @ (unat base, n) # drop index (vmm_ranges v) \<and>
         (\<forall>va. if unat base \<le> unat va \<and> unat va < unat base + n
               then address_space m root va = None \<and>
                    (\<exists>pa. address_space m1 root va = Some (pa, effective_prot (feats m) KERNEL_DATA))
               else address_space m1 root va = address_space m root va)
     | Err e \<Rightarrow> v1 = v \<and> address_space m1 root = address_space m root \<and>
         e = (if len = 0 \<or> len > VMALLOC_SIZE then INVALID_ADDRESS else OUT_OF_MEMORY)"
    using vmm_alloc_spec [OF K, of len KERNEL_DATA] by blast
  show ?thesis
  proof (cases "mmap_refused address len protection flags fd offset")
    case True
    then show ?thesis using K by (simp add: posix_mmap_def frames_kept_refl)
  next
    case ok: False
    show ?thesis
    proof (cases r)
      case (Inl e)
      then show ?thesis using A ok by (simp add: posix_mmap_def)
    next
      case (Inr base)
      obtain n index where n: "len \<noteq> 0" "4096 dvd n" "unat len \<le> n" "n < unat len + 4096"
          "vmm_ranges v1 = take index (vmm_ranges v) @ (unat base, n) # drop index (vmm_ranges v)"
        and as: "\<And>va. if unat base \<le> unat va \<and> unat va < unat base + n
               then address_space m root va = None \<and>
                    (\<exists>pa. address_space m1 root va = Some (pa, effective_prot (feats m) KERNEL_DATA))
               else address_space m1 root va = address_space m root va"
        using A(4) unfolding Inr sum.case by blast
      have "(unat base, n) \<in> set (vmm_ranges v1)" by (simp add: n(5))
      have inv1: "vmm_inv v1" using A(2) by (simp add: kernel_inv_def)
      note bd = vmm_range_bounds [OF inv1 \<open>(unat base, n) \<in> set (vmm_ranges v1)\<close>]
      have "unat len + 4095 < 2 ^ 64" using n(3) bd(2) by simp
      then have "unat (align_up len FRAME_SIZE) = (unat len + 4095) div 4096 * 4096"
        using unat_align_up [of 12 len] by (simp add: FRAME_SIZE_eq)
      moreover have rn: "(unat len + 4095) div 4096 * 4096 = n"
        using round_up_fits [of 0 n "unat len"] n(2-4) by (auto elim!: dvdE)
      ultimately have sz: "unat (align_up len FRAME_SIZE) = n" by simp
      let ?p = "p\<lparr>pmem := snd (memset base 0 n (pmem p))\<rparr>"
      have "n < 2 ^ 64" using bd(6) by simp
      from memset_spec [OF this, of base 0 "pmem p"]
      have zero: "pmem ?p va = (if unat base \<le> unat va \<and> unat va < unat base + n then 0 else pmem p va)" for va
        using in_offset [of base n va] bd(6) by simp
      have neq: "base \<noteq> -1" using bd(5,6) by (auto simp: unsigned_minus_1_eq_mask mask_eq_exp_minus_1)
      show ?thesis
      proof (cases "protection AND PROT_WRITE \<noteq> 0")
        case True
        have "posix_mmap root address len protection flags fd offset (p, v, m) = Return (base, ?p, v1, m1)"
          using ok A(1) Inr True by (simp add: posix_mmap_def sz)
        moreover have "fresh_mapping root base n (mmap_prot protection) (p, v, m) (?p, v1, m1)"
          unfolding fresh_mapping_def prod.case using n(5) as zero True by (auto simp: mmap_prot_def)
        ultimately show ?thesis using A(2,3) neq ok sz by auto
      next
        case False
        let ?q = "mmap_prot protection"
        obtain r2 m2 where P: "vmm_protect root base len ?q (v1, m1) = Return (r2, v1, m2)"
            "kernel_inv root v1 m2" "frames_kept root m1 (vmm_pages v1) m2 (vmm_pages v1)"
            "\<not> isl r2 \<longleftrightarrow> len \<noteq> 0 \<and> 4096 dvd unat base \<and>
               (\<exists>(b, k)\<in>set (vmm_ranges v1). b \<le> unat base \<and> unat base + unat len \<le> b + k)"
            "case r2 of
               Ok _ \<Rightarrow> \<forall>va. address_space m2 root va =
                 (if unat base \<le> unat va \<and> unat va < unat base + n
                  then map_option (\<lambda>(pa, _). (pa, effective_prot (feats m1) ?q)) (address_space m1 root va)
                  else address_space m1 root va)
             | Err e \<Rightarrow> e = INVALID_ADDRESS \<and> m2 = m1"
          using vmm_protect_spec [OF A(2) rn [symmetric], of base ?q] by blast
        have "\<not> isl r2" using P(4) n(1,3) bd(3) \<open>(unat base, n) \<in> set (vmm_ranges v1)\<close> by force
        then have r2: "r2 = Ok ()" by (cases r2) auto
        have ft: "feats m1 = feats m" using A(3) by (simp add: frames_kept_def same_config_def)
        have "posix_mmap root address len protection flags fd offset (p, v, m) = Return (base, ?p, v1, m2)"
          using ok A(1) Inr False P(1) r2 by (simp add: posix_mmap_def sz mmap_prot_def Let_def split: if_splits)
        moreover have "fresh_mapping root base n ?q (p, v, m) (?p, v1, m2)"
          unfolding fresh_mapping_def prod.case using n(5) as zero P(5) r2 ft by (fastforce split: if_splits)
        moreover have "frames_kept root m (vmm_pages v) m2 (vmm_pages v1)" using frames_kept_trans [OF A(3) P(3)] .
        ultimately show ?thesis using P(2) neq ok sz by auto
      qed
    qed
  qed
qed

section \<open>Properties\<close>

lemma mmap_prot_bits:
  "mmap_prot protection AND WRITE \<noteq> 0 \<longleftrightarrow> protection AND PROT_WRITE \<noteq> 0"
  "mmap_prot protection AND EXEC \<noteq> 0 \<longleftrightarrow> protection AND PROT_EXEC \<noteq> 0 \<and> protection AND PROT_WRITE = 0"
  "mmap_prot protection AND NOT (WRITE OR EXEC) = GLOBAL"
  by (auto simp: mmap_prot_def KERNEL_DATA_def WRITE_def EXEC_def GLOBAL_def)

text \<open>
  C13: on a consistent kernel \<^verbatim>\<open>mmap\<close> never panics: dropping write access on the pages it has
  just allocated cannot fail. It refuses a request with \<^verbatim>\<open>EINVAL\<close> or runs out of memory with
  \<^verbatim>\<open>ENOMEM\<close>, changing no translation and no byte; or it returns the base of a new range of the
  requested length rounded up to pages that was unmapped and reads as zero, and every other
  byte and translation is what it was. The range can be written exactly when \<^verbatim>\<open>PROT_WRITE\<close> was
  asked for, and executed exactly when \<^verbatim>\<open>PROT_EXEC\<close> was asked for without \<^verbatim>\<open>PROT_WRITE\<close>; it can
  always be read. So a request for both writing and executing gets less than it asks for, and
  one for no access at all gets more.
\<close>

theorem mmap_correct:
  assumes "kernel_inv root v m"
  shows "\<exists>a p' v' m'. posix_mmap root address len protection flags fd offset (p, v, m) = Return (a, p', v', m') \<and>
    kernel_inv root v' m' \<and> frames_kept root m (vmm_pages v) m' (vmm_pages v') \<and>
    (if a = -1
     then p' = p\<lparr>errno := if mmap_refused address len protection flags fd offset then EINVAL else ENOMEM\<rparr> \<and>
          v' = v \<and> address_space m' root = address_space m root
     else \<not> mmap_refused address len protection flags fd offset \<and>
          (\<exists>q. fresh_mapping root a (unat (align_up len FRAME_SIZE)) q (p, v, m) (p', v', m') \<and>
             (q AND WRITE \<noteq> 0 \<longleftrightarrow> protection AND PROT_WRITE \<noteq> 0) \<and>
             (q AND EXEC \<noteq> 0 \<longleftrightarrow> protection AND PROT_EXEC \<noteq> 0 \<and> protection AND PROT_WRITE = 0) \<and>
             q AND NOT (WRITE OR EXEC) = GLOBAL))"
proof -
  let ?ex = "\<lambda>a p' v' m'. \<exists>q. fresh_mapping root a (unat (align_up len FRAME_SIZE)) q (p, v, m) (p', v', m') \<and>
      (q AND WRITE \<noteq> 0 \<longleftrightarrow> protection AND PROT_WRITE \<noteq> 0) \<and>
      (q AND EXEC \<noteq> 0 \<longleftrightarrow> protection AND PROT_EXEC \<noteq> 0 \<and> protection AND PROT_WRITE = 0) \<and>
      q AND NOT (WRITE OR EXEC) = GLOBAL"
  have ex: "?ex a p' v' m'" if "fresh_mapping root a (unat (align_up len FRAME_SIZE)) (mmap_prot protection) (p, v, m) (p', v', m')" for a p' v' m'
    using that mmap_prot_bits [of protection] by (intro exI [of _ "mmap_prot protection"] conjI) assumption+
  from mmap_spec [OF assms, of address len protection flags fd offset p]
  show ?thesis
    by (elim ex_forward conjE, intro conjI) (assumption, assumption, assumption, unfold if_bool_eq_conj, blast intro: ex)
qed

text \<open>A mapping of a readable page on the machine at boot.\<close>

definition sample_process :: posix where
  "sample_process = \<lparr>m_descriptors = replicate 8 closed_entry, errno = 0,
     pconsole = \<lparr>m_sink = None, written = []\<rparr>, pmem = (\<lambda>_. 7)\<rparr>"

lemma sample_mmap:
  "\<exists>a p' v' m'. posix_mmap 0x101000 0 100 PROT_READ (MAP_PRIVATE OR MAP_ANONYMOUS) (-1) 0
     (sample_process, vmm_boot_state, empty_machine) = Return (a, p', v', m') \<and> a \<noteq> -1"
proof -
  have ok: "\<not> mmap_refused 0 100 PROT_READ (MAP_PRIVATE OR MAP_ANONYMOUS) (-1) 0"
    by (simp add: mmap_refused_def PROT_READ_def PROT_WRITE_def PROT_EXEC_def MAP_PRIVATE_def MAP_ANONYMOUS_def
        MAP_NORESERVE_def SUPPORTED_FLAGS_def SUPPORTED_PROTECTION_def)
  have b: "(100 :: u64) \<noteq> 0" "unat (100 :: u64) \<le> 100" by simp_all
  obtain base v1 m1 where "vmm_alloc 0x101000 100 KERNEL_DATA (vmm_boot_state, empty_machine) = Return (Ok base, v1, m1)"
    using vmm_alloc_live [OF boot_kernel_inv b(1) boot_alloc(1) [OF b] boot_alloc(2) [OF b, unfolded MAX_ALLOCATIONS_def]
        boot_alloc(3) [OF b] boot_alloc(4) [OF b, folded avail_def]] by blast
  then show ?thesis
    using mmap_spec [OF boot_kernel_inv, of 0 100 PROT_READ "MAP_PRIVATE OR MAP_ANONYMOUS" "-1" 0 sample_process] ok
    by auto
qed

lemma readable_prot:
  assumes "q AND WRITE = 0" "q AND EXEC = 0" "q AND NOT (WRITE OR EXEC) = GLOBAL"
  shows "q = GLOBAL"
proof -
  have "q = (q AND (WRITE OR EXEC)) OR (q AND NOT (WRITE OR EXEC))" by (simp only: bit.disj_cancel_right and.right_neutral flip: bit.conj_disj_distrib)
  then show ?thesis using assms by (simp add: bit.conj_disj_distrib)
qed

theorem mmap_correct_witness:
  "\<exists>a p' v' m'. posix_mmap 0x101000 0 100 PROT_READ (MAP_PRIVATE OR MAP_ANONYMOUS) (-1) 0
     (sample_process, vmm_boot_state, empty_machine) = Return (a, p', v', m') \<and>
     address_space empty_machine 0x101000 a = None \<and> pmem sample_process a = 7 \<and> pmem p' a = 0 \<and>
     (\<exists>pa. address_space m' 0x101000 a = Some (pa, effective_prot (feats empty_machine) GLOBAL))"
proof -
  obtain a p' v' m' where R: "posix_mmap 0x101000 0 100 PROT_READ (MAP_PRIVATE OR MAP_ANONYMOUS) (-1) 0
     (sample_process, vmm_boot_state, empty_machine) = Return (a, p', v', m')" "a \<noteq> -1" using sample_mmap by blast
  have n: "unat (align_up (100 :: u64) FRAME_SIZE) = 4096" using unat_align_up [of 12 "100 :: u64"] by (simp add: FRAME_SIZE_eq)
  have pr: "PROT_READ AND PROT_WRITE = 0" "PROT_READ AND PROT_EXEC = 0"
    by (simp_all add: PROT_READ_def PROT_WRITE_def PROT_EXEC_def)
  obtain q where q: "fresh_mapping 0x101000 a 4096 q (sample_process, vmm_boot_state, empty_machine) (p', v', m')"
      "q AND WRITE = 0" "q AND EXEC = 0" "q AND NOT (WRITE OR EXEC) = GLOBAL"
    using mmap_correct [OF boot_kernel_inv, of 0 100 PROT_READ "MAP_PRIVATE OR MAP_ANONYMOUS" "-1" 0 sample_process] R
    unfolding n pr by auto
  then have "fresh_mapping 0x101000 a 4096 GLOBAL (sample_process, vmm_boot_state, empty_machine) (p', v', m')"
    using readable_prot by blast
  then show ?thesis using R(1) by (auto simp: fresh_mapping_def sample_process_def split: if_splits)
qed

text \<open>
  C14: \<^verbatim>\<open>munmap\<close> undoes \<^verbatim>\<open>mmap\<close>: releasing what a mapping returned, with the length it was asked
  for, succeeds, gives back exactly the allocations and the translations there were before,
  and loses no frame.
\<close>

theorem mmap_munmap:
  assumes "kernel_inv root v m"
    and "posix_mmap root address len protection flags fd offset (p, v, m) = Return (a, p1, v1, m1)" "a \<noteq> -1"
  shows "\<exists>v2 m2. posix_munmap root a len (p1, v1, m1) = Return (0, p1, v2, m2) \<and> kernel_inv root v2 m2 \<and>
    vmm_ranges v2 = vmm_ranges v \<and> address_space m2 root = address_space m root \<and>
    frames_kept root m (vmm_pages v) m2 (vmm_pages v2)"
proof -
  let ?n = "unat (align_up len FRAME_SIZE)"
  have M: "kernel_inv root v1 m1" "frames_kept root m (vmm_pages v) m1 (vmm_pages v1)"
      "fresh_mapping root a ?n (mmap_prot protection) (p, v, m) (p1, v1, m1)"
    using mmap_spec [OF assms(1), of address len protection flags fd offset p] assms(2,3) by auto
  obtain index where rs: "vmm_ranges v1 = take index (vmm_ranges v) @ (unat a, ?n) # drop index (vmm_ranges v)"
    using M(3) by (auto simp: fresh_mapping_def)
  have as: "if unat a \<le> unat va \<and> unat va < unat a + ?n then address_space m root va = None
      else address_space m1 root va = address_space m root va" for va
    using M(3) unfolding fresh_mapping_def by (auto split: if_splits)
  have r: "(unat a, ?n) \<in> set (vmm_ranges v1)" by (simp add: rs)
  obtain v2 m2 where F: "vmm_free root a len (v1, m1) = Return (Ok (), v2, m2)" using vmm_free_Ok [OF M(1) r] by blast
  obtain xs ys where S: "kernel_inv root v2 m2" "frames_kept root m1 (vmm_pages v1) m2 (vmm_pages v2)"
      "vmm_ranges v1 = xs @ (unat a, ?n) # ys" "vmm_ranges v2 = xs @ ys"
      "\<And>va. address_space m2 root va =
         (if unat a \<le> unat va \<and> unat va < unat a + ?n then None else address_space m1 root va)"
    using vmm_free_spec [OF M(1), of a len] F by auto
  have inv1: "vmm_inv v1" using M(1) by (simp add: kernel_inv_def)
  have "xs = take index (vmm_ranges v)" "ys = drop index (vmm_ranges v)"
    using same_split [OF inv1 S(3) rs] by simp_all
  then have "vmm_ranges v2 = vmm_ranges v" using S(4) by simp
  moreover have "address_space m2 root va = address_space m root va" for va using S(5) as [of va] by auto
  then have "address_space m2 root = address_space m root" ..
  moreover have "posix_munmap root a len (p1, v1, m1) = Return (0, p1, v2, m2)" using F by (simp add: posix_munmap_def)
  ultimately show ?thesis using S(1) frames_kept_trans [OF M(2) S(2)] by blast
qed

theorem mmap_munmap_witness:
  "\<exists>a p1 v1 m1 v2 m2. posix_mmap 0x101000 0 100 PROT_READ (MAP_PRIVATE OR MAP_ANONYMOUS) (-1) 0
      (sample_process, vmm_boot_state, empty_machine) = Return (a, p1, v1, m1) \<and> a \<noteq> -1 \<and>
     posix_munmap 0x101000 a 100 (p1, v1, m1) = Return (0, p1, v2, m2) \<and> vmm_ranges v2 = [] \<and>
     address_space m2 0x101000 a = None"
proof -
  obtain a p1 v1 m1 where R: "posix_mmap 0x101000 0 100 PROT_READ (MAP_PRIVATE OR MAP_ANONYMOUS) (-1) 0
      (sample_process, vmm_boot_state, empty_machine) = Return (a, p1, v1, m1)" "a \<noteq> -1" using sample_mmap by blast
  then show ?thesis
    using mmap_munmap [OF boot_kernel_inv R] by (auto simp: vmm_boot_inv(2) empty_machine_inv(2))
qed

end
