(* ===== verification/Serial.thy ===== *)
theory Serial
  imports Format Containers
begin

text \<open>
  \<^verbatim>\<open>arch/x86_64/serial\<close>: the port instructions and the driver of the first serial port. What
  the processor does on its ports is a list of events; the device is a function that answers
  a read from the events before it, so that it may answer differently every time.
\<close>

section \<open>Ports\<close>

datatype io_event = Outb u16 u8 | Inb u16 u8

type_synonym io_device = "io_event list \<Rightarrow> u16 \<Rightarrow> u8"

definition outb :: "u16 \<Rightarrow> u8 \<Rightarrow> io_event list \<Rightarrow> io_event list" where
  "outb port v h = h @ [Outb port v]"

definition inb :: "io_device \<Rightarrow> u16 \<Rightarrow> io_event list \<Rightarrow> u8 \<times> io_event list" where
  "inb dev port h = (dev h port, h @ [Inb port (dev h port)])"

section \<open>The serial port\<close>

definition COM1 :: u16 where "COM1 = 0x3F8"

definition DATA_PORT :: u16 where "DATA_PORT = COM1 + 0"
definition INTERRUPT_ENABLE :: u16 where "INTERRUPT_ENABLE = COM1 + 1"
definition FIFO_CONTROL :: u16 where "FIFO_CONTROL = COM1 + 2"
definition LINE_CONTROL :: u16 where "LINE_CONTROL = COM1 + 3"
definition MODEM_CONTROL :: u16 where "MODEM_CONTROL = COM1 + 4"
definition LINE_STATUS :: u16 where "LINE_STATUS = COM1 + 5"

definition UART_BASE_CLOCK_HZ :: u32 where "UART_BASE_CLOCK_HZ = 115200"
definition BAUD_RATE :: u32 where "BAUD_RATE = 38400"
definition BAUD_DIVISOR :: u16 where "BAUD_DIVISOR = ucast (UART_BASE_CLOCK_HZ div BAUD_RATE)"

definition LINE_CONTROL_DLAB :: u8 where "LINE_CONTROL_DLAB = push_bit 7 1"
definition LINE_CONTROL_8N1 :: u8 where "LINE_CONTROL_8N1 = 0x03"
definition FIFO_ENABLE_CLEAR_14 :: u8 where "FIFO_ENABLE_CLEAR_14 = 0xC7"
definition MODEM_DTR_RTS_OUT2 :: u8 where "MODEM_DTR_RTS_OUT2 = 0x0B"
definition LINE_STATUS_TX_EMPTY :: u8 where "LINE_STATUS_TX_EMPTY = push_bit 5 1"

definition serial_init :: "io_event list \<Rightarrow> io_event list" where
  "serial_init h =
     (let h = outb INTERRUPT_ENABLE 0x00 h;
          h = outb LINE_CONTROL LINE_CONTROL_DLAB h;
          h = outb DATA_PORT (ucast (BAUD_DIVISOR AND 0xFF)) h;
          h = outb INTERRUPT_ENABLE (ucast (drop_bit 8 BAUD_DIVISOR AND 0xFF)) h;
          h = outb LINE_CONTROL LINE_CONTROL_8N1 h;
          h = outb FIFO_CONTROL FIFO_ENABLE_CLEAR_14 h
      in outb MODEM_CONTROL MODEM_DTR_RTS_OUT2 h)"

definition can_write :: "io_device \<Rightarrow> io_event list \<Rightarrow> bool \<times> io_event list" where
  "can_write dev h = (let (v, h) = inb dev LINE_STATUS h in (v AND LINE_STATUS_TX_EMPTY \<noteq> 0, h))"

text \<open>The loop that waits for an empty transmitter; it may run forever.\<close>

partial_function (option) wait_writable :: "io_device \<Rightarrow> io_event list \<Rightarrow> io_event list option" where
  "wait_writable dev h =
     (let (ready, h) = can_write dev h in if ready then Some h else wait_writable dev h)"

definition write_char :: "io_device \<Rightarrow> char \<Rightarrow> io_event list \<Rightarrow> io_event list option" where
  "write_char dev c h = map_option (outb DATA_PORT (of_char c)) (wait_writable dev h)"

definition newline :: char where "newline = CHR 0x0A"
definition carriage_return :: char where "carriage_return = CHR 0x0D"

definition write_converted :: "io_device \<Rightarrow> char \<Rightarrow> io_event list \<Rightarrow> io_event list option" where
  "write_converted dev c h =
     Option.bind (if c = newline then write_char dev carriage_return h else Some h) (write_char dev c)"

text \<open>A C string: the loop of \<^verbatim>\<open>write\<close> ends at the terminator.\<close>

fun write_loop :: "io_device \<Rightarrow> c_string \<Rightarrow> io_event list \<Rightarrow> io_event list option" where
  "write_loop dev [] h = Some h"
| "write_loop dev (c # s) h =
     (if c = CHR 0x00 then Some h else Option.bind (write_converted dev c h) (write_loop dev s))"

definition serial_write :: "io_device \<Rightarrow> c_string option \<Rightarrow> io_event list \<Rightarrow> io_event list option" where
  "serial_write dev s =
     (case s of None \<Rightarrow> write_loop dev ''<null>'' | Some s \<Rightarrow> write_loop dev s)"

fun console_sink :: "io_device \<Rightarrow> string \<Rightarrow> io_event list \<Rightarrow> io_event list option" where
  "console_sink dev [] h = Some h"
| "console_sink dev (c # bytes) h = Option.bind (write_converted dev c h) (console_sink dev bytes)"

text \<open>\<^verbatim>\<open>attach_console\<close> with the address of \<^verbatim>\<open>console_sink\<close>, and the component's \<^verbatim>\<open>init\<close>.\<close>

definition attach_console :: "u64 \<Rightarrow> console \<Rightarrow> console" where
  "attach_console sink con = set_console_sink (Some sink) con"

definition serial_component_init :: "u64 \<Rightarrow> io_event list \<times> console \<Rightarrow> io_event list \<times> console" where
  "serial_component_init sink s = (serial_init (fst s), attach_console sink (snd s))"

section \<open>What goes over the wire\<close>

fun crlf :: "string \<Rightarrow> string" where
  "crlf [] = []"
| "crlf (c # s) = (if c = newline then [carriage_return, newline] else [c]) @ crlf s"

text \<open>
  A paced exchange: every event polls the line status or sends a byte, every byte directly
  follows a poll that found the transmitter empty, and the bytes sent are \<open>bs\<close>.
\<close>

inductive paced :: "io_event list \<Rightarrow> u8 list \<Rightarrow> bool" where
  none: "paced [] []"
| poll: "paced es bs \<Longrightarrow> paced (Inb LINE_STATUS v # es) bs"
| send: "paced es bs \<Longrightarrow> v AND LINE_STATUS_TX_EMPTY \<noteq> 0 \<Longrightarrow>
    paced (Inb LINE_STATUS v # Outb DATA_PORT b # es) (b # bs)"

lemma paced_append: "paced es bs \<Longrightarrow> paced es' bs' \<Longrightarrow> paced (es @ es') (bs @ bs')"
  by (induction rule: paced.induct) (auto intro: paced.intros)

definition responsive :: "io_device \<Rightarrow> bool" where
  "responsive dev \<longleftrightarrow>
     (\<forall>h. \<exists>n. dev (((\<lambda>h. snd (inb dev LINE_STATUS h)) ^^ n) h) LINE_STATUS AND LINE_STATUS_TX_EMPTY \<noteq> 0)"

lemma wait_writable_step:
  "wait_writable dev h =
     (if dev h LINE_STATUS AND LINE_STATUS_TX_EMPTY \<noteq> 0 then Some (snd (inb dev LINE_STATUS h))
      else wait_writable dev (snd (inb dev LINE_STATUS h)))"
  by (subst wait_writable.simps) (simp add: can_write_def inb_def)

lemma wait_writable_returns:
  assumes "dev (((\<lambda>h. snd (inb dev LINE_STATUS h)) ^^ n) h) LINE_STATUS AND LINE_STATUS_TX_EMPTY \<noteq> 0"
  shows "\<exists>es v. wait_writable dev h = Some (h @ es @ [Inb LINE_STATUS v]) \<and>
    v AND LINE_STATUS_TX_EMPTY \<noteq> 0 \<and> paced es []"
  using assms
proof (induction n arbitrary: h)
  case 0
  then show ?case
    by (intro exI [of _ "[]"] exI [of _ "dev h LINE_STATUS"])
      (subst wait_writable_step, simp add: inb_def paced.none)
next
  case (Suc n)
  show ?case
  proof (cases "dev h LINE_STATUS AND LINE_STATUS_TX_EMPTY \<noteq> 0")
    case True
    then show ?thesis
      by (intro exI [of _ "[]"] exI [of _ "dev h LINE_STATUS"])
        (subst wait_writable_step, simp add: inb_def paced.none)
  next
    case False
    let ?h = "snd (inb dev LINE_STATUS h)"
    obtain es v where e: "wait_writable dev ?h = Some (?h @ es @ [Inb LINE_STATUS v])"
        "v AND LINE_STATUS_TX_EMPTY \<noteq> 0" "paced es []"
      using Suc.IH [of ?h] Suc.prems unfolding funpow_Suc_right comp_apply by blast
    then show ?thesis
      using False paced.poll [OF e(3), of "dev h LINE_STATUS"]
      by (intro exI [of _ "Inb LINE_STATUS (dev h LINE_STATUS) # es"] exI [of _ v])
        (subst wait_writable_step, simp add: inb_def)
  qed
qed

lemma paced_polls: "paced es [] \<Longrightarrow> v AND LINE_STATUS_TX_EMPTY \<noteq> 0 \<Longrightarrow>
    paced (es @ [Inb LINE_STATUS v, Outb DATA_PORT b]) [b]"
  using paced_append [OF _ paced.send [OF paced.none], of es "[]" v b] by simp

lemma write_char_sends:
  assumes "responsive dev"
  shows "\<exists>es. write_char dev c h = Some (h @ es) \<and> paced es [of_char c]"
proof -
  obtain es v where "wait_writable dev h = Some (h @ es @ [Inb LINE_STATUS v])"
      "v AND LINE_STATUS_TX_EMPTY \<noteq> 0" "paced es []"
    using assms wait_writable_returns unfolding responsive_def by blast
  then show ?thesis using paced_polls [of es v "of_char c"] by (simp add: write_char_def outb_def)
qed

lemma write_converted_sends:
  assumes "responsive dev"
  shows "\<exists>es. write_converted dev c h = Some (h @ es) \<and> paced es (map of_char (crlf [c]))"
proof (cases "c = newline")
  case True
  obtain es where e: "write_char dev carriage_return h = Some (h @ es)" "paced es [of_char carriage_return]"
    using write_char_sends [OF assms] by blast
  obtain es' where e': "write_char dev c (h @ es) = Some ((h @ es) @ es')" "paced es' [of_char c]"
    using write_char_sends [OF assms] by blast
  show ?thesis using True e e' paced_append [OF e(2) e'(2)] by (simp add: write_converted_def)
next
  case False
  then show ?thesis using write_char_sends [OF assms, of c h] by (simp add: write_converted_def)
qed

lemma console_sink_sends:
  assumes "responsive dev"
  shows "\<exists>es. console_sink dev t h = Some (h @ es) \<and> paced es (map of_char (crlf t))"
proof (induction t arbitrary: h)
  case Nil
  show ?case by (simp add: paced.none)
next
  case (Cons c t)
  obtain es where e: "write_converted dev c h = Some (h @ es)" "paced es (map of_char (crlf [c]))"
    using write_converted_sends [OF assms] by blast
  obtain es' where e': "console_sink dev t (h @ es) = Some ((h @ es) @ es')" "paced es' (map of_char (crlf t))"
    using Cons.IH by blast
  show ?case using e e' paced_append [OF e(2) e'(2)] by (auto split: if_splits)
qed

lemma write_loop_text: "write_loop dev s h = console_sink dev (takeWhile (\<lambda>c. c \<noteq> CHR 0x00) s) h"
  by (induction s arbitrary: h) (auto split: Option.bind_split)

text \<open>
  C32: on a serial port whose transmitter empties again and again, printing returns, and what
  goes over the wire is the text with every newline preceded by a carriage return, each byte
  sent directly after a poll that found the transmitter empty; nothing else is done on any
  port. The same holds of a C string, up to its terminator.
\<close>

theorem serial_output:
  assumes "responsive dev"
  shows "(\<exists>es. console_sink dev t h = Some (h @ es) \<and> paced es (map of_char (crlf t))) \<and>
    (\<exists>es. serial_write dev (Some s) h = Some (h @ es) \<and>
       paced es (map of_char (crlf (takeWhile (\<lambda>c. c \<noteq> CHR 0x00) s))))"
  using console_sink_sends [OF assms] by (simp add: serial_write_def write_loop_text)

text \<open>A transmitter that is empty at every second poll.\<close>

definition slow_uart :: io_device where
  "slow_uart h port = (if even (length h) then 0 else 0x20)"

theorem serial_output_witness:
  "\<exists>es. console_sink slow_uart ''hi'' [] = Some es \<and> paced es [0x68, 0x69]"
proof -
  have "responsive slow_uart"
    unfolding responsive_def
  proof
    fix h
    show "\<exists>n. slow_uart (((\<lambda>h. snd (inb slow_uart LINE_STATUS h)) ^^ n) h) LINE_STATUS AND LINE_STATUS_TX_EMPTY \<noteq> 0"
      by (cases "even (length h)")
        (rule exI [of _ 1], simp add: slow_uart_def inb_def LINE_STATUS_TX_EMPTY_def,
         rule exI [of _ 0], simp add: slow_uart_def inb_def LINE_STATUS_TX_EMPTY_def)
  qed
  from serial_output [OF this, of "''hi''" "[]"]
  obtain es where e: "console_sink slow_uart ''hi'' [] = Some ([] @ es)" "paced es (map of_char (crlf ''hi''))" by blast
  have "map of_char (crlf ''hi'') = [0x68 :: u8, 0x69]" by (simp add: newline_def)
  then show ?thesis using e by auto
qed

end
