(* ===== verification/Kheap.thy ===== *)
theory Kheap
  imports Vmm_Live
begin

text \<open>
  \<^verbatim>\<open>kernel/mm/kheap.cpp\<close>: the kernel heap, dlmalloc over pages of the virtual memory manager.
  dlmalloc is third-party code and an argument here; what the heap relies on is stated as
  \<open>dl_contract\<close>. Allocation and release run under a spinlock in the code: the calls are modelled
  one at a time, as the lock makes them.
\<close>

section \<open>The heap\<close>

text \<open>
  dlmalloc, built into the heap with the two functions below as its source of pages; its own
  state is \<open>'d\<close>. A pointer is an address, the null pointer 0.
\<close>

record 'd dlmalloc =
  dlmalloc_call :: "u64 \<Rightarrow> 'd \<times> vmm_machine \<Rightarrow> (u64 \<times> 'd \<times> vmm_machine) outcome"
  dlmemalign_call :: "u64 \<Rightarrow> u64 \<Rightarrow> 'd \<times> vmm_machine \<Rightarrow> (u64 \<times> 'd \<times> vmm_machine) outcome"
  dlfree_call :: "u64 \<Rightarrow> 'd \<times> vmm_machine \<Rightarrow> ('d \<times> vmm_machine) outcome"

record 'd kheap =
  m_heap_ready :: bool
  dl_state :: 'd

definition NATURAL_ALIGNMENT :: u64 where "NATURAL_ALIGNMENT = 2 * 8"

definition heap_mmap :: "paddr_t \<Rightarrow> u64 \<Rightarrow> vmm_machine \<Rightarrow> (u64 \<times> vmm_machine) outcome" where
  "heap_mmap root bytes vm =
     obind (vmm_alloc root bytes KERNEL_DATA vm) (\<lambda>(r, vm).
       Return (case r of Ok base \<Rightarrow> base | Err _ \<Rightarrow> NOT 0, vm))"

definition heap_munmap :: "paddr_t \<Rightarrow> u64 \<Rightarrow> u64 \<Rightarrow> vmm_machine \<Rightarrow> (int \<times> vmm_machine) outcome" where
  "heap_munmap root ptr bytes vm =
     obind (vmm_free root ptr bytes vm) (\<lambda>(r, vm).
       Return (case r of Ok _ \<Rightarrow> 0 | Err _ \<Rightarrow> -1, vm))"

definition kheap_alloc :: "'d dlmalloc \<Rightarrow> u64 \<Rightarrow> u64 \<Rightarrow> 'd kheap \<times> vmm_machine \<Rightarrow>
    (u64 \<times> 'd kheap \<times> vmm_machine) outcome" where
  "kheap_alloc dl bytes alignment s =
     (let (h, vm) = s
      in if \<not> m_heap_ready h then Panic ''kernel heap used before KHEAP init''
         else if bytes = 0 then Return (0, h, vm)
         else
           obind (if alignment \<le> NATURAL_ALIGNMENT then dlmalloc_call dl bytes (dl_state h, vm)
                  else dlmemalign_call dl alignment bytes (dl_state h, vm))
             (\<lambda>(ptr, d, vm). Return (ptr, h\<lparr>dl_state := d\<rparr>, vm)))"

definition kheap_free :: "'d dlmalloc \<Rightarrow> u64 \<Rightarrow> 'd kheap \<times> vmm_machine \<Rightarrow> ('d kheap \<times> vmm_machine) outcome" where
  "kheap_free dl ptr s =
     (let (h, vm) = s
      in if ptr = 0 then Return (h, vm)
         else if \<not> m_heap_ready h then Panic ''kernel heap freed before KHEAP init''
         else obind (dlfree_call dl ptr (dl_state h, vm)) (\<lambda>(d, vm). Return (h\<lparr>dl_state := d\<rparr>, vm)))"

definition init_heap :: "'d kheap \<Rightarrow> 'd kheap" where
  "init_heap h = h\<lparr>m_heap_ready := True\<rparr>"

section \<open>dlmalloc and its pages\<close>

text \<open>
  What dlmalloc does with its source of pages: it asks for pages and gives pages back any number of
  times, and keeps account of the bytes it holds, addresses being numbers here. A result of
  all ones means that it got nothing; bytes it gives back, in whole pages, are its own until the
  result says 0.
\<close>

definition span :: "u64 \<Rightarrow> nat \<Rightarrow> nat set" where
  "span ptr n = {unat ptr ..< unat ptr + n}"

inductive pager :: "paddr_t \<Rightarrow> vmm_machine \<times> nat set \<Rightarrow> vmm_machine \<times> nat set \<Rightarrow> bool" for root s0 where
  none: "pager root s0 s0"
| get: "pager root s0 (vm, R) \<Longrightarrow> heap_mmap root bytes vm = Return (ptr, vm') \<Longrightarrow>
    pager root s0 (vm', if ptr = NOT 0 then R else R \<union> span ptr (unat bytes))"
| put: "pager root s0 (vm, R) \<Longrightarrow> 4096 dvd unat bytes \<Longrightarrow> heap_munmap root ptr bytes vm = Return (code, vm') \<Longrightarrow>
    pager root s0 (vm', if code = 0 then R - span ptr (unat bytes) else R)"

text \<open>A consistent memory manager under which every byte of \<open>R\<close> is mapped for kernel data.\<close>

definition heap_data :: "paddr_t \<Rightarrow> machine \<Rightarrow> nat set \<Rightarrow> bool" where
  "heap_data root m R \<longleftrightarrow>
     (\<forall>va. unat va \<in> R \<longrightarrow> (\<exists>pa. address_space m root va = Some (pa, effective_prot (feats m) KERNEL_DATA)))"

definition heap_ok :: "paddr_t \<Rightarrow> vmm_machine \<Rightarrow> nat set \<Rightarrow> bool" where
  "heap_ok root vm R \<longleftrightarrow> kernel_inv root (fst vm) (snd vm) \<and> heap_data root (snd vm) R"

definition heap_step :: "paddr_t \<Rightarrow> vmm_machine \<Rightarrow> vmm_machine \<Rightarrow> bool" where
  "heap_step root s s' \<longleftrightarrow> frames_kept root (snd s) (vmm_pages (fst s)) (snd s') (vmm_pages (fst s'))"

lemma heap_data_mono: "heap_data root m R \<Longrightarrow> R' \<subseteq> R \<Longrightarrow> heap_data root m R'"
  by (auto simp: heap_data_def)

lemma range_base:
  fixes base :: u64
  assumes "kernel_inv root v m" "(unat base, n) \<in> set (vmm_ranges v)"
  shows "base \<noteq> 0" "4096 dvd unat base" "unat base + n < 2 ^ 64" "base \<noteq> NOT 0"
proof -
  have "vmm_inv v" using assms(1) by (simp add: kernel_inv_def)
  note B = vmm_range_bounds [OF this assms(2)]
  show "4096 dvd unat base" "unat base + n < 2 ^ 64" using B by auto
  show "base \<noteq> 0" using B by auto
  have "unat (NOT 0 :: u64) = 0xffffffffffffffff" by (simp add: unsigned_minus_1_eq_mask mask_eq_exp_minus_1)
  moreover have "unat base < 0xffffffffffffffff" using B(2) by simp
  ultimately show "base \<noteq> NOT 0" by (metis less_irrefl)
qed

text \<open>
  The two functions keep the account right: bytes counted as held are mapped, although a failed
  request holds nothing and a refused release keeps its bytes.
\<close>

lemma heap_mmap_spec:
  assumes "heap_ok root vm R" "heap_mmap root bytes vm = Return (ptr, vm')"
  shows "heap_step root vm vm'"
    and "heap_ok root vm' (if ptr = NOT 0 then R else R \<union> span ptr (unat bytes))"
    and "ptr \<noteq> NOT 0 \<Longrightarrow> ptr \<noteq> 0 \<and> 4096 dvd unat ptr \<and> R \<inter> span ptr (unat bytes) = {}"
proof -
  obtain v m where vm: "vm = (v, m)" by force
  have K: "kernel_inv root v m" and D: "heap_data root m R" using assms(1) by (simp_all add: heap_ok_def vm)
  obtain r v' m' where A: "vmm_alloc root bytes KERNEL_DATA (v, m) = Return (r, v', m')" "kernel_inv root v' m'"
      "frames_kept root m (vmm_pages v) m' (vmm_pages v')"
      "case r of
       Ok base \<Rightarrow> \<exists>n index. bytes \<noteq> 0 \<and> 4096 dvd n \<and> unat bytes \<le> n \<and> n < unat bytes + 4096 \<and>
         vmm_ranges v' = take index (vmm_ranges v) @ (unat base, n) # drop index (vmm_ranges v) \<and>
         (\<forall>va. if unat base \<le> unat va \<and> unat va < unat base + n
               then address_space m root va = None \<and>
                    (\<exists>pa. address_space m' root va = Some (pa, effective_prot (feats m) KERNEL_DATA))
               else address_space m' root va = address_space m root va)
     | Err e \<Rightarrow> v' = v \<and> address_space m' root = address_space m root \<and>
         e = (if bytes = 0 \<or> bytes > VMALLOC_SIZE then INVALID_ADDRESS else OUT_OF_MEMORY)"
    using vmm_alloc_spec [OF K, of bytes KERNEL_DATA] by blast
  have ft: "feats m' = feats m" using A(3) by (simp add: frames_kept_def same_config_def)
  have vm': "vm' = (v', m')" and p: "ptr = (case r of Ok base \<Rightarrow> base | Err _ \<Rightarrow> NOT 0)"
    using assms(2) A(1) by (simp_all add: heap_mmap_def vm)
  show "heap_step root vm vm'" using A(3) by (simp add: heap_step_def vm vm')
  show "heap_ok root vm' (if ptr = NOT 0 then R else R \<union> span ptr (unat bytes))"
    and "ptr \<noteq> NOT 0 \<Longrightarrow> ptr \<noteq> 0 \<and> 4096 dvd unat ptr \<and> R \<inter> span ptr (unat bytes) = {}"
  proof -
    show "heap_ok root vm' (if ptr = NOT 0 then R else R \<union> span ptr (unat bytes))"
    proof (cases r)
      case (Inl e)
      then show ?thesis using A(2,4) D p by (simp add: heap_ok_def vm' heap_data_def ft)
    next
      case (Inr base)
      then obtain n where n: "unat bytes \<le> n" and as: "\<And>va. if unat base \<le> unat va \<and> unat va < unat base + n
               then address_space m root va = None \<and>
                    (\<exists>pa. address_space m' root va = Some (pa, effective_prot (feats m) KERNEL_DATA))
               else address_space m' root va = address_space m root va"
        using A(4) by auto
      have "heap_data root m' (R \<union> span base (unat bytes))"
        unfolding heap_data_def
      proof (intro allI impI)
        fix va :: u64 assume "unat va \<in> R \<union> span base (unat bytes)"
        then show "\<exists>pa. address_space m' root va = Some (pa, effective_prot (feats m') KERNEL_DATA)"
          using as [of va] D n by (auto simp: heap_data_def span_def ft split: if_splits)
      qed
      then show ?thesis using A(2) Inr p by (auto simp: heap_ok_def vm' intro: heap_data_mono)
    qed
    assume ne: "ptr \<noteq> NOT 0"
    then obtain base where r: "r = Ok base" using p by (cases r) auto
    then obtain n index where n: "unat bytes \<le> n"
        "vmm_ranges v' = take index (vmm_ranges v) @ (unat base, n) # drop index (vmm_ranges v)"
      and as: "\<And>va. if unat base \<le> unat va \<and> unat va < unat base + n
               then address_space m root va = None \<and>
                    (\<exists>pa. address_space m' root va = Some (pa, effective_prot (feats m) KERNEL_DATA))
               else address_space m' root va = address_space m root va"
      using A(4) by auto
    have none: "address_space m root va = None" if "unat base \<le> unat va" "unat va < unat base + n" for va
      using as [of va] that by simp
    have "(unat base, n) \<in> set (vmm_ranges v')" using n(2) by simp
    note B = range_base [OF A(2) this]
    have "a \<notin> R" if "a \<in> span base (unat bytes)" for a
    proof
      assume a: "a \<in> R"
      have l: "a < 2 ^ 64" "unat base \<le> a" "a < unat base + n" using that n(1) B(3) by (auto simp: span_def)
      then have u: "unat (of_nat a :: u64) = a" by (simp add: unat_of_nat_small)
      then have "address_space m root (of_nat a) = None" using none [of "of_nat a"] l(2,3) by simp
      moreover have "\<exists>pa. address_space m root (of_nat a) = Some (pa, effective_prot (feats m) KERNEL_DATA)"
        using D a u by (simp add: heap_data_def)
      ultimately show False by simp
    qed
    moreover have "base \<noteq> 0" using B(1) by auto
    ultimately show "ptr \<noteq> 0 \<and> 4096 dvd unat ptr \<and> R \<inter> span ptr (unat bytes) = {}"
      using B(2) p r by auto
  qed
qed

lemma whole_pages:
  assumes "4096 dvd unat bytes"
  shows "unat (align_up bytes FRAME_SIZE) = unat bytes"
proof -
  obtain k where k: "unat bytes = 4096 * k" using assms by (elim dvdE)
  have "unat bytes < 2 ^ 64" using unsigned_less [of bytes] by simp
  then have "unat bytes + 4095 < 2 ^ 64" using k by simp
  then have "unat (align_up bytes FRAME_SIZE) = (unat bytes + 4095) div 4096 * 4096"
    using unat_align_up [of 12 bytes] by (simp add: FRAME_SIZE_eq)
  then show ?thesis using k by simp
qed

lemma heap_munmap_spec:
  assumes "heap_ok root vm R" "4096 dvd unat bytes" "heap_munmap root ptr bytes vm = Return (code, vm')"
  shows "heap_step root vm vm'" "heap_ok root vm' (if code = 0 then R - span ptr (unat bytes) else R)"
proof -
  obtain v m where vm: "vm = (v, m)" by force
  have K: "kernel_inv root v m" and D: "heap_data root m R" using assms(1) by (simp_all add: heap_ok_def vm)
  obtain r v' m' where F: "vmm_free root ptr bytes (v, m) = Return (r, v', m')" "kernel_inv root v' m'"
      "frames_kept root m (vmm_pages v) m' (vmm_pages v')"
      "case r of
       Ok _ \<Rightarrow> \<exists>xs ys n. n = unat (align_up bytes FRAME_SIZE) \<and>
         vmm_ranges v = xs @ (unat ptr, n) # ys \<and> vmm_ranges v' = xs @ ys \<and>
         (\<forall>va. address_space m' root va =
            (if unat ptr \<le> unat va \<and> unat va < unat ptr + n then None else address_space m root va))
     | Err e \<Rightarrow> e = INVALID_ADDRESS \<and> v' = v \<and> m' = m"
    using vmm_free_spec [OF K, of ptr bytes] by blast
  have ft: "feats m' = feats m" using F(3) by (simp add: frames_kept_def same_config_def)
  have vm': "vm' = (v', m')" and c: "code = (case r of Ok _ \<Rightarrow> 0 | Err _ \<Rightarrow> -1)"
    using assms(3) F(1) by (simp_all add: heap_munmap_def vm)
  show "heap_step root vm vm'" using F(3) by (simp add: heap_step_def vm vm')
  show "heap_ok root vm' (if code = 0 then R - span ptr (unat bytes) else R)"
  proof (cases r)
    case (Inl e)
    then show ?thesis using F(2,4) D c by (simp add: heap_ok_def vm')
  next
    case (Inr u)
    then have "address_space m' root va =
        (if unat ptr \<le> unat va \<and> unat va < unat ptr + unat bytes then None else address_space m root va)" for va
      using F(4) whole_pages [OF assms(2)] by auto
    then have "heap_data root m' (R - span ptr (unat bytes))" using D by (auto simp: heap_data_def span_def ft)
    then show ?thesis using F(2) Inr c by (simp add: heap_ok_def vm')
  qed
qed

lemma heap_step_trans: "heap_step root s s1 \<Longrightarrow> heap_step root s1 s2 \<Longrightarrow> heap_step root s s2"
  unfolding heap_step_def by (rule frames_kept_trans)

lemma pager_keeps:
  "pager root s0 s \<Longrightarrow> heap_ok root (fst s0) (snd s0) \<Longrightarrow> heap_ok root (fst s) (snd s) \<and> heap_step root (fst s0) (fst s)"
proof (induction rule: pager.induct)
  case none
  then show ?case by (simp add: heap_step_def frames_kept_refl)
next
  case (get vm R bytes ptr vm')
  then have ok: "heap_ok root vm R" "heap_step root (fst s0) vm" by simp_all
  show ?case using heap_mmap_spec(1,2) [OF ok(1) get(2)] heap_step_trans [OF ok(2)] by simp
next
  case (put vm R bytes ptr code vm')
  then have ok: "heap_ok root vm R" "heap_step root (fst s0) vm" by simp_all
  show ?case using heap_munmap_spec [OF ok(1) put(2,3)] heap_step_trans [OF ok(2)] by simp
qed

section \<open>What dlmalloc promises\<close>

text \<open>
  \<open>sound\<close> is dlmalloc's own consistency, \<open>held\<close> the bytes it has from the page source and \<open>blocks\<close> the
  blocks it has handed out, all read off its state. A request is answered with null or with a
  block of bytes it holds, apart from the blocks in use and aligned: to two words by
  \<^verbatim>\<open>dlmalloc\<close>, to the given power of two by \<^verbatim>\<open>dlmemalign\<close>. A block in use can be released.
\<close>

definition hands_out :: "('d \<Rightarrow> (u64 \<times> nat) set) \<Rightarrow> nat \<Rightarrow> nat \<Rightarrow> u64 \<Rightarrow> 'd \<Rightarrow> 'd \<Rightarrow> bool" where
  "hands_out blocks alignment n ptr d d' \<longleftrightarrow>
     (if ptr = 0 then blocks d' = blocks d
      else alignment dvd unat ptr \<and> blocks d' = insert (ptr, n) (blocks d) \<and>
        (\<forall>(q, k)\<in>blocks d. span q k \<inter> span ptr n = {}))"

definition pages_used :: "paddr_t \<Rightarrow> ('d \<Rightarrow> nat set) \<Rightarrow> 'd \<times> vmm_machine \<Rightarrow> 'd \<times> vmm_machine \<Rightarrow> bool" where
  "pages_used root held s s' \<longleftrightarrow>
     (\<exists>R. pager root (snd s, held (fst s)) (snd s', R) \<and> held (fst s') \<subseteq> R)"

definition dl_contract ::
    "paddr_t \<Rightarrow> 'd dlmalloc \<Rightarrow> ('d \<Rightarrow> bool) \<Rightarrow> ('d \<Rightarrow> nat set) \<Rightarrow> ('d \<Rightarrow> (u64 \<times> nat) set) \<Rightarrow> bool" where
  "dl_contract root dl sound held blocks \<longleftrightarrow>
     (\<forall>d. sound d \<longrightarrow> (\<forall>(p, n)\<in>blocks d. span p n \<subseteq> held d)) \<and>
     (\<forall>bytes d vm ptr d' vm'. sound d \<and> heap_ok root vm (held d) \<and>
        dlmalloc_call dl bytes (d, vm) = Return (ptr, d', vm') \<longrightarrow>
        sound d' \<and> pages_used root held (d, vm) (d', vm') \<and> hands_out blocks 16 (unat bytes) ptr d d') \<and>
     (\<forall>alignment bytes d vm ptr d' vm'. sound d \<and> heap_ok root vm (held d) \<and>
        dlmemalign_call dl alignment bytes (d, vm) = Return (ptr, d', vm') \<longrightarrow>
        sound d' \<and> pages_used root held (d, vm) (d', vm') \<and>
        hands_out blocks (if \<exists>k. unat alignment = 2 ^ k then unat alignment else 16) (unat bytes) ptr d d') \<and>
     (\<forall>ptr n d vm d' vm'. sound d \<and> heap_ok root vm (held d) \<and> (ptr, n) \<in> blocks d \<and>
        dlfree_call dl ptr (d, vm) = Return (d', vm') \<longrightarrow>
        sound d' \<and> pages_used root held (d, vm) (d', vm') \<and> blocks d' = blocks d - {(ptr, n)})"

section \<open>Sessions\<close>

text \<open>
  The calls of the kernel and its drivers, with the blocks they hold: address, size and alignment
  of every request that was granted and not released. Only blocks in use are released.
\<close>

type_synonym held_block = "u64 \<times> u64 \<times> u64"

inductive heap_session ::
    "'d dlmalloc \<Rightarrow> 'd kheap \<times> vmm_machine \<Rightarrow> ('d kheap \<times> vmm_machine) \<times> held_block list \<Rightarrow> bool"
  for dl s0 where
  start: "heap_session dl s0 (s0, [])"
| init: "heap_session dl s0 ((h, vm), B) \<Longrightarrow> heap_session dl s0 ((init_heap h, vm), B)"
| alloc: "heap_session dl s0 (s, B) \<Longrightarrow> kheap_alloc dl bytes alignment s = Return (ptr, s') \<Longrightarrow>
    heap_session dl s0 (s', if ptr = 0 then B else (ptr, bytes, alignment) # B)"
| free_null: "heap_session dl s0 (s, B) \<Longrightarrow> kheap_free dl 0 s = Return s' \<Longrightarrow> heap_session dl s0 (s', B)"
| free: "heap_session dl s0 (s, B @ (ptr, bytes, alignment) # B') \<Longrightarrow> kheap_free dl ptr s = Return s' \<Longrightarrow>
    heap_session dl s0 (s', B @ B')"

definition block_of :: "held_block \<Rightarrow> u64 \<times> nat" where
  "block_of b = (case b of (p, n, al) \<Rightarrow> (p, unat n))"

definition apart_blocks :: "held_block \<Rightarrow> held_block \<Rightarrow> bool" where
  "apart_blocks b c \<longleftrightarrow> (case (block_of b, block_of c) of ((p, n), (q, k)) \<Rightarrow> span p n \<inter> span q k = {})"

definition block_ok :: "held_block \<Rightarrow> bool" where
  "block_ok b \<longleftrightarrow> (case b of (p, n, al) \<Rightarrow> p \<noteq> 0 \<and> n \<noteq> 0 \<and> ((\<exists>k. unat al = 2 ^ k) \<longrightarrow> unat al dvd unat p))"

definition heap_inv ::
    "paddr_t \<Rightarrow> ('d \<Rightarrow> bool) \<Rightarrow> ('d \<Rightarrow> nat set) \<Rightarrow> ('d \<Rightarrow> (u64 \<times> nat) set) \<Rightarrow>
     ('d kheap \<times> vmm_machine) \<times> held_block list \<Rightarrow> bool" where
  "heap_inv root sound held blocks c \<longleftrightarrow> (case c of ((h, vm), B) \<Rightarrow>
     sound (dl_state h) \<and> heap_ok root vm (held (dl_state h)) \<and> blocks (dl_state h) = block_of ` set B \<and>
     sorted_wrt apart_blocks B \<and> (\<forall>b\<in>set B. block_ok b) \<and> (B \<noteq> [] \<longrightarrow> m_heap_ready h))"

lemma pages_used_ok:
  assumes "pages_used root held (d, vm) (d', vm')" "heap_ok root vm (held d)"
  shows "heap_ok root vm' (held d')" "heap_step root vm vm'"
proof -
  obtain R where R: "pager root (vm, held d) (vm', R)" "held d' \<subseteq> R" using assms(1) by (auto simp: pages_used_def)
  from pager_keeps [OF R(1)] assms(2) have "heap_ok root vm' R" "heap_step root vm vm'" by simp_all
  then show "heap_ok root vm' (held d')" "heap_step root vm vm'" using R(2) by (auto simp: heap_ok_def intro: heap_data_mono)
qed

text \<open>The alignment a request gets: small powers of two divide two words.\<close>

lemma small_alignment:
  assumes "alignment \<le> NATURAL_ALIGNMENT" "unat alignment = 2 ^ k"
  shows "unat alignment dvd 16"
proof -
  have "2 ^ k \<le> (2 :: nat) ^ 4" using assms by (simp add: NATURAL_ALIGNMENT_def word_le_nat_alt)
  then have "k \<le> 4" by (simp only: power_increasing_iff)
  then show ?thesis using le_imp_power_dvd [of k 4 "2 :: nat"] assms(2) by simp
qed

lemma alloc_step:
  assumes C: "dl_contract root dl sound held blocks" and I: "heap_inv root sound held blocks ((h, vm), B)"
    and A: "kheap_alloc dl bytes alignment (h, vm) = Return (ptr, h', vm')"
  shows "heap_inv root sound held blocks ((h', vm'), if ptr = 0 then B else (ptr, bytes, alignment) # B) \<and> heap_step root vm vm'"
proof (cases "bytes = 0")
  case True
  then show ?thesis using A I by (auto simp: kheap_alloc_def heap_step_def frames_kept_refl split: if_splits)
next
  case False
  let ?d = "dl_state h"
  have I': "sound ?d" "heap_ok root vm (held ?d)" "blocks ?d = block_of ` set B" "sorted_wrt apart_blocks B" "\<forall>b\<in>set B. block_ok b"
    using I by (simp_all add: heap_inv_def)
  have ready: "m_heap_ready h" using A by (auto simp: kheap_alloc_def split: if_splits)
  obtain d' al where h': "h' = h\<lparr>dl_state := d'\<rparr>" and al: "(\<exists>k. unat alignment = 2 ^ k) \<longrightarrow> unat alignment dvd al"
    and R: "sound d'" "pages_used root held (?d, vm) (d', vm')" "hands_out blocks al (unat bytes) ptr ?d d'"
  proof (cases "alignment \<le> NATURAL_ALIGNMENT")
    case True
    then obtain d' where d': "dlmalloc_call dl bytes (?d, vm) = Return (ptr, d', vm')" "h' = h\<lparr>dl_state := d'\<rparr>"
      using A False ready by (auto simp: kheap_alloc_def)
    from C [unfolded dl_contract_def, THEN conjunct2, THEN conjunct1, rule_format, of ?d vm bytes] d'(1) I'(1,2)
    have "sound d' \<and> pages_used root held (?d, vm) (d', vm') \<and> hands_out blocks 16 (unat bytes) ptr ?d d'" by blast
    then show thesis using that [of d' 16] d'(2) small_alignment [OF True] by blast
  next
    case big: False
    then obtain d' where d': "dlmemalign_call dl alignment bytes (?d, vm) = Return (ptr, d', vm')" "h' = h\<lparr>dl_state := d'\<rparr>"
      using A False ready by (auto simp: kheap_alloc_def)
    let ?al = "if \<exists>k. unat alignment = 2 ^ k then unat alignment else 16"
    from C [unfolded dl_contract_def, THEN conjunct2, THEN conjunct2, THEN conjunct1, rule_format, of ?d vm alignment bytes] d'(1) I'(1,2)
    have "sound d' \<and> pages_used root held (?d, vm) (d', vm') \<and> hands_out blocks ?al (unat bytes) ptr ?d d'" by blast
    then show thesis using that [of d' ?al] d'(2) by simp
  qed
  note P = pages_used_ok [OF R(2) I'(2)]
  show ?thesis
  proof (cases "ptr = 0")
    case True
    then show ?thesis using P R I' ready h' by (simp add: heap_inv_def hands_out_def)
  next
    case ne: False
    let ?b = "(ptr, bytes, alignment)"
    have H: "al dvd unat ptr" "blocks d' = insert (ptr, unat bytes) (blocks ?d)"
        "\<forall>(q, k)\<in>blocks ?d. span q k \<inter> span ptr (unat bytes) = {}"
      using R(3) ne by (simp_all add: hands_out_def)
    have "apart_blocks ?b c" if "c \<in> set B" for c
      using H(3) that unfolding I'(3) by (auto simp: apart_blocks_def block_of_def split: prod.splits)
    moreover have "block_ok ?b" using ne False al H(1) by (auto simp: block_ok_def intro: dvd_trans)
    ultimately show ?thesis using P R(1) H(2) I' ready h' ne by (simp add: heap_inv_def block_of_def)
  qed
qed

lemma free_step:
  assumes C: "dl_contract root dl sound held blocks" and I: "heap_inv root sound held blocks ((h, vm), B @ (ptr, bytes, alignment) # B')"
    and F: "kheap_free dl ptr (h, vm) = Return (h', vm')"
  shows "heap_inv root sound held blocks ((h', vm'), B @ B') \<and> heap_step root vm vm'"
proof -
  let ?d = "dl_state h" and ?b = "(ptr, bytes, alignment)"
  have I': "sound ?d" "heap_ok root vm (held ?d)" "blocks ?d = insert (ptr, unat bytes) (block_of ` set (B @ B'))"
      "sorted_wrt apart_blocks (B @ ?b # B')" "\<forall>b\<in>set (B @ B'). block_ok b" "block_ok ?b" "m_heap_ready h"
    using I by (auto simp: heap_inv_def block_of_def)
  have "ptr \<noteq> 0" "bytes \<noteq> 0" using I'(6) by (simp_all add: block_ok_def)
  then obtain d' where d': "dlfree_call dl ptr (?d, vm) = Return (d', vm')" "h' = h\<lparr>dl_state := d'\<rparr>"
    using F I'(7) by (auto simp: kheap_free_def)
  have "(ptr, unat bytes) \<in> blocks ?d" using I'(3) by simp
  with C [unfolded dl_contract_def, THEN conjunct2, THEN conjunct2, THEN conjunct2, rule_format, of ?d vm ptr "unat bytes"] d'(1) I'(1,2)
  have R: "sound d'" "pages_used root held (?d, vm) (d', vm')" "blocks d' = blocks ?d - {(ptr, unat bytes)}" by blast+
  note P = pages_used_ok [OF R(2) I'(2)]
  have n: "0 < unat bytes" using \<open>bytes \<noteq> 0\<close> by (simp add: unat_gt_0)
  have "block_of c \<noteq> (ptr, unat bytes)" if "c \<in> set (B @ B')" for c
  proof
    assume "block_of c = (ptr, unat bytes)"
    moreover have "apart_blocks c ?b \<or> apart_blocks ?b c" using I'(4) that by (auto simp: sorted_wrt_append)
    ultimately have "span ptr (unat bytes) = {}" by (auto simp: apart_blocks_def block_of_def)
    then show False using n by (simp add: span_def)
  qed
  then have "\<forall>c \<in> set (B @ B'). block_of c \<noteq> (ptr, unat bytes)" ..
  then have "(ptr, unat bytes) \<notin> block_of ` set (B @ B')" by (simp only: image_iff) metis
  then have "blocks d' = block_of ` set (B @ B')" unfolding R(3) I'(3) by (rule Diff_insert_absorb)
  then show ?thesis using P R(1) I'(4,5,7) d'(2) by (auto simp: heap_inv_def sorted_wrt_append)
qed

lemma session_keeps:
  assumes "heap_session dl s0 c" "dl_contract root dl sound held blocks" "heap_inv root sound held blocks (s0, [])"
  shows "heap_inv root sound held blocks c \<and> heap_step root (snd s0) (snd (fst c))"
  using assms
proof induction
  case start
  then show ?case by (simp add: heap_step_def frames_kept_refl)
next
  case (init h vm B)
  then show ?case by (simp add: heap_inv_def init_heap_def)
next
  case (alloc s B bytes alignment ptr s')
  obtain h vm h' vm' where s: "s = (h, vm)" "s' = (h', vm')" by (cases s; cases s')
  show ?case
    using alloc_step [OF alloc.prems(1), of h vm B bytes alignment ptr h' vm'] alloc heap_step_trans by (simp add: s) blast
next
  case (free_null s B s')
  then show ?case by (cases s) (simp add: kheap_free_def)
next
  case (free s B ptr bytes alignment B' s')
  obtain h vm h' vm' where s: "s = (h, vm)" "s' = (h', vm')" by (cases s; cases s')
  show ?case
    using free_step [OF free.prems(1), of h vm B ptr bytes alignment B' h' vm'] free heap_step_trans by (simp add: s) blast
qed

text \<open>
  C31: what the users of the kernel heap hold. If dlmalloc keeps its contract towards its
  source of pages and its callers, then after any sequence of heap calls the blocks in use are not
  empty, lie apart from each other, are aligned to the power of two that was asked for, and
  every byte of them is mapped for kernel data: the heap never counts memory as its own that the
  memory manager refused or has taken back. The memory manager stays consistent, no frame has
  appeared or, static image tables apart, disappeared; and nothing is handed out before
  \<^verbatim>\<open>init_heap\<close>.
\<close>

theorem kheap_session_safe:
  assumes "heap_session dl (h0, v0, m0) ((h, v, m), B)" "dl_contract root dl sound held blocks"
    and "sound (dl_state h0)" "held (dl_state h0) = {}" "blocks (dl_state h0) = {}" "kernel_inv root v0 m0"
  shows "kernel_inv root v m \<and> frames_kept root m0 (vmm_pages v0) m (vmm_pages v) \<and>
    sorted_wrt (\<lambda>(p, n, _) (q, k, _). {unat p ..< unat p + unat n} \<inter> {unat q ..< unat q + unat k} = {}) B \<and>
    (\<forall>(p, n, alignment)\<in>set B. n \<noteq> 0 \<and> ((\<exists>k. unat alignment = 2 ^ k) \<longrightarrow> unat alignment dvd unat p) \<and>
       (\<forall>va. unat p \<le> unat va \<and> unat va < unat p + unat n \<longrightarrow>
          (\<exists>pa. address_space m root va = Some (pa, effective_prot (feats m) KERNEL_DATA)))) \<and>
    (B \<noteq> [] \<longrightarrow> m_heap_ready h)"
proof -
  have "heap_inv root sound held blocks ((h0, v0, m0), [])"
    using assms(3-6) by (simp add: heap_inv_def heap_ok_def heap_data_def)
  from session_keeps [OF assms(1,2) this]
  have I: "sound (dl_state h)" "kernel_inv root v m" "heap_data root m (held (dl_state h))"
      "blocks (dl_state h) = block_of ` set B" "sorted_wrt apart_blocks B" "\<forall>b\<in>set B. block_ok b" "B \<noteq> [] \<longrightarrow> m_heap_ready h"
    and K: "frames_kept root m0 (vmm_pages v0) m (vmm_pages v)"
    by (simp_all add: heap_inv_def heap_ok_def heap_step_def)
  have sub: "\<forall>(p, n)\<in>blocks (dl_state h). span p n \<subseteq> held (dl_state h)"
    using assms(2) [unfolded dl_contract_def, THEN conjunct1, rule_format, OF I(1)] by blast
  have ap: "(\<lambda>(p, n, _) (q, k, _). {unat p ..< unat p + unat n} \<inter> {unat q ..< unat q + unat k} = {}) = apart_blocks"
    by (auto simp: fun_eq_iff apart_blocks_def block_of_def span_def)
  have mapped: "\<exists>pa. address_space m root va = Some (pa, effective_prot (feats m) KERNEL_DATA)"
    if "(p, n, al) \<in> set B" "unat p \<le> unat va" "unat va < unat p + unat n" for p n al va
  proof -
    have "(p, unat n) \<in> blocks (dl_state h)" using that(1) unfolding I(4) by (force simp: block_of_def)
    then have "span p (unat n) \<subseteq> held (dl_state h)" using sub by blast
    then have "unat va \<in> held (dl_state h)" using that(2,3) by (auto simp: span_def)
    then show ?thesis using I(3) by (simp add: heap_data_def)
  qed
  show ?thesis unfolding ap using I(2,5,6,7) K mapped by (auto simp: block_ok_def)
qed

text \<open>
  An allocator that keeps the contract: every block has pages of its own, and the pages stay when
  it is released. Its state is the bytes it holds and the blocks in use.
\<close>

type_synonym page_heap = "nat set \<times> (u64 \<times> nat) set"

definition page_malloc :: "paddr_t \<Rightarrow> u64 \<Rightarrow> page_heap \<times> vmm_machine \<Rightarrow> (u64 \<times> page_heap \<times> vmm_machine) outcome" where
  "page_malloc root bytes s =
     (let ((H, L), vm) = s
      in if bytes = 0 then Return (0, (H, L), vm)
         else obind (heap_mmap root bytes vm) (\<lambda>(ptr, vm).
           Return (if ptr = NOT 0 then (0, (H, L), vm)
                   else (ptr, (H \<union> span ptr (unat bytes), insert (ptr, unat bytes) L), vm))))"

definition page_dl :: "paddr_t \<Rightarrow> page_heap dlmalloc" where
  "page_dl root =
     \<lparr>dlmalloc_call = page_malloc root,
      dlmemalign_call = (\<lambda>alignment bytes s. if alignment \<le> 4096 then page_malloc root bytes s else Return (0, s)),
      dlfree_call = (\<lambda>ptr ((H, L), vm). Return ((H, {b \<in> L. fst b \<noteq> ptr}), vm))\<rparr>"

definition page_sound :: "page_heap \<Rightarrow> bool" where
  "page_sound d \<longleftrightarrow>
     (\<forall>(p, n)\<in>snd d. 0 < n \<and> span p n \<subseteq> fst d \<and> (\<forall>(q, k)\<in>snd d. p = q \<longrightarrow> n = k))"

lemma page_malloc_spec:
  assumes "page_sound d" "heap_ok root vm (fst d)" "page_malloc root bytes (d, vm) = Return (ptr, d', vm')"
  shows "page_sound d'" "pages_used root fst (d, vm) (d', vm')"
    and "al dvd 4096 \<Longrightarrow> hands_out snd al (unat bytes) ptr d d'"
proof -
  obtain H L where d: "d = (H, L)" by force
  have "page_sound d' \<and> pages_used root fst (d, vm) (d', vm') \<and> (al dvd 4096 \<longrightarrow> hands_out snd al (unat bytes) ptr d d')"
  proof (cases "bytes = 0")
    case True
    then have e: "ptr = 0" "d' = d" "vm' = vm" using assms(3) by (simp_all add: page_malloc_def d)
    have "pager root (vm, H) (vm, H)" by (rule pager.none)
    then show ?thesis using assms(1) by (auto simp: e d hands_out_def pages_used_def)
  next
    case False
    then obtain p vm1 where M: "heap_mmap root bytes vm = Return (p, vm1)"
      using assms(3) by (cases "heap_mmap root bytes vm") (auto simp: page_malloc_def d)
    have P: "pager root (vm, H) (vm1, if p = NOT 0 then H else H \<union> span p (unat bytes))"
      using pager.get [OF pager.none M] .
    have n: "0 < unat bytes" using False by (simp add: unat_gt_0)
    show ?thesis
    proof (cases "p = NOT 0")
      case True
      then have "ptr = 0" "d' = d" "vm' = vm1" using assms(3) M False by (simp_all add: page_malloc_def d)
      then show ?thesis using assms(1) P True by (auto simp: d hands_out_def pages_used_def)
    next
      case ne: False
      then have e: "ptr = p" "d' = (H \<union> span p (unat bytes), insert (p, unat bytes) L)" "vm' = vm1"
        using assms(3) M False by (auto simp: page_malloc_def d)
      have S: "p \<noteq> 0" "4096 dvd unat p" "H \<inter> span p (unat bytes) = {}"
        using heap_mmap_spec(3) [OF assms(2) M ne] by (simp_all add: d)
      have L: "0 < k" "span q k \<subseteq> H" if "(q, k) \<in> L" for q k using assms(1) that by (auto simp: page_sound_def d)
      have ap: "span q k \<inter> span p (unat bytes) = {}" if "(q, k) \<in> L" for q k using L(2) [OF that] S(3) by blast
      have "q \<noteq> p" if "(q, k) \<in> L" for q k using ap [OF that] L(1) [OF that] n by (auto simp: span_def)
      then have "page_sound d'" using assms(1) n by (fastforce simp: page_sound_def d e)
      moreover have "pages_used root fst (d, vm) (d', vm')" using P ne by (auto simp: pages_used_def d e)
      moreover have "hands_out snd al (unat bytes) ptr d d'" if "al dvd 4096"
        using ap S(1,2) dvd_trans [OF that] by (auto simp: hands_out_def d e)
      ultimately show ?thesis by blast
    qed
  qed
  then show "page_sound d'" "pages_used root fst (d, vm) (d', vm')"
    "al dvd 4096 \<Longrightarrow> hands_out snd al (unat bytes) ptr d d'" by simp_all
qed

lemma pages_same: "pages_used root fst (d, vm) ((fst d, L), vm)"
  unfolding pages_used_def fst_conv snd_conv using pager.none [of root "(vm, fst d)"] by blast

lemma page_alignment:
  fixes alignment :: u64
  assumes "alignment \<le> 4096"
  shows "(if \<exists>k. unat alignment = 2 ^ k then unat alignment else 16) dvd 4096"
proof (cases "\<exists>k. unat alignment = 2 ^ k")
  case True
  then obtain k where k: "unat alignment = 2 ^ k" by blast
  then have "2 ^ k \<le> (2 :: nat) ^ 12" using assms by (simp add: word_le_nat_alt)
  then have "k \<le> 12" by (simp only: power_increasing_iff)
  then show ?thesis using k le_imp_power_dvd [of k 12 "2 :: nat"] by simp
qed simp

lemma page_dl_contract: "dl_contract root (page_dl root) page_sound fst snd"
  unfolding dl_contract_def
proof (intro conjI allI impI)
  fix d :: page_heap assume "page_sound d"
  then show "\<forall>(p, n)\<in>snd d. span p n \<subseteq> fst d" by (auto simp: page_sound_def)
next
  fix bytes d vm ptr d' vm'
  assume "page_sound d \<and> heap_ok root vm (fst d) \<and> dlmalloc_call (page_dl root) bytes (d, vm) = Return (ptr, d', vm')"
  then have a: "page_sound d" "heap_ok root vm (fst d)" "page_malloc root bytes (d, vm) = Return (ptr, d', vm')"
    by (simp_all add: page_dl_def)
  show "page_sound d'" "pages_used root fst (d, vm) (d', vm')" "hands_out snd 16 (unat bytes) ptr d d'"
    using page_malloc_spec(1,2) [OF a] page_malloc_spec(3) [OF a, of 16] by simp_all
next
  fix alignment bytes :: u64 and d vm ptr d' vm'
  let ?al = "if \<exists>k. unat alignment = 2 ^ k then unat alignment else 16"
  assume "page_sound d \<and> heap_ok root vm (fst d) \<and> dlmemalign_call (page_dl root) alignment bytes (d, vm) = Return (ptr, d', vm')"
  then have a: "page_sound d" "heap_ok root vm (fst d)"
      "(if alignment \<le> 4096 then page_malloc root bytes (d, vm) else Return (0, d, vm)) = Return (ptr, d', vm')"
    by (simp_all add: page_dl_def)
  have "page_sound d' \<and> pages_used root fst (d, vm) (d', vm') \<and> hands_out snd ?al (unat bytes) ptr d d'"
  proof (cases "alignment \<le> 4096")
    case True
    then have "page_malloc root bytes (d, vm) = Return (ptr, d', vm')" using a(3) by simp
    from page_malloc_spec(1,2) [OF a(1,2) this] page_malloc_spec(3) [OF a(1,2) this page_alignment [OF True]] show ?thesis by blast
  next
    case False
    then show ?thesis using a pages_same [of root d vm "snd d"] by (simp add: hands_out_def)
  qed
  then show "page_sound d'" "pages_used root fst (d, vm) (d', vm')" "hands_out snd ?al (unat bytes) ptr d d'" by blast+
next
  fix ptr n d vm d' vm'
  assume "page_sound d \<and> heap_ok root vm (fst d) \<and> (ptr, n) \<in> snd d \<and> dlfree_call (page_dl root) ptr (d, vm) = Return (d', vm')"
  then have a: "page_sound d" "(ptr, n) \<in> snd d" "d' = (fst d, {b \<in> snd d. fst b \<noteq> ptr})" "vm' = vm"
    by (auto simp: page_dl_def split: prod.splits)
  show "page_sound d'" using a(1) by (auto simp: page_sound_def a(3))
  show "pages_used root fst (d, vm) (d', vm')" using pages_same by (simp add: a(3,4))
  have "k = n" if "(ptr, k) \<in> snd d" for k using bspec [OF a(1) [unfolded page_sound_def] a(2)] that by fastforce
  then have "b \<in> snd d \<and> fst b \<noteq> ptr \<longleftrightarrow> b \<in> snd d - {(ptr, n)}" for b by (cases b) auto
  then show "snd d' = snd d - {(ptr, n)}" unfolding a(3) snd_conv by blast
qed

theorem kheap_session_safe_witness:
  "\<exists>ptr h v m. kheap_alloc (page_dl 0x101000) 100 64
       (init_heap \<lparr>m_heap_ready = False, dl_state = ({}, {})\<rparr>, vmm_boot_state, empty_machine) = Return (ptr, h, v, m) \<and>
     ptr \<noteq> 0 \<and> 64 dvd unat ptr \<and> kernel_inv 0x101000 v m \<and>
     (\<exists>pa. address_space m 0x101000 ptr = Some (pa, effective_prot (feats m) KERNEL_DATA))"
proof -
  let ?h = "\<lparr>m_heap_ready = False, dl_state = ({}, {})\<rparr> :: page_heap kheap"
  let ?dl = "page_dl 0x101000" and ?s = "(?h, vmm_boot_state, empty_machine)"
  have b: "(100 :: u64) \<noteq> 0" "unat (100 :: u64) \<le> 100" by simp_all
  obtain base v m where V: "vmm_alloc 0x101000 100 KERNEL_DATA (vmm_boot_state, empty_machine) = Return (Ok base, v, m)"
    using vmm_alloc_live [OF boot_kernel_inv b(1) boot_alloc(1) [OF b] boot_alloc(2) [OF b, unfolded MAX_ALLOCATIONS_def]
        boot_alloc(3) [OF b] boot_alloc(4) [OF b, folded avail_def]] by blast
  have ok: "heap_ok 0x101000 (vmm_boot_state, empty_machine) {}"
    using boot_kernel_inv by (simp add: heap_ok_def heap_data_def)
  have "\<exists>n. kernel_inv 0x101000 v m \<and> (unat base, n) \<in> set (vmm_ranges v)"
    using vmm_alloc_spec [OF boot_kernel_inv, of 100 KERNEL_DATA] V by force
  then obtain n where "kernel_inv 0x101000 v m" "(unat base, n) \<in> set (vmm_ranges v)" by blast
  then have ne: "base \<noteq> NOT 0" by (rule range_base(4))
  have M: "heap_mmap 0x101000 100 (vmm_boot_state, empty_machine) = Return (base, v, m)" using V by (simp add: heap_mmap_def)
  have b0: "base \<noteq> 0" using heap_mmap_spec(3) [OF ok M ne] by simp
  let ?d = "(span base 100, {(base, 100)}) :: page_heap"
  have A: "kheap_alloc ?dl 100 64 (init_heap ?h, vmm_boot_state, empty_machine) =
      Return (base, \<lparr>m_heap_ready = True, dl_state = ?d\<rparr>, v, m)"
    using M ne by (simp add: kheap_alloc_def init_heap_def NATURAL_ALIGNMENT_def page_dl_def page_malloc_def)
  have "heap_session ?dl ?s ((init_heap ?h, vmm_boot_state, empty_machine), [])"
    by (rule heap_session.init [OF heap_session.start])
  from heap_session.alloc [OF this A] b0
  have S: "heap_session ?dl ?s ((\<lparr>m_heap_ready = True, dl_state = ?d\<rparr>, v, m), [(base, 100, 64)])" by simp
  from kheap_session_safe [OF S page_dl_contract _ _ _ boot_kernel_inv]
  have K: "kernel_inv 0x101000 v m" "(\<exists>k. unat (64 :: u64) = 2 ^ k) \<longrightarrow> unat (64 :: u64) dvd unat base"
      "\<forall>va. unat base \<le> unat va \<and> unat va < unat base + unat (100 :: u64) \<longrightarrow>
          (\<exists>pa. address_space m 0x101000 va = Some (pa, effective_prot (feats m) KERNEL_DATA))"
    by (simp_all add: page_sound_def)
  have "\<exists>k. unat (64 :: u64) = 2 ^ k" by (rule exI [of _ 6]) simp
  then have "64 dvd unat base" using K(2) by simp
  then show ?thesis using A b0 K(1,3) by auto
qed

end
