(* ===== verification/Driver_Services.thy ===== *)
theory Driver_Services
  imports Serial Kheap Mmio
begin

text \<open>
  \<^verbatim>\<open>kernel/device/services.cpp\<close> and its C interface \<^verbatim>\<open>services_abi.cpp\<close>: what drivers may ask of
  the kernel. Each service acts on the state of the component behind it.
\<close>

definition service_log :: "c_string option \<Rightarrow> console \<Rightarrow> console" where
  "service_log message con =
     (case kprintln_ct ''[driver] {}'' [Arg_c_string 1 message] of
        None \<Rightarrow> con
      | Some t \<Rightarrow> console_write (Some t) con)"

definition io_write8 :: "u16 \<Rightarrow> u8 \<Rightarrow> io_event list \<Rightarrow> io_event list" where
  "io_write8 port v = outb port v"

definition io_read8 :: "io_device \<Rightarrow> u16 \<Rightarrow> io_event list \<Rightarrow> u8 \<times> io_event list" where
  "io_read8 dev port = inb dev port"

definition service_alloc :: "'d dlmalloc \<Rightarrow> u64 \<Rightarrow> u64 \<Rightarrow> 'd kheap \<times> vmm_machine \<Rightarrow>
    (u64 \<times> 'd kheap \<times> vmm_machine) outcome" where
  "service_alloc dl bytes alignment = kheap_alloc dl bytes alignment"

definition service_free :: "'d dlmalloc \<Rightarrow> u64 \<Rightarrow> 'd kheap \<times> vmm_machine \<Rightarrow> ('d kheap \<times> vmm_machine) outcome" where
  "service_free dl ptr = kheap_free dl ptr"

definition service_map_mmio :: "paddr_t \<Rightarrow> paddr_t \<Rightarrow> u64 \<Rightarrow> machine \<Rightarrow> (u64 \<times> machine) outcome" where
  "service_map_mmio root physical_base sz m =
     obind (map_mmio root physical_base sz m) (\<lambda>(r, m). Return (case r of Ok va \<Rightarrow> va | Err _ \<Rightarrow> 0, m))"

definition register_irq :: "u32 \<Rightarrow> u64 \<Rightarrow> u64 \<Rightarrow> bool outcome" where
  "register_irq vector handler context = Panic ''driver IRQ registration service is not implemented''"

definition unregister_irq :: "u32 \<Rightarrow> u64 \<Rightarrow> u64 \<Rightarrow> unit outcome" where
  "unregister_irq vector handler context =
     (if handler = 0 then Return () else Panic ''driver IRQ registration service is not implemented'')"

section \<open>The C interface\<close>

definition doom_os_driver_log :: "c_string option \<Rightarrow> console \<Rightarrow> console" where
  "doom_os_driver_log message = service_log message"

definition doom_os_driver_io_write8 :: "u16 \<Rightarrow> u8 \<Rightarrow> io_event list \<Rightarrow> io_event list" where
  "doom_os_driver_io_write8 port v = io_write8 port v"

definition doom_os_driver_io_read8 :: "io_device \<Rightarrow> u16 \<Rightarrow> io_event list \<Rightarrow> u8 \<times> io_event list" where
  "doom_os_driver_io_read8 dev port = io_read8 dev port"

definition doom_os_driver_alloc :: "'d dlmalloc \<Rightarrow> u64 \<Rightarrow> u64 \<Rightarrow> 'd kheap \<times> vmm_machine \<Rightarrow>
    (u64 \<times> 'd kheap \<times> vmm_machine) outcome" where
  "doom_os_driver_alloc dl bytes alignment = service_alloc dl bytes alignment"

definition doom_os_driver_free :: "'d dlmalloc \<Rightarrow> u64 \<Rightarrow> 'd kheap \<times> vmm_machine \<Rightarrow>
    ('d kheap \<times> vmm_machine) outcome" where
  "doom_os_driver_free dl ptr = service_free dl ptr"

definition doom_os_driver_map_mmio :: "paddr_t \<Rightarrow> u64 \<Rightarrow> u64 \<Rightarrow> machine \<Rightarrow> (u64 \<times> machine) outcome" where
  "doom_os_driver_map_mmio root physical_base sz = service_map_mmio root physical_base sz"

definition doom_os_driver_register_irq :: "u32 \<Rightarrow> u64 \<Rightarrow> u64 \<Rightarrow> int outcome" where
  "doom_os_driver_register_irq vector handler context =
     obind (register_irq vector handler context) (\<lambda>ok. Return (if ok then 1 else 0))"

definition doom_os_driver_unregister_irq :: "u32 \<Rightarrow> u64 \<Rightarrow> u64 \<Rightarrow> unit outcome" where
  "doom_os_driver_unregister_irq vector handler context = unregister_irq vector handler context"

section \<open>Device memory\<close>

text \<open>
  C30: the device-memory service returns on every well-formed address space and keeps it well
  formed. It returns the null pointer, or an address at which each of the requested bytes
  translates to its physical byte, uncached; and it changes no translation outside the pages
  of the request in the device window, also when it fails half way.
\<close>

theorem map_mmio_correct:
  assumes "tree_inv m root"
  shows "\<exists>va m'. doom_os_driver_map_mmio root pa bytes m = Return (va, m') \<and> tree_inv m' root \<and>
    (va \<noteq> 0 \<longrightarrow> bytes \<noteq> 0 \<and> unat pa + unat bytes \<le> 2 ^ 39 \<and>
       (\<forall>off < bytes. address_space m' root (va + off) = Some (pa + off, effective_prot (feats m) MMIO))) \<and>
    (\<forall>x. (unat pa + unat bytes \<le> 2 ^ 39 \<longrightarrow>
        align_up (pa + bytes) FRAME_SIZE - align_down pa FRAME_SIZE \<le> x - (MMIO_MAP_BASE + align_down pa FRAME_SIZE)) \<longrightarrow>
      address_space m' root x = address_space m root x)"
proof -
  obtain r m' where R: "map_mmio root pa bytes m = Return (r, m')" "tree_inv m' root"
      "\<not> isl r \<longrightarrow> r = Ok (MMIO_MAP_BASE + pa) \<and> bytes \<noteq> 0 \<and> unat pa + unat bytes \<le> 2 ^ 39 \<and>
       (\<forall>off < bytes. address_space m' root (MMIO_MAP_BASE + pa + off) =
          Some (pa + off, effective_prot (feats m) MMIO))"
      "\<forall>x. (unat pa + unat bytes \<le> 2 ^ 39 \<longrightarrow>
        align_up (pa + bytes) FRAME_SIZE - align_down pa FRAME_SIZE \<le> x - (MMIO_MAP_BASE + align_down pa FRAME_SIZE)) \<longrightarrow>
      address_space m' root x = address_space m root x"
    using map_mmio_spec [OF assms, of pa bytes] by blast
  then show ?thesis
    by (cases r) (auto simp: doom_os_driver_map_mmio_def service_map_mmio_def)
qed

lemma sample_mmio:
  "\<exists>m'. map_mmio 0x101000 0xFEC00000 0x20 empty_machine = Return (Ok (MMIO_MAP_BASE + 0xFEC00000), m')"
proof -
  let ?va = "MMIO_MAP_BASE + 0xFEC00000 :: u64" and ?pa = "0xFEC00000 :: u64"
  have al: "align_down ?pa FRAME_SIZE = ?pa" "align_up (?pa + 0x20) FRAME_SIZE - ?pa = FRAME_SIZE"
    by (simp_all add: align_down_def align_up_def FRAME_SIZE_eq)
  have v: "valid ?va" "(?va OR ?pa) AND (bytes_in SIZE_4K - 1) = 0"
    by (simp_all add: valid_def MMIO_MAP_BASE_def bytes_in_pow2 level_of_def layout)
  have pa: "unat ?pa < 2 ^ 52" by simp
  from map_leaf_spec [OF empty_machine_inv(1) _ pa, of SIZE_4K ?va MMIO]
  obtain r m' where R: "map_leaf 0x101000 ?va ?pa SIZE_4K MMIO empty_machine = Return (r, m')"
      "\<And>e. r = Err e \<Longrightarrow> e = OUT_OF_MEMORY"
    using v empty_machine_inv(2) by (fastforce simp: leaf_at_None_iff split: sum.splits)
  have "pmm_inv (m_pmm empty_machine)" "3 \<le> avail empty_machine"
    by (simp_all add: empty_machine_def avail_def sample_pmm)
  then have "r = Ok ()" using map_leaf_avail(2) [OF _ R(1)] R(2) by (cases r) auto
  moreover have "\<not> ((0x20 :: u64) = 0 \<or> ?pa \<ge> MMIO_MAP_SIZE \<or> 0x20 > MMIO_MAP_SIZE - ?pa)"
    by (simp add: MMIO_MAP_SIZE_def)
  ultimately show ?thesis
    using R(1) unfolding map_mmio_def Let_def al by (simp add: al(2) [simplified] ktry_def map_range_page mm_ok_def)
qed

theorem map_mmio_correct_witness:
  "\<exists>va m'. doom_os_driver_map_mmio 0x101000 0xFEC00000 0x20 empty_machine = Return (va, m') \<and> va \<noteq> 0 \<and>
     address_space m' 0x101000 (va + 0x10) = Some (0xFEC00010, effective_prot (feats empty_machine) MMIO)"
proof -
  obtain va m' where R: "doom_os_driver_map_mmio 0x101000 0xFEC00000 0x20 empty_machine = Return (va, m')"
      "va \<noteq> 0 \<longrightarrow> (\<forall>off < 0x20. address_space m' 0x101000 (va + off) =
         Some (0xFEC00000 + off, effective_prot (feats empty_machine) MMIO))"
    using map_mmio_correct [OF empty_machine_inv(1), of "0xFEC00000" "0x20"] by blast
  have "va = MMIO_MAP_BASE + 0xFEC00000"
    using R(1) sample_mmio by (auto simp: doom_os_driver_map_mmio_def service_map_mmio_def)
  then have "va \<noteq> 0" by (simp add: MMIO_MAP_BASE_def)
  moreover from this have "address_space m' 0x101000 (va + 0x10) =
      Some (0xFEC00000 + 0x10, effective_prot (feats empty_machine) MMIO)"
    using R(2) by simp
  ultimately show ?thesis using R(1) by auto
qed

end
