(* ===== verification/Source_Assertions.thy ===== *)
theory Source_Assertions
  imports Mmu
begin

text \<open>
  The compile-time assertions of \<^verbatim>\<open>kernel/core/utils/bits.hpp\<close>, \<^verbatim>\<open>kernel/mm/pmm.cpp\<close> and
  \<^verbatim>\<open>arch/x86_64/mmu/mmu.cpp\<close>, transcribed one by one over the model: the compiler checks them
  on the code, the lemmas below check them on the model.
\<close>

definition bits_assertions :: "bool list" where
  "bits_assertions =
    [bit_width TYPE(u8) = 8,
     bit_width TYPE(u16) = 16,
     bit_width TYPE(u32) = 32,
     bit_width TYPE(u64) = 64,
     (bit_w 0 :: u32) = (0x1 :: u32),
     (bit_w 1 :: u32) = (0x2 :: u32),
     (bit_w 2 :: u32) = (0x4 :: u32),
     (bit_w 3 :: u32) = (0x8 :: u32),
     (bit_w 12 :: u32) = (0x1000 :: u32),
     (bit_w 31 :: u32) = (0x80000000 :: u32),
     (bit_w 32 :: u32) = (0 :: u32),
     (bit_w 0 :: u64) = (0x1 :: u64),
     (bit_w 1 :: u64) = (0x2 :: u64),
     (bit_w 12 :: u64) = (0x1000 :: u64),
     (bit_w 31 :: u64) = (0x80000000 :: u64),
     (bit_w 32 :: u64) = (0x100000000 :: u64),
     (bit_w 63 :: u64) = (0x8000000000000000 :: u64),
     (bit_w 64 :: u64) = (0 :: u64),
     (mask_w 0 :: u32) = (0x0 :: u32),
     (mask_w 1 :: u32) = (0x1 :: u32),
     (mask_w 2 :: u32) = (0x3 :: u32),
     (mask_w 3 :: u32) = (0x7 :: u32),
     (mask_w 4 :: u32) = (0xf :: u32),
     (mask_w 8 :: u32) = (0xff :: u32),
     (mask_w 12 :: u32) = (0xfff :: u32),
     (mask_w 16 :: u32) = (0xffff :: u32),
     (mask_w 31 :: u32) = (0x7fffffff :: u32),
     (mask_w 32 :: u32) = (0xffffffff :: u32),
     (mask_w 33 :: u32) = (0xffffffff :: u32),
     (mask_w 0 :: u64) = (0x0 :: u64),
     (mask_w 1 :: u64) = (0x1 :: u64),
     (mask_w 2 :: u64) = (0x3 :: u64),
     (mask_w 3 :: u64) = (0x7 :: u64),
     (mask_w 4 :: u64) = (0xf :: u64),
     (mask_w 8 :: u64) = (0xff :: u64),
     (mask_w 12 :: u64) = (0xfff :: u64),
     (mask_w 16 :: u64) = (0xffff :: u64),
     (mask_w 31 :: u64) = (0x7fffffff :: u64),
     (mask_w 32 :: u64) = (0xffffffff :: u64),
     (mask_w 63 :: u64) = (0x7fffffffffffffff :: u64),
     (mask_w 64 :: u64) = (0xffffffffffffffff :: u64),
     (mask_w 65 :: u64) = (0xffffffffffffffff :: u64),
     test_bit (1 :: u32) 0,
     \<not> test_bit (1 :: u32) 1,
     test_bit (2 :: u32) 1,
     test_bit (10 :: u32) 1,
     \<not> test_bit (10 :: u32) 2,
     test_bit (10 :: u32) 3,
     \<not> test_bit (10 :: u32) 32,
     test_bit (0x8000000000000000 :: u64) 63,
     \<not> test_bit (0x8000000000000000 :: u64) 64,
     set_bit_w (0 :: u32) 0 = (1 :: u32),
     set_bit_w (0 :: u32) 1 = (2 :: u32),
     set_bit_w (0 :: u32) 3 = (8 :: u32),
     set_bit_w (2 :: u32) 1 = (2 :: u32),
     set_bit_w (2 :: u32) 2 = (6 :: u32),
     set_bit_w (0 :: u32) 32 = (0 :: u32),
     set_bit_w (0 :: u64) 63 = (0x8000000000000000 :: u64),
     set_bit_w (0 :: u64) 64 = (0 :: u64),
     clear_bit (1 :: u32) 0 = (0 :: u32),
     clear_bit (3 :: u32) 0 = (2 :: u32),
     clear_bit (10 :: u32) 1 = (8 :: u32),
     clear_bit (10 :: u32) 2 = (10 :: u32),
     clear_bit (10 :: u32) 3 = (2 :: u32),
     clear_bit (0xffffffff :: u32) 31 = (0x7fffffff :: u32),
     clear_bit (0xffffffff :: u32) 32 = (0xffffffff :: u32),
     clear_bit (0xffffffffffffffff :: u64) 63 = (0x7fffffffffffffff :: u64),
     clear_bit (0xffffffffffffffff :: u64) 64 = (0xffffffffffffffff :: u64),
     is_power_of_two (1 :: u64),
     is_power_of_two (2 :: u64),
     is_power_of_two (4 :: u64),
     is_power_of_two (8 :: u64),
     is_power_of_two (4096 :: u64),
     is_power_of_two (0x8000000000000000 :: u64),
     \<not> is_power_of_two (0 :: u64),
     \<not> is_power_of_two (3 :: u64),
     \<not> is_power_of_two (5 :: u64),
     \<not> is_power_of_two (7 :: u64),
     \<not> is_power_of_two (4097 :: u64),
     align_down (0 :: u64) (8 :: u64) = (0 :: u64),
     align_down (1 :: u64) (8 :: u64) = (0 :: u64),
     align_down (7 :: u64) (8 :: u64) = (0 :: u64),
     align_down (8 :: u64) (8 :: u64) = (8 :: u64),
     align_down (9 :: u64) (8 :: u64) = (8 :: u64),
     align_down (15 :: u64) (8 :: u64) = (8 :: u64),
     align_down (16 :: u64) (8 :: u64) = (16 :: u64),
     align_down (0x1003 :: u64) (0x1000 :: u64) = (0x1000 :: u64),
     align_down (0x1fff :: u64) (0x1000 :: u64) = (0x1000 :: u64),
     align_down (0x2000 :: u64) (0x1000 :: u64) = (0x2000 :: u64),
     align_up (0 :: u64) (8 :: u64) = (0 :: u64),
     align_up (1 :: u64) (8 :: u64) = (8 :: u64),
     align_up (7 :: u64) (8 :: u64) = (8 :: u64),
     align_up (8 :: u64) (8 :: u64) = (8 :: u64),
     align_up (9 :: u64) (8 :: u64) = (16 :: u64),
     align_up (15 :: u64) (8 :: u64) = (16 :: u64),
     align_up (16 :: u64) (8 :: u64) = (16 :: u64),
     align_up (0x1003 :: u64) (0x1000 :: u64) = (0x2000 :: u64),
     align_up (0x1fff :: u64) (0x1000 :: u64) = (0x2000 :: u64),
     align_up (0x2000 :: u64) (0x1000 :: u64) = (0x2000 :: u64),
     is_aligned (0 :: u64) (8 :: u64),
     \<not> is_aligned (1 :: u64) (8 :: u64),
     \<not> is_aligned (7 :: u64) (8 :: u64),
     is_aligned (8 :: u64) (8 :: u64),
     \<not> is_aligned (9 :: u64) (8 :: u64),
     is_aligned (16 :: u64) (8 :: u64),
     is_aligned (0x1000 :: u64) (0x1000 :: u64),
     \<not> is_aligned (0x1001 :: u64) (0x1000 :: u64),
     is_aligned (0x2000 :: u64) (0x1000 :: u64)]"

lemma bits_assertions_hold: "list_all (\<lambda>b. b) bits_assertions"
  by (simp add: bits_assertions_def bit_width_def bit_w_def mask_w_def all_bits_def test_bit_def set_bit_w_def
      clear_bit_def is_power_of_two_def align_down_def align_up_def is_aligned_def)

definition PML4_SPAN :: u64 where "PML4_SPAN = push_bit 39 1"

definition mmu_assertions :: "bool list" where
  "mmu_assertions =
    [KERNEL_BASE mod PAGE_1G = 0,
     DIRECT_MAP_BASE mod PML4_SPAN = 0 \<and> DIRECT_MAP_SIZE mod PAGE_1G = 0,
     DIRECT_PD_COUNT \<le> ENTRIES,
     MMIO_MAP_BASE mod PML4_SPAN = 0 \<and> MMIO_MAP_SIZE \<le> PML4_SPAN,
     MMIO_MAP_BASE \<ge> DIRECT_MAP_BASE + PML4_SPAN,
     VMALLOC_BASE mod PML4_SPAN = 0 \<and> VMALLOC_SIZE \<le> PML4_SPAN,
     VMALLOC_BASE \<ge> MMIO_MAP_BASE + PML4_SPAN,
     pt_index 4 KERNEL_BASE \<noteq> pt_index 4 VMALLOC_BASE,
     pt_index 4 KERNEL_BASE \<noteq> pt_index 4 DIRECT_MAP_BASE]"

lemma mmu_assertions_hold: "list_all (\<lambda>b. b) mmu_assertions"
  by (simp add: mmu_assertions_def PML4_SPAN_def KERNEL_BASE_def PAGE_1G_def DIRECT_MAP_BASE_def DIRECT_MAP_SIZE_def
      DIRECT_PD_COUNT_def MMIO_MAP_BASE_def MMIO_MAP_SIZE_def VMALLOC_BASE_def VMALLOC_SIZE_def ENTRIES_def
      pt_index_def bytes_in_def layout unat_div_distrib)

definition pmm_assertions :: "bool list" where
  "pmm_assertions =
    [MAX_PHYSICAL_MEMORY mod bytes_in SIZE_1G = 0,
     BLOCK_COUNT < unat NIL \<and> FRAMES_PER_BLOCK \<le> unat NIL]"

lemma pmm_assertions_hold: "list_all (\<lambda>b. b) pmm_assertions"
  by (simp add: pmm_assertions_def layout bytes_in_def MAX_PHYSICAL_MEMORY_def BLOCK_COUNT_def MAX_FRAMES_def NIL_def
      unsigned_minus_1_eq_mask mask_eq_exp_minus_1)

end
