(* ===== verification/Container_Access.thy ===== *)
theory Container_Access
  imports Containers
begin

text \<open>
  The remaining members of the containers: element access, constructors and operators of
  \<^verbatim>\<open>fixed_string\<close>, element access of \<^verbatim>\<open>inplace_vector\<close>, and \<^verbatim>\<open>array\<close>. None of them checks an
  index: an access outside the storage is \<open>None\<close>, and so is \<^verbatim>\<open>back\<close> of an empty container.
\<close>

definition item_at :: "'a list \<Rightarrow> nat \<Rightarrow> 'a option" where
  "item_at items index = (if index < length items then Some (items ! index) else None)"

definition last_item :: "'a list \<Rightarrow> nat \<Rightarrow> 'a option" where
  "last_item items n = (if n = 0 then None else item_at items (n - 1))"

section \<open>fixed\_string\<close>

definition fs_of_text :: "nat \<Rightarrow> c_string option \<Rightarrow> fixed_string" where
  "fs_of_text N text = fs_assign_text N (fixed_string_new N) text"

definition fs_of_chars :: "nat \<Rightarrow> c_string \<Rightarrow> nat \<Rightarrow> fixed_string" where
  "fs_of_chars N text count = fs_assign N (fixed_string_new N) text count"

definition fs_assign_fixed :: "nat \<Rightarrow> fixed_string \<Rightarrow> fixed_string \<Rightarrow> fixed_string" where
  "fs_assign_fixed N s other = fs_assign N s (m_data other) (m_size other)"

definition fs_of_fixed :: "nat \<Rightarrow> fixed_string \<Rightarrow> fixed_string" where
  "fs_of_fixed N other = fs_assign_fixed N (fixed_string_new N) other"

definition fs_capacity :: "nat \<Rightarrow> nat" where "fs_capacity N = N"
definition fs_max_size :: "nat \<Rightarrow> nat" where "fs_max_size N = N"
definition fs_length :: "fixed_string \<Rightarrow> nat" where "fs_length s = m_size s"

definition fs_at :: "fixed_string \<Rightarrow> nat \<Rightarrow> char option" where "fs_at s index = item_at (m_data s) index"
definition fs_front :: "fixed_string \<Rightarrow> char option" where "fs_front s = item_at (m_data s) 0"
definition fs_back :: "fixed_string \<Rightarrow> char option" where "fs_back s = last_item (m_data s) (m_size s)"
definition fs_c_str :: "fixed_string \<Rightarrow> c_string" where "fs_c_str s = m_data s"

text \<open>The characters between \<^verbatim>\<open>begin\<close> and \<^verbatim>\<open>end\<close>.\<close>

definition fs_range :: "fixed_string \<Rightarrow> char list" where "fs_range s = take (m_size s) (m_data s)"

definition fs_plus_text :: "nat \<Rightarrow> fixed_string \<Rightarrow> c_string option \<Rightarrow> fixed_string" where
  "fs_plus_text N s text = fs_append_text N s text"

definition fs_plus_char :: "nat \<Rightarrow> fixed_string \<Rightarrow> char \<Rightarrow> fixed_string" where
  "fs_plus_char N s c = fs_append_char N s c"

definition fs_plus_fixed :: "nat \<Rightarrow> fixed_string \<Rightarrow> fixed_string \<Rightarrow> fixed_string" where
  "fs_plus_fixed N s other = fs_append_fixed N s other"

definition fs_compare_fixed :: "fixed_string \<Rightarrow> fixed_string \<Rightarrow> int" where
  "fs_compare_fixed s other = fs_compare s (fs_c_str other)"

section \<open>inplace\_vector\<close>

definition vec_capacity :: "nat \<Rightarrow> nat" where "vec_capacity N = N"
definition vec_at :: "'a inplace_vector \<Rightarrow> nat \<Rightarrow> 'a option" where "vec_at v index = item_at (v_items v) index"
definition vec_front :: "'a inplace_vector \<Rightarrow> 'a option" where "vec_front v = item_at (v_items v) 0"
definition vec_back :: "'a inplace_vector \<Rightarrow> 'a option" where "vec_back v = last_item (v_items v) (v_size v)"

section \<open>array\<close>

record 'a array =
  m_items :: "'a list"

definition array_size :: "'a array \<Rightarrow> nat" where "array_size a = length (m_items a)"
definition array_at :: "'a array \<Rightarrow> nat \<Rightarrow> 'a option" where "array_at a index = item_at (m_items a) index"
definition array_front :: "'a array \<Rightarrow> 'a option" where "array_front a = item_at (m_items a) 0"
definition array_back :: "'a array \<Rightarrow> 'a option" where "array_back a = last_item (m_items a) (array_size a)"

definition array_fill :: "'a \<Rightarrow> 'a array \<Rightarrow> 'a array" where
  "array_fill value a =
     a\<lparr>m_items := fold (\<lambda>i items. items[i := value]) [0..<array_size a] (m_items a)\<rparr>"

fun array_eq_loop :: "'a list \<Rightarrow> 'a list \<Rightarrow> nat \<Rightarrow> nat \<Rightarrow> bool" where
  "array_eq_loop xs ys i 0 = True"
| "array_eq_loop xs ys i (Suc n) = (if \<not> xs ! i = ys ! i then False else array_eq_loop xs ys (i + 1) n)"

definition array_eq :: "'a array \<Rightarrow> 'a array \<Rightarrow> bool" where
  "array_eq a other = array_eq_loop (m_items a) (m_items other) 0 (array_size a)"

section \<open>What they do\<close>

lemma array_fill_items: "m_items (array_fill value a) = replicate (length (m_items a)) value"
proof -
  have "fold (\<lambda>i items. items[i := value]) [0..<k] xs = replicate k value @ drop k xs"
    if "k \<le> length xs" for k and xs :: "'a list"
    using that
  proof (induction k)
    case (Suc k)
    then have "drop k xs = xs ! k # drop (Suc k) xs" by (simp add: Cons_nth_drop_Suc)
    then show ?case using Suc by (simp add: list_update_append replicate_append_same)
  qed simp
  from this [of "length (m_items a)" "m_items a"] show ?thesis by (simp add: array_fill_def array_size_def)
qed

lemma array_eq_loop_iff: "array_eq_loop xs ys i n \<longleftrightarrow> (\<forall>j<n. xs ! (i + j) = ys ! (i + j))"
proof (induction n arbitrary: i)
  case (Suc n)
  have "(\<forall>j<Suc n. xs ! (i + j) = ys ! (i + j)) \<longleftrightarrow>
      xs ! i = ys ! i \<and> (\<forall>j<n. xs ! (i + 1 + j) = ys ! (i + 1 + j))"
    by (auto simp: less_Suc_eq_0_disj)
  then show ?case by (simp add: Suc)
qed simp

lemma array_eq_iff:
  assumes "array_size a = array_size b"
  shows "array_eq a b \<longleftrightarrow> m_items a = m_items b"
  using assms by (auto simp: array_eq_def array_eq_loop_iff array_size_def list_eq_iff_nth_eq)

text \<open>A string built from another keeps its characters as far as they fit.\<close>

lemma fs_of_fixed_contents:
  assumes "fs_wf M other" "NUL \<notin> set (fs_contents other)"
  shows "fs_wf N (fs_of_fixed N other)" "fs_contents (fs_of_fixed N other) = take N (fs_contents other)"
proof -
  have new: "fs_wf N (fixed_string_new N)" by (simp add: fs_wf_def fixed_string_new_def fs_contents_def)
  have "c_text (take (m_size other) (m_data other)) = fs_contents other"
    using assms(2) by (auto simp: c_text_def fs_contents_def takeWhile_eq_all_conv)
  then show "fs_wf N (fs_of_fixed N other)" "fs_contents (fs_of_fixed N other) = take N (fs_contents other)"
    using fs_assign_contents [OF new, of "m_data other" "m_size other"]
    by (simp_all add: fs_of_fixed_def fs_assign_fixed_def)
qed

end
