(* ===== verification/Unmap_Range.thy ===== *)
theory Unmap_Range
  imports Address_Range Mmu Frame_Count
begin

text \<open>
  \<^verbatim>\<open>unmap_range\<close> of \<^verbatim>\<open>radix_tree.hpp\<close> on any well-formed tree, with leaves of any size: the leaf
  that crosses an end of the range is split first, so the leaves that are removed are
  exactly those of the range.
\<close>

section \<open>Boundaries\<close>

text \<open>No leaf crosses \<open>b\<close>: the leaf that translates \<open>b\<close>, if there is one, starts there.\<close>

definition starts_at :: "machine \<Rightarrow> paddr_t \<Rightarrow> vaddr_t \<Rightarrow> bool" where
  "starts_at m root b \<longleftrightarrow> (\<forall>lv e. leaf_at m root b = Some (lv, e) \<longrightarrow> take_bit (page_shift lv) b = 0)"

lemma take_bit_zero_mono: "take_bit s (w :: 'a::len word) = 0 \<Longrightarrow> s' \<le> s \<Longrightarrow> take_bit s' w = 0"
  by (metis min.absorb1 take_bit_of_0 take_bit_take_bit)

lemma entry_find_level: "entry_find r n e va = Some (lv, x) \<Longrightarrow> lv \<le> Suc n"
  using find_leaf_level by (fastforce simp: entry_find_def split: if_splits)

lemma starts_at_table:
  assumes "path_table (mem m) LEVELS root b lv = Some T" "take_bit (page_shift lv) b = 0"
  shows "starts_at m root b"
  unfolding starts_at_def
proof (intro allI impI)
  fix lv' e assume L: "leaf_at m root b = Some (lv', e)"
  obtain n where n: "lv = Suc n" using path_table_level [OF assms(1)] by (cases lv) auto
  have "entry_find (mem m) n (entry (mem m) T (pt_index lv b)) b = Some (lv', e)"
    using L path_table_find [OF assms(1) n same_page_refl] by (simp add: leaf_at_def split: if_splits)
  then have "lv' \<le> lv" unfolding n by (rule entry_find_level)
  then show "take_bit (page_shift lv') b = 0" using take_bit_zero_mono [OF assms(2)] by simp
qed

lemma starts_at_finer:
  assumes "tree_step m m' LEVELS root" "starts_at m root b"
  shows "starts_at m' root b"
  unfolding starts_at_def
proof (intro allI impI)
  fix lv' e' assume L: "leaf_at m' root b = Some (lv', e')"
  then have b: "valid b" "find_leaf (mem m') LEVELS root b = Some (lv', e')"
    by (auto simp: leaf_at_def split: if_splits)
  then have "find_leaf (mem m) LEVELS root b \<noteq> None"
    using tree_stepD(7) [OF assms(1), of b] by (metis map_option_is_None option.distinct(1) xlate_def)
  then obtain lv e where f: "find_leaf (mem m) LEVELS root b = Some (lv, e)" by auto
  then have "lv' \<le> lv" using tree_stepD(9) [OF assms(1) f] b(2) by auto
  moreover have "take_bit (page_shift lv) b = 0"
    using assms(2) f b(1) by (simp add: starts_at_def leaf_at_def)
  ultimately show "take_bit (page_shift lv') b = 0" using take_bit_zero_mono by force
qed

lemma walk_end_leaf:
  "walk_end r l t va target = Some (lv, T) \<Longrightarrow> lv \<noteq> target \<Longrightarrow> leaf (entry r T (pt_index lv va)) lv"
  by (induction l arbitrary: t) (auto simp: Let_def split: if_splits)

lemma step_same_space: "tree_step m m' LEVELS root \<Longrightarrow> address_space m' root = address_space m root"
  using tree_stepD(7) by (auto simp: address_space_xlate)

lemma split_at_spec:
  assumes inv: "tree_inv m root" and b: "valid b" and target: "target \<in> {1, 2, 3}"
    and al: "take_bit (page_shift target) b = 0"
  obtains r m' where "split_at root b target m = Return (r, m')" "tree_inv m' root" "tree_step m m' LEVELS root"
    "\<not> isl r \<Longrightarrow> starts_at m' root b" "takes 3 m m'" "isl r \<Longrightarrow> avail m < 3"
proof -
  have le: "1 \<le> target" "target \<le> LEVELS" using target by (auto simp: LEVELS_def)
  note same = tree_step_refl [OF tree_invD(1) [OF inv]]
  have pmm: "pmm_inv (m_pmm m)" by (rule sub_invD(2) [OF tree_invD(1) [OF inv]])
  then have none: "takes 3 m m" by (simp add: takes_def)
  show thesis
  proof (cases "walk_end (mem m) LEVELS root b target")
    case None
    then have "walk root b target False m = Return (Err NOT_MAPPED, m)"
      using walk_False_spec [OF le, where m = m and t = root and va = b and path = empty_path] by (simp add: walk_def)
    moreover have "starts_at m root b"
      using walk_end_none [OF None le] by (simp add: starts_at_def leaf_at_def)
    ultimately show thesis using that [of "Ok ()" m] inv same none by (simp add: split_at_def mm_ok_def)
  next
    case (Some x)
    obtain lv T where x: "x = (lv, T)" by force
    obtain p where p: "walk root b target False m = Return (Ok p, m)" "reached_level p = lv"
      using walk_False_spec [OF le, where m = m and t = root and va = b and path = empty_path] Some x by (auto simp: walk_def)
    have pt: "path_table (mem m) LEVELS root b lv = Some T" using walk_end_path Some x by blast
    show thesis
    proof (cases "lv > target \<and> (b AND (bytes_in (size_at lv) - 1)) \<noteq> 0")
      case True
      obtain res m1 where W: "walk root b target True m = Return (res, m1)" "tree_inv m1 root"
          "tree_step m m1 LEVELS root"
          "case res of Ok p \<Rightarrow> walk_result m1 LEVELS root b target p | Err e \<Rightarrow> e = OUT_OF_MEMORY"
        using walk_alloc_root [OF inv target] by metis
      have "takes (LEVELS - target) m m1 \<and> (LEVELS - target \<le> avail m \<longrightarrow> \<not> isl res)"
        using walk_from_avail [OF pmm W(1) [unfolded walk_def] le] .
      then have count: "takes 3 m m1" "isl res \<Longrightarrow> avail m < 3"
        using le by (auto simp: takes_def LEVELS_def)
      have split: "split_at root b target m = ktry (walk root b target True) (\<lambda>_. mm_ok ()) m"
        using p True by (simp add: split_at_def Let_def)
      show thesis
      proof (cases res)
        case (Inl e)
        then show thesis using that [of "Err e" m1] W split count by simp
      next
        case (Inr q)
        then have "starts_at m1 root b" using W(4) starts_at_table [OF _ al] by (auto simp: walk_result_def)
        then show thesis using that [of "Ok ()" m1] W Inr split count by (simp add: mm_ok_def)
      qed
    next
      case False
      have "starts_at m root b"
      proof (cases "lv = target")
        case True
        then show ?thesis using starts_at_table [OF pt] al by simp
      next
        case ne: False
        then have gt: "lv > target" using walk_end_target [of "mem m" LEVELS root b target lv T] Some x le by simp
        have pr: "present (entry (mem m) T (pt_index lv b))"
          using walk_end_present [of "mem m" LEVELS root b target lv T] Some x ne by simp
        have lf: "leaf (entry (mem m) T (pt_index lv b)) lv" using walk_end_leaf [of "mem m" LEVELS root b target lv T] Some x ne by simp
        have "lv \<in> {1, 2, 3}"
          using leaf_on_path(1) [OF inv b _ _ pt refl pr lf] walk_end_bound [of "mem m" LEVELS root b target lv T] Some x
          by (simp add: LEVELS_def leaf_ok_def)
        then have "bytes_in (size_at lv) - 1 = mask (page_shift lv)"
          by (auto simp: size_at_level_of bytes_in_pow2 mask_eq_exp_minus_1 shift_of_sizes)
        then have "take_bit (page_shift lv) b = 0" using False gt by (simp add: take_bit_eq_mask)
        then show ?thesis by (rule starts_at_table [OF pt])
      qed
      moreover have "split_at root b target m = Return (Ok (), m)"
        using p False by (auto simp: split_at_def Let_def mm_ok_def)
      ultimately show thesis using that [of "Ok ()" m] inv same none by simp
    qed
  qed
qed

section \<open>Removing leaf by leaf\<close>

lemma leaf_at_page:
  assumes inv: "tree_inv m root" and x: "leaf_at m root x = Some (lv, e)"
    and eq: "drop_bit (page_shift lv) y = drop_bit (page_shift lv) x"
  shows "leaf_at m root y = Some (lv, e)"
proof -
  have v: "valid x" "find_leaf (mem m) LEVELS root x = Some (lv, e)"
    using x by (auto simp: leaf_at_def split: if_splits)
  show ?thesis
  proof (rule walk_to_end [OF v(1), of root m], goal_cases)
    case 1
    then show ?case using v by (simp add: address_space_xlate xlate_def)
  next
    case (2 p lv' T)
    then have lv: "lv' = lv" "entry (mem m) T (pt_index lv x) = e" "present e"
      using v(2) by (auto split: if_splits)
    obtain n where n: "lv = Suc n" using 2(3) lv(1) by (cases lv) auto
    have y: "valid y" using valid_in_page [OF eq] v(1) find_leaf_ok(3) [OF sub_invD(1) [OF tree_invD(1) [OF inv]] v(2)]
      by (auto simp: leaf_ok_def)
    have "same_page lv LEVELS x y" using same_page_iff [OF v(1) y] 2(4) lv(1) eq by (simp add: LEVELS_def)
    then have "find_leaf (mem m) LEVELS root y = entry_find (mem m) n e y"
      using path_table_find [OF 2(7) [unfolded lv(1)] n] lv(2) by simp
    moreover have "leaf e lv" using find_leaf_ok(2) [OF sub_invD(1) [OF tree_invD(1) [OF inv]] v(2)] .
    ultimately show ?case using y lv(3) by (simp add: leaf_at_def entry_find_def n)
  qed
qed

lemma word_window:
  fixes d first w :: u64
  assumes "unat first + unat w < 2 ^ 64"
  shows "d - first < w \<longleftrightarrow> unat first \<le> unat d \<and> unat d < unat first + unat w"
proof (cases "first \<le> d")
  case True
  then show ?thesis by (auto simp: unat_minus_le word_less_nat_alt word_le_nat_alt)
next
  case False
  then have lt: "unat d < unat first" by (simp add: word_le_nat_alt)
  then have "unat (d - first) = 2 ^ 64 + unat d - unat first" by (simp add: unat_sub_if')
  then show ?thesis using lt assms by (simp add: word_less_nat_alt)
qed

lemma take_bit_zero_dvd: "s < 64 \<Longrightarrow> take_bit s (w :: u64) = 0 \<longleftrightarrow> 2 ^ s dvd unat w"
  by (simp add: and_mask_dvd_nat flip: take_bit_eq_mask)

text \<open>An aligned block ends inside any larger block unless it is the last one there.\<close>

lemma block_end:
  fixes x :: u64
  assumes "take_bit s x = 0" "s < s'" "s' < 64" "take_bit s' (x + 2 ^ s) \<noteq> 0"
  shows "drop_bit s' x = drop_bit s' (x + 2 ^ s)"
proof -
  have p: "unat (2 ^ s :: u64) = 2 ^ s" using assms(2,3) by (simp add: unat_power_less)
  obtain q where q: "unat x = 2 ^ s * q" using assms(1-3) take_bit_zero_dvd [of s x] by (auto elim: dvdE)
  obtain g where g: "s' = s + g" using assms(2) less_imp_add_positive by blast
  have fits: "unat x + 2 ^ s < 2 ^ 64"
  proof (rule ccontr)
    assume big: "\<not> unat x + 2 ^ s < 2 ^ 64"
    define k :: nat where "k = 2 ^ (64 - s)"
    have k: "(2 :: nat) ^ 64 = 2 ^ s * k" using assms(2,3) unfolding k_def by (simp flip: power_add)
    have "unat x < 2 ^ LENGTH(64)" by (rule unsigned_less)
    then have "2 ^ s * q < 2 ^ s * k" unfolding q [symmetric] k [symmetric] by simp
    then have "q < k" by (rule mult_less_cancel1 [THEN iffD1, THEN conjunct2])
    moreover have "2 ^ s * k \<le> 2 ^ s * (q + 1)" using big unfolding k q by simp
    then have "k \<le> q + 1" by (rule mult_le_cancel1 [THEN iffD1, rule_format]) simp
    ultimately have "k = q + 1" by simp
    then have "unat x + unat (2 ^ s :: u64) = 2 ^ 64" unfolding k q p by simp
    then have "x + 2 ^ s = 0" by (simp add: word_unat_eq_iff unat_word_ariths)
    then show False using assms(4) by simp
  qed
  have y: "unat (x + 2 ^ s) = 2 ^ s * Suc q"
    using unat_plus_small [of x "2 ^ s"] fits p q by simp
  have "\<not> 2 ^ g dvd Suc q"
    using assms(3,4) take_bit_zero_dvd [of s' "x + 2 ^ s"] unfolding y g by (metis mult_dvd_mono dvd_refl power_add)
  then have "Suc q div 2 ^ g = q div 2 ^ g" by (simp add: div_Suc dvd_eq_mod_eq_0)
  then have "unat (x + 2 ^ s) div 2 ^ s' = unat x div 2 ^ s'" unfolding y q g power_add by (simp del: mult_Suc_right)
  then show ?thesis
    by (simp only: word_unat_eq_iff unat_drop_bit_eq) (simp add: drop_bit_eq_div)
qed

text \<open>Where the next leaf starts, once the leaf at \<open>x\<close> is gone.\<close>

lemma next_leaf_starts:
  assumes inv: "tree_inv m root" and x: "leaf_at m root x = Some (lv, e)" and al: "take_bit (page_shift lv) x = 0"
    and lv: "lv \<in> {1, 2, 3}"
  shows "starts_at m root (x + 2 ^ page_shift lv)" (is "starts_at m root ?y")
  unfolding starts_at_def
proof (intro allI impI)
  fix lv' e' assume y: "leaf_at m root ?y = Some (lv', e')"
  have lv': "lv' \<in> {1, 2, 3}"
    using y find_leaf_ok(3) [OF sub_invD(1) [OF tree_invD(1) [OF inv]]] by (auto simp: leaf_at_def leaf_ok_def split: if_splits)
  let ?s = "page_shift lv" and ?s' = "page_shift lv'"
  have s: "?s < 64" "?s' < 64" using lv lv' by auto
  have "2 ^ ?s dvd ?y" using al unfolding take_bit_eq_0_iff by (rule dvd_add) simp
  then have y0: "take_bit ?s ?y = 0" unfolding take_bit_eq_0_iff .
  show "take_bit ?s' ?y = 0"
  proof (rule ccontr)
    assume ne: "take_bit ?s' ?y \<noteq> 0"
    then have gt: "?s < ?s'" using take_bit_zero_mono [OF y0] by (meson not_le)
    have "drop_bit ?s' x = drop_bit ?s' ?y" by (rule block_end [OF al gt s(2) ne])
    then have "leaf_at m root x = Some (lv', e')" using leaf_at_page [OF inv y] by simp
    then show False using x gt by simp
  qed
qed

text \<open>One step: the leaf at \<open>x\<close> lies inside the range and its removal moves on to the next boundary.\<close>

lemma remove_in_range:
  fixes x last :: vaddr_t
  assumes inv: "tree_inv m root" and start: "starts_at m root x" and stop: "starts_at m root last"
    and left: "unat (last - x) = k" "0 < k" and nowrap: "unat x + k \<le> 2 ^ 64"
    and find: "find_leaf (mem m) LEVELS root x = Some (lv, e)" and x: "valid x"
  shows "lv \<in> {1, 2, 3}" "take_bit (page_shift lv) x = 0" "2 ^ page_shift lv \<le> k"
proof -
  have L: "leaf_at m root x = Some (lv, e)" using find x by (simp add: leaf_at_def)
  show lv: "lv \<in> {1, 2, 3}"
    using find_leaf_ok(3) [OF sub_invD(1) [OF tree_invD(1) [OF inv]] find] by (simp add: leaf_ok_def)
  then have s: "page_shift lv < 64" by auto
  show al: "take_bit (page_shift lv) x = 0" using start L by (simp add: starts_at_def)
  show "2 ^ page_shift lv \<le> k"
  proof (rule ccontr)
    assume "\<not> 2 ^ page_shift lv \<le> k"
    then have d: "last - x < 2 ^ page_shift lv" using left(1) s by (simp add: word_less_nat_alt unat_power_less)
    then have "leaf_at m root last = Some (lv, e)"
      using leaf_at_page [OF inv L] in_page_iff(1) [OF al s] by blast
    then have "take_bit (page_shift lv) last = 0" using stop by (simp add: starts_at_def)
    then have "last - x = 0" using in_page_iff(2) [OF al s d] by simp
    then show False using left by simp
  qed
qed

lemma avail_mono:
  assumes "pmm_inv (m_pmm m)" "pmm_inv (m_pmm m')" "free_tables m \<subseteq> free_tables m'"
  shows "avail m \<le> avail m'"
  unfolding avail_def
proof (rule card_mono [OF finite_free_frames [OF assms(2)]], rule subsetI)
  fix f assume f: "f \<in> free_frames (m_pmm m)"
  have "f < 4194304" by (rule free_frame_bound(1) [OF assms(1) f])
  then have x: "unat (of_nat (f * 4096) :: u64) = f * 4096" by (intro unat_of_nat_small) simp
  then have "of_nat (f * 4096) \<in> free_tables m"
    using f \<open>f < 4194304\<close> by (simp add: free_tables_def frame_address_iff del: of_nat_mult)
  then show "f \<in> free_frames (m_pmm m')" using assms(3) x by (auto simp: free_tables_def simp del: of_nat_mult)
qed

lemma unmap_loop_spec:
  fixes va len offset :: u64
  assumes "tree_inv m root" "starts_at m root (va + offset)" "starts_at m root (va + len)"
    "unat offset \<le> unat len" "unat va + unat len \<le> 2 ^ 64" "unat len - unat offset \<le> fuel * 4096"
  shows "\<exists>r m' n. unmap_loop fuel root va len offset ignore_removed m = Return (r, m') \<and> tree_inv m' root \<and>
    same_config m m' \<and> unat offset \<le> n \<and> n \<le> unat len \<and> (\<not> isl r \<longrightarrow> n = unat len) \<and>
    (isl r \<longrightarrow> n < unat len \<and> address_space m root (va + of_nat n) = None) \<and> avail m \<le> avail m' \<and>
    (\<forall>va'. address_space m' root va' =
       (if unat offset \<le> unat (va' - va) \<and> unat (va' - va) < n then None else address_space m root va'))"
  using assms
proof (induction fuel arbitrary: m offset)
  case 0
  then have "unat offset = unat len" by simp
  then show ?case using 0 by (intro exI [of _ "Ok ()"] exI [of _ m] exI [of _ "unat len"])
    (auto simp: word_less_nat_alt mm_ok_def same_config_def)
next
  case (Suc fuel)
  let ?x = "va + offset"
  show ?case
  proof (cases "offset < len")
    case False
    then have "unat offset = unat len" using Suc.prems(4) by (simp add: word_less_nat_alt)
    then show ?thesis using Suc.prems False by (intro exI [of _ "Ok ()"] exI [of _ m] exI [of _ "unat len"])
      (auto simp: mm_ok_def same_config_def)
  next
    case more: True
    then have lt: "unat offset < unat len" by (simp add: word_less_nat_alt)
    have stop: ?thesis if "remove_leaf root ?x m = Return (Err e, m)" "address_space m root ?x = None" for e
      using that more Suc.prems lt
      by (intro exI [of _ "Err e"] exI [of _ m] exI [of _ "unat offset"]) (auto simp: same_config_def)
    show ?thesis
    proof (cases "valid ?x")
      case False
      then show ?thesis using stop by (simp add: remove_leaf_def mm_fail_def address_space_xlate)
    next
      case vx: True
      note R = remove_leaf_spec [OF Suc.prems(1) vx]
      show ?thesis
      proof (cases "find_leaf (mem m) LEVELS root ?x")
        case None
        then show ?thesis using stop R by (simp add: address_space_xlate xlate_def)
      next
        case (Some y)
        obtain lv e where y: "y = (lv, e)" by force
        let ?info = "\<lparr>mp_frame = pte_address e, mp_offset = 0, mp_size = size_at lv, mp_prot = pte_prot e\<rparr>"
        let ?w = "2 ^ page_shift lv :: u64"
        obtain m1 where m1: "remove_leaf root ?x m = Return (Ok ?info, m1)" "tree_shrink m m1 root"
            "\<And>va'. leaf_at m1 root va' =
               (if drop_bit (page_shift lv) va' = drop_bit (page_shift lv) ?x then None else leaf_at m root va')"
          using R Some y by auto
        have ux: "unat ?x = unat va + unat offset" using lt Suc.prems(5) by (intro unat_plus_small) simp
        have left: "unat (va + len - ?x) = unat len - unat offset" "0 < unat len - unat offset"
            "unat ?x + (unat len - unat offset) \<le> 2 ^ 64"
          using lt Suc.prems(5) ux unat_minus_le [of offset len] by (simp_all add: word_le_nat_alt)
        note B = remove_in_range [OF Suc.prems(1-3) left Some [unfolded y] vx]
        have s: "page_shift lv < 64" and w: "unat ?w = 2 ^ page_shift lv" "bytes_in (size_at lv) = ?w" "4096 \<le> unat ?w"
          using B(1) by (auto simp: unat_power_less size_at_level_of bytes_in_pow2 shift_of_sizes)
        have fits: "unat offset + unat ?w \<le> unat len" using B(3) w(1) lt by simp
        moreover have "unat len < 2 ^ LENGTH(64)" by (rule unsigned_less)
        ultimately have o': "unat (offset + ?w) = unat offset + unat ?w" "unat offset + unat ?w < 2 ^ 64"
          by (auto intro!: unat_plus_small)
        have page: "drop_bit (page_shift lv) va' = drop_bit (page_shift lv) ?x \<longleftrightarrow>
            unat offset \<le> unat (va' - va) \<and> unat (va' - va) < unat (offset + ?w)" for va'
          using in_page_iff(1) [OF B(2) s, of va'] word_window [OF o'(2), of "va' - va"] o'(1)
          by (simp add: diff_diff_eq)
        have inv1: "tree_inv m1 root" "same_config m m1" using m1(2) by (simp_all add: tree_shrink_def)
        have more1: "avail m \<le> avail m1"
          using m1(2) Suc.prems(1) inv1(1) by (intro avail_mono) (auto simp: tree_shrink_def tree_inv_def sub_inv_def)
        have keep: "starts_at m1 root b" if "starts_at m root b" for b
          using that m1(3) [of b] by (simp add: starts_at_def)
        have nxt: "starts_at m1 root (va + (offset + ?w))"
          using keep next_leaf_starts [OF Suc.prems(1) _ B(2,1), of e] Some y vx
          by (simp add: leaf_at_def add.assoc)
        have le: "unat (offset + ?w) \<le> unat len" "unat len - unat (offset + ?w) \<le> fuel * 4096"
          using fits o'(1) w(3) Suc.prems(6) by simp_all
        from Suc.IH [OF inv1(1) nxt keep [OF Suc.prems(3)] le(1) Suc.prems(5) le(2)]
        obtain r m' n where I: "unmap_loop fuel root va len (offset + ?w) ignore_removed m1 = Return (r, m')"
            "tree_inv m' root" "same_config m1 m'" "unat (offset + ?w) \<le> n" "n \<le> unat len" "\<not> isl r \<longrightarrow> n = unat len"
            "isl r \<longrightarrow> n < unat len \<and> address_space m1 root (va + of_nat n) = None" "avail m1 \<le> avail m'"
            "\<And>va'. address_space m' root va' =
               (if unat (offset + ?w) \<le> unat (va' - va) \<and> unat (va' - va) < n then None else address_space m1 root va')"
          by blast
        have "unmap_loop (Suc fuel) root va len offset ignore_removed m = Return (r, m')"
          using more m1(1) I(1) w(2) by simp
        moreover have "address_space m' root va' =
            (if unat offset \<le> unat (va' - va) \<and> unat (va' - va) < n then None else address_space m root va')" for va'
          using I(4) o'(1) unfolding I(9) address_space_def [of m1] m1(3) page by (auto simp: address_space_def)
        moreover have "isl r \<longrightarrow> n < unat len \<and> address_space m root (va + of_nat n) = None"
        proof
          assume "isl r"
          then have n: "n < unat len" "address_space m1 root (va + of_nat n) = None" using I(7) by simp_all
          have "unat (of_nat n :: u64) = n" using n(1) \<open>unat len < 2 ^ LENGTH(64)\<close> by (intro unat_of_nat_small) simp
          then have "unat (va + of_nat n - va) = n" by simp
          then show "n < unat len \<and> address_space m root (va + of_nat n) = None"
            using n I(4) page [of "va + of_nat n"] m1(3) [of "va + of_nat n"] by (simp add: address_space_def)
        qed
        moreover have "unat offset \<le> n" using I(4) o'(1) by simp
        moreover have "same_config m m'" using inv1(2) I(3) by (simp add: same_config_def)
        ultimately show ?thesis using I(2,5,6,8) le_trans [OF more1 I(8)] by (intro exI [of _ r] exI [of _ m'] exI [of _ n]) blast
      qed
    qed
  qed
qed

section \<open>The range operation\<close>

lemma range_end_fits:
  fixes va len :: u64
  assumes "len \<noteq> 0" "\<not> va + len - 1 < va"
  shows "unat va + unat len \<le> 2 ^ 64"
proof -
  have "unat len < 2 ^ LENGTH(64)" "unat va < 2 ^ LENGTH(64)" by (rule unsigned_less)+
  moreover have "unat (va + (len - 1)) = (unat va + (unat len - 1)) mod 2 ^ 64"
    using assms(1) by (simp add: unat_word_ariths unat_minus_one)
  moreover have "unat va \<le> unat (va + (len - 1))" using assms(2) by (simp add: word_less_nat_alt add_diff_eq)
  moreover have "(unat va + (unat len - 1)) mod 2 ^ 64 = unat va + (unat len - 1) - 2 ^ 64"
    if "2 ^ 64 \<le> unat va + (unat len - 1)" using that calculation(1,2) by (simp add: mod_if)
  ultimately show ?thesis using assms(1) by (cases "2 ^ 64 \<le> unat va + (unat len - 1)") auto
qed

definition bad_range :: "features \<Rightarrow> vaddr_t \<Rightarrow> u64 \<Rightarrow> page_size \<Rightarrow> bool" where
  "bad_range ft va len psize \<longleftrightarrow>
     (let step = bytes_in (leaf_size ft psize)
      in \<not> valid va \<or> va AND (step - 1) \<noteq> 0 \<or> len = 0 \<or> len mod step \<noteq> 0 \<or> va + len - 1 < va \<or>
         \<not> valid (va + len - 1))"

lemma unmap_range_spec:
  fixes va len :: u64
  assumes inv: "tree_inv m root" and sz: "supported_size psize"
  shows "\<exists>r m' n. unmap_range root va len psize ignore_removed m = Return (r, m') \<and> tree_inv m' root \<and>
    same_config m m' \<and> n \<le> unat len \<and> (\<not> isl r \<longrightarrow> len \<noteq> 0 \<and> n = unat len) \<and>
    (isl r \<longrightarrow> bad_range (feats m) va len psize \<or> avail m < 6 \<or>
       n < unat len \<and> address_space m root (va + of_nat n) = None) \<and> avail m \<le> avail m' + 6 \<and>
    (\<forall>va'. address_space m' root va' = (if unat (va' - va) < n then None else address_space m root va'))"
proof -
  let ?sz = "leaf_size (feats m) psize" and ?stop = "va + len"
  let ?t = "level_of ?sz"
  have sz': "supported_size ?sz" by (rule leaf_size_supported [OF sz])
  note lv = level_of_sizes [OF sz']
  have fail: ?thesis if "unmap_range root va len psize ignore_removed m = Return (Err e, m1)" "tree_inv m1 root"
      "same_config m m1" "address_space m1 root = address_space m root"
      "bad_range (feats m) va len psize \<or> avail m < 6" "avail m \<le> avail m1 + 6" for e m1
    using that by (intro exI [of _ "Err e"] exI [of _ m1] exI [of _ 0]) auto
  show ?thesis
  proof (cases "(\<not> valid va \<or> va AND (bytes_in ?sz - 1) \<noteq> 0) \<or>
      (len = 0 \<or> len mod bytes_in ?sz \<noteq> 0 \<or> ?stop - 1 < va \<or> \<not> valid (?stop - 1))")
    case True
    then have "unmap_range root va len psize ignore_removed m = Return (Err INVALID_ADDRESS, m)"
      by (auto simp: unmap_range_def Let_def validate_def mm_fail_def [of _ m])
    moreover have "bad_range (feats m) va len psize" using True by (auto simp: bad_range_def Let_def)
    moreover have "same_config m m" "avail m \<le> avail m + 6" by (simp_all add: same_config_def)
    ultimately show ?thesis using fail [of INVALID_ADDRESS m] inv by blast
  next
    case False
    have run: "unmap_range root va len psize ignore_removed m =
        ktry (split_at root va ?t) (\<lambda>_.
        ktry (if ?stop > va \<and> valid ?stop then split_at root ?stop ?t else mm_ok ())
          (\<lambda>_. unmap_loop (unat len div 4096 + 1) root va len 0 ignore_removed)) m"
      using False by (simp add: unmap_range_def Let_def validate_def)
    have s64: "page_shift ?t < 64" using lv(1) by auto
    have al: "take_bit (page_shift ?t) va = 0" using False aligned_iff [OF sz', of va 0] by simp
    have "unat (bytes_in ?sz) = 2 ^ page_shift ?t" using lv(5) s64 by (simp add: unat_power_less)
    moreover have "unat (len mod bytes_in ?sz) = 0" using False by simp
    ultimately have "2 ^ page_shift ?t dvd unat len" by (simp add: unat_mod_distrib dvd_eq_mod_eq_0)
    then have "take_bit (page_shift ?t) len = 0" using take_bit_zero_dvd [OF s64] by simp
    then have ale: "take_bit (page_shift ?t) ?stop = 0" using al unfolding take_bit_eq_0_iff by simp
    have nowrap: "unat va + unat len \<le> 2 ^ 64" using False by (intro range_end_fits) auto
    obtain r1 m1 where S1: "split_at root va ?t m = Return (r1, m1)" "tree_inv m1 root" "tree_step m m1 LEVELS root"
        "\<not> isl r1 \<Longrightarrow> starts_at m1 root va" "takes 3 m m1" "isl r1 \<Longrightarrow> avail m < 3"
      using split_at_spec [OF inv _ lv(1) al] False by blast
    have c1: "same_config m m1" "address_space m1 root = address_space m root"
      using tree_stepD(6) [OF S1(3)] step_same_space [OF S1(3)] .
    show ?thesis
    proof (cases r1)
      case (Inl e)
      then show ?thesis using fail run S1(1,2,5,6) c1 by (simp add: takes_def)
    next
      case r1: (Inr u)
      obtain r2 m2 where S2: "(if ?stop > va \<and> valid ?stop then split_at root ?stop ?t else mm_ok ()) m1 = Return (r2, m2)"
          "tree_inv m2 root" "tree_step m1 m2 LEVELS root" "\<not> isl r2 \<Longrightarrow> starts_at m2 root ?stop" "isl r2 \<Longrightarrow> avail m1 < 3" "avail m1 \<le> avail m2 + 3"
      proof (cases "?stop > va \<and> valid ?stop")
        case True
        then have v: "valid ?stop" by simp
        obtain r2 m2 where S: "split_at root ?stop ?t m1 = Return (r2, m2)" "tree_inv m2 root" "tree_step m1 m2 LEVELS root"
            "\<not> isl r2 \<Longrightarrow> starts_at m2 root ?stop" "takes 3 m1 m2" "isl r2 \<Longrightarrow> avail m1 < 3"
          using split_at_spec [OF S1(2) v lv(1) ale] by blast
        show thesis by (rule that [of r2 m2]) (use True S in \<open>simp_all add: takes_def\<close>)
      next
        case no: False
        have "?stop = 0 \<or> \<not> valid ?stop"
        proof (rule ccontr)
          assume e: "\<not> (?stop = 0 \<or> \<not> valid ?stop)"
          then have "unat (?stop - 1) = unat ?stop - 1" by (simp add: unat_minus_one)
          moreover have "unat va \<le> unat (?stop - 1)" using False by (simp add: word_less_nat_alt)
          moreover have "0 < unat ?stop" using e by (simp add: unat_gt_0)
          ultimately have "va < ?stop" by (simp add: word_less_nat_alt)
          then show False using no e by simp
        qed
        then have "starts_at m1 root ?stop" by (auto simp: starts_at_def leaf_at_def)
        then show thesis
          using that [of "Ok ()" m1] no S1(2) tree_step_refl [OF tree_invD(1) [OF S1(2)]] by (simp add: mm_ok_def)
      qed
      have c2: "same_config m m2" "address_space m2 root = address_space m root"
        using tree_stepD(6) [OF S2(3)] step_same_space [OF S2(3)] c1 by (simp_all add: same_config_def)
      show ?thesis
      proof (cases r2)
        case (Inl e)
        then have "avail m < 6" "avail m \<le> avail m2 + 6" using S1(5) S2(5,6) by (simp_all add: takes_def)
        then show ?thesis using fail run S1(1) r1 S2(1,2) c2 Inl by simp
      next
        case (Inr u')
        then have st: "starts_at m2 root (va + 0)" "starts_at m2 root ?stop"
          using starts_at_finer [OF S2(3)] S1(4) S2(4) r1 by simp_all
        have fuel: "unat len - unat (0 :: u64) \<le> (unat len div 4096 + 1) * 4096" by simp
        from unmap_loop_spec [OF S2(2) st _ nowrap fuel]
        obtain r m' n where U: "unmap_loop (unat len div 4096 + 1) root va len 0 ignore_removed m2 = Return (r, m')"
            "tree_inv m' root" "same_config m2 m'" "n \<le> unat len" "\<not> isl r \<longrightarrow> n = unat len"
            "isl r \<longrightarrow> n < unat len \<and> address_space m2 root (va + of_nat n) = None" "avail m2 \<le> avail m'"
            "\<forall>va'. address_space m' root va' = (if unat (va' - va) < n then None else address_space m2 root va')"
          by auto
        have "unmap_range root va len psize ignore_removed m = Return (r, m')"
          using run S1(1) r1 S2(1) Inr U(1) by simp
        then show ?thesis
          using U(2-8) c2 False S1(5) S2(6) by (intro exI [of _ r] exI [of _ m'] exI [of _ n]) (auto simp: same_config_def takes_def)
      qed
    qed
  qed
qed

text \<open>
  C11: \<^verbatim>\<open>unmap_range\<close> returns on every well-formed tree, whatever the sizes of the pages in it, keeps
  the tree invariant and unmaps a prefix of the range; every other translation is unchanged,
  also those of a large page the range cuts through. It unmaps the whole range and succeeds
  when the range is well formed and mapped throughout and six frames are free to split the
  pages at its ends.
\<close>

theorem unmap_range_correct:
  fixes va len :: u64
  assumes "tree_inv m root" "supported_size psize"
  shows "\<exists>r m' n. unmap_range root va len psize ignore_removed m = Return (r, m') \<and> tree_inv m' root \<and>
    n \<le> unat len \<and>
    (\<forall>va'. address_space m' root va' = (if unat (va' - va) < n then None else address_space m root va')) \<and>
    (\<not> isl r \<longrightarrow> len \<noteq> 0 \<and> n = unat len) \<and>
    (\<not> bad_range (feats m) va len psize \<and> 6 \<le> avail m \<and>
       (\<forall>i<unat len. address_space m root (va + of_nat i) \<noteq> None) \<longrightarrow> \<not> isl r)"
proof -
  obtain r m' n where U: "unmap_range root va len psize ignore_removed m = Return (r, m')" "tree_inv m' root"
      "n \<le> unat len" "\<not> isl r \<longrightarrow> len \<noteq> 0 \<and> n = unat len"
      "isl r \<longrightarrow> bad_range (feats m) va len psize \<or> avail m < 6 \<or>
         n < unat len \<and> address_space m root (va + of_nat n) = None"
      "\<forall>va'. address_space m' root va' = (if unat (va' - va) < n then None else address_space m root va')"
    using unmap_range_spec [OF assms, of va len] by blast
  then show ?thesis by (intro exI [of _ r] exI [of _ m'] exI [of _ n]) auto
qed

lemma supported_4k: "supported_size SIZE_4K"
  by simp

theorem unmap_range_correct_witness:
  "\<exists>r1 m1 r2 m2. map_range 0x101000 0xffff800000000000 0 0x200000 SIZE_2M KERNEL_DATA empty_machine = Return (r1, m1) \<and>
     unmap_range 0x101000 0xffff800000001000 0x1000 SIZE_4K ignore_removed m1 = Return (r2, m2) \<and> tree_inv m2 0x101000 \<and>
     address_space m2 0x101000 0xffff800000003000 = address_space m1 0x101000 0xffff800000003000"
proof -
  obtain r1 m1 where M: "map_range 0x101000 0xffff800000000000 0 0x200000 SIZE_2M KERNEL_DATA empty_machine = Return (r1, m1)"
      "tree_inv m1 0x101000"
    using map_range_spec [OF empty_machine_inv(1), of SIZE_2M 0 "0x200000" "0xffff800000000000" KERNEL_DATA] by auto
  obtain r2 m2 n where U: "unmap_range 0x101000 0xffff800000001000 0x1000 SIZE_4K ignore_removed m1 = Return (r2, m2)"
      "tree_inv m2 0x101000" "n \<le> unat (0x1000 :: u64)"
      "\<forall>va'. address_space m2 0x101000 va' =
         (if unat (va' - 0xffff800000001000) < n then None else address_space m1 0x101000 va')"
    using unmap_range_correct [OF M(2) supported_4k, of "0xffff800000001000" "0x1000"] by blast
  have "\<not> unat (0xffff800000003000 - 0xffff800000001000 :: u64) < n" using U(3) by simp
  then show ?thesis using M(1) U by metis
qed

end
