(* ===== verification/Mmu_Tables.thy ===== *)
theory Mmu_Tables
  imports Unmap_Range
begin

text \<open>
  The tables the MMU component builds: the static tables linked into a well-formed tree that
  maps nothing, then the kernel window and the direct map filled with 2 MiB pages.
\<close>

section \<open>The static tables\<close>

definition static_tables :: "image_layout \<Rightarrow> paddr_t list" where
  "static_tables il = [pml4 il, kernel_pdpt il, kernel_pd il, direct_pdpt il] @ map (direct_pd il) [0..<DIRECT_PD_COUNT]"

text \<open>
  What the linker and the loader promise: the tables are distinct page-aligned objects of
  the image's zero-initialised data, and the allocator does not own the image.
\<close>

definition static_layout :: "image_layout \<Rightarrow> machine \<Rightarrow> bool" where
  "static_layout il m \<longleftrightarrow> distinct (static_tables il) \<and> pmm_inv (m_pmm m) \<and>
     (\<forall>t\<in>set (static_tables il). frame_address t \<and> in_image m t \<and> t \<notin> free_tables m \<and>
        (\<forall>i<512. entry (mem m) t i = 0))"

lemma direct_pd_count: "DIRECT_PD_COUNT = 16"
  by (simp add: DIRECT_PD_COUNT_def DIRECT_MAP_SIZE_def PAGE_1G_def bytes_in_pow2 shift_of_sizes)

section \<open>A table of tables\<close>

lemma zero_entry: "\<not> present 0" "level \<noteq> 1 \<Longrightarrow> \<not> leaf 0 level"
  by (simp_all add: present_def leaf_def)

lemma node_table:
  assumes t: "frame_address t" and l: "1 \<le> l"
    and row: "\<And>i. i < 512 \<Longrightarrow> entry r t i = (case c i of None \<Rightarrow> 0 | Some x \<Rightarrow> table_entry x)"
    and child: "\<And>i x. i < 512 \<Longrightarrow> c i = Some x \<Longrightarrow> frame_address x \<and> tree_wf r l x \<and> t \<notin> owned r l x"
    and apart: "\<And>i j x y. i < 512 \<Longrightarrow> j < 512 \<Longrightarrow> i \<noteq> j \<Longrightarrow> c i = Some x \<Longrightarrow> c j = Some y \<Longrightarrow>
      owned r l x \<inter> owned r l y = {}"
  shows "tree_wf r (Suc l) t"
    "owned r (Suc l) t = insert t (\<Union>i<512. case c i of None \<Rightarrow> {} | Some x \<Rightarrow> owned r l x)"
    "find_leaf r (Suc l) t va = (case c (pt_index (Suc l) va) of None \<Rightarrow> None | Some x \<Rightarrow> find_leaf r l x va)"
proof -
  have e: "present (entry r t i) \<longleftrightarrow> c i \<noteq> None" "\<not> leaf (entry r t i) (Suc l)" if "i < 512" for i
    using row [OF that] l zero_entry by (cases "c i"; simp)+
  have ad: "pte_address (entry r t i) = x" if "i < 512" "c i = Some x" for i x
    using row [OF that(1)] child [OF that] that(2) by simp
  have b: "below r l (entry r t i) = (case c i of None \<Rightarrow> {} | Some x \<Rightarrow> owned r l x)" if "i < 512" for i
    using e [OF that] ad [OF that] by (auto simp: below_def is_table_def split: option.splits)
  show "owned r (Suc l) t = insert t (\<Union>i<512. case c i of None \<Rightarrow> {} | Some x \<Rightarrow> owned r l x)"
    unfolding owned_below using b by auto
  show "find_leaf r (Suc l) t va = (case c (pt_index (Suc l) va) of None \<Rightarrow> None | Some x \<Rightarrow> find_leaf r l x va)"
    using e [OF pt_index_bound, of "Suc l" va] ad [OF pt_index_bound, of "Suc l" va]
    by (auto simp: Let_def split: option.splits)
  show "tree_wf r (Suc l) t"
    unfolding tree_wf_entries
  proof (intro conjI allI impI t)
    fix i :: nat assume i: "i < 512"
    show "entry_ok r l (entry r t i)"
      using e [OF i] ad [OF i] child [OF i] by (auto simp: entry_ok_def)
    show "t \<notin> below r l (entry r t i)" using b [OF i] child [OF i] by (auto split: option.splits)
    fix j :: nat assume j: "j < 512" "i \<noteq> j"
    show "below r l (entry r t i) \<inter> below r l (entry r t j) = {}"
      using b [OF i] b [OF j(1)] apart [OF i j] by (auto split: option.splits)
  qed
qed

section \<open>Linking\<close>

definition linked :: "image_layout \<Rightarrow> ram \<Rightarrow> bool" where
  "linked il r \<longleftrightarrow>
     entry r (pml4 il) 511 = table_entry (kernel_pdpt il) \<and> entry r (kernel_pdpt il) 510 = table_entry (kernel_pd il) \<and>
     entry r (pml4 il) 256 = table_entry (direct_pdpt il) \<and>
     (\<forall>i<16. entry r (direct_pdpt il) i = table_entry (direct_pd il i))"

lemma static_tablesD:
  assumes "static_layout il m"
  shows "frame_address (pml4 il)" "frame_address (kernel_pdpt il)" "frame_address (kernel_pd il)"
    "frame_address (direct_pdpt il)" "i < 16 \<Longrightarrow> frame_address (direct_pd il i)"
    "pml4 il \<notin> {kernel_pdpt il, kernel_pd il, direct_pdpt il}" "kernel_pdpt il \<notin> {kernel_pd il, direct_pdpt il}"
    "kernel_pd il \<noteq> direct_pdpt il"
    "i < 16 \<Longrightarrow> direct_pd il i \<notin> {pml4 il, kernel_pdpt il, kernel_pd il, direct_pdpt il}"
    "i < 16 \<Longrightarrow> j < 16 \<Longrightarrow> direct_pd il i = direct_pd il j \<longleftrightarrow> i = j"
    "t \<in> set (static_tables il) \<Longrightarrow> i < 512 \<Longrightarrow> entry (mem m) t i = 0"
proof -
  note S = assms [unfolded static_layout_def static_tables_def direct_pd_count]
  show "frame_address (pml4 il)" "frame_address (kernel_pdpt il)" "frame_address (kernel_pd il)"
    "frame_address (direct_pdpt il)" "i < 16 \<Longrightarrow> frame_address (direct_pd il i)"
    using S by auto
  show "pml4 il \<notin> {kernel_pdpt il, kernel_pd il, direct_pdpt il}" "kernel_pdpt il \<notin> {kernel_pd il, direct_pdpt il}"
    "kernel_pd il \<noteq> direct_pdpt il"
    using S by auto
  show "direct_pd il i \<notin> {pml4 il, kernel_pdpt il, kernel_pd il, direct_pdpt il}" if "i < 16"
  proof -
    have "direct_pd il i \<in> direct_pd il ` {0..<16}" using that by simp
    then show ?thesis using S by auto
  qed
  show "i < 16 \<Longrightarrow> j < 16 \<Longrightarrow> direct_pd il i = direct_pd il j \<longleftrightarrow> i = j"
    using S by (auto simp: distinct_map inj_on_def)
  show "t \<in> set (static_tables il) \<Longrightarrow> i < 512 \<Longrightarrow> entry (mem m) t i = 0"
    using assms by (simp add: static_layout_def)
qed

lemma mem_set_entry [simp]: "mem (Mmu.set_entry t i v m) = (mem m)(slot_at t i := v)"
  by (simp add: Mmu.set_entry_def)

lemma entry_set_entry:
  "frame_address t \<Longrightarrow> k < 512 \<Longrightarrow> frame_address x \<Longrightarrow> i < 512 \<Longrightarrow>
     entry (mem (Mmu.set_entry t k v m)) x i = (if x = t \<and> i = k then v else entry (mem m) x i)"
  by (simp only: mem_set_entry fun_upd_slot)

lemma set_entry_frame [simp]:
  "m_pmm (Mmu.set_entry t i v m) = m_pmm m" "feats (Mmu.set_entry t i v m) = feats m"
  "image_first (Mmu.set_entry t i v m) = image_first m" "image_end (Mmu.set_entry t i v m) = image_end m"
  "flushes (Mmu.set_entry t i v m) = flushes m"
  by (simp_all add: Mmu.set_entry_def)

lemma fold_set_entry:
  assumes "frame_address t" "n \<le> 512"
  shows "frame_address x \<Longrightarrow> i < 512 \<Longrightarrow>
      entry (mem (fold (\<lambda>i. Mmu.set_entry t i (f i)) [0..<n] m)) x i = (if x = t \<and> i < n then f i else entry (mem m) x i)"
    "m_pmm (fold (\<lambda>i. Mmu.set_entry t i (f i)) [0..<n] m) = m_pmm m"
    "same_config m (fold (\<lambda>i. Mmu.set_entry t i (f i)) [0..<n] m)"
proof -
  show "frame_address x \<Longrightarrow> i < 512 \<Longrightarrow>
      entry (mem (fold (\<lambda>i. Mmu.set_entry t i (f i)) [0..<n] m)) x i = (if x = t \<and> i < n then f i else entry (mem m) x i)"
    using assms(2)
  proof (induction n)
    case (Suc n)
    then show ?case using fun_upd_slot [OF assms(1), of n x i] by (auto simp: less_Suc_eq)
  qed simp
  show "m_pmm (fold (\<lambda>i. Mmu.set_entry t i (f i)) [0..<n] m) = m_pmm m"
    "same_config m (fold (\<lambda>i. Mmu.set_entry t i (f i)) [0..<n] m)"
    by (induction n) (simp_all add: same_config_def)
qed

lemma window_indices:
  "pt_index 4 KERNEL_BASE = 511" "pt_index 3 KERNEL_BASE = 510" "pt_index 4 DIRECT_MAP_BASE = 256"
  by (simp_all add: pt_index_nat KERNEL_BASE_def DIRECT_MAP_BASE_def)

lemma link_tables_entry:
  assumes S: "static_layout il m" and x: "frame_address x" "i < 512"
  shows "entry (mem (link_tables il m)) x i =
    (if x = pml4 il then (if i = 511 then table_entry (kernel_pdpt il) else if i = 256 then table_entry (direct_pdpt il) else 0)
     else if x = kernel_pdpt il then (if i = 510 then table_entry (kernel_pd il) else 0)
     else if x = direct_pdpt il then (if i < 16 then table_entry (direct_pd il i) else 0)
     else entry (mem m) x i)"
proof -
  note D = static_tablesD [OF S]
  have z: "entry (mem m) (pml4 il) i = 0" "entry (mem m) (kernel_pdpt il) i = 0" "entry (mem m) (direct_pdpt il) i = 0"
    using D(11) [OF _ x(2)] by (simp_all add: static_tables_def)
  define m4 where "m4 = Mmu.set_entry (pml4 il) 256 (table_entry (direct_pdpt il))
    (Mmu.set_entry (kernel_pdpt il) 510 (table_entry (kernel_pd il))
    (Mmu.set_entry (pml4 il) 511 (table_entry (kernel_pdpt il)) (Mmu.set_entry (pml4 il) 0 0 m)))"
  have m4: "entry (mem m4) x i =
    (if x = pml4 il \<and> i = 256 then table_entry (direct_pdpt il) else if x = kernel_pdpt il \<and> i = 510 then table_entry (kernel_pd il)
     else if x = pml4 il \<and> i = 511 then table_entry (kernel_pdpt il) else if x = pml4 il \<and> i = 0 then 0 else entry (mem m) x i)"
    unfolding m4_def by (simp add: entry_set_entry D(1,2) x del: mem_set_entry)
  have "entry (mem (link_tables il m)) x i = (if x = direct_pdpt il \<and> i < 16 then table_entry (direct_pd il i) else entry (mem m4) x i)"
    unfolding link_tables_def Let_def direct_pd_count window_indices m4_def [symmetric]
    using fold_set_entry(1) [OF D(4) _ x, of 16 "\<lambda>i. table_entry (direct_pd il i)" m4] by simp
  then show ?thesis using m4 D(6,7) z by auto
qed

lemma link_tables_frame: 
  assumes "static_layout il m"
  shows "m_pmm (link_tables il m) = m_pmm m" "same_config m (link_tables il m)"
  using fold_set_entry(2,3) [OF static_tablesD(4) [OF assms], of 16, where f = "\<lambda>i. table_entry (direct_pd il i)"]
  unfolding link_tables_def Let_def direct_pd_count by (simp_all add: same_config_def)

text \<open>The linked tables form a well-formed tree that maps nothing.\<close>

lemma linked_tree:
  assumes S: "static_layout il m"
  defines "r \<equiv> mem (link_tables il m)"
  shows "tree_wf r LEVELS (pml4 il)" "owned r LEVELS (pml4 il) \<subseteq> set (static_tables il)"
    "find_leaf r LEVELS (pml4 il) va = None" "linked il r"
proof -
  note D = static_tablesD [OF S]
  note E = link_tables_entry [OF S, folded r_def]
  obtain l2 l3 where l: "l2 = Suc 1" "l3 = Suc l2" by blast
  have L: "LEVELS = Suc l3" by (simp add: LEVELS_def l)
  have zero: "entry r x i = 0" if "x = kernel_pd il \<or> (\<exists>j<16. x = direct_pd il j)" "i < 512" for x i
    using that E [of x i] D(3,5) D(6-9) D(11) [of x i] by (auto simp: static_tables_def direct_pd_count)
  have pd: "frame_address x \<and> tree_wf r l2 x \<and> owned r l2 x = {x} \<and> find_leaf r l2 x va = None"
    if "x = kernel_pd il \<or> (\<exists>j<16. x = direct_pd il j)" for x
  proof -
    have "frame_address x" using that D(3,5) by blast
    from empty_table [where r = r and l = 1, OF this zero [OF that], folded l(1)] this show ?thesis by blast
  qed
  note pd_d = pd [OF disjI2, OF exI, OF conjI [OF _ refl]]
  have one: "1 \<le> l2" "1 \<le> l3" by (simp_all add: l)
  let ?k = "\<lambda>i::nat. if i = 510 then Some (kernel_pd il) else None"
  let ?d = "\<lambda>i::nat. if i < 16 then Some (direct_pd il i) else None"
  let ?p = "\<lambda>i::nat. if i = 511 then Some (kernel_pdpt il) else if i = 256 then Some (direct_pdpt il) else None"
  have kp: "entry r (kernel_pdpt il) i = (case ?k i of None \<Rightarrow> 0 | Some x \<Rightarrow> table_entry x)" if "i < 512" for i
    using E [OF D(2) that] D(6) by auto
  have kc: "frame_address x \<and> tree_wf r l2 x \<and> kernel_pdpt il \<notin> owned r l2 x" if "i < 512" "?k i = Some x" for i x
    using that pd [of x] D(7) by (auto split: if_splits)
  have ka: "owned r l2 x \<inter> owned r l2 y = {}" if "i < 512" "j < 512" "i \<noteq> j" "?k i = Some x" "?k j = Some y" for i j x y
    using that by (simp split: if_splits)
  have K: "tree_wf r l3 (kernel_pdpt il)"
      "owned r l3 (kernel_pdpt il) = insert (kernel_pdpt il) (\<Union>i<512. case ?k i of None \<Rightarrow> {} | Some x \<Rightarrow> owned r l2 x)"
      "find_leaf r l3 (kernel_pdpt il) va = (case ?k (pt_index l3 va) of None \<Rightarrow> None | Some x \<Rightarrow> find_leaf r l2 x va)"
    unfolding l(2) by (rule node_table [OF D(2) one(1)]; (rule kp kc ka; assumption))+
  have dp: "entry r (direct_pdpt il) i = (case ?d i of None \<Rightarrow> 0 | Some x \<Rightarrow> table_entry x)" if "i < 512" for i
    using E [OF D(4) that] D(6,7) by auto
  have dc: "frame_address x \<and> tree_wf r l2 x \<and> direct_pdpt il \<notin> owned r l2 x" if "i < 512" "?d i = Some x" for i x
    using that pd_d [of i] D(9) [of i] by (auto split: if_splits)
  have da: "owned r l2 x \<inter> owned r l2 y = {}" if "i < 512" "j < 512" "i \<noteq> j" "?d i = Some x" "?d j = Some y" for i j x y
    using that pd_d [of i] pd_d [of j] D(10) [of i j] by (auto split: if_splits)
  have N: "tree_wf r l3 (direct_pdpt il)"
      "owned r l3 (direct_pdpt il) = insert (direct_pdpt il) (\<Union>i<512. case ?d i of None \<Rightarrow> {} | Some x \<Rightarrow> owned r l2 x)"
      "find_leaf r l3 (direct_pdpt il) va = (case ?d (pt_index l3 va) of None \<Rightarrow> None | Some x \<Rightarrow> find_leaf r l2 x va)"
    unfolding l(2) by (rule node_table [OF D(4) one(1)]; (rule dp dc da; assumption))+
  have ko: "owned r l3 (kernel_pdpt il) = {kernel_pdpt il, kernel_pd il}"
  proof -
    have "(case ?k i of None \<Rightarrow> {} | Some x \<Rightarrow> owned r l2 x) = (if i = 510 then {kernel_pd il} else {})" for i
      using pd [of "kernel_pd il"] by simp
    then show ?thesis unfolding K(2) by simp
  qed
  have do': "owned r l3 (direct_pdpt il) = insert (direct_pdpt il) (direct_pd il ` {..<16})"
  proof -
    have "(case ?d i of None \<Rightarrow> {} | Some x \<Rightarrow> owned r l2 x) = (if i < 16 then {direct_pd il i} else {})" for i
      using pd_d [of i] by simp
    moreover have "(\<Union>i<512. if i < 16 then {direct_pd il i} else {}) = direct_pd il ` {..<16}"
      by (force split: if_splits)
    ultimately show ?thesis unfolding N(2) by simp
  qed
  have pp: "entry r (pml4 il) i = (case ?p i of None \<Rightarrow> 0 | Some x \<Rightarrow> table_entry x)" if "i < 512" for i
    using E [OF D(1) that] by simp
  have pc: "frame_address x \<and> tree_wf r l3 x \<and> pml4 il \<notin> owned r l3 x" if "i < 512" "?p i = Some x" for i x
    using that K(1) N(1) D(2,4,6) D(9) ko do' by (auto split: if_splits)
  have pa: "owned r l3 x \<inter> owned r l3 y = {}" if "i < 512" "j < 512" "i \<noteq> j" "?p i = Some x" "?p j = Some y" for i j x y
    using that ko do' D(7,8) D(9) by (auto split: if_splits)
  have P: "tree_wf r LEVELS (pml4 il)"
      "owned r LEVELS (pml4 il) = insert (pml4 il) (\<Union>i<512. case ?p i of None \<Rightarrow> {} | Some x \<Rightarrow> owned r l3 x)"
      "find_leaf r LEVELS (pml4 il) va = (case ?p (pt_index LEVELS va) of None \<Rightarrow> None | Some x \<Rightarrow> find_leaf r l3 x va)"
    unfolding L by (rule node_table [OF D(1) one(2)]; (rule pp pc pa; assumption))+
  show "tree_wf r LEVELS (pml4 il)" by (rule P(1))
  show "owned r LEVELS (pml4 il) \<subseteq> set (static_tables il)"
    unfolding P(2) using ko do' by (auto simp: static_tables_def direct_pd_count split: if_splits)
  have "find_leaf r l3 x va = None" if "x = kernel_pdpt il \<or> x = direct_pdpt il" for x
    using that K(3) N(3) pd [of "kernel_pd il"] pd_d [of "pt_index l3 va"] by (auto split: if_splits)
  then show "find_leaf r LEVELS (pml4 il) va = None"
    unfolding P(3) by (auto split: option.splits if_splits simp del: find_leaf.simps)
  show "linked il r"
    unfolding linked_def using E [OF D(1)] E [OF D(2)] E [OF D(4)] D(6,7) by auto
qed

lemma valid_nat: "valid va \<longleftrightarrow> unat va div 2 ^ 47 = 0 \<or> unat va div 2 ^ 47 = 0x1FFFF"
  unfolding valid_def
  by (simp only: word_unat_eq_iff unat_drop_bit_eq) (simp add: drop_bit_eq_div)

lemma mapped_window:
  fixes va :: vaddr_t
  assumes "unat (va - KERNEL_BASE) < 2 ^ 30"
  shows "unat va = unat KERNEL_BASE + unat (va - KERNEL_BASE)" "pt_index 4 va = 511" "pt_index 3 va = 510" "valid va"
proof -
  let ?d = "va - KERNEL_BASE"
  have k: "unat KERNEL_BASE = 0xffffffff80000000" by (simp add: KERNEL_BASE_def)
  have "unat (KERNEL_BASE + ?d) = unat KERNEL_BASE + unat ?d" using assms k by (intro unat_plus_small) simp
  then show u: "unat va = unat KERNEL_BASE + unat ?d" by simp
  have "unat va div 2 ^ 39 = 0x1ffffff" "unat va div 2 ^ 30 = 0x3fffffffe" "unat va div 2 ^ 47 = 0x1ffff"
    using assms k u by (auto intro!: div_nat_eqI)
  then show "pt_index 4 va = 511" "pt_index 3 va = 510" "valid va"
    by (simp_all add: pt_index_nat valid_nat)
qed

section \<open>Filling with 2 MiB pages\<close>

lemma direct_window:
  fixes pa :: u64
  assumes "unat pa < 2 ^ 34"
  shows "unat (DIRECT_MAP_BASE + pa) = unat DIRECT_MAP_BASE + unat pa" "pt_index 4 (DIRECT_MAP_BASE + pa) = 256"
    "pt_index 3 (DIRECT_MAP_BASE + pa) = unat pa div 2 ^ 30" "valid (DIRECT_MAP_BASE + pa)"
proof -
  have k: "unat DIRECT_MAP_BASE = 0xffff800000000000" by (simp add: DIRECT_MAP_BASE_def)
  show u: "unat (DIRECT_MAP_BASE + pa) = unat DIRECT_MAP_BASE + unat pa" using assms k by (intro unat_plus_small) simp
  have "unat (DIRECT_MAP_BASE + pa) div 2 ^ 39 = 0x1ffff00" "unat (DIRECT_MAP_BASE + pa) div 2 ^ 47 = 0x1ffff"
    using assms k u by (auto intro!: div_nat_eqI)
  then show "pt_index 4 (DIRECT_MAP_BASE + pa) = 256" "valid (DIRECT_MAP_BASE + pa)"
    by (simp_all add: pt_index_nat valid_nat)
  define q where "q = unat pa div 2 ^ 30"
  have "unat (DIRECT_MAP_BASE + pa) div 2 ^ 30 = 512 * 33554176 + q"
    using k u by (simp add: div_add1_eq q_def)
  moreover have "q < 16" using assms by (simp add: div_less_iff_less_mult q_def)
  then have "(512 * 33554176 + q) mod 512 = q" by (simp only: mod_mult_self4) simp
  ultimately show "pt_index 3 (DIRECT_MAP_BASE + pa) = unat pa div 2 ^ 30"
    unfolding pt_index_nat q_def by simp
qed

text \<open>
  The state while the directories are filled: the tables are linked, form a tree and are the
  only ones.
\<close>

definition building :: "image_layout \<Rightarrow> machine \<Rightarrow> bool" where
  "building il m \<longleftrightarrow> tree_inv m (pml4 il) \<and> linked il (mem m)"

text \<open>The page directories, and the directory that covers an address.\<close>

definition covers :: "image_layout \<Rightarrow> paddr_t \<Rightarrow> vaddr_t \<Rightarrow> bool" where
  "covers il pd va \<longleftrightarrow> unat (va - KERNEL_BASE) < 2 ^ 30 \<and> pd = kernel_pd il \<or>
     (\<exists>pa. unat pa < 2 ^ 34 \<and> va = DIRECT_MAP_BASE + pa \<and> pd = direct_pd il (unat pa div 2 ^ 30))"

lemma path_table_2:
  assumes "entry r t (pt_index 4 va) = table_entry p" "frame_address p"
    "entry r p (pt_index 3 va) = table_entry d" "frame_address d"
  shows "path_table r LEVELS t va 2 = Some d"
proof -
  have "path_table r (Suc 3) t va 2 = path_table r 3 p va 2"
    unfolding path_table.simps(2) using assms(1,2) by (simp add: is_table_def)
  also have "\<dots> = path_table r (Suc 2) p va 2" by (simp add: numeral_eq_Suc)
  also have "\<dots> = path_table r 2 d va 2"
    unfolding path_table.simps(2) using assms(3,4) by (simp add: is_table_def)
  also have "\<dots> = path_table r (Suc 1) d va 2" by (simp add: numeral_eq_Suc)
  also have "\<dots> = Some d" unfolding path_table.simps(2) by simp
  finally show ?thesis by (simp add: LEVELS_def)
qed

lemma covers_path:
  assumes "static_layout il m0" "linked il r" "covers il pd va"
  shows "path_table r LEVELS (pml4 il) va 2 = Some pd" "valid va"
proof -
  note D = static_tablesD [OF assms(1)]
  consider (kernel) "unat (va - KERNEL_BASE) < 2 ^ 30" "pd = kernel_pd il"
    | (direct) pa where "unat pa < 2 ^ 34" "va = DIRECT_MAP_BASE + pa" "pd = direct_pd il (unat pa div 2 ^ 30)"
    using assms(3) unfolding covers_def by blast
  then have "path_table r LEVELS (pml4 il) va 2 = Some pd \<and> valid va"
  proof cases
    case kernel
    note W = mapped_window [OF kernel(1)]
    have "path_table r LEVELS (pml4 il) va 2 = Some (kernel_pd il)"
      using assms(2) by (intro path_table_2 [OF _ D(2) _ D(3)]) (simp_all add: W linked_def)
    then show ?thesis using W(4) kernel(2) by simp
  next
    case direct
    note W = direct_window [OF direct(1)]
    have i: "unat pa div 2 ^ 30 < 16" using direct(1) by (simp add: div_less_iff_less_mult)
    have "entry r (direct_pdpt il) (unat pa div 2 ^ 30) = table_entry (direct_pd il (unat pa div 2 ^ 30))"
      using assms(2) i unfolding linked_def by blast
    then have "path_table r LEVELS (pml4 il) va 2 = Some pd"
      unfolding direct(3) using assms(2) by (intro path_table_2 [OF _ D(4) _ D(5) [OF i]]) (simp_all add: direct(2) W linked_def)
    then show ?thesis using W(4) direct(2) by simp
  qed
  then show "path_table r LEVELS (pml4 il) va 2 = Some pd" "valid va" by blast+
qed

lemma covers_directory:
  assumes "static_layout il m0" "covers il pd va"
  shows "frame_address pd" "pd \<notin> {pml4 il, kernel_pdpt il, direct_pdpt il}"
proof -
  note D = static_tablesD [OF assms(1)]
  consider "pd = kernel_pd il" | i where "i < 16" "pd = direct_pd il i"
  proof -
    assume kernel: "pd = kernel_pd il \<Longrightarrow> thesis" and direct: "\<And>i. i < 16 \<Longrightarrow> pd = direct_pd il i \<Longrightarrow> thesis"
    have "unat pa div 2 ^ 30 < 16" if "unat pa < 2 ^ 34" for pa :: u64
      using that by (simp add: div_less_iff_less_mult)
    then show thesis using assms(2) kernel direct unfolding covers_def by blast
  qed
  then have "frame_address pd \<and> pd \<notin> {pml4 il, kernel_pdpt il, direct_pdpt il}"
    using D(3,5-9) by cases auto
  then show "frame_address pd" "pd \<notin> {pml4 il, kernel_pdpt il, direct_pdpt il}" by blast+
qed

lemma fill_entry:
  assumes S: "static_layout il m0" and B: "building il m" and cv: "covers il pd va"
    and pa: "take_bit 21 pa = 0" "unat pa < 2 ^ 52"
    and m': "m' = Mmu.set_entry pd (pt_index 2 va) (leaf_entry (feats m) pa SIZE_2M p) m"
  shows "building il m'" "same_config m m'" "m_pmm m' = m_pmm m"
    "address_space m' (pml4 il) va' =
       (if drop_bit 21 va' = drop_bit 21 va then Some (pa + take_bit 21 va', effective_prot (feats m) p)
        else address_space m (pml4 il) va')"
proof -
  let ?e = "leaf_entry (feats m) pa SIZE_2M p"
  have inv: "tree_inv m (pml4 il)" and lk: "linked il (mem m)" using B by (simp_all add: building_def)
  note D = static_tablesD [OF S] and C = covers_directory [OF S cv] and path = covers_path [OF S lk cv]
  have l2: "level_of SIZE_2M = 2" by (simp add: level_of_def layout)
  have ok: "frame_address pa" "leaf_ok 2 ?e" "\<not> is_table ?e 2"
    using leaf_ok_entry [where psize = SIZE_2M and pa = pa] pa by (simp_all add: l2)
  show same: "same_config m m'" "m_pmm m' = m_pmm m" by (simp_all add: m' same_config_def)
  have mem: "mem m' = (mem m)(slot_at pd (pt_index 2 va) := ?e)" by (simp add: m')
  have two: "1 \<le> (2 :: nat)" "(2 :: nat) \<le> 4" by simp_all
  note W = write_leaf [OF inv path(2) two path(1) ok(3) _ mem same(2,1)]
  have tree: "tree_inv m' (pml4 il)" using W(1) ok(2) by simp
  have keep: "entry (mem m') x i = entry (mem m) x i" if "x \<in> {pml4 il, kernel_pdpt il, direct_pdpt il}" "i < 512" for x i
  proof -
    have "frame_address x" "x \<noteq> pd" using that(1) D(1,2,4) C(2) by auto
    then show ?thesis unfolding m' using entry_set_entry [OF C(1) pt_index_bound _ that(2)] by simp
  qed
  then have "linked il (mem m')" using lk by (simp add: linked_def)
  then show "building il m'" using tree by (simp add: building_def)
  have "leaf_target va' (2, ?e) = (pa + take_bit 21 va', effective_prot (feats m) p)"
    using ok(1) by (simp add: leaf_target_def leaf_entry_prot size_at_level_of bytes_in_pow2 shift_of_sizes take_bit_eq_mask mask_eq_exp_minus_1)
  then show "address_space m' (pml4 il) va' =
       (if drop_bit 21 va' = drop_bit 21 va then Some (pa + take_bit 21 va', effective_prot (feats m) p)
        else address_space m (pml4 il) va')"
    using W(5) [of va'] ok(2) by simp
qed

text \<open>Page \<open>q\<close> of a window that maps offset to physical address.\<close>

lemma page_of_window:
  fixes base :: vaddr_t
  assumes "take_bit 21 base = 0" "q < 8192"
  defines "off \<equiv> of_nat q * PAGE_2M"
  shows "unat off = q * 2 ^ 21" "take_bit 21 off = 0"
    "drop_bit 21 va' = drop_bit 21 (base + off) \<longleftrightarrow> unat (va' - base) div 2 ^ 21 = q"
    "drop_bit 21 va' = drop_bit 21 (base + off) \<Longrightarrow> off + take_bit 21 va' = va' - base"
proof -
  have P: "PAGE_2M = 2 ^ 21" by (simp add: PAGE_2M_def bytes_in_pow2 shift_of_sizes)
  have q: "unat (of_nat q :: u64) = q" using assms(2) by (intro unat_of_nat_small) simp
  show u: "unat off = q * 2 ^ 21" using assms(2) q by (simp add: off_def P unat_word_ariths)
  then show o0: "take_bit 21 off = 0" by (simp add: take_bit_zero_dvd)
  have al: "take_bit 21 (base + off) = 0" using assms(1) o0 unfolding take_bit_eq_0_iff by (rule dvd_add)
  note page = in_page_iff [OF al, of va', simplified]
  have d: "va' - (base + off) = (va' - base) - off" by simp
  have "va' - (base + off) < 2 ^ 21 \<longleftrightarrow> unat (va' - base) div 2 ^ 21 = q"
  proof -
    have "unat off + unat (2 ^ 21 :: u64) < 2 ^ 64" using u assms(2) by simp
    from word_window [OF this, of "va' - base"]
    have "va' - (base + off) < 2 ^ 21 \<longleftrightarrow> q * 2 ^ 21 \<le> unat (va' - base) \<and> unat (va' - base) < q * 2 ^ 21 + 2 ^ 21"
      unfolding d u by simp
    also have "\<dots> \<longleftrightarrow> unat (va' - base) div 2 ^ 21 = q"
      by (auto intro!: div_nat_eqI simp: mult.commute)
    finally show ?thesis .
  qed
  then show "drop_bit 21 va' = drop_bit 21 (base + off) \<longleftrightarrow> unat (va' - base) div 2 ^ 21 = q" using page(1) by simp
  assume "drop_bit 21 va' = drop_bit 21 (base + off)"
  then have "take_bit 21 va' = va' - (base + off)" using page by simp
  then show "off + take_bit 21 va' = va' - base" by simp
qed

lemma fill_2m_alt:
  "fill_2m pd va pa len p m =
     fold (\<lambda>i m. Mmu.set_entry pd (pt_index 2 (va + of_nat i * PAGE_2M)) (leaf_entry (feats m) (pa + of_nat i * PAGE_2M) SIZE_2M p) m)
       [0..<steps_2m len] m"
  by (simp add: fill_2m_def Let_def)

lemma fill_page:
  assumes S: "static_layout il m0" and B: "building il m" and q: "q < 8192" and base: "take_bit 21 base = 0"
    and cv: "covers il pd (base + of_nat q * PAGE_2M)"
    and m': "m' = Mmu.set_entry pd (pt_index 2 (base + of_nat q * PAGE_2M)) (leaf_entry (feats m) (of_nat q * PAGE_2M) SIZE_2M p) m"
  shows "building il m'" "same_config m m'" "m_pmm m' = m_pmm m"
    "address_space m' (pml4 il) va' =
       (if unat (va' - base) div 2 ^ 21 = q then Some (va' - base, effective_prot (feats m) p)
        else address_space m (pml4 il) va')"
proof -
  note P = page_of_window [OF base q]
  have "unat (of_nat q * PAGE_2M) < 2 ^ 52" using P(1) q by simp
  note E = fill_entry [OF S B cv P(2) this m']
  show "building il m'" "same_config m m'" "m_pmm m' = m_pmm m" by (rule E(1-3))+
  show "address_space m' (pml4 il) va' =
       (if unat (va' - base) div 2 ^ 21 = q then Some (va' - base, effective_prot (feats m) p)
        else address_space m (pml4 il) va')"
    using E(4) [of va'] P(3,4) [of va'] by simp
qed

lemma window_bases: "take_bit 21 KERNEL_BASE = 0" "take_bit 21 DIRECT_MAP_BASE = 0"
  by (simp_all add: take_bit_zero_dvd KERNEL_BASE_def DIRECT_MAP_BASE_def)

lemma kernel_covers: "q < 512 \<Longrightarrow> covers il (kernel_pd il) (KERNEL_BASE + of_nat q * PAGE_2M)"
  using page_of_window(1) [OF window_bases(1), of q] by (simp add: covers_def)

lemma direct_covers:
  "q < 8192 \<Longrightarrow> covers il (direct_pd il (unat (of_nat q * PAGE_2M div PAGE_1G))) (DIRECT_MAP_BASE + of_nat q * PAGE_2M)"
proof -
  assume q: "q < 8192"
  note u = page_of_window(1) [OF window_bases(2) q]
  have "unat PAGE_1G = 2 ^ 30" by (simp add: PAGE_1G_def bytes_in_pow2 shift_of_sizes)
  then have "unat (of_nat q * PAGE_2M div PAGE_1G) = unat (of_nat q * PAGE_2M) div 2 ^ 30" by (simp add: unat_div_distrib)
  then show ?thesis using u q unfolding covers_def by auto
qed

lemma fill_kernel_window:
  assumes S: "static_layout il m0" and B: "building il m" and n: "n \<le> 512"
    and m': "m' = fold (\<lambda>i m. Mmu.set_entry (kernel_pd il) (pt_index 2 (KERNEL_BASE + of_nat i * PAGE_2M))
        (leaf_entry (feats m) (0 + of_nat i * PAGE_2M) SIZE_2M p) m) [0..<n] m"
  shows "building il m' \<and> same_config m m' \<and> m_pmm m' = m_pmm m \<and>
    (\<forall>va'. address_space m' (pml4 il) va' =
       (if unat (va' - KERNEL_BASE) div 2 ^ 21 < n then Some (va' - KERNEL_BASE, effective_prot (feats m) p)
        else address_space m (pml4 il) va'))"
  using n m'
proof (induction n arbitrary: m')
  case 0
  then show ?case using B by (simp add: same_config_def)
next
  case (Suc n)
  define m1 where "m1 = fold (\<lambda>i m. Mmu.set_entry (kernel_pd il) (pt_index 2 (KERNEL_BASE + of_nat i * PAGE_2M))
        (leaf_entry (feats m) (0 + of_nat i * PAGE_2M) SIZE_2M p) m) [0..<n] m"
  have I: "building il m1" "same_config m m1" "m_pmm m1 = m_pmm m"
      "\<And>va'. address_space m1 (pml4 il) va' =
       (if unat (va' - KERNEL_BASE) div 2 ^ 21 < n then Some (va' - KERNEL_BASE, effective_prot (feats m) p)
        else address_space m (pml4 il) va')"
    using Suc.IH [OF _ m1_def] Suc.prems(1) by auto
  have n: "n < 8192" "n < 512" using Suc.prems(1) by simp_all
  have "m' = Mmu.set_entry (kernel_pd il) (pt_index 2 (KERNEL_BASE + of_nat n * PAGE_2M))
      (leaf_entry (feats m1) (of_nat n * PAGE_2M) SIZE_2M p) m1"
    using Suc.prems(2) by (simp add: m1_def)
  note F = fill_page [OF S I(1) n(1) window_bases(1) kernel_covers [OF n(2)] this]
  have ft: "feats m1 = feats m" using I(2) by (simp add: same_config_def)
  show ?case using F(1-3) I(2,3) unfolding F(4) I(4) ft by (auto simp: same_config_def less_Suc_eq)
qed

lemma fill_direct_pages:
  assumes S: "static_layout il m0" and B: "building il m" and n: "q + n \<le> 8192"
    and m': "m' = fold (\<lambda>i. let pa = of_nat q * PAGE_2M + of_nat i * PAGE_2M
        in fill_2m (direct_pd il (unat (pa div PAGE_1G))) (DIRECT_MAP_BASE + pa) pa PAGE_2M p) [0..<n] m"
  shows "building il m' \<and> same_config m m' \<and> m_pmm m' = m_pmm m \<and>
    (\<forall>va'. address_space m' (pml4 il) va' =
       (if unat (va' - DIRECT_MAP_BASE) div 2 ^ 21 \<in> {q..<q + n} then Some (va' - DIRECT_MAP_BASE, effective_prot (feats m) p)
        else address_space m (pml4 il) va'))"
  using n m'
proof (induction n arbitrary: m')
  case 0
  then show ?case using B by (simp add: same_config_def)
next
  case (Suc n)
  let ?f = "\<lambda>i. let pa = of_nat q * PAGE_2M + of_nat i * PAGE_2M
        in fill_2m (direct_pd il (unat (pa div PAGE_1G))) (DIRECT_MAP_BASE + pa) pa PAGE_2M p"
  define m1 where "m1 = fold ?f [0..<n] m"
  have I: "building il m1" "same_config m m1" "m_pmm m1 = m_pmm m"
      "\<And>va'. address_space m1 (pml4 il) va' =
       (if unat (va' - DIRECT_MAP_BASE) div 2 ^ 21 \<in> {q..<q + n} then Some (va' - DIRECT_MAP_BASE, effective_prot (feats m) p)
        else address_space m (pml4 il) va')"
    using Suc.IH [OF _ m1_def] Suc.prems(1) by auto
  have n: "q + n < 8192" using Suc.prems(1) by simp
  have pa: "of_nat q * PAGE_2M + of_nat n * PAGE_2M = of_nat (q + n) * PAGE_2M" by (simp add: distrib_right)
  have one: "steps_2m PAGE_2M = 1" by (simp add: steps_2m_def PAGE_2M_def bytes_in_pow2 shift_of_sizes)
  have "m' = ?f n m1" using Suc.prems(2) unfolding m1_def by simp
  then have "m' = Mmu.set_entry (direct_pd il (unat (of_nat (q + n) * PAGE_2M div PAGE_1G))) (pt_index 2 (DIRECT_MAP_BASE + of_nat (q + n) * PAGE_2M))
      (leaf_entry (feats m1) (of_nat (q + n) * PAGE_2M) SIZE_2M p) m1"
    by (simp add: Let_def pa fill_2m_alt one del: of_nat_add)
  note F = fill_page [OF S I(1) n window_bases(2) direct_covers [OF n] this]
  have ft: "feats m1 = feats m" using I(2) by (simp add: same_config_def)
  show ?case using F(1-3) I(2,3) unfolding F(4) I(4) ft by (auto simp: same_config_def less_Suc_eq)
qed

text \<open>The 2 MiB pages of the direct map that a region of the memory map touches.\<close>

definition region_page :: "memory_region \<Rightarrow> nat \<Rightarrow> bool" where
  "region_page region q \<longleftrightarrow> mr_kind region \<noteq> DEFECTIVE \<and>
     (\<exists>b. unat (mr_base region) \<le> b \<and> b < unat (mr_base region) + unat (mr_length region) \<and> b < 2 ^ 34 \<and> b div 2 ^ 21 = q)"

lemma touched_pages:
  assumes "first < lim" "(lim :: nat) \<le> 2 ^ 34"
  shows "(\<exists>b. first \<le> b \<and> b < lim \<and> b div 2 ^ 21 = q) \<longleftrightarrow>
    q \<in> {first div 2 ^ 21..<first div 2 ^ 21 + ((lim + (2 ^ 21 - 1)) div 2 ^ 21 - first div 2 ^ 21)}"
proof -
  have "(\<exists>b. first \<le> b \<and> b < lim \<and> b div 2 ^ 21 = q) \<longleftrightarrow> first div 2 ^ 21 \<le> q \<and> q * 2 ^ 21 < lim"
  proof safe
    fix b assume b: "first \<le> b" "b < lim" "q = b div 2 ^ 21"
    show "first div 2 ^ 21 \<le> b div 2 ^ 21" using b(1) by (rule div_le_mono)
    have "b div 2 ^ 21 * 2 ^ 21 \<le> b" by simp
    then show "b div 2 ^ 21 * 2 ^ 21 < lim" using b(2) by linarith
  next
    assume q: "first div 2 ^ 21 \<le> q" "q * 2 ^ 21 < lim"
    show "\<exists>b\<ge>first. b < lim \<and> b div 2 ^ 21 = q"
    proof (cases "first \<le> q * 2 ^ 21")
      case True
      then show ?thesis using q(2) by (intro exI [of _ "q * 2 ^ 21"]) simp
    next
      case False
      then have "q \<le> first div 2 ^ 21" by (simp add: less_eq_div_iff_mult_less_eq)
      then show ?thesis using q(1) assms(1) by (intro exI [of _ first]) simp
    qed
  qed
  also have "q * 2 ^ 21 < lim \<longleftrightarrow> q < (lim + (2 ^ 21 - 1)) div 2 ^ 21"
    by (subst less_eq_div_iff_mult_less_eq [of "2 ^ 21" "Suc q", unfolded Suc_le_eq]) auto
  finally show ?thesis by auto
qed

lemma pages_pow: "PAGE_2M = 2 ^ 21" "PAGE_4K = 2 ^ 12"
  by (simp_all add: PAGE_2M_def PAGE_4K_def bytes_in_pow2 shift_of_sizes)

lemma region_end:
  fixes base len :: u64
  assumes "base < DIRECT_MAP_SIZE"
  shows "unat (if len > DIRECT_MAP_SIZE - base then DIRECT_MAP_SIZE else base + len) = min (2 ^ 34) (unat base + unat len)"
proof -
  have s: "unat DIRECT_MAP_SIZE = 2 ^ 34" by (simp add: DIRECT_MAP_SIZE_def)
  have d: "unat (DIRECT_MAP_SIZE - base) = 2 ^ 34 - unat base" "unat base < 2 ^ 34"
    using assms s unat_minus_le [OF less_imp_le [OF assms]] by (simp_all add: word_less_nat_alt)
  show ?thesis
  proof (cases "len > DIRECT_MAP_SIZE - base")
    case True
    then show ?thesis using d s by (simp add: word_less_nat_alt)
  next
    case False
    then have "unat base + unat len \<le> 2 ^ 34" using d by (simp add: word_less_nat_alt)
    then show ?thesis using False unat_plus_small [of base len] by simp
  qed
qed

lemma fill_direct_region_spec:
  assumes S: "static_layout il m0" and B: "building il m"
  shows "building il (fill_direct_region il region m) \<and> same_config m (fill_direct_region il region m) \<and>
    m_pmm (fill_direct_region il region m) = m_pmm m \<and>
    (\<forall>va'. address_space (fill_direct_region il region m) (pml4 il) va' =
       (if region_page region (unat (va' - DIRECT_MAP_BASE) div 2 ^ 21)
        then Some (va' - DIRECT_MAP_BASE, effective_prot (feats m) KERNEL_DATA) else address_space m (pml4 il) va'))"
proof (cases "mr_kind region = DEFECTIVE \<or> mr_length region = 0 \<or> mr_base region \<ge> DIRECT_MAP_SIZE")
  case True
  have "unat DIRECT_MAP_SIZE = 2 ^ 34" by (simp add: DIRECT_MAP_SIZE_def)
  then have "\<not> region_page region q" for q using True by (auto simp: region_page_def word_le_nat_alt)
  then show ?thesis using True B by (simp add: fill_direct_region_def same_config_def)
next
  case False
  define lim where "lim = min (2 ^ 34) (unat (mr_base region) + unat (mr_length region))"
  define q where "q = unat (mr_base region) div 2 ^ 21"
  define n where "n = (lim + (2 ^ 21 - 1)) div 2 ^ 21 - q"
  let ?e = "if mr_length region > DIRECT_MAP_SIZE - mr_base region then DIRECT_MAP_SIZE else mr_base region + mr_length region"
  have base: "mr_base region < DIRECT_MAP_SIZE" using False by (simp add: not_le)
  then have b34: "unat (mr_base region) < 2 ^ 34" by (simp add: word_less_nat_alt DIRECT_MAP_SIZE_def)
  have l0: "0 < unat (mr_length region)" using False by (simp add: unat_gt_0)
  have lim: "unat (mr_base region) < lim" "lim \<le> 2 ^ 34" using b34 l0 by (simp_all add: lim_def)
  have qm: "q \<le> (lim + (2 ^ 21 - 1)) div 2 ^ 21" unfolding q_def using lim(1) by (intro div_le_mono) simp
  have "(lim + (2 ^ 21 - 1)) div 2 ^ 21 \<le> (2 ^ 34 + (2 ^ 21 - 1)) div 2 ^ 21" using lim(2) by (intro div_le_mono) simp
  then have bound: "q + n \<le> 8192" using qm by (simp add: n_def)
  have q0: "q < 8192" using b34 by (simp add: q_def div_less_iff_less_mult)
  have ue: "unat ?e = lim" unfolding lim_def by (rule region_end [OF base])
  have first: "align_down (mr_base region) PAGE_2M = of_nat q * PAGE_2M"
    unfolding word_unat_eq_iff page_of_window(1) [OF window_bases(2) q0]
    unfolding pages_pow(1) unat_align_down q_def ..
  have "unat (align_up ?e PAGE_2M) = (lim + (2 ^ 21 - 1)) div 2 ^ 21 * 2 ^ 21"
    unfolding pages_pow(1) ue [symmetric] using ue lim(2) by (intro unat_align_up) simp_all
  then have lst: "unat (align_up ?e PAGE_2M) = (q + n) * 2 ^ 21" using qm by (simp add: n_def)
  have fu: "unat (align_down (mr_base region) PAGE_2M) = q * 2 ^ 21"
    unfolding first by (rule page_of_window(1) [OF window_bases(2) q0])
  have le: "align_down (mr_base region) PAGE_2M \<le> align_up ?e PAGE_2M"
    unfolding word_le_nat_alt lst fu by simp
  have "unat (align_up ?e PAGE_2M - align_down (mr_base region) PAGE_2M) = n * 2 ^ 21"
    unfolding unat_minus_le [OF le] lst fu by simp
  then have steps: "steps_2m (align_up ?e PAGE_2M - align_down (mr_base region) PAGE_2M) = n"
    by (simp add: steps_2m_def)
  have m': "fill_direct_region il region m = fold (\<lambda>i. let pa = of_nat q * PAGE_2M + of_nat i * PAGE_2M
        in fill_2m (direct_pd il (unat (pa div PAGE_1G))) (DIRECT_MAP_BASE + pa) pa PAGE_2M KERNEL_DATA) [0..<n] m"
    unfolding fill_direct_region_def if_not_P [OF False] Let_def steps [unfolded first] first ..
  have "region_page region x \<longleftrightarrow> x \<in> {q..<q + n}" for x
    unfolding n_def q_def touched_pages [OF lim, symmetric] using False
    by (auto simp: region_page_def lim_def)
  then show ?thesis using fill_direct_pages [OF S B bound m'] by simp
qed

text \<open>The direct map covers exactly the pages that memory other than defective memory touches.\<close>

definition described :: "boot_info \<Rightarrow> nat \<Rightarrow> bool" where
  "described boot q \<longleftrightarrow> (\<exists>region\<in>set (v_contents (memory_map boot)). region_page region q)"

lemma fill_regions:
  assumes S: "static_layout il m0" and B: "building il m"
  shows "building il (fold (fill_direct_region il) rs m) \<and> same_config m (fold (fill_direct_region il) rs m) \<and>
    m_pmm (fold (fill_direct_region il) rs m) = m_pmm m \<and>
    (\<forall>va'. address_space (fold (fill_direct_region il) rs m) (pml4 il) va' =
       (if \<exists>region\<in>set rs. region_page region (unat (va' - DIRECT_MAP_BASE) div 2 ^ 21)
        then Some (va' - DIRECT_MAP_BASE, effective_prot (feats m) KERNEL_DATA) else address_space m (pml4 il) va'))"
  using B
proof (induction rs arbitrary: m)
  case Nil
  then show ?case by (simp add: same_config_def)
next
  case (Cons region rs)
  note R = fill_direct_region_spec [OF S Cons.prems, of region]
  then have ft: "feats (fill_direct_region il region m) = feats m" by (simp add: same_config_def)
  from R Cons.IH [of "fill_direct_region il region m"] show ?case
    unfolding ft by (auto simp: same_config_def)
qed

end
