(* ===== verification/Range_Live.thy ===== *)
theory Range_Live
  imports Unmap_Range
begin

text \<open>
  Protecting a range that is mapped succeeds while there are frames to split its large
  pages: at most one frame per level of the tree and page of the range.
\<close>

section \<open>One page\<close>

lemma walk_to_leaf_live:
  assumes inv: "tree_inv m root" and va: "valid va" and mapped: "address_space m root va \<noteq> None"
    and run: "walk_to_leaf root va 1 m = Return (r, m')"
  shows "takes 3 m m'" "3 \<le> avail m \<Longrightarrow> \<not> isl r"
proof -
  have pmm: "pmm_inv (m_pmm m)" by (rule sub_invD(2) [OF tree_invD(1) [OF inv]])
  then have none: "takes 3 m m" by (simp add: takes_def)
  have le: "1 \<le> (1 :: nat)" "1 \<le> LEVELS" by (simp_all add: LEVELS_def)
  have fin: "present (entry (mem m1) T (pt_index 1 va))"
    if "tree_inv m1 root" "address_space m1 root = address_space m root" "path_table (mem m1) LEVELS root va 1 = Some T" for m1 T
    using path_table_find [OF that(3) One_nat_def same_page_refl] fun_cong [OF that(2), of va] mapped va
    by (auto simp: address_space_xlate xlate_def entry_find_def split: if_splits)
  have "find_leaf (mem m) LEVELS root va \<noteq> None" using mapped va by (auto simp: address_space_xlate xlate_def)
  then obtain lv T where w: "walk_end (mem m) LEVELS root va 1 = Some (lv, T)"
    using walk_end_none [OF _ le] by (metis option.exhaust surj_pair)
  obtain p where p: "walk root va 1 False m = Return (Ok p, m)" "reached_level p = lv" "path_upto (mem m) LEVELS root va lv p"
    using walk_False_spec [OF le, where m = m and t = root and va = va and path = empty_path] w by (auto simp: walk_def)
  have "takes 3 m m' \<and> (3 \<le> avail m \<longrightarrow> \<not> isl r)"
  proof (cases "lv > 1")
    case False
    then have "lv = 1" using walk_end_bound [OF w] by simp
    then obtain T' where T: "path_table (mem m) LEVELS root va 1 = Some T'" "slots p 1 = slot_at T' (pt_index 1 va)"
      using p(3) le unfolding path_upto_def by auto
    have "walk_to_leaf root va 1 m = Return (Ok p, m)"
      using p(1,2) \<open>lv = 1\<close> T fin [OF inv refl T(1)] by (simp add: walk_to_leaf_def leaf_def mm_ok_def)
    then show ?thesis using run none by auto
  next
    case True
    obtain res m1 where W: "walk root va 1 True m = Return (res, m1)" "tree_inv m1 root"
        "address_space m1 root = address_space m root"
        "case res of Ok p \<Rightarrow> walk_result m1 LEVELS root va 1 p | Err e \<Rightarrow> e = OUT_OF_MEMORY"
      using walk_alloc_root [OF inv, of 1 va] by (metis insertI1)
    have count: "takes 3 m m1" "3 \<le> avail m \<Longrightarrow> \<not> isl res"
      using walk_from_avail [OF pmm W(1) [unfolded walk_def] le] by (simp_all add: LEVELS_def)
    show ?thesis
    proof (cases res)
      case (Inl e)
      then have "walk_to_leaf root va 1 m = Return (Err e, m1)" using W(1) p(1,2) True by (simp add: walk_to_leaf_def)
      then show ?thesis using run count Inl by auto
    next
      case (Inr q)
      then obtain T' where T: "path_table (mem m1) LEVELS root va 1 = Some T'" "slots q 1 = slot_at T' (pt_index 1 va)"
        using W(4) by (auto simp: walk_result_def)
      have "walk_to_leaf root va 1 m = Return (Ok q, m1)"
        using W(1) p(1,2) True Inr T fin [OF W(2,3) T(1)] by (simp add: walk_to_leaf_def leaf_def mm_ok_def)
      then show ?thesis using run count by auto
    qed
  qed
  then show "takes 3 m m'" "3 \<le> avail m \<Longrightarrow> \<not> isl r" by blast+
qed

lemma protect_leaf_live:
  assumes inv: "tree_inv m root" and va: "valid va" "va AND (bytes_in SIZE_4K - 1) = 0"
    and mapped: "address_space m root va \<noteq> None" and run: "protect_leaf root va SIZE_4K p m = Return (r, m')"
  shows "takes 3 m m'" "3 \<le> avail m \<Longrightarrow> \<not> isl r"
proof -
  have lv: "level_of SIZE_4K = 1" by (simp add: level_of_def layout)
  have val: "validate va SIZE_4K 0 = mm_ok 1" using va by (simp add: validate_def lv)
  have "takes 3 m m' \<and> (3 \<le> avail m \<longrightarrow> \<not> isl r)"
  proof (cases "walk_to_leaf root va 1 m")
    case (Return x)
    obtain q m1 where x: "x = (q, m1)" by force
    note W = walk_to_leaf_live [OF inv va(1) mapped Return [unfolded x]]
    have "m_pmm m' = m_pmm m1 \<and> isl r = isl q"
      using run Return x by (cases q) (auto simp: protect_leaf_def val ktry_def mm_ok_def Let_def)
    then show ?thesis using W takes_same_pmm [of m1 m' 3 m] by auto
  next
    case (Panic msg)
    then show ?thesis using run by (simp add: protect_leaf_def val ktry_def mm_ok_def)
  qed
  then show "takes 3 m m'" "3 \<le> avail m \<Longrightarrow> \<not> isl r" by blast+
qed

section \<open>A range\<close>

text \<open>The pages \<open>i\<close> to \<open>i + n\<close> of a range are canonical, page aligned and mapped.\<close>

definition pages_mapped :: "machine \<Rightarrow> paddr_t \<Rightarrow> vaddr_t \<Rightarrow> nat \<Rightarrow> nat \<Rightarrow> bool" where
  "pages_mapped m root va i n \<longleftrightarrow>
     (\<forall>j\<in>{i..<i + n}. valid (va + of_nat j * 4096) \<and> (va + of_nat j * 4096) AND 4095 = 0 \<and>
        address_space m root (va + of_nat j * 4096) \<noteq> None)"

lemma protect_loop_live:
  assumes "tree_inv m root" "pages_mapped m root va i n"
    and "leaf_loop (protect_op (root, p)) va 4096 SIZE_4K i n m = Return (r, m')"
  shows "(3 * n \<le> avail m \<longrightarrow> \<not> isl r) \<and> takes (3 * n) m m'"
  using assms
proof (induction n arbitrary: i m)
  case 0
  then show ?case using sub_invD(2) [OF tree_invD(1)] by (auto simp: mm_ok_def takes_def)
next
  case (Suc n)
  let ?va = "va + of_nat i * 4096"
  have b4: "bytes_in SIZE_4K = 4096" by (simp add: bytes_in_pow2 shift_of_sizes)
  have pg: "valid ?va" "?va AND (bytes_in SIZE_4K - 1) = 0" "address_space m root ?va \<noteq> None"
    using Suc.prems(2) by (simp_all add: pages_mapped_def b4)
  obtain q m1 where P: "protect_leaf root ?va SIZE_4K p m = Return (q, m1)" "tree_inv m1 root"
      "case q of Ok _ \<Rightarrow> \<forall>va'. address_space m1 root va' =
            (if va' - ?va < bytes_in SIZE_4K
             then map_option (\<lambda>(a, _). (a, effective_prot (feats m) p)) (address_space m root va')
             else address_space m root va')
       | Err e \<Rightarrow> address_space m1 root = address_space m root"
    using protecting.op_spec [of m "(root, p)" SIZE_4K 0 ?va, unfolded fst_conv snd_conv] Suc.prems(1) supported_4k
    by (auto simp: protect_op_def)
  note L = protect_leaf_live [OF Suc.prems(1) pg P(1)]
  have op: "protect_op (root, p) ?va off SIZE_4K m = Return (q, m1)" for off by (simp add: protect_op_def P(1))
  show ?case
  proof (cases q)
    case (Inl e)
    then have "r = Err e" "m' = m1" using Suc.prems(3) op by simp_all
    then show ?thesis using L Inl by (auto simp: takes_def)
  next
    case (Inr u)
    have same: "address_space m1 root va' = None \<longleftrightarrow> address_space m root va' = None" for va'
      using P(3) Inr by auto
    have "pages_mapped m1 root va (i + 1) n" using Suc.prems(2) by (auto simp: pages_mapped_def same)
    moreover have "leaf_loop (protect_op (root, p)) va 4096 SIZE_4K (i + 1) n m1 = Return (r, m')"
      using Suc.prems(3) op Inr by simp
    ultimately have I: "3 * n \<le> avail m1 \<longrightarrow> \<not> isl r" "takes (3 * n) m1 m'" using Suc.IH [OF P(2)] by blast+
    have "takes (3 + 3 * n) m m'" by (rule takes_trans [OF L(1) I(2)])
    then show ?thesis using I(1) L(1) by (auto simp: takes_def)
  qed
qed

lemma leaf_size_4k: "leaf_size ft SIZE_4K = SIZE_4K"
proof -
  have "level_of SIZE_4K = Suc 0" by (simp add: level_of_def layout)
  then show ?thesis by (simp add: leaf_size_def size_at_level_of)
qed

lemma protect_range_live:
  assumes "tree_inv m root" "len \<noteq> 0" "4096 dvd unat len" "pages_mapped m root va 0 (unat len div 4096)"
    and "protect_range root va len SIZE_4K p m = Return (r, m')"
  shows "3 * (unat len div 4096) \<le> avail m \<Longrightarrow> \<not> isl r" "takes (3 * (unat len div 4096)) m m'"
proof -
  have b4: "bytes_in SIZE_4K = 4096" by (simp add: bytes_in_pow2 shift_of_sizes)
  have "unat (len mod 4096) = 0" using assms(3) by (simp add: unat_mod_distrib dvd_eq_mod_eq_0)
  then have mod: "len mod 4096 = 0" by (simp only: unat_eq_0)
  have n: "unat (len div 4096) = unat len div 4096" by (simp add: unat_div_distrib)
  have op: "(\<lambda>lf _ leaf_sz. protect_leaf root lf leaf_sz p) = protect_op (root, p)"
    by (intro ext) (simp add: protect_op_def)
  have "leaf_loop (protect_op (root, p)) va 4096 SIZE_4K 0 (unat len div 4096) m = Return (r, m')"
    using assms(2,5) mod by (simp add: protect_range_def for_each_leaf_def Let_def leaf_size_4k b4 op n)
  from protect_loop_live [OF assms(1,4) this]
  show "3 * (unat len div 4096) \<le> avail m \<Longrightarrow> \<not> isl r" "takes (3 * (unat len div 4096)) m m'" by blast+
qed

end
