(* ===== verification/Mmu_Correct.thy ===== *)
theory Mmu_Correct
  imports Mmu_Tables Range_Live Vmm_Session
begin

text \<open>
  The address space the MMU component ends with: the image protected section by section, the
  rest of the kernel window unmapped, the direct map over described memory, nothing else.
\<close>

section \<open>Offsets into the kernel window\<close>

lemma kernel_offset:
  assumes "a \<le> 2 ^ 30"
  shows "unat (of_nat a :: u64) = a" "unat (KERNEL_BASE + of_nat a) = unat KERNEL_BASE + a"
    "unat (KERNEL_BASE + of_nat a - KERNEL_BASE) = a"
proof -
  show a: "unat (of_nat a :: u64) = a" using assms by (intro unat_of_nat_small) simp
  show "unat (KERNEL_BASE + of_nat a) = unat KERNEL_BASE + a"
    using unat_plus_small [of KERNEL_BASE "of_nat a"] a assms by (simp add: KERNEL_BASE_def)
  show "unat (KERNEL_BASE + of_nat a - KERNEL_BASE) = a" using a by simp
qed

lemma kernel_page:
  assumes "a < 2 ^ 30" "4096 dvd a"
  shows "valid (KERNEL_BASE + of_nat a)" "(KERNEL_BASE + of_nat a) AND 4095 = 0"
proof -
  have "unat (KERNEL_BASE + of_nat a - KERNEL_BASE) < 2 ^ 30" using assms(1) kernel_offset(1) [of a] by simp
  then show "valid (KERNEL_BASE + of_nat a)" by (rule mapped_window(4))
  have "4096 dvd unat (KERNEL_BASE + of_nat a)"
    using kernel_offset(2) [of a] assms by (simp add: KERNEL_BASE_def)
  then show "(KERNEL_BASE + of_nat a) AND 4095 = 0"
    using and_mask_dvd_nat [of 12 "KERNEL_BASE + of_nat a"] by (simp add: mask_eq_exp_minus_1)
qed

text \<open>Membership of a range of the window, as the range operations test it.\<close>

lemma window_range:
  fixes va :: vaddr_t
  assumes "a \<le> b" "b \<le> 2 ^ 30"
  shows "unat (va - (KERNEL_BASE + of_nat a)) < b - a \<longleftrightarrow>
    a \<le> unat (va - KERNEL_BASE) \<and> unat (va - KERNEL_BASE) < b"
proof -
  have u: "unat (of_nat a :: u64) = a" "unat (of_nat (b - a) :: u64) = b - a"
    using kernel_offset(1) [of a] kernel_offset(1) [of "b - a"] assms by (simp_all del: of_nat_diff)
  have eq: "va - (KERNEL_BASE + of_nat a) = va - KERNEL_BASE - of_nat a" by simp
  have "unat (va - KERNEL_BASE - of_nat a) < b - a \<longleftrightarrow> va - KERNEL_BASE - of_nat a < of_nat (b - a)"
    by (simp only: word_less_nat_alt u(2))
  also have "\<dots> \<longleftrightarrow> a \<le> unat (va - KERNEL_BASE) \<and> unat (va - KERNEL_BASE) < a + (b - a)"
    using word_window [of "of_nat a" "of_nat (b - a)" "va - KERNEL_BASE"] assms by (simp only: u) simp
  finally show ?thesis unfolding eq using assms(1) by simp
qed

lemma align_offset:
  fixes x :: vaddr_t
  assumes "unat (x - KERNEL_BASE) \<le> 2 ^ 30"
  shows "align_down x PAGE_4K = KERNEL_BASE + of_nat (unat (x - KERNEL_BASE) div 4096 * 4096)"
    "align_up x PAGE_4K = KERNEL_BASE + of_nat ((unat (x - KERNEL_BASE) + 4095) div 4096 * 4096)"
proof -
  define d where "d = unat (x - KERNEL_BASE)"
  have k: "unat KERNEL_BASE = 4096 * 4503599626846208" by (simp add: KERNEL_BASE_def)
  have "unat (KERNEL_BASE + (x - KERNEL_BASE)) = unat KERNEL_BASE + d"
    unfolding d_def using assms by (intro unat_plus_small) (simp add: k)
  then have x: "unat x = 4096 * 4503599626846208 + d" using k by simp
  have round: "(4096 * j + e) div 4096 * 4096 = 4096 * j + e div 4096 * 4096" for j e :: nat by (simp add: distrib_right)
  have p12: "(2 :: nat) ^ 12 = 4096" and m1: "(4096 - 1 :: nat) = 4095" by simp_all
  have lo: "d div 4096 * 4096 \<le> 2 ^ 30" "(d + 4095) div 4096 * 4096 \<le> 2 ^ 30"
  proof -
    have "d div 4096 * 4096 \<le> d" by simp
    then show "d div 4096 * 4096 \<le> 2 ^ 30" using assms by (simp add: d_def)
    have "(d + 4095) div 4096 \<le> (2 ^ 30 + 4095) div 4096" using assms unfolding d_def by (intro div_le_mono) simp
    then show "(d + 4095) div 4096 * 4096 \<le> 2 ^ 30" by simp
  qed
  have "unat (align_down x PAGE_4K) = unat (KERNEL_BASE + of_nat (d div 4096 * 4096))"
    unfolding kernel_offset(2) [OF lo(1)] pages_pow(2) unat_align_down x k p12 by (rule round)
  then show "align_down x PAGE_4K = KERNEL_BASE + of_nat (unat (x - KERNEL_BASE) div 4096 * 4096)"
    unfolding d_def by (simp only: word_unat_eq_iff)
  have "unat (align_up x PAGE_4K) = (unat x + (2 ^ 12 - 1)) div 2 ^ 12 * 2 ^ 12"
    unfolding pages_pow(2) using assms by (intro unat_align_up) (simp_all add: x d_def)
  also have "\<dots> = unat (KERNEL_BASE + of_nat ((d + 4095) div 4096 * 4096))"
    unfolding kernel_offset(2) [OF lo(2)] x k p12 m1 add.assoc by (rule round)
  finally show "align_up x PAGE_4K = KERNEL_BASE + of_nat ((unat (x - KERNEL_BASE) + 4095) div 4096 * 4096)"
    unfolding d_def by (simp only: word_unat_eq_iff)
qed

section \<open>Protecting and unmapping a part of the window\<close>

type_synonym translation = "vaddr_t \<Rightarrow> (paddr_t \<times> page_prot) option"

definition mapped_between :: "translation \<Rightarrow> nat \<Rightarrow> nat \<Rightarrow> bool" where
  "mapped_between s a b \<longleftrightarrow> (\<forall>i\<in>{a..<b}. s (KERNEL_BASE + of_nat i) \<noteq> None)"

definition in_part :: "nat \<Rightarrow> nat \<Rightarrow> vaddr_t \<Rightarrow> bool" where
  "in_part a b va \<longleftrightarrow> a \<le> unat (va - KERNEL_BASE) \<and> unat (va - KERNEL_BASE) < b"

definition protect_part :: "features \<Rightarrow> nat \<Rightarrow> nat \<Rightarrow> page_prot \<Rightarrow> translation \<Rightarrow> translation" where
  "protect_part ft a b p s va =
     (if in_part a b va then map_option (\<lambda>(x, _). (x, effective_prot ft p)) (s va) else s va)"

definition unmap_part :: "nat \<Rightarrow> nat \<Rightarrow> translation \<Rightarrow> translation" where
  "unmap_part a b s va = (if in_part a b va then None else s va)"

text \<open>
  One stage of a bring-up: it returns and keeps the tree well formed, on success the
  translation changes by \<open>f\<close>, and where \<open>pre\<close> holds it takes at most \<open>k\<close> frames and succeeds
  when they are free.
\<close>

definition stage :: "paddr_t \<Rightarrow> features \<Rightarrow> (translation \<Rightarrow> bool) \<Rightarrow> (translation \<Rightarrow> translation) \<Rightarrow> nat \<Rightarrow> unit mm \<Rightarrow> bool" where
  "stage root ft pre f k op \<longleftrightarrow>
     (\<forall>m. tree_inv m root \<and> feats m = ft \<longrightarrow>
        (\<exists>r m'. op m = Return (r, m') \<and> tree_inv m' root \<and> same_config m m' \<and>
           (\<not> isl r \<longrightarrow> address_space m' root = f (address_space m root)) \<and>
           (pre (address_space m root) \<longrightarrow> avail m \<le> avail m' + k \<and> (k \<le> avail m \<longrightarrow> \<not> isl r))))"

lemma stageE:
  assumes "stage root ft pre f k op" "tree_inv m root" "feats m = ft"
  obtains r m' where "op m = Return (r, m')" "tree_inv m' root" "same_config m m'"
    "\<not> isl r \<Longrightarrow> address_space m' root = f (address_space m root)"
    "pre (address_space m root) \<Longrightarrow> avail m \<le> avail m' + k"
    "pre (address_space m root) \<Longrightarrow> k \<le> avail m \<Longrightarrow> \<not> isl r"
  using assms unfolding stage_def by blast

lemma stage_ktry:
  assumes f: "stage root ft pre f k op" and g: "stage root ft pre' g k' op'" and pre: "\<And>s. pre s \<Longrightarrow> pre' (f s)"
  shows "stage root ft pre (\<lambda>s. g (f s)) (k + k') (ktry op (\<lambda>_. op'))"
  unfolding stage_def
proof (intro allI impI, elim conjE)
  fix m assume m: "tree_inv m root" "feats m = ft"
  let ?as = "\<lambda>m. address_space m root"
  obtain r m1 where F: "op m = Return (r, m1)" "tree_inv m1 root" "same_config m m1" "\<not> isl r \<Longrightarrow> ?as m1 = f (?as m)"
      "pre (?as m) \<Longrightarrow> avail m \<le> avail m1 + k" "pre (?as m) \<Longrightarrow> k \<le> avail m \<Longrightarrow> \<not> isl r"
    using stageE [OF f m] by blast
  show "\<exists>r m'. ktry op (\<lambda>_. op') m = Return (r, m') \<and> tree_inv m' root \<and> same_config m m' \<and>
      (\<not> isl r \<longrightarrow> ?as m' = g (f (?as m))) \<and>
      (pre (?as m) \<longrightarrow> avail m \<le> avail m' + (k + k') \<and> (k + k' \<le> avail m \<longrightarrow> \<not> isl r))"
  proof (cases r)
    case (Inl e)
    have "avail m \<le> avail m1 + (k + k') \<and> (k + k' \<le> avail m \<longrightarrow> \<not> isl (Err e :: (unit, mm_error) result))" if "pre (?as m)"
      using F(5,6) that Inl by fastforce
    then show ?thesis using F(1-3) Inl by (intro exI [of _ "Err e"] exI [of _ m1]) simp
  next
    case (Inr u)
    have "feats m1 = ft" using F(3) m(2) by (simp add: same_config_def)
    then obtain r' m2 where G: "op' m1 = Return (r', m2)" "tree_inv m2 root" "same_config m1 m2"
        "\<not> isl r' \<Longrightarrow> ?as m2 = g (?as m1)" "pre' (?as m1) \<Longrightarrow> avail m1 \<le> avail m2 + k'"
        "pre' (?as m1) \<Longrightarrow> k' \<le> avail m1 \<Longrightarrow> \<not> isl r'"
      using stageE [OF g F(2)] by blast
    have "avail m \<le> avail m2 + (k + k') \<and> (k + k' \<le> avail m \<longrightarrow> \<not> isl r')" if "pre (?as m)"
      using F(4,5) G(5,6) pre [OF that] that Inr by fastforce
    then show ?thesis
      using F(1,3,4) G(1-4) Inr by (intro exI [of _ r'] exI [of _ m2]) (auto simp: same_config_def)
  qed
qed

lemma stage_none: "stage root ft pre (\<lambda>s. s) 0 (mm_ok ())"
  by (auto simp: stage_def mm_ok_def same_config_def)

lemma protect_region_stage:
  assumes ab: "a < b" "b \<le> 2 ^ 30" "4096 dvd a" "4096 dvd b"
    and sym: "align_down first PAGE_4K = KERNEL_BASE + of_nat a" "align_up lst PAGE_4K = KERNEL_BASE + of_nat b"
  shows "stage root ft (\<lambda>s. mapped_between s a b) (protect_part ft a b p) (3 * ((b - a) div 4096)) (protect_region root first lst p)"
  unfolding stage_def
proof (intro allI impI, elim conjE)
  fix m assume inv: "tree_inv m root" and ft: "feats m = ft"
  let ?va = "KERNEL_BASE + of_nat a" and ?len = "of_nat (b - a) :: u64"
  have len: "unat ?len = b - a" using kernel_offset(1) [of "b - a"] ab(2) by simp
  then have fits: "unat ?len \<le> 2 ^ 64" using ab(2) by simp
  have "KERNEL_BASE + of_nat b - ?va = ?len" using ab(1) by simp
  then have run: "protect_region root first lst p = protect_range root ?va ?len SIZE_4K p"
    by (simp add: protect_region_def sym)
  have op: "(\<lambda>lf _ leaf_sz. protect_leaf root lf leaf_sz p) = protect_op (root, p)"
    by (intro ext) (simp add: protect_op_def)
  obtain r m' n where P: "protect_range root ?va ?len SIZE_4K p m = Return (r, m')" "tree_inv m' root" "same_config m m'"
      "\<not> isl r \<Longrightarrow> n = b - a"
      "\<And>va. address_space m' root va = (if unat (va - ?va) < n
         then map_option (\<lambda>(x, _). (x, effective_prot (feats m) p)) (address_space m root va) else address_space m root va)"
    using protecting.for_each_spec [of m "(root, p)" SIZE_4K ?len ?va, unfolded fst_conv snd_conv, OF inv supported_4k fits]
    unfolding protect_range_def op len by blast
  have as: "address_space m' root = protect_part ft a b p (address_space m root)" if "\<not> isl r"
    using P(5) P(4) [OF that] window_range [of a b] ab by (intro ext) (simp add: protect_part_def in_part_def ft)
  have pages: "pages_mapped m root ?va 0 (unat ?len div 4096)" if M: "mapped_between (address_space m root) a b"
    unfolding pages_mapped_def len
  proof
    fix j assume "j \<in> {0..<0 + (b - a) div 4096}"
    then have j: "a + j * 4096 < b" using ab(1,3,4) by (auto elim!: dvdE)
    have eq: "?va + of_nat j * 4096 = KERNEL_BASE + of_nat (a + j * 4096)" by simp
    show "valid (?va + of_nat j * 4096) \<and> (?va + of_nat j * 4096) AND 4095 = 0 \<and>
        address_space m root (?va + of_nat j * 4096) \<noteq> None"
      unfolding eq using kernel_page [of "a + j * 4096"] j ab(2,3) M by (simp add: mapped_between_def del: of_nat_add)
  qed
  have l: "?len \<noteq> 0" "4096 dvd unat ?len" using len ab by (auto simp flip: unat_eq_0 intro: dvd_diff_nat)
  note live = protect_range_live [OF inv l pages P(1), unfolded len]
  show "\<exists>r m'. protect_region root first lst p m = Return (r, m') \<and> tree_inv m' root \<and> same_config m m' \<and>
      (\<not> isl r \<longrightarrow> address_space m' root = protect_part ft a b p (address_space m root)) \<and>
      (mapped_between (address_space m root) a b \<longrightarrow>
         avail m \<le> avail m' + 3 * ((b - a) div 4096) \<and> (3 * ((b - a) div 4096) \<le> avail m \<longrightarrow> \<not> isl r))"
    by (rule exI [of _ r], rule exI [of _ m']) (use P(2,3) live as in \<open>auto simp: run P(1) takes_def\<close>)
qed

lemma unmap_stage:
  assumes ab: "a < b" "b \<le> 2 ^ 30" "4096 dvd a" "4096 dvd b"
  shows "stage root ft (\<lambda>s. mapped_between s a b) (unmap_part a b) 6
    (unmap_range root (KERNEL_BASE + of_nat a) (of_nat (b - a)) SIZE_4K ignore_removed)"
  unfolding stage_def
proof (intro allI impI, elim conjE)
  fix m assume inv: "tree_inv m root" and ft: "feats m = ft"
  let ?va = "KERNEL_BASE + of_nat a" and ?len = "of_nat (b - a) :: u64"
  have len: "unat ?len = b - a" using kernel_offset(1) [of "b - a"] ab(2) by simp
  obtain r m' n where U: "unmap_range root ?va ?len SIZE_4K ignore_removed m = Return (r, m')" "tree_inv m' root"
      "same_config m m'" "\<not> isl r \<Longrightarrow> n = b - a"
      "isl r \<Longrightarrow> bad_range (feats m) ?va ?len SIZE_4K \<or> avail m < 6 \<or>
         n < b - a \<and> address_space m root (?va + of_nat n) = None" "avail m \<le> avail m' + 6"
      "\<And>va. address_space m' root va = (if unat (va - ?va) < n then None else address_space m root va)"
    using unmap_range_spec [OF inv supported_4k, of ?va ?len] unfolding len by blast
  have "\<not> bad_range (feats m) ?va ?len SIZE_4K"
  proof -
    have b4: "bytes_in SIZE_4K = 4096" by (simp add: bytes_in_pow2 shift_of_sizes)
    have lst: "?va + ?len - 1 = KERNEL_BASE + of_nat (b - 1)" using ab(1) by (simp add: algebra_simps)
    have "unat (?va + ?len - 1 - KERNEL_BASE) < 2 ^ 30"
      unfolding lst using kernel_offset(3) [of "b - 1"] ab(1,2) by simp
    then have v: "valid (?va + ?len - 1)" by (rule mapped_window(4))
    have "unat ?va \<le> unat (KERNEL_BASE + of_nat (b - 1))"
      using kernel_offset(2) [of a] kernel_offset(2) [of "b - 1"] ab(1,2) by simp
    then have le: "\<not> ?va + ?len - 1 < ?va" unfolding lst word_less_nat_alt by simp
    have "unat (?len mod 4096) = 0" using len ab by (simp add: unat_mod_distrib dvd_diff_nat flip: dvd_eq_mod_eq_0)
    then have "?len mod 4096 = 0" by (simp only: unat_eq_0)
    moreover have "?len \<noteq> 0" using len ab(1) by (auto simp flip: unat_eq_0)
    ultimately show ?thesis using kernel_page [of a] v le ab by (simp add: bad_range_def Let_def leaf_size_4k b4)
  qed
  moreover have "address_space m root (?va + of_nat i) \<noteq> None" if "mapped_between (address_space m root) a b" "i < b - a" for i
  proof -
    have "a + i \<in> {a..<b}" using that(2) by simp
    then show ?thesis using that(1) unfolding mapped_between_def by (metis add.assoc of_nat_add)
  qed
  ultimately have live: "mapped_between (address_space m root) a b \<Longrightarrow> 6 \<le> avail m \<Longrightarrow> \<not> isl r" using U(5) by fastforce
  have as: "address_space m' root = unmap_part a b (address_space m root)" if "\<not> isl r"
    using U(7) U(4) [OF that] window_range [of a b] ab by (intro ext) (simp add: unmap_part_def in_part_def)
  show "\<exists>r m'. unmap_range root ?va ?len SIZE_4K ignore_removed m = Return (r, m') \<and> tree_inv m' root \<and> same_config m m' \<and>
      (\<not> isl r \<longrightarrow> address_space m' root = unmap_part a b (address_space m root)) \<and>
      (mapped_between (address_space m root) a b \<longrightarrow> avail m \<le> avail m' + 6 \<and> (6 \<le> avail m \<longrightarrow> \<not> isl r))"
    by (rule exI [of _ r], rule exI [of _ m']) (use U(1-3,6) live as in auto)
qed

section \<open>The image\<close>

definition image_offset :: "vaddr_t \<Rightarrow> nat" where
  "image_offset x = unat (x - KERNEL_BASE)"

text \<open>
  What \<^verbatim>\<open>config/linker.ld.in\<close> lays out: text, read-only data and data follow each other, each
  section non-empty and starting on a page, the image ends on a page, and it fits the early
  mapping, which is at most 1 GiB.
\<close>

definition linker_layout :: "image_layout \<Rightarrow> bool" where
  "linker_layout il \<longleftrightarrow>
     4096 dvd image_offset (text_start il) \<and> image_offset (text_start il) < image_offset (text_end il) \<and>
     image_offset (rodata_start il) = (image_offset (text_end il) + 4095) div 4096 * 4096 \<and>
     image_offset (rodata_start il) < image_offset (rodata_end il) \<and>
     image_offset (data_rel_ro_start il) = (image_offset (rodata_end il) + 4095) div 4096 * 4096 \<and>
     image_offset (data_rel_ro_start il) < unat (physical_end il) \<and>
     kernel_end_sym il = KERNEL_BASE + physical_end il \<and> 4096 dvd unat (physical_end il) \<and> unat (physical_end il) \<le> 2 ^ 30"

text \<open>The protection each part of the image ends with.\<close>

definition image_prot :: "image_layout \<Rightarrow> nat \<Rightarrow> page_prot option" where
  "image_prot il d =
     (if d < image_offset (text_start il) then None
      else if d < image_offset (rodata_start il) then Some KERNEL_TEXT
      else if d < image_offset (data_rel_ro_start il) then Some KERNEL_RODATA
      else if d < unat (physical_end il) then Some KERNEL_DATA else None)"

lemma round_up_ge: "0 < n \<Longrightarrow> x \<le> (x + (n - 1)) div n * n" for x n :: nat
  using mod_less_divisor [of n "x + (n - 1)"] div_mult_mod_eq [of "x + (n - 1)" n] by linarith

lemma linker_layoutD:
  assumes "linker_layout il"
  defines "ts \<equiv> image_offset (text_start il)" and "rs \<equiv> image_offset (rodata_start il)"
    and "ds \<equiv> image_offset (data_rel_ro_start il)" and "pe \<equiv> unat (physical_end il)"
  shows "ts < rs" "rs < ds" "ds < pe" "pe \<le> 2 ^ 30" "4096 dvd ts" "4096 dvd rs" "4096 dvd ds" "4096 dvd pe"
    "align_down (text_start il) PAGE_4K = KERNEL_BASE + of_nat ts" "align_up (text_end il) PAGE_4K = KERNEL_BASE + of_nat rs"
    "align_down (rodata_start il) PAGE_4K = KERNEL_BASE + of_nat rs" "align_up (rodata_end il) PAGE_4K = KERNEL_BASE + of_nat ds"
    "align_down (data_rel_ro_start il) PAGE_4K = KERNEL_BASE + of_nat ds"
    "align_up (kernel_end_sym il) PAGE_4K = KERNEL_BASE + of_nat pe"
proof -
  note L = assms(1) [unfolded linker_layout_def, folded ts_def rs_def ds_def pe_def]
  have up: "x \<le> (x + 4095) div 4096 * 4096" for x :: nat
    using round_up_ge [of 4096 x] by simp
  show ord: "ts < rs" "rs < ds" "ds < pe" "pe \<le> 2 ^ 30"
    using L up [of "image_offset (text_end il)"] up [of "image_offset (rodata_end il)"] by simp_all
  show dv: "4096 dvd ts" "4096 dvd rs" "4096 dvd ds" "4096 dvd pe" using L by simp_all
  have end30: "image_offset (text_end il) \<le> 2 ^ 30" "image_offset (rodata_end il) \<le> 2 ^ 30"
    using L up [of "image_offset (text_end il)"] up [of "image_offset (rodata_end il)"] ord by simp_all
  have down: "align_down x PAGE_4K = KERNEL_BASE + of_nat (image_offset x)"
    if "image_offset x \<le> 2 ^ 30" "4096 dvd image_offset x" for x
  proof -
    have "image_offset x div 4096 * 4096 = image_offset x" using that(2) by simp
    then show ?thesis using align_offset(1) [of x] that(1) unfolding image_offset_def by metis
  qed
  show "align_down (text_start il) PAGE_4K = KERNEL_BASE + of_nat ts"
    "align_down (rodata_start il) PAGE_4K = KERNEL_BASE + of_nat rs"
    "align_down (data_rel_ro_start il) PAGE_4K = KERNEL_BASE + of_nat ds"
    using down ord dv unfolding ts_def rs_def ds_def by auto
  show "align_up (text_end il) PAGE_4K = KERNEL_BASE + of_nat rs" "align_up (rodata_end il) PAGE_4K = KERNEL_BASE + of_nat ds"
    using align_offset(2) end30 L unfolding image_offset_def by auto
  have "unat (kernel_end_sym il - KERNEL_BASE) = pe" using L by (simp add: pe_def)
  moreover have "(pe + 4095) div 4096 * 4096 = pe" using dv(4) by (auto elim!: dvdE)
  ultimately show "align_up (kernel_end_sym il) PAGE_4K = KERNEL_BASE + of_nat pe"
    using align_offset(2) [of "kernel_end_sym il"] ord by simp
qed

lemma window_size:
  assumes "linker_layout il"
  defines "win \<equiv> unat (kernel_window_size il)"
  shows "unat (physical_end il) \<le> win" "win \<le> 2 ^ 30" "2 ^ 21 dvd win" "steps_2m (kernel_window_size il) = win div 2 ^ 21"
    "kernel_window_size il = of_nat win"
proof -
  have pe: "unat (physical_end il) \<le> 2 ^ 30" using linker_layoutD(4) [OF assms(1)] .
  have w: "win = (unat (physical_end il) + (2 ^ 21 - 1)) div 2 ^ 21 * 2 ^ 21"
    unfolding win_def kernel_window_size_def pages_pow(1) using pe by (intro unat_align_up) simp_all
  show "2 ^ 21 dvd win" unfolding w by simp
  show "unat (physical_end il) \<le> win"
    unfolding w by (rule round_up_ge) simp
  have "(unat (physical_end il) + (2 ^ 21 - 1)) div 2 ^ 21 \<le> (2 ^ 30 + (2 ^ 21 - 1)) div 2 ^ 21"
    using pe by (intro div_le_mono) simp
  then show "win \<le> 2 ^ 30" unfolding w by simp
  show "steps_2m (kernel_window_size il) = win div 2 ^ 21"
    unfolding steps_2m_def win_def [symmetric] using \<open>2 ^ 21 dvd win\<close> by (auto elim!: dvdE)
  show "kernel_window_size il = of_nat win" by (simp add: win_def)
qed

lemma mapped_between_parts:
  "mapped_between s a b \<Longrightarrow> a \<le> a' \<Longrightarrow> b' \<le> b \<Longrightarrow> mapped_between s a' b'"
  "mapped_between (protect_part ft c d p s) a b \<longleftrightarrow> mapped_between s a b"
  "mapped_between s a b \<Longrightarrow> d \<le> a \<Longrightarrow> b \<le> 2 ^ 30 \<Longrightarrow> mapped_between (unmap_part c d s) a b"
proof -
  show "mapped_between s a b \<Longrightarrow> a \<le> a' \<Longrightarrow> b' \<le> b \<Longrightarrow> mapped_between s a' b'" by (simp add: mapped_between_def)
  show "mapped_between (protect_part ft c d p s) a b \<longleftrightarrow> mapped_between s a b"
    by (simp add: mapped_between_def protect_part_def)
  assume A: "mapped_between s a b" "d \<le> a" "b \<le> 2 ^ 30"
  have "\<not> in_part c d (KERNEL_BASE + of_nat i)" if "i \<in> {a..<b}" for i
    using that A(2,3) kernel_offset(3) [of i] by (simp add: in_part_def)
  then show "mapped_between (unmap_part c d s) a b" using A(1) by (simp add: mapped_between_def unmap_part_def)
qed

section \<open>Protecting the image\<close>

lemma stage_mono:
  assumes "stage root ft pre f k op" "\<And>s. pre' s \<Longrightarrow> pre s" "k \<le> k'"
  shows "stage root ft pre' f k' op"
  unfolding stage_def
proof (intro allI impI, elim conjE)
  fix m assume m: "tree_inv m root" "feats m = ft"
  obtain r m' where S: "op m = Return (r, m')" "tree_inv m' root" "same_config m m'"
      "\<not> isl r \<Longrightarrow> address_space m' root = f (address_space m root)"
      "pre (address_space m root) \<Longrightarrow> avail m \<le> avail m' + k" "pre (address_space m root) \<Longrightarrow> k \<le> avail m \<Longrightarrow> \<not> isl r"
    using stageE [OF assms(1) m] by blast
  have "avail m \<le> avail m' + k' \<and> (k' \<le> avail m \<longrightarrow> \<not> isl r)" if "pre' (address_space m root)"
    using S(5,6) [OF assms(2) [OF that]] assms(3) by auto
  then show "\<exists>r m'. op m = Return (r, m') \<and> tree_inv m' root \<and> same_config m m' \<and>
      (\<not> isl r \<longrightarrow> address_space m' root = f (address_space m root)) \<and>
      (pre' (address_space m root) \<longrightarrow> avail m \<le> avail m' + k' \<and> (k' \<le> avail m \<longrightarrow> \<not> isl r))"
    using S(1-4) by blast
qed

lemma unmap_stage_if:
  assumes "a \<le> b" "b \<le> 2 ^ 30" "4096 dvd a" "4096 dvd b" "c \<longleftrightarrow> a < b"
    and va: "va = KERNEL_BASE + of_nat a" and len: "len = of_nat (b - a)"
  shows "stage root ft (\<lambda>s. mapped_between s a b) (unmap_part a b) 6
    (if c then unmap_range root va len SIZE_4K ignore_removed else mm_ok ())"
proof (cases "a < b")
  case True
  then show ?thesis using unmap_stage [OF True assms(2-4)] assms(5) va len by simp
next
  case False
  then have "unmap_part a b = (\<lambda>s. s)" by (intro ext) (auto simp: unmap_part_def in_part_def)
  moreover have "\<not> c" using False assms(5) by simp
  ultimately show ?thesis using stage_mono [OF stage_none] by simp
qed

definition image_map :: "image_layout \<Rightarrow> features \<Rightarrow> translation \<Rightarrow> translation" where
  "image_map il ft s =
     (let ts = image_offset (text_start il); rs = image_offset (rodata_start il);
          ds = image_offset (data_rel_ro_start il); pe = unat (physical_end il); win = unat (kernel_window_size il)
      in unmap_part pe win (unmap_part 0 ts
           (protect_part ft ts rs KERNEL_TEXT (protect_part ft rs ds KERNEL_RODATA (protect_part ft ds pe KERNEL_DATA s)))))"

lemma protect_image_stage:
  assumes L: "linker_layout il"
  shows "stage root ft (\<lambda>s. mapped_between s 0 (unat (kernel_window_size il))) (image_map il ft)
    (3 * (unat (physical_end il) div 4096) + 12) (protect_image il root)"
proof -
  define ts rs ds pe win where D: "ts = image_offset (text_start il)" "rs = image_offset (rodata_start il)"
    "ds = image_offset (data_rel_ro_start il)" "pe = unat (physical_end il)" "win = unat (kernel_window_size il)"
  note A = linker_layoutD [OF L, folded D] and W = window_size [OF L, folded D]
  have le: "ts \<le> 2 ^ 30" "rs \<le> 2 ^ 30" "ds \<le> 2 ^ 30" using A(1-4) by linarith+
  have w4: "4096 dvd win" using W(3) by (rule dvd_trans [rotated]) simp
  have cmp: "KERNEL_BASE + of_nat x < KERNEL_BASE + of_nat y \<longleftrightarrow> x < y" if "x \<le> 2 ^ 30" "y \<le> 2 ^ 30" for x y
    unfolding word_less_nat_alt kernel_offset(2) [OF that(1)] kernel_offset(2) [OF that(2)] by simp
  have first: "align_down (text_start il) PAGE_4K > KERNEL_BASE \<longleftrightarrow> 0 < ts"
    using cmp [of 0 ts] le(1) unfolding A(9) by simp
  have last: "KERNEL_BASE + kernel_window_size il > align_up (kernel_end_sym il) PAGE_4K \<longleftrightarrow> pe < win"
    using cmp [of pe win] A(4) W(2) unfolding A(14) W(5) by simp
  let ?u1 = "if align_down (text_start il) PAGE_4K > KERNEL_BASE
    then unmap_range root KERNEL_BASE (align_down (text_start il) PAGE_4K - KERNEL_BASE) SIZE_4K ignore_removed else mm_ok ()"
  let ?u2 = "if KERNEL_BASE + kernel_window_size il > align_up (kernel_end_sym il) PAGE_4K
    then unmap_range root (align_up (kernel_end_sym il) PAGE_4K)
      (KERNEL_BASE + kernel_window_size il - align_up (kernel_end_sym il) PAGE_4K) SIZE_4K ignore_removed else mm_ok ()"
  have u1: "stage root ft (\<lambda>s. mapped_between s 0 ts) (unmap_part 0 ts) 6 ?u1"
    by (rule unmap_stage_if [OF _ le(1) _ A(5) first]) (simp_all add: A(9))
  have u2: "stage root ft (\<lambda>s. mapped_between s pe win) (unmap_part pe win) 6 ?u2"
    by (rule unmap_stage_if [OF W(1,2) A(8) w4 last A(14)]) (use W(1) in \<open>simp add: A(14) W(5)\<close>)
  define mapped where "mapped = (\<lambda>s. mapped_between s 0 win)"
  have sub: "mapped s \<Longrightarrow> b \<le> win \<Longrightarrow> mapped_between s a b" for s a b
    unfolding mapped_def using mapped_between_parts(1) [of s 0 win] by simp
  have keep: "mapped s \<Longrightarrow> mapped (protect_part ft c d p s)" for s c d p
    unfolding mapped_def by (simp add: mapped_between_parts(2))
  have rest: "mapped s \<Longrightarrow> mapped_between (unmap_part 0 ts s) pe win" for s
    unfolding mapped_def using mapped_between_parts(1) [of s 0 win pe win] mapped_between_parts(3) [of s pe win ts 0] A(1-3) W(2) by simp
  have b: "pe \<le> win" "ds \<le> win" "rs \<le> win" "ts \<le> win" using A(1-3) W(1) by linarith+
  have t1: "stage root ft mapped (unmap_part 0 ts) 6 ?u1" by (rule stage_mono [OF u1]) (use sub b in auto)
  have p1: "stage root ft mapped (protect_part ft ds pe KERNEL_DATA) (3 * ((pe - ds) div 4096))
      (protect_region root (data_rel_ro_start il) (kernel_end_sym il) KERNEL_DATA)"
    by (rule stage_mono [OF protect_region_stage [OF A(3,4,7,8) A(13,14)]]) (use sub b in auto)
  have p2: "stage root ft mapped (protect_part ft rs ds KERNEL_RODATA) (3 * ((ds - rs) div 4096))
      (protect_region root (rodata_start il) (rodata_end il) KERNEL_RODATA)"
    by (rule stage_mono [OF protect_region_stage [OF A(2) le(3) A(6,7) A(11,12)]]) (use sub b in auto)
  have p3: "stage root ft mapped (protect_part ft ts rs KERNEL_TEXT) (3 * ((rs - ts) div 4096))
      (protect_region root (text_start il) (text_end il) KERNEL_TEXT)"
    by (rule stage_mono [OF protect_region_stage [OF A(1) le(2) A(5,6) A(9,10)]]) (use sub b in auto)
  note step = stage_ktry [OF p1 stage_ktry [OF p2 stage_ktry [OF p3
    stage_ktry [OF t1 stage_ktry [OF u2 stage_none] ]]]]
  have chain: "stage root ft mapped (image_map il ft)
      (3 * ((pe - ds) div 4096) + (3 * ((ds - rs) div 4096) + (3 * ((rs - ts) div 4096) + (6 + (6 + 0)))))
      (protect_image il root)"
    unfolding image_map_def protect_image_def Let_def D [symmetric]
    by (rule step) (auto intro: keep rest)
  have cost: "3 * ((pe - ds) div 4096) + (3 * ((ds - rs) div 4096) + (3 * ((rs - ts) div 4096) + (6 + (6 + 0)))) \<le>
      3 * (pe div 4096) + 12"
  proof -
    have div: "x = 4096 * (x div 4096)" if "4096 dvd x" for x :: nat using that by simp
    have "4096 * ((pe - ds) div 4096) = pe - ds" "4096 * ((ds - rs) div 4096) = ds - rs" "4096 * ((rs - ts) div 4096) = rs - ts"
        "4096 * (pe div 4096) = pe"
      using div [of "pe - ds"] div [of "ds - rs"] div [of "rs - ts"] div [of pe] A(5-8) by (simp_all add: dvd_diff_nat)
    then show ?thesis using A(1-3) by linarith
  qed
  show ?thesis unfolding D [symmetric] mapped_def [symmetric] by (rule stage_mono [OF chain _ cost])
qed

lemma image_map_eval:
  assumes L: "linker_layout il"
    and s: "\<And>va. in_part 0 (unat (kernel_window_size il)) va \<Longrightarrow> \<exists>q. s va = Some (va - KERNEL_BASE, q)"
  shows "image_map il ft s va =
    (if in_part 0 (unat (kernel_window_size il)) va
     then map_option (\<lambda>p. (va - KERNEL_BASE, effective_prot ft p)) (image_prot il (unat (va - KERNEL_BASE)))
     else s va)"
proof -
  define ts rs ds pe win d where D: "ts = image_offset (text_start il)" "rs = image_offset (rodata_start il)"
    "ds = image_offset (data_rel_ro_start il)" "pe = unat (physical_end il)" "win = unat (kernel_window_size il)"
    "d = unat (va - KERNEL_BASE)"
  note A = linker_layoutD(1-4) [OF L, folded D] and W = window_size(1) [OF L, folded D]
  note E = image_map_def Let_def image_prot_def unmap_part_def protect_part_def in_part_def
  show ?thesis
  proof (cases "d < win")
    case True
    then obtain q where "s va = Some (va - KERNEL_BASE, q)" using s [of va] by (auto simp: in_part_def D)
    then show ?thesis using A W True unfolding E D [symmetric] by auto
  next
    case False
    then show ?thesis using A W unfolding E D [symmetric] by auto
  qed
qed

section \<open>Bring-up\<close>

definition kernel_map :: "image_layout \<Rightarrow> boot_info \<Rightarrow> features \<Rightarrow> translation" where
  "kernel_map il boot ft va =
     (if va - KERNEL_BASE < kernel_window_size il
      then map_option (\<lambda>p. (va - KERNEL_BASE, effective_prot ft p)) (image_prot il (unat (va - KERNEL_BASE)))
      else if described boot (unat (va - DIRECT_MAP_BASE) div 2 ^ 21)
      then Some (va - DIRECT_MAP_BASE, effective_prot ft KERNEL_DATA) else None)"

lemma described_bound: "described boot q \<Longrightarrow> q < 8192"
  by (auto simp: described_def region_page_def div_less_iff_less_mult)

text \<open>The two windows are apart from each other and from the window of the virtual memory manager.\<close>

lemma windows_apart:
  assumes "unat (va - DIRECT_MAP_BASE) div 2 ^ 21 < 8192"
  shows "\<not> unat (va - KERNEL_BASE) < 2 ^ 30" "\<not> window_first \<le> unat va"
proof -
  have d: "unat (va - DIRECT_MAP_BASE) < 2 ^ 34" using assms by (simp add: div_less_iff_less_mult)
  then have va: "unat va = unat DIRECT_MAP_BASE + unat (va - DIRECT_MAP_BASE)"
    using direct_window(1) [of "va - DIRECT_MAP_BASE"] by simp
  show "\<not> unat (va - KERNEL_BASE) < 2 ^ 30"
    using mapped_window(1) [of va] va d by (auto simp: DIRECT_MAP_BASE_def KERNEL_BASE_def)
  show "\<not> window_first \<le> unat va" using va d by (simp add: DIRECT_MAP_BASE_def)
qed

lemma link_tables_building:
  assumes S: "static_layout il m"
  shows "building il (link_tables il m)" "address_space (link_tables il m) (pml4 il) va = None"
proof -
  note T = linked_tree [OF S] and F = link_tables_frame [OF S]
  have ft: "free_tables (link_tables il m) = free_tables m" using F(1) by (rule free_tables_cong)
  have "sub_inv (link_tables il m) LEVELS (pml4 il)"
    using T(1,2) S F(1) ft by (auto simp: sub_inv_def static_layout_def)
  moreover have "releasable (link_tables il m) x" if "x \<in> owned (mem (link_tables il m)) LEVELS (pml4 il)" for x
    unfolding releasable_config [OF F(2)] using that T(2) S by (auto simp: static_layout_def releasable_def in_image_def)
  ultimately show "building il (link_tables il m)" using T(4) by (simp add: building_def tree_inv_def)
  show "address_space (link_tables il m) (pml4 il) va = None" using T(3) by (simp add: address_space_xlate xlate_def)
qed

text \<open>The tables before the image is protected.\<close>

lemma filled_tables:
  fixes boot :: boot_info
  assumes S: "static_layout il m" and L: "linker_layout il"
  defines "m1 \<equiv> fill_direct_map il boot (fill_2m (kernel_pd il) KERNEL_BASE 0 (kernel_window_size il)
      (WRITE OR EXEC OR GLOBAL) (link_tables il m))"
  shows "tree_inv m1 (pml4 il)" "same_config m m1" "m_pmm m1 = m_pmm m"
    "address_space m1 (pml4 il) va =
       (if in_part 0 (unat (kernel_window_size il)) va
        then Some (va - KERNEL_BASE, effective_prot (feats m) (WRITE OR EXEC OR GLOBAL))
        else if described boot (unat (va - DIRECT_MAP_BASE) div 2 ^ 21)
        then Some (va - DIRECT_MAP_BASE, effective_prot (feats m) KERNEL_DATA) else None)"
proof -
  let ?m0 = "link_tables il m" and ?p = "WRITE OR EXEC OR GLOBAL"
  define mk where "mk = fill_2m (kernel_pd il) KERNEL_BASE 0 (kernel_window_size il) ?p ?m0"
  note B = link_tables_building [OF S] and W = window_size [OF L]
  have n: "unat (kernel_window_size il) div 2 ^ 21 \<le> 512" using div_le_mono [OF W(2), of "2 ^ 21"] by simp
  have K: "building il mk" "same_config ?m0 mk" "m_pmm mk = m_pmm ?m0"
      "\<And>va. address_space mk (pml4 il) va =
         (if unat (va - KERNEL_BASE) div 2 ^ 21 < unat (kernel_window_size il) div 2 ^ 21
          then Some (va - KERNEL_BASE, effective_prot (feats ?m0) ?p) else None)"
    using fill_kernel_window [OF S B(1) n mk_def [unfolded fill_2m_alt W(4)]] B(2) by auto
  have m1: "m1 = fold (fill_direct_region il) (v_contents (memory_map boot)) mk"
    by (simp add: m1_def mk_def fill_direct_map_def)
  note R = fill_regions [OF S K(1), of "v_contents (memory_map boot)", folded m1 described_def]
  have cfg: "same_config m ?m0" "m_pmm ?m0 = m_pmm m" using link_tables_frame [OF S] by simp_all
  have ft: "feats ?m0 = feats m" "feats mk = feats m" using cfg K(2) by (simp_all add: same_config_def)
  show "tree_inv m1 (pml4 il)" "same_config m m1" "m_pmm m1 = m_pmm m"
    using R K(2,3) cfg by (auto simp: building_def same_config_def)
  have win: "unat (va - KERNEL_BASE) div 2 ^ 21 < unat (kernel_window_size il) div 2 ^ 21 \<longleftrightarrow>
      in_part 0 (unat (kernel_window_size il)) va"
    using W(3) by (auto simp: in_part_def div_less_iff_less_mult elim!: dvdE)
  have "in_part 0 (unat (kernel_window_size il)) va \<Longrightarrow> \<not> described boot (unat (va - DIRECT_MAP_BASE) div 2 ^ 21)"
    using windows_apart(1) [of va] described_bound W(2) by (fastforce simp: in_part_def)
  then show "address_space m1 (pml4 il) va =
       (if in_part 0 (unat (kernel_window_size il)) va
        then Some (va - KERNEL_BASE, effective_prot (feats m) ?p)
        else if described boot (unat (va - DIRECT_MAP_BASE) div 2 ^ 21)
        then Some (va - DIRECT_MAP_BASE, effective_prot (feats m) KERNEL_DATA) else None)"
    using R K(4) [of va] win ft by simp
qed

lemma map_write_exec:
  assumes "nx_enabled ft" "kernel_map il boot ft va = Some (pa, p)"
  shows "\<not> (has p WRITE \<and> has p EXEC)"
proof -
  have "p = effective_prot ft KERNEL_TEXT \<or> p = effective_prot ft KERNEL_RODATA \<or> p = effective_prot ft KERNEL_DATA"
    using assms(2) by (auto simp: kernel_map_def image_prot_def split: if_splits)
  then show ?thesis
    using assms(1) by (elim disjE) (simp_all add: effective_prot_def has_iff bit_or_iff bit_and_iff bit_prot_flags
      KERNEL_TEXT_def KERNEL_RODATA_def KERNEL_DATA_def)
qed

text \<open>Nothing of the virtual memory manager's window is mapped, so its empty table is true.\<close>

lemma kernel_map_boot_state:
  assumes inv: "tree_inv m root" and L: "linker_layout il" and as: "address_space m root = kernel_map il boot ft"
  shows "kernel_inv root vmm_boot_state m"
proof -
  have "kernel_map il boot ft va = None" if w: "window_first \<le> unat va" "unat va < window_last" for va
  proof -
    have "\<not> va - KERNEL_BASE < kernel_window_size il"
    proof
      assume "va - KERNEL_BASE < kernel_window_size il"
      then have "unat (va - KERNEL_BASE) < 2 ^ 30" using window_size(2) [OF L] by (simp add: word_less_nat_alt)
      from mapped_window(1) [OF this] show False using w(2) by (simp add: KERNEL_BASE_def)
    qed
    moreover have "\<not> described boot (unat (va - DIRECT_MAP_BASE) div 2 ^ 21)"
      using windows_apart(2) [of va] described_bound w(1) by blast
    ultimately show ?thesis by (simp add: kernel_map_def)
  qed
  then show ?thesis
    using inv by (simp add: kernel_inv_def vmm_boot_inv vmm_pages_def backed_def as)
qed

lemma flush_keeps [simp]: "cr3 (flush_all_global c) = cr3 c" "cr0 (flush_all_global c) = cr0 c"
  by (simp_all add: flush_all_global_def flush_all_def write_cr3_def write_cr4_def Let_def)

lemma init_kernel_space_spec:
  assumes S: "static_layout il m" and L: "linker_layout il"
  obtains r m' c' where "init_kernel_space cpuid il boot (m, c) = Return (r, m', c')" "tree_inv m' (pml4 il)" "cr3 c' = pml4 il"
    "feats m' = fst (enable_paging_features cpuid (feats m, c))"
    "\<not> isl r \<Longrightarrow> address_space m' (pml4 il) = kernel_map il boot (feats m')"
    "\<not> isl r \<Longrightarrow> cr0 c' AND CR0_WRITE_PROTECT \<noteq> 0"
    "3 * (unat (physical_end il) div 4096) + 12 \<le> avail m \<Longrightarrow> \<not> isl r"
proof -
  obtain ft c1 where E: "enable_paging_features cpuid (feats m, c) = (ft, c1)" by force
  let ?m = "m\<lparr>feats := ft\<rparr>" and ?root = "pml4 il"
  define m1 where "m1 = fill_direct_map il boot (fill_2m (kernel_pd il) KERNEL_BASE 0 (kernel_window_size il)
      (WRITE OR EXEC OR GLOBAL) (link_tables il ?m))"
  have S': "static_layout il ?m" using S by (simp add: static_layout_def in_image_def free_tables_def)
  note T = filled_tables [OF S' L, of boot, folded m1_def]
  have ft1: "feats m1 = ft" using T(2) by (simp add: same_config_def)
  let ?s = "address_space m1 ?root"
  have win: "\<exists>q. ?s va = Some (va - KERNEL_BASE, q)" if "in_part 0 (unat (kernel_window_size il)) va" for va
    using T(4) [of va] that by simp
  have "mapped_between ?s 0 (unat (kernel_window_size il))"
  proof -
    have "in_part 0 (unat (kernel_window_size il)) (KERNEL_BASE + of_nat i)" if "i < unat (kernel_window_size il)" for i
      using that kernel_offset(3) [of i] window_size(2) [OF L] by (simp add: in_part_def)
    then show ?thesis using win by (force simp: mapped_between_def)
  qed
  then obtain r m2 where P: "protect_image il ?root m1 = Return (r, m2)" "tree_inv m2 ?root" "same_config m1 m2"
      "\<not> isl r \<Longrightarrow> address_space m2 ?root = image_map il ft ?s"
      "3 * (unat (physical_end il) div 4096) + 12 \<le> avail m1 \<Longrightarrow> \<not> isl r"
    using stageE [OF protect_image_stage [OF L] T(1) ft1] by blast
  have ft2: "feats m2 = ft" using P(3) ft1 by (simp add: same_config_def)
  have map: "address_space m2 ?root = kernel_map il boot ft" if "\<not> isl r"
  proof
    fix va
    have "image_map il ft ?s va =
        (if in_part 0 (unat (kernel_window_size il)) va
         then map_option (\<lambda>p. (va - KERNEL_BASE, effective_prot ft p)) (image_prot il (unat (va - KERNEL_BASE))) else ?s va)"
      by (rule image_map_eval [OF L win])
    then show "address_space m2 ?root va = kernel_map il boot ft va"
      unfolding P(4) [OF that] kernel_map_def using T(4) [of va] by (simp add: in_part_def word_less_nat_alt)
  qed
  have av: "avail m1 = avail m" using T(3) by (simp add: avail_def)
  let ?c = "write_cr3 ?root c1"
  have run: "init_kernel_space cpuid il boot (m, c) =
      (case r of Err _ \<Rightarrow> Return (Err NO_USABLE_MEMORY, m2, ?c)
       | Ok _ \<Rightarrow> Return (Ok (), m2, (flush_all_global ?c)\<lparr>cr0 := cr0 (flush_all_global ?c) OR CR0_WRITE_PROTECT\<rparr>))"
    using P(1) E by (simp add: init_kernel_space_def m1_def [symmetric] Let_def split: sum.splits)
  have wp: "(x OR CR0_WRITE_PROTECT) AND CR0_WRITE_PROTECT \<noteq> 0" for x
    by (simp add: CR0_WRITE_PROTECT_def word_nonzero_bit bit_simps)
  show thesis
  proof (cases r)
    case (Inl e)
    show thesis by (rule that [of "Err NO_USABLE_MEMORY" m2 ?c])
      (use run P(2,5) Inl E ft2 av in \<open>auto simp: write_cr3_def\<close>)
  next
    case (Inr u)
    show thesis by (rule that [OF run [unfolded Inr sum.case] P(2)])
      (use P(5) Inr E ft2 av map wp in \<open>auto simp: write_cr3_def\<close>)
  qed
qed

text \<open>
  C6: Bringing up the MMU on the image the linker lays out never panics, leaves a well-formed
  tree and loads it. With three frames per page of the image and twelve more free it succeeds.
  Then the address space is exactly the intended one: text executable and read-only,
  read-only data neither writable nor executable, data writable, the rest of the kernel
  window unmapped, every 2 MiB page of described memory in the direct map and nothing else;
  no page is both writable and executable where the processor can forbid it, write
  protection is on, and the virtual memory manager's invariant holds for its empty table.
\<close>

theorem init_kernel_space_correct:
  assumes "static_layout il m" "linker_layout il"
  shows "\<exists>r m' c'. init_kernel_space cpuid il boot (m, c) = Return (r, m', c') \<and>
    tree_inv m' (pml4 il) \<and> cr3 c' = pml4 il \<and>
    (3 * (unat (physical_end il) div 4096) + 12 \<le> avail m \<longrightarrow> \<not> isl r) \<and>
    (\<not> isl r \<longrightarrow>
       address_space m' (pml4 il) = kernel_map il boot (feats m') \<and>
       kernel_inv (pml4 il) vmm_boot_state m' \<and> cr0 c' AND CR0_WRITE_PROTECT \<noteq> 0 \<and>
       (nx_enabled (feats m') \<longrightarrow>
          (\<forall>va pa p. address_space m' (pml4 il) va = Some (pa, p) \<longrightarrow> \<not> (has p WRITE \<and> has p EXEC))))"
proof -
  obtain r m' c' where I: "init_kernel_space cpuid il boot (m, c) = Return (r, m', c')" "tree_inv m' (pml4 il)" "cr3 c' = pml4 il"
      "\<not> isl r \<Longrightarrow> address_space m' (pml4 il) = kernel_map il boot (feats m')"
      "\<not> isl r \<Longrightarrow> cr0 c' AND CR0_WRITE_PROTECT \<noteq> 0"
      "3 * (unat (physical_end il) div 4096) + 12 \<le> avail m \<Longrightarrow> \<not> isl r"
    using init_kernel_space_spec [OF assms] by metis
  have "kernel_inv (pml4 il) vmm_boot_state m'" if "\<not> isl r"
    by (rule kernel_map_boot_state [OF I(2) assms(2) I(4) [OF that]])
  moreover have "\<not> (has p WRITE \<and> has p EXEC)"
    if "\<not> isl r" "nx_enabled (feats m')" "address_space m' (pml4 il) va = Some (pa, p)" for va pa p
    using map_write_exec [OF that(2)] that(3) I(4) [OF that(1)] by metis
  ultimately show ?thesis using I by (intro exI [of _ r] exI [of _ m'] exI [of _ c']) blast
qed

definition sample_image :: image_layout where
  "sample_image =
     \<lparr>pml4 = 0x102000, kernel_pdpt = 0x103000, kernel_pd = 0x104000, direct_pdpt = 0x105000, direct_pds = 0x106000,
      physical_end = 0x200000, text_start = KERNEL_BASE + 0x100000, text_end = KERNEL_BASE + 0x100800,
      rodata_start = KERNEL_BASE + 0x101000, rodata_end = KERNEL_BASE + 0x101800,
      data_rel_ro_start = KERNEL_BASE + 0x102000, kernel_end_sym = KERNEL_BASE + 0x200000\<rparr>"

lemma sample_image_layout: "linker_layout sample_image" "static_layout sample_image empty_machine"
proof -
  show "linker_layout sample_image" by (simp add: linker_layout_def image_offset_def sample_image_def)
  have dp: "unat (direct_pd sample_image i) = 0x106000 + i * 4096" if "i < 16" for i
    using that by (simp add: direct_pd_def sample_image_def pages_pow unat_word_ariths unat_of_nat)
  have tabs: "unat x \<in> {0x102000..<0x200000} \<and> 4096 dvd unat x" if "x \<in> set (static_tables sample_image)" for x
    using that dp by (auto simp: static_tables_def direct_pd_count) (auto simp: sample_image_def)
  have inj: "i = j" if "direct_pd sample_image i = direct_pd sample_image j" "i < 16" "j < 16" for i j
    using arg_cong [OF that(1), of unat] dp that(2,3) by simp
  have "distinct (map (direct_pd sample_image) [0..<16])"
    using inj by (simp add: distinct_map inj_on_def)
  moreover have "direct_pd sample_image i \<noteq> x" if "x \<in> {0x102000, 0x103000, 0x104000, 0x105000}" "i < 16" for i and x :: u64
    using that(1) dp [OF that(2)] by (auto simp: word_unat_eq_iff)
  ultimately have "distinct (static_tables sample_image)"
    by (auto simp: static_tables_def direct_pd_count) (auto simp: sample_image_def)
  moreover have "x \<notin> free_tables empty_machine" if "x \<in> set (static_tables sample_image)" for x
    using tabs [OF that] by (auto simp: free_tables_def empty_machine_def sample_pmm)
  moreover have "frame_address x \<and> in_image empty_machine x" if "x \<in> set (static_tables sample_image)" for x
    using tabs [OF that] by (simp add: frame_address_iff in_image_def word_le_nat_alt word_less_nat_alt empty_machine_def)
  ultimately show "static_layout sample_image empty_machine"
    by (simp add: static_layout_def) (simp add: empty_machine_def sample_pmm)
qed

theorem init_kernel_space_correct_witness:
  "\<exists>m' c'. init_kernel_space (\<lambda>_. \<lparr>c_eax = 0x80000001, c_ebx = 0, c_ecx = 0, c_edx = 0x100000\<rparr>) sample_image sample_boot
       (empty_machine, \<lparr>cr0 = 0, cr3 = 0, cr4 = 0, efer = 0, tlb_global_flushes = 0, tlb_flushes = 0\<rparr>) = Return (Ok (), m', c') \<and>
     kernel_inv 0x102000 vmm_boot_state m' \<and> address_space m' 0x102000 KERNEL_BASE = None \<and>
     address_space m' 0x102000 (KERNEL_BASE + 0x100000) = Some (0x100000, effective_prot (feats m') KERNEL_TEXT)"
proof -
  let ?cpuid = "\<lambda>_. \<lparr>c_eax = 0x80000001, c_ebx = 0, c_ecx = 0, c_edx = 0x100000\<rparr>"
  let ?c = "\<lparr>cr0 = 0, cr3 = 0, cr4 = 0, efer = 0, tlb_global_flushes = 0, tlb_flushes = 0\<rparr>"
  have r: "pml4 sample_image = 0x102000" "3 * (unat (physical_end sample_image) div 4096) + 12 \<le> avail empty_machine"
    by (simp_all add: sample_image_def avail_def empty_machine_def sample_pmm)
  obtain res m' c' where R: "init_kernel_space ?cpuid sample_image sample_boot (empty_machine, ?c) = Return (res, m', c')"
      "\<not> isl res" "address_space m' 0x102000 = kernel_map sample_image sample_boot (feats m')" "kernel_inv 0x102000 vmm_boot_state m'"
    using init_kernel_space_correct [OF sample_image_layout(2,1), of ?cpuid sample_boot ?c] r by metis
  have res: "res = Ok ()" using R(2) by (cases res) simp_all
  have w: "kernel_window_size sample_image = 0x200000"
    unfolding kernel_window_size_def pages_pow(1) word_unat_eq_iff
    by (subst unat_align_up) (simp_all add: sample_image_def)
  have "kernel_map sample_image sample_boot (feats m') KERNEL_BASE = None"
    "kernel_map sample_image sample_boot (feats m') (KERNEL_BASE + 0x100000) = Some (0x100000, effective_prot (feats m') KERNEL_TEXT)"
    by (simp_all add: kernel_map_def w image_prot_def) (simp_all add: sample_image_def image_offset_def)
  then show ?thesis using R(1,3,4) unfolding res by auto
qed

end
