(* ===== verification/Float_Correct.thy ===== *)
theory Float_Correct
  imports Format_Correct
begin

text \<open>
  Fixed-point printing of floating-point values: the digits are decimal digits, they fit the
  buffer, and the number they denote is the value rounded to the asked precision up to the
  rounding errors of the additions and multiplications that produce them.
\<close>

section \<open>The rounding term\<close>

definition ld_eps :: rat where "ld_eps = 1 / 2 ^ 64"

lemma ld_eps_bounds: "0 < ld_eps" "ld_eps < 1 / 100"
  by (simp_all add: ld_eps_def)

lemma ld_round_eps: "0 \<le> x \<Longrightarrow> x \<le> b \<Longrightarrow> \<bar>ld_round x - x\<bar> \<le> b * ld_eps"
  using ld_round_error [of x] divide_right_mono [of x b "2 ^ 64"] unfolding ld_eps_def by simp

lemma half_unit_le: "(1 :: rat) / (2 * 10 ^ p) \<le> 1 / 2"
  by (simp add: field_simps)

lemma float_rounding_nonneg: "0 \<le> float_rounding p"
  by (cases p) (simp_all add: ld_round_nonneg)

lemma float_rounding_error: "\<bar>float_rounding p - 1 / (2 * 10 ^ p)\<bar> \<le> ld_eps"
proof (induction p)
  case (Suc p)
  define r where "r = float_rounding p"
  define h where "h = (1 :: rat) / (2 * 10 ^ p)"
  have r: "\<bar>r - h\<bar> \<le> ld_eps" using Suc by (simp add: r_def h_def)
  then have "r / 10 \<le> 1 / 10" using half_unit_le [of p] ld_eps_bounds unfolding h_def by linarith
  then have "\<bar>ld_round (r / 10) - r / 10\<bar> \<le> 1 / 10 * ld_eps"
    using float_rounding_nonneg [of p] by (intro ld_round_eps) (simp_all add: r_def)
  moreover have "1 / (2 * 10 ^ Suc p) = h / 10" by (simp add: h_def)
  ultimately show ?case using r unfolding float_rounding.simps r_def [symmetric] by linarith
qed (simp add: ld_eps_def)

lemma float_rounding_le: "float_rounding p \<le> 1"
  using float_rounding_error [of p] half_unit_le [of p] ld_eps_bounds by linarith

lemma float_rounding_small:
  assumes "0 < p"
  shows "float_rounding p < 1 / 2"
proof -
  have "(10 :: rat) ^ 1 \<le> 10 ^ p" using assms by (intro power_increasing) simp_all
  then have "(1 :: rat) / (2 * 10 ^ p) \<le> 1 / 20" by (simp add: field_simps)
  then show ?thesis using float_rounding_error [of p] ld_eps_bounds by linarith
qed

section \<open>The digits after the point\<close>

definition decimal_nat :: "string \<Rightarrow> nat" where
  "decimal_nat = foldl (\<lambda>n c. 10 * n + (of_char c - 48)) 0"

lemma foldl_decimal:
  "foldl (\<lambda>n c. 10 * n + (of_char c - 48)) m ds = m * 10 ^ length ds + decimal_nat ds"
proof (induction ds arbitrary: m)
  case (Cons c ds)
  have "decimal_nat (c # ds) = (of_char c - 48) * 10 ^ length ds + decimal_nat ds"
    using Cons [of "of_char c - 48"] by (simp add: decimal_nat_def)
  then show ?case using Cons [of "10 * m + (of_char c - 48)"] by (simp add: algebra_simps)
qed (simp add: decimal_nat_def)

lemma decimal_nat_Cons: "decimal_nat (c # ds) = (of_char c - 48) * 10 ^ length ds + decimal_nat ds"
  using foldl_decimal [of "of_char c - 48" ds] by (simp add: decimal_nat_def)

text \<open>One step of the loop: the digit is below 10 and what remains is again a fraction.\<close>

lemma fraction_step:
  assumes "representable f" "f < 1" "y = ld_round (f * 10)" "d = (of_int \<lfloor>y\<rfloor> :: u8)" "g = ld_round (y - of_int (uint d))"
  shows "uint d = \<lfloor>y\<rfloor>" "unat d < 10" "representable g" "g < 1" "\<bar>(of_nat (unat d) + g) - f * 10\<bar> \<le> 10 * ld_eps"
proof -
  have f: "0 \<le> f" by (rule representable_nonneg [OF assms(1)])
  have y: "representable y" "0 \<le> y" "y < 10"
    using ld_round_ten_fraction [OF assms(1,2)] unfolding assms(3) by (simp_all add: representable_ld_round ld_round_nonneg)
  then have fl: "0 \<le> \<lfloor>y\<rfloor>" "\<lfloor>y\<rfloor> < 10" by (simp_all add: floor_less_iff)
  show d: "uint d = \<lfloor>y\<rfloor>" unfolding assms(4) using fl by (simp add: take_bit_int_eq_self uint_word_of_int)
  then show "unat d < 10" using fl by (simp add: unat_eq_nat_uint nat_less_iff)
  have g: "g = y - of_int \<lfloor>y\<rfloor>"
    unfolding assms(5) d by (rule ld_round_representable [OF representable_fraction [OF y(1)]])
  then show "representable g" "g < 1" using representable_fraction [OF y(1)] by (simp_all, linarith)
  have "of_nat (unat d) + g = y" using fl(1) unfolding g by (simp add: unat_eq_nat_uint d)
  moreover have "\<bar>y - f * 10\<bar> \<le> 10 * ld_eps" unfolding assms(3) using f assms(2) by (intro ld_round_eps) simp_all
  ultimately show "\<bar>(of_nat (unat d) + g) - f * 10\<bar> \<le> 10 * ld_eps" by simp
qed

lemma fraction_digits_correct:
  assumes "representable f" "f < 1"
  shows "length (fraction_digits p f) = p \<and> list_all is_format_digit (fraction_digits p f) \<and>
    - 2 * ld_eps \<le> f - of_nat (decimal_nat (fraction_digits p f)) / 10 ^ p \<and>
    f - of_nat (decimal_nat (fraction_digits p f)) / 10 ^ p \<le> 1 / 10 ^ p + 2 * ld_eps"
  using assms
proof (induction p arbitrary: f)
  case 0
  then show ?case using representable_nonneg [of f] ld_eps_bounds by (simp add: decimal_nat_def)
next
  case (Suc p)
  define y where "y = ld_round (f * 10)"
  define d where "d = (of_int \<lfloor>y\<rfloor> :: u8)"
  define g where "g = ld_round (y - of_int (uint d))"
  note S = fraction_step [OF Suc.prems y_def d_def g_def]
  have F: "fraction_digits (Suc p) f = char_of (48 + unat d) # fraction_digits p g"
    by (simp add: y_def d_def g_def Let_def)
  note I = Suc.IH [OF S(3,4)]
  have c: "of_char (char_of (48 + unat d) :: char) - (48 :: nat) = unat d" using S(2) by simp
  define q where "q = of_nat (decimal_nat (fraction_digits p g)) / (10 :: rat) ^ p"
  define t where "t = (1 :: rat) / 10 ^ p"
  define k where "k = rat_of_nat (unat d)"
  have q: "of_nat (decimal_nat (fraction_digits (Suc p) f)) / 10 ^ Suc p = (k + q) / 10" and t: "1 / 10 ^ Suc p = t / 10"
    using I unfolding F decimal_nat_Cons c q_def k_def t_def by (simp_all add: field_simps)
  have "- 2 * ld_eps \<le> g - q" "g - q \<le> t + 2 * ld_eps" using I by (simp_all add: q_def t_def)
  moreover have "k + g - f * 10 \<le> 10 * ld_eps" "f * 10 - (k + g) \<le> 10 * ld_eps"
    using S(5) unfolding k_def by (simp_all only: abs_le_iff minus_diff_eq)
  ultimately have "- 20 * ld_eps \<le> f * 10 - (k + q)" "f * 10 - (k + q) \<le> t + 20 * ld_eps"
    using ld_eps_bounds(1) by linarith+
  then have "- 2 * ld_eps \<le> f - (k + q) / 10" "f - (k + q) / 10 \<le> t / 10 + 2 * ld_eps" by (simp_all add: field_simps)
  then have "- 2 * ld_eps \<le> f - of_nat (decimal_nat (fraction_digits (Suc p) f)) / 10 ^ Suc p"
      "f - of_nat (decimal_nat (fraction_digits (Suc p) f)) / 10 ^ Suc p \<le> 1 / 10 ^ Suc p + 2 * ld_eps"
    unfolding q t .
  moreover have "length (fraction_digits (Suc p) f) = Suc p" "list_all is_format_digit (fraction_digits (Suc p) f)"
    using I digit_char(1) [OF S(2)] unfolding F by simp_all
  ultimately show ?case by blast
qed

section \<open>The printed number\<close>

text \<open>The text before padding: integer part, point and digits.\<close>

definition float_text :: "format_spec \<Rightarrow> u64 \<Rightarrow> string \<Rightarrow> string" where
  "float_text spec n ds =
     format_u64_decimal n @ (if float_precision spec > 0 \<or> f_alternate spec then ''.'' else []) @ ds"

definition float_value :: "u64 \<Rightarrow> string \<Rightarrow> rat" where
  "float_value n ds = of_nat (unat n) + of_nat (decimal_nat ds) / 10 ^ length ds"

lemma emit_fixed_float_unfold:
  assumes "presentation_value spec \<in> {P_DEFAULT, P_FIXED}" "\<bar>x\<bar> \<le> 2 ^ 64 - 1"
    and "w = ld_round (\<bar>x\<bar> + float_rounding (float_precision spec))" "w < 2 ^ 64"
  shows "emit_fixed_float spec (Finite x) =
    Some (emit_padded spec (sign_prefix spec (x < 0))
      (float_text spec (of_int \<lfloor>w\<rfloor>) (fraction_digits (float_precision spec) (w - of_int \<lfloor>w\<rfloor>))) True)"
proof -
  have w: "representable w" "0 \<le> w" unfolding assms(3) by (simp_all add: representable_ld_round ld_round_nonneg)
  have fl: "0 \<le> \<lfloor>w\<rfloor>" "\<lfloor>w\<rfloor> < 2 ^ 64" using w(2) assms(4) by (simp_all add: floor_less_iff)
  have u: "uint (of_int \<lfloor>w\<rfloor> :: u64) = \<lfloor>w\<rfloor>" using fl by (simp add: take_bit_int_eq_self uint_word_of_int)
  have "representable (of_nat (nat \<lfloor>w\<rfloor>))" using fl by (intro representable_nat) (simp add: nat_less_iff)
  then have i: "ld_round (of_int \<lfloor>w\<rfloor>) = of_int \<lfloor>w\<rfloor>" using ld_round_representable [of "of_int \<lfloor>w\<rfloor>"] fl(1) by simp
  have f: "ld_round (w - of_int \<lfloor>w\<rfloor>) = w - of_int \<lfloor>w\<rfloor>" by (rule ld_round_representable [OF representable_fraction [OF w(1)]])
  have v: "(if x < 0 then - x else x) = \<bar>x\<bar>" "\<not> \<bar>x\<bar> > 18446744073709551615" using assms(2) by simp_all
  have c: "ld_to_u64 w = Some (of_int \<lfloor>w\<rfloor>)" using assms(4) by (simp add: ld_to_u64_def)
  show ?thesis
    using assms(1) unfolding emit_fixed_float_def Let_def long_double.case v(1) if_not_P [OF v(2)] assms(3) [symmetric] c
      option.case u i f float_text_def by simp
qed

lemma float_sum_below:
  assumes "0 < p \<and> v \<le> 2 ^ 64 - 1 \<or> v < 2 ^ 64 - 1"
  shows "ld_round (v + float_rounding p) < 2 ^ 64"
proof (rule ld_round_below, cases "0 < p")
  case True
  then show "v + float_rounding p < 2 ^ 64 - 1 / 2" using float_rounding_small [of p] assms by auto
next
  case False
  then show "v + float_rounding p < 2 ^ 64 - 1 / 2" using assms by auto
qed

lemma float_value_error:
  assumes "0 \<le> v" "w = ld_round (v + float_rounding p)" "w < 2 ^ 64" "ds = fraction_digits p (w - of_int \<lfloor>w\<rfloor>)"
  shows "length ds = p" "list_all is_format_digit ds"
    "\<bar>float_value (of_int \<lfloor>w\<rfloor>) ds - v\<bar> \<le> 1 / (2 * 10 ^ p) + (v + 4) / 2 ^ 64"
proof -
  have w: "representable w" "0 \<le> w" unfolding assms(2) by (simp_all add: representable_ld_round ld_round_nonneg)
  have "0 \<le> \<lfloor>w\<rfloor>" "\<lfloor>w\<rfloor> < 2 ^ 64" using w(2) assms(3) by (simp_all add: floor_less_iff)
  then have u: "of_nat (unat (of_int \<lfloor>w\<rfloor> :: u64)) = rat_of_int \<lfloor>w\<rfloor>"
    by (simp add: unat_eq_nat_uint take_bit_int_eq_self uint_word_of_int)
  have "w - of_int \<lfloor>w\<rfloor> < 1" by linarith
  note D = fraction_digits_correct [OF representable_fraction [OF w(1)] this, of p, folded assms(4)]
  then show l: "length ds = p" "list_all is_format_digit ds" by blast+
  define q where "q = of_nat (decimal_nat ds) / (10 :: rat) ^ p"
  define t where "t = (1 :: rat) / 10 ^ p"
  define c where "c = v * ld_eps"
  define r where "r = float_rounding p"
  have V: "float_value (of_int \<lfloor>w\<rfloor>) ds = of_int \<lfloor>w\<rfloor> + q" unfolding float_value_def u l(1) q_def ..
  have "- 2 * ld_eps \<le> w - (of_int \<lfloor>w\<rfloor> + q)" "w - (of_int \<lfloor>w\<rfloor> + q) \<le> t + 2 * ld_eps"
    using D unfolding q_def t_def by (simp_all add: diff_diff_eq)
  moreover have "\<bar>w - (v + r)\<bar> \<le> c + ld_eps"
    using ld_round_eps [of "v + r" "v + 1"] assms(1) float_rounding_nonneg [of p] float_rounding_le [of p]
    unfolding assms(2) r_def c_def by (simp add: distrib_right)
  moreover have "\<bar>r - t / 2\<bar> \<le> ld_eps" using float_rounding_error [of p] by (simp add: r_def t_def mult.commute)
  ultimately have "\<bar>(of_int \<lfloor>w\<rfloor> + q) - v\<bar> \<le> t / 2 + (c + 4 * ld_eps)" unfolding abs_le_iff by linarith
  moreover have "t / 2 = 1 / (2 * 10 ^ p)" "c + 4 * ld_eps = (v + 4) / 2 ^ 64"
    by (simp_all add: t_def c_def ld_eps_def field_simps)
  ultimately show "\<bar>float_value (of_int \<lfloor>w\<rfloor>) ds - v\<bar> \<le> 1 / (2 * 10 ^ p) + (v + 4) / 2 ^ 64" unfolding V by simp
qed

section \<open>Precision and the buffer\<close>

definition precision_ok :: "format_spec \<Rightarrow> bool" where
  "precision_ok s \<longleftrightarrow> (f_has_precision s \<longrightarrow> f_precision s \<le> MAX_FLOAT_PRECISION)"

lemma parse_steps_precision:
  "parse_alignment fmt index spec = (i, s) \<Longrightarrow> precision_ok spec \<Longrightarrow> precision_ok s"
  "parse_sign fmt index spec = (i, s) \<Longrightarrow> precision_ok spec \<Longrightarrow> precision_ok s"
  "parse_alternate fmt index spec = (i, s) \<Longrightarrow> precision_ok spec \<Longrightarrow> precision_ok s"
  "parse_zero_pad fmt index spec = (i, s) \<Longrightarrow> precision_ok spec \<Longrightarrow> precision_ok s"
  "parse_width fmt index spec = Some (i, s) \<Longrightarrow> precision_ok spec \<Longrightarrow> precision_ok s"
  "parse_precision fmt index spec = Some (i, s) \<Longrightarrow> precision_ok spec \<Longrightarrow> precision_ok s"
  "parse_type fmt index spec = Some (i, s) \<Longrightarrow> precision_ok spec \<Longrightarrow> precision_ok s"
  by (auto simp: precision_ok_def parse_alignment_def parse_sign_def parse_alternate_def parse_zero_pad_def
      parse_width_def parse_precision_def parse_type_def Let_def split: prod.splits if_splits option.splits)

lemma parse_field_precision:
  assumes "ff_valid (parse_field_at fmt offset)"
  shows "precision_ok (ff_spec (parse_field_at fmt offset))"
proof -
  have d: "precision_ok default_format_spec" by (simp add: precision_ok_def default_format_spec_def)
  then show ?thesis using assms
    by (auto simp: parse_field_at_def invalid_format_field_def Let_def
        split: prod.splits if_splits option.splits) (metis parse_steps_precision)
qed

lemma float_precision_le:
  assumes "ff_valid (parse_field_at fmt offset)"
  shows "float_precision (ff_spec (parse_field_at fmt offset)) \<le> 18"
  using parse_field_precision [OF assms]
  by (simp add: precision_ok_def float_precision_def MAX_FLOAT_PRECISION_def word_le_nat_alt)

lemma float_text_fits: "length ds \<le> 18 \<Longrightarrow> length (float_text spec n ds) \<le> 39"
  using decimal_round_trip [of n] by (simp add: float_text_def)

text \<open>
  C35: A field the parser accepted prints a finite floating-point value of magnitude at most
  2^64 - 1 as its sign, the integer part in decimal, and exactly as many decimal digits as the
  precision asks (six by default); the text before padding has at most 39 characters, so the
  64-byte buffer is never overrun. The number printed differs from the value by at most
  half a unit of the last digit plus (value + 4) / 2^64, the rounding errors of the 64-bit
  significand. The one exception is precision 0 at the largest magnitude, where adding one half
  rounds to 2^64.
\<close>

theorem fixed_float_accurate:
  assumes "ff_valid (parse_field_at fmt offset)" "spec = ff_spec (parse_field_at fmt offset)"
    and "presentation_value spec \<in> {P_DEFAULT, P_FIXED}" "\<bar>x\<bar> \<le> 2 ^ 64 - 1"
    and "0 < float_precision spec \<or> \<bar>x\<bar> < 2 ^ 64 - 1"
  shows "\<exists>n ds. emit_value spec (Arg_float (Finite x)) =
      Some (emit_padded spec (sign_prefix spec (x < 0)) (float_text spec n ds) True) \<and>
    length ds = float_precision spec \<and> list_all is_format_digit ds \<and> length (float_text spec n ds) \<le> 39 \<and>
    \<bar>float_value n ds - \<bar>x\<bar>\<bar> \<le> 1 / (2 * 10 ^ float_precision spec) + (\<bar>x\<bar> + 4) / 2 ^ 64"
proof -
  define w where "w = ld_round (\<bar>x\<bar> + float_rounding (float_precision spec))"
  define ds where "ds = fraction_digits (float_precision spec) (w - of_int \<lfloor>w\<rfloor>)"
  have w: "w < 2 ^ 64" unfolding w_def using assms(4,5) by (intro float_sum_below) blast
  note E = float_value_error [OF abs_ge_zero w_def w ds_def]
  have "length ds \<le> 18" using float_precision_le [OF assms(1)] unfolding E(1) assms(2) [symmetric] .
  then have "length (float_text spec (of_int \<lfloor>w\<rfloor>) ds) \<le> 39" by (rule float_text_fits)
  moreover have "emit_value spec (Arg_float (Finite x)) =
      Some (emit_padded spec (sign_prefix spec (x < 0)) (float_text spec (of_int \<lfloor>w\<rfloor>) ds) True)"
    using emit_fixed_float_unfold [OF assms(3,4) w_def w] by (simp add: ds_def)
  ultimately show ?thesis using E by blast
qed

theorem fixed_float_accurate_witness:
  "\<exists>n ds. emit_value (ff_spec (parse_field_at ''{:.2f}'' 0)) (Arg_float (Finite (- 5 / 2))) =
      Some (emit_padded (ff_spec (parse_field_at ''{:.2f}'' 0)) (sign_prefix (ff_spec (parse_field_at ''{:.2f}'' 0)) (- 5 / 2 < (0 :: rat)))
        (float_text (ff_spec (parse_field_at ''{:.2f}'' 0)) n ds) True) \<and>
    length ds = float_precision (ff_spec (parse_field_at ''{:.2f}'' 0)) \<and> list_all is_format_digit ds \<and>
    length (float_text (ff_spec (parse_field_at ''{:.2f}'' 0)) n ds) \<le> 39 \<and>
    \<bar>float_value n ds - \<bar>- 5 / 2\<bar>\<bar> \<le>
      1 / (2 * 10 ^ float_precision (ff_spec (parse_field_at ''{:.2f}'' 0))) + (\<bar>- 5 / 2\<bar> + 4) / 2 ^ 64"
proof (rule fixed_float_accurate [OF _ refl])
  show "ff_valid (parse_field_at ''{:.2f}'' 0)" by code_simp
  show "presentation_value (ff_spec (parse_field_at ''{:.2f}'' 0)) \<in> {P_DEFAULT, P_FIXED}" by code_simp
  show "\<bar>- 5 / 2 :: rat\<bar> \<le> 2 ^ 64 - 1" "0 < float_precision (ff_spec (parse_field_at ''{:.2f}'' 0)) \<or> \<bar>- 5 / 2 :: rat\<bar> < 2 ^ 64 - 1"
    by simp_all
qed

section \<open>Printing without digits\<close>

text \<open>
  Precision 0 adds one half, which from 2^63 on is half a unit of the significand: the sum is
  rounded to even, so an odd integer is printed as its successor, and the largest value is
  rounded to 2^64, whose conversion to an integer is undefined.
\<close>

lemma zero_precision_large:
  "emit_value (ff_spec (parse_field_at ''{:.0f}'' 0)) (Arg_float (Finite 9223372036854775809)) = Some ''9223372036854775810''"
  "emit_value (ff_spec (parse_field_at ''{:.0f}'' 0)) (Arg_float (Finite 18446744073709551615)) = None"
  by code_simp+

end
