(* ===== verification/Cast.thy ===== *)
theory Cast
  imports Prelude
begin

text \<open>
  \<^verbatim>\<open>kernel/core/cast.hpp\<close>: how \<^verbatim>\<open>auto_cast\<close> chooses a conversion, and the checked conversions
  of pointers to polymorphic objects. What the compiler knows of the two types is a record;
  \<^verbatim>\<open>dynamic_cast\<close> and the conversion back to the source type are functions on addresses.
\<close>

record cast_types =
  to_is_void :: bool
  same_object :: bool
  from_base_of_to :: bool
  to_is_class :: bool
  to_complete :: bool
  to_is_polymorphic :: bool
  from_is_class :: bool
  from_complete :: bool
  from_is_polymorphic :: bool
  static_castable :: bool
  dynamic_castable :: bool
  reinterpret_castable :: bool

definition possibly_polymorphic :: "bool \<Rightarrow> bool \<Rightarrow> bool \<Rightarrow> bool" where
  "possibly_polymorphic is_class is_complete is_polymorphic \<longleftrightarrow> is_class \<and> (\<not> is_complete \<or> is_polymorphic)"

definition permitted_reinterpret :: "cast_types \<Rightarrow> bool" where
  "permitted_reinterpret t \<longleftrightarrow>
     reinterpret_castable t \<and>
     \<not> (possibly_polymorphic (to_is_class t) (to_complete t) (to_is_polymorphic t) \<and>
        possibly_polymorphic (from_is_class t) (from_complete t) (from_is_polymorphic t))"

definition checked_downcastable :: "cast_types \<Rightarrow> bool" where
  "checked_downcastable t \<longleftrightarrow>
     static_castable t \<and> dynamic_castable t \<and> \<not> same_object t \<and> from_base_of_to t"

datatype cast_strategy = Discard | Checked_Downcast | Static | Dynamic | Reinterpret

text \<open>\<open>None\<close>: the final \<^verbatim>\<open>static_assert\<close> fails.\<close>

definition auto_cast :: "bool \<Rightarrow> cast_types \<Rightarrow> cast_strategy option" where
  "auto_cast rtti_enabled t =
     (if to_is_void t then Some Discard
      else if rtti_enabled \<and> checked_downcastable t then Some Checked_Downcast
      else if static_castable t then Some Static
      else if rtti_enabled \<and> dynamic_castable t then Some Dynamic
      else if permitted_reinterpret t then Some Reinterpret
      else None)"

text \<open>
  The conversions that run, on addresses with 0 for null; \<open>None\<close> is the trap. A reference is
  the address of its object.
\<close>

definition checked_pointer :: "(u64 \<Rightarrow> u64) \<Rightarrow> (u64 \<Rightarrow> u64) \<Rightarrow> u64 \<Rightarrow> u64 option" where
  "checked_pointer dyn source_view source =
     (if source = 0 then Some 0
      else let result = dyn source
           in if result = 0 \<or> source_view result \<noteq> source then None else Some result)"

definition checked_downcast :: "bool \<Rightarrow> (u64 \<Rightarrow> u64) \<Rightarrow> (u64 \<Rightarrow> u64) \<Rightarrow> u64 \<Rightarrow> u64 option" where
  "checked_downcast to_pointer dyn source_view v =
     (if to_pointer then checked_pointer dyn source_view v
      else (case checked_pointer dyn source_view v of None \<Rightarrow> None | Some result \<Rightarrow> Some result))"

definition dynamic_cast_or_trap :: "bool \<Rightarrow> (u64 \<Rightarrow> u64) \<Rightarrow> u64 \<Rightarrow> u64 option" where
  "dynamic_cast_or_trap to_pointer dyn v =
     (if to_pointer then Some (dyn v) else if dyn v = 0 then None else Some (dyn v))"

text \<open>
  Two types that may both be polymorphic are never reinterpreted. In the kernel, which is
  built without run-time type information, no cast can trap.
\<close>

theorem auto_cast_safe:
  "auto_cast rtti t = Some Reinterpret \<Longrightarrow>
     \<not> (possibly_polymorphic (to_is_class t) (to_complete t) (to_is_polymorphic t) \<and>
        possibly_polymorphic (from_is_class t) (from_complete t) (from_is_polymorphic t))"
  "auto_cast False t \<noteq> Some Checked_Downcast" "auto_cast False t \<noteq> Some Dynamic"
  by (auto simp: auto_cast_def permitted_reinterpret_def split: if_splits)

text \<open>
  A downcast that returns gives null for null and otherwise an object whose base is the one
  it was given; when the base has an object of the target type, it is found.
\<close>

theorem checked_downcast_exact:
  shows "checked_downcast b dyn source_view s = Some p \<longleftrightarrow>
           (if s = 0 then p = 0 else p = dyn s \<and> p \<noteq> 0 \<and> source_view p = s)"
    and "checked_downcast b dyn source_view s = None \<longleftrightarrow> s \<noteq> 0 \<and> (dyn s = 0 \<or> source_view (dyn s) \<noteq> s)"
  by (auto simp: checked_downcast_def checked_pointer_def Let_def split: if_splits option.splits)

end
