(* ===== verification/Registers.thy ===== *)
theory Registers
  imports Prelude
begin

text \<open>
  \<^verbatim>\<open>arch/x86_64/cpu/registers.hpp\<close>: the accessors of control, segment and model-specific
  registers, with the instructions' effect on the registers of one processor; and the linker
  sections of \<^verbatim>\<open>uk/registry.hpp\<close>.
\<close>

section \<open>Register access\<close>

datatype control_register = Cr0 | Cr2 | Cr3 | Cr4

datatype segment_register = Seg_cs | Seg_ds | Seg_es | Seg_fs | Seg_gs | Seg_ss

text \<open>A model-specific register is the pair of halves that \<^verbatim>\<open>rdmsr\<close> and \<^verbatim>\<open>wrmsr\<close> exchange, high half first.\<close>

record machine_regs =
  control_regs :: "control_register \<Rightarrow> u64"
  segment_regs :: "segment_register \<Rightarrow> u16"
  msr_regs :: "u32 \<Rightarrow> u32 \<times> u32"

definition x86_crs_writable :: "control_register list" where "x86_crs_writable = [Cr0, Cr3, Cr4]"

definition read_cr :: "control_register \<Rightarrow> machine_regs \<Rightarrow> u64" where
  "read_cr name m = control_regs m name"

definition read_seg :: "segment_register \<Rightarrow> machine_regs \<Rightarrow> u16" where
  "read_seg name m = segment_regs m name"

text \<open>Only the writable registers have a write function.\<close>

definition write_cr :: "control_register \<Rightarrow> u64 \<Rightarrow> machine_regs \<Rightarrow> machine_regs option" where
  "write_cr name v m =
     (if name \<in> set x86_crs_writable then Some (m\<lparr>control_regs := (control_regs m)(name := v)\<rparr>) else None)"

definition MSR_EFER :: u32 where "MSR_EFER = 0xC0000080"

definition read_msr :: "u32 \<Rightarrow> machine_regs \<Rightarrow> u64" where
  "read_msr msr m = (let (high, low) = msr_regs m msr in push_bit 32 (ucast high) OR ucast low)"

definition write_msr :: "u32 \<Rightarrow> u64 \<Rightarrow> machine_regs \<Rightarrow> machine_regs" where
  "write_msr msr v m = m\<lparr>msr_regs := (msr_regs m)(msr := (ucast (drop_bit 32 v), ucast v))\<rparr>"

lemma halves_join: "push_bit 32 (ucast (ucast (drop_bit 32 v) :: u32)) OR ucast (ucast v :: u32) = (v :: u64)"
  by (rule bit_word_eqI) (auto simp: bit_simps not_less)

lemma halves_split:
  "ucast (drop_bit 32 (push_bit 32 (ucast h) OR ucast l :: u64)) = (h :: u32)"
  "ucast (push_bit 32 (ucast h) OR ucast l :: u64) = (l :: u32)"
  by (rule bit_word_eqI, auto simp: bit_simps dest: bit_imp_le_length)+

text \<open>
  What is written to a model-specific register is read back whole and no other register
  changes; writing back what was read changes nothing.
\<close>

theorem msr_round_trip:
  "read_msr msr (write_msr msr v m) = v"
  "msr' \<noteq> msr \<Longrightarrow> read_msr msr' (write_msr msr v m) = read_msr msr' m"
  "read_cr name (write_msr msr v m) = read_cr name m" "read_seg seg (write_msr msr v m) = read_seg seg m"
  "write_msr msr (read_msr msr m) m = m"
proof -
  show "read_msr msr (write_msr msr v m) = v" by (simp add: read_msr_def write_msr_def halves_join)
  show "msr' \<noteq> msr \<Longrightarrow> read_msr msr' (write_msr msr v m) = read_msr msr' m" by (simp add: read_msr_def write_msr_def)
  show "read_cr name (write_msr msr v m) = read_cr name m" "read_seg seg (write_msr msr v m) = read_seg seg m"
    by (simp_all add: read_cr_def read_seg_def write_msr_def)
  obtain h l where hl: "msr_regs m msr = (h, l)" by force
  then have "(msr_regs m)(msr := (h, l)) = msr_regs m" by auto
  then show "write_msr msr (read_msr msr m) m = m"
    unfolding read_msr_def write_msr_def hl Let_def case_prod_conv halves_split by simp
qed

section \<open>Linker sections\<close>

text \<open>
  The bounds of a section are weak symbols, null when no object file contributes to the
  section. \<open>stride\<close> is the size of a record.
\<close>

record section_range =
  begin_m :: u64
  end_m :: u64

definition section_begin :: "section_range \<Rightarrow> u64" where
  "section_begin r = (if begin_m r = 0 \<or> end_m r = 0 then 0 else begin_m r)"

definition section_end :: "section_range \<Rightarrow> u64" where
  "section_end r = (if begin_m r = 0 \<or> end_m r = 0 then 0 else end_m r)"

definition section_empty :: "section_range \<Rightarrow> bool" where
  "section_empty r \<longleftrightarrow> section_begin r = section_end r"

definition section_size :: "u64 \<Rightarrow> section_range \<Rightarrow> u64" where
  "section_size stride r =
     (let first = section_begin r; final = section_end r
      in if first = 0 \<or> final = 0 then 0 else (final - first) div stride)"

text \<open>A section of n records has size n; one the linker did not create is empty.\<close>

theorem section_counts_records:
  assumes "b \<noteq> 0" "0 < stride" "unat b + n * unat stride < 2 ^ 64"
    and "r = \<lparr>begin_m = b, end_m = b + of_nat n * stride\<rparr>"
  shows "unat (section_size stride r) = n" "section_empty r \<longleftrightarrow> n = 0"
    "section_size stride \<lparr>begin_m = 0, end_m = e\<rparr> = 0" "section_empty \<lparr>begin_m = 0, end_m = e\<rparr>"
proof -
  have s: "0 < unat stride" using assms(2) by (simp add: unat_gt_0 word_gt_0)
  have le: "n \<le> n * unat stride" using s by simp
  have "n < 2 ^ 64" using assms(3) le by linarith
  then have n: "unat (of_nat n :: u64) = n" by (simp add: unat_of_nat)
  have ns: "unat (of_nat n * stride) = n * unat stride" using assms(3) by (subst unat_mult_lem [THEN iffD1]) (simp_all add: n)
  have e: "unat (b + of_nat n * stride) = unat b + n * unat stride"
    using assms(3) by (subst unat_add_lem [THEN iffD1]) (simp_all add: ns)
  have "0 < unat b" using assms(1) by (simp add: unat_gt_0)
  then have nz: "b + of_nat n * stride \<noteq> 0" using e by (metis add_is_0 less_irrefl unat_0)
  have sz: "section_size stride r = of_nat n * stride div stride"
    using assms(1) nz by (simp add: section_size_def section_begin_def section_end_def assms(4) Let_def)
  show "unat (section_size stride r) = n" unfolding sz using s by (simp add: unat_div_distrib ns)
  have "of_nat n * stride = 0 \<longleftrightarrow> n = 0" using ns s by (metis mult_is_0 neq0_conv unat_eq_0)
  then show "section_empty r \<longleftrightarrow> n = 0"
    using assms(1) nz by (simp add: section_empty_def section_begin_def section_end_def assms(4))
qed (simp_all add: section_size_def section_empty_def section_begin_def section_end_def)

end
