(* ===== verification/Entry.thy ===== *)
theory Entry
  imports Boot_Plan Multiboot2_Correct Posix_Misc
begin

text \<open>
  The C++ ends of the boot: \<^verbatim>\<open>kernel/boot/multiboot2/entry.cpp\<close>, which stores what the loader
  passed and runs \<^verbatim>\<open>kernel_main\<close>, and \<^verbatim>\<open>entry/start.cpp\<close>, which runs the application.
\<close>

text \<open>\<open>store\<close> sets the two variables of the adapter in the state of the kernel.\<close>

definition multiboot2_entry ::
    "(handoff \<Rightarrow> 's \<Rightarrow> 's) \<Rightarrow> (init_event \<Rightarrow> 's \<Rightarrow> 's) \<Rightarrow> 's base_init \<Rightarrow> ('s \<Rightarrow> bool)
      \<Rightarrow> u64 \<Rightarrow> u64 \<Rightarrow> 's \<Rightarrow> 's outcome option" where
  "multiboot2_entry store emit base lapic_ready magic info s =
     kernel_main emit base lapic_ready (store (set_handoff magic info) s)"

text \<open>The application, when one is linked, is a function on the state that returns its status.\<close>

definition doom_os_start_application :: "(posix \<Rightarrow> int \<times> posix) option \<Rightarrow> posix \<Rightarrow> posix" where
  "doom_os_start_application application p =
     (case application of
        Some main \<Rightarrow> (let (status, p) = main p in posix_exit status p)
      | None \<Rightarrow> posix_exit 0 (print_line (kprintln_ct ''[app] no application linked'' []) p))"

section \<open>What the start-up keeps\<close>

text \<open>\<open>keeps P r\<close>: if the run returns, the state it returns satisfies \<open>P\<close>.\<close>

definition keeps :: "('s \<Rightarrow> bool) \<Rightarrow> ('a \<times> 's) outcome \<Rightarrow> bool" where
  "keeps P r \<longleftrightarrow> (\<forall>a s. r = Return (a, s) \<longrightarrow> P s)"

definition init_keeps :: "('s \<Rightarrow> bool) \<Rightarrow> ('c, 's) init_table \<Rightarrow> bool" where
  "init_keeps P ini \<longleftrightarrow> (\<forall>c s. P s \<longrightarrow> keeps P (ini c s))"

lemma runner_keeps:
  assumes "\<And>c s. P s \<Longrightarrow> keeps P (run c s)" "P s"
  shows "keeps P (init_list_runner run cs s)"
  using assms(2)
proof (induction cs arbitrary: s)
  case (Cons c cs)
  then show ?case using assms(1) [OF Cons.prems, of c]
    by (auto simp: keeps_def split: outcome.splits bool.splits prod.splits)
qed (simp add: keeps_def)

lemma component_keeps:
  assumes "init_keeps P ini" "P s"
  shows "keeps P (run_component_silent ini c s)"
    and "(\<And>e s. P s \<Longrightarrow> P (emit e s)) \<Longrightarrow> keeps P (run_component_logged ini (kernel_logger emit b) c s)"
  using assms
  by (auto simp: keeps_def init_keeps_def run_component_silent_def run_component_logged_def kernel_logger_def
      split: outcome.splits sum.splits prod.splits) blast+

lemma graph_keeps:
  assumes "init_keeps P ini" "P s" "\<And>e s. P s \<Longrightarrow> P (emit e s)"
  shows "run_init_graph deps ini (kernel_logger emit b) roots s = Some r \<Longrightarrow> keeps P r"
    and "run_init_graph_after deps ini (kernel_logger emit b) roots satisfied s = Some r \<Longrightarrow> keeps P r"
    and "run_init_graph_silent deps ini roots s = Some r \<Longrightarrow> keeps P r"
  using assms
  by (auto simp: run_init_graph_def run_init_graph_after_def run_init_graph_silent_def split: option.splits
      intro!: runner_keeps component_keeps)

lemma or_unspecified_keeps: "(\<And>x. r = Some x \<Longrightarrow> keeps P x) \<Longrightarrow> keeps P (or_unspecified r)"
  by (auto simp: or_unspecified_def keeps_def split: option.splits outcome.splits bool.splits prod.splits)

lemma or_halt_keeps:
  assumes "init_keeps P ini" "P s" "\<And>e s. P s \<Longrightarrow> P (emit e s)"
    and "run_init_graph_or_halt deps ini (kernel_logger emit b) roots s = Some (Return s')"
  shows "P s'"
  using assms(4) graph_keeps(1) [OF assms(1-3), where roots = roots and b = b and deps = deps]
  by (auto simp: run_init_graph_or_halt_def keeps_def split: option.splits outcome.splits bool.splits prod.splits)

lemma kernel_init_keeps:
  assumes base: "\<And>b. init_keeps P (base b)" and emit: "\<And>e s. P s \<Longrightarrow> P (emit e s)"
  shows "init_keeps P (kernel_init emit base lapic_ready)"
proof -
  have after: "keeps P x" if "init_late_core emit base cpu s = Some x" "P s" for cpu s x
    using graph_keeps(2) [OF base that(2) emit] that(1) by (auto simp: init_late_core_def)
  have core: "keeps P x" if x: "core_init_core emit base lapic_ready cpu s = Some x" and s: "P s" for cpu s x
  proof -
    obtain r where r: "run_init_graph deps_of (base (Core cpu)) (kernel_logger emit (Core cpu)) early_core_roots s = Some r"
      using x by (auto simp: core_init_core_def split: option.splits)
    have k: "keeps P r" by (rule graph_keeps(1) [OF base s emit r])
    have "x = r \<or> (\<exists>s1. r = Return (True, s1) \<and> init_late_core emit base cpu s1 = Some x)"
      using x unfolding core_init_core_def r by (auto simp: init_late_core_def split: outcome.splits bool.splits prod.splits if_splits)
    then show ?thesis using k after by (auto simp: keeps_def)
  qed
  have lapic: "keeps P (init_lapic emit base s)" if "P s" for s
  proof (cases "base No_Backing LAPIC s")
    case (Return rs)
    then obtain r s1 where rs: "base No_Backing LAPIC s = Return (r, s1)" by (cases rs) auto
    then have "P s1" using base [of No_Backing] that by (auto simp: init_keeps_def keeps_def)
    then have "keeps P (or_unspecified (init_late_core emit base 0 s1))" using after by (intro or_unspecified_keeps)
    then show ?thesis using \<open>P s1\<close> by (cases r) (simp_all add: init_lapic_def rs keeps_def)
  qed (simp add: init_lapic_def keeps_def)
  have "keeps P (kernel_init emit base lapic_ready c s)" if "P s" for c s
    using that base [of No_Backing] lapic core [of 0 s]
    by (cases c) (auto simp: init_keeps_def core_init_init_def intro!: or_unspecified_keeps)
  then show ?thesis by (simp add: init_keeps_def)
qed

text \<open>
  Whatever every initialiser and every log line keeps, the whole start-up keeps: in particular
  the values of the loader reach the boot protocol, and the application, unchanged.
\<close>

theorem entry_keeps_handoff:
  assumes "\<And>h s. get (store h s) = h"
    and "\<And>b c s r s'. base b c s = Return (r, s') \<Longrightarrow> get s' = get s" and "\<And>e s. get (emit e s) = get s"
    and "multiboot2_entry store emit base lapic_ready magic info s = Some (Return s')"
  shows "get s' = set_handoff magic info"
proof -
  let ?P = "\<lambda>s. get s = set_handoff magic info" and ?s = "store (set_handoff magic info) s"
  have base: "init_keeps ?P (base b)" for b using assms(2) by (auto simp: init_keeps_def keeps_def)
  have emit: "?P s \<Longrightarrow> ?P (emit e s)" for e s using assms(3) by simp
  note ini = kernel_init_keeps [of ?P, OF base emit, where lapic_ready = lapic_ready]
  let ?ini = "kernel_init emit base lapic_ready" and ?log = "kernel_logger emit No_Backing"
  obtain r s1 s2 where r: "run_init_graph_silent deps_of ?ini early_boot_roots ?s = Some (Return (r, s1))"
    and s2: "run_init_graph_or_halt deps_of ?ini ?log platform_roots (emit Ev_Kernel_Boot s1) = Some (Return s2)"
    and s': "run_init_graph_or_halt deps_of ?ini ?log boot_roots s2 = Some (Return s')"
    using assms(4) by (auto simp: multiboot2_entry_def kernel_main_def Let_def split: option.splits outcome.splits)
  have "?P ?s" using assms(1) by simp
  then have "?P s1" using graph_keeps(3) [OF ini _ emit r] by (auto simp: keeps_def)
  then have "?P s2" using or_halt_keeps [OF ini emit emit s2] by blast
  then show ?thesis using or_halt_keeps [OF ini _ emit s'] by blast
qed

text \<open>An image without an application says so and ends with status 0.\<close>

theorem no_application_text:
  assumes "m_sink (pconsole p) \<noteq> None"
  shows "written (pconsole (doom_os_start_application None p)) = written (pconsole p)
    @ ''[app] no application linked'' @ [CHR 0x0A] @ ''[app] exited with status 0'' @ [CHR 0x0A]"
proof -
  have "kprintln_ct ''[app] no application linked'' [] = Some (''[app] no application linked'' @ [CHR 0x0A])" by code_simp
  moreover have "kprintln_ct ''[app] exited with status {}'' [Arg_signed (of_int 0)] = Some (''[app] exited with status 0'' @ [CHR 0x0A])"
    by code_simp
  ultimately show ?thesis
    using assms by (auto simp: doom_os_start_application_def posix_exit_def print_line_def console_write_def)
qed

end
